(* ===== verification/Prelude.thy ===== *)
theory Prelude
  imports Main "HOL-Library.Word"
begin

text \<open>
  The prelude of the development. It names the machine integers of the C sources, fixes how
  an octet is written as a sequence of bits on the line (least significant bit first for HDLC,
  CRC and asynchronous serial data, most significant bit first for the transmitted stream), and
  holds the generic lemmas on words, lists and folds that several components share. Facts that
  every client needs are simplification rules or sit in the collections \<open>bit_list_simps\<close>
  (sequences of bits) and \<open>word_list_simps\<close> (words read as sequences of bits).
\<close>

unbundle bit_operations_syntax

section \<open>Machine integers\<close>

type_synonym u8 = "8 word"
type_synonym u16 = "16 word"
type_synonym u32 = "32 word"
type_synonym u64 = "64 word"
type_synonym octets = "u8 list"
type_synonym bits = "bool list"

named_theorems bit_list_simps "facts on octets and words written as lists of bits"
named_theorems word_list_simps "facts on horner sums of bit lists"

section \<open>Octets as bit sequences\<close>

definition bits_lsb :: "u8 \<Rightarrow> bits" where
  "bits_lsb b = map (bit b) [0..<8]"

definition bits_msb :: "u8 \<Rightarrow> bits" where
  "bits_msb b = rev (bits_lsb b)"

definition stream_lsb :: "octets \<Rightarrow> bits" where
  "stream_lsb bs = concat (map bits_lsb bs)"

definition stream_msb :: "octets \<Rightarrow> bits" where
  "stream_msb bs = concat (map bits_msb bs)"

lemma length_bits_lsb [simp]: "length (bits_lsb b) = 8"
  by (simp add: bits_lsb_def)

lemma length_bits_msb [simp]: "length (bits_msb b) = 8"
  by (simp add: bits_msb_def)

lemma stream_lsb_Nil [simp]: "stream_lsb [] = []"
  by (simp add: stream_lsb_def)

lemma stream_lsb_Cons [simp]: "stream_lsb (b # bs) = bits_lsb b @ stream_lsb bs"
  by (simp add: stream_lsb_def)

lemma stream_lsb_append [simp]: "stream_lsb (xs @ ys) = stream_lsb xs @ stream_lsb ys"
  by (simp add: stream_lsb_def)

lemma stream_msb_Nil [simp]: "stream_msb [] = []"
  by (simp add: stream_msb_def)

lemma stream_msb_Cons [simp]: "stream_msb (b # bs) = bits_msb b @ stream_msb bs"
  by (simp add: stream_msb_def)

lemma stream_msb_append [simp]: "stream_msb (xs @ ys) = stream_msb xs @ stream_msb ys"
  by (simp add: stream_msb_def)

lemma length_stream_msb [simp]: "length (stream_msb bs) = 8 * length bs"
  by (induction bs) auto

lemma length_stream_lsb [simp]: "length (stream_lsb bs) = 8 * length bs"
  by (induction bs) auto

lemma bits_lsb_inject [simp]: "bits_lsb a = bits_lsb b \<longleftrightarrow> a = b"
proof
  assume "bits_lsb a = bits_lsb b"
  then have "bit a n = bit b n" if "n < 8" for n
    using that by (auto simp: bits_lsb_def map_eq_conv)
  then show "a = b"
    by (intro bit_word_eqI) simp
qed simp

lemma stream_lsb_inject: "stream_lsb xs = stream_lsb ys \<longleftrightarrow> xs = ys"
proof
  assume eq: "stream_lsb xs = stream_lsb ys"
  then have "length xs = length ys"
    by (metis length_stream_lsb mult_cancel1 zero_neq_numeral)
  then show "xs = ys"
    using eq by (induction xs ys rule: list_induct2) auto
qed simp

lemma stream_msb_inject: "stream_msb xs = stream_msb ys \<longleftrightarrow> xs = ys"
proof
  assume eq: "stream_msb xs = stream_msb ys"
  then have "length xs = length ys"
    by (metis length_stream_msb mult_cancel1 zero_neq_numeral)
  then show "xs = ys"
    using eq by (induction xs ys rule: list_induct2) (auto simp: bits_msb_def)
qed simp

section \<open>Words read from bit sequences\<close>

definition word_of_bits :: "bits \<Rightarrow> 'a::len word" where
  "word_of_bits bs = horner_sum of_bool 2 bs"

lemma word_of_bits_Nil [simp]: "word_of_bits [] = 0"
  by (simp add: word_of_bits_def)

lemma word_of_bits_Cons:
  "word_of_bits (b # bs) = of_bool b + 2 * word_of_bits bs"
  by (simp add: word_of_bits_def)

lemma bit_word_of_bits [bit_list_simps]:
  "bit (word_of_bits bs :: 'a::len word) n \<longleftrightarrow> n < LENGTH('a) \<and> n < length bs \<and> bs ! n"
  by (simp add: word_of_bits_def bit_horner_sum_bit_word_iff)

lemma bits_lsb_nth [bit_list_simps]: "i < 8 \<Longrightarrow> bits_lsb b ! i = bit b i"
  by (simp add: bits_lsb_def)

lemma bit_u8_bound: "bit (b :: u8) n \<Longrightarrow> n < 8"
  using bit_imp_le_length [of b n] by simp

lemma word_of_bits_bits_lsb [simp]:
  "word_of_bits (bits_lsb b) = (ucast b :: 'a::len word)"
  by (rule bit_word_eqI) (auto simp: bit_list_simps bit_simps bit_u8_bound)

lemma word_of_bits_append:
  "word_of_bits (xs @ ys) = (word_of_bits xs OR push_bit (length xs) (word_of_bits ys) :: 'a::len word)"
  by (rule bit_word_eqI) (auto simp: bit_list_simps bit_simps nth_append)

lemma word_of_bits_inj:
  assumes "length xs = length ys" "length xs \<le> LENGTH('a::len)"
    and eq: "word_of_bits xs = (word_of_bits ys :: 'a word)"
  shows "xs = ys"
proof (rule nth_equalityI)
  fix i assume i: "i < length xs"
  from eq have "bit (word_of_bits xs :: 'a word) i = bit (word_of_bits ys :: 'a word) i"
    by simp
  with i assms(1,2) show "xs ! i = ys ! i"
    by (simp add: bit_list_simps)
qed (rule assms(1))

section \<open>Exclusive or on words\<close>

lemma bit_0_xor [simp]: "bit (a XOR b :: 'a::len word) 0 \<longleftrightarrow> bit a 0 \<noteq> bit b 0"
  by (simp add: bit_simps)

lemma word_xor_cancel_left: "(a XOR b = a XOR c) \<longleftrightarrow> b = (c :: 'a::len word)"
  by (metis xor.left_neutral xor_self_eq xor.assoc)

lemma word_xor_cancel_right: "(b XOR a = c XOR a) \<longleftrightarrow> b = (c :: 'a::len word)"
  by (simp add: xor.commute [of _ a] word_xor_cancel_left)

lemma word_xor_not_self: "c XOR NOT c = (-1 :: 'a::len word)"
  by (rule bit_word_eqI) (simp add: bit_simps)

lemma u16_ones: "(0xFFFF :: u16) = -1"
  by transfer (simp add: take_bit_minus_one_eq_mask mask_numeral)

lemma u32_ones: "(0xFFFFFFFF :: u32) = -1"
  by transfer (simp add: take_bit_minus_one_eq_mask mask_numeral)

lemma u8_ones: "(0xFF :: u8) = -1"
  by transfer (simp add: take_bit_minus_one_eq_mask mask_numeral)

section \<open>Memory blocks\<close>

text \<open>
  A C array is a list of octets. An access outside the array is undefined behaviour in C: the
  checked accesses return \<open>None\<close> there, so that a model which returns \<open>Some\<close> has been shown to
  stay inside its buffers.
\<close>

definition mem_read :: "'a list \<Rightarrow> int \<Rightarrow> int \<Rightarrow> 'a list option" where
  "mem_read m i n =
     (if 0 \<le> i \<and> 0 \<le> n \<and> i + n \<le> int (length m) then Some (take (nat n) (drop (nat i) m)) else None)"

definition mem_write :: "'a list \<Rightarrow> int \<Rightarrow> 'a list \<Rightarrow> 'a list option" where
  "mem_write m i xs =
     (if 0 \<le> i \<and> i + int (length xs) \<le> int (length m)
      then Some (take (nat i) m @ xs @ drop (nat i + length xs) m) else None)"

lemma mem_read_Some [simp]:
  "0 \<le> i \<Longrightarrow> 0 \<le> n \<Longrightarrow> i + n \<le> int (length m) \<Longrightarrow> mem_read m i n = Some (take (nat n) (drop (nat i) m))"
  by (simp add: mem_read_def)

lemma mem_write_Some [simp]:
  "0 \<le> i \<Longrightarrow> i + int (length xs) \<le> int (length m) \<Longrightarrow>
   mem_write m i xs = Some (take (nat i) m @ xs @ drop (nat i + length xs) m)"
  by (simp add: mem_write_def)

lemma mem_write_length: "mem_write m i xs = Some m' \<Longrightarrow> length m' = length m"
  by (auto simp: mem_write_def split: if_splits)

lemma mem_read_length: "mem_read m i n = Some xs \<Longrightarrow> int (length xs) = n"
  by (auto simp: mem_read_def split: if_splits)

lemma bits_msb_nth: "i < 8 \<Longrightarrow> bits_msb x ! i = bit x (7 - i)"
  by (simp add: bits_msb_def rev_nth bits_lsb_nth)

end
