(* ===== verification/Crc.thy ===== *)
theory Crc
  imports Prelude
begin

text \<open>
  The cyclic redundancy checks of \<^verbatim>\<open>spandsp-0.0.6/src/crc.c\<close>: the table driven ITU CRC-16 and
  CRC-32, with their tables as the source has them. The reference definition is the bit serial
  shift register \<open>crc_bit\<close> fed with the message least significant bit first. The locale
  \<open>crc_table\<close> states what a table must satisfy and derives, once for both widths, that a table
  step is eight register steps, that the register is injective, and the residue of a message
  with its complemented remainder.
\<close>

section \<open>The reference shift register\<close>

definition crc_bit :: "'a::len word \<Rightarrow> 'a word \<Rightarrow> 'a word" where
  "crc_bit poly c = (if bit c 0 then drop_bit 1 c XOR poly else drop_bit 1 c)"

fun crc_serial :: "'a::len word \<Rightarrow> 'a word \<Rightarrow> bits \<Rightarrow> 'a word" where
  "crc_serial poly c [] = c"
| "crc_serial poly c (b # bs) = crc_serial poly (crc_bit poly (c XOR of_bool b)) bs"

section \<open>The tables and the operations of the source\<close>

definition crc_itu32_table :: "u32 list" where
  "crc_itu32_table = [
    0x00000000, 0x77073096, 0xEE0E612C, 0x990951BA,
    0x076DC419, 0x706AF48F, 0xE963A535, 0x9E6495A3,
    0x0EDB8832, 0x79DCB8A4, 0xE0D5E91E, 0x97D2D988,
    0x09B64C2B, 0x7EB17CBD, 0xE7B82D07, 0x90BF1D91,
    0x1DB71064, 0x6AB020F2, 0xF3B97148, 0x84BE41DE,
    0x1ADAD47D, 0x6DDDE4EB, 0xF4D4B551, 0x83D385C7,
    0x136C9856, 0x646BA8C0, 0xFD62F97A, 0x8A65C9EC,
    0x14015C4F, 0x63066CD9, 0xFA0F3D63, 0x8D080DF5,
    0x3B6E20C8, 0x4C69105E, 0xD56041E4, 0xA2677172,
    0x3C03E4D1, 0x4B04D447, 0xD20D85FD, 0xA50AB56B,
    0x35B5A8FA, 0x42B2986C, 0xDBBBC9D6, 0xACBCF940,
    0x32D86CE3, 0x45DF5C75, 0xDCD60DCF, 0xABD13D59,
    0x26D930AC, 0x51DE003A, 0xC8D75180, 0xBFD06116,
    0x21B4F4B5, 0x56B3C423, 0xCFBA9599, 0xB8BDA50F,
    0x2802B89E, 0x5F058808, 0xC60CD9B2, 0xB10BE924,
    0x2F6F7C87, 0x58684C11, 0xC1611DAB, 0xB6662D3D,
    0x76DC4190, 0x01DB7106, 0x98D220BC, 0xEFD5102A,
    0x71B18589, 0x06B6B51F, 0x9FBFE4A5, 0xE8B8D433,
    0x7807C9A2, 0x0F00F934, 0x9609A88E, 0xE10E9818,
    0x7F6A0DBB, 0x086D3D2D, 0x91646C97, 0xE6635C01,
    0x6B6B51F4, 0x1C6C6162, 0x856530D8, 0xF262004E,
    0x6C0695ED, 0x1B01A57B, 0x8208F4C1, 0xF50FC457,
    0x65B0D9C6, 0x12B7E950, 0x8BBEB8EA, 0xFCB9887C,
    0x62DD1DDF, 0x15DA2D49, 0x8CD37CF3, 0xFBD44C65,
    0x4DB26158, 0x3AB551CE, 0xA3BC0074, 0xD4BB30E2,
    0x4ADFA541, 0x3DD895D7, 0xA4D1C46D, 0xD3D6F4FB,
    0x4369E96A, 0x346ED9FC, 0xAD678846, 0xDA60B8D0,
    0x44042D73, 0x33031DE5, 0xAA0A4C5F, 0xDD0D7CC9,
    0x5005713C, 0x270241AA, 0xBE0B1010, 0xC90C2086,
    0x5768B525, 0x206F85B3, 0xB966D409, 0xCE61E49F,
    0x5EDEF90E, 0x29D9C998, 0xB0D09822, 0xC7D7A8B4,
    0x59B33D17, 0x2EB40D81, 0xB7BD5C3B, 0xC0BA6CAD,
    0xEDB88320, 0x9ABFB3B6, 0x03B6E20C, 0x74B1D29A,
    0xEAD54739, 0x9DD277AF, 0x04DB2615, 0x73DC1683,
    0xE3630B12, 0x94643B84, 0x0D6D6A3E, 0x7A6A5AA8,
    0xE40ECF0B, 0x9309FF9D, 0x0A00AE27, 0x7D079EB1,
    0xF00F9344, 0x8708A3D2, 0x1E01F268, 0x6906C2FE,
    0xF762575D, 0x806567CB, 0x196C3671, 0x6E6B06E7,
    0xFED41B76, 0x89D32BE0, 0x10DA7A5A, 0x67DD4ACC,
    0xF9B9DF6F, 0x8EBEEFF9, 0x17B7BE43, 0x60B08ED5,
    0xD6D6A3E8, 0xA1D1937E, 0x38D8C2C4, 0x4FDFF252,
    0xD1BB67F1, 0xA6BC5767, 0x3FB506DD, 0x48B2364B,
    0xD80D2BDA, 0xAF0A1B4C, 0x36034AF6, 0x41047A60,
    0xDF60EFC3, 0xA867DF55, 0x316E8EEF, 0x4669BE79,
    0xCB61B38C, 0xBC66831A, 0x256FD2A0, 0x5268E236,
    0xCC0C7795, 0xBB0B4703, 0x220216B9, 0x5505262F,
    0xC5BA3BBE, 0xB2BD0B28, 0x2BB45A92, 0x5CB36A04,
    0xC2D7FFA7, 0xB5D0CF31, 0x2CD99E8B, 0x5BDEAE1D,
    0x9B64C2B0, 0xEC63F226, 0x756AA39C, 0x026D930A,
    0x9C0906A9, 0xEB0E363F, 0x72076785, 0x05005713,
    0x95BF4A82, 0xE2B87A14, 0x7BB12BAE, 0x0CB61B38,
    0x92D28E9B, 0xE5D5BE0D, 0x7CDCEFB7, 0x0BDBDF21,
    0x86D3D2D4, 0xF1D4E242, 0x68DDB3F8, 0x1FDA836E,
    0x81BE16CD, 0xF6B9265B, 0x6FB077E1, 0x18B74777,
    0x88085AE6, 0xFF0F6A70, 0x66063BCA, 0x11010B5C,
    0x8F659EFF, 0xF862AE69, 0x616BFFD3, 0x166CCF45,
    0xA00AE278, 0xD70DD2EE, 0x4E048354, 0x3903B3C2,
    0xA7672661, 0xD06016F7, 0x4969474D, 0x3E6E77DB,
    0xAED16A4A, 0xD9D65ADC, 0x40DF0B66, 0x37D83BF0,
    0xA9BCAE53, 0xDEBB9EC5, 0x47B2CF7F, 0x30B5FFE9,
    0xBDBDF21C, 0xCABAC28A, 0x53B39330, 0x24B4A3A6,
    0xBAD03605, 0xCDD70693, 0x54DE5729, 0x23D967BF,
    0xB3667A2E, 0xC4614AB8, 0x5D681B02, 0x2A6F2B94,
    0xB40BBE37, 0xC30C8EA1, 0x5A05DF1B, 0x2D02EF8D]"

definition crc_itu32_step :: "u32 \<Rightarrow> u8 \<Rightarrow> u32" where
  "crc_itu32_step crc b =
     (drop_bit 8 crc AND 0x00FFFFFF) XOR crc_itu32_table ! unat ((crc XOR ucast b) AND 0xFF)"

fun crc_itu32_calc :: "octets \<Rightarrow> u32 \<Rightarrow> u32" where
  "crc_itu32_calc [] crc = crc"
| "crc_itu32_calc (b # buf) crc = crc_itu32_calc buf (crc_itu32_step crc b)"

definition crc_itu32_append :: "octets \<Rightarrow> octets" where
  "crc_itu32_append buf =
     (let crc = crc_itu32_calc buf 0xFFFFFFFF XOR 0xFFFFFFFF
      in buf @ [ucast crc, ucast (drop_bit 8 crc), ucast (drop_bit 16 crc), ucast (drop_bit 24 crc)])"

definition crc_itu32_check :: "octets \<Rightarrow> bool" where
  "crc_itu32_check buf \<longleftrightarrow> crc_itu32_calc buf 0xFFFFFFFF = 0xDEBB20E3"

definition crc_itu16_table :: "u16 list" where
  "crc_itu16_table = [
    0x0000, 0x1189, 0x2312, 0x329B, 0x4624, 0x57AD, 0x6536, 0x74BF,
    0x8C48, 0x9DC1, 0xAF5A, 0xBED3, 0xCA6C, 0xDBE5, 0xE97E, 0xF8F7,
    0x1081, 0x0108, 0x3393, 0x221A, 0x56A5, 0x472C, 0x75B7, 0x643E,
    0x9CC9, 0x8D40, 0xBFDB, 0xAE52, 0xDAED, 0xCB64, 0xF9FF, 0xE876,
    0x2102, 0x308B, 0x0210, 0x1399, 0x6726, 0x76AF, 0x4434, 0x55BD,
    0xAD4A, 0xBCC3, 0x8E58, 0x9FD1, 0xEB6E, 0xFAE7, 0xC87C, 0xD9F5,
    0x3183, 0x200A, 0x1291, 0x0318, 0x77A7, 0x662E, 0x54B5, 0x453C,
    0xBDCB, 0xAC42, 0x9ED9, 0x8F50, 0xFBEF, 0xEA66, 0xD8FD, 0xC974,
    0x4204, 0x538D, 0x6116, 0x709F, 0x0420, 0x15A9, 0x2732, 0x36BB,
    0xCE4C, 0xDFC5, 0xED5E, 0xFCD7, 0x8868, 0x99E1, 0xAB7A, 0xBAF3,
    0x5285, 0x430C, 0x7197, 0x601E, 0x14A1, 0x0528, 0x37B3, 0x263A,
    0xDECD, 0xCF44, 0xFDDF, 0xEC56, 0x98E9, 0x8960, 0xBBFB, 0xAA72,
    0x6306, 0x728F, 0x4014, 0x519D, 0x2522, 0x34AB, 0x0630, 0x17B9,
    0xEF4E, 0xFEC7, 0xCC5C, 0xDDD5, 0xA96A, 0xB8E3, 0x8A78, 0x9BF1,
    0x7387, 0x620E, 0x5095, 0x411C, 0x35A3, 0x242A, 0x16B1, 0x0738,
    0xFFCF, 0xEE46, 0xDCDD, 0xCD54, 0xB9EB, 0xA862, 0x9AF9, 0x8B70,
    0x8408, 0x9581, 0xA71A, 0xB693, 0xC22C, 0xD3A5, 0xE13E, 0xF0B7,
    0x0840, 0x19C9, 0x2B52, 0x3ADB, 0x4E64, 0x5FED, 0x6D76, 0x7CFF,
    0x9489, 0x8500, 0xB79B, 0xA612, 0xD2AD, 0xC324, 0xF1BF, 0xE036,
    0x18C1, 0x0948, 0x3BD3, 0x2A5A, 0x5EE5, 0x4F6C, 0x7DF7, 0x6C7E,
    0xA50A, 0xB483, 0x8618, 0x9791, 0xE32E, 0xF2A7, 0xC03C, 0xD1B5,
    0x2942, 0x38CB, 0x0A50, 0x1BD9, 0x6F66, 0x7EEF, 0x4C74, 0x5DFD,
    0xB58B, 0xA402, 0x9699, 0x8710, 0xF3AF, 0xE226, 0xD0BD, 0xC134,
    0x39C3, 0x284A, 0x1AD1, 0x0B58, 0x7FE7, 0x6E6E, 0x5CF5, 0x4D7C,
    0xC60C, 0xD785, 0xE51E, 0xF497, 0x8028, 0x91A1, 0xA33A, 0xB2B3,
    0x4A44, 0x5BCD, 0x6956, 0x78DF, 0x0C60, 0x1DE9, 0x2F72, 0x3EFB,
    0xD68D, 0xC704, 0xF59F, 0xE416, 0x90A9, 0x8120, 0xB3BB, 0xA232,
    0x5AC5, 0x4B4C, 0x79D7, 0x685E, 0x1CE1, 0x0D68, 0x3FF3, 0x2E7A,
    0xE70E, 0xF687, 0xC41C, 0xD595, 0xA12A, 0xB0A3, 0x8238, 0x93B1,
    0x6B46, 0x7ACF, 0x4854, 0x59DD, 0x2D62, 0x3CEB, 0x0E70, 0x1FF9,
    0xF78F, 0xE606, 0xD49D, 0xC514, 0xB1AB, 0xA022, 0x92B9, 0x8330,
    0x7BC7, 0x6A4E, 0x58D5, 0x495C, 0x3DE3, 0x2C6A, 0x1EF1, 0x0F78]"

definition crc_itu16_step :: "u16 \<Rightarrow> u8 \<Rightarrow> u16" where
  "crc_itu16_step crc b =
     drop_bit 8 crc XOR crc_itu16_table ! unat ((crc XOR ucast b) AND 0xFF)"

fun crc_itu16_calc :: "octets \<Rightarrow> u16 \<Rightarrow> u16" where
  "crc_itu16_calc [] crc = crc"
| "crc_itu16_calc (b # buf) crc = crc_itu16_calc buf (crc_itu16_step crc b)"

definition crc_itu16_append :: "octets \<Rightarrow> octets" where
  "crc_itu16_append buf =
     (let crc = crc_itu16_calc buf 0xFFFF XOR 0xFFFF
      in buf @ [ucast crc, ucast (drop_bit 8 crc)])"

definition crc_itu16_check :: "octets \<Rightarrow> bool" where
  "crc_itu16_check buf \<longleftrightarrow> crc_itu16_calc buf 0xFFFF AND 0xFFFF = 0xF0B8"

section \<open>The shift register is linear\<close>

lemma crc_bit_xor: "crc_bit p (a XOR b) = crc_bit p a XOR crc_bit p b"
  by (rule bit_word_eqI) (auto simp: crc_bit_def bit_simps)

lemma crc_bit_0 [simp]: "crc_bit p 0 = 0"
  by (simp add: crc_bit_def)

lemma funpow_crc_bit_xor:
  "(crc_bit p ^^ n) (a XOR b) = (crc_bit p ^^ n) a XOR (crc_bit p ^^ n) b"
  by (induction n) (simp_all add: crc_bit_xor)

lemma funpow_crc_bit_0 [simp]: "(crc_bit p ^^ n) 0 = 0"
  by (induction n) simp_all

lemma crc_bit_shift:
  "\<not> bit c 0 \<Longrightarrow> crc_bit p c = drop_bit 1 c"
  by (simp add: crc_bit_def)

lemma funpow_crc_bit_high:
  "(\<And>i. i < n \<Longrightarrow> \<not> bit c i) \<Longrightarrow> (crc_bit p ^^ n) c = drop_bit n c"
proof (induction n arbitrary: c)
  case 0
  then show ?case by simp
next
  case (Suc n)
  have "(crc_bit p ^^ Suc n) c = (crc_bit p ^^ n) (crc_bit p c)"
    by (simp add: funpow_swap1)
  also have "crc_bit p c = drop_bit 1 c"
    using Suc.prems [of 0] by (simp add: crc_bit_shift)
  also have "(crc_bit p ^^ n) (drop_bit 1 c) = drop_bit n (drop_bit 1 c)"
    using Suc.prems by (intro Suc.IH) (auto simp: bit_simps)
  finally show ?case by simp
qed

lemma crc_bit_inj:
  fixes p :: "'a::len word"
  assumes p: "bit p (LENGTH('a) - 1)"
  shows "inj (crc_bit p)"
proof (rule injI)
  fix a b assume eq: "crc_bit p a = crc_bit p b"
  have top: "bit (crc_bit p c) (LENGTH('a) - 1) = bit c 0" for c
    using p by (auto simp: crc_bit_def bit_simps)
  from eq have "bit a 0 = bit b 0"
    by (metis top)
  moreover from this eq have "drop_bit 1 a = drop_bit 1 b"
    by (auto simp: crc_bit_def word_xor_cancel_right split: if_splits)
  then have "bit a (Suc n) = bit b (Suc n)" for n
    by (metis bit_drop_bit_eq comp_apply plus_1_eq_Suc)
  ultimately show "a = b"
    by (intro bit_word_eqI) (metis not0_implies_Suc)
qed

text \<open>
  Feeding at most a register width of bits one at a time is the same as adding them to the
  register at once and shifting that often.
\<close>

lemma crc_serial_eq_funpow:
  fixes p :: "'a::len word"
  shows "length bs \<le> LENGTH('a) \<Longrightarrow>
    crc_serial p c bs = (crc_bit p ^^ length bs) (c XOR word_of_bits bs)"
proof (induction bs arbitrary: c)
  case Nil
  then show ?case by simp
next
  case (Cons b bs)
  let ?w = "word_of_bits bs :: 'a word"
  have split: "(word_of_bits (b # bs) :: 'a word) = of_bool b XOR 2 * ?w"
    by (rule bit_word_eqI) (auto simp: bit_list_simps bit_simps nth_Cons')
  have shift: "crc_bit p (2 * ?w) = ?w"
    using Cons.prems by (intro bit_word_eqI) (auto simp: crc_bit_def bit_list_simps bit_simps)
  have "crc_serial p c (b # bs) = (crc_bit p ^^ length bs) (crc_bit p (c XOR of_bool b) XOR ?w)"
    using Cons by simp
  also have "crc_bit p (c XOR of_bool b) XOR ?w = crc_bit p (c XOR word_of_bits (b # bs))"
    by (simp only: split crc_bit_xor shift xor.assoc)
  finally show ?case
    by (simp add: funpow_swap1)
qed

lemma crc_serial_append: "crc_serial p c (xs @ ys) = crc_serial p (crc_serial p c xs) ys"
  by (induction xs arbitrary: c) simp_all

lemma crc_serial_inj:
  assumes "inj (crc_bit p)" and "crc_serial p c xs = crc_serial p d xs"
  shows "c = d"
  using assms(2)
proof (induction xs arbitrary: c d)
  case Nil
  then show ?case by simp
next
  case (Cons b bs)
  then have "crc_bit p (c XOR of_bool b) = crc_bit p (d XOR of_bool b)"
    by (auto intro: Cons.IH)
  from injD [OF assms(1) this] show ?case
    by (simp only: word_xor_cancel_right)
qed

section \<open>Tables generated from their entries at powers of two\<close>

fun xor_span :: "'a::len word list \<Rightarrow> 'a word list" where
  "xor_span [] = [0]"
| "xor_span (b # bs) = (let s = xor_span bs in s @ map (\<lambda>x. x XOR b) s)"

lemma of_nat_add_pow2:
  assumes "i < 2 ^ n"
  shows "(of_nat (i + 2 ^ n) :: 'a::len word) = of_nat i XOR 2 ^ n"
proof -
  have "take_bit n i = i"
    using assms by (simp add: take_bit_nat_eq_self)
  then have "\<not> bit i n"
    by (metis bit_take_bit_iff less_irrefl)
  then have "i AND 2 ^ n = 0"
    by (intro bit_eqI) (auto simp: bit_simps)
  then have "i + 2 ^ n = (i XOR 2 ^ n :: nat)"
    by (rule disjunctive_add_eq_xor)
  then show ?thesis
    by (simp only: of_nat_xor_eq) simp
qed

lemma xor_span_linear:
  fixes f :: "'a::len word \<Rightarrow> 'a word"
  assumes lin: "\<And>a b. f (a XOR b) = f a XOR f b" and f0: "f 0 = 0"
    and bs: "bs = map (\<lambda>k. f (2 ^ k)) (rev [0..<n])"
  shows "xor_span bs = map (\<lambda>i. f (of_nat i)) [0..<2 ^ n]"
  using bs
proof (induction n arbitrary: bs)
  case 0
  then show ?case by (simp add: f0)
next
  case (Suc n)
  have up: "[0..<2 ^ Suc n] = [0..<2 ^ n] @ map (\<lambda>i. i + 2 ^ n) [0..<2 ^ n]"
    using upt_add_eq_append [of 0 "2 ^ n" "2 ^ n"] by (simp add: map_add_upt mult_2)
  have IH: "xor_span (map (\<lambda>k. f (2 ^ k)) (rev [0..<n])) = map (\<lambda>i. f (of_nat i)) [0..<2 ^ n]"
    by (rule Suc.IH) (rule refl)
  have "xor_span bs = map (\<lambda>i. f (of_nat i)) [0..<2 ^ n] @
      map (\<lambda>i. f (of_nat i) XOR f (2 ^ n)) [0..<2 ^ n]"
    unfolding Suc.prems by (simp add: IH Let_def comp_def)
  also have "map (\<lambda>i. f (of_nat i) XOR f (2 ^ n)) [0..<2 ^ n] =
      map (\<lambda>i. f (of_nat (i + 2 ^ n))) [0..<2 ^ n]"
    by (rule map_cong [OF refl]) (simp only: of_nat_add_pow2 lin atLeastLessThan_iff set_upt)
  finally show ?case
    by (simp only: up map_append map_map comp_def)
qed

lemma crc_itu16_table_span:
  "crc_itu16_table = xor_span [0x8408, 0x4204, 0x2102, 0x1081, 0x8C48, 0x4624, 0x2312, 0x1189]"
  by (simp add: crc_itu16_table_def Let_def)

lemma crc_itu32_table_span:
  "crc_itu32_table = xor_span [0xEDB88320, 0x76DC4190, 0x3B6E20C8, 0x1DB71064, 0x0EDB8832,
     0x076DC419, 0xEE0E612C, 0x77073096]"
  by (simp add: crc_itu32_table_def Let_def)

section \<open>What a table promises\<close>

locale crc_table =
  fixes poly :: "'a::len word" and table :: "'a word list"
  assumes width: "8 \<le> LENGTH('a)"
    and poly_top: "bit poly (LENGTH('a) - 1)"
    and entries: "table = map (\<lambda>i. (crc_bit poly ^^ 8) (of_nat i)) [0..<256]"
begin

lemma register_inj: "inj (crc_bit poly)"
  by (rule crc_bit_inj) (rule poly_top)

lemma lookup: "table ! unat (x AND 0xFF) = (crc_bit poly ^^ 8) (x AND 0xFF)"
proof -
  have "x AND 0xFF = take_bit 8 x"
    by (simp add: take_bit_eq_mask mask_numeral)
  then have "unat (x AND 0xFF) < 256"
    using take_bit_nat_less_exp [of 8 "unat x"] by (simp add: unsigned_take_bit_eq)
  then show ?thesis
    by (simp add: entries)
qed

lemma step_bits:
  "drop_bit 8 crc XOR table ! unat ((crc XOR ucast b) AND 0xFF) = crc_serial poly crc (bits_lsb b)"
proof -
  let ?x = "crc XOR ucast b"
  let ?lo = "?x AND 0xFF" and ?hi = "push_bit 8 (drop_bit 8 crc)"
  have lo: "?lo = take_bit 8 ?x"
    by (simp add: take_bit_eq_mask mask_numeral)
  have split: "?x = ?hi XOR ?lo"
    unfolding lo by (rule bit_word_eqI) (auto simp: bit_simps bit_u8_bound)
  have hi: "(crc_bit poly ^^ 8) ?hi = drop_bit 8 crc"
  proof -
    have "(crc_bit poly ^^ 8) ?hi = drop_bit 8 ?hi"
      by (rule funpow_crc_bit_high) (simp add: bit_simps)
    also have "\<dots> = drop_bit 8 crc"
      by (rule bit_word_eqI) (auto simp: bit_simps dest: bit_imp_le_length)
    finally show ?thesis .
  qed
  have "crc_serial poly crc (bits_lsb b) = (crc_bit poly ^^ 8) ?x"
    using width by (simp add: crc_serial_eq_funpow)
  also have "\<dots> = (crc_bit poly ^^ 8) ?hi XOR (crc_bit poly ^^ 8) ?lo"
    by (subst split) (rule funpow_crc_bit_xor)
  finally show ?thesis
    by (simp only: hi lookup)
qed

lemma residue:
  assumes "8 * length fcs = LENGTH('a)" and "word_of_bits (stream_lsb fcs) = NOT c"
  shows "crc_serial poly c (stream_lsb fcs) = (crc_bit poly ^^ LENGTH('a)) (-1)"
  using assms by (simp add: crc_serial_eq_funpow word_xor_not_self)

lemma residue_only:
  assumes len: "8 * length fcs = LENGTH('a)"
    and res: "crc_serial poly c (stream_lsb fcs) = (crc_bit poly ^^ LENGTH('a)) (-1)"
  shows "word_of_bits (stream_lsb fcs) = NOT c"
proof -
  have "(crc_bit poly ^^ LENGTH('a)) (c XOR word_of_bits (stream_lsb fcs)) =
      (crc_bit poly ^^ LENGTH('a)) (-1)"
    using len res by (simp add: crc_serial_eq_funpow)
  then have "c XOR word_of_bits (stream_lsb fcs) = c XOR NOT c"
    unfolding word_xor_not_self by (rule injD [OF inj_fn [OF register_inj]])
  then show ?thesis
    by (simp only: word_xor_cancel_left)
qed

lemma burst_detected:
  assumes len: "length e1 = length e2" "length e1 \<le> LENGTH('a)" and diff: "e1 \<noteq> e2"
  shows "crc_serial poly c (pre @ e1 @ post) \<noteq> crc_serial poly c (pre @ e2 @ post)"
proof
  let ?d = "crc_serial poly c pre"
  assume "crc_serial poly c (pre @ e1 @ post) = crc_serial poly c (pre @ e2 @ post)"
  then have "crc_serial poly ?d e1 = crc_serial poly ?d e2"
    by (auto simp: crc_serial_append intro: crc_serial_inj [OF register_inj])
  then have "(crc_bit poly ^^ length e2) (?d XOR word_of_bits e1) =
      (crc_bit poly ^^ length e2) (?d XOR word_of_bits e2)"
    using len by (simp add: crc_serial_eq_funpow)
  then have "word_of_bits e1 = (word_of_bits e2 :: 'a word)"
    using injD [OF inj_fn [OF register_inj]] word_xor_cancel_left by metis
  with len diff show False
    using word_of_bits_inj by blast
qed

end

lemma funpow_8: "(f ^^ 8) x = f (f (f (f (f (f (f (f x)))))))"
  by (simp add: numeral_eq_Suc)

lemma octet_positions: "rev [0..<8] = [7, 6, 5, 4, 3, 2, 1, 0::nat]"
  by (simp add: upt_rec)

interpretation crc16: crc_table "0x8408 :: u16" crc_itu16_table
proof unfold_locales
  have "[0x8408, 0x4204, 0x2102, 0x1081, 0x8C48, 0x4624, 0x2312, 0x1189] =
      map (\<lambda>k. (crc_bit 0x8408 ^^ 8) (2 ^ k :: u16)) (rev [0..<8])"
    by (simp add: octet_positions funpow_8 crc_bit_def)
  from xor_span_linear [OF funpow_crc_bit_xor funpow_crc_bit_0 this] show
    "crc_itu16_table = map (\<lambda>i. (crc_bit 0x8408 ^^ 8) (of_nat i)) [0..<256]"
    unfolding crc_itu16_table_span by simp
qed simp_all

interpretation crc32: crc_table "0xEDB88320 :: u32" crc_itu32_table
proof unfold_locales
  have "[0xEDB88320, 0x76DC4190, 0x3B6E20C8, 0x1DB71064, 0x0EDB8832, 0x076DC419, 0xEE0E612C,
      0x77073096] = map (\<lambda>k. (crc_bit 0xEDB88320 ^^ 8) (2 ^ k :: u32)) (rev [0..<8])"
    by (simp add: octet_positions funpow_8 crc_bit_def)
  from xor_span_linear [OF funpow_crc_bit_xor funpow_crc_bit_0 this] show
    "crc_itu32_table = map (\<lambda>i. (crc_bit 0xEDB88320 ^^ 8) (of_nat i)) [0..<256]"
    unfolding crc_itu32_table_span by simp
qed simp_all

section \<open>The operations against the reference\<close>

lemma crc_itu16_step_serial: "crc_itu16_step crc b = crc_serial 0x8408 crc (bits_lsb b)"
  by (simp only: crc_itu16_step_def crc16.step_bits)

lemma crc_itu32_step_serial: "crc_itu32_step crc b = crc_serial 0xEDB88320 crc (bits_lsb b)"
proof -
  have "drop_bit 8 crc AND 0x00FFFFFF = take_bit 24 (drop_bit 8 crc)"
    by (simp add: take_bit_eq_mask mask_numeral)
  also have "\<dots> = drop_bit 8 crc"
    by (rule bit_word_eqI) (auto simp: bit_simps dest: bit_imp_le_length)
  finally show ?thesis
    by (simp only: crc_itu32_step_def crc32.step_bits)
qed

lemma crc_itu16_calc_serial:
  "crc_itu16_calc buf crc = crc_serial 0x8408 crc (stream_lsb buf)"
  by (induction buf arbitrary: crc) (simp_all add: crc_itu16_step_serial crc_serial_append)

lemma crc_itu32_calc_serial:
  "crc_itu32_calc buf crc = crc_serial 0xEDB88320 crc (stream_lsb buf)"
  by (induction buf arbitrary: crc) (simp_all add: crc_itu32_step_serial crc_serial_append)

lemma crc_itu16_calc_append:
  "crc_itu16_calc (xs @ ys) crc = crc_itu16_calc ys (crc_itu16_calc xs crc)"
  by (simp add: crc_itu16_calc_serial crc_serial_append)

lemma crc_itu32_calc_append:
  "crc_itu32_calc (xs @ ys) crc = crc_itu32_calc ys (crc_itu32_calc xs crc)"
  by (simp add: crc_itu32_calc_serial crc_serial_append)

lemma residue16: "(crc_bit 0x8408 ^^ 16) (-1 :: u16) = 0xF0B8"
proof -
  have "(crc_bit 0x8408 ^^ 8) (0xFFFF :: u16) = 0xF87"
    by (simp add: funpow_8 crc_bit_def)
  moreover have "(crc_bit 0x8408 ^^ 8) (0xF87 :: u16) = 0xF0B8"
    by (simp add: funpow_8 crc_bit_def)
  moreover have "(crc_bit 0x8408 ^^ 16) (-1 :: u16) =
      (crc_bit 0x8408 ^^ 8) ((crc_bit 0x8408 ^^ 8) 0xFFFF)"
    by (simp add: u16_ones flip: funpow_add [THEN fun_cong, unfolded comp_apply])
  ultimately show ?thesis by simp
qed

lemma residue32: "(crc_bit 0xEDB88320 ^^ 32) (-1 :: u32) = 0xDEBB20E3"
proof -
  let ?f = "crc_bit 0xEDB88320 ^^ 8 :: u32 \<Rightarrow> u32"
  have "?f 0xFFFFFFFF = 0x2DFD1072"
    by (simp add: funpow_8 crc_bit_def)
  moreover have "?f 0x2DFD1072 = 0xBE26ED00"
    by (simp add: funpow_8 crc_bit_def)
  moreover have "?f 0xBE26ED00 = 0xBE26ED"
    by (simp add: funpow_8 crc_bit_def)
  moreover have "?f 0xBE26ED = 0xDEBB20E3"
    by (simp add: funpow_8 crc_bit_def)
  moreover have "(crc_bit 0xEDB88320 ^^ 32) (-1 :: u32) = ?f (?f (?f (?f 0xFFFFFFFF)))"
    by (simp add: u32_ones flip: funpow_add [THEN fun_cong, unfolded comp_apply])
  ultimately show ?thesis by simp
qed

lemma octets16: "word_of_bits (stream_lsb [a, b]) = (c :: u16) \<longleftrightarrow> a = ucast c \<and> b = ucast (drop_bit 8 c)"
proof
  assume c: "word_of_bits (stream_lsb [a, b]) = c"
  show "a = ucast c \<and> b = ucast (drop_bit 8 c)"
    unfolding c [symmetric]
    by (intro conjI bit_word_eqI) (auto simp: bit_list_simps bit_simps nth_append bit_u8_bound)
next
  assume "a = ucast c \<and> b = ucast (drop_bit 8 c)"
  then show "word_of_bits (stream_lsb [a, b]) = c"
    by (intro bit_word_eqI) (auto simp: bit_list_simps bit_simps nth_append)
qed

lemma octets32:
  "word_of_bits (stream_lsb [a, b, c, d]) = (w :: u32) \<longleftrightarrow>
     a = ucast w \<and> b = ucast (drop_bit 8 w) \<and> c = ucast (drop_bit 16 w) \<and> d = ucast (drop_bit 24 w)"
proof
  assume w: "word_of_bits (stream_lsb [a, b, c, d]) = w"
  show "a = ucast w \<and> b = ucast (drop_bit 8 w) \<and> c = ucast (drop_bit 16 w) \<and> d = ucast (drop_bit 24 w)"
    unfolding w [symmetric]
    by (intro conjI bit_word_eqI) (auto simp: bit_list_simps bit_simps nth_append bit_u8_bound)
next
  assume "a = ucast w \<and> b = ucast (drop_bit 8 w) \<and> c = ucast (drop_bit 16 w) \<and> d = ucast (drop_bit 24 w)"
  then show "word_of_bits (stream_lsb [a, b, c, d]) = w"
    by (intro bit_word_eqI) (auto simp: bit_list_simps bit_simps nth_append)
qed

lemma crc_itu16_check_iff:
  "crc_itu16_check (msg @ [a, b]) \<longleftrightarrow> msg @ [a, b] = crc_itu16_append msg"
proof -
  let ?c = "crc_itu16_calc msg 0xFFFF"
  have "crc_itu16_check (msg @ [a, b]) \<longleftrightarrow>
      crc_serial 0x8408 ?c (stream_lsb [a, b]) = (crc_bit 0x8408 ^^ LENGTH(16)) (-1)"
    by (simp add: crc_itu16_check_def crc_itu16_calc_append crc_itu16_calc_serial [of "[a, b]"]
        residue16 u16_ones del: stream_lsb_Cons crc_itu16_calc.simps)
  also have "\<dots> \<longleftrightarrow> word_of_bits (stream_lsb [a, b]) = NOT ?c"
    using crc16.residue [of "[a, b]" ?c] crc16.residue_only [of "[a, b]" ?c] by auto
  finally show ?thesis
    by (simp add: octets16 crc_itu16_append_def Let_def u16_ones del: stream_lsb_Cons)
qed

lemma crc_itu32_check_iff:
  "crc_itu32_check (msg @ [a, b, c, d]) \<longleftrightarrow> msg @ [a, b, c, d] = crc_itu32_append msg"
proof -
  let ?c = "crc_itu32_calc msg 0xFFFFFFFF"
  have "crc_itu32_check (msg @ [a, b, c, d]) \<longleftrightarrow>
      crc_serial 0xEDB88320 ?c (stream_lsb [a, b, c, d]) = (crc_bit 0xEDB88320 ^^ LENGTH(32)) (-1)"
    by (simp add: crc_itu32_check_def crc_itu32_calc_append crc_itu32_calc_serial [of "[a, b, c, d]"]
        residue32 del: stream_lsb_Cons crc_itu32_calc.simps)
  also have "\<dots> \<longleftrightarrow> word_of_bits (stream_lsb [a, b, c, d]) = NOT ?c"
    using crc32.residue [of "[a, b, c, d]" ?c] crc32.residue_only [of "[a, b, c, d]" ?c] by auto
  finally show ?thesis
    by (simp add: octets32 crc_itu32_append_def Let_def u32_ones del: stream_lsb_Cons)
qed

section \<open>Properties\<close>

text \<open>
  Claim C26. For every buffer and every start value the table driven CRC-16 and CRC-32 compute
  the bit serial shift register with generator \<open>0x8408\<close>, respectively \<open>0xEDB88320\<close>, fed with the
  octets least significant bit first: the 512 table entries are right and each octet is used once.
\<close>
theorem crc_calc_bit_serial:
  "crc_itu16_calc buf crc16 = crc_serial 0x8408 crc16 (stream_lsb buf) \<and>
   crc_itu32_calc buf crc32 = crc_serial 0xEDB88320 crc32 (stream_lsb buf)"
  by (simp add: crc_itu16_calc_serial crc_itu32_calc_serial)

text \<open>
  Claim C29. The receiver's check accepts a message with two (four) trailing octets exactly when
  these octets are the ones the sender's append routine writes, for CRC-16 and for CRC-32.
\<close>
theorem crc_check_iff_append:
  "(crc_itu16_check (msg @ [a, b]) \<longleftrightarrow> msg @ [a, b] = crc_itu16_append msg) \<and>
   (crc_itu32_check (msg @ [a, b, c, d]) \<longleftrightarrow> msg @ [a, b, c, d] = crc_itu32_append msg)"
  by (simp only: crc_itu16_check_iff crc_itu32_check_iff)

text \<open>
  Claim C30. Burst errors are detected: when a buffer passes the CRC-16 check and a run of at most
  16 consecutive bits of it, at any alignment, is changed, the check fails; likewise for CRC-32 and
  32 bits.
\<close>
theorem crc_burst_detected:
  assumes "stream_lsb good = pre @ e1 @ post" and "stream_lsb bad = pre @ e2 @ post"
    and "length e1 = length e2" and "e1 \<noteq> e2"
  shows "(length e1 \<le> 16 \<and> crc_itu16_check good \<longrightarrow> \<not> crc_itu16_check bad) \<and>
    (length e1 \<le> 32 \<and> crc_itu32_check good \<longrightarrow> \<not> crc_itu32_check bad)"
  using crc16.burst_detected [of e1 e2 "0xFFFF" pre post]
    crc32.burst_detected [of e1 e2 "0xFFFFFFFF" pre post] assms
  by (auto simp: crc_itu16_check_def crc_itu32_check_def crc_itu16_calc_serial
      crc_itu32_calc_serial u16_ones)

theorem crc_burst_detected_witness:
  "crc_itu16_check [3, 65, 162, 118] \<and> \<not> crc_itu16_check [3, 67, 162, 118] \<and>
   crc_itu32_check [3, 65, 58, 48, 47, 107] \<and> \<not> crc_itu32_check [3, 67, 58, 48, 47, 107]"
proof -
  have good: "crc_itu16_check [3, 65, 162, 118]" "crc_itu32_check [3, 65, 58, 48, 47, 107]"
    by code_simp+
  have burst: "stream_lsb [3, 65, 162, 118] =
      take 9 (stream_lsb [3, 65, 162, 118]) @ [False] @ drop 10 (stream_lsb [3, 65, 162, 118])"
    "stream_lsb [3, 67, 162, 118] =
      take 9 (stream_lsb [3, 65, 162, 118]) @ [True] @ drop 10 (stream_lsb [3, 65, 162, 118])"
    "stream_lsb [3, 65, 58, 48, 47, 107] =
      take 9 (stream_lsb [3, 65, 58, 48, 47, 107]) @ [False] @ drop 10 (stream_lsb [3, 65, 58, 48, 47, 107])"
    "stream_lsb [3, 67, 58, 48, 47, 107] =
      take 9 (stream_lsb [3, 65, 58, 48, 47, 107]) @ [True] @ drop 10 (stream_lsb [3, 65, 58, 48, 47, 107])"
    by code_simp+
  show ?thesis
    using good crc_burst_detected [OF burst(1,2)] crc_burst_detected [OF burst(3,4)] by simp
qed

end
