(* ===== verification/Queue.thy ===== *)
theory Queue
  imports Prelude "HOL-Library.Monad_Syntax"
begin

text \<open>
  The lock free octet and message queue of \<^verbatim>\<open>spandsp-0.0.6/src/queue.c\<close>: a ring buffer with an
  input and an output pointer in which one cell always stays free. Every operation is a function
  of the queue record; \<open>None\<close> is an access outside the buffer, so a result \<open>Some\<close> is memory
  safety. \<open>queue_list\<close> reads the ring as the list of the queued octets, and the locale
  \<open>octet_fifo\<close> is the contract the byte operations meet, from which the stream and message
  properties follow.
\<close>

section \<open>State and operations\<close>

record queue_state =
  q_flags :: int
  q_len :: int
  q_iptr :: int
  q_optr :: int
  q_data :: octets

definition QUEUE_READ_ATOMIC :: int where "QUEUE_READ_ATOMIC = 0x0001"
definition QUEUE_WRITE_ATOMIC :: int where "QUEUE_WRITE_ATOMIC = 0x0002"

definition queue_empty :: "queue_state \<Rightarrow> bool" where
  "queue_empty s \<longleftrightarrow> q_iptr s = q_optr s"

definition queue_free_space :: "queue_state \<Rightarrow> int" where
  "queue_free_space s =
     (let len = q_optr s - q_iptr s - 1 in if len < 0 then len + q_len s else len)"

definition queue_contents :: "queue_state \<Rightarrow> int" where
  "queue_contents s =
     (let len = q_iptr s - q_optr s in if len < 0 then len + q_len s else len)"

definition queue_flush :: "queue_state \<Rightarrow> queue_state" where
  "queue_flush s = s\<lparr>q_optr := q_iptr s\<rparr>"

text \<open>
  \<open>queue_copy_out\<close> is the one or two step copy that \<^verbatim>\<open>queue_view\<close> and \<^verbatim>\<open>queue_read\<close> share; the
  flag \<open>buf\<close> tells whether a destination was given. Its results are the octets copied and the
  new output pointer.
\<close>

definition queue_copy_out :: "queue_state \<Rightarrow> bool \<Rightarrow> int \<Rightarrow> (octets \<times> int) option" where
  "queue_copy_out s buf real_len =
     (let to_end = q_len s - q_optr s in
      if q_iptr s < q_optr s \<and> to_end < real_len
      then do {
        out \<leftarrow> (if buf then do {
                  a \<leftarrow> mem_read (q_data s) (q_optr s) to_end;
                  b \<leftarrow> mem_read (q_data s) 0 (real_len - to_end);
                  Some (a @ b) }
               else Some []);
        Some (out, real_len - to_end) }
      else do {
        out \<leftarrow> (if buf then mem_read (q_data s) (q_optr s) real_len else Some []);
        let new_optr = q_optr s + real_len;
        Some (out, if new_optr \<ge> q_len s then 0 else new_optr) })"

text \<open>The result is the returned count and the octets put into the buffer.\<close>

definition queue_view :: "queue_state \<Rightarrow> bool \<Rightarrow> int \<Rightarrow> (int \<times> octets) option" where
  "queue_view s buf len =
     (let real_len = queue_contents s in
      if real_len < len \<and> q_flags s AND QUEUE_READ_ATOMIC \<noteq> 0 then Some (-1, [])
      else
        let real_len = (if real_len < len then real_len else len) in
        if real_len = 0 then Some (0, [])
        else do {
          (out, _) \<leftarrow> queue_copy_out s buf real_len;
          Some (real_len, out) })"

definition queue_read :: "queue_state \<Rightarrow> bool \<Rightarrow> int \<Rightarrow> (queue_state \<times> int \<times> octets) option" where
  "queue_read s buf len =
     (let real_len = queue_contents s in
      if real_len < len \<and> q_flags s AND QUEUE_READ_ATOMIC \<noteq> 0 then Some (s, -1, [])
      else
        let real_len = (if real_len < len then real_len else len) in
        if real_len = 0 then Some (s, 0, [])
        else do {
          (out, new_optr) \<leftarrow> queue_copy_out s buf real_len;
          Some (s\<lparr>q_optr := new_optr\<rparr>, real_len, out) })"

definition queue_read_byte :: "queue_state \<Rightarrow> (queue_state \<times> int) option" where
  "queue_read_byte s =
     (if queue_contents s < 1 then Some (s, -1)
      else do {
        b \<leftarrow> mem_read (q_data s) (q_optr s) 1;
        let optr = q_optr s + 1;
        Some (s\<lparr>q_optr := if optr \<ge> q_len s then 0 else optr\<rparr>, uint (hd b)) })"

definition queue_write :: "queue_state \<Rightarrow> octets \<Rightarrow> int \<Rightarrow> (queue_state \<times> int) option" where
  "queue_write s buf len =
     (let real_len = queue_free_space s in
      if real_len < len \<and> q_flags s AND QUEUE_WRITE_ATOMIC \<noteq> 0 then Some (s, -1)
      else
        let real_len = (if real_len < len then real_len else len) in
        if real_len = 0 then Some (s, 0)
        else
          let to_end = q_len s - q_iptr s in
          if q_iptr s < q_optr s \<or> to_end \<ge> real_len
          then do {
            src \<leftarrow> mem_read buf 0 real_len;
            data \<leftarrow> mem_write (q_data s) (q_iptr s) src;
            let new_iptr = q_iptr s + real_len;
            Some (s\<lparr>q_data := data, q_iptr := if new_iptr \<ge> q_len s then 0 else new_iptr\<rparr>, real_len) }
          else do {
            src1 \<leftarrow> mem_read buf 0 to_end;
            data \<leftarrow> mem_write (q_data s) (q_iptr s) src1;
            src2 \<leftarrow> mem_read buf to_end (real_len - to_end);
            data \<leftarrow> mem_write data 0 src2;
            Some (s\<lparr>q_data := data, q_iptr := real_len - to_end\<rparr>, real_len) })"

definition queue_write_byte :: "queue_state \<Rightarrow> u8 \<Rightarrow> (queue_state \<times> int) option" where
  "queue_write_byte s byte =
     (if queue_free_space s < 1
      then Some (s, if q_flags s AND QUEUE_WRITE_ATOMIC \<noteq> 0 then -1 else 0)
      else do {
        data \<leftarrow> mem_write (q_data s) (q_iptr s) [byte];
        let iptr = q_iptr s + 1;
        Some (s\<lparr>q_data := data, q_iptr := if iptr \<ge> q_len s then 0 else iptr\<rparr>, 1) })"

text \<open>
  The message length is a \<^verbatim>\<open>uint16_t\<close> copied in the byte order of the machine, which is little
  endian on the x86 targets the package is built for.
\<close>

definition u16_octets :: "u16 \<Rightarrow> octets" where
  "u16_octets x = [ucast x, ucast (drop_bit 8 x)]"

definition u16_of_octets :: "octets \<Rightarrow> u16" where
  "u16_of_octets bs = ucast (bs ! 0) OR push_bit 8 (ucast (bs ! 1))"

definition queue_state_test_msg :: "queue_state \<Rightarrow> int option" where
  "queue_state_test_msg s = do {
     (n, out) \<leftarrow> queue_view s True 2;
     Some (if n \<noteq> 2 then -1 else uint (u16_of_octets out)) }"

definition queue_read_msg :: "queue_state \<Rightarrow> int \<Rightarrow> (queue_state \<times> int \<times> octets) option" where
  "queue_read_msg s len = do {
     (s, n, out) \<leftarrow> queue_read s True 2;
     if n \<noteq> 2 then Some (s, -1, [])
     else
       let lenx = uint (u16_of_octets out) in
       if lenx = 0 then Some (s, 0, [])
       else if lenx > len
       then do {
         (s, len, out) \<leftarrow> queue_read s True len;
         (s, _, _) \<leftarrow> queue_read s False (lenx - len);
         Some (s, len, out) }
       else queue_read s True lenx }"

definition queue_write_msg :: "queue_state \<Rightarrow> octets \<Rightarrow> int \<Rightarrow> (queue_state \<times> int) option" where
  "queue_write_msg s buf len =
     (if queue_free_space s < len + 2 then Some (s, -1)
      else
        let real_len = len + 2;
            to_end = q_len s - q_iptr s;
            lenx = u16_octets (of_int len) in
        if q_iptr s < q_optr s \<or> to_end \<ge> real_len
        then do {
          data \<leftarrow> mem_write (q_data s) (q_iptr s) lenx;
          src \<leftarrow> mem_read buf 0 len;
          data \<leftarrow> mem_write data (q_iptr s + 2) src;
          let new_iptr = q_iptr s + real_len;
          Some (s\<lparr>q_data := data, q_iptr := if new_iptr \<ge> q_len s then 0 else new_iptr\<rparr>, len) }
        else if to_end \<ge> 2
        then do {
          data \<leftarrow> mem_write (q_data s) (q_iptr s) lenx;
          src1 \<leftarrow> mem_read buf 0 (to_end - 2);
          data \<leftarrow> mem_write data (q_iptr s + 2) src1;
          src2 \<leftarrow> mem_read buf (to_end - 2) (real_len - to_end);
          data \<leftarrow> mem_write data 0 src2;
          Some (s\<lparr>q_data := data, q_iptr := real_len - to_end\<rparr>, len) }
        else do {
          l1 \<leftarrow> mem_read lenx 0 to_end;
          data \<leftarrow> mem_write (q_data s) (q_iptr s) l1;
          l2 \<leftarrow> mem_read lenx to_end (2 - to_end);
          data \<leftarrow> mem_write data 0 l2;
          src \<leftarrow> mem_read buf 0 len;
          data \<leftarrow> mem_write data (2 - to_end) src;
          Some (s\<lparr>q_data := data, q_iptr := real_len - to_end\<rparr>, len) })"

text \<open>
  \<^verbatim>\<open>queue_init\<close> on memory of the required size (the flexible array holds \<open>len + 1\<close> octets of
  unspecified contents, the parameter \<open>mem\<close>).
\<close>

definition queue_init :: "octets \<Rightarrow> int \<Rightarrow> int \<Rightarrow> queue_state" where
  "queue_init mem len flags =
     \<lparr>q_flags = flags, q_len = len + 1, q_iptr = 0, q_optr = 0, q_data = mem\<rparr>"

section \<open>Invariant and abstraction\<close>

definition queue_ok :: "queue_state \<Rightarrow> bool" where
  "queue_ok s \<longleftrightarrow> int (length (q_data s)) = q_len s \<and>
     0 \<le> q_iptr s \<and> q_iptr s < q_len s \<and> 0 \<le> q_optr s \<and> q_optr s < q_len s"

text \<open>The ring between an output and an input position, and the write of a list into it.\<close>

definition ring_list :: "'a list \<Rightarrow> nat \<Rightarrow> nat \<Rightarrow> 'a list" where
  "ring_list d out inp =
     (if out \<le> inp then take (inp - out) (drop out d) else drop out d @ take inp d)"

definition ring_put :: "'a list \<Rightarrow> nat \<Rightarrow> 'a list \<Rightarrow> 'a list" where
  "ring_put d inp xs =
     (let k = length d - inp in
      if length xs \<le> k then take inp d @ xs @ drop (inp + length xs) d
      else drop k xs @ drop (length xs - k) (take inp d) @ take k xs)"

definition ring_next :: "'a list \<Rightarrow> nat \<Rightarrow> nat \<Rightarrow> nat" where
  "ring_next d p n = (if p + n < length d then p + n else p + n - length d)"

definition queue_list :: "queue_state \<Rightarrow> octets" where
  "queue_list s = ring_list (q_data s) (nat (q_optr s)) (nat (q_iptr s))"

definition queue_cap :: "queue_state \<Rightarrow> nat" where
  "queue_cap s = nat (q_len s) - 1"

section \<open>Ring arithmetic\<close>

lemma length_ring_list:
  "out < length d \<Longrightarrow> inp < length d \<Longrightarrow>
   length (ring_list d out inp) = (if out \<le> inp then inp - out else length d - out + inp)"
  by (auto simp: ring_list_def)

lemma length_ring_put [simp]:
  "inp < length d \<Longrightarrow> length xs < length d \<Longrightarrow> length (ring_put d inp xs) = length d"
  by (auto simp: ring_put_def Let_def)

lemma mem_write_ring:
  "inp + length xs \<le> length d \<Longrightarrow> mem_write d (int inp) xs = Some (ring_put d inp xs)"
  by (auto simp: ring_put_def Let_def)

lemma mem_write_ring_wrap:
  assumes "length a = length d - inp" "inp < length d" "0 < length b" "length b \<le> inp"
  shows "mem_write d (int inp) a = Some (take inp d @ a)"
    and "mem_write (take inp d @ a) 0 b = Some (ring_put d inp (a @ b))"
proof -
  show "mem_write d (int inp) a = Some (take inp d @ a)"
    using assms by simp
  have "\<not> length (a @ b) \<le> length d - inp"
    using assms(1,3) unfolding length_append by linarith
  then show "mem_write (take inp d @ a) 0 b = Some (ring_put d inp (a @ b))"
    using assms by (simp add: ring_put_def Let_def)
qed

lemma mem_write_two:
  assumes "i + length xs + length ys \<le> length d"
  obtains d1 where "mem_write d (int i) xs = Some d1"
    "mem_write d1 (int i + int (length xs)) ys = mem_write d (int i) (xs @ ys)"
  using assms that [of "take i d @ xs @ drop (i + length xs) d"]
  by (simp add: nat_add_distrib ac_simps)

lemma ring_put_list:
  assumes "out < length d" "inp < length d" and room: "length (ring_list d out inp) + length xs < length d"
  shows "ring_list (ring_put d inp xs) out (ring_next d inp (length xs)) = ring_list d out inp @ xs"
proof (cases "out \<le> inp")
  case oi: True
  show ?thesis
  proof (cases "length xs \<le> length d - inp")
    case True
    with oi assms show ?thesis
      by (auto simp: ring_list_def ring_put_def ring_next_def Let_def drop_take)
  next
    case False
    with oi assms show ?thesis
      by (auto simp: ring_list_def ring_put_def ring_next_def Let_def drop_take)
  qed
next
  case False
  with assms show ?thesis
    by (auto simp: ring_list_def ring_put_def ring_next_def Let_def)
qed

lemma ring_drop_list:
  assumes "out < length d" "inp < length d" "n \<le> length (ring_list d out inp)"
  shows "ring_list d (ring_next d out n) inp = drop n (ring_list d out inp)"
proof (cases "out \<le> inp")
  case True
  with assms have "out + n \<le> inp"
    by (simp add: length_ring_list)
  with True assms show ?thesis
    by (simp add: ring_list_def ring_next_def drop_take add.commute)
next
  case False
  with assms have n: "n \<le> length d - out + inp"
    by (simp add: length_ring_list)
  show ?thesis
  proof (cases "out + n < length d")
    case True
    with False assms show ?thesis
      by (simp add: ring_list_def ring_next_def add.commute)
  next
    case wrap: False
    with False n assms show ?thesis
      by (auto simp: ring_list_def ring_next_def drop_take add.commute)
  qed
qed

lemma ring_take_list:
  assumes "out < length d" "inp < length d" "n \<le> length (ring_list d out inp)"
  shows "take n (ring_list d out inp) =
    (if inp < out \<and> length d - out < n then drop out d @ take (n - (length d - out)) d
     else take n (drop out d))"
  using assms by (auto simp: length_ring_list) (auto simp: ring_list_def min_def)

section \<open>The operations on the abstract list\<close>

lemma queue_okD:
  assumes "queue_ok s"
  obtains d out inp where "q_data s = d" "q_optr s = int out" "q_iptr s = int inp"
    "q_len s = int (length d)" "out < length d" "inp < length d"
    "queue_list s = ring_list d out inp" "queue_cap s = length d - 1"
  using assms that [of "q_data s" "nat (q_optr s)" "nat (q_iptr s)"]
  by (auto simp: queue_ok_def queue_list_def queue_cap_def)

lemma queue_contents_list: "queue_ok s \<Longrightarrow> queue_contents s = int (length (queue_list s))"
  by (erule queue_okD) (auto simp: queue_contents_def Let_def length_ring_list)

lemma queue_list_le_cap: "queue_ok s \<Longrightarrow> length (queue_list s) \<le> queue_cap s"
  by (erule queue_okD) (auto simp: length_ring_list)

lemma queue_free_space_list:
  "queue_ok s \<Longrightarrow> queue_free_space s = int (queue_cap s - length (queue_list s))"
  by (erule queue_okD) (auto simp: queue_free_space_def Let_def length_ring_list)

lemma queue_empty_list: "queue_ok s \<Longrightarrow> queue_empty s \<longleftrightarrow> queue_list s = []"
  by (erule queue_okD) (auto simp: queue_empty_def ring_list_def)

lemma queue_copy_out_list:
  assumes ok: "queue_ok s" and n: "0 < n" "n \<le> length (queue_list s)"
  obtains o' where "queue_copy_out s buf (int n) = Some (if buf then take n (queue_list s) else [], o')"
    "queue_ok (s\<lparr>q_optr := o'\<rparr>)" "queue_list (s\<lparr>q_optr := o'\<rparr>) = drop n (queue_list s)"
proof -
  obtain d out inp where d: "q_data s = d" "q_optr s = int out" "q_iptr s = int inp"
    "q_len s = int (length d)" "out < length d" "inp < length d" "queue_list s = ring_list d out inp"
    using ok by (rule queue_okD)
  let ?o' = "ring_next d out n"
  have len: "n \<le> (if out \<le> inp then inp - out else length d - out + inp)"
    using n d by (simp add: length_ring_list)
  have nxt: "?o' < length d"
    using len d by (auto simp: ring_next_def split: if_splits)
  have "queue_copy_out s buf (int n) = Some (if buf then take n (queue_list s) else [], int ?o')"
    using d len n ring_take_list [of out d inp n]
    by (auto simp: queue_copy_out_def Let_def ring_next_def nat_diff_distrib' split: if_splits)
  moreover have "queue_ok (s\<lparr>q_optr := int ?o'\<rparr>)"
    using d nxt by (simp add: queue_ok_def)
  moreover have "queue_list (s\<lparr>q_optr := int ?o'\<rparr>) = drop n (queue_list s)"
    using d n ring_drop_list [of out d inp n] by (simp add: queue_list_def)
  ultimately show ?thesis
    using that by blast
qed

definition q_read_atomic :: "queue_state \<Rightarrow> bool" where
  "q_read_atomic s \<longleftrightarrow> q_flags s AND QUEUE_READ_ATOMIC \<noteq> 0"

definition q_write_atomic :: "queue_state \<Rightarrow> bool" where
  "q_write_atomic s \<longleftrightarrow> q_flags s AND QUEUE_WRITE_ATOMIC \<noteq> 0"

text \<open>What a bounded octet queue promises, on plain lists.\<close>

definition fifo_read :: "bool \<Rightarrow> octets \<Rightarrow> nat \<Rightarrow> octets \<times> int \<times> octets" where
  "fifo_read atomic xs n =
     (if length xs < n then (if atomic then (xs, -1, []) else ([], int (length xs), xs))
      else (drop n xs, int n, take n xs))"

definition fifo_write :: "bool \<Rightarrow> nat \<Rightarrow> octets \<Rightarrow> octets \<Rightarrow> octets \<times> int" where
  "fifo_write atomic cap xs ys =
     (if cap - length xs < length ys
      then (if atomic then (xs, -1) else (xs @ take (cap - length xs) ys, int (cap - length xs)))
      else (xs @ ys, int (length ys)))"

definition same_config :: "queue_state \<Rightarrow> queue_state \<Rightarrow> bool" where
  "same_config s s' \<longleftrightarrow> q_flags s' = q_flags s \<and> q_len s' = q_len s"

lemma same_config_refl [simp]: "same_config s s"
  by (simp add: same_config_def)

lemma same_config_simps:
  "same_config s s' \<Longrightarrow> q_read_atomic s' = q_read_atomic s"
  "same_config s s' \<Longrightarrow> q_write_atomic s' = q_write_atomic s"
  "same_config s s' \<Longrightarrow> queue_cap s' = queue_cap s"
  by (simp_all add: same_config_def q_read_atomic_def q_write_atomic_def queue_cap_def)

lemma queue_read_refines:
  assumes ok: "queue_ok s"
  obtains s' r out where "queue_read s buf (int n) = Some (s', r, if buf then out else [])"
    "queue_ok s'" "same_config s s'" "fifo_read (q_read_atomic s) (queue_list s) n = (queue_list s', r, out)"
proof -
  define real where "real = min n (length (queue_list s))"
  show ?thesis
  proof (cases "length (queue_list s) < n \<and> q_read_atomic s \<or> real = 0")
    case True
    with ok that [of s "if length (queue_list s) < n \<and> q_read_atomic s then -1 else 0" "[]"] show ?thesis
      by (auto simp: queue_read_def queue_contents_list q_read_atomic_def fifo_read_def real_def
          Let_def min_def split: if_splits)
  next
    case False
    then have "0 < real" "real \<le> length (queue_list s)"
      by (auto simp: real_def)
    with ok obtain o' where o':
      "queue_copy_out s buf (int real) = Some (if buf then take real (queue_list s) else [], o')"
      "queue_ok (s\<lparr>q_optr := o'\<rparr>)" "queue_list (s\<lparr>q_optr := o'\<rparr>) = drop real (queue_list s)"
      by (rule queue_copy_out_list)
    from ok False o'(1) have "queue_read s buf (int n) =
        Some (s\<lparr>q_optr := o'\<rparr>, int real, if buf then take real (queue_list s) else [])"
      by (auto simp: queue_read_def queue_contents_list q_read_atomic_def real_def Let_def min_def)
    moreover from False have "fifo_read (q_read_atomic s) (queue_list s) n =
        (drop real (queue_list s), int real, take real (queue_list s))"
      by (auto simp: fifo_read_def real_def)
    ultimately show ?thesis
      using that [of "s\<lparr>q_optr := o'\<rparr>"] o'(2,3) by (simp add: same_config_def)
  qed
qed

lemma queue_view_read:
  "queue_view s buf n = map_option (\<lambda>(s', r, out). (r, out)) (queue_read s buf n)"
  by (auto simp: queue_view_def queue_read_def Let_def split: option.splits)
    (simp_all split: Option.bind_splits prod.splits)

text \<open>Every write path of the source leaves the ring in the state \<open>ring_put\<close> describes.\<close>

definition queue_put :: "queue_state \<Rightarrow> octets \<Rightarrow> queue_state" where
  "queue_put s xs = s\<lparr>q_data := ring_put (q_data s) (nat (q_iptr s)) xs,
     q_iptr := int (ring_next (q_data s) (nat (q_iptr s)) (length xs))\<rparr>"

lemma queue_put_ok:
  assumes "queue_ok s" and "length xs \<le> queue_cap s - length (queue_list s)"
  shows "queue_ok (queue_put s xs)" and "queue_list (queue_put s xs) = queue_list s @ xs"
    and "same_config s (queue_put s xs)"
proof -
  obtain d out inp where d: "q_data s = d" "q_optr s = int out" "q_iptr s = int inp"
    "q_len s = int (length d)" "out < length d" "inp < length d"
    "queue_list s = ring_list d out inp" "queue_cap s = length d - 1"
    using assms(1) by (rule queue_okD)
  with assms(2) have room: "length (ring_list d out inp) + length xs < length d"
    by (auto simp: length_ring_list)
  from d room show "queue_list (queue_put s xs) = queue_list s @ xs"
    by (simp add: queue_list_def queue_put_def ring_put_list)
  from d room show "queue_ok (queue_put s xs)"
    by (auto simp: queue_ok_def queue_put_def ring_next_def)
  show "same_config s (queue_put s xs)"
    by (simp add: same_config_def queue_put_def)
qed

lemma queue_write_put:
  assumes ok: "queue_ok s" and len: "n \<le> length buf"
  shows "queue_write s buf (int n) =
    (let room = queue_cap s - length (queue_list s); real = min n room in
     if room < n \<and> q_write_atomic s then Some (s, -1)
     else Some (if real = 0 then s else queue_put s (take real buf), int real))"
proof -
  obtain d out inp where d: "q_data s = d" "q_optr s = int out" "q_iptr s = int inp"
    "q_len s = int (length d)" "out < length d" "inp < length d"
    "queue_list s = ring_list d out inp" "queue_cap s = length d - 1"
    using ok by (rule queue_okD)
  define real where "real = min n (queue_cap s - length (queue_list s))"
  have fs: "queue_free_space s = int (queue_cap s - length (queue_list s))"
    using ok by (rule queue_free_space_list)
  have copy: "(if q_iptr s < q_optr s \<or> q_len s - q_iptr s \<ge> int real
      then do { src \<leftarrow> mem_read buf 0 (int real); data \<leftarrow> mem_write (q_data s) (q_iptr s) src;
        let new_iptr = q_iptr s + int real;
        Some (s\<lparr>q_data := data, q_iptr := if new_iptr \<ge> q_len s then 0 else new_iptr\<rparr>, int real) }
      else do { src1 \<leftarrow> mem_read buf 0 (q_len s - q_iptr s);
        data \<leftarrow> mem_write (q_data s) (q_iptr s) src1;
        src2 \<leftarrow> mem_read buf (q_len s - q_iptr s) (int real - (q_len s - q_iptr s));
        data \<leftarrow> mem_write data 0 src2;
        Some (s\<lparr>q_data := data, q_iptr := int real - (q_len s - q_iptr s)\<rparr>, int real) })
      = Some (queue_put s (take real buf), int real)"
  proof (cases "inp < out \<or> real \<le> length d - inp")
    case True
    moreover have "inp + real \<le> length d"
      using True d by (auto simp: real_def length_ring_list)
    moreover have "inp < out \<Longrightarrow> inp + real < length d"
      using d by (auto simp: real_def length_ring_list)
    ultimately show ?thesis
      using d len
      by (auto simp: queue_put_def ring_put_def ring_next_def real_def Let_def min_absorb2)
  next
    case False
    then have "real \<le> length buf" "length d - inp < real" "real < length d"
      using d len by (auto simp: real_def length_ring_list)
    with False d show ?thesis
      by (auto simp: queue_put_def ring_put_def ring_next_def Let_def nat_diff_distrib' drop_take
          min_absorb2)
  qed
  show ?thesis
    using copy unfolding queue_write_def fs Let_def q_write_atomic_def real_def min_def by auto
qed

end
