(* ===== verification/Queue_Messages.thy ===== *)
theory Queue_Messages
  imports Queue
begin

text \<open>
  What clients of the queue rely on. The locale \<open>octet_fifo\<close> states the contract of a bounded
  octet queue and derives that any interleaving of whole reads and writes delivers exactly the
  accepted octets in order; it is interpreted on the ring buffer. The second part is the message
  layer of \<^verbatim>\<open>queue.c\<close>: a queue that holds framed messages behaves as a queue of messages.
\<close>

section \<open>Single octets and messages as ring writes\<close>

lemma queue_write_byte_put:
  assumes ok: "queue_ok s"
  shows "queue_write_byte s b =
    (if length (queue_list s) < queue_cap s then Some (queue_put s [b], 1)
     else Some (s, if q_write_atomic s then -1 else 0))"
proof -
  obtain d out inp where d: "q_data s = d" "q_optr s = int out" "q_iptr s = int inp"
    "q_len s = int (length d)" "out < length d" "inp < length d"
    using ok by (rule queue_okD)
  then show ?thesis
    using ok queue_list_le_cap [OF ok]
    by (auto simp: queue_write_byte_def queue_free_space_list q_write_atomic_def queue_put_def
        ring_put_def ring_next_def Let_def)
qed

lemma queue_read_byte_list:
  assumes ok: "queue_ok s"
  shows "case queue_list s of
      [] \<Rightarrow> queue_read_byte s = Some (s, -1)
    | b # bs \<Rightarrow> \<exists>s'. queue_read_byte s = Some (s', uint b) \<and> queue_ok s' \<and> same_config s s' \<and>
        queue_list s' = bs"
proof (cases "queue_list s")
  case Nil
  with ok show ?thesis
    by (simp add: queue_read_byte_def queue_contents_list)
next
  case (Cons b bs)
  obtain d out inp where d: "q_data s = d" "q_optr s = int out" "q_iptr s = int inp"
    "q_len s = int (length d)" "out < length d" "inp < length d" "queue_list s = ring_list d out inp"
    using ok by (rule queue_okD)
  let ?s = "s\<lparr>q_optr := int (ring_next d out 1)\<rparr>"
  have hd: "b = d ! out"
    using Cons d ring_take_list [of out d inp 1]
    by (cases "drop out d") (auto simp: nth_via_drop split: if_splits)
  have "queue_read_byte s = Some (?s, uint b)"
    using ok d Cons hd
    by (auto simp: queue_read_byte_def queue_contents_list Let_def ring_next_def hd_drop_conv_nth take_Suc)
  moreover have "queue_ok ?s \<and> same_config s ?s"
    using d by (auto simp: queue_ok_def ring_next_def same_config_def)
  moreover have "queue_list ?s = bs"
    using d Cons ring_drop_list [of out d inp 1] by (simp add: queue_list_def)
  ultimately show ?thesis
    using Cons by auto
qed

lemma queue_write_msg_put:
  assumes ok: "queue_ok s" and len: "n \<le> length buf"
  shows "queue_write_msg s buf (int n) =
    (if queue_cap s - length (queue_list s) < n + 2 then Some (s, -1)
     else Some (queue_put s (u16_octets (of_nat n) @ take n buf), int n))"
proof (cases "queue_cap s - length (queue_list s) < n + 2")
  case True
  with ok show ?thesis
    by (simp add: queue_write_msg_def queue_free_space_list)
next
  case False
  obtain d out inp where d: "q_data s = d" "q_optr s = int out" "q_iptr s = int inp"
    "q_len s = int (length d)" "out < length d" "inp < length d"
    "queue_list s = ring_list d out inp" "queue_cap s = length d - 1"
    using ok by (rule queue_okD)
  have room: "n + 2 < length d" "inp < out \<Longrightarrow> inp + (n + 2) < out"
    using False d by (auto simp: length_ring_list split: if_splits)
  have fs: "\<not> queue_free_space s < int n + 2"
    using False ok by (simp add: queue_free_space_list)
  define w where "w = u16_octets (of_nat n)"
  define m where "m = take n buf"
  have w: "length w = 2" and m: "length m = n"
    using len by (simp_all add: w_def m_def u16_octets_def)
  have src: "mem_read buf 0 (int n) = Some m"
    using len by (simp add: m_def)
  note model = queue_write_msg_def Let_def fs w_def [symmetric] src
  define nx where "nx = int (ring_next d inp (n + 2))"
  have put: "queue_put s (w @ m) = s\<lparr>q_data := ring_put d inp (w @ m), q_iptr := nx\<rparr>"
    by (simp add: queue_put_def d w m nx_def)
  consider (one) "inp < out \<or> n + 2 \<le> length d - inp"
    | (body) "\<not> inp < out" "length d - inp < n + 2" "2 \<le> length d - inp"
    | (head) "\<not> inp < out" "length d - inp = 1"
    using d by linarith
  then have "queue_write_msg s buf (int n) = Some (queue_put s (w @ m), int n)"
  proof cases
    case one
    then have fit: "inp + length w + length m \<le> length d"
      using room w m d by auto
    then obtain d1 where wr: "mem_write d (int inp) w = Some d1"
      "mem_write d1 (int inp + 2) m = Some (ring_put d inp (w @ m))"
      using mem_write_two [of inp w m d] mem_write_ring [of inp "w @ m" d] w by (metis add.assoc
          length_append of_nat_numeral)
    have guard: "int inp < int out \<or> int (length d) - int inp \<ge> int n + 2"
      using one d by linarith
    have nxt: "(if int inp + (int n + 2) \<ge> int (length d) then 0 else int inp + (int n + 2)) = nx"
      using one room d fit w m by (auto simp: ring_next_def nx_def)
    show ?thesis
      unfolding put using guard wr nxt
      by (simp add: model d del: mem_write_Some of_nat_add)
  next
    case body
    define k where "k = length d - inp - 2"
    have k: "length d = inp + k + 2" "k < n" "int (length d) - int inp = int k + 2"
      using body d by (auto simp: k_def)
    have parts: "mem_read buf 0 (int k) = Some (take k m)"
      "mem_read buf (int k) (int n - int k) = Some (drop k m)"
      using k len by (auto simp: m_def drop_take nat_diff_distrib')
    have wrap: "length (w @ take k m) = length d - inp" "inp < length d" "0 < length (drop k m)"
      "length (drop k m) \<le> inp"
      using k w m room body by auto
    obtain d1 where wr1: "mem_write d (int inp) w = Some d1"
      "mem_write d1 (int inp + 2) (take k m) = Some (take inp d @ w @ take k m)"
      using mem_write_two [of inp w "take k m" d] mem_write_ring_wrap(1) [OF wrap] k w m
      by (metis append_assoc length_append le_refl of_nat_numeral wrap(1,2) add.assoc
          le_add_diff_inverse less_imp_le)
    have wr2: "mem_write (take inp d @ w @ take k m) 0 (drop k m) = Some (ring_put d inp (w @ m))"
      using mem_write_ring_wrap(2) [OF wrap] by simp
    have guard: "\<not> (int inp < int out \<or> int k + 2 \<ge> int n + 2)"
      using body k by auto
    have nxt: "int n - int k = nx"
      using k by (simp add: ring_next_def nx_def)
    show ?thesis
      unfolding put using guard wr1 wr2 parts
      by (simp add: model d k(3) nxt [symmetric] del: mem_write_Some mem_read_Some of_nat_add)
  next
    case head
    have L: "length d = inp + 1" "int (length d) - int inp = 1"
      using head d by auto
    obtain a b where ab: "w = [a, b]"
      using w by (auto simp: length_Suc_conv numeral_2_eq_2)
    have parts: "mem_read w 0 1 = Some [a]" "mem_read w 1 1 = Some [b]"
      by (simp_all add: ab)
    have wrap: "length [a] = length d - inp" "inp < length d" "0 < length ([b] @ m)"
      "length ([b] @ m) \<le> inp"
      using L m room by auto
    have wr1: "mem_write d (int inp) [a] = Some (take inp d @ [a])"
      by (rule mem_write_ring_wrap(1) [OF wrap])
    obtain d1 where wr2: "mem_write (take inp d @ [a]) 0 [b] = Some d1"
      "mem_write d1 1 m = Some (ring_put d inp (w @ m))"
      using mem_write_two [of 0 "[b]" m "take inp d @ [a]"] mem_write_ring_wrap(2) [OF wrap] L m wrap(4)
      by (auto simp: ab simp del: mem_write_Some)
    have guard: "\<not> (int inp < int out \<or> (1::int) \<ge> int n + 2)"
      using head by auto
    have nxt: "int n + 1 = nx"
      using L by (simp add: ring_next_def nx_def)
    show ?thesis
      unfolding put using guard wr1 wr2 parts
      by (simp add: model d L(2) nxt [symmetric] del: mem_write_Some mem_read_Some of_nat_add)
  qed
  with False show ?thesis
    by (simp add: w_def m_def)
qed

section \<open>The contract of a bounded octet queue\<close>

datatype fifo_op = Fifo_Write octets | Fifo_Read nat

text \<open>
  A run of reads and writes. Its results are the final state, the octets the writes accepted and
  the octets the reads delivered.
\<close>

fun fifo_run :: "('s \<Rightarrow> octets \<Rightarrow> ('s \<times> int) option) \<Rightarrow> ('s \<Rightarrow> nat \<Rightarrow> ('s \<times> int \<times> octets) option) \<Rightarrow>
    's \<Rightarrow> fifo_op list \<Rightarrow> ('s \<times> octets \<times> octets) option" where
  "fifo_run wr rd s [] = Some (s, [], [])"
| "fifo_run wr rd s (Fifo_Write xs # ops) = do {
     (s, n) \<leftarrow> wr s xs;
     (s, acc, out) \<leftarrow> fifo_run wr rd s ops;
     Some (s, take (nat n) xs @ acc, out) }"
| "fifo_run wr rd s (Fifo_Read n # ops) = do {
     (s, _, xs) \<leftarrow> rd s n;
     (s, acc, out) \<leftarrow> fifo_run wr rd s ops;
     Some (s, acc, xs @ out) }"

lemma fifo_read_split: "fifo_read atomic xs n = (ys, r, out) \<Longrightarrow> xs = out @ ys"
  by (auto simp: fifo_read_def split: if_splits)

lemma fifo_write_accepts: "fifo_write atomic c xs ys = (zs, n) \<Longrightarrow> zs = xs @ take (nat n) ys"
  by (auto simp: fifo_write_def split: if_splits)

locale octet_fifo =
  fixes ok :: "'s \<Rightarrow> bool" and contents :: "'s \<Rightarrow> octets" and cap :: "'s \<Rightarrow> nat"
    and watom :: "'s \<Rightarrow> bool" and ratom :: "'s \<Rightarrow> bool"
    and wr :: "'s \<Rightarrow> octets \<Rightarrow> ('s \<times> int) option" and rd :: "'s \<Rightarrow> nat \<Rightarrow> ('s \<times> int \<times> octets) option"
  assumes bounded: "ok s \<Longrightarrow> length (contents s) \<le> cap s"
    and write_law: "ok s \<Longrightarrow> \<exists>s' n. wr s xs = Some (s', n) \<and> ok s' \<and> cap s' = cap s \<and>
      watom s' = watom s \<and> ratom s' = ratom s \<and>
      fifo_write (watom s) (cap s) (contents s) xs = (contents s', n)"
    and read_law: "ok s \<Longrightarrow> \<exists>s' r out. rd s n = Some (s', r, out) \<and> ok s' \<and> cap s' = cap s \<and>
      watom s' = watom s \<and> ratom s' = ratom s \<and>
      fifo_read (ratom s) (contents s) n = (contents s', r, out)"
begin

lemma write_accepts:
  assumes "ok s"
  obtains s' n where "wr s xs = Some (s', n)" "ok s'" "cap s' = cap s"
    "contents s' = contents s @ take (nat n) xs"
  using write_law [OF assms, of xs] fifo_write_accepts by metis

lemma read_delivers:
  assumes "ok s"
  obtains s' r out where "rd s n = Some (s', r, out)" "ok s'" "cap s' = cap s"
    "contents s = out @ contents s'"
  using read_law [OF assms, of n] fifo_read_split by metis

lemma run_delivers:
  "ok s \<Longrightarrow> \<exists>s' acc out. fifo_run wr rd s ops = Some (s', acc, out) \<and> ok s' \<and> cap s' = cap s \<and>
     out @ contents s' = contents s @ acc"
proof (induction ops arbitrary: s)
  case Nil
  then show ?case by simp
next
  case (Cons x ops)
  show ?case
  proof (cases x)
    case (Fifo_Write xs)
    obtain s1 n where w: "wr s xs = Some (s1, n)" "ok s1" "cap s1 = cap s"
      "contents s1 = contents s @ take (nat n) xs"
      using Cons.prems by (rule write_accepts)
    with Cons.IH [of s1] Fifo_Write show ?thesis by fastforce
  next
    case (Fifo_Read n)
    obtain s1 r xs where w: "rd s n = Some (s1, r, xs)" "ok s1" "cap s1 = cap s"
      "contents s = xs @ contents s1"
      using Cons.prems by (rule read_delivers)
    with Cons.IH [of s1] Fifo_Read show ?thesis by fastforce
  qed
qed

end

definition q_wr :: "queue_state \<Rightarrow> octets \<Rightarrow> (queue_state \<times> int) option" where
  "q_wr s xs = queue_write s xs (int (length xs))"

definition q_rd :: "queue_state \<Rightarrow> nat \<Rightarrow> (queue_state \<times> int \<times> octets) option" where
  "q_rd s n = queue_read s True (int n)"

lemma queue_write_refines:
  assumes ok: "queue_ok s" and n: "n \<le> length buf"
  obtains s' r where "queue_write s buf (int n) = Some (s', r)" "queue_ok s'" "same_config s s'"
    "fifo_write (q_write_atomic s) (queue_cap s) (queue_list s) (take n buf) = (queue_list s', r)"
proof -
  let ?room = "queue_cap s - length (queue_list s)"
  let ?xs = "take (min n ?room) buf"
  show ?thesis
  proof (cases "?room < n \<and> q_write_atomic s \<or> min n ?room = 0")
    case True
    with assms that [of s "if ?room < n \<and> q_write_atomic s then -1 else 0"] show ?thesis
      by (auto simp: queue_write_put fifo_write_def Let_def min_def split: if_splits)
  next
    case False
    have "length ?xs \<le> ?room"
      by simp
    note put = queue_put_ok [OF ok this]
    show ?thesis
      by (rule that [of "queue_put s ?xs" "int (min n ?room)"])
        (use False put assms in \<open>auto simp: queue_write_put fifo_write_def Let_def min_def\<close>)
  qed
qed

interpretation qf: octet_fifo queue_ok queue_list queue_cap q_write_atomic q_read_atomic q_wr q_rd
proof
  fix s :: queue_state and xs :: octets and n :: nat
  assume ok: "queue_ok s"
  show "length (queue_list s) \<le> queue_cap s"
    using ok by (rule queue_list_le_cap)
  obtain s' r where "queue_write s xs (int (length xs)) = Some (s', r)" "queue_ok s'" "same_config s s'"
    "fifo_write (q_write_atomic s) (queue_cap s) (queue_list s) (take (length xs) xs) = (queue_list s', r)"
    using ok order_refl by (rule queue_write_refines)
  then show "\<exists>s' n. q_wr s xs = Some (s', n) \<and> queue_ok s' \<and> queue_cap s' = queue_cap s \<and>
      q_write_atomic s' = q_write_atomic s \<and> q_read_atomic s' = q_read_atomic s \<and>
      fifo_write (q_write_atomic s) (queue_cap s) (queue_list s) xs = (queue_list s', n)"
    by (auto simp: q_wr_def same_config_simps)
  obtain s' r out where "queue_read s True (int n) = Some (s', r, if True then out else [])"
    "queue_ok s'" "same_config s s'" "fifo_read (q_read_atomic s) (queue_list s) n = (queue_list s', r, out)"
    using ok by (rule queue_read_refines)
  then show "\<exists>s' r out. q_rd s n = Some (s', r, out) \<and> queue_ok s' \<and> queue_cap s' = queue_cap s \<and>
      q_write_atomic s' = q_write_atomic s \<and> q_read_atomic s' = q_read_atomic s \<and>
      fifo_read (q_read_atomic s) (queue_list s) n = (queue_list s', r, out)"
    by (auto simp: q_rd_def same_config_simps)
qed

section \<open>Messages\<close>

definition msg_octets :: "octets \<Rightarrow> octets" where
  "msg_octets m = u16_octets (of_nat (length m)) @ m"

definition holds_msgs :: "queue_state \<Rightarrow> octets list \<Rightarrow> bool" where
  "holds_msgs s ms \<longleftrightarrow> queue_ok s \<and> queue_list s = concat (map msg_octets ms) \<and>
     list_all (\<lambda>m. length m < 65536) ms"

lemma length_u16_octets [simp]: "length (u16_octets x) = 2"
  by (simp add: u16_octets_def)

lemma u16_of_u16_octets [simp]: "u16_of_octets (u16_octets x) = x"
  unfolding u16_of_octets_def u16_octets_def
  by (rule bit_word_eqI) (auto simp: bit_simps)

lemma length_msg_octets [simp]: "length (msg_octets m) = length m + 2"
  by (simp add: msg_octets_def)

lemma msg_header: "take 2 (msg_octets m @ rest) = u16_octets (of_nat (length m))"
  by (simp add: msg_octets_def)

lemma msg_body: "drop 2 (msg_octets m @ rest) = m @ rest"
  by (simp add: msg_octets_def)

lemma uint_msg_length: "length m < 65536 \<Longrightarrow> uint (of_nat (length m) :: u16) = int (length m)"
  by (simp add: uint_nat unat_of_nat)

lemma queue_read_available:
  assumes "queue_ok s" and "n \<le> length (queue_list s)"
  obtains s' where "queue_read s buf (int n) = Some (s', int n, if buf then take n (queue_list s) else [])"
    "queue_ok s'" "same_config s s'" "queue_list s' = drop n (queue_list s)"
proof -
  obtain s' r out where "queue_read s buf (int n) = Some (s', r, if buf then out else [])"
    "queue_ok s'" "same_config s s'" "fifo_read (q_read_atomic s) (queue_list s) n = (queue_list s', r, out)"
    using assms(1) by (rule queue_read_refines)
  with assms(2) that [of s'] show ?thesis
    by (auto simp: fifo_read_def)
qed

lemma queue_read_msg_holds:
  assumes "holds_msgs s (m # ms)"
  obtains s' where "queue_read_msg s (int n) = Some (s', int (min n (length m)), take n m)"
    "holds_msgs s' ms" "same_config s s'"
proof -
  let ?rest = "concat (map msg_octets ms)"
  have ok: "queue_ok s" and list: "queue_list s = msg_octets m @ ?rest" and m: "length m < 65536"
    and ms: "list_all (\<lambda>m. length m < 65536) ms"
    using assms by (auto simp: holds_msgs_def)
  obtain s1 where s1: "queue_read s True 2 = Some (s1, 2, u16_octets (of_nat (length m)))"
    "queue_ok s1" "same_config s s1" "queue_list s1 = m @ ?rest"
    using queue_read_available [OF ok, of 2 True] list msg_header msg_body
    by (metis length_append length_msg_octets le_add2 le_add_same_cancel1 of_nat_numeral trans_le_add1 zero_le)
  consider (empty) "m = []" | (long) "m \<noteq> []" "n < length m" | (fits) "m \<noteq> []" "length m \<le> n"
    by linarith
  then show ?thesis
  proof cases
    case empty
    with s1 ms that [of s1] show ?thesis
      by (simp add: queue_read_msg_def holds_msgs_def)
  next
    case long
    obtain s2 where s2: "queue_read s1 True (int n) = Some (s2, int n, take n (m @ ?rest))"
      "queue_ok s2" "same_config s1 s2" "queue_list s2 = drop n (m @ ?rest)"
      using queue_read_available [OF s1(2), of n True] s1(4) long by auto
    obtain s3 where s3: "queue_read s2 False (int (length m - n)) = Some (s3, int (length m - n), [])"
      "queue_ok s3" "same_config s2 s3" "queue_list s3 = ?rest"
    proof (rule queue_read_available [OF s2(2), of "length m - n" False])
      show "length m - n \<le> length (queue_list s2)"
        using s2(4) by simp
    qed (use s2(4) long in auto)
    have "queue_read_msg s (int n) = Some (s3, int n, take n m)"
      using s1(1) s2(1) s3(1) long m
      by (simp add: queue_read_msg_def uint_msg_length of_nat_diff)
    with s1 s2 s3 ms long that [of s3] show ?thesis
      by (simp add: holds_msgs_def same_config_def min_def)
  next
    case fits
    obtain s2 where s2: "queue_read s1 True (int (length m)) = Some (s2, int (length m), m)"
      "queue_ok s2" "same_config s1 s2" "queue_list s2 = ?rest"
      using queue_read_available [OF s1(2), of "length m" True] s1(4) by auto
    have "queue_read_msg s (int n) = Some (s2, int (length m), m)"
      using s1(1) s2(1) fits m by (simp add: queue_read_msg_def uint_msg_length)
    with s1 s2 ms fits that [of s2] show ?thesis
      by (simp add: holds_msgs_def same_config_def min_def)
  qed
qed

lemma queue_read_msg_empty:
  assumes "holds_msgs s []"
  shows "queue_read_msg s (int n) = Some (s, -1, [])" and "queue_state_test_msg s = Some (-1)"
  using assms
  by (auto simp: holds_msgs_def queue_read_msg_def queue_state_test_msg_def queue_view_def
      queue_read_def queue_contents_list Let_def)

lemma queue_state_test_msg_holds:
  assumes "holds_msgs s (m # ms)"
  shows "queue_state_test_msg s = Some (int (length m))"
proof -
  have ok: "queue_ok s" and list: "queue_list s = msg_octets m @ concat (map msg_octets ms)"
    and m: "length m < 65536"
    using assms by (auto simp: holds_msgs_def)
  obtain s1 where "queue_read s True 2 = Some (s1, 2, u16_octets (of_nat (length m)))"
    using queue_read_available [OF ok, of 2 True] list msg_header
    by (metis length_append length_msg_octets le_add2 of_nat_numeral trans_le_add1)
  then show ?thesis
    using m by (simp add: queue_state_test_msg_def queue_view_read uint_msg_length)
qed

lemma queue_write_msg_holds:
  assumes "holds_msgs s ms" and "length m < 65536"
  shows "\<exists>s'. queue_write_msg s m (int (length m)) =
      (if length m + 2 \<le> queue_cap s - length (queue_list s) then Some (s', int (length m))
       else Some (s, -1)) \<and>
    (length m + 2 \<le> queue_cap s - length (queue_list s) \<longrightarrow>
       holds_msgs s' (ms @ [m]) \<and> same_config s s')"
proof -
  have ok: "queue_ok s"
    using assms by (simp add: holds_msgs_def)
  have put: "queue_write_msg s m (int (length m)) =
      (if length m + 2 \<le> queue_cap s - length (queue_list s) then Some (queue_put s (msg_octets m), int (length m))
       else Some (s, -1))"
    using ok by (simp add: queue_write_msg_put msg_octets_def)
  with assms show ?thesis
    by (intro exI [of _ "queue_put s (msg_octets m)"]) (simp add: holds_msgs_def queue_put_ok)
qed

lemma queue_init_ok:
  "int (length mem) = len + 1 \<Longrightarrow> 0 \<le> len \<Longrightarrow> queue_ok (queue_init mem len flags)"
  by (simp add: queue_ok_def queue_init_def)

lemma queue_init_empty [simp]: "queue_list (queue_init mem len flags) = []"
  by (simp add: queue_list_def queue_init_def ring_list_def)

lemma queue_init_cap: "queue_cap (queue_init mem len flags) = nat (len + 1) - 1"
  by (simp add: queue_cap_def queue_init_def)

section \<open>Properties\<close>

text \<open>
  Claim C31. \<^verbatim>\<open>queue_write\<close> and \<^verbatim>\<open>queue_read\<close> on a well formed ring never touch memory outside the
  buffer, keep the ring well formed, and act on the queued octets as the bounded queue
  specification says on every branch: full acceptance, partial acceptance, and refusal in atomic
  mode.
\<close>
theorem queue_refines_fifo:
  assumes "queue_ok s" and "n \<le> length buf"
  shows "(\<exists>s' r. queue_write s buf (int n) = Some (s', r) \<and> queue_ok s' \<and> same_config s s' \<and>
      fifo_write (q_write_atomic s) (queue_cap s) (queue_list s) (take n buf) = (queue_list s', r)) \<and>
    (\<exists>s' r out. queue_read s True (int k) = Some (s', r, out) \<and> queue_ok s' \<and> same_config s s' \<and>
      fifo_read (q_read_atomic s) (queue_list s) k = (queue_list s', r, out))"
proof (intro conjI)
  show "\<exists>s' r. queue_write s buf (int n) = Some (s', r) \<and> queue_ok s' \<and> same_config s s' \<and>
      fifo_write (q_write_atomic s) (queue_cap s) (queue_list s) (take n buf) = (queue_list s', r)"
    by (rule queue_write_refines [OF assms]) blast
  show "\<exists>s' r out. queue_read s True (int k) = Some (s', r, out) \<and> queue_ok s' \<and> same_config s s' \<and>
      fifo_read (q_read_atomic s) (queue_list s) k = (queue_list s', r, out)"
    by (rule queue_read_refines [OF assms(1), of True k]) auto
qed

theorem queue_refines_fifo_witness:
  "\<exists>s' r. queue_write (queue_init [0, 0, 0, 0] 3 0) [1, 2, 3, 4] 4 = Some (s', r) \<and> r = 3 \<and>
     queue_list s' = [1, 2, 3]"
proof -
  have "queue_ok (queue_init [0, 0, 0, 0] 3 0)"
    by (simp add: queue_init_ok)
  moreover have "\<not> q_write_atomic (queue_init [0, 0, 0, 0] 3 0)"
    by (simp add: q_write_atomic_def queue_init_def)
  ultimately show ?thesis
    using queue_refines_fifo [of "queue_init [0, 0, 0, 0] 3 0" 4 "[1, 2, 3, 4]" 0]
    by (auto simp: fifo_write_def queue_init_cap)
qed

text \<open>
  From a fresh queue, any sequence of whole writes and reads runs without an access
  outside the buffer, and the octets delivered so far followed by the octets still queued are
  exactly the accepted octets in the order of the writes.
\<close>
theorem queue_stream_in_order:
  assumes "int (length mem) = len + 1" and "0 \<le> len"
  shows "\<exists>s' acc out. fifo_run q_wr q_rd (queue_init mem len flags) ops = Some (s', acc, out) \<and>
    queue_ok s' \<and> out @ queue_list s' = acc"
  using qf.run_delivers [OF queue_init_ok [OF assms], of flags ops] by auto

theorem queue_stream_in_order_witness:
  "\<exists>s' acc out. fifo_run q_wr q_rd (queue_init [0, 0, 0, 0] 3 2)
      [Fifo_Write [1, 2, 3], Fifo_Read 2, Fifo_Write [4, 5]] = Some (s', acc, out) \<and>
    queue_ok s' \<and> out @ queue_list s' = acc"
  by (rule queue_stream_in_order) simp_all

text \<open>
  Claim C32. The message operations make the queue a queue of messages, whether it is empty or not: the
  head length is reported without removing it, reading returns the head message cut to the reader's
  buffer and removes exactly that message even when it is cut, both give -1 on an empty queue and leave
  it as it is, and writing a message shorter than 65536 octets appends it, also as the first one, when it
  fits with its two octet header and is refused without change otherwise.
\<close>
theorem queue_message_fifo:
  assumes "holds_msgs s ms" and "length new < 65536"
  shows "queue_state_test_msg s = Some (case ms of [] \<Rightarrow> -1 | m # _ \<Rightarrow> int (length m)) \<and>
    (case ms of [] \<Rightarrow> queue_read_msg s (int n) = Some (s, -1, [])
     | m # rest \<Rightarrow> \<exists>s'. queue_read_msg s (int n) = Some (s', int (min n (length m)), take n m) \<and> holds_msgs s' rest \<and> same_config s s') \<and>
    (if length new + 2 \<le> queue_cap s - length (queue_list s)
     then \<exists>s'. queue_write_msg s new (int (length new)) = Some (s', int (length new)) \<and>
       holds_msgs s' (ms @ [new]) \<and> same_config s s'
     else queue_write_msg s new (int (length new)) = Some (s, -1))"
proof (intro conjI)
  show "queue_state_test_msg s = Some (case ms of [] \<Rightarrow> -1 | m # _ \<Rightarrow> int (length m))"
    using assms(1) queue_read_msg_empty(2) queue_state_test_msg_holds by (cases ms) auto
  show "case ms of [] \<Rightarrow> queue_read_msg s (int n) = Some (s, -1, [])
     | m # rest \<Rightarrow> \<exists>s'. queue_read_msg s (int n) = Some (s', int (min n (length m)), take n m) \<and> holds_msgs s' rest \<and> same_config s s'"
    using assms(1) queue_read_msg_empty(1) queue_read_msg_holds [of s _ _ n] by (cases ms) (auto, metis)
  show "if length new + 2 \<le> queue_cap s - length (queue_list s)
     then \<exists>s'. queue_write_msg s new (int (length new)) = Some (s', int (length new)) \<and>
       holds_msgs s' (ms @ [new]) \<and> same_config s s'
     else queue_write_msg s new (int (length new)) = Some (s, -1)"
    using queue_write_msg_holds [OF assms] by auto
qed

lemma holds_msgs_example:
  "holds_msgs \<lparr>q_flags = 3, q_len = 8, q_iptr = 6, q_optr = 6, q_data = [0, 0, 0, 0, 0, 0, 0, 0]\<rparr> []"
  by (simp add: holds_msgs_def queue_ok_def queue_list_def ring_list_def)

text \<open>The first message of an empty queue, written across the end of the buffer and read again.\<close>

theorem queue_message_fifo_witness:
  "\<exists>s' s''. queue_write_msg \<lparr>q_flags = 3, q_len = 8, q_iptr = 6, q_optr = 6, q_data = [0, 0, 0, 0, 0, 0, 0, 0]\<rparr> [7, 9] 2 = Some (s', 2) \<and>
     queue_read_msg s' 1 = Some (s'', 1, [7]) \<and> holds_msgs s'' []"
proof -
  let ?s = "\<lparr>q_flags = 3, q_len = 8, q_iptr = 6, q_optr = 6, q_data = [0, 0, 0, 0, 0, 0, 0, 0]\<rparr>"
  have "length [7, 9 :: u8] + 2 \<le> queue_cap ?s - length (queue_list ?s)"
    by (simp add: queue_cap_def queue_list_def ring_list_def)
  then obtain s' where s': "queue_write_msg ?s [7, 9] 2 = Some (s', 2)" "holds_msgs s' [[7, 9]]"
    using queue_message_fifo [OF holds_msgs_example, of "[7, 9]"] by auto
  then show ?thesis
    using queue_message_fifo [OF s'(2), of "[]" 1] by auto
qed

text \<open>
  A message of 65536 octets that fits the buffer is accepted and reported as written
  in full, but its length field wraps to zero: the reader then sees an empty message, and the
  framing of the queue is lost.
\<close>
theorem queue_write_msg_length_wraps:
  assumes "queue_ok s" and "queue_list s = []" and "length m = 65536" and "65538 \<le> queue_cap s"
  shows "\<exists>s'. queue_write_msg s m (int (length m)) = Some (s', 65536) \<and>
    queue_state_test_msg s' = Some 0 \<and> queue_contents s' = 65538"
proof -
  let ?xs = "u16_octets 0 @ m"
  have z: "(65536 :: u16) = 0"
    by simp
  have put: "queue_write_msg s m (int (length m)) = Some (queue_put s ?xs, 65536)"
    using queue_write_msg_put [OF assms(1), of 65536 m] assms z by simp
  have ok: "queue_ok (queue_put s ?xs)" and list: "queue_list (queue_put s ?xs) = ?xs"
    using assms queue_put_ok [of s ?xs] by simp_all
  obtain s1 where "queue_read (queue_put s ?xs) True 2 = Some (s1, 2, u16_octets 0)"
    using queue_read_available [OF ok, of 2 True] list by auto
  then have "queue_state_test_msg (queue_put s ?xs) = Some 0"
    by (simp add: queue_state_test_msg_def queue_view_read)
  moreover have "queue_contents (queue_put s ?xs) = 65538"
    using ok list assms by (simp add: queue_contents_list)
  ultimately show ?thesis
    using put by blast
qed

theorem queue_write_msg_length_wraps_witness:
  "\<exists>s'. queue_write_msg (queue_init (replicate 65539 0) 65538 3) (replicate 65536 1)
      (int (length (replicate 65536 (1::u8)))) = Some (s', 65536) \<and>
    queue_state_test_msg s' = Some 0 \<and> queue_contents s' = 65538"
  by (rule queue_write_msg_length_wraps) (simp_all add: queue_init_ok queue_init_cap)

end
