(* ===== verification/Bit_Ops.thy ===== *)
theory Bit_Ops
  imports Prelude
begin

text \<open>
  The bit manipulation routines of \<^verbatim>\<open>spandsp-0.0.6/src/bit_operations.c\<close> and of the inline
  functions in \<^verbatim>\<open>spandsp/bit_operations.h\<close>. Where the header offers inline assembly and a portable
  C body, the portable body is modelled; where it offers a multiply and a shift version, the
  multiply version of the x86 builds is modelled.
\<close>

section \<open>Inline functions of the header\<close>

definition narrow_mask :: "u32 \<Rightarrow> int \<Rightarrow> u32 \<times> int \<Rightarrow> u32 \<times> int" where
  "narrow_mask m d p = (case p of (bits, res) \<Rightarrow>
     if bits AND m \<noteq> 0 then (bits AND m, res + d) else (bits, res))"

definition top_bit :: "u32 \<Rightarrow> int" where
  "top_bit bits =
     (if bits = 0 then -1
      else snd (narrow_mask 0xAAAAAAAA 1 (narrow_mask 0xCCCCCCCC 2 (narrow_mask 0xF0F0F0F0 4
        (narrow_mask 0xFF00FF00 8 (narrow_mask 0xFFFF0000 16 (bits, 0)))))))"

definition bottom_bit :: "u32 \<Rightarrow> int" where
  "bottom_bit bits =
     (if bits = 0 then -1
      else snd (narrow_mask 0x55555555 (-1) (narrow_mask 0x33333333 (-2) (narrow_mask 0x0F0F0F0F (-4)
        (narrow_mask 0x00FF00FF (-8) (narrow_mask 0x0000FFFF (-16) (bits, 31)))))))"

definition bit_reverse8 :: "u8 \<Rightarrow> u8" where
  "bit_reverse8 x =
     (let y = ucast x :: u32
      in ucast (drop_bit 16 (((y * 0x0802 AND 0x22110) OR (y * 0x8020 AND 0x88440)) * 0x10101)))"

definition least_significant_one32 :: "u32 \<Rightarrow> u32" where
  "least_significant_one32 x = x AND (- x)"

definition parity8 :: "u8 \<Rightarrow> u32" where
  "parity8 x = (let x = (x XOR drop_bit 4 x) AND 0x0F in drop_bit (unat x) 0x6996 AND 1)"

definition parity16 :: "u16 \<Rightarrow> u32" where
  "parity16 x =
     (let x = x XOR drop_bit 8 x; x = (x XOR drop_bit 4 x) AND 0x0F in drop_bit (unat x) 0x6996 AND 1)"

definition parity32 :: "u32 \<Rightarrow> u32" where
  "parity32 x =
     (let x = x XOR drop_bit 16 x; x = x XOR drop_bit 8 x; x = (x XOR drop_bit 4 x) AND 0x0F
      in drop_bit (unat x) 0x6996 AND 1)"

section \<open>Functions of the source file\<close>

definition swap_fields :: "'a::len word \<Rightarrow> 'a word \<Rightarrow> nat \<Rightarrow> 'a word \<Rightarrow> 'a word" where
  "swap_fields m1 m2 k x = drop_bit k (x AND m1) OR push_bit k (x AND m2)"

definition bit_reverse16 :: "u16 \<Rightarrow> u16" where
  "bit_reverse16 x =
     (let x = drop_bit 8 x OR push_bit 8 x;
          x = swap_fields 0xF0F0 0x0F0F 4 x;
          x = swap_fields 0xCCCC 0x3333 2 x
      in swap_fields 0xAAAA 0x5555 1 x)"

definition bit_reverse32 :: "u32 \<Rightarrow> u32" where
  "bit_reverse32 x =
     (let x = drop_bit 16 x OR push_bit 16 x;
          x = swap_fields 0xFF00FF00 0x00FF00FF 8 x;
          x = swap_fields 0xF0F0F0F0 0x0F0F0F0F 4 x;
          x = swap_fields 0xCCCCCCCC 0x33333333 2 x
      in swap_fields 0xAAAAAAAA 0x55555555 1 x)"

definition bit_reverse_4bytes :: "u32 \<Rightarrow> u32" where
  "bit_reverse_4bytes x =
     (let x = swap_fields 0xF0F0F0F0 0x0F0F0F0F 4 x;
          x = swap_fields 0xCCCCCCCC 0x33333333 2 x
      in swap_fields 0xAAAAAAAA 0x55555555 1 x)"

definition bit_reverse_8bytes :: "u64 \<Rightarrow> u64" where
  "bit_reverse_8bytes x =
     (let x = swap_fields 0xF0F0F0F0F0F0F0F0 0x0F0F0F0F0F0F0F0F 4 x;
          x = swap_fields 0xCCCCCCCCCCCCCCCC 0x3333333333333333 2 x
      in swap_fields 0xAAAAAAAAAAAAAAAA 0x5555555555555555 1 x)"

text \<open>
  \<^verbatim>\<open>bit_reverse\<close> reads the buffer through 64 bit and 32 bit pointers; a word of the little endian
  machine has its lowest octet first.
\<close>

definition load_le :: "octets \<Rightarrow> 'a::len word" where
  "load_le bs = word_of_bits (stream_lsb bs)"

definition store_le :: "nat \<Rightarrow> 'a::len word \<Rightarrow> octets" where
  "store_le n w = map (\<lambda>i. ucast (drop_bit (8 * i) w)) [0..<n]"

fun bit_reverse_octets :: "octets \<Rightarrow> octets" where
  "bit_reverse_octets [] = []"
| "bit_reverse_octets (b # bs) = bit_reverse8 b # bit_reverse_octets bs"

function bit_reverse_words4 :: "octets \<Rightarrow> octets" where
  "bit_reverse_words4 bs =
     (if length bs \<ge> 4
      then store_le 4 (bit_reverse_4bytes (load_le (take 4 bs))) @ bit_reverse_words4 (drop 4 bs)
      else bit_reverse_octets bs)"
  by pat_completeness auto
termination
  by (relation "measure length") auto

function bit_reverse :: "octets \<Rightarrow> octets" where
  "bit_reverse bs =
     (if length bs \<ge> 8
      then store_le 8 (bit_reverse_8bytes (load_le (take 8 bs))) @ bit_reverse (drop 8 bs)
      else bit_reverse_words4 bs)"
  by pat_completeness auto
termination
  by (relation "measure length") auto

declare bit_reverse_words4.simps [simp del] bit_reverse.simps [simp del]

definition one_bits32 :: "u32 \<Rightarrow> u32" where
  "one_bits32 x =
     (let x = x - (drop_bit 1 x AND 0x55555555);
          x = (x AND 0x33333333) + (drop_bit 2 x AND 0x33333333);
          x = (x + drop_bit 4 x) AND 0x0F0F0F0F
      in drop_bit 24 (x * 0x01010101))"

definition make_mask32 :: "u32 \<Rightarrow> u32" where
  "make_mask32 x =
     (let x = x OR drop_bit 1 x; x = x OR drop_bit 2 x; x = x OR drop_bit 4 x; x = x OR drop_bit 8 x
      in x OR drop_bit 16 x)"

definition make_mask16 :: "u16 \<Rightarrow> u16" where
  "make_mask16 x =
     (let x = x OR drop_bit 1 x; x = x OR drop_bit 2 x; x = x OR drop_bit 4 x
      in x OR drop_bit 8 x)"

section \<open>Searching for the highest and the lowest set bit\<close>

text \<open>
  After each halving step the set bits still agree with the wanted position in all but the lowest
  digits. The masks of the source select the positions with a given digit.
\<close>

definition agree_above :: "nat \<Rightarrow> u32 \<Rightarrow> nat \<Rightarrow> bool" where
  "agree_above d x k \<longleftrightarrow> bit x k \<and> (\<forall>j. bit x j \<longrightarrow> j div 2 ^ d = k div 2 ^ d)"

lemma agree_aboveD: "agree_above d x k \<Longrightarrow> bit x j \<Longrightarrow> j div 2 ^ d = k div 2 ^ d"
  unfolding agree_above_def by blast

lemma agree_above_bit: "agree_above d x k \<Longrightarrow> bit x k"
  unfolding agree_above_def by blast

lemma agree_aboveI: "bit x k \<Longrightarrow> (\<And>j. bit x j \<Longrightarrow> j div 2 ^ d = k div 2 ^ d) \<Longrightarrow> agree_above d x k"
  unfolding agree_above_def by blast

lemma bit_below_32: "bit (x :: u32) j \<Longrightarrow> j < 32"
  using bit_imp_le_length [of x j] by simp

lemma all_below_32: "(\<And>i. i \<in> set [0..<32] \<Longrightarrow> P i) \<Longrightarrow> i < 32 \<Longrightarrow> P i"
  by simp

lemma low_masks:
  "bit (0x0000FFFF :: u32) i \<longleftrightarrow> i < 32 \<and> even (i div 2 ^ 4)"
  "bit (0x00FF00FF :: u32) i \<longleftrightarrow> i < 32 \<and> even (i div 2 ^ 3)"
  "bit (0x0F0F0F0F :: u32) i \<longleftrightarrow> i < 32 \<and> even (i div 2 ^ 2)"
  "bit (0x33333333 :: u32) i \<longleftrightarrow> i < 32 \<and> even (i div 2 ^ 1)"
  "bit (0x55555555 :: u32) i \<longleftrightarrow> i < 32 \<and> even (i div 2 ^ 0)"
proof -
  have "\<forall>i\<in>set [0..<32]. (bit (0x0000FFFF :: u32) i \<longleftrightarrow> even (i div 2 ^ 4)) \<and>
    (bit (0x00FF00FF :: u32) i \<longleftrightarrow> even (i div 2 ^ 3)) \<and>
    (bit (0x0F0F0F0F :: u32) i \<longleftrightarrow> even (i div 2 ^ 2)) \<and>
    (bit (0x33333333 :: u32) i \<longleftrightarrow> even (i div 2 ^ 1)) \<and>
    (bit (0x55555555 :: u32) i \<longleftrightarrow> even (i div 2 ^ 0))"
    by code_simp
  then have all: "i < 32 \<Longrightarrow> (bit (0x0000FFFF :: u32) i \<longleftrightarrow> even (i div 2 ^ 4)) \<and>
    (bit (0x00FF00FF :: u32) i \<longleftrightarrow> even (i div 2 ^ 3)) \<and>
    (bit (0x0F0F0F0F :: u32) i \<longleftrightarrow> even (i div 2 ^ 2)) \<and>
    (bit (0x33333333 :: u32) i \<longleftrightarrow> even (i div 2 ^ 1)) \<and>
    (bit (0x55555555 :: u32) i \<longleftrightarrow> even (i div 2 ^ 0))"
    by simp
  show "bit (0x0000FFFF :: u32) i \<longleftrightarrow> i < 32 \<and> even (i div 2 ^ 4)"
    "bit (0x00FF00FF :: u32) i \<longleftrightarrow> i < 32 \<and> even (i div 2 ^ 3)"
    "bit (0x0F0F0F0F :: u32) i \<longleftrightarrow> i < 32 \<and> even (i div 2 ^ 2)"
    "bit (0x33333333 :: u32) i \<longleftrightarrow> i < 32 \<and> even (i div 2 ^ 1)"
    "bit (0x55555555 :: u32) i \<longleftrightarrow> i < 32 \<and> even (i div 2 ^ 0)"
    using all bit_below_32 by blast+
qed

lemma high_mask:
  assumes "hi = NOT lo" and "\<And>i. bit (lo :: u32) i \<longleftrightarrow> i < 32 \<and> even (i div 2 ^ d)"
  shows "bit hi i \<longleftrightarrow> i < 32 \<and> odd (i div 2 ^ d)"
  using assms by (auto simp: bit_simps)

lemma high_masks:
  "bit (0xFFFF0000 :: u32) i \<longleftrightarrow> i < 32 \<and> odd (i div 2 ^ 4)"
  "bit (0xFF00FF00 :: u32) i \<longleftrightarrow> i < 32 \<and> odd (i div 2 ^ 3)"
  "bit (0xF0F0F0F0 :: u32) i \<longleftrightarrow> i < 32 \<and> odd (i div 2 ^ 2)"
  "bit (0xCCCCCCCC :: u32) i \<longleftrightarrow> i < 32 \<and> odd (i div 2 ^ 1)"
  "bit (0xAAAAAAAA :: u32) i \<longleftrightarrow> i < 32 \<and> odd (i div 2 ^ 0)"
  by (rule high_mask [OF _ low_masks(1)], simp) (rule high_mask [OF _ low_masks(2)], simp,
      rule high_mask [OF _ low_masks(3)], simp, rule high_mask [OF _ low_masks(4)], simp,
      rule high_mask [OF _ low_masks(5)], simp)

lemma div_pow2_Suc: "(j::nat) div 2 ^ d = 2 * (j div 2 ^ Suc d) + (j div 2 ^ d) mod 2"
proof -
  have "j div 2 ^ Suc d = j div 2 ^ d div 2"
    by (simp add: div_mult2_eq power_Suc2 del: power_Suc)
  then show ?thesis by simp
qed

lemma same_digit:
  assumes "j div 2 ^ Suc d = k div 2 ^ Suc d" and "even (j div 2 ^ d) = even (k div 2 ^ d)"
  shows "(j::nat) div 2 ^ d = k div 2 ^ d"
  using assms div_pow2_Suc [of j d] div_pow2_Suc [of k d] by (metis parity_cases)

lemma digit_order:
  assumes "j div 2 ^ Suc d = k div 2 ^ Suc d" and "(k::nat) \<le> j" and "odd (k div 2 ^ d)"
  shows "odd (j div 2 ^ d)"
proof
  assume even: "even (j div 2 ^ d)"
  have "k div 2 ^ d \<le> j div 2 ^ d"
    using assms(2) by (rule div_le_mono)
  with assms even div_pow2_Suc [of j d] div_pow2_Suc [of k d] show False
    by (metis add_le_cancel_left even_iff_mod_2_eq_zero not_one_le_zero odd_iff_mod_2_eq_one)
qed

lemma narrow_step:
  assumes agree: "agree_above (Suc d) x k"
    and m: "\<And>i. bit m i \<longleftrightarrow> i < 32 \<and> even (i div 2 ^ d) = e"
    and first: "even (k div 2 ^ d) = e \<or> (\<forall>j. bit x j \<longrightarrow> even (j div 2 ^ d) \<noteq> e)"
  shows "\<exists>y. narrow_mask m r (x, res) = (y, if even (k div 2 ^ d) = e then res + r else res) \<and>
    agree_above d y k \<and> (\<forall>j. bit y j \<longrightarrow> bit x j)"
proof (cases "even (k div 2 ^ d) = e")
  case True
  have k: "bit x k" "k < 32"
    using agree by (auto intro: agree_above_bit bit_below_32)
  then have mk: "bit (x AND m) k"
    using m True by (simp add: bit_and_iff)
  then have nz: "x AND m \<noteq> 0"
    by auto
  have "agree_above d (x AND m) k"
  proof (rule agree_aboveI [OF mk])
    fix j assume "bit (x AND m) j"
    then have j: "bit x j" "bit m j"
      by (simp_all add: bit_and_iff)
    from m j(2) True have "even (j div 2 ^ d) = even (k div 2 ^ d)"
      by simp
    with agree_aboveD [OF agree j(1)] show "j div 2 ^ d = k div 2 ^ d"
      by (rule same_digit)
  qed
  with nz True show ?thesis
    by (auto simp: narrow_mask_def bit_and_iff)
next
  case False
  with first have none: "\<And>j. bit x j \<Longrightarrow> even (j div 2 ^ d) \<noteq> e"
    by blast
  have "x AND m = 0"
    by (rule bit_word_eqI) (auto simp: bit_and_iff m dest: none)
  moreover have "agree_above d x k"
  proof (rule agree_aboveI)
    fix j assume j: "bit x j"
    from none [OF j] False have "even (j div 2 ^ d) = even (k div 2 ^ d)"
      by blast
    with agree_aboveD [OF agree j] show "j div 2 ^ d = k div 2 ^ d"
      by (rule same_digit)
  qed (rule agree_above_bit [OF agree])
  ultimately show ?thesis
    using False by (simp add: narrow_mask_def)
qed

lemma agree_start: "bit x k \<Longrightarrow> agree_above 5 x k"
  by (rule agree_aboveI) (use bit_below_32 in auto)

lemma lowest_first:
  assumes "agree_above (Suc d) x k" and "\<And>j. bit x j \<Longrightarrow> k \<le> j"
  shows "even (k div 2 ^ d) = True \<or> (\<forall>j. bit x j \<longrightarrow> even (j div 2 ^ d) \<noteq> True)"
  using assms digit_order [of _ d k] agree_aboveD by blast

lemma highest_first:
  assumes "agree_above (Suc d) x k" and "\<And>j. bit x j \<Longrightarrow> j \<le> k"
  shows "even (k div 2 ^ d) = False \<or> (\<forall>j. bit x j \<longrightarrow> even (j div 2 ^ d) \<noteq> False)"
  using assms digit_order [of k d] agree_aboveD by metis

definition lowest_at :: "nat \<Rightarrow> u32 \<Rightarrow> nat \<Rightarrow> bool" where
  "lowest_at d x k \<longleftrightarrow> agree_above d x k \<and> (\<forall>j. bit x j \<longrightarrow> k \<le> j)"

definition highest_at :: "nat \<Rightarrow> u32 \<Rightarrow> nat \<Rightarrow> bool" where
  "highest_at d x k \<longleftrightarrow> agree_above d x k \<and> (\<forall>j. bit x j \<longrightarrow> j \<le> k)"

lemma narrow_low:
  assumes "narrow_mask m r (x, res) = (y, res')" and "lowest_at n x k" and "n = Suc d"
    and "\<And>i. bit m i \<longleftrightarrow> i < 32 \<and> even (i div 2 ^ d)"
  shows "res' = res + (if even (k div 2 ^ d) then r else 0)" and "lowest_at d y k"
proof -
  have a: "agree_above (Suc d) x k" and l: "\<And>j. bit x j \<Longrightarrow> k \<le> j"
    using assms(2,3) by (auto simp: lowest_at_def)
  have m: "bit m i \<longleftrightarrow> i < 32 \<and> even (i div 2 ^ d) = True" for i
    using assms(4) by simp
  obtain z where z: "narrow_mask m r (x, res) = (z, if even (k div 2 ^ d) = True then res + r else res)"
    "agree_above d z k" "\<forall>j. bit z j \<longrightarrow> bit x j"
    using narrow_step [OF a m lowest_first [OF a l]] by blast
  from z(1) assms(1) show "res' = res + (if even (k div 2 ^ d) then r else 0)"
    by simp
  from z assms(1) l show "lowest_at d y k"
    unfolding lowest_at_def by (metis prod.inject)
qed

lemma narrow_high:
  assumes "narrow_mask m r (x, res) = (y, res')" and "highest_at n x k" and "n = Suc d"
    and "\<And>i. bit m i \<longleftrightarrow> i < 32 \<and> odd (i div 2 ^ d)"
  shows "res' = res + (if odd (k div 2 ^ d) then r else 0)" and "highest_at d y k"
proof -
  have a: "agree_above (Suc d) x k" and l: "\<And>j. bit x j \<Longrightarrow> j \<le> k"
    using assms(2,3) by (auto simp: highest_at_def)
  have m: "bit m i \<longleftrightarrow> i < 32 \<and> even (i div 2 ^ d) = False" for i
    using assms(4) by simp
  obtain z where z: "narrow_mask m r (x, res) = (z, if even (k div 2 ^ d) = False then res + r else res)"
    "agree_above d z k" "\<forall>j. bit z j \<longrightarrow> bit x j"
    using narrow_step [OF a m highest_first [OF a l]] by blast
  from z(1) assms(1) show "res' = res + (if odd (k div 2 ^ d) then r else 0)"
    by simp
  from z assms(1) l show "highest_at d y k"
    unfolding highest_at_def by (metis prod.inject)
qed

lemma binary_digits:
  "k < 32 \<Longrightarrow> 31 + (if even (k div 2 ^ 4) then -16 else 0) + (if even (k div 2 ^ 3) then -8 else 0) +
     (if even (k div 2 ^ 2) then -4 else 0) + (if even (k div 2 ^ 1) then -2 else 0) +
     (if even (k div 2 ^ 0) then -1 else 0) = int k"
  "k < 32 \<Longrightarrow> 0 + (if odd (k div 2 ^ 4) then 16 else 0) + (if odd (k div 2 ^ 3) then 8 else 0) +
     (if odd (k div 2 ^ 2) then 4 else 0) + (if odd (k div 2 ^ 1) then 2 else 0) +
     (if odd (k div 2 ^ 0) then 1 else 0) = int k"
proof -
  have "\<forall>k\<in>set [0..<32].
    31 + (if even (k div 2 ^ 4) then -16 else 0) + (if even (k div 2 ^ 3) then -8 else 0) +
     (if even (k div 2 ^ 2) then -4 else 0) + (if even (k div 2 ^ 1) then -2 else 0) +
     (if even (k div 2 ^ 0) then -1 else 0) = int k \<and>
    0 + (if odd (k div 2 ^ 4) then 16 else 0) + (if odd (k div 2 ^ 3) then 8 else 0) +
     (if odd (k div 2 ^ 2) then 4 else 0) + (if odd (k div 2 ^ 1) then 2 else 0) +
     (if odd (k div 2 ^ 0) then 1 else 0) = int k"
    by code_simp
  then show
    "k < 32 \<Longrightarrow> 31 + (if even (k div 2 ^ 4) then -16 else 0) + (if even (k div 2 ^ 3) then -8 else 0) +
     (if even (k div 2 ^ 2) then -4 else 0) + (if even (k div 2 ^ 1) then -2 else 0) +
     (if even (k div 2 ^ 0) then -1 else 0) = int k"
    "k < 32 \<Longrightarrow> 0 + (if odd (k div 2 ^ 4) then 16 else 0) + (if odd (k div 2 ^ 3) then 8 else 0) +
     (if odd (k div 2 ^ 2) then 4 else 0) + (if odd (k div 2 ^ 1) then 2 else 0) +
     (if odd (k div 2 ^ 0) then 1 else 0) = int k"
    by (simp_all only: set_upt atLeastLessThan_iff) auto
qed

lemma bottom_bit_lowest:
  assumes k: "bit x k" and ext: "\<And>j. bit x j \<Longrightarrow> k \<le> j"
  shows "bottom_bit x = int k"
proof -
  have nz: "x \<noteq> 0" and "k < 32"
    using k bit_below_32 by auto
  have n5: "lowest_at 5 x k"
    using agree_start [OF k] ext by (simp add: lowest_at_def)
  obtain x4 r4 where s4: "narrow_mask 0x0000FFFF (-16) (x, 31) = (x4, r4)"
    by fastforce
  note n4 = narrow_low [OF s4 n5 _ low_masks(1), simplified]
  obtain x3 r3 where s3: "narrow_mask 0x00FF00FF (-8) (x4, r4) = (x3, r3)"
    by fastforce
  note n3 = narrow_low [OF s3 n4(2) _ low_masks(2), simplified]
  obtain x2 r2 where s2: "narrow_mask 0x0F0F0F0F (-4) (x3, r3) = (x2, r2)"
    by fastforce
  note n2 = narrow_low [OF s2 n3(2) _ low_masks(3), simplified]
  obtain x1 r1 where s1: "narrow_mask 0x33333333 (-2) (x2, r2) = (x1, r1)"
    by fastforce
  note n1 = narrow_low [OF s1 n2(2) _ low_masks(4), simplified]
  obtain x0 r0 where s0: "narrow_mask 0x55555555 (-1) (x1, r1) = (x0, r0)"
    by fastforce
  note n0 = narrow_low [OF s0 n1(2) _ low_masks(5), simplified]
  have "r0 = int k"
    using binary_digits(1) [OF \<open>k < 32\<close>] n0(1) n1(1) n2(1) n3(1) n4(1) by simp
  then show ?thesis
    using nz by (simp add: bottom_bit_def s4 s3 s2 s1 s0)
qed

lemma top_bit_highest:
  assumes k: "bit x k" and ext: "\<And>j. bit x j \<Longrightarrow> j \<le> k"
  shows "top_bit x = int k"
proof -
  have nz: "x \<noteq> 0" and "k < 32"
    using k bit_below_32 by auto
  have n5: "highest_at 5 x k"
    using agree_start [OF k] ext by (simp add: highest_at_def)
  obtain x4 r4 where s4: "narrow_mask 0xFFFF0000 (16) (x, 0) = (x4, r4)"
    by fastforce
  note n4 = narrow_high [OF s4 n5 _ high_masks(1), simplified]
  obtain x3 r3 where s3: "narrow_mask 0xFF00FF00 (8) (x4, r4) = (x3, r3)"
    by fastforce
  note n3 = narrow_high [OF s3 n4(2) _ high_masks(2), simplified]
  obtain x2 r2 where s2: "narrow_mask 0xF0F0F0F0 (4) (x3, r3) = (x2, r2)"
    by fastforce
  note n2 = narrow_high [OF s2 n3(2) _ high_masks(3), simplified]
  obtain x1 r1 where s1: "narrow_mask 0xCCCCCCCC (2) (x2, r2) = (x1, r1)"
    by fastforce
  note n1 = narrow_high [OF s1 n2(2) _ high_masks(4), simplified]
  obtain x0 r0 where s0: "narrow_mask 0xAAAAAAAA (1) (x1, r1) = (x0, r0)"
    by fastforce
  note n0 = narrow_high [OF s0 n1(2) _ high_masks(5), simplified]
  have "r0 = int k"
    using binary_digits(2) [OF \<open>k < 32\<close>] n0(1) n1(1) n2(1) n3(1) n4(1) by simp
  then show ?thesis
    using nz by (simp add: top_bit_def s4 s3 s2 s1 s0)
qed

section \<open>Bit reversal\<close>

lemma bit_swap_fields:
  "bit (swap_fields m1 m2 k (x :: 'a::len word)) i \<longleftrightarrow>
     bit x (k + i) \<and> bit m1 (k + i) \<or> k \<le> i \<and> i < LENGTH('a) \<and> bit x (i - k) \<and> bit m2 (i - k)"
  by (auto simp: swap_fields_def bit_simps)

lemma no_high_bit16 [simp]: "16 \<le> n \<Longrightarrow> \<not> bit (x :: u16) n"
  using bit_imp_le_length [of x n] by auto

lemma no_high_bit32 [simp]: "32 \<le> n \<Longrightarrow> \<not> bit (x :: u32) n"
  using bit_imp_le_length [of x n] by auto

lemma no_high_bit64 [simp]: "64 \<le> n \<Longrightarrow> \<not> bit (x :: u64) n"
  using bit_imp_le_length [of x n] by auto

lemma indices_8: "[0..<8] = [0, 1, 2, 3, 4, 5, 6, 7]"
  by (simp add: upt_rec)

lemma indices_16: "[0..<16] = [0, 1, 2, 3, 4, 5, 6, 7] @ [8, 9, 10, 11, 12, 13, 14, 15]"
  by (simp add: upt_rec)

lemma indices_32: "[0..<32] = [0..<16] @ [16, 17, 18, 19, 20, 21, 22, 23, 24, 25, 26, 27, 28, 29, 30, 31]"
  by (simp add: upt_rec)

lemma indices_64: "[0..<64] = [0..<32] @ [32, 33, 34, 35, 36, 37, 38, 39, 40, 41, 42, 43, 44, 45, 46, 47,
    48, 49, 50, 51, 52, 53, 54, 55, 56, 57, 58, 59, 60, 61, 62, 63]"
  by (simp add: upt_rec)

lemmas all_indices = indices_64 indices_32 indices_16 set_append list.set ball_Un ball_simps

lemma bit_reverse16_bits: "\<forall>i\<in>set [0..<16]. bit (bit_reverse16 x) i = bit x (15 - i)"
  unfolding all_indices
  by (simp add: bit_reverse16_def Let_def bit_swap_fields bit_or_iff bit_drop_bit_eq bit_push_bit_iff
      flip: numeral_2_eq_2)

lemma bit_reverse32_bits: "\<forall>i\<in>set [0..<32]. bit (bit_reverse32 x) i = bit x (31 - i)"
  unfolding all_indices
  by (simp add: bit_reverse32_def Let_def bit_swap_fields bit_or_iff bit_drop_bit_eq bit_push_bit_iff
      flip: numeral_2_eq_2)

text \<open>
  Within a wider word the octets are reversed by three rounds of exchanging neighbouring fields.
  A round with the masks of digit \<open>d\<close> moves every bit to the position with that digit flipped.
\<close>

definition flip_digit :: "nat \<Rightarrow> nat \<Rightarrow> nat" where
  "flip_digit d i = (if even (i div 2 ^ d) then i + 2 ^ d else i - 2 ^ d)"

definition digit_masks :: "nat \<Rightarrow> 'a::len word \<Rightarrow> 'a word \<Rightarrow> bool" where
  "digit_masks d m1 m2 \<longleftrightarrow> (\<forall>i\<in>set [0..<LENGTH('a)]. bit m1 i = odd (i div 2 ^ d) \<and>
     bit m2 i = even (i div 2 ^ d) \<and> flip_digit d i < LENGTH('a))"

lemma digit_masksD:
  "digit_masks d m1 (m2 :: 'a::len word) \<Longrightarrow> i < LENGTH('a) \<Longrightarrow> bit m1 i = odd (i div 2 ^ d)"
  "digit_masks d m1 (m2 :: 'a::len word) \<Longrightarrow> i < LENGTH('a) \<Longrightarrow> bit m2 i = even (i div 2 ^ d)"
  "digit_masks d m1 (m2 :: 'a::len word) \<Longrightarrow> i < LENGTH('a) \<Longrightarrow> flip_digit d i < LENGTH('a)"
  by (simp_all add: digit_masks_def)

lemma digit_ge: "odd (i div 2 ^ d) \<Longrightarrow> 2 ^ d \<le> (i :: nat)"
  by (metis div_less dvd_0_right not_le)

lemma bit_swap_digit:
  assumes m: "digit_masks d m1 m2" and i: "i < LENGTH('a)"
  shows "bit (swap_fields m1 m2 (2 ^ d) (x :: 'a::len word)) i = bit x (flip_digit d i)"
proof (cases "even (i div 2 ^ d)")
  case True
  have "2 ^ d \<le> i \<Longrightarrow> odd ((i - 2 ^ d) div 2 ^ d)"
    using True by (simp add: le_div_geq)
  moreover have up: "i + 2 ^ d < LENGTH('a)"
    using digit_masksD(3) [OF m i] True by (simp add: flip_digit_def)
  moreover have "odd ((i + 2 ^ d) div 2 ^ d)"
    using True by (simp add: div_add_self2)
  ultimately show ?thesis
    using True i digit_masksD(1,2) [OF m] by (auto simp: bit_swap_fields flip_digit_def add.commute)
next
  case False
  have "even ((i + 2 ^ d) div 2 ^ d)"
    using False by (simp add: div_add_self2)
  then have "\<not> (bit x (2 ^ d + i) \<and> bit m1 (2 ^ d + i))"
    using digit_masksD(1) [OF m, of "2 ^ d + i"] bit_imp_le_length [of x "2 ^ d + i"]
    by (auto simp: add.commute)
  moreover have "even ((i - 2 ^ d) div 2 ^ d)"
    using False digit_ge [OF False] by (simp add: le_div_geq)
  ultimately show ?thesis
    using False i digit_ge [OF False] digit_masksD(2) [OF m, of "i - 2 ^ d"]
    by (auto simp: bit_swap_fields flip_digit_def)
qed

lemma octet_masks32:
  "digit_masks 2 (0xF0F0F0F0 :: u32) 0x0F0F0F0F" "digit_masks 1 (0xCCCCCCCC :: u32) 0x33333333"
  "digit_masks 0 (0xAAAAAAAA :: u32) 0x55555555"
  by code_simp+

lemma octet_masks64:
  "digit_masks 2 (0xF0F0F0F0F0F0F0F0 :: u64) 0x0F0F0F0F0F0F0F0F"
  "digit_masks 1 (0xCCCCCCCCCCCCCCCC :: u64) 0x3333333333333333"
  "digit_masks 0 (0xAAAAAAAAAAAAAAAA :: u64) 0x5555555555555555"
  by code_simp+

lemma flip_octet: "i < 64 \<Longrightarrow> flip_digit 2 (flip_digit 1 (flip_digit 0 i)) = 8 * (i div 8) + (7 - i mod 8)"
proof -
  have "\<forall>i\<in>set [0..<64]. flip_digit 2 (flip_digit 1 (flip_digit 0 i)) = 8 * (i div 8) + (7 - i mod 8)"
    unfolding all_indices by (simp add: flip_digit_def)
  then show "i < 64 \<Longrightarrow> ?thesis" by simp
qed

lemma bit_reverse_4bytes_bits:
  "i < 32 \<Longrightarrow> bit (bit_reverse_4bytes x) i = bit x (8 * (i div 8) + (7 - i mod 8))"
  using octet_masks32 [THEN bit_swap_digit] octet_masks32 [THEN digit_masksD(3)] flip_octet [of i]
  by (simp add: bit_reverse_4bytes_def Let_def)

lemma bit_reverse_8bytes_bits:
  "i < 64 \<Longrightarrow> bit (bit_reverse_8bytes x) i = bit x (8 * (i div 8) + (7 - i mod 8))"
  using octet_masks64 [THEN bit_swap_digit] octet_masks64 [THEN digit_masksD(3)] flip_octet [of i]
  by (simp add: bit_reverse_8bytes_def Let_def)

lemma bit_reverse8_all: "\<forall>n\<in>set [0..255]. bits_lsb (bit_reverse8 (of_int n)) = rev (bits_lsb (of_int n))"
  by code_simp

lemma bit_reverse8_bits: "bits_lsb (bit_reverse8 x) = rev (bits_lsb x)"
proof -
  have "uint x \<in> set [0..255]"
    using unsigned_less [of x, where 'a = int] by simp
  with bit_reverse8_all have "bits_lsb (bit_reverse8 (of_int (uint x))) = rev (bits_lsb (of_int (uint x)))"
    by blast
  then show ?thesis by simp
qed

lemma bit_reverse8_bit: "i < 8 \<Longrightarrow> bit (bit_reverse8 x) i = bit x (7 - i)"
  using arg_cong [OF bit_reverse8_bits, of "\<lambda>l. l ! i" x]
  by (simp add: bits_lsb_nth rev_nth)

lemma stream_lsb_nth: "i < 8 * length bs \<Longrightarrow> stream_lsb bs ! i = bit (bs ! (i div 8)) (i mod 8)"
proof (induction bs arbitrary: i)
  case (Cons b bs)
  show ?case
  proof (cases "i < 8")
    case False
    then have "i div 8 = Suc ((i - 8) div 8)" and "i mod 8 = (i - 8) mod 8"
      by (simp_all add: le_div_geq le_mod_geq)
    with Cons False show ?thesis by (simp add: nth_append)
  qed (simp add: nth_append bit_list_simps)
qed simp

lemma store_load_reversed:
  assumes len: "8 * length bs = LENGTH('a::len)"
    and f: "\<And>x i. i < LENGTH('a) \<Longrightarrow> bit (f x) i = bit (x :: 'a word) (8 * (i div 8) + (7 - i mod 8))"
  shows "store_le (length bs) (f (load_le bs)) = map bit_reverse8 bs"
proof (rule nth_equalityI)
  fix k assume "k < length (store_le (length bs) (f (load_le bs)))"
  then have k: "k < length bs"
    by (simp add: store_le_def)
  have "bit (ucast (drop_bit (8 * k) (f (load_le bs))) :: u8) i = bit (bit_reverse8 (bs ! k)) i" if "i < 8" for i
  proof -
    have "8 * k + i < LENGTH('a)" and "8 * k + (7 - i) < LENGTH('a)"
      using k that by (simp_all flip: len)
    moreover have "(8 * k + i) div 8 = k" and "(8 * k + i) mod 8 = i" and "(8 * k + (7 - i)) div 8 = k"
      and "(8 * k + (7 - i)) mod 8 = 7 - i"
      using that by (simp_all del: add_diff_assoc)
    moreover have "8 * k + (7 - i) < 8 * length bs"
      using k that by simp
    ultimately show ?thesis
      using that k f [of "8 * k + i" "load_le bs"]
      by (simp add: bit_simps load_le_def bit_list_simps stream_lsb_nth bit_reverse8_bit add.commute)
  qed
  with k show "store_le (length bs) (f (load_le bs)) ! k = map bit_reverse8 bs ! k"
    by (simp add: store_le_def) (rule bit_word_eqI, simp)
qed (simp add: store_le_def)

lemma bit_reverse_octets_map: "bit_reverse_octets bs = map bit_reverse8 bs"
  by (induction bs) simp_all

lemma bit_reverse_words4_map: "bit_reverse_words4 bs = map bit_reverse8 bs"
proof (induction bs rule: bit_reverse_words4.induct)
  case (1 bs)
  show ?case
  proof (cases "4 \<le> length bs")
    case True
    then have "store_le 4 (bit_reverse_4bytes (load_le (take 4 bs))) = map bit_reverse8 (take 4 bs)"
      using store_load_reversed [of "take 4 bs" bit_reverse_4bytes] bit_reverse_4bytes_bits by simp
    with 1 True show ?thesis
      by (subst bit_reverse_words4.simps) (simp add: append_take_drop_id flip: map_append)
  next
    case False
    then show ?thesis
      by (subst bit_reverse_words4.simps) (simp add: bit_reverse_octets_map)
  qed
qed

lemma bit_reverse_map: "bit_reverse bs = map bit_reverse8 bs"
proof (induction bs rule: bit_reverse.induct)
  case (1 bs)
  show ?case
  proof (cases "8 \<le> length bs")
    case True
    then have "store_le 8 (bit_reverse_8bytes (load_le (take 8 bs))) = map bit_reverse8 (take 8 bs)"
      using store_load_reversed [of "take 8 bs" bit_reverse_8bytes] bit_reverse_8bytes_bits by simp
    with 1 True show ?thesis
      by (subst bit_reverse.simps) (simp add: append_take_drop_id flip: map_append)
  next
    case False
    then show ?thesis
      by (subst bit_reverse.simps) (simp add: bit_reverse_words4_map)
  qed
qed

lemma bit_reverse8_involution [simp]: "bit_reverse8 (bit_reverse8 x) = x"
  by (rule bits_lsb_inject [THEN iffD1]) (simp add: bit_reverse8_bits)

lemma stream_lsb_reversed: "stream_lsb (map bit_reverse8 bs) = stream_msb bs"
  by (induction bs) (simp_all add: bit_reverse8_bits bits_msb_def)

section \<open>Properties\<close>

text \<open>
  Reversing a buffer eight, four and one octets at a time gives the same octets as reversing
  every octet on its own, for every buffer length; the reversed buffer, sent least significant bit
  first, is the original sent most significant bit first; and reversing twice restores the buffer.
\<close>
theorem bit_reverse_buffer:
  "bit_reverse bs = map bit_reverse8 bs \<and> stream_lsb (bit_reverse bs) = stream_msb bs \<and>
   bit_reverse (bit_reverse bs) = bs"
  by (simp add: bit_reverse_map stream_lsb_reversed comp_def)

text \<open>
  The masked binary searches find the extreme set bits of every 32 bit value: \<open>top_bit\<close> is the
  highest and \<open>bottom_bit\<close> the lowest position of a set bit, and both are -1 for zero.
\<close>
theorem top_and_bottom_bit:
  "top_bit x = (if x = 0 then -1 else int (Max {k. bit x k})) \<and>
   bottom_bit x = (if x = 0 then -1 else int (Min {k. bit x k}))"
proof (cases "x = 0")
  case False
  have fin: "finite {k. bit x k}"
    by (rule finite_subset [of _ "{..<32}"]) (auto dest: bit_below_32)
  have ne: "{k. bit x k} \<noteq> {}"
    using False by (auto simp: bit_eq_iff)
  have "bit x (Max {k. bit x k})" and "bit x (Min {k. bit x k})"
    using Max_in [OF fin ne] Min_in [OF fin ne] by auto
  then have "top_bit x = int (Max {k. bit x k})" and "bottom_bit x = int (Min {k. bit x k})"
    using fin by (auto intro!: top_bit_highest bottom_bit_lowest)
  with False show ?thesis by simp
qed (simp add: top_bit_def bottom_bit_def)

end
