(* ===== verification/Hdlc_Line.thy ===== *)
theory Hdlc_Line
  imports Prelude
begin

text \<open>
  The line format that the HDLC transmitter and receiver share, written independently of both: the longest
  frame, zero bit insertion, the flag, the number of consecutive ones at the end of the line, and a shift
  register that holds the most recent bits of the line.
\<close>

section \<open>Zero bit insertion and flags\<close>

definition HDLC_MAXFRAME_LEN :: nat where
  "HDLC_MAXFRAME_LEN = 400"

definition hdlc_flag :: bits where
  "hdlc_flag = [False, True, True, True, True, True, True, False]"

text \<open>The first argument is the number of consecutive ones sent just before.\<close>

fun stuff :: "nat \<Rightarrow> bits \<Rightarrow> bits" where
  "stuff r [] = []"
| "stuff r (False # bs) = False # stuff 0 bs"
| "stuff r (True # bs) = (if r = 4 then True # False # stuff 0 bs else True # stuff (Suc r) bs)"

fun run_after :: "nat \<Rightarrow> bits \<Rightarrow> nat" where
  "run_after r [] = r"
| "run_after r (False # bs) = run_after 0 bs"
| "run_after r (True # bs) = run_after (if r = 4 then 0 else Suc r) bs"

definition ones_run :: "bits \<Rightarrow> nat" where
  "ones_run h = length (takeWhile id (rev h))"

lemma stuff_append: "stuff r (xs @ ys) = stuff r xs @ stuff (run_after r xs) ys"
  by (induction r xs rule: stuff.induct) auto

lemma run_after_append: "run_after r (xs @ ys) = run_after (run_after r xs) ys"
  by (induction r xs rule: stuff.induct) auto

lemma run_after_less: "r < 5 \<Longrightarrow> run_after r bs < 5"
  by (induction r bs rule: stuff.induct) auto

lemma ones_run_Nil [simp]: "ones_run [] = 0"
  by (simp add: ones_run_def)

lemma ones_run_snoc [simp]: "ones_run (h @ [b]) = (if b then Suc (ones_run h) else 0)"
  by (simp add: ones_run_def)

lemma ones_run_stuff:
  "ones_run h = r \<Longrightarrow> r < 5 \<Longrightarrow> ones_run (h @ stuff r bs) = run_after r bs"
proof (induction r bs arbitrary: h rule: stuff.induct)
  case (2 r bs)
  then show ?case
    using 2(1) [of "h @ [False]"] by simp
next
  case (3 r bs)
  show ?case
  proof (cases "r = 4")
    case True
    then show ?thesis
      using 3(1) [of "h @ [True, False]"] ones_run_snoc [of "h @ [True]" False] by simp
  next
    case False
    then show ?thesis
      using 3(2) [of "h @ [True]"] 3(3,4) by simp
  qed
qed simp

lemma stuff_length: "length bs \<le> length (stuff r bs)"
  by (induction r bs rule: stuff.induct) auto

lemma stuff_octet_length: "r < 5 \<Longrightarrow> length (stuff r bs) \<le> length bs + (r + length bs) div 5"
proof (induction r bs rule: stuff.induct)
  case (2 r bs)
  then show ?case by (simp add: div_le_mono le_SucI order_trans [OF 2(1)])
qed auto

section \<open>Shift registers\<close>

definition shift_word :: "bits \<Rightarrow> u32" where
  "shift_word h = word_of_bits (rev h)"

lemma shift_word_Nil [simp]: "shift_word [] = 0"
  by (simp add: shift_word_def)

lemma bit_shift_word: "bit (shift_word h) i \<longleftrightarrow> i < 32 \<and> i < length h \<and> rev h ! i"
  by (simp add: shift_word_def bit_list_simps)

lemma shift_word_snoc: "shift_word (h @ [b]) = push_bit 1 (shift_word h) OR of_bool b"
proof (rule bit_word_eqI)
  fix n
  show "bit (shift_word (h @ [b])) n \<longleftrightarrow> bit (push_bit 1 (shift_word h) OR of_bool b) n"
  proof (cases n)
    case 0
    then show ?thesis
      by (simp only: bit_shift_word bit_or_iff bit_push_bit_iff bit_of_bool_iff) simp
  next
    case (Suc m)
    then show ?thesis
      by (simp only: bit_shift_word bit_or_iff bit_push_bit_iff bit_of_bool_iff) auto
  qed
qed

lemma shift_word_zeros: "shift_word (h @ replicate n False) = push_bit n (shift_word h)"
  by (rule bit_word_eqI) (auto simp: bit_shift_word bit_simps nth_append)

lemma ones_run_nth:
  "ones_run h = r \<Longrightarrow> (\<forall>i<r. i < length h \<and> rev h ! i) \<and> (r < length h \<longrightarrow> \<not> rev h ! r)"
proof -
  assume r: "ones_run h = r"
  have "\<forall>i<r. i < length h \<and> rev h ! i"
    using r length_takeWhile_le [of id "rev h"] takeWhile_nth [of _ id "rev h"] nth_length_takeWhile
    unfolding ones_run_def
    by (metis id_apply length_rev nth_mem order_less_le_trans set_takeWhileD)
  moreover have "r < length h \<Longrightarrow> \<not> rev h ! r"
    using r nth_length_takeWhile [of id "rev h"] by (auto simp: ones_run_def)
  ultimately show ?thesis by blast
qed

lemma shift_word_run:
  assumes "ones_run h = r" and "i \<le> r" and "i < 32"
  shows "bit (shift_word h) i \<longleftrightarrow> i < r"
  using assms ones_run_nth [OF assms(1)] by (auto simp: bit_shift_word le_less)

text \<open>A line of flags only.\<close>

definition flags_line :: "nat \<Rightarrow> bits" where
  "flags_line k = concat (replicate k hdlc_flag)"

lemma flags_line_simps [simp]: "flags_line 0 = []" "flags_line (Suc k) = hdlc_flag @ flags_line k"
  by (simp_all add: flags_line_def)

lemma flags_line_Suc_end: "flags_line (Suc k) = flags_line k @ hdlc_flag"
  by (induction k) simp_all

lemma flags_line_add: "flags_line (a + b) = flags_line a @ flags_line b"
  by (simp add: flags_line_def replicate_add)

end
