(* ===== verification/Sig_Status.thy ===== *)
theory Sig_Status
  imports Prelude
begin

text \<open>
  The special values of the signal status enumeration in \<^verbatim>\<open>spandsp/async.h\<close>. A bit or octet
  interface reports a special condition by a negative number in place of data.
\<close>

definition SIG_STATUS_CARRIER_DOWN :: int where "SIG_STATUS_CARRIER_DOWN = -1"
definition SIG_STATUS_CARRIER_UP :: int where "SIG_STATUS_CARRIER_UP = -2"
definition SIG_STATUS_TRAINING_IN_PROGRESS :: int where "SIG_STATUS_TRAINING_IN_PROGRESS = -3"
definition SIG_STATUS_TRAINING_SUCCEEDED :: int where "SIG_STATUS_TRAINING_SUCCEEDED = -4"
definition SIG_STATUS_TRAINING_FAILED :: int where "SIG_STATUS_TRAINING_FAILED = -5"
definition SIG_STATUS_FRAMING_OK :: int where "SIG_STATUS_FRAMING_OK = -6"
definition SIG_STATUS_END_OF_DATA :: int where "SIG_STATUS_END_OF_DATA = -7"
definition SIG_STATUS_ABORT :: int where "SIG_STATUS_ABORT = -8"
definition SIG_STATUS_OCTET_REPORT :: int where "SIG_STATUS_OCTET_REPORT = -11"

lemmas sig_status_defs =
  SIG_STATUS_CARRIER_DOWN_def SIG_STATUS_CARRIER_UP_def SIG_STATUS_TRAINING_IN_PROGRESS_def
  SIG_STATUS_TRAINING_SUCCEEDED_def SIG_STATUS_TRAINING_FAILED_def SIG_STATUS_FRAMING_OK_def
  SIG_STATUS_END_OF_DATA_def SIG_STATUS_ABORT_def SIG_STATUS_OCTET_REPORT_def

end
