(* ===== verification/Hdlc_Tx.thy ===== *)
theory Hdlc_Tx
  imports Crc Bit_Ops Hdlc_Line Sig_Status "HOL-Library.Monad_Syntax"
begin

text \<open>
  The HDLC transmitter of \<^verbatim>\<open>spandsp-0.0.6/src/hdlc.c\<close>: framing, CRC, zero bit insertion, flags and
  idling. The underflow handler is a parameter of the operations that call it; it may change the
  transmitter (it usually loads the next frame). The data behind its \<^verbatim>\<open>user_data\<close> pointer are the
  fields by which a client extends the record. An operation returns \<open>None\<close> where the C code would
  access the frame buffer outside its 404 octets.
\<close>

section \<open>State\<close>

record hdlc_tx_state =
  ht_crc_bytes :: nat
  ht_inter_frame_flags :: int
  ht_progressive :: bool
  ht_max_frame_len :: nat
  ht_octets_in_progress :: u32
  ht_num_bits :: nat
  ht_idle_octet :: u32
  ht_flag_octets :: int
  ht_abort_octets :: int
  ht_report_flag_underflow :: bool
  ht_buffer :: octets
  ht_len :: nat
  ht_pos :: nat
  ht_crc :: u32
  ht_byte :: int
  ht_bits :: nat
  ht_tx_end :: bool

type_synonym 'u underflow_handler = "('u hdlc_tx_state_scheme \<Rightarrow> 'u hdlc_tx_state_scheme option) option"

section \<open>Operations\<close>

definition hdlc_tx_frame :: "'u hdlc_tx_state_scheme \<Rightarrow> octets \<Rightarrow> (int \<times> 'u hdlc_tx_state_scheme) option" where
  "hdlc_tx_frame s frame =
     (if length frame = 0 then Some (0, s\<lparr>ht_tx_end := True\<rparr>)
      else if ht_len s + length frame > ht_max_frame_len s then Some (-1, s)
      else if (if ht_progressive s then ht_pos s \<ge> HDLC_MAXFRAME_LEN else ht_len s \<noteq> 0) then Some (-1, s)
      else do {
        buf \<leftarrow> mem_write (ht_buffer s) (int (ht_len s)) frame;
        Some (0, s\<lparr>ht_buffer := buf,
          ht_crc := (if ht_crc_bytes s = 2 then ucast (crc_itu16_calc frame (ucast (ht_crc s)))
                     else crc_itu32_calc frame (ht_crc s)),
          ht_len := (if ht_progressive s then ht_len s + length frame else length frame),
          ht_tx_end := False\<rparr>)
      })"

definition hdlc_tx_flags :: "'u hdlc_tx_state_scheme \<Rightarrow> int \<Rightarrow> int \<times> 'u hdlc_tx_state_scheme" where
  "hdlc_tx_flags s len =
     (if ht_pos s \<noteq> 0 then (-1, s)
      else (0, s\<lparr>ht_flag_octets := (if len < 0 then ht_flag_octets s + - len else len),
        ht_report_flag_underflow := True, ht_tx_end := False\<rparr>))"

definition hdlc_tx_abort :: "'u hdlc_tx_state_scheme \<Rightarrow> int \<times> 'u hdlc_tx_state_scheme" where
  "hdlc_tx_abort s =
     (-1, s\<lparr>ht_flag_octets := ht_flag_octets s + 1, ht_abort_octets := ht_abort_octets s + 1\<rparr>)"

definition hdlc_tx_corrupt_frame :: "'u hdlc_tx_state_scheme \<Rightarrow> (int \<times> 'u hdlc_tx_state_scheme) option" where
  "hdlc_tx_corrupt_frame s =
     (if ht_len s = 0 then Some (-1, s)
      else do {
        old \<leftarrow> mem_read (ht_buffer s) (int HDLC_MAXFRAME_LEN) 4;
        buf \<leftarrow> mem_write (ht_buffer s) (int HDLC_MAXFRAME_LEN) (map (\<lambda>b. b XOR 0xFF) old);
        Some (0, s\<lparr>ht_crc := ht_crc s XOR 0xFFFF, ht_buffer := buf\<rparr>)
      })"

definition tx_call_underflow :: "'u underflow_handler \<Rightarrow> 'u hdlc_tx_state_scheme \<Rightarrow> 'u hdlc_tx_state_scheme option" where
  "tx_call_underflow handler s = (case handler of None \<Rightarrow> Some s | Some f \<Rightarrow> f s)"

definition tx_timed_flags :: "'u underflow_handler \<Rightarrow> 'u hdlc_tx_state_scheme \<Rightarrow> (int \<times> 'u hdlc_tx_state_scheme) option" where
  "tx_timed_flags handler s = do {
     s \<leftarrow> (let s = s\<lparr>ht_flag_octets := ht_flag_octets s - 1\<rparr>
       in if ht_flag_octets s \<le> 0 \<and> ht_report_flag_underflow s
          then let s = s\<lparr>ht_report_flag_underflow := False\<rparr>
               in if ht_len s = 0 then tx_call_underflow handler s else Some s
          else Some s);
     if ht_abort_octets s \<noteq> 0 then Some (0x7F, s\<lparr>ht_abort_octets := 0\<rparr>)
     else Some (uint (ht_idle_octet s), s)
   }"

definition tx_load_crc :: "'u hdlc_tx_state_scheme \<Rightarrow> 'u hdlc_tx_state_scheme option" where
  "tx_load_crc s = do {
     let crc = ht_crc s XOR 0xFFFFFFFF;
     buf \<leftarrow> mem_write (ht_buffer s) (int HDLC_MAXFRAME_LEN) [ucast crc, ucast (drop_bit 8 crc)];
     buf \<leftarrow> (if ht_crc_bytes s = 4
       then mem_write buf (int HDLC_MAXFRAME_LEN + 2) [ucast (drop_bit 16 crc), ucast (drop_bit 24 crc)]
       else Some buf);
     Some (s\<lparr>ht_crc := crc, ht_buffer := buf, ht_pos := HDLC_MAXFRAME_LEN\<rparr>)
   }"

definition tx_close_frame :: "'u underflow_handler \<Rightarrow> 'u hdlc_tx_state_scheme \<Rightarrow> (int \<times> 'u hdlc_tx_state_scheme) option" where
  "tx_close_frame handler s = do {
     let txbyte = (ucast (push_bit (8 - ht_num_bits s) (ht_octets_in_progress s) OR drop_bit (ht_num_bits s) 0x7E) :: u8);
     let idle = (drop_bit (ht_num_bits s) 0x7E7E AND 0xFF :: u32);
     s \<leftarrow> tx_call_underflow handler
       (s\<lparr>ht_idle_octet := idle,
          ht_octets_in_progress := drop_bit (8 - ht_num_bits s) idle,
          ht_flag_octets := ht_inter_frame_flags s - 1,
          ht_len := 0,
          ht_pos := 0,
          ht_crc := (if ht_crc_bytes s = 2 then 0xFFFF else 0xFFFFFFFF),
          ht_report_flag_underflow := False\<rparr>);
     Some (uint txbyte, if ht_len s = 0 \<and> ht_flag_octets s < 2 then s\<lparr>ht_flag_octets := 2\<rparr> else s)
   }"

text \<open>The bit stuffing loop: the number of bits left, the octet, the shift register, the bit count.\<close>

fun tx_stuff_loop :: "nat \<Rightarrow> u32 \<Rightarrow> u32 \<Rightarrow> nat \<Rightarrow> u32 \<times> nat" where
  "tx_stuff_loop 0 b reg n = (reg, n)"
| "tx_stuff_loop (Suc k) b reg n =
     (let reg = push_bit 1 reg OR (b AND 0x01)
      in if reg AND 0x1F = 0x1F then tx_stuff_loop k (drop_bit 1 b) (push_bit 1 reg) (n + 1)
         else tx_stuff_loop k (drop_bit 1 b) reg n)"

definition tx_send_octet :: "'u hdlc_tx_state_scheme \<Rightarrow> (int \<times> 'u hdlc_tx_state_scheme) option" where
  "tx_send_octet s = do {
     octet \<leftarrow> mem_read (ht_buffer s) (int (ht_pos s)) 1;
     let b = (ucast (hd octet) :: u32);
     let i = nat (bottom_bit (b OR 0x100));
     let (reg, n) = tx_stuff_loop (8 - i) (drop_bit i b) (push_bit i (ht_octets_in_progress s)) (ht_num_bits s);
     Some (uint (drop_bit n reg AND 0xFF),
       s\<lparr>ht_pos := ht_pos s + 1, ht_octets_in_progress := reg, ht_num_bits := n\<rparr>)
   }"

definition hdlc_tx_get_byte :: "'u underflow_handler \<Rightarrow> 'u hdlc_tx_state_scheme \<Rightarrow> (int \<times> 'u hdlc_tx_state_scheme) option" where
  "hdlc_tx_get_byte handler s =
     (if ht_flag_octets s > 0 then tx_timed_flags handler s
      else if ht_len s \<noteq> 0
      then if ht_num_bits s \<ge> 8
           then let s = s\<lparr>ht_num_bits := ht_num_bits s - 8\<rparr>
                in Some (uint (drop_bit (ht_num_bits s) (ht_octets_in_progress s) AND 0xFF), s)
           else if ht_pos s \<ge> ht_len s \<and> ht_pos s = ht_len s
           then do { s \<leftarrow> tx_load_crc s; tx_send_octet s }
           else if ht_pos s \<ge> ht_len s \<and> ht_pos s = HDLC_MAXFRAME_LEN + ht_crc_bytes s
           then tx_close_frame handler s
           else tx_send_octet s
      else if ht_tx_end s then Some (SIG_STATUS_END_OF_DATA, s\<lparr>ht_tx_end := False\<rparr>)
      else Some (uint (ht_idle_octet s), s))"

definition hdlc_tx_get_bit :: "'u underflow_handler \<Rightarrow> 'u hdlc_tx_state_scheme \<Rightarrow> (int \<times> 'u hdlc_tx_state_scheme) option" where
  "hdlc_tx_get_bit handler s =
     (if ht_bits s = 0
      then do {
        (b, s) \<leftarrow> hdlc_tx_get_byte handler s;
        let s = s\<lparr>ht_byte := b\<rparr>;
        if b < 0 then Some (b, s)
        else Some (of_bool (bit b 7), s\<lparr>ht_bits := 7\<rparr>)
      }
      else Some (of_bool (bit (ht_byte s) (ht_bits s - 1)), s\<lparr>ht_bits := ht_bits s - 1\<rparr>))"

text \<open>The result of \<^verbatim>\<open>hdlc_tx_get\<close> is the octets it stores; their number is its return value.\<close>

fun hdlc_tx_get :: "'u underflow_handler \<Rightarrow> 'u hdlc_tx_state_scheme \<Rightarrow> nat \<Rightarrow> (octets \<times> 'u hdlc_tx_state_scheme) option" where
  "hdlc_tx_get handler s 0 = Some ([], s)"
| "hdlc_tx_get handler s (Suc n) = do {
     (x, s) \<leftarrow> hdlc_tx_get_byte handler s;
     if x = SIG_STATUS_END_OF_DATA then Some ([], s)
     else do {
       (buf, s) \<leftarrow> hdlc_tx_get handler s n;
       Some (of_int x # buf, s)
     }
   }"

definition hdlc_tx_set_max_frame_len :: "'u hdlc_tx_state_scheme \<Rightarrow> nat \<Rightarrow> 'u hdlc_tx_state_scheme" where
  "hdlc_tx_set_max_frame_len s max_len =
     s\<lparr>ht_max_frame_len := (if max_len \<le> HDLC_MAXFRAME_LEN then max_len else HDLC_MAXFRAME_LEN)\<rparr>"

definition hdlc_tx_init :: "bool \<Rightarrow> int \<Rightarrow> bool \<Rightarrow> hdlc_tx_state" where
  "hdlc_tx_init crc32 inter_frame_flags progressive =
     \<lparr>ht_crc_bytes = (if crc32 then 4 else 2),
      ht_inter_frame_flags = (if inter_frame_flags < 1 then 1 else inter_frame_flags),
      ht_progressive = progressive,
      ht_max_frame_len = HDLC_MAXFRAME_LEN,
      ht_octets_in_progress = 0,
      ht_num_bits = 0,
      ht_idle_octet = 0x7E,
      ht_flag_octets = 0,
      ht_abort_octets = 0,
      ht_report_flag_underflow = False,
      ht_buffer = replicate (HDLC_MAXFRAME_LEN + 4) 0,
      ht_len = 0,
      ht_pos = 0,
      ht_crc = (if crc32 then 0xFFFFFFFF else 0xFFFF),
      ht_byte = 0,
      ht_bits = 0,
      ht_tx_end = False\<rparr>"

section \<open>Memory safety\<close>

definition tx_ok :: "'u hdlc_tx_state_scheme \<Rightarrow> bool" where
  "tx_ok s \<longleftrightarrow> length (ht_buffer s) = HDLC_MAXFRAME_LEN + 4 \<and> ht_len s \<le> HDLC_MAXFRAME_LEN \<and>
     ht_max_frame_len s \<le> HDLC_MAXFRAME_LEN \<and> ht_crc_bytes s \<in> {2, 4} \<and> (ht_len s = 0 \<longrightarrow> ht_pos s = 0) \<and>
     (ht_pos s \<le> ht_len s \<or> HDLC_MAXFRAME_LEN < ht_pos s \<and> ht_pos s \<le> HDLC_MAXFRAME_LEN + ht_crc_bytes s) \<and>
     uint (ht_idle_octet s) < 256"

text \<open>A handler that keeps the transmitter in order, and what the operations return then.\<close>

definition tx_handler_ok :: "'u underflow_handler \<Rightarrow> bool" where
  "tx_handler_ok uf \<longleftrightarrow> (\<forall>s. tx_ok s \<longrightarrow> (\<exists>u. tx_call_underflow uf s = Some u \<and> tx_ok u))"

definition tx_result :: "(int \<times> 'u hdlc_tx_state_scheme) option \<Rightarrow> bool" where
  "tx_result res \<longleftrightarrow> (\<exists>x s'. res = Some (x, s') \<and> tx_ok s' \<and> (x = SIG_STATUS_END_OF_DATA \<or> 0 \<le> x \<and> x < 256))"

lemma tx_handler_okD:
  assumes "tx_handler_ok uf" and "tx_ok s"
  obtains u where "tx_call_underflow uf s = Some u" and "tx_ok u"
  using assms unfolding tx_handler_ok_def by blast

lemma tx_resultI: "res = Some (x, s') \<Longrightarrow> tx_ok s' \<Longrightarrow> 0 \<le> x \<Longrightarrow> x < 256 \<Longrightarrow> tx_result res"
  by (auto simp: tx_result_def)

lemma tx_ok_irrelevant [simp]:
  "tx_ok (s\<lparr>ht_flag_octets := n\<rparr>) = tx_ok s" "tx_ok (s\<lparr>ht_report_flag_underflow := b\<rparr>) = tx_ok s"
  "tx_ok (s\<lparr>ht_abort_octets := n\<rparr>) = tx_ok s" "tx_ok (s\<lparr>ht_tx_end := b\<rparr>) = tx_ok s"
  "tx_ok (s\<lparr>ht_num_bits := m\<rparr>) = tx_ok s" "tx_ok (s\<lparr>ht_octets_in_progress := w\<rparr>) = tx_ok s"
  "tx_ok (s\<lparr>ht_byte := n\<rparr>) = tx_ok s" "tx_ok (s\<lparr>ht_bits := m\<rparr>) = tx_ok s"
  by (simp_all add: tx_ok_def)

lemma uint_octet_mask: "uint (w AND 0xFF :: u32) < 256"
proof -
  have "w AND 0xFF = take_bit 8 w"
    by (simp add: take_bit_eq_mask mask_numeral)
  then have "uint (w AND 0xFF) = take_bit 8 (uint w)"
    by (simp only: unsigned_take_bit_eq)
  then show ?thesis
    using take_bit_int_less_exp [of 8 "uint w"] by simp
qed

lemma tx_ok_timed_flags:
  assumes uf: "tx_handler_ok uf" and s: "tx_ok s"
  shows "tx_result (tx_timed_flags uf s)"
proof -
  have out: "tx_result (if ht_abort_octets u \<noteq> 0 then Some (0x7F, u\<lparr>ht_abort_octets := 0\<rparr>) else Some (uint (ht_idle_octet u), u))"
    if "tx_ok u" for u :: "'a hdlc_tx_state_scheme"
    using that by (auto simp: tx_result_def tx_ok_def)
  let ?c = "s\<lparr>ht_flag_octets := ht_flag_octets s - 1, ht_report_flag_underflow := False\<rparr>"
  have "tx_ok ?c"
    using s by simp
  then obtain u where u: "tx_call_underflow uf ?c = Some u" "tx_ok u"
    using tx_handler_okD [OF uf] by blast
  show ?thesis
    using out [OF u(2)] out [of ?c] out [of "s\<lparr>ht_flag_octets := ht_flag_octets s - 1\<rparr>"] s u(1)
    by (simp add: tx_timed_flags_def Let_def)
qed

lemma tx_ok_send_octet:
  assumes s: "length (ht_buffer s) = HDLC_MAXFRAME_LEN + 4" "ht_len s \<le> HDLC_MAXFRAME_LEN" "ht_len s \<noteq> 0"
      "ht_max_frame_len s \<le> HDLC_MAXFRAME_LEN" "ht_crc_bytes s \<in> {2, 4}" "uint (ht_idle_octet s) < 256"
    and pos: "ht_pos s < ht_len s \<or> HDLC_MAXFRAME_LEN \<le> ht_pos s \<and> ht_pos s < HDLC_MAXFRAME_LEN + ht_crc_bytes s"
  shows "tx_result (tx_send_octet s)"
proof -
  have "ht_pos s < length (ht_buffer s)"
    using s pos by auto
  then obtain b where rd: "mem_read (ht_buffer s) (int (ht_pos s)) 1 = Some [b]"
    by (simp add: hd_drop_conv_nth take_Suc)
  obtain reg n where loop: "tx_stuff_loop (8 - nat (bottom_bit (ucast b OR 0x100))) (drop_bit (nat (bottom_bit (ucast b OR 0x100))) (ucast b))
      (push_bit (nat (bottom_bit (ucast b OR 0x100))) (ht_octets_in_progress s)) (ht_num_bits s) = (reg, n)"
    by fastforce
  have "tx_send_octet s = Some (uint (drop_bit n reg AND 0xFF),
      s\<lparr>ht_pos := ht_pos s + 1, ht_octets_in_progress := reg, ht_num_bits := n\<rparr>)"
    unfolding tx_send_octet_def rd using loop by (simp add: Let_def)
  then show ?thesis
    by (rule tx_resultI) (use s pos uint_octet_mask in \<open>auto simp: tx_ok_def\<close>)
qed

lemma tx_ok_load_crc:
  assumes "tx_ok s"
  shows "\<exists>c buf. tx_load_crc s = Some (s\<lparr>ht_crc := c, ht_buffer := buf, ht_pos := HDLC_MAXFRAME_LEN\<rparr>) \<and>
    length buf = HDLC_MAXFRAME_LEN + 4"
proof -
  have len: "length (ht_buffer s) = HDLC_MAXFRAME_LEN + 4"
    using assms by (simp add: tx_ok_def)
  have w: "\<exists>buf. mem_write m (int HDLC_MAXFRAME_LEN + j) [a, b] = Some buf \<and> length buf = HDLC_MAXFRAME_LEN + 4"
    if "length m = HDLC_MAXFRAME_LEN + 4" "j = 0 \<or> j = 2" for m :: octets and a b j
    using that by (auto simp: mem_write_def)
  define crc where "crc = ht_crc s XOR 0xFFFFFFFF"
  obtain b1 where b1: "mem_write (ht_buffer s) (int HDLC_MAXFRAME_LEN) [ucast crc, ucast (drop_bit 8 crc)] = Some b1"
    "length b1 = HDLC_MAXFRAME_LEN + 4"
    using w [OF len, of 0] by auto
  obtain b2 where "mem_write b1 (int HDLC_MAXFRAME_LEN + 2) [ucast (drop_bit 16 crc), ucast (drop_bit 24 crc)] = Some b2"
    "length b2 = HDLC_MAXFRAME_LEN + 4"
    using w [OF b1(2), of 2] by auto
  with b1 show ?thesis
    by (intro exI [of _ crc] exI [of _ "if ht_crc_bytes s = 4 then b2 else b1"])
      (simp add: tx_load_crc_def Let_def crc_def [symmetric] del: mem_write_Some)
qed

lemma tx_ok_close_frame:
  assumes uf: "tx_handler_ok uf" and s: "tx_ok s"
  shows "tx_result (tx_close_frame uf s)"
proof -
  define x :: u8 where "x = ucast (push_bit (8 - ht_num_bits s) (ht_octets_in_progress s) OR drop_bit (ht_num_bits s) 0x7E)"
  define v :: u32 where "v = drop_bit (ht_num_bits s) 0x7E7E AND 0xFF"
  let ?c = "s\<lparr>ht_idle_octet := v, ht_octets_in_progress := drop_bit (8 - ht_num_bits s) v,
      ht_flag_octets := ht_inter_frame_flags s - 1, ht_len := 0, ht_pos := 0,
      ht_crc := (if ht_crc_bytes s = 2 then 0xFFFF else 0xFFFFFFFF), ht_report_flag_underflow := False\<rparr>"
  have "tx_ok ?c"
    using s uint_octet_mask by (auto simp: tx_ok_def v_def)
  then obtain u where u: "tx_call_underflow uf ?c = Some u" "tx_ok u"
    using tx_handler_okD [OF uf] by blast
  have "tx_close_frame uf s = Some (uint x, if ht_len u = 0 \<and> ht_flag_octets u < 2 then u\<lparr>ht_flag_octets := 2\<rparr> else u)"
    unfolding tx_close_frame_def Let_def x_def [symmetric] v_def [symmetric] u(1) by simp
  moreover have "uint x < 256"
    using unsigned_less [of x, where 'a = int] by simp
  ultimately show ?thesis
    using u(2) by (auto intro: tx_resultI)
qed

lemma tx_ok_get_byte:
  assumes uf: "tx_handler_ok uf" and s: "tx_ok s"
  shows "tx_result (hdlc_tx_get_byte uf s)"
proof -
  have idle: "tx_result (Some (uint (ht_idle_octet s), s))" "tx_result (Some (SIG_STATUS_END_OF_DATA, s\<lparr>ht_tx_end := False\<rparr>))"
    using s by (auto simp: tx_result_def tx_ok_def)
  have drain: "tx_result (Some (uint (drop_bit n (ht_octets_in_progress s) AND 0xFF), s\<lparr>ht_num_bits := n\<rparr>))" for n
    using s uint_octet_mask by (auto intro: tx_resultI)
  have crc: "tx_result (do { s \<leftarrow> tx_load_crc s; tx_send_octet s })" if "ht_len s \<noteq> 0"
  proof -
    obtain c buf where "tx_load_crc s = Some (s\<lparr>ht_crc := c, ht_buffer := buf, ht_pos := HDLC_MAXFRAME_LEN\<rparr>)"
      "length buf = HDLC_MAXFRAME_LEN + 4"
      using tx_ok_load_crc [OF s] by blast
    then show ?thesis
      using s that by (auto simp: tx_ok_def intro!: tx_ok_send_octet)
  qed
  have data: "tx_result (tx_send_octet s)" if "ht_len s \<noteq> 0" "ht_pos s \<noteq> ht_len s"
    "\<not> (ht_len s \<le> ht_pos s \<and> ht_pos s = HDLC_MAXFRAME_LEN + ht_crc_bytes s)"
    by (rule tx_ok_send_octet) (use s that in \<open>auto simp: tx_ok_def\<close>)
  show ?thesis
    unfolding hdlc_tx_get_byte_def Let_def
    using tx_ok_timed_flags [OF uf s] tx_ok_close_frame [OF uf s] idle drain crc data by auto
qed

lemma tx_ok_get_bit:
  assumes uf: "tx_handler_ok uf" and s: "tx_ok s"
  shows "\<exists>x s'. hdlc_tx_get_bit uf s = Some (x, s') \<and> tx_ok s' \<and> x \<in> {0, 1, SIG_STATUS_END_OF_DATA}"
proof -
  obtain x s' where x: "hdlc_tx_get_byte uf s = Some (x, s')" "tx_ok s'" "x = SIG_STATUS_END_OF_DATA \<or> 0 \<le> x"
    using tx_ok_get_byte [OF assms] by (auto simp: tx_result_def)
  then show ?thesis
    using s by (cases "x = SIG_STATUS_END_OF_DATA") (auto simp: hdlc_tx_get_bit_def Let_def)
qed

lemma tx_ok_frame: "tx_ok s \<Longrightarrow> \<exists>x s'. hdlc_tx_frame s msg = Some (x, s') \<and> tx_ok s'"
proof -
  assume s: "tx_ok s"
  show ?thesis
  proof (cases "msg = [] \<or> ht_len s + length msg > ht_max_frame_len s \<or>
      (if ht_progressive s then HDLC_MAXFRAME_LEN \<le> ht_pos s else ht_len s \<noteq> 0)")
    case True
    then show ?thesis
      using s by (auto simp: hdlc_tx_frame_def)
  next
    case False
    have l: "length (ht_buffer s) = HDLC_MAXFRAME_LEN + 4" "ht_max_frame_len s \<le> HDLC_MAXFRAME_LEN"
      using s by (simp_all add: tx_ok_def)
    have "ht_len s + length msg \<le> HDLC_MAXFRAME_LEN + 4"
      using False l by auto
    then obtain buf where buf: "mem_write (ht_buffer s) (int (ht_len s)) msg = Some buf" "length buf = HDLC_MAXFRAME_LEN + 4"
      using l by (auto simp: mem_write_def)
    with False s show ?thesis
      by (auto simp: hdlc_tx_frame_def tx_ok_def simp del: mem_write_Some)
  qed
qed

lemma tx_ok_flags: "tx_ok s \<Longrightarrow> tx_ok (snd (hdlc_tx_flags s n))"
  by (simp add: hdlc_tx_flags_def)

lemma tx_ok_abort: "tx_ok s \<Longrightarrow> tx_ok (snd (hdlc_tx_abort s))"
  by (simp add: hdlc_tx_abort_def)

lemma tx_ok_corrupt: "tx_ok s \<Longrightarrow> \<exists>x s'. hdlc_tx_corrupt_frame s = Some (x, s') \<and> tx_ok s'"
  by (auto simp: hdlc_tx_corrupt_frame_def tx_ok_def mem_write_def mem_read_def)

lemma tx_ok_set_max: "tx_ok s \<Longrightarrow> tx_ok (hdlc_tx_set_max_frame_len s n)"
  by (auto simp: hdlc_tx_set_max_frame_len_def tx_ok_def)

lemma tx_ok_init: "tx_ok (hdlc_tx_init crc32 flags progressive)"
  by (simp add: tx_ok_def hdlc_tx_init_def)

section \<open>Sequences of calls\<close>

datatype hdlc_tx_call =
    Tx_frame octets
  | Tx_flags int
  | Tx_abort
  | Tx_corrupt_frame
  | Tx_get_byte
  | Tx_get_bit
  | Tx_set_max_frame_len nat

fun tx_call :: "'u underflow_handler \<Rightarrow> hdlc_tx_call \<Rightarrow> 'u hdlc_tx_state_scheme \<Rightarrow>
    (int \<times> 'u hdlc_tx_state_scheme) option" where
  "tx_call uf (Tx_frame msg) s = hdlc_tx_frame s msg"
| "tx_call uf (Tx_flags n) s = Some (hdlc_tx_flags s n)"
| "tx_call uf Tx_abort s = Some (hdlc_tx_abort s)"
| "tx_call uf Tx_corrupt_frame s = hdlc_tx_corrupt_frame s"
| "tx_call uf Tx_get_byte s = hdlc_tx_get_byte uf s"
| "tx_call uf Tx_get_bit s = hdlc_tx_get_bit uf s"
| "tx_call uf (Tx_set_max_frame_len n) s = Some (0, hdlc_tx_set_max_frame_len s n)"

fun tx_calls :: "'u underflow_handler \<Rightarrow> hdlc_tx_call list \<Rightarrow> 'u hdlc_tx_state_scheme \<Rightarrow>
    (int list \<times> 'u hdlc_tx_state_scheme) option" where
  "tx_calls uf [] s = Some ([], s)"
| "tx_calls uf (c # cs) s = do {
     (x, s) \<leftarrow> tx_call uf c s;
     (xs, s) \<leftarrow> tx_calls uf cs s;
     Some (x # xs, s)
   }"

lemma tx_ok_call:
  assumes "tx_handler_ok uf" and "tx_ok s"
  shows "\<exists>x s'. tx_call uf c s = Some (x, s') \<and> tx_ok s'"
proof (cases c)
  case Tx_get_byte
  then show ?thesis using tx_ok_get_byte [OF assms] by (auto simp: tx_result_def)
next
  case Tx_get_bit
  then show ?thesis using tx_ok_get_bit [OF assms] by auto
next
  case (Tx_flags n)
  then show ?thesis using tx_ok_flags [OF assms(2), of n] by (cases "hdlc_tx_flags s n") simp
next
  case Tx_abort
  then show ?thesis using tx_ok_abort [OF assms(2)] by (cases "hdlc_tx_abort s") simp
qed (use tx_ok_frame tx_ok_corrupt tx_ok_set_max assms(2) in auto)

lemma tx_ok_calls:
  assumes uf: "tx_handler_ok uf" and s: "tx_ok s"
  shows "\<exists>xs s'. tx_calls uf cs s = Some (xs, s') \<and> tx_ok s'"
  using s
proof (induction cs arbitrary: s)
  case (Cons c cs)
  obtain x t where t: "tx_call uf c s = Some (x, t)" "tx_ok t"
    using tx_ok_call [OF uf Cons.prems] by blast
  from Cons.IH [OF t(2)] t(1) show ?case by auto
qed simp

section \<open>Properties\<close>

text \<open>
  Claim C13. The HDLC transmitter stays inside its frame buffer. From a fresh transmitter, with any
  underflow handler that leaves a transmitter in order as it finds it, every sequence of calls of its
  operations, in any order and with any arguments, runs without an access outside the 404 octets.
\<close>
theorem hdlc_tx_memory_safe:
  assumes "tx_handler_ok uf"
  shows "\<exists>xs s'. tx_calls uf cs (hdlc_tx_init crc32 flags progressive) = Some (xs, s') \<and> tx_ok s'"
  using assms tx_ok_init by (rule tx_ok_calls)

theorem hdlc_tx_memory_safe_witness:
  "\<exists>xs s'. tx_calls None [Tx_flags 2, Tx_frame [3, 65], Tx_get_byte, Tx_corrupt_frame, Tx_get_bit, Tx_abort,
     Tx_get_byte] (hdlc_tx_init False 1 True) = Some (xs, s') \<and> tx_ok s'"
  by (rule hdlc_tx_memory_safe) (simp add: tx_handler_ok_def tx_call_underflow_def)

end
