(* ===== verification/Hdlc_Framing.thy ===== *)
theory Hdlc_Framing
  imports Hdlc_Tx
begin

text \<open>
  What the HDLC transmitter puts on the line. The bits that its octets carry, followed by the bits
  still pending in its shift register, are the specified line: the destination of the bit stuffing
  loop is \<open>stuff\<close>, and a loaded frame leaves as its stuffed octets with the CRC and a closing flag.
\<close>

section \<open>The bit stuffing loop\<close>

lemma mask_five_ones: "(w AND 0x1F = 0x1F) \<longleftrightarrow> (\<forall>i<5. bit (w :: u32) i)"
proof -
  have m: "(0x1F :: u32) = mask 5"
    by (simp add: mask_numeral)
  have "w AND mask 5 = mask 5 \<longleftrightarrow> (\<forall>i<5. bit w i)"
    by (auto simp: bit_eq_iff bit_and_iff bit_mask_iff) (meson less_trans numeral_less_iff semiring_norm(76,78,79,81))
  then show ?thesis
    by (simp only: m)
qed

lemma five_ones_run:
  assumes "ones_run h \<le> 5"
  shows "(shift_word h AND 0x1F = 0x1F) \<longleftrightarrow> ones_run h = 5"
proof
  assume "ones_run h = 5"
  then show "shift_word h AND 0x1F = 0x1F"
    using shift_word_run [of h 5] by (simp add: mask_five_ones)
next
  assume "shift_word h AND 0x1F = 0x1F"
  then have "bit (shift_word h) (ones_run h)" if "ones_run h < 5"
    using that by (simp add: mask_five_ones)
  then show "ones_run h = 5"
    using shift_word_run [of h "ones_run h" "ones_run h"] assms by fastforce
qed

lemma bits_from_low:
  "map (bit b) [0..<Suc k] = bit b 0 # map (bit (drop_bit 1 (b :: u32))) [0..<k]"
  by (simp add: upt_rec [of 0] bit_drop_bit_eq map_Suc_upt [symmetric] comp_def del: upt_Suc)

lemma stuff_count: "length (stuff r bs) = length bs + (length (stuff r bs) - length bs)"
  using stuff_length [of bs r] by simp

lemma tx_stuff_loop_stuff:
  assumes "ones_run h = r" and "r < 5"
  shows "tx_stuff_loop k b (shift_word h) n =
    (shift_word (h @ stuff r (map (bit b) [0..<k])), n + (length (stuff r (map (bit b) [0..<k])) - k))"
  using assms
proof (induction k arbitrary: b h r n)
  case (Suc k)
  let ?b0 = "bit b 0" and ?rest = "map (bit (drop_bit 1 b)) [0..<k]"
  have reg: "push_bit 1 (shift_word h) OR (b AND 0x01) = shift_word (h @ [?b0])"
    by (simp only: shift_word_snoc) (simp add: and_one_eq bit_0 mod2_eq_if of_bool_def)
  have run: "ones_run (h @ [?b0]) \<le> 5"
    using Suc.prems by simp
  have len: "k \<le> length (stuff r' ?rest)" for r'
    using stuff_length [of ?rest r'] by simp
  show ?case
  proof (cases "?b0 \<and> r = 4")
    case True
    have reg2: "push_bit 1 (shift_word (h @ [True])) = shift_word (h @ [True, False])"
      using shift_word_snoc [of "h @ [True]" False] by simp
    have "tx_stuff_loop (Suc k) b (shift_word h) n =
        tx_stuff_loop k (drop_bit 1 b) (shift_word (h @ [True, False])) (n + 1)"
      using True five_ones_run [OF run] Suc.prems reg2
      by (simp only: tx_stuff_loop.simps reg Let_def) simp
    also have "\<dots> = (shift_word ((h @ [True, False]) @ stuff 0 ?rest), n + 1 + (length (stuff 0 ?rest) - k))"
      by (rule Suc.IH) (use ones_run_snoc [of "h @ [True]" False] in simp_all)
    finally show ?thesis
      using True len [of 0] by (simp only: bits_from_low) simp
  next
    case False
    then have "ones_run (h @ [?b0]) \<noteq> 5"
      using Suc.prems by simp
    then have "tx_stuff_loop (Suc k) b (shift_word h) n = tx_stuff_loop k (drop_bit 1 b) (shift_word (h @ [?b0])) n"
      using five_ones_run [OF run] by (simp only: tx_stuff_loop.simps reg Let_def) simp
    also have "\<dots> = (shift_word ((h @ [?b0]) @ stuff (if ?b0 then Suc r else 0) ?rest),
        n + (length (stuff (if ?b0 then Suc r else 0) ?rest) - k))"
      by (rule Suc.IH) (use False Suc.prems in auto)
    finally show ?thesis
      using False by (simp only: bits_from_low) (cases ?b0, auto)
  qed
qed simp

lemma ones_run_zeros: "ones_run (h @ replicate i False) = (if i = 0 then ones_run h else 0)"
  by (cases i) (simp_all add: replicate_append_same [symmetric] append_assoc [symmetric] del: append_assoc)

lemma stuff_zeros: "stuff r (replicate i False @ bs) = replicate i False @ stuff (if i = 0 then r else 0) bs"
  by (induction i arbitrary: r) auto

lemma skip_zeros:
  fixes x :: u8
  defines "b \<equiv> ucast x :: u32"
  defines "i \<equiv> nat (bottom_bit (b OR 0x100))"
  shows "i \<le> 8" and "bits_lsb x = replicate i False @ map (bit (drop_bit i b)) [0..<8 - i]"
proof -
  let ?P = "\<lambda>k. bit (b OR 0x100) k"
  have "(0x100 :: u32) = 2 ^ 8"
    by simp
  then have bit8: "bit (0x100 :: u32) j \<longleftrightarrow> j = 8" for j
    by (auto simp only: bit_exp_iff) simp_all
  have P8: "?P 8"
    by (simp add: bit_or_iff bit8)
  let ?k = "LEAST k. ?P k"
  have k: "?P ?k" "\<And>j. ?P j \<Longrightarrow> ?k \<le> j"
    using P8 by (rule LeastI) (rule Least_le)
  have i: "i = ?k"
    unfolding i_def using bottom_bit_lowest [OF k] by simp
  then show le: "i \<le> 8"
    using k(2) [OF P8] by simp
  have low: "\<not> bit x j" if "j < i" for j
  proof
    assume "bit x j"
    then have "?P j"
      using bit_u8_bound [of x j] by (simp add: bit_or_iff b_def bit_ucast_iff)
    from k(2) [OF this] that i show False by simp
  qed
  show "bits_lsb x = replicate i False @ map (bit (drop_bit i b)) [0..<8 - i]"
    by (rule nth_equalityI)
      (use le low in \<open>auto simp: nth_append bits_lsb_nth bit_drop_bit_eq b_def bit_simps\<close>)
qed

lemma skip_and_stuff:
  fixes x :: u8
  defines "b \<equiv> ucast x :: u32"
  defines "i \<equiv> nat (bottom_bit (b OR 0x100))"
  assumes "ones_run h = r" and "r < 5"
  shows "tx_stuff_loop (8 - i) (drop_bit i b) (push_bit i (shift_word h)) n =
    (shift_word (h @ stuff r (bits_lsb x)), n + (length (stuff r (bits_lsb x)) - 8))"
proof -
  let ?rest = "map (bit (drop_bit i b)) [0..<8 - i]"
  have z: "i \<le> 8" "bits_lsb x = replicate i False @ ?rest"
    using skip_zeros [of x] by (simp_all add: b_def i_def)
  have st: "stuff r (bits_lsb x) = replicate i False @ stuff (if i = 0 then r else 0) ?rest"
    unfolding z(2) by (rule stuff_zeros)
  have "tx_stuff_loop (8 - i) (drop_bit i b) (shift_word (h @ replicate i False)) n =
    (shift_word ((h @ replicate i False) @ stuff (if i = 0 then r else 0) ?rest),
     n + (length (stuff (if i = 0 then r else 0) ?rest) - (8 - i)))"
    by (rule tx_stuff_loop_stuff) (use assms(3,4) in \<open>simp_all add: ones_run_zeros\<close>)
  then show ?thesis
    using z(1) by (simp add: st shift_word_zeros)
qed

section \<open>Pending bits and octets on the line\<close>

text \<open>
  The transmitter holds the bits \<open>p\<close> that belong to the line and are not sent yet; \<open>r\<close> is the number
  of ones at the end of the line.
\<close>

definition tx_reg :: "bits \<Rightarrow> nat \<Rightarrow> 'u hdlc_tx_state_scheme \<Rightarrow> bool" where
  "tx_reg p r s \<longleftrightarrow> length p = ht_num_bits s \<and>
     (\<exists>h. ht_octets_in_progress s = shift_word (h @ p) \<and> ones_run (h @ p) = r)"

lemma out_octet:
  assumes "length q = n + 8" and "n \<le> 9"
  obtains x :: u8 where "uint (drop_bit n (shift_word (h @ q)) AND 0xFF) = uint x" and "bits_msb x = take 8 q"
proof
  let ?w = "drop_bit n (shift_word (h @ q))"
  have "?w AND 0xFF = take_bit 8 ?w"
    by (simp add: take_bit_eq_mask mask_numeral)
  then show "uint (?w AND 0xFF) = uint (ucast ?w :: u8)"
    by (simp add: unsigned_ucast_eq unsigned_take_bit_eq)
  show "bits_msb (ucast ?w) = take 8 q"
  proof (rule nth_equalityI)
    fix i assume "i < length (bits_msb (ucast ?w))"
    then have i: "i < 8" by simp
    have "n + (7 - i) < length (rev q)"
      unfolding length_rev assms(1) by linarith
    then have "rev (h @ q) ! (n + (7 - i)) = rev q ! (n + (7 - i))"
      by (simp only: rev_append nth_append if_True)
    also have "\<dots> = q ! i"
      using i assms by (simp add: rev_nth)
    finally have "rev (h @ q) ! (n + (7 - i)) = q ! i" .
    moreover have "n + (7 - i) < 32" and "n + (7 - i) < length (h @ q)"
      unfolding length_append assms(1) using assms(2) by linarith+
    ultimately have "bit (shift_word (h @ q)) (n + (7 - i)) = q ! i"
      by (simp only: bit_shift_word simp_thms)
    moreover have "7 - i < 8"
      by linarith
    ultimately show "bits_msb (ucast ?w) ! i = take 8 q ! i"
      using i by (simp add: bits_msb_def rev_nth bits_lsb_nth bit_simps)
  qed (use assms in simp)
qed

lemma stuff_bits_length: "r < 5 \<Longrightarrow> length (stuff r (bits_lsb b)) \<le> 10"
  using stuff_octet_length [of r "bits_lsb b"] by simp

lemma tx_send_octet_line:
  assumes reg: "tx_reg p r s" and r: "r < 5" and p: "length p < 8"
    and pos: "ht_pos s < length (ht_buffer s)"
  defines "b \<equiv> ht_buffer s ! ht_pos s"
  shows "\<exists>x p' w n. tx_send_octet s = Some (uint x, s\<lparr>ht_pos := ht_pos s + 1, ht_octets_in_progress := w, ht_num_bits := n\<rparr>) \<and>
    bits_msb x @ p' = p @ stuff r (bits_lsb b) \<and>
    tx_reg p' (run_after r (bits_lsb b)) (s\<lparr>ht_pos := ht_pos s + 1, ht_octets_in_progress := w, ht_num_bits := n\<rparr>) \<and>
    length p' \<le> 9"
proof -
  obtain h where h: "ht_octets_in_progress s = shift_word (h @ p)" "ones_run (h @ p) = r" "length p = ht_num_bits s"
    using reg by (auto simp: tx_reg_def)
  let ?st = "stuff r (bits_lsb b)"
  let ?n = "ht_num_bits s + (length ?st - 8)" and ?w = "shift_word ((h @ p) @ ?st)"
  let ?s' = "s\<lparr>ht_pos := ht_pos s + 1, ht_octets_in_progress := ?w, ht_num_bits := ?n\<rparr>"
  have st: "8 \<le> length ?st" "length ?st \<le> 10"
    using stuff_length [of "bits_lsb b" r] stuff_bits_length [OF r] by simp_all
  have len: "length (p @ ?st) = ?n + 8" and n9: "?n \<le> 9"
    using st p h(3) by simp_all
  obtain x where x: "uint (drop_bit ?n (shift_word (h @ (p @ ?st))) AND 0xFF) = uint x" "bits_msb x = take 8 (p @ ?st)"
    by (rule out_octet [OF len n9])
  have rd: "mem_read (ht_buffer s) (int (ht_pos s)) 1 = Some [b]"
    using pos by (simp add: b_def take_Suc_conv_app_nth hd_drop_conv_nth take_Suc)
  have "tx_send_octet s = Some (uint x, ?s')"
    unfolding tx_send_octet_def rd using skip_and_stuff [OF h(2) r, of b "ht_num_bits s"] h(1) x(1)
    by (simp add: Let_def)
  moreover have "tx_reg (drop 8 (p @ ?st)) (run_after r (bits_lsb b)) ?s'"
    unfolding tx_reg_def
  proof (intro conjI exI)
    show "length (drop 8 (p @ ?st)) = ht_num_bits ?s'"
      using len by simp
    have e: "(h @ take 8 (p @ ?st)) @ drop 8 (p @ ?st) = (h @ p) @ ?st"
      by (simp only: append_assoc append_take_drop_id)
    show "ht_octets_in_progress ?s' = shift_word ((h @ take 8 (p @ ?st)) @ drop 8 (p @ ?st))"
      unfolding e by simp
    show "ones_run ((h @ take 8 (p @ ?st)) @ drop 8 (p @ ?st)) = run_after r (bits_lsb b)"
      unfolding e by (rule ones_run_stuff [OF h(2) r])
  qed
  moreover have "bits_msb x @ drop 8 (p @ ?st) = p @ ?st"
    by (simp only: x(2) append_take_drop_id)
  moreover have "length (drop 8 (p @ ?st)) \<le> 9"
    using len n9 by simp
  ultimately show ?thesis by blast
qed

lemma tx_drain_line:
  assumes reg: "tx_reg p r s" and p: "8 \<le> length p" "length p \<le> 9" and s: "ht_flag_octets s \<le> 0" "ht_len s \<noteq> 0"
  shows "\<exists>x p'. hdlc_tx_get_byte uf s = Some (uint x, s\<lparr>ht_num_bits := ht_num_bits s - 8\<rparr>) \<and>
    bits_msb x @ p' = p \<and> tx_reg p' r (s\<lparr>ht_num_bits := ht_num_bits s - 8\<rparr>) \<and> length p' < 8"
proof -
  obtain h where h: "ht_octets_in_progress s = shift_word (h @ p)" "ones_run (h @ p) = r" "length p = ht_num_bits s"
    using reg by (auto simp: tx_reg_def)
  obtain x where x: "uint (drop_bit (length p - 8) (shift_word (h @ p)) AND 0xFF) = uint x" "bits_msb x = take 8 p"
    by (rule out_octet [of p "length p - 8"]) (use p in auto)
  have "hdlc_tx_get_byte uf s = Some (uint x, s\<lparr>ht_num_bits := ht_num_bits s - 8\<rparr>)"
    using s p x(1) h(1,3) by (simp add: hdlc_tx_get_byte_def Let_def)
  moreover have "tx_reg (drop 8 p) r (s\<lparr>ht_num_bits := ht_num_bits s - 8\<rparr>)"
    unfolding tx_reg_def
  proof (intro conjI exI)
    show "ht_octets_in_progress (s\<lparr>ht_num_bits := ht_num_bits s - 8\<rparr>) = shift_word ((h @ take 8 p) @ drop 8 p)"
      using h(1) by simp
  qed (use h in simp_all)
  moreover have "bits_msb x @ drop 8 p = p"
    by (simp add: x(2))
  moreover have "length (drop 8 p) < 8"
    using p by simp
  ultimately show ?thesis by blast
qed

section \<open>Runs of the transmitter\<close>

definition tx_sends :: "'u underflow_handler \<Rightarrow> 'u hdlc_tx_state_scheme \<Rightarrow> bits \<Rightarrow> bits \<Rightarrow>
    'u hdlc_tx_state_scheme \<Rightarrow> bits \<Rightarrow> bool" where
  "tx_sends uf s p line s' p' \<longleftrightarrow>
     (\<exists>os. hdlc_tx_get uf s (length os) = Some (os, s') \<and> stream_msb os @ p' = p @ line)"

lemma tx_sends_refl: "tx_sends uf s p [] s p"
  unfolding tx_sends_def by (rule exI [of _ "[]"]) simp

lemma hdlc_tx_get_append:
  "hdlc_tx_get uf s (length xs) = Some (xs, s1) \<Longrightarrow> hdlc_tx_get uf s1 n = Some (ys, s2) \<Longrightarrow>
   hdlc_tx_get uf s (length xs + n) = Some (xs @ ys, s2)"
proof (induction xs arbitrary: s)
  case (Cons x xs)
  from Cons.prems(1) obtain v t where v: "hdlc_tx_get_byte uf s = Some (v, t)" "v \<noteq> SIG_STATUS_END_OF_DATA"
    "hdlc_tx_get uf t (length xs) = Some (xs, s1)" "x = of_int v"
    by (auto split: bind_splits if_splits prod.splits)
  with Cons.IH [OF v(3) Cons.prems(2)] show ?case
    by simp
qed simp

lemma tx_sends_trans:
  assumes "tx_sends uf s p l1 s1 p1" and "tx_sends uf s1 p1 l2 s2 p2"
  shows "tx_sends uf s p (l1 @ l2) s2 p2"
proof -
  obtain xs where xs: "hdlc_tx_get uf s (length xs) = Some (xs, s1)" "stream_msb xs @ p1 = p @ l1"
    using assms(1) by (auto simp: tx_sends_def)
  obtain ys where ys: "hdlc_tx_get uf s1 (length ys) = Some (ys, s2)" "stream_msb ys @ p2 = p1 @ l2"
    using assms(2) by (auto simp: tx_sends_def)
  have "stream_msb (xs @ ys) @ p2 = p @ l1 @ l2"
    using xs(2) ys(2) by (metis append.assoc stream_msb_append)
  then show ?thesis
    using hdlc_tx_get_append [OF xs(1) ys(1)] unfolding tx_sends_def by (metis length_append)
qed

lemma tx_sends_byte:
  assumes "hdlc_tx_get_byte uf s = Some (uint (x :: u8), s')" and "bits_msb x @ p' = p @ line"
  shows "tx_sends uf s p line s' p'"
  unfolding tx_sends_def
proof (intro exI conjI)
  have "uint x \<noteq> SIG_STATUS_END_OF_DATA"
    using uint_nonnegative [of x] unfolding SIG_STATUS_END_OF_DATA_def by linarith
  then show "hdlc_tx_get uf s (length [x]) = Some ([x], s')"
    using assms(1) by simp
  show "stream_msb [x] @ p' = p @ line"
    using assms(2) by simp
qed

section \<open>Sending the octets of a frame\<close>

lemma tx_octet_step:
  assumes get: "hdlc_tx_get_byte uf s = tx_send_octet t"
    and t: "tx_reg p r t" "r < 5" "length p < 8" "ht_pos t < length (ht_buffer t)"
      "ht_flag_octets t \<le> 0" "ht_len t \<noteq> 0"
  shows "\<exists>p' w n. let s' = t\<lparr>ht_pos := ht_pos t + 1, ht_octets_in_progress := w, ht_num_bits := n\<rparr> in
    tx_sends uf s p (stuff r (bits_lsb (ht_buffer t ! ht_pos t))) s' p' \<and>
    tx_reg p' (run_after r (bits_lsb (ht_buffer t ! ht_pos t))) s' \<and> length p' < 8"
proof -
  let ?b = "ht_buffer t ! ht_pos t"
  obtain x p1 w n where x:
    "tx_send_octet t = Some (uint x, t\<lparr>ht_pos := ht_pos t + 1, ht_octets_in_progress := w, ht_num_bits := n\<rparr>)"
    "bits_msb x @ p1 = p @ stuff r (bits_lsb ?b)"
    "tx_reg p1 (run_after r (bits_lsb ?b)) (t\<lparr>ht_pos := ht_pos t + 1, ht_octets_in_progress := w, ht_num_bits := n\<rparr>)"
    "length p1 \<le> 9"
    using tx_send_octet_line [OF t(1-4)] by blast
  let ?s1 = "t\<lparr>ht_pos := ht_pos t + 1, ht_octets_in_progress := w, ht_num_bits := n\<rparr>"
  have sends1: "tx_sends uf s p (stuff r (bits_lsb ?b)) ?s1 p1"
    using get x(1,2) by (auto intro: tx_sends_byte)
  show ?thesis
  proof (cases "length p1 < 8")
    case True
    with sends1 x(3) show ?thesis
      by (auto simp: Let_def)
  next
    case False
    then have ge: "8 \<le> length p1"
      by simp
    have f: "ht_flag_octets ?s1 \<le> 0" "ht_len ?s1 \<noteq> 0"
      using t(5,6) by simp_all
    obtain y p2 where y: "hdlc_tx_get_byte uf ?s1 = Some (uint y, ?s1\<lparr>ht_num_bits := ht_num_bits ?s1 - 8\<rparr>)"
      "bits_msb y @ p2 = p1" "tx_reg p2 (run_after r (bits_lsb ?b)) (?s1\<lparr>ht_num_bits := ht_num_bits ?s1 - 8\<rparr>)"
      "length p2 < 8"
      using tx_drain_line [OF x(3) ge x(4) f] by blast
    have "tx_sends uf ?s1 p1 [] (?s1\<lparr>ht_num_bits := ht_num_bits ?s1 - 8\<rparr>) p2"
      using y(1,2) by (auto intro: tx_sends_byte)
    from tx_sends_trans [OF sends1 this] y(3,4) show ?thesis
      by (intro exI [of _ p2] exI [of _ w] exI [of _ "n - 8"]) (simp add: Let_def)
  qed
qed

lemma tx_octets:
  assumes "tx_reg p r s" "r < 5" "length p < 8" "ht_flag_octets s \<le> 0" "ht_len s \<noteq> 0"
    and "ht_pos s + k \<le> length (ht_buffer s)"
    and "\<And>i. ht_pos s \<le> i \<Longrightarrow> i < ht_pos s + k \<Longrightarrow> i < ht_len s \<or> ht_len s < i \<and> i \<noteq> HDLC_MAXFRAME_LEN + ht_crc_bytes s"
  shows "\<exists>p' w n. let s' = s\<lparr>ht_pos := ht_pos s + k, ht_octets_in_progress := w, ht_num_bits := n\<rparr> in
    tx_sends uf s p (stuff r (stream_lsb (take k (drop (ht_pos s) (ht_buffer s))))) s' p' \<and>
    tx_reg p' (run_after r (stream_lsb (take k (drop (ht_pos s) (ht_buffer s))))) s' \<and> length p' < 8"
  using assms
proof (induction k arbitrary: s p r)
  case 0
  then show ?case
    by (intro exI [of _ p] exI [of _ "ht_octets_in_progress s"] exI [of _ "ht_num_bits s"])
      (simp add: Let_def tx_sends_refl)
next
  case (Suc k)
  let ?b = "ht_buffer s ! ht_pos s"
  have lt: "ht_pos s < length (ht_buffer s)" and num: "ht_num_bits s < 8"
    using Suc.prems(1,3,6) by (simp_all add: tx_reg_def)
  have get: "hdlc_tx_get_byte uf s = tx_send_octet s"
    using Suc.prems(4,5) Suc.prems(7) [of "ht_pos s"] num by (auto simp: hdlc_tx_get_byte_def)
  obtain p1 w n where one: "tx_sends uf s p (stuff r (bits_lsb ?b))
      (s\<lparr>ht_pos := ht_pos s + 1, ht_octets_in_progress := w, ht_num_bits := n\<rparr>) p1"
    "tx_reg p1 (run_after r (bits_lsb ?b)) (s\<lparr>ht_pos := ht_pos s + 1, ht_octets_in_progress := w, ht_num_bits := n\<rparr>)"
    "length p1 < 8"
    using tx_octet_step [OF get Suc.prems(1-3) lt Suc.prems(4,5)] by (auto simp: Let_def)
  let ?s1 = "s\<lparr>ht_pos := ht_pos s + 1, ht_octets_in_progress := w, ht_num_bits := n\<rparr>"
  have "\<exists>p' w n. let s' = ?s1\<lparr>ht_pos := ht_pos ?s1 + k, ht_octets_in_progress := w, ht_num_bits := n\<rparr> in
    tx_sends uf ?s1 p1 (stuff (run_after r (bits_lsb ?b)) (stream_lsb (take k (drop (ht_pos ?s1) (ht_buffer ?s1))))) s' p' \<and>
    tx_reg p' (run_after (run_after r (bits_lsb ?b)) (stream_lsb (take k (drop (ht_pos ?s1) (ht_buffer ?s1))))) s' \<and>
    length p' < 8"
    by (rule Suc.IH) (use one Suc.prems run_after_less [OF Suc.prems(2)] in auto)
  then obtain p' w' n' where rest:
    "tx_sends uf ?s1 p1 (stuff (run_after r (bits_lsb ?b)) (stream_lsb (take k (drop (Suc (ht_pos s)) (ht_buffer s)))))
      (s\<lparr>ht_pos := ht_pos s + Suc k, ht_octets_in_progress := w', ht_num_bits := n'\<rparr>) p'"
    "tx_reg p' (run_after (run_after r (bits_lsb ?b)) (stream_lsb (take k (drop (Suc (ht_pos s)) (ht_buffer s)))))
      (s\<lparr>ht_pos := ht_pos s + Suc k, ht_octets_in_progress := w', ht_num_bits := n'\<rparr>)"
    "length p' < 8"
    by (auto simp: Let_def)
  have split: "take (Suc k) (drop (ht_pos s) (ht_buffer s)) = ?b # take k (drop (Suc (ht_pos s)) (ht_buffer s))"
    using lt by (simp add: Cons_nth_drop_Suc [symmetric])
  from tx_sends_trans [OF one(1) rest(1)] rest(2,3) show ?case
    unfolding split by (intro exI [of _ p'] exI [of _ w'] exI [of _ n']) (simp add: Let_def stuff_append run_after_append)
qed

section \<open>Flags between frames\<close>

text \<open>
  Between frames the transmitter idles on flags. The pending bits are the rest of the current flag, the
  idle octet is the flag rotated accordingly.
\<close>

definition tx_base :: "bits \<Rightarrow> 'u hdlc_tx_state_scheme \<Rightarrow> bool" where
  "tx_base p s \<longleftrightarrow> length p < 8 \<and> p = drop (8 - length p) hdlc_flag \<and> ht_num_bits s = length p \<and>
     ht_octets_in_progress s = shift_word p \<and>
     (\<exists>x :: u8. ht_idle_octet s = ucast x \<and> bits_msb x = p @ take (8 - length p) hdlc_flag) \<and>
     ht_crc_bytes s \<in> {2, 4} \<and> length (ht_buffer s) = HDLC_MAXFRAME_LEN + 4 \<and>
     ht_max_frame_len s \<le> HDLC_MAXFRAME_LEN \<and> ht_abort_octets s = 0 \<and> ht_pos s = 0"

definition tx_crc_start :: "nat \<Rightarrow> u32" where
  "tx_crc_start n = (if n = 2 then 0xFFFF else 0xFFFFFFFF)"

definition tx_crc_of :: "nat \<Rightarrow> octets \<Rightarrow> u32" where
  "tx_crc_of n msg = (if n = 2 then ucast (crc_itu16_calc msg 0xFFFF) else crc_itu32_calc msg 0xFFFFFFFF)"

definition tx_idle :: "bits \<Rightarrow> 'u hdlc_tx_state_scheme \<Rightarrow> bool" where
  "tx_idle p s \<longleftrightarrow> tx_base p s \<and> ht_len s = 0 \<and> ht_crc s = tx_crc_start (ht_crc_bytes s)"

definition tx_loaded :: "bits \<Rightarrow> octets \<Rightarrow> 'u hdlc_tx_state_scheme \<Rightarrow> bool" where
  "tx_loaded p msg s \<longleftrightarrow> tx_base p s \<and> msg \<noteq> [] \<and> ht_len s = length msg \<and> length msg \<le> HDLC_MAXFRAME_LEN \<and>
     take (length msg) (ht_buffer s) = msg \<and> ht_crc s = tx_crc_of (ht_crc_bytes s) msg"

lemma octet_len_cases: "(k :: nat) < 8 \<Longrightarrow> k \<in> {0, 1, 2, 3, 4, 5, 6, 7}"
  by auto

lemma ones_run_flag_tail: "k < 8 \<Longrightarrow> ones_run (drop (8 - k) hdlc_flag) = 0"
  using octet_len_cases [of k] by (auto simp: hdlc_flag_def ones_run_def)

lemma tx_base_reg:
  assumes "tx_base p s"
  shows "tx_reg p 0 s"
  unfolding tx_reg_def
proof (intro conjI exI)
  have p: "length p < 8" "p = drop (8 - length p) hdlc_flag"
    using assms by (simp_all add: tx_base_def)
  show "ones_run ([] @ p) = 0"
    using ones_run_flag_tail [OF p(1)] p(2) by simp
qed (use assms in \<open>simp_all add: tx_base_def\<close>)

lemma hdlc_tx_frame_loads:
  assumes idle: "tx_idle p s" and msg: "msg \<noteq> []" "length msg \<le> ht_max_frame_len s"
  shows "\<exists>buf. hdlc_tx_frame s msg = Some (0, s\<lparr>ht_buffer := buf, ht_crc := tx_crc_of (ht_crc_bytes s) msg,
       ht_len := length msg, ht_tx_end := False\<rparr>) \<and>
     tx_loaded p msg (s\<lparr>ht_buffer := buf, ht_crc := tx_crc_of (ht_crc_bytes s) msg,
       ht_len := length msg, ht_tx_end := False\<rparr>)"
proof (intro exI conjI)
  have s: "ht_len s = 0" "ht_pos s = 0" "ht_crc s = tx_crc_start (ht_crc_bytes s)" "tx_base p s"
    "length (ht_buffer s) = HDLC_MAXFRAME_LEN + 4" "ht_max_frame_len s \<le> HDLC_MAXFRAME_LEN"
    using idle by (simp_all add: tx_idle_def tx_base_def)
  let ?buf = "msg @ drop (length msg) (ht_buffer s)"
  have "mem_write (ht_buffer s) (int (ht_len s)) msg = Some ?buf"
    using s msg by simp
  moreover have "(if ht_crc_bytes s = 2 then ucast (crc_itu16_calc msg (ucast (ht_crc s)))
      else crc_itu32_calc msg (ht_crc s)) = tx_crc_of (ht_crc_bytes s) msg"
    by (simp add: s(3) tx_crc_of_def tx_crc_start_def)
  ultimately show "hdlc_tx_frame s msg = Some (0, s\<lparr>ht_buffer := ?buf, ht_crc := tx_crc_of (ht_crc_bytes s) msg,
       ht_len := length msg, ht_tx_end := False\<rparr>)"
    using s(1,2) msg unfolding hdlc_tx_frame_def by (simp add: HDLC_MAXFRAME_LEN_def del: mem_write_Some)
  show "tx_loaded p msg (s\<lparr>ht_buffer := ?buf, ht_crc := tx_crc_of (ht_crc_bytes s) msg,
       ht_len := length msg, ht_tx_end := False\<rparr>)"
    using s(4-6) msg by (simp add: tx_loaded_def tx_base_def)
qed

lemma uint_ucast_octet: "uint (ucast (x :: u8) :: u32) = uint x"
  using unsigned_less [of x, where 'a = int]
  by (simp add: unsigned_ucast_eq take_bit_int_eq_self_iff)

lemma tx_idle_octet_line:
  assumes base: "tx_base p s"
  obtains x where "uint (ht_idle_octet s) = uint (x :: u8)" and "bits_msb x @ p = p @ hdlc_flag"
proof -
  obtain x :: u8 where x: "ht_idle_octet s = ucast x" "bits_msb x = p @ take (8 - length p) hdlc_flag"
    and p: "p = drop (8 - length p) hdlc_flag"
    using base by (auto simp: tx_base_def)
  have "bits_msb x @ p = p @ (take (8 - length p) hdlc_flag @ drop (8 - length p) hdlc_flag)"
    using x(2) p by (metis append.assoc)
  then have "bits_msb x @ p = p @ hdlc_flag"
    by (simp only: append_take_drop_id)
  with that [of x] x(1) show thesis
    by (simp only: uint_ucast_octet simp_thms)
qed

section \<open>Closing a frame\<close>

lemma rotated_flags:
  "\<forall>k\<in>set [0..<8].
     (drop_bit (8 - k) (drop_bit k 0x7E7E AND 0xFF) :: u32) = shift_word (drop (8 - k) hdlc_flag) \<and>
     bits_msb (ucast (drop_bit k 0x7E7E AND 0xFF :: u32)) = drop (8 - k) hdlc_flag @ take (8 - k) hdlc_flag \<and>
     bits_msb (ucast (drop_bit k 0x7E :: u32)) = replicate k False @ take (8 - k) hdlc_flag"
  by code_simp

lemma octet_mask_ucast: "(ucast (ucast (w AND 0xFF) :: u8) :: u32) = w AND 0xFF"
  for w :: u32
proof -
  have "w AND 0xFF = take_bit 8 w"
    by (simp add: take_bit_eq_mask mask_numeral)
  then show ?thesis
    by (intro bit_word_eqI) (auto simp: bit_simps)
qed

lemma bits_msb_pushed:
  assumes "length p \<le> 8"
  shows "bits_msb (ucast (push_bit (8 - length p) (shift_word (h @ p)))) = p @ replicate (8 - length p) False"
proof (rule nth_equalityI)
  fix i assume "i < length (bits_msb (ucast (push_bit (8 - length p) (shift_word (h @ p)))))"
  then have i: "i < 8" by simp
  have "(8 - length p \<le> 7 - i) = (i < length p)"
    using i assms by linarith
  moreover have "rev (h @ p) ! (7 - i - (8 - length p)) = p ! i" if "i < length p"
  proof -
    have "7 - i - (8 - length p) = length p - Suc i" and "length p - Suc i < length (rev p)"
      using that assms unfolding length_rev by linarith+
    then show ?thesis
      using that by (simp only: rev_append nth_append if_True rev_nth) (simp add: Suc_diff_Suc)
  qed
  ultimately show "bits_msb (ucast (push_bit (8 - length p) (shift_word (h @ p)))) ! i =
      (p @ replicate (8 - length p) False) ! i"
    using i assms by (auto simp: bits_msb_nth bit_simps bit_shift_word nth_append)
qed (use assms in simp)

lemma bits_msb_or: "bits_msb (x OR y) = map2 (\<or>) (bits_msb x) (bits_msb y)"
  by (rule nth_equalityI) (simp_all add: bits_msb_nth bit_or_iff)

definition tx_fix_flags :: "'u hdlc_tx_state_scheme \<Rightarrow> 'u hdlc_tx_state_scheme" where
  "tx_fix_flags s = (if ht_len s = 0 \<and> ht_flag_octets s < 2 then s\<lparr>ht_flag_octets := 2\<rparr> else s)"

definition tx_same :: "'u hdlc_tx_state_scheme \<Rightarrow> 'u hdlc_tx_state_scheme \<Rightarrow> bool" where
  "tx_same s s' \<longleftrightarrow> ht_crc_bytes s' = ht_crc_bytes s \<and> ht_inter_frame_flags s' = ht_inter_frame_flags s \<and>
     ht_progressive s' = ht_progressive s \<and> ht_max_frame_len s' = ht_max_frame_len s \<and>
     ht_abort_octets s' = ht_abort_octets s \<and> ht_tx_end s' = ht_tx_end s \<and>
     hdlc_tx_state.more s' = hdlc_tx_state.more s"

lemma tx_same_refl [simp]: "tx_same s s"
  by (simp add: tx_same_def)

lemma tx_same_trans: "tx_same s s' \<Longrightarrow> tx_same s' s'' \<Longrightarrow> tx_same s s''"
  by (simp add: tx_same_def)

lemma tx_close_line:
  assumes reg: "tx_reg p r s" and p: "length p < 8"
    and s: "ht_crc_bytes s \<in> {2, 4}" "length (ht_buffer s) = HDLC_MAXFRAME_LEN + 4"
      "ht_max_frame_len s \<le> HDLC_MAXFRAME_LEN" "ht_abort_octets s = 0"
  shows "\<exists>x p' c. tx_close_frame uf s = do { u \<leftarrow> tx_call_underflow uf c; Some (uint x, tx_fix_flags u) } \<and>
    bits_msb x @ p' = p @ hdlc_flag \<and> tx_idle p' c \<and> tx_same s c \<and>
    ht_flag_octets c = ht_inter_frame_flags s - 1 \<and> \<not> ht_report_flag_underflow c"
proof -
  obtain h where h: "ht_octets_in_progress s = shift_word (h @ p)" "length p = ht_num_bits s"
    using reg by (auto simp: tx_reg_def)
  let ?k = "length p"
  let ?v = "drop_bit ?k 0x7E7E AND 0xFF :: u32" and ?t = "drop (8 - ?k) hdlc_flag"
  let ?x = "ucast (push_bit (8 - ?k) (shift_word (h @ p)) OR drop_bit ?k 0x7E) :: u8"
  let ?c = "s\<lparr>ht_idle_octet := ?v, ht_octets_in_progress := shift_word ?t,
      ht_flag_octets := ht_inter_frame_flags s - 1, ht_len := 0, ht_pos := 0,
      ht_crc := tx_crc_start (ht_crc_bytes s), ht_report_flag_underflow := False\<rparr>"
  have "?k \<in> set [0..<8]"
    using p by simp
  from bspec [OF rotated_flags this] have rot: "drop_bit (8 - ?k) ?v = shift_word ?t"
    "bits_msb (ucast ?v) = ?t @ take (8 - ?k) hdlc_flag"
    "bits_msb (ucast (drop_bit ?k 0x7E :: u32)) = replicate ?k False @ take (8 - ?k) hdlc_flag"
    by blast+
  have len: "length hdlc_flag = 8"
    by (simp add: hdlc_flag_def)
  have close: "tx_close_frame uf s = do { u \<leftarrow> tx_call_underflow uf ?c; Some (uint ?x, tx_fix_flags u) }"
    unfolding tx_close_frame_def Let_def h(1) h(2) [symmetric] rot(1) tx_fix_flags_def tx_crc_start_def by simp
  have "bits_msb ?x = map2 (\<or>) (p @ replicate (8 - ?k) False) (replicate ?k False @ take (8 - ?k) hdlc_flag)"
    using p by (simp only: unsigned_or_eq bits_msb_or bits_msb_pushed rot(3) less_imp_le)
  also have "\<dots> = p @ take (8 - ?k) hdlc_flag"
    using len by (intro nth_equalityI) (auto simp: nth_append)
  finally have x: "bits_msb ?x @ ?t = p @ hdlc_flag"
    by simp
  have tl: "length ?t = ?k"
    using len p by simp
  have "\<exists>x :: u8. ?v = ucast x \<and> bits_msb x = ?t @ take (8 - ?k) hdlc_flag"
    by (rule exI [of _ "ucast ?v"]) (simp only: octet_mask_ucast rot(2) simp_thms)
  then have "tx_idle ?t ?c"
    unfolding tx_idle_def tx_base_def tl using p s h(2) by simp
  moreover have "tx_same s ?c" and "ht_flag_octets ?c = ht_inter_frame_flags s - 1"
    and "\<not> ht_report_flag_underflow ?c"
    by (simp_all add: tx_same_def)
  ultimately show ?thesis
    using close x by blast
qed

section \<open>A whole frame\<close>

definition hdlc_framed :: "nat \<Rightarrow> octets \<Rightarrow> octets" where
  "hdlc_framed n msg = (if n = 2 then crc_itu16_append msg else crc_itu32_append msg)"

definition tx_fcs :: "nat \<Rightarrow> u32 \<Rightarrow> octets" where
  "tx_fcs n crc = [ucast crc, ucast (drop_bit 8 crc)] @
     (if n = 4 then [ucast (drop_bit 16 crc), ucast (drop_bit 24 crc)] else [])"

lemma length_tx_fcs: "n \<in> {2, 4} \<Longrightarrow> length (tx_fcs n crc) = n"
  by (auto simp: tx_fcs_def)

lemma framed_fcs:
  "n \<in> {2, 4} \<Longrightarrow> msg @ tx_fcs n (tx_crc_of n msg XOR 0xFFFFFFFF) = hdlc_framed n msg"
proof -
  have "(ucast (ucast c XOR 0xFFFFFFFF :: u32) :: u8) = ucast (c XOR 0xFFFF)"
    and "(ucast (drop_bit 8 (ucast c XOR 0xFFFFFFFF :: u32)) :: u8) = ucast (drop_bit 8 (c XOR 0xFFFF))" for c :: u16
    unfolding u32_ones u16_ones by (rule bit_word_eqI, simp add: bit_simps)+
  then show "n \<in> {2, 4} \<Longrightarrow> ?thesis"
    by (auto simp: hdlc_framed_def tx_fcs_def tx_crc_of_def crc_itu16_append_def crc_itu32_append_def Let_def)
qed

lemma take_updated:
  assumes "k \<le> length xs" and "length ys \<le> length xs - k"
  shows "take (length ys) (drop k (take k xs @ ys @ drop (k + length ys) xs)) = ys"
  using assms by simp

lemma length_4: "length xs = 4 \<Longrightarrow> \<exists>a b c d. xs = [a, b, c, d]"
  by (auto simp: length_Suc_conv numeral_eq_Suc)

lemma tx_load_crc_buffer:
  assumes "length (ht_buffer s) = HDLC_MAXFRAME_LEN + 4" and "ht_crc_bytes s \<in> {2, 4}"
  shows "\<exists>buf. tx_load_crc s = Some (s\<lparr>ht_crc := ht_crc s XOR 0xFFFFFFFF, ht_buffer := buf, ht_pos := HDLC_MAXFRAME_LEN\<rparr>) \<and>
    length buf = HDLC_MAXFRAME_LEN + 4 \<and>
    take (ht_crc_bytes s) (drop HDLC_MAXFRAME_LEN buf) = tx_fcs (ht_crc_bytes s) (ht_crc s XOR 0xFFFFFFFF)"
proof -
  define crc where "crc = ht_crc s XOR 0xFFFFFFFF"
  let ?B = "ht_buffer s"
  obtain a b c d where tail: "drop HDLC_MAXFRAME_LEN ?B = [a, b, c, d]"
    using length_4 [of "drop HDLC_MAXFRAME_LEN ?B"] assms(1) by auto
  define A where "A = take HDLC_MAXFRAME_LEN ?B"
  have A: "length A = HDLC_MAXFRAME_LEN"
    using assms(1) by (simp add: A_def)
  have B: "?B = A @ [a, b, c, d]"
    using tail by (metis A_def append_take_drop_id)
  let ?b1 = "A @ [ucast crc, ucast (drop_bit 8 crc), c, d]"
  let ?b2 = "A @ [ucast crc, ucast (drop_bit 8 crc), ucast (drop_bit 16 crc), ucast (drop_bit 24 crc)]"
  have w1: "mem_write ?B (int HDLC_MAXFRAME_LEN) [ucast crc, ucast (drop_bit 8 crc)] = Some ?b1"
    using A by (simp add: B mem_write_def)
  have w2: "mem_write ?b1 (int HDLC_MAXFRAME_LEN + 2) [ucast (drop_bit 16 crc), ucast (drop_bit 24 crc)] = Some ?b2"
    using A by (simp add: mem_write_def nat_add_distrib)
  show ?thesis
    unfolding crc_def [symmetric]
    by (rule exI [of _ "if ht_crc_bytes s = 4 then ?b2 else ?b1"])
      (use A assms(2) w1 w2 in \<open>auto simp: tx_load_crc_def Let_def crc_def [symmetric] tx_fcs_def simp del: mem_write_Some\<close>)
qed

lemma tx_frame_crc_line:
  assumes reg: "tx_reg p r s" "r < 5" "length p < 8"
    and s: "ht_flag_octets s \<le> 0" "ht_len s \<noteq> 0" "ht_pos s = ht_len s" "ht_len s \<le> HDLC_MAXFRAME_LEN"
      "length (ht_buffer s) = HDLC_MAXFRAME_LEN + 4" "ht_crc_bytes s \<in> {2, 4}"
  shows "\<exists>p' w n c buf. let fcs = stream_lsb (tx_fcs (ht_crc_bytes s) (ht_crc s XOR 0xFFFFFFFF));
      s' = s\<lparr>ht_crc := c, ht_buffer := buf, ht_pos := HDLC_MAXFRAME_LEN + ht_crc_bytes s,
        ht_octets_in_progress := w, ht_num_bits := n\<rparr> in
    tx_sends uf s p (stuff r fcs) s' p' \<and> tx_reg p' (run_after r fcs) s' \<and> length p' < 8 \<and>
    length buf = HDLC_MAXFRAME_LEN + 4"
proof -
  let ?N = HDLC_MAXFRAME_LEN and ?k = "ht_crc_bytes s"
  obtain buf where buf: "tx_load_crc s = Some (s\<lparr>ht_crc := ht_crc s XOR 0xFFFFFFFF, ht_buffer := buf, ht_pos := ?N\<rparr>)"
    "length buf = ?N + 4" "take ?k (drop ?N buf) = tx_fcs ?k (ht_crc s XOR 0xFFFFFFFF)"
    using tx_load_crc_buffer [OF s(5,6)] by blast
  let ?t = "s\<lparr>ht_crc := ht_crc s XOR 0xFFFFFFFF, ht_buffer := buf, ht_pos := ?N\<rparr>"
  have num: "ht_num_bits s < 8"
    using reg(1,3) by (simp add: tx_reg_def)
  have get: "hdlc_tx_get_byte uf s = tx_send_octet ?t"
    using s(1-3) num buf(1) by (simp add: hdlc_tx_get_byte_def)
  have t: "tx_reg p r ?t" "ht_pos ?t < length (ht_buffer ?t)" "ht_flag_octets ?t \<le> 0" "ht_len ?t \<noteq> 0"
    using reg s buf(2) by (simp_all add: tx_reg_def)
  obtain p1 w n where one: "tx_sends uf s p (stuff r (bits_lsb (buf ! ?N)))
      (?t\<lparr>ht_pos := ?N + 1, ht_octets_in_progress := w, ht_num_bits := n\<rparr>) p1"
    "tx_reg p1 (run_after r (bits_lsb (buf ! ?N))) (?t\<lparr>ht_pos := ?N + 1, ht_octets_in_progress := w, ht_num_bits := n\<rparr>)"
    "length p1 < 8"
    using tx_octet_step [OF get t(1) reg(2,3) t(2-4)] by (auto simp: Let_def)
  let ?s1 = "?t\<lparr>ht_pos := ?N + 1, ht_octets_in_progress := w, ht_num_bits := n\<rparr>"
  let ?rest = "take (?k - 1) (drop (Suc ?N) buf)" and ?r1 = "run_after r (bits_lsb (buf ! ?N))"
  have "\<exists>p' w n. let s' = ?s1\<lparr>ht_pos := ht_pos ?s1 + (?k - 1), ht_octets_in_progress := w, ht_num_bits := n\<rparr> in
    tx_sends uf ?s1 p1 (stuff ?r1 (stream_lsb (take (?k - 1) (drop (ht_pos ?s1) (ht_buffer ?s1))))) s' p' \<and>
    tx_reg p' (run_after ?r1 (stream_lsb (take (?k - 1) (drop (ht_pos ?s1) (ht_buffer ?s1))))) s' \<and> length p' < 8"
    by (rule tx_octets) (use one s buf(2) run_after_less [OF reg(2)] in auto)
  then obtain p' w' n' where rest: "tx_sends uf ?s1 p1 (stuff ?r1 (stream_lsb ?rest))
      (?t\<lparr>ht_pos := ?N + 1 + (?k - 1), ht_octets_in_progress := w', ht_num_bits := n'\<rparr>) p'"
    "tx_reg p' (run_after ?r1 (stream_lsb ?rest))
      (?t\<lparr>ht_pos := ?N + 1 + (?k - 1), ht_octets_in_progress := w', ht_num_bits := n'\<rparr>)" "length p' < 8"
    by (auto simp: Let_def)
  have k: "?N + 1 + (?k - 1) = ?N + ?k"
    using s(6) by auto
  have "take ?k (drop ?N buf) = buf ! ?N # ?rest"
    using s(6) buf(2) Cons_nth_drop_Suc [of ?N buf, symmetric] by auto
  then have fcs: "tx_fcs ?k (ht_crc s XOR 0xFFFFFFFF) = buf ! ?N # ?rest"
    using buf(3) by simp
  show ?thesis
    using tx_sends_trans [OF one(1) rest(1)] rest(2,3) buf(2) unfolding k Let_def fcs
    by (intro exI [of _ p'] exI [of _ w'] exI [of _ n'] exI [of _ "ht_crc s XOR 0xFFFFFFFF"] exI [of _ buf])
      (simp add: stuff_append run_after_append)
qed

lemma tx_frame_line:
  assumes loaded: "tx_loaded p msg s" and flags: "ht_flag_octets s \<le> 0"
  shows "\<exists>p' t. tx_sends uf s p (stuff 0 (stream_lsb (hdlc_framed (ht_crc_bytes s) msg))) t p' \<and>
    length p' < 8 \<and> tx_reg p' (run_after 0 (stream_lsb (hdlc_framed (ht_crc_bytes s) msg))) t \<and>
    hdlc_tx_get_byte uf t = tx_close_frame uf t \<and>
    tx_same s t \<and> length (ht_buffer t) = HDLC_MAXFRAME_LEN + 4"
proof -
  let ?N = HDLC_MAXFRAME_LEN and ?k = "ht_crc_bytes s"
  have s: "ht_len s = length msg" "msg \<noteq> []" "length msg \<le> ?N" "take (length msg) (ht_buffer s) = msg"
    "ht_crc s = tx_crc_of ?k msg" "ht_pos s = 0" "length (ht_buffer s) = ?N + 4" "?k \<in> {2, 4}" "length p < 8"
    and reg: "tx_reg p 0 s"
    using loaded tx_base_reg by (auto simp: tx_loaded_def tx_base_def)
  have "\<exists>p' w n. let s' = s\<lparr>ht_pos := ht_pos s + length msg, ht_octets_in_progress := w, ht_num_bits := n\<rparr> in
    tx_sends uf s p (stuff 0 (stream_lsb (take (length msg) (drop (ht_pos s) (ht_buffer s))))) s' p' \<and>
    tx_reg p' (run_after 0 (stream_lsb (take (length msg) (drop (ht_pos s) (ht_buffer s))))) s' \<and> length p' < 8"
    by (rule tx_octets) (use reg s flags in auto)
  then obtain p1 w1 n1 where body: "tx_sends uf s p (stuff 0 (stream_lsb msg))
      (s\<lparr>ht_pos := length msg, ht_octets_in_progress := w1, ht_num_bits := n1\<rparr>) p1"
    "tx_reg p1 (run_after 0 (stream_lsb msg)) (s\<lparr>ht_pos := length msg, ht_octets_in_progress := w1, ht_num_bits := n1\<rparr>)"
    "length p1 < 8"
    using s(4,6) by (auto simp: Let_def)
  let ?s1 = "s\<lparr>ht_pos := length msg, ht_octets_in_progress := w1, ht_num_bits := n1\<rparr>"
  let ?fcs = "tx_fcs ?k (ht_crc s XOR 0xFFFFFFFF)"
  have r: "run_after 0 (stream_lsb msg) < 5"
    by (rule run_after_less) simp
  obtain p2 w2 n2 c buf where crc: "tx_sends uf ?s1 p1 (stuff (run_after 0 (stream_lsb msg)) (stream_lsb ?fcs))
      (s\<lparr>ht_crc := c, ht_buffer := buf, ht_pos := ?N + ?k, ht_octets_in_progress := w2, ht_num_bits := n2\<rparr>) p2"
    "tx_reg p2 (run_after (run_after 0 (stream_lsb msg)) (stream_lsb ?fcs))
      (s\<lparr>ht_crc := c, ht_buffer := buf, ht_pos := ?N + ?k, ht_octets_in_progress := w2, ht_num_bits := n2\<rparr>)"
    "length p2 < 8" "length buf = ?N + 4"
    using tx_frame_crc_line [OF body(2) r body(3), of uf] s flags by (auto simp: Let_def)
  let ?t = "s\<lparr>ht_crc := c, ht_buffer := buf, ht_pos := ?N + ?k, ht_octets_in_progress := w2, ht_num_bits := n2\<rparr>"
  have framed: "msg @ ?fcs = hdlc_framed ?k msg"
    using framed_fcs [OF s(8), of msg] s(5) by simp
  have num: "n2 < 8"
    using crc(2,3) by (simp add: tx_reg_def)
  have close: "hdlc_tx_get_byte uf ?t = tx_close_frame uf ?t"
    using s(1-3,8) flags num by (auto simp: hdlc_tx_get_byte_def)
  have sends: "tx_sends uf s p (stuff 0 (stream_lsb (hdlc_framed ?k msg))) ?t p2"
    using tx_sends_trans [OF body(1) crc(1)] by (simp add: stuff_append flip: framed)
  have reg2: "tx_reg p2 (run_after 0 (stream_lsb (hdlc_framed ?k msg))) ?t"
    using crc(2) by (simp add: run_after_append flip: framed)
  have "tx_same s ?t" and "length (ht_buffer ?t) = ?N + 4"
    using crc(4) by (simp_all add: tx_same_def)
  with sends reg2 close crc(3) show ?thesis by blast
qed

text \<open>
  From a loaded frame to the underflow call: \<open>c\<close> is the idle state that the handler gets, and what the
  transmitter has put on the line, with the bits that are still pending, is the frame and its flag.
\<close>

lemma tx_frame_sent:
  assumes loaded: "tx_loaded p msg s" and flags: "ht_flag_octets s \<le> 0"
  shows "\<exists>p' c. tx_idle p' c \<and> tx_same s c \<and> ht_flag_octets c = ht_inter_frame_flags s - 1 \<and>
    \<not> ht_report_flag_underflow c \<and>
    (\<forall>u. tx_call_underflow uf c = Some u \<longrightarrow>
      tx_sends uf s p (stuff 0 (stream_lsb (hdlc_framed (ht_crc_bytes s) msg)) @ hdlc_flag) (tx_fix_flags u) p')"
proof -
  let ?line = "stuff 0 (stream_lsb (hdlc_framed (ht_crc_bytes s) msg))"
  obtain p1 t where t: "tx_sends uf s p ?line t p1" "length p1 < 8"
    "tx_reg p1 (run_after 0 (stream_lsb (hdlc_framed (ht_crc_bytes s) msg))) t"
    "hdlc_tx_get_byte uf t = tx_close_frame uf t" "tx_same s t"
    "length (ht_buffer t) = HDLC_MAXFRAME_LEN + 4"
    using tx_frame_line [OF loaded flags, of uf] by blast
  have b: "ht_crc_bytes t \<in> {2, 4}" "ht_max_frame_len t \<le> HDLC_MAXFRAME_LEN" "ht_abort_octets t = 0"
    using loaded t(5) by (auto simp: tx_loaded_def tx_base_def tx_same_def)
  obtain x p' c where x: "tx_close_frame uf t = do { u \<leftarrow> tx_call_underflow uf c; Some (uint x, tx_fix_flags u) }"
    "bits_msb x @ p' = p1 @ hdlc_flag" "tx_idle p' c" "tx_same t c"
    "ht_flag_octets c = ht_inter_frame_flags t - 1" "\<not> ht_report_flag_underflow c"
    using tx_close_line [OF t(3,2) b(1) t(6) b(2,3), of uf] by blast
  have "tx_sends uf s p (?line @ hdlc_flag) (tx_fix_flags u) p'" if "tx_call_underflow uf c = Some u" for u
  proof (rule tx_sends_trans [OF t(1)])
    have "hdlc_tx_get_byte uf t = Some (uint x, tx_fix_flags u)"
      using t(4) x(1) that by simp
    then show "tx_sends uf t p1 hdlc_flag (tx_fix_flags u) p'"
      using x(2) by (rule tx_sends_byte)
  qed
  moreover have "ht_flag_octets c = ht_inter_frame_flags s - 1"
    using x(5) t(5) by (simp add: tx_same_def)
  ultimately show ?thesis
    using x(3,6) tx_same_trans [OF t(5) x(4)] by blast
qed

lemma tx_idle_flag:
  assumes base: "tx_base p s" and f: "0 < ht_flag_octets s" "\<not> ht_report_flag_underflow s"
  shows "tx_sends uf s p hdlc_flag (s\<lparr>ht_flag_octets := ht_flag_octets s - 1\<rparr>) p"
proof -
  obtain x where x: "uint (ht_idle_octet s) = uint (x :: u8)" "bits_msb x @ p = p @ hdlc_flag"
    using tx_idle_octet_line [OF base] by blast
  have "hdlc_tx_get_byte uf s = Some (uint x, s\<lparr>ht_flag_octets := ht_flag_octets s - 1\<rparr>)"
    using base f x(1) by (simp add: hdlc_tx_get_byte_def tx_timed_flags_def tx_base_def Let_def)
  then show ?thesis
    using x(2) by (rule tx_sends_byte)
qed


section \<open>Properties\<close>

lemma tx_idle_hdlc_tx_init: "tx_idle [] (hdlc_tx_init crc32 flags progressive)"
proof -
  have "bits_msb 0x7E = hdlc_flag"
    by code_simp
  then have "\<exists>x :: u8. (0x7E :: u32) = ucast x \<and> bits_msb x = hdlc_flag"
    by (intro exI [of _ "0x7E"]) simp
  moreover have "take 8 hdlc_flag = hdlc_flag" and "drop 8 hdlc_flag = []"
    by (simp_all add: hdlc_flag_def)
  ultimately show ?thesis
    by (simp add: tx_idle_def tx_base_def hdlc_tx_init_def tx_crc_start_def)
qed

text \<open>
  Claim C9. A message accepted by \<^verbatim>\<open>hdlc_tx_frame\<close> leaves the HDLC transmitter as specified: the octets it
  produces, completed by fewer than eight bits still pending in its register, are the bit stuffed
  message and its CRC, least significant bit first, followed by a flag.
\<close>
theorem hdlc_tx_line:
  assumes "msg \<noteq> []" and "length msg \<le> HDLC_MAXFRAME_LEN"
  shows "\<exists>s os s' p. hdlc_tx_frame (hdlc_tx_init crc32 flags progressive) msg = Some (0, s) \<and>
    hdlc_tx_get None s (length os) = Some (os, s') \<and> length p < 8 \<and>
    stream_msb os @ p = stuff 0 (stream_lsb (hdlc_framed (if crc32 then 4 else 2) msg)) @ hdlc_flag"
proof -
  let ?s = "hdlc_tx_init crc32 flags progressive"
  have init: "ht_max_frame_len ?s = HDLC_MAXFRAME_LEN" "ht_flag_octets ?s = 0"
    "ht_crc_bytes ?s = (if crc32 then 4 else 2)"
    by (simp_all add: hdlc_tx_init_def)
  obtain buf where buf: "hdlc_tx_frame ?s msg = Some (0, ?s\<lparr>ht_buffer := buf,
      ht_crc := tx_crc_of (ht_crc_bytes ?s) msg, ht_len := length msg, ht_tx_end := False\<rparr>)"
    "tx_loaded [] msg (?s\<lparr>ht_buffer := buf,
      ht_crc := tx_crc_of (ht_crc_bytes ?s) msg, ht_len := length msg, ht_tx_end := False\<rparr>)"
    using hdlc_tx_frame_loads [OF tx_idle_hdlc_tx_init assms(1)] assms(2) init(1) by metis
  let ?t = "?s\<lparr>ht_buffer := buf, ht_crc := tx_crc_of (ht_crc_bytes ?s) msg, ht_len := length msg, ht_tx_end := False\<rparr>"
  have "ht_flag_octets ?t \<le> 0"
    by (simp add: init(2))
  from tx_frame_sent [OF buf(2) this, of None] obtain p' s' where
    "length p' < 8" "tx_sends None ?t [] (stuff 0 (stream_lsb (hdlc_framed (ht_crc_bytes ?t) msg)) @ hdlc_flag) s' p'"
    by (auto simp: tx_call_underflow_def tx_idle_def tx_base_def)
  then obtain os where "hdlc_tx_get None ?t (length os) = Some (os, s')"
    "stream_msb os @ p' = stuff 0 (stream_lsb (hdlc_framed (if crc32 then 4 else 2) msg)) @ hdlc_flag"
    by (auto simp: tx_sends_def init(3))
  with buf(1) \<open>length p' < 8\<close> show ?thesis by blast
qed

theorem hdlc_tx_line_witness:
  "\<exists>s os s' p. hdlc_tx_frame (hdlc_tx_init False 1 False) [255, 255, 3] = Some (0, s) \<and>
    hdlc_tx_get None s (length os) = Some (os, s') \<and> length p < 8 \<and>
    stream_msb os @ p = stuff 0 (stream_lsb (hdlc_framed (if False then 4 else 2) [255, 255, 3])) @ hdlc_flag"
  by (rule hdlc_tx_line) (simp_all add: HDLC_MAXFRAME_LEN_def)

end
