(* ===== verification/Hdlc_Rx.thy ===== *)
theory Hdlc_Rx
  imports Crc Bit_Ops Hdlc_Line Sig_Status "HOL-Library.Monad_Syntax"
begin

text \<open>
  The HDLC receiver of \<^verbatim>\<open>spandsp-0.0.6/src/hdlc.c\<close>: flag hunting, zero bit destuffing, octet
  assembly, the CRC check and the reports to the user. The calls of the frame and status handlers
  are recorded in order in the field \<open>hr_log\<close>; handlers that call back into the receiver are outside
  the model. An operation returns \<open>None\<close> where the C code would call a frame handler that is not set
  or access the frame buffer outside its 404 octets. The bit, flag and octet counters of C type
  \<^verbatim>\<open>int\<close> are unbounded integers here.
\<close>

section \<open>State\<close>

datatype hdlc_rx_event =
    Frame octets bool
  | Status int
  | Frame_Status int

record hdlc_rx_state =
  hr_crc_bytes :: nat
  hr_max_frame_len :: nat
  hr_frame_handler :: bool
  hr_status_handler :: bool
  hr_report_bad_frames :: bool
  hr_framing_ok_threshold :: int
  hr_framing_ok_announced :: bool
  hr_flags_seen :: int
  hr_raw_bit_stream :: u32
  hr_byte_in_progress :: u32
  hr_num_bits :: int
  hr_octet_counting_mode :: bool
  hr_octet_count :: int
  hr_octet_count_report_interval :: int
  hr_buffer :: octets
  hr_len :: nat
  hr_rx_bytes :: u64
  hr_rx_frames :: u64
  hr_rx_crc_errors :: u64
  hr_rx_length_errors :: u64
  hr_rx_aborts :: u64
  hr_log :: "hdlc_rx_event list"

section \<open>Operations\<close>

definition report_status_change :: "hdlc_rx_state \<Rightarrow> int \<Rightarrow> hdlc_rx_state" where
  "report_status_change s status =
     (if hr_status_handler s then s\<lparr>hr_log := hr_log s @ [Status status]\<rparr>
      else if hr_frame_handler s then s\<lparr>hr_log := hr_log s @ [Frame_Status status]\<rparr>
      else s)"

definition rx_special_condition :: "hdlc_rx_state \<Rightarrow> int \<Rightarrow> hdlc_rx_state" where
  "rx_special_condition s status =
     (if status = SIG_STATUS_CARRIER_UP \<or> status = SIG_STATUS_TRAINING_SUCCEEDED
      then report_status_change
        (s\<lparr>hr_raw_bit_stream := 0, hr_len := 0, hr_num_bits := 0, hr_flags_seen := 0,
           hr_framing_ok_announced := False\<rparr>) status
      else if status = SIG_STATUS_TRAINING_IN_PROGRESS \<or> status = SIG_STATUS_TRAINING_FAILED \<or>
        status = SIG_STATUS_CARRIER_DOWN \<or> status = SIG_STATUS_END_OF_DATA
      then report_status_change s status
      else s)"

definition count_down :: "hdlc_rx_state \<Rightarrow> hdlc_rx_state" where
  "count_down s =
     (let n = hr_octet_count s - 1
      in if n \<le> 0
         then report_status_change (s\<lparr>hr_octet_count := hr_octet_count_report_interval s\<rparr>)
           SIG_STATUS_OCTET_REPORT
         else s\<lparr>hr_octet_count := n\<rparr>)"

definition octet_set_and_count :: "hdlc_rx_state \<Rightarrow> hdlc_rx_state" where
  "octet_set_and_count s =
     (if hr_octet_count_report_interval s = 0 then s
      else if hr_octet_counting_mode s then count_down s
      else s\<lparr>hr_octet_counting_mode := True, hr_octet_count := hr_octet_count_report_interval s\<rparr>)"

definition octet_count :: "hdlc_rx_state \<Rightarrow> hdlc_rx_state" where
  "octet_count s =
     (if hr_octet_count_report_interval s = 0 then s
      else if hr_octet_counting_mode s then count_down s
      else s)"

definition call_frame_handler :: "hdlc_rx_state \<Rightarrow> bool \<Rightarrow> hdlc_rx_state option" where
  "call_frame_handler s ok =
     (if hr_frame_handler s
      then do {
        msg \<leftarrow> mem_read (hr_buffer s) 0 (int (hr_len s));
        Some (s\<lparr>hr_log := hr_log s @ [Frame msg ok]\<rparr>)
      }
      else None)"

definition rx_frame_end :: "hdlc_rx_state \<Rightarrow> hdlc_rx_state option" where
  "rx_frame_end s =
     (if hr_num_bits s = 7 \<and> hr_crc_bytes s \<le> hr_len s \<and> hr_len s \<le> hr_max_frame_len s
      then do {
        buf \<leftarrow> mem_read (hr_buffer s) 0 (int (hr_len s));
        if hr_crc_bytes s = 2 \<and> crc_itu16_check buf \<or> hr_crc_bytes s \<noteq> 2 \<and> crc_itu32_check buf
        then call_frame_handler
          (s\<lparr>hr_rx_frames := hr_rx_frames s + 1,
             hr_rx_bytes := hr_rx_bytes s + of_nat (hr_len s - hr_crc_bytes s),
             hr_len := hr_len s - hr_crc_bytes s\<rparr>) True
        else if hr_report_bad_frames s
        then call_frame_handler
          (s\<lparr>hr_rx_crc_errors := hr_rx_crc_errors s + 1, hr_len := hr_len s - hr_crc_bytes s\<rparr>) False
        else Some (s\<lparr>hr_rx_crc_errors := hr_rx_crc_errors s + 1\<rparr>)
      }
      else do {
        s \<leftarrow> (if hr_report_bad_frames s
          then call_frame_handler
            (s\<lparr>hr_len := (if hr_crc_bytes s \<le> hr_len s then hr_len s - hr_crc_bytes s else 0)\<rparr>) False
          else Some s);
        Some (s\<lparr>hr_rx_length_errors := hr_rx_length_errors s + 1\<rparr>)
      })"

definition flags_back_off :: "hdlc_rx_state \<Rightarrow> int" where
  "flags_back_off s =
     (if hr_flags_seen s < hr_framing_ok_threshold s - 1 then 0 else hr_framing_ok_threshold s - 1)"

definition rx_preamble_flag :: "hdlc_rx_state \<Rightarrow> hdlc_rx_state" where
  "rx_preamble_flag s =
     (let s = (if hr_num_bits s \<noteq> 7 then s\<lparr>hr_flags_seen := flags_back_off s\<rparr> else s);
          s = s\<lparr>hr_flags_seen := hr_flags_seen s + 1\<rparr>
      in if hr_flags_seen s \<ge> hr_framing_ok_threshold s \<and> \<not> hr_framing_ok_announced s
         then (report_status_change s SIG_STATUS_FRAMING_OK)\<lparr>hr_framing_ok_announced := True\<rparr>
         else s)"

definition rx_flag_or_abort :: "hdlc_rx_state \<Rightarrow> hdlc_rx_state option" where
  "rx_flag_or_abort s = do {
     s \<leftarrow> (if hr_raw_bit_stream s AND 0x8000 \<noteq> 0
       then
         let s = report_status_change (s\<lparr>hr_rx_aborts := hr_rx_aborts s + 1\<rparr>) SIG_STATUS_ABORT;
             s = s\<lparr>hr_flags_seen := flags_back_off s\<rparr>
         in Some (octet_set_and_count s)
       else
         let s = s\<lparr>hr_octet_counting_mode := False\<rparr>
         in if hr_flags_seen s \<ge> hr_framing_ok_threshold s
            then if hr_len s \<noteq> 0 then rx_frame_end s else Some s
            else Some (rx_preamble_flag s));
     Some (s\<lparr>hr_len := 0, hr_num_bits := 0\<rparr>)
   }"

definition rx_store_octet :: "hdlc_rx_state \<Rightarrow> hdlc_rx_state option" where
  "rx_store_octet s =
     (if hr_len s < hr_max_frame_len s
      then do {
        buf \<leftarrow> mem_write (hr_buffer s) (int (hr_len s)) [ucast (hr_byte_in_progress s)];
        Some (s\<lparr>hr_buffer := buf, hr_len := hr_len s + 1\<rparr>)
      }
      else Some (octet_set_and_count
        (s\<lparr>hr_len := length (hr_buffer s) + 1, hr_flags_seen := hr_framing_ok_threshold s - 1\<rparr>)))"

definition rx_collect_bit :: "hdlc_rx_state \<Rightarrow> hdlc_rx_state option" where
  "rx_collect_bit s =
     (let s = s\<lparr>hr_num_bits := hr_num_bits s + 1\<rparr>
      in if hr_flags_seen s < hr_framing_ok_threshold s
         then Some (if hr_num_bits s mod 8 = 0 then octet_count s else s)
         else
           let s = s\<lparr>hr_byte_in_progress :=
                 drop_bit 1 (hr_byte_in_progress s OR (hr_raw_bit_stream s AND 0x100))\<rparr>
           in if hr_num_bits s = 8
              then do { s \<leftarrow> rx_store_octet s; Some (s\<lparr>hr_num_bits := 0\<rparr>) }
              else Some s)"

definition hdlc_rx_put_bit_core :: "hdlc_rx_state \<Rightarrow> hdlc_rx_state option" where
  "hdlc_rx_put_bit_core s =
     (if hr_raw_bit_stream s AND 0x3F00 = 0x3E00
      then if hr_raw_bit_stream s AND 0x4000 \<noteq> 0 then rx_flag_or_abort s else Some s
      else rx_collect_bit s)"

definition hdlc_rx_put_bit :: "hdlc_rx_state \<Rightarrow> int \<Rightarrow> hdlc_rx_state option" where
  "hdlc_rx_put_bit s new_bit =
     (if new_bit < 0 then Some (rx_special_condition s new_bit)
      else hdlc_rx_put_bit_core
        (s\<lparr>hr_raw_bit_stream :=
             push_bit 1 (hr_raw_bit_stream s) OR (push_bit 8 (of_int new_bit) AND 0x100)\<rparr>))"

fun put_bits_core :: "nat \<Rightarrow> hdlc_rx_state \<Rightarrow> hdlc_rx_state option" where
  "put_bits_core 0 s = Some s"
| "put_bits_core (Suc n) s = do {
     s \<leftarrow> hdlc_rx_put_bit_core (s\<lparr>hr_raw_bit_stream := push_bit 1 (hr_raw_bit_stream s)\<rparr>);
     put_bits_core n s
   }"

definition hdlc_rx_put_byte :: "hdlc_rx_state \<Rightarrow> int \<Rightarrow> hdlc_rx_state option" where
  "hdlc_rx_put_byte s new_byte =
     (if new_byte < 0 then Some (rx_special_condition s new_byte)
      else put_bits_core 8
        (s\<lparr>hr_raw_bit_stream := hr_raw_bit_stream s OR of_int new_byte\<rparr>))"

fun hdlc_rx_put :: "hdlc_rx_state \<Rightarrow> octets \<Rightarrow> hdlc_rx_state option" where
  "hdlc_rx_put s [] = Some s"
| "hdlc_rx_put s (b # buf) = do { s \<leftarrow> hdlc_rx_put_byte s (uint b); hdlc_rx_put s buf }"

definition hdlc_rx_set_max_frame_len :: "hdlc_rx_state \<Rightarrow> u64 \<Rightarrow> hdlc_rx_state" where
  "hdlc_rx_set_max_frame_len s max_len =
     (let max_len = max_len + of_nat (hr_crc_bytes s)
      in s\<lparr>hr_max_frame_len :=
             (if unat max_len \<le> length (hr_buffer s) then unat max_len else length (hr_buffer s))\<rparr>)"

definition hdlc_rx_set_octet_counting_report_interval :: "hdlc_rx_state \<Rightarrow> int \<Rightarrow> hdlc_rx_state" where
  "hdlc_rx_set_octet_counting_report_interval s interval = s\<lparr>hr_octet_count_report_interval := interval\<rparr>"

definition hdlc_rx_init :: "bool \<Rightarrow> bool \<Rightarrow> int \<Rightarrow> bool \<Rightarrow> hdlc_rx_state" where
  "hdlc_rx_init crc32 report_bad framing_ok_threshold handler =
     \<lparr>hr_crc_bytes = (if crc32 then 4 else 2),
      hr_max_frame_len = HDLC_MAXFRAME_LEN + 4,
      hr_frame_handler = handler,
      hr_status_handler = False,
      hr_report_bad_frames = report_bad,
      hr_framing_ok_threshold = (if framing_ok_threshold < 1 then 1 else framing_ok_threshold),
      hr_framing_ok_announced = False,
      hr_flags_seen = 0,
      hr_raw_bit_stream = 0,
      hr_byte_in_progress = 0,
      hr_num_bits = 0,
      hr_octet_counting_mode = False,
      hr_octet_count = 0,
      hr_octet_count_report_interval = 0,
      hr_buffer = replicate (HDLC_MAXFRAME_LEN + 4) 0,
      hr_len = 0,
      hr_rx_bytes = 0, hr_rx_frames = 0, hr_rx_crc_errors = 0, hr_rx_length_errors = 0, hr_rx_aborts = 0,
      hr_log = []\<rparr>"

definition hdlc_rx_set_frame_handler :: "hdlc_rx_state \<Rightarrow> bool \<Rightarrow> hdlc_rx_state" where
  "hdlc_rx_set_frame_handler s handler = s\<lparr>hr_frame_handler := handler\<rparr>"

definition hdlc_rx_set_status_handler :: "hdlc_rx_state \<Rightarrow> bool \<Rightarrow> hdlc_rx_state" where
  "hdlc_rx_set_status_handler s handler = s\<lparr>hr_status_handler := handler\<rparr>"

record hdlc_rx_stats =
  hs_bytes :: u64
  hs_good_frames :: u64
  hs_crc_errors :: u64
  hs_length_errors :: u64
  hs_aborts :: u64

definition hdlc_rx_get_stats :: "hdlc_rx_state \<Rightarrow> hdlc_rx_stats" where
  "hdlc_rx_get_stats s =
     \<lparr>hs_bytes = hr_rx_bytes s, hs_good_frames = hr_rx_frames s, hs_crc_errors = hr_rx_crc_errors s,
      hs_length_errors = hr_rx_length_errors s, hs_aborts = hr_rx_aborts s\<rparr>"

section \<open>Memory safety\<close>

definition rx_ok :: "hdlc_rx_state \<Rightarrow> bool" where
  "rx_ok s \<longleftrightarrow> hr_frame_handler s \<and> hr_crc_bytes s \<in> {2, 4} \<and> 1 \<le> hr_framing_ok_threshold s \<and>
     length (hr_buffer s) = HDLC_MAXFRAME_LEN + 4 \<and> hr_max_frame_len s \<le> length (hr_buffer s) \<and>
     (hr_framing_ok_threshold s \<le> hr_flags_seen s \<longrightarrow> hr_len s \<le> length (hr_buffer s))"

lemma rx_ok_report [simp]: "rx_ok (report_status_change s st) = rx_ok s"
  by (simp add: rx_ok_def report_status_change_def)

lemma rx_ok_count_down [simp]: "rx_ok (count_down s) = rx_ok s"
  by (simp add: count_down_def Let_def) (simp add: rx_ok_def)

lemma rx_ok_octet_counts [simp]:
  "rx_ok (octet_set_and_count s) = rx_ok s" "rx_ok (octet_count s) = rx_ok s"
  by (simp_all add: octet_set_and_count_def octet_count_def) (simp_all add: rx_ok_def)

lemma rx_ok_call_frame_handler:
  assumes "rx_ok s" and "hr_len s \<le> length (hr_buffer s)"
  shows "\<exists>s'. call_frame_handler s ok = Some s' \<and> rx_ok s'"
  using assms by (simp add: call_frame_handler_def rx_ok_def)

lemma rx_ok_frame_end:
  assumes ok: "rx_ok s" and len: "hr_len s \<le> length (hr_buffer s)"
  shows "\<exists>s'. rx_frame_end s = Some s' \<and> rx_ok s'"
proof -
  have "rx_ok (s\<lparr>hr_rx_frames := a, hr_rx_bytes := b, hr_len := n\<rparr>)" "rx_ok (s\<lparr>hr_rx_crc_errors := c, hr_len := n\<rparr>)"
    "rx_ok (s\<lparr>hr_len := n\<rparr>)" "rx_ok (s\<lparr>hr_rx_crc_errors := c\<rparr>)" if "n \<le> length (hr_buffer s)" for a b c n
    using ok that by (auto simp: rx_ok_def)
  note upd = this
  have errs: "rx_ok (t\<lparr>hr_rx_length_errors := e\<rparr>) = rx_ok t" for t e
    by (simp add: rx_ok_def)
  let ?n = "if hr_crc_bytes s \<le> hr_len s then hr_len s - hr_crc_bytes s else 0"
  have short: "\<exists>t. call_frame_handler (s\<lparr>hr_len := ?n\<rparr>) False = Some t \<and> rx_ok t"
    by (rule rx_ok_call_frame_handler [OF upd(3) [of ?n]]) (use len in auto)
  have good: "\<exists>t. call_frame_handler (s\<lparr>hr_rx_frames := a, hr_rx_bytes := b, hr_len := hr_len s - hr_crc_bytes s\<rparr>) True =
      Some t \<and> rx_ok t" for a b
    by (rule rx_ok_call_frame_handler [OF upd(1) [of "hr_len s - hr_crc_bytes s"]]) (use len in auto)
  have bad: "\<exists>t. call_frame_handler (s\<lparr>hr_rx_crc_errors := c, hr_len := hr_len s - hr_crc_bytes s\<rparr>) False =
      Some t \<and> rx_ok t" for c
    by (rule rx_ok_call_frame_handler [OF upd(2) [of "hr_len s - hr_crc_bytes s"]]) (use len in auto)
  show ?thesis
  proof (cases "hr_num_bits s = 7 \<and> hr_crc_bytes s \<le> hr_len s \<and> hr_len s \<le> hr_max_frame_len s")
    case True
    then show ?thesis
      unfolding rx_frame_end_def using good bad upd(4) [of 0] len by (simp add: len)
  next
    case False
    then have "rx_frame_end s = do {
        s \<leftarrow> (if hr_report_bad_frames s then call_frame_handler (s\<lparr>hr_len := ?n\<rparr>) False else Some s);
        Some (s\<lparr>hr_rx_length_errors := hr_rx_length_errors s + 1\<rparr>) }"
      unfolding rx_frame_end_def by (simp only: if_False)
    with short ok errs show ?thesis by auto
  qed
qed

lemma rx_ok_preamble_flag: "rx_ok s \<Longrightarrow> rx_ok (rx_preamble_flag s\<lparr>hr_len := 0, hr_num_bits := 0\<rparr>)"
  by (auto simp: rx_preamble_flag_def flags_back_off_def report_status_change_def rx_ok_def Let_def)

lemma rx_ok_new_frame: "rx_ok s \<Longrightarrow> rx_ok (s\<lparr>hr_len := 0, hr_num_bits := n\<rparr>)"
  by (simp add: rx_ok_def)

lemma rx_ok_back_off: "rx_ok s \<Longrightarrow> rx_ok (s\<lparr>hr_flags_seen := flags_back_off s\<rparr>)"
  by (auto simp: rx_ok_def flags_back_off_def)

lemma rx_ok_flag_or_abort:
  assumes "rx_ok s"
  shows "\<exists>s'. rx_flag_or_abort s = Some s' \<and> rx_ok s'"
proof -
  have "rx_ok (s\<lparr>hr_rx_aborts := n\<rparr>)" "rx_ok (s\<lparr>hr_octet_counting_mode := m\<rparr>)" for n m
    using assms by (auto simp: rx_ok_def)
  moreover have "\<exists>s'. rx_frame_end (s\<lparr>hr_octet_counting_mode := False\<rparr>) = Some s' \<and> rx_ok s'"
    if "hr_framing_ok_threshold s \<le> hr_flags_seen s"
    using rx_ok_frame_end [OF calculation(2)] assms that by (simp add: rx_ok_def)
  ultimately show ?thesis
    using rx_ok_preamble_flag [of "s\<lparr>hr_octet_counting_mode := False\<rparr>"]
    by (auto simp: rx_flag_or_abort_def Let_def intro!: rx_ok_new_frame rx_ok_back_off)
qed

lemma rx_ok_store_octet:
  assumes "rx_ok s" and "hr_framing_ok_threshold s \<le> hr_flags_seen s"
  shows "\<exists>s'. rx_store_octet s = Some s' \<and> rx_ok s'"
  using assms by (auto simp: rx_store_octet_def) (auto simp: rx_ok_def)

lemma rx_ok_collect_bit:
  assumes "rx_ok s"
  shows "\<exists>s'. rx_collect_bit s = Some s' \<and> rx_ok s'"
proof -
  have u: "rx_ok (t\<lparr>hr_num_bits := n\<rparr>) = rx_ok t" "rx_ok (t\<lparr>hr_byte_in_progress := w\<rparr>) = rx_ok t" for t n w
    by (simp_all add: rx_ok_def)
  have "\<exists>s'. rx_store_octet (s\<lparr>hr_num_bits := n, hr_byte_in_progress := w\<rparr>) = Some s' \<and> rx_ok s'"
    if "hr_framing_ok_threshold s \<le> hr_flags_seen s" for n w
    by (rule rx_ok_store_octet) (use assms that in \<open>simp_all add: u\<close>)
  note this [where n = 8 and w = "drop_bit 1 (hr_byte_in_progress s OR (hr_raw_bit_stream s AND 0x100))"]
  then show ?thesis
    using assms by (auto simp: rx_collect_bit_def Let_def u not_less)
qed

lemma rx_ok_put_bit_core: "rx_ok s \<Longrightarrow> \<exists>s'. hdlc_rx_put_bit_core s = Some s' \<and> rx_ok s'"
  using rx_ok_flag_or_abort rx_ok_collect_bit by (simp add: hdlc_rx_put_bit_core_def)

lemma rx_ok_raw [simp]: "rx_ok (s\<lparr>hr_raw_bit_stream := w\<rparr>) = rx_ok s"
  by (simp add: rx_ok_def)

lemma rx_ok_special: "rx_ok s \<Longrightarrow> rx_ok (rx_special_condition s st)"
  by (simp add: rx_special_condition_def) (simp add: rx_ok_def)

lemma rx_ok_put_bit: "rx_ok s \<Longrightarrow> \<exists>s'. hdlc_rx_put_bit s x = Some s' \<and> rx_ok s'"
  using rx_ok_put_bit_core [of "s\<lparr>hr_raw_bit_stream := w\<rparr>" for w] rx_ok_special
  by (simp add: hdlc_rx_put_bit_def)

lemma rx_ok_put_bits_core: "rx_ok s \<Longrightarrow> \<exists>s'. put_bits_core n s = Some s' \<and> rx_ok s'"
proof (induction n arbitrary: s)
  case (Suc n)
  then obtain u where "hdlc_rx_put_bit_core (s\<lparr>hr_raw_bit_stream := push_bit 1 (hr_raw_bit_stream s)\<rparr>) = Some u" "rx_ok u"
    using rx_ok_put_bit_core rx_ok_raw by blast
  with Suc.IH show ?case by simp
qed simp

lemma rx_ok_put_byte: "rx_ok s \<Longrightarrow> \<exists>s'. hdlc_rx_put_byte s x = Some s' \<and> rx_ok s'"
  using rx_ok_put_bits_core [of "s\<lparr>hr_raw_bit_stream := w\<rparr>" 8 for w] rx_ok_special
  by (simp add: hdlc_rx_put_byte_def)

lemma rx_ok_put: "rx_ok s \<Longrightarrow> \<exists>s'. hdlc_rx_put s buf = Some s' \<and> rx_ok s'"
proof (induction buf arbitrary: s)
  case (Cons b buf)
  from rx_ok_put_byte [OF Cons.prems] obtain u where "hdlc_rx_put_byte s (uint b) = Some u" "rx_ok u"
    by blast
  with Cons.IH [of u] show ?case by simp
qed simp

lemma rx_ok_init: "rx_ok (hdlc_rx_init crc32 bad thr True)"
  by (simp add: rx_ok_def hdlc_rx_init_def)

lemma rx_ok_setters:
  "rx_ok s \<Longrightarrow> rx_ok (hdlc_rx_set_max_frame_len s n)"
  "rx_ok s \<Longrightarrow> rx_ok (hdlc_rx_set_octet_counting_report_interval s i)"
  "rx_ok s \<Longrightarrow> rx_ok (hdlc_rx_set_status_handler s h)"
  by (auto simp: rx_ok_def hdlc_rx_set_max_frame_len_def hdlc_rx_set_octet_counting_report_interval_def
      hdlc_rx_set_status_handler_def Let_def)

datatype hdlc_rx_call =
    Put_bit int
  | Put_byte int
  | Put octets
  | Set_max_frame_len u64
  | Set_octet_counting_report_interval int
  | Set_status_handler bool

fun rx_call :: "hdlc_rx_call \<Rightarrow> hdlc_rx_state \<Rightarrow> hdlc_rx_state option" where
  "rx_call (Put_bit b) s = hdlc_rx_put_bit s b"
| "rx_call (Put_byte b) s = hdlc_rx_put_byte s b"
| "rx_call (Put buf) s = hdlc_rx_put s buf"
| "rx_call (Set_max_frame_len n) s = Some (hdlc_rx_set_max_frame_len s n)"
| "rx_call (Set_octet_counting_report_interval i) s = Some (hdlc_rx_set_octet_counting_report_interval s i)"
| "rx_call (Set_status_handler h) s = Some (hdlc_rx_set_status_handler s h)"

fun rx_calls :: "hdlc_rx_call list \<Rightarrow> hdlc_rx_state \<Rightarrow> hdlc_rx_state option" where
  "rx_calls [] s = Some s"
| "rx_calls (c # cs) s = do { s \<leftarrow> rx_call c s; rx_calls cs s }"

lemma rx_ok_call: "rx_ok s \<Longrightarrow> \<exists>s'. rx_call c s = Some s' \<and> rx_ok s'"
  by (cases c) (simp_all add: rx_ok_put_bit rx_ok_put_byte rx_ok_put rx_ok_setters)

lemma rx_ok_calls: "rx_ok s \<Longrightarrow> \<exists>s'. rx_calls cs s = Some s' \<and> rx_ok s'"
proof (induction cs arbitrary: s)
  case (Cons c cs)
  from rx_ok_call [OF Cons.prems] obtain u where "rx_call c s = Some u" "rx_ok u"
    by blast
  with Cons.IH [of u] show ?case by simp
qed simp


section \<open>Properties\<close>

text \<open>
  Claim C12. The HDLC receiver stays inside its frame buffer. From a fresh receiver with a frame handler,
  every sequence of calls, with arbitrary bits, octets and special conditions and with the frame
  length limit changed at any moment, runs without an access outside the 404 octets.
\<close>
theorem hdlc_rx_memory_safe:
  "\<exists>s'. rx_calls cs (hdlc_rx_init crc32 report_bad threshold True) = Some s' \<and> rx_ok s'"
  using rx_ok_init by (rule rx_ok_calls)

end
