(* ===== verification/Hdlc_Deframe.thy ===== *)
theory Hdlc_Deframe
  imports Hdlc_Rx
begin

text \<open>
  What the HDLC receiver makes of the line. The register of the last bits is related to the run of
  ones at the end of the line, the octet assembly to the destuffed bits since the last flag. From
  this follow the effect of a frame between two flags, of flags in a row while hunting, and the
  equality of the octet and the bit interface.
\<close>

section \<open>The raw bit stream\<close>

lemma mask_bits:
  "(w AND 0x100 \<noteq> 0) = bit (w :: u32) 8" "(w AND 0x4000 \<noteq> 0) = bit (w :: u32) 14"
  "(w AND 0x8000 \<noteq> 0) = bit (w :: u32) 15"
  using and_exp_eq_0_iff_not_bit [of w 8] and_exp_eq_0_iff_not_bit [of w 14]
    and_exp_eq_0_iff_not_bit [of w 15]
  by simp_all

lemma mask_stuffed:
  "(w AND 0x3F00 = 0x3E00) \<longleftrightarrow> \<not> bit (w :: u32) 8 \<and> bit w 9 \<and> bit w 10 \<and> bit w 11 \<and> bit w 12 \<and> bit w 13"
  (is "?l \<longleftrightarrow> ?r")
proof -
  have "?l \<longleftrightarrow> (\<forall>i\<in>set [0..<32]. bit (w AND 0x3F00) i = bit (0x3E00 :: u32) i)"
    by (auto intro: bit_word_eqI)
  also have "\<dots> \<longleftrightarrow> ?r"
    unfolding all_indices by (simp add: bit_and_iff)
  finally show ?thesis .
qed

definition rx_run :: "nat \<Rightarrow> hdlc_rx_state \<Rightarrow> bool" where
  "rx_run r s \<longleftrightarrow> (\<exists>h. hr_raw_bit_stream s = push_bit 8 (shift_word h) \<and> ones_run h = r)"

definition rx_shift :: "bool \<Rightarrow> hdlc_rx_state \<Rightarrow> hdlc_rx_state" where
  "rx_shift b s = s\<lparr>hr_raw_bit_stream :=
     push_bit 1 (hr_raw_bit_stream s) OR (push_bit 8 (of_bool b) AND 0x100)\<rparr>"

lemma mask_100: "(push_bit 8 (of_bool b) AND 0x100 :: u32) = push_bit 8 (of_bool b)"
  by (cases b) simp_all

lemma push_bit_twice: "push_bit m (push_bit n (w :: 'a::len word)) = push_bit (m + n) w"
  by (rule bit_word_eqI) (auto simp: bit_simps)

lemma shifted_raw:
  "push_bit 1 (push_bit 8 (shift_word h)) OR push_bit 8 (of_bool b) = push_bit 8 (shift_word (h @ [b]))"
  unfolding shift_word_snoc push_bit_or push_bit_twice by (simp add: add.commute)

lemma rx_run_shift_word:
  assumes "rx_run r s"
  obtains h where "hr_raw_bit_stream (rx_shift b s) = push_bit 8 (shift_word (h @ [b]))" and "ones_run h = r"
proof -
  from assms obtain h where h: "hr_raw_bit_stream s = push_bit 8 (shift_word h)" "ones_run h = r"
    unfolding rx_run_def by blast
  have "hr_raw_bit_stream (rx_shift b s) = push_bit 8 (shift_word (h @ [b]))"
    unfolding shifted_raw [symmetric] h(1) [symmetric] rx_shift_def mask_100 by simp
  with h(2) that show thesis by blast
qed

lemma rx_run_shift:
  assumes "rx_run r s"
  shows "rx_run (if b then Suc r else 0) (rx_shift b s)"
proof -
  obtain h where "hr_raw_bit_stream (rx_shift b s) = push_bit 8 (shift_word (h @ [b]))" "ones_run h = r"
    using rx_run_shift_word [OF assms] by blast
  then show ?thesis
    unfolding rx_run_def by (intro exI [of _ "h @ [b]"]) simp
qed

lemma rx_shift_new_bit: "rx_run r s \<Longrightarrow> bit (hr_raw_bit_stream (rx_shift b s)) 8 = b"
  by (erule rx_run_shift_word [where b = b]) (simp add: bit_push_bit_iff bit_shift_word)

lemma rx_shift_zero_bits:
  assumes "rx_run r s" and "i \<le> r" and "i < 23"
  shows "bit (hr_raw_bit_stream (rx_shift False s)) (9 + i) \<longleftrightarrow> i < r"
proof -
  obtain h where h: "hr_raw_bit_stream (rx_shift False s) = push_bit 8 (shift_word (h @ [False]))" "ones_run h = r"
    using rx_run_shift_word [OF assms(1)] by blast
  have "bit (shift_word (h @ [False])) (Suc i) = bit (shift_word h) i"
    using assms(3) by (simp add: bit_shift_word)
  with h shift_word_run [OF h(2) assms(2)] assms(3) show ?thesis
    by (simp add: bit_push_bit_iff)
qed

lemma put_bit_bool: "hdlc_rx_put_bit s (of_bool b) = hdlc_rx_put_bit_core (rx_shift b s)"
  by (simp add: hdlc_rx_put_bit_def rx_shift_def)

lemma put_bit_one: "rx_run r s \<Longrightarrow> hdlc_rx_put_bit s (of_bool True) = rx_collect_bit (rx_shift True s)"
  using rx_shift_new_bit [of r s True]
  by (simp only: put_bit_bool hdlc_rx_put_bit_core_def mask_stuffed) simp

lemma put_bit_zero_data:
  "rx_run r s \<Longrightarrow> r < 5 \<Longrightarrow> hdlc_rx_put_bit s (of_bool False) = rx_collect_bit (rx_shift False s)"
  using rx_shift_zero_bits [of r s r]
  by (simp only: put_bit_bool hdlc_rx_put_bit_core_def mask_stuffed)
    (auto simp: numeral_eq_Suc less_Suc_eq)

lemma rx_shift_ones_before:
  assumes "rx_run r s" and "5 \<le> r"
  shows "hr_raw_bit_stream (rx_shift False s) AND 0x3F00 = 0x3E00"
proof -
  have "bit (hr_raw_bit_stream (rx_shift False s)) (9 + i)" if "i < 5" for i
    using rx_shift_zero_bits [OF assms(1), of i] assms(2) that by simp
  from this [of 0] this [of 1] this [of 2] this [of 3] this [of 4] show ?thesis
    using rx_shift_new_bit [OF assms(1), of False] by (simp add: mask_stuffed)
qed

lemma put_bit_zero_stuffed:
  assumes "rx_run 5 s"
  shows "hdlc_rx_put_bit s (of_bool False) = Some (rx_shift False s)"
  using rx_shift_zero_bits [OF assms, of 5] rx_shift_ones_before [OF assms]
  by (simp only: put_bit_bool hdlc_rx_put_bit_core_def mask_bits) simp

lemma put_bit_zero_flag:
  assumes "rx_run r s" and "6 \<le> r"
  shows "hdlc_rx_put_bit s (of_bool False) = rx_flag_or_abort (rx_shift False s)"
    and "bit (hr_raw_bit_stream (rx_shift False s)) 15 \<longleftrightarrow> r \<noteq> 6"
proof -
  show "hdlc_rx_put_bit s (of_bool False) = rx_flag_or_abort (rx_shift False s)"
    using rx_shift_zero_bits [OF assms(1), of 5] rx_shift_ones_before [OF assms(1)] assms(2)
    by (simp only: put_bit_bool hdlc_rx_put_bit_core_def mask_bits) simp
  show "bit (hr_raw_bit_stream (rx_shift False s)) 15 \<longleftrightarrow> r \<noteq> 6"
    using rx_shift_zero_bits [OF assms(1), of 6] assms(2) by auto
qed

section \<open>Collecting the octets of a frame\<close>

text \<open>Two states that differ only in the frame under construction.\<close>

definition rx_same :: "hdlc_rx_state \<Rightarrow> hdlc_rx_state \<Rightarrow> bool" where
  "rx_same s s' \<longleftrightarrow>
     hr_crc_bytes s' = hr_crc_bytes s \<and>
     hr_max_frame_len s' = hr_max_frame_len s \<and>
     hr_frame_handler s' = hr_frame_handler s \<and>
     hr_status_handler s' = hr_status_handler s \<and>
     hr_report_bad_frames s' = hr_report_bad_frames s \<and>
     hr_framing_ok_threshold s' = hr_framing_ok_threshold s \<and>
     hr_framing_ok_announced s' = hr_framing_ok_announced s \<and>
     hr_flags_seen s' = hr_flags_seen s \<and>
     hr_rx_bytes s' = hr_rx_bytes s \<and>
     hr_rx_frames s' = hr_rx_frames s \<and>
     hr_rx_crc_errors s' = hr_rx_crc_errors s \<and>
     hr_rx_length_errors s' = hr_rx_length_errors s \<and>
     hr_rx_aborts s' = hr_rx_aborts s \<and>
     hr_log s' = hr_log s \<and>
     hr_octet_counting_mode s' = hr_octet_counting_mode s \<and>
     hr_octet_count s' = hr_octet_count s \<and>
     hr_octet_count_report_interval s' = hr_octet_count_report_interval s \<and>
     length (hr_buffer s') = length (hr_buffer s)"

lemma rx_sameD:
  assumes "rx_same s s'"
  shows "hr_crc_bytes s' = hr_crc_bytes s"
    "hr_max_frame_len s' = hr_max_frame_len s"
    "hr_frame_handler s' = hr_frame_handler s"
    "hr_status_handler s' = hr_status_handler s"
    "hr_report_bad_frames s' = hr_report_bad_frames s"
    "hr_framing_ok_threshold s' = hr_framing_ok_threshold s"
    "hr_framing_ok_announced s' = hr_framing_ok_announced s"
    "hr_flags_seen s' = hr_flags_seen s"
    "hr_rx_bytes s' = hr_rx_bytes s"
    "hr_rx_frames s' = hr_rx_frames s"
    "hr_rx_crc_errors s' = hr_rx_crc_errors s"
    "hr_rx_length_errors s' = hr_rx_length_errors s"
    "hr_rx_aborts s' = hr_rx_aborts s"
    "hr_log s' = hr_log s"
    "hr_octet_counting_mode s' = hr_octet_counting_mode s"
    "hr_octet_count s' = hr_octet_count s"
    "hr_octet_count_report_interval s' = hr_octet_count_report_interval s"
    "length (hr_buffer s') = length (hr_buffer s)"
  using assms by (simp_all add: rx_same_def)

lemma rx_same_refl [simp]: "rx_same s s"
  by (simp add: rx_same_def)

lemma rx_same_trans: "rx_same s s' \<Longrightarrow> rx_same s' s'' \<Longrightarrow> rx_same s s''"
  by (simp add: rx_same_def)

lemma rx_same_shift [simp]: "rx_same s (rx_shift b s)"
  by (simp add: rx_same_def rx_shift_def)

definition rx_data :: "bits \<Rightarrow> hdlc_rx_state \<Rightarrow> bool" where
  "rx_data D s \<longleftrightarrow> hr_flags_seen s \<ge> hr_framing_ok_threshold s \<and>
     hr_max_frame_len s \<le> length (hr_buffer s) \<and>
     hr_len s = length D div 8 \<and> hr_num_bits s = int (length D mod 8) \<and>
     hr_len s \<le> hr_max_frame_len s \<and>
     stream_lsb (take (hr_len s) (hr_buffer s)) = take (8 * (length D div 8)) D \<and>
     (\<forall>i < length D mod 8. bit (hr_byte_in_progress s) (8 - length D mod 8 + i) = D ! (8 * (length D div 8) + i)) \<and>
     (\<forall>i \<ge> 8. \<not> bit (hr_byte_in_progress s) i)"

lemma rx_data_shift [simp]: "rx_data D (rx_shift b s) = rx_data D s"
  by (simp add: rx_data_def rx_shift_def)

lemma bit_next_byte:
  assumes "\<forall>i \<ge> 8. \<not> bit (w :: u32) i"
  shows "bit (drop_bit 1 (w OR (raw AND 0x100))) i \<longleftrightarrow> (if i = 7 then bit raw 8 else bit w (Suc i))"
proof -
  have "(0x100 :: u32) = 2 ^ 8"
    by simp
  then have "bit (0x100 :: u32) (Suc i) \<longleftrightarrow> i = 7"
    by (auto simp only: bit_exp_iff) simp_all
  then show ?thesis
    using assms by (auto simp: bit_drop_bit_eq bit_or_iff bit_and_iff)
qed

lemma mod_8_cases: "Suc n mod 8 = (if n mod 8 = 7 then 0 else Suc (n mod 8))"
  "Suc n div 8 = (if n mod 8 = 7 then Suc (n div 8) else n div 8)"
  by (auto simp: mod_Suc div_Suc)

lemma collect_part:
  assumes d: "rx_data D s" and n: "length D mod 8 \<noteq> 7"
  shows "\<exists>s'. rx_collect_bit s = Some s' \<and> rx_data (D @ [bit (hr_raw_bit_stream s) 8]) s' \<and> rx_same s s' \<and>
    hr_raw_bit_stream s' = hr_raw_bit_stream s"
proof -
  define w where w_def: "w = drop_bit 1 (hr_byte_in_progress s OR (hr_raw_bit_stream s AND 0x100))"
  let ?b = "bit (hr_raw_bit_stream s) 8" and ?n = "length D mod 8" and ?q = "length D div 8"
  let ?s' = "s\<lparr>hr_num_bits := hr_num_bits s + 1, hr_byte_in_progress := w\<rparr>"
  have hi: "\<forall>i \<ge> 8. \<not> bit (hr_byte_in_progress s) i"
    using d by (simp add: rx_data_def)
  note w = bit_next_byte [OF hi, of "hr_raw_bit_stream s", folded w_def]
  have n7: "?n < 7"
    using n mod_less_divisor [of 8 "length D"] by linarith
  have len: "length D = 8 * ?q + ?n"
    by simp
  have "rx_collect_bit s = Some ?s'"
    using d n7 by (simp add: rx_collect_bit_def rx_data_def Let_def w_def)
  moreover have "bit w (7 - ?n + i) = (D @ [?b]) ! (8 * ?q + i)" if "i < Suc ?n" for i
  proof (cases "i = ?n")
    case True
    have "(D @ [?b]) ! (8 * ?q + ?n) = ?b"
      by (metis len nth_append_length)
    with True n7 show ?thesis by (simp add: w)
  next
    case False
    with that have i: "i < ?n" by simp
    then have "bit (hr_byte_in_progress s) (8 - ?n + i) = D ! (8 * ?q + i)"
      using d by (simp add: rx_data_def)
    moreover have "Suc (7 - ?n + i) = 8 - ?n + i" and "7 - ?n + i \<noteq> 7"
      using n7 i by linarith+
    moreover have "8 * ?q + i < length D"
      using i len by linarith
    ultimately show ?thesis
      by (simp add: w nth_append)
  qed
  moreover have "\<forall>i\<ge>8. \<not> bit w i"
    using hi by (simp add: w)
  ultimately show ?thesis
    using d n7 by (intro exI [of _ ?s']) (auto simp: rx_data_def rx_same_def mod_8_cases)
qed

lemma collect_octet:
  assumes d: "rx_data D s" and n: "length D mod 8 = 7" and room: "length D div 8 < hr_max_frame_len s"
  shows "\<exists>s'. rx_collect_bit s = Some s' \<and> rx_data (D @ [bit (hr_raw_bit_stream s) 8]) s' \<and> rx_same s s' \<and>
    hr_raw_bit_stream s' = hr_raw_bit_stream s"
proof -
  define w where w_def: "w = drop_bit 1 (hr_byte_in_progress s OR (hr_raw_bit_stream s AND 0x100))"
  let ?b = "bit (hr_raw_bit_stream s) 8" and ?q = "length D div 8"
  let ?buf = "take ?q (hr_buffer s) @ [ucast w] @ drop (Suc ?q) (hr_buffer s)"
  let ?s' = "s\<lparr>hr_num_bits := 0, hr_byte_in_progress := w, hr_buffer := ?buf, hr_len := Suc ?q\<rparr>"
  have hi: "\<forall>i \<ge> 8. \<not> bit (hr_byte_in_progress s) i" and max: "hr_max_frame_len s \<le> length (hr_buffer s)"
    and pre: "stream_lsb (take ?q (hr_buffer s)) = take (8 * ?q) D"
    using d by (auto simp: rx_data_def)
  note w = bit_next_byte [OF hi, of "hr_raw_bit_stream s", folded w_def]
  have len: "length D = 8 * ?q + 7"
    using n by presburger
  have len7: "length D - 8 * ?q = 7"
    using len by linarith
  have lb: "?q < length (hr_buffer s)"
    using room max by simp
  have "rx_collect_bit s = Some ?s'"
    using d n room max by (simp add: rx_collect_bit_def rx_store_octet_def rx_data_def Let_def w_def)
  moreover have "bits_lsb (ucast w) = drop (8 * ?q) D @ [?b]"
  proof (rule nth_equalityI)
    fix i assume "i < length (bits_lsb (ucast w))"
    then have i: "i < 8" by simp
    have "bit w i = (drop (8 * ?q) D @ [?b]) ! i"
    proof (cases "i = 7")
      case True
      with len7 show ?thesis by (simp add: w nth_append)
    next
      case False
      with i have "i < 7" by simp
      then have "bit (hr_byte_in_progress s) (Suc i) = D ! (8 * ?q + i)"
        using d n by (auto simp: rx_data_def)
      moreover have "8 * ?q \<le> length D" by simp
      ultimately show ?thesis using False \<open>i < 7\<close> len7 by (simp add: w nth_append)
    qed
    then show "bits_lsb (ucast w) ! i = (drop (8 * ?q) D @ [?b]) ! i"
      using i by (simp add: bits_lsb_nth bit_simps)
  qed (simp add: len7)
  then have "stream_lsb (take (Suc ?q) ?buf) = D @ [?b]"
    using lb pre by (simp add: min_def)
  moreover have "take (8 * Suc ?q) (D @ [?b]) = D @ [?b]"
    by (rule take_all) (use len in simp)
  moreover have "\<forall>i\<ge>8. \<not> bit w i"
    using hi by (simp add: w)
  moreover have "Suc (length (hr_buffer s) - Suc 0) = length (hr_buffer s)"
    using lb by simp
  ultimately show ?thesis
    using d n room max lb
    by (intro exI [of _ ?s']) (simp add: rx_data_def rx_same_def mod_8_cases)
qed

lemma collect_data:
  assumes "rx_data D s" and "Suc (length D) div 8 \<le> hr_max_frame_len s"
  shows "\<exists>s'. rx_collect_bit s = Some s' \<and> rx_data (D @ [bit (hr_raw_bit_stream s) 8]) s' \<and> rx_same s s' \<and>
    hr_raw_bit_stream s' = hr_raw_bit_stream s"
  using collect_part [OF assms(1)] collect_octet [OF assms(1)] assms(2)
  by (cases "length D mod 8 = 7") (auto simp: mod_8_cases)

section \<open>Feeding bits\<close>

fun rx_bits :: "hdlc_rx_state \<Rightarrow> bits \<Rightarrow> hdlc_rx_state option" where
  "rx_bits s [] = Some s"
| "rx_bits s (b # bs) = do { s \<leftarrow> hdlc_rx_put_bit s (of_bool b); rx_bits s bs }"

lemma rx_bits_append: "rx_bits s (xs @ ys) = do { s \<leftarrow> rx_bits s xs; rx_bits s ys }"
  by (induction s xs rule: rx_bits.induct) (auto split: bind_splits)

lemma collect_run:
  assumes "rx_collect_bit s = Some s'" and "hr_raw_bit_stream s' = hr_raw_bit_stream s" and "rx_run r s"
  shows "rx_run r s'"
  using assms by (simp add: rx_run_def)

lemma put_data_bit:
  assumes d: "rx_data D s" and run: "rx_run r s" and b: "b \<or> r < 5"
    and room: "Suc (length D) div 8 \<le> hr_max_frame_len s"
  shows "\<exists>s'. hdlc_rx_put_bit s (of_bool b) = Some s' \<and> rx_data (D @ [b]) s' \<and> rx_same s s' \<and>
    rx_run (if b then Suc r else 0) s'"
proof -
  let ?s1 = "rx_shift b s"
  have put: "hdlc_rx_put_bit s (of_bool b) = rx_collect_bit ?s1"
    using b put_bit_one [OF run] put_bit_zero_data [OF run] by (cases b) simp_all
  have "Suc (length D) div 8 \<le> hr_max_frame_len ?s1"
    using room by (simp add: rx_shift_def)
  from collect_data [OF _ this] d obtain s' where s': "rx_collect_bit ?s1 = Some s'"
    "rx_data (D @ [b]) s'" "rx_same ?s1 s'" "hr_raw_bit_stream s' = hr_raw_bit_stream ?s1"
    by (auto simp: rx_shift_new_bit [OF run])
  with put rx_run_shift [OF run, of b] show ?thesis
    by (auto intro: rx_same_trans [OF rx_same_shift] simp: rx_run_def)
qed

lemma div_8_mono: "length xs \<le> n \<Longrightarrow> n div 8 \<le> m \<Longrightarrow> length xs div 8 \<le> m"
  by (meson div_le_mono le_trans)

lemma rx_stuffed:
  assumes "rx_data D s" and "rx_run r s" and "r < 5"
    and "(length D + length bs) div 8 \<le> hr_max_frame_len s"
  shows "\<exists>s'. rx_bits s (stuff r bs) = Some s' \<and> rx_data (D @ bs) s' \<and> rx_same s s' \<and>
    rx_run (run_after r bs) s'"
  using assms
proof (induction r bs arbitrary: s D rule: stuff.induct)
  case (1 r)
  then show ?case by auto
next
  case (2 r bs)
  have "Suc (length D) div 8 \<le> hr_max_frame_len s"
    using 2(5) div_le_mono [of "Suc (length D)" "length D + length (False # bs)" 8] by simp
  from put_data_bit [OF 2(2,3) _ this, of False] 2(4) obtain s1 where s1:
    "hdlc_rx_put_bit s (of_bool False) = Some s1" "rx_data (D @ [False]) s1" "rx_same s s1" "rx_run 0 s1"
    by auto
  from 2(1) [OF s1(2,4)] 2(5) rx_sameD(2) [OF s1(3)] obtain s' where
    "rx_bits s1 (stuff 0 bs) = Some s'" "rx_data (D @ False # bs) s'" "rx_same s1 s'" "rx_run (run_after 0 bs) s'"
    by auto
  with s1 show ?case
    by (auto intro: rx_same_trans)
next
  case (3 r bs)
  have "Suc (length D) div 8 \<le> hr_max_frame_len s"
    using 3(6) div_le_mono [of "Suc (length D)" "length D + length (True # bs)" 8] by simp
  from put_data_bit [OF 3(3,4) _ this, of True] obtain s1 where s1:
    "hdlc_rx_put_bit s (of_bool True) = Some s1" "rx_data (D @ [True]) s1" "rx_same s s1" "rx_run (Suc r) s1"
    by auto
  show ?case
  proof (cases "r = 4")
    case True
    with s1(4) have run5: "rx_run 5 s1" by simp
    let ?s2 = "rx_shift False s1"
    have "hr_max_frame_len ?s2 = hr_max_frame_len s"
      using rx_sameD(2) [OF s1(3)] by (simp add: rx_shift_def)
    with 3(1) [OF True, of "D @ [True]" ?s2] s1(2) rx_run_shift [OF run5, of False] 3(6)
    obtain s' where
      "rx_bits ?s2 (stuff 0 bs) = Some s'" "rx_data (D @ True # bs) s'" "rx_same ?s2 s'" "rx_run (run_after 0 bs) s'"
      by auto
    with s1 put_bit_zero_stuffed [OF run5] True show ?thesis
      by (auto intro: rx_same_trans [OF rx_same_trans [OF _ rx_same_shift]])
  next
    case False
    with 3(2) [OF False s1(2,4)] 3(5,6) rx_sameD(2) [OF s1(3)] obtain s' where
      "rx_bits s1 (stuff (Suc r) bs) = Some s'" "rx_data (D @ True # bs) s'" "rx_same s1 s'"
      "rx_run (run_after (Suc r) bs) s'"
      by auto
    with s1 False show ?thesis
      by (auto intro: rx_same_trans)
  qed
qed

section \<open>Frames and flags\<close>

text \<open>What the receiver reports for the octets between two flags, CRC included.\<close>

definition rx_crc_good :: "nat \<Rightarrow> octets \<Rightarrow> bool" where
  "rx_crc_good n bs \<longleftrightarrow> (if n = 2 then crc_itu16_check bs else crc_itu32_check bs)"

definition rx_report :: "nat \<Rightarrow> bool \<Rightarrow> octets \<Rightarrow> hdlc_rx_event list" where
  "rx_report n bad bs =
     (if bs = [] then []
      else if n \<le> length bs \<and> rx_crc_good n bs then [Frame (take (length bs - n) bs) True]
      else if bad then [Frame (take (length bs - n) bs) False]
      else [])"

definition rx_counted :: "octets \<Rightarrow> hdlc_rx_state \<Rightarrow> hdlc_rx_state \<Rightarrow> bool" where
  "rx_counted bs s s' \<longleftrightarrow> (let n = hr_crc_bytes s; good = (n \<le> length bs \<and> rx_crc_good n bs) in
     hr_rx_frames s' = hr_rx_frames s + of_bool (bs \<noteq> [] \<and> good) \<and>
     hr_rx_bytes s' = hr_rx_bytes s + (if bs \<noteq> [] \<and> good then of_nat (length bs - n) else 0) \<and>
     hr_rx_crc_errors s' = hr_rx_crc_errors s + of_bool (bs \<noteq> [] \<and> n \<le> length bs \<and> \<not> good) \<and>
     hr_rx_length_errors s' = hr_rx_length_errors s + of_bool (bs \<noteq> [] \<and> length bs < n) \<and>
     hr_rx_aborts s' = hr_rx_aborts s)"

definition rx_config_same :: "hdlc_rx_state \<Rightarrow> hdlc_rx_state \<Rightarrow> bool" where
  "rx_config_same s s' \<longleftrightarrow>
     hr_crc_bytes s' = hr_crc_bytes s \<and> hr_max_frame_len s' = hr_max_frame_len s \<and>
     hr_frame_handler s' = hr_frame_handler s \<and> hr_status_handler s' = hr_status_handler s \<and>
     hr_report_bad_frames s' = hr_report_bad_frames s \<and>
     hr_framing_ok_threshold s' = hr_framing_ok_threshold s \<and>
     hr_octet_count_report_interval s' = hr_octet_count_report_interval s"

lemma rx_config_same_refl [simp]: "rx_config_same s s"
  by (simp add: rx_config_same_def)

lemma rx_config_same_trans: "rx_config_same s s' \<Longrightarrow> rx_config_same s' s'' \<Longrightarrow> rx_config_same s s''"
  by (simp add: rx_config_same_def)

definition rx_ready :: "hdlc_rx_state \<Rightarrow> bool" where
  "rx_ready s \<longleftrightarrow> rx_data [] s \<and> rx_run 0 s \<and> hr_frame_handler s \<and> hr_crc_bytes s \<in> {2, 4}"

lemma frame_end:
  assumes "take (hr_len s) (hr_buffer s) = bs" and "hr_len s = length bs" and "bs \<noteq> []"
    and "hr_num_bits s = 7" and "hr_len s \<le> hr_max_frame_len s"
    and "hr_max_frame_len s \<le> length (hr_buffer s)" and "hr_frame_handler s"
  shows "\<exists>s'. rx_frame_end s = Some s' \<and>
    hr_log s' = hr_log s @ rx_report (hr_crc_bytes s) (hr_report_bad_frames s) bs \<and>
    rx_counted bs s s' \<and> rx_config_same s s' \<and> hr_buffer s' = hr_buffer s \<and>
    hr_flags_seen s' = hr_flags_seen s \<and> hr_framing_ok_announced s' = hr_framing_ok_announced s \<and>
    hr_raw_bit_stream s' = hr_raw_bit_stream s \<and>
    hr_byte_in_progress s' = hr_byte_in_progress s"
proof -
  have lb: "length bs \<le> length (hr_buffer s)"
    using assms(2,5,6) by simp
  have take: "take (min k (length bs)) (hr_buffer s) = take k bs" for k
    using assms(1,2) by (metis min.commute take_take)
  have pre: "take (length bs - k) (hr_buffer s) = take (length bs - k) bs" for k
    using take [of "length bs - k"] by simp
  have all: "take (length bs) (hr_buffer s) = bs"
    using assms(1,2) by simp
  consider "hr_crc_bytes s \<le> length bs" "rx_crc_good (hr_crc_bytes s) bs"
    | "hr_crc_bytes s \<le> length bs" "\<not> rx_crc_good (hr_crc_bytes s) bs" | "length bs < hr_crc_bytes s"
    by linarith
  then show ?thesis
    by cases (use assms(2-7) lb in \<open>auto simp: rx_frame_end_def call_frame_handler_def rx_report_def
        rx_counted_def rx_config_same_def Let_def pre all rx_crc_good_def simp del: of_nat_diff split: if_splits\<close>)
qed

lemma flag_or_abort_flag:
  assumes "\<not> bit (hr_raw_bit_stream s) 15" and "hr_flags_seen s \<ge> hr_framing_ok_threshold s"
    and "take (hr_len s) (hr_buffer s) = bs" and "hr_len s = length bs"
    and "hr_num_bits s = 7" and "hr_len s \<le> hr_max_frame_len s"
    and "hr_max_frame_len s \<le> length (hr_buffer s)" and "hr_frame_handler s"
  shows "\<exists>s'. rx_flag_or_abort s = Some s' \<and>
    hr_log s' = hr_log s @ rx_report (hr_crc_bytes s) (hr_report_bad_frames s) bs \<and>
    rx_counted bs s s' \<and> rx_config_same s s' \<and> hr_buffer s' = hr_buffer s \<and>
    hr_flags_seen s' = hr_flags_seen s \<and> hr_framing_ok_announced s' = hr_framing_ok_announced s \<and>
    hr_raw_bit_stream s' = hr_raw_bit_stream s \<and>
    hr_byte_in_progress s' = hr_byte_in_progress s \<and> hr_len s' = 0 \<and> hr_num_bits s' = 0"
proof (cases "bs = []")
  case True
  then show ?thesis
    using assms by (simp add: rx_flag_or_abort_def mask_bits Let_def rx_report_def rx_counted_def rx_config_same_def)
next
  case False
  let ?s = "s\<lparr>hr_octet_counting_mode := False\<rparr>"
  obtain s' where "rx_frame_end ?s = Some s'"
    "hr_log s' = hr_log ?s @ rx_report (hr_crc_bytes ?s) (hr_report_bad_frames ?s) bs"
    "rx_counted bs ?s s'" "rx_config_same ?s s'" "hr_buffer s' = hr_buffer ?s"
    "hr_flags_seen s' = hr_flags_seen ?s" "hr_framing_ok_announced s' = hr_framing_ok_announced ?s"
    "hr_raw_bit_stream s' = hr_raw_bit_stream ?s" "hr_byte_in_progress s' = hr_byte_in_progress ?s"
    using frame_end [of ?s bs] assms False by auto
  with assms False show ?thesis
    by (simp add: rx_flag_or_abort_def mask_bits Let_def rx_counted_def rx_config_same_def)
qed

lemma rx_ones:
  assumes "rx_data D s" and "rx_run r s" and "(length D + n) div 8 \<le> hr_max_frame_len s"
  shows "\<exists>s'. rx_bits s (replicate n True) = Some s' \<and> rx_data (D @ replicate n True) s' \<and> rx_same s s' \<and>
    rx_run (r + n) s'"
  using assms
proof (induction n arbitrary: s D r)
  case (Suc n)
  have "Suc (length D) div 8 \<le> hr_max_frame_len s"
    using Suc.prems(3) div_le_mono [of "Suc (length D)" "length D + Suc n" 8] by simp
  from put_data_bit [OF Suc.prems(1,2) _ this, of True] obtain s1 where s1:
    "hdlc_rx_put_bit s (of_bool True) = Some s1" "rx_data (D @ [True]) s1" "rx_same s s1" "rx_run (Suc r) s1"
    by auto
  from Suc.IH [OF s1(2,4)] Suc.prems(3) rx_sameD(2) [OF s1(3)] obtain s' where
    "rx_bits s1 (replicate n True) = Some s'" "rx_data (D @ True # replicate n True) s'" "rx_same s1 s'"
    "rx_run (Suc r + n) s'"
    by auto
  with s1 show ?case
    by (auto intro: rx_same_trans)
qed auto

lemma rx_flag_prefix:
  assumes d: "rx_data D s" "rx_run r s" "r < 5" and al: "length D mod 8 = 0"
  shows "\<exists>s'. rx_bits s ([False] @ replicate 6 True) = Some s' \<and>
    rx_data (D @ [False] @ replicate 6 True) s' \<and> rx_same s s' \<and> rx_run 6 s'"
proof -
  have len: "length D div 8 \<le> hr_max_frame_len s"
    using d(1) by (simp add: rx_data_def)
  have dv: "(length D + k) div 8 = length D div 8" if "k < 8" for k
    using al that by (simp add: div_add1_eq [of "length D"])
  have rm: "Suc (length D) div 8 \<le> hr_max_frame_len s"
    using len dv [of 1] by simp
  obtain s1 where s1: "hdlc_rx_put_bit s (of_bool False) = Some s1" "rx_data (D @ [False]) s1" "rx_same s s1"
    "rx_run 0 s1"
    using put_data_bit [OF d(1,2) _ rm, of False] d(3) by auto
  have "(length (D @ [False]) + 6) div 8 \<le> hr_max_frame_len s1"
    using len dv [of 7] rx_sameD(2) [OF s1(3)] by simp
  from rx_ones [OF s1(2,4) this] obtain s' where s': "rx_bits s1 (replicate 6 True) = Some s'"
    "rx_data ((D @ [False]) @ replicate 6 True) s'" "rx_same s1 s'" "rx_run (0 + 6) s'"
    by blast
  have "rx_bits s ([False] @ replicate 6 True) = Some s'"
    using s1(1) s'(1) by simp
  then show ?thesis
    using s'(2,4) rx_same_trans [OF s1(3) s'(3)] by (intro exI [of _ s']) simp
qed

lemma rx_flag_last:
  assumes d: "rx_data (stream_lsb bs @ [False] @ replicate 6 True) s" "rx_run 6 s" "hr_frame_handler s"
  shows "\<exists>s'. hdlc_rx_put_bit s (of_bool False) = Some s' \<and> rx_data [] s' \<and> rx_run 0 s' \<and>
    hr_log s' = hr_log s @ rx_report (hr_crc_bytes s) (hr_report_bad_frames s) bs \<and>
    rx_counted bs s s' \<and> rx_config_same s s' \<and> hr_framing_ok_announced s' = hr_framing_ok_announced s"
proof -
  let ?s = "rx_shift False s"
  have "stream_lsb (take (hr_len s) (hr_buffer s)) = stream_lsb bs" and len: "hr_len s = length bs"
    and n: "hr_num_bits s = 7"
    using d(1) by (auto simp: rx_data_def)
  then have buf: "take (hr_len s) (hr_buffer s) = bs"
    by (simp only: stream_lsb_inject)
  have "hr_flags_seen s \<ge> hr_framing_ok_threshold s" "hr_len s \<le> hr_max_frame_len s"
    "hr_max_frame_len s \<le> length (hr_buffer s)" and hi: "\<forall>i \<ge> 8. \<not> bit (hr_byte_in_progress s) i"
    using d(1) by (simp_all add: rx_data_def)
  then obtain s' where s': "rx_flag_or_abort ?s = Some s'"
    "hr_log s' = hr_log ?s @ rx_report (hr_crc_bytes ?s) (hr_report_bad_frames ?s) bs"
    "rx_counted bs ?s s'" "rx_config_same ?s s'" "hr_buffer s' = hr_buffer ?s"
    "hr_flags_seen s' = hr_flags_seen ?s" "hr_framing_ok_announced s' = hr_framing_ok_announced ?s"
    "hr_raw_bit_stream s' = hr_raw_bit_stream ?s" "hr_byte_in_progress s' = hr_byte_in_progress ?s"
    "hr_len s' = 0" "hr_num_bits s' = 0"
    using flag_or_abort_flag [of ?s bs] put_bit_zero_flag(2) [OF d(2)] buf len n d(3)
    by (auto simp: rx_shift_def)
  have "rx_run 0 s'"
    using rx_run_shift [OF d(2), of False] s'(8) by (simp add: rx_run_def)
  moreover have "rx_data [] s'"
    using d(1) s'(4-11) by (simp add: rx_data_def rx_shift_def rx_config_same_def)
  ultimately show ?thesis
    using s' put_bit_zero_flag(1) [OF d(2)]
    by (intro exI [of _ s']) (simp add: rx_shift_def rx_counted_def rx_config_same_def)
qed

lemma hdlc_flag_parts: "hdlc_flag = ([False] @ replicate 6 True) @ [False]"
  by (simp add: hdlc_flag_def numeral_eq_Suc)

lemma rx_bits_frame:
  assumes ready: "rx_ready s" and room: "length bs \<le> hr_max_frame_len s"
  shows "\<exists>s'. rx_bits s (stuff 0 (stream_lsb bs) @ hdlc_flag) = Some s' \<and> rx_ready s' \<and>
    hr_log s' = hr_log s @ rx_report (hr_crc_bytes s) (hr_report_bad_frames s) bs \<and>
    rx_counted bs s s' \<and> rx_config_same s s' \<and> hr_framing_ok_announced s' = hr_framing_ok_announced s"
proof -
  let ?D = "stream_lsb bs"
  from ready have s: "rx_data [] s" "rx_run 0 s" "hr_frame_handler s" "hr_crc_bytes s \<in> {2, 4}"
    by (simp_all add: rx_ready_def)
  obtain s1 where s1: "rx_bits s (stuff 0 ?D) = Some s1" "rx_data ?D s1" "rx_same s s1" "rx_run (run_after 0 ?D) s1"
    using rx_stuffed [OF s(1,2), of ?D] room by auto
  have r: "run_after 0 ?D < 5"
    by (rule run_after_less) simp
  obtain s2 where s2: "rx_bits s1 ([False] @ replicate 6 True) = Some s2"
    "rx_data (?D @ [False] @ replicate 6 True) s2" "rx_same s1 s2" "rx_run 6 s2"
    using rx_flag_prefix [OF s1(2,4) r] by auto
  have same: "rx_same s s2"
    using s1(3) s2(3) by (rule rx_same_trans)
  then have "hr_frame_handler s2"
    using s(3) by (simp add: rx_same_def)
  from rx_flag_last [OF s2(2,4) this] obtain s' where s': "hdlc_rx_put_bit s2 (of_bool False) = Some s'"
    "rx_data [] s'" "rx_run 0 s'"
    "hr_log s' = hr_log s2 @ rx_report (hr_crc_bytes s2) (hr_report_bad_frames s2) bs"
    "rx_counted bs s2 s'" "rx_config_same s2 s'" "hr_framing_ok_announced s' = hr_framing_ok_announced s2"
    by blast
  have "rx_bits s (stuff 0 ?D @ hdlc_flag) = Some s'"
    unfolding hdlc_flag_parts rx_bits_append s1(1) bind.bind_lunit s2(1) [unfolded rx_bits_append]
    using s'(1) by simp
  with s' s(3,4) same show ?thesis
    by (intro exI [of _ s']) (simp add: rx_ready_def rx_counted_def rx_config_same_def rx_same_def)
qed

section \<open>Hunting for flags\<close>

definition status_event :: "hdlc_rx_state \<Rightarrow> int \<Rightarrow> hdlc_rx_event" where
  "status_event s st = (if hr_status_handler s then Status st else Frame_Status st)"

definition rx_hunt :: "nat \<Rightarrow> hdlc_rx_state \<Rightarrow> bool" where
  "rx_hunt n s \<longleftrightarrow> hr_flags_seen s = int n \<and> int n < hr_framing_ok_threshold s \<and> hr_num_bits s = 0 \<and>
     rx_run 0 s \<and> \<not> hr_framing_ok_announced s \<and> hr_max_frame_len s \<le> length (hr_buffer s) \<and>
     (\<forall>i \<ge> 8. \<not> bit (hr_byte_in_progress s) i) \<and> hr_frame_handler s \<and> hr_crc_bytes s \<in> {2, 4}"

lemma hunt_bit:
  assumes "hr_flags_seen s < hr_framing_ok_threshold s" and "hr_num_bits s = int k" and "k < 7"
    and "rx_run r s" and "b \<or> r < 5"
  shows "\<exists>x. hdlc_rx_put_bit s (of_bool b) = Some (s\<lparr>hr_raw_bit_stream := x, hr_num_bits := int (Suc k)\<rparr>) \<and>
    rx_run (if b then Suc r else 0) (s\<lparr>hr_raw_bit_stream := x, hr_num_bits := int (Suc k)\<rparr>)"
proof -
  let ?s = "rx_shift b s" and ?x = "hr_raw_bit_stream (rx_shift b s)"
  have put: "hdlc_rx_put_bit s (of_bool b) = rx_collect_bit ?s"
    using assms(5) put_bit_one [OF assms(4)] put_bit_zero_data [OF assms(4)] by (cases b) simp_all
  have "rx_collect_bit ?s = Some (s\<lparr>hr_raw_bit_stream := ?x, hr_num_bits := int (Suc k)\<rparr>)"
    using assms(1-3) by (simp add: rx_collect_bit_def rx_shift_def Let_def)
  moreover have "rx_run (if b then Suc r else 0) (s\<lparr>hr_raw_bit_stream := ?x, hr_num_bits := int (Suc k)\<rparr>)"
    using rx_run_shift [OF assms(4), of b] by (simp add: rx_run_def)
  ultimately show ?thesis
    using put by auto
qed

lemma hunt_ones:
  assumes "hr_flags_seen s < hr_framing_ok_threshold s" and "hr_num_bits s = int k" and "k + n \<le> 7"
    and "rx_run r s"
  shows "\<exists>x. rx_bits s (replicate n True) = Some (s\<lparr>hr_raw_bit_stream := x, hr_num_bits := int (k + n)\<rparr>) \<and>
    rx_run (r + n) (s\<lparr>hr_raw_bit_stream := x, hr_num_bits := int (k + n)\<rparr>)"
  using assms
proof (induction n arbitrary: s k r)
  case 0
  then show ?case
    by (intro exI [of _ "hr_raw_bit_stream s"]) (simp add: rx_run_def)
next
  case (Suc n)
  then obtain x where x: "hdlc_rx_put_bit s (of_bool True) = Some (s\<lparr>hr_raw_bit_stream := x, hr_num_bits := int (Suc k)\<rparr>)"
    "rx_run (Suc r) (s\<lparr>hr_raw_bit_stream := x, hr_num_bits := int (Suc k)\<rparr>)"
    using hunt_bit [OF Suc.prems(1,2) _ Suc.prems(4), of True] by auto
  from Suc.IH [of "s\<lparr>hr_raw_bit_stream := x, hr_num_bits := int (Suc k)\<rparr>" "Suc k" "Suc r"] x(2) Suc.prems
  obtain y where
    "rx_bits (s\<lparr>hr_raw_bit_stream := x, hr_num_bits := int (Suc k)\<rparr>) (replicate n True) =
       Some (s\<lparr>hr_raw_bit_stream := y, hr_num_bits := int (Suc k + n)\<rparr>)"
    "rx_run (Suc r + n) (s\<lparr>hr_raw_bit_stream := y, hr_num_bits := int (Suc k + n)\<rparr>)"
    by auto
  with x(1) show ?case
    by (intro exI [of _ y]) simp
qed

lemma hunt_flag_state:
  assumes "rx_hunt n s"
  shows "\<exists>x. rx_bits s hdlc_flag = rx_flag_or_abort (s\<lparr>hr_raw_bit_stream := x, hr_num_bits := 7\<rparr>) \<and>
    rx_run 0 (s\<lparr>hr_raw_bit_stream := x\<rparr>) \<and> \<not> bit x 15"
proof -
  have s: "hr_flags_seen s < hr_framing_ok_threshold s" "hr_num_bits s = int 0" "rx_run 0 s"
    using assms by (simp_all add: rx_hunt_def)
  obtain x where x: "hdlc_rx_put_bit s (of_bool False) = Some (s\<lparr>hr_raw_bit_stream := x, hr_num_bits := int (Suc 0)\<rparr>)"
    "rx_run 0 (s\<lparr>hr_raw_bit_stream := x, hr_num_bits := int (Suc 0)\<rparr>)"
    using hunt_bit [OF s(1,2) _ s(3), of False] by auto
  let ?s1 = "s\<lparr>hr_raw_bit_stream := x, hr_num_bits := int (Suc 0)\<rparr>"
  have s1: "hr_flags_seen ?s1 < hr_framing_ok_threshold ?s1" "hr_num_bits ?s1 = int 1"
    using s(1) by simp_all
  obtain y where y: "rx_bits ?s1 (replicate 6 True) = Some (?s1\<lparr>hr_raw_bit_stream := y, hr_num_bits := int (1 + 6)\<rparr>)"
    "rx_run (0 + 6) (?s1\<lparr>hr_raw_bit_stream := y, hr_num_bits := int (1 + 6)\<rparr>)"
    using hunt_ones [OF s1 _ x(2), of 6] by auto
  let ?s2 = "s\<lparr>hr_raw_bit_stream := y, hr_num_bits := 7\<rparr>"
  have run: "rx_run 6 ?s2" and bits: "rx_bits s ([False] @ replicate 6 True) = Some ?s2"
    using x(1) y by simp_all
  let ?z = "hr_raw_bit_stream (rx_shift False ?s2)"
  have shift: "rx_shift False ?s2 = s\<lparr>hr_raw_bit_stream := ?z, hr_num_bits := 7\<rparr>"
    by (simp add: rx_shift_def)
  have "rx_bits s hdlc_flag = rx_flag_or_abort (rx_shift False ?s2)"
    unfolding hdlc_flag_parts rx_bits_append bits [unfolded rx_bits_append]
    using put_bit_zero_flag(1) [OF run] by simp
  then have "rx_bits s hdlc_flag = rx_flag_or_abort (s\<lparr>hr_raw_bit_stream := ?z, hr_num_bits := 7\<rparr>)"
    using shift by simp
  moreover have "rx_run 0 (s\<lparr>hr_raw_bit_stream := ?z\<rparr>)"
    using rx_run_shift [OF run, of False] by (simp add: rx_run_def)
  moreover have "\<not> bit ?z 15"
    using put_bit_zero_flag(2) [OF run] by simp
  ultimately show ?thesis by blast
qed

lemma hunt_flag_more:
  assumes h: "rx_hunt n s" and n: "int (Suc n) < hr_framing_ok_threshold s"
  shows "\<exists>s'. rx_bits s hdlc_flag = Some s' \<and> rx_hunt (Suc n) s' \<and> hr_log s' = hr_log s \<and> rx_config_same s s'"
proof -
  obtain x where x: "rx_bits s hdlc_flag = rx_flag_or_abort (s\<lparr>hr_raw_bit_stream := x, hr_num_bits := 7\<rparr>)"
    "rx_run 0 (s\<lparr>hr_raw_bit_stream := x\<rparr>)" "\<not> bit x 15"
    using hunt_flag_state [OF h] by blast
  let ?s' = "s\<lparr>hr_raw_bit_stream := x, hr_octet_counting_mode := False, hr_flags_seen := int (Suc n),
     hr_len := 0, hr_num_bits := 0\<rparr>"
  have "rx_flag_or_abort (s\<lparr>hr_raw_bit_stream := x, hr_num_bits := 7\<rparr>) = Some ?s'"
    using h n x(3) by (simp add: rx_flag_or_abort_def mask_bits rx_preamble_flag_def rx_hunt_def Let_def add.commute)
  with x(1,2) h n show ?thesis
    by (intro exI [of _ ?s']) (simp add: rx_hunt_def rx_run_def rx_config_same_def)
qed

lemma hunt_flag_last:
  assumes h: "rx_hunt n s" and n: "int (Suc n) = hr_framing_ok_threshold s"
  shows "\<exists>s'. rx_bits s hdlc_flag = Some s' \<and> rx_ready s' \<and>
    hr_log s' = hr_log s @ [status_event s SIG_STATUS_FRAMING_OK] \<and> rx_config_same s s'"
proof -
  obtain x where x: "rx_bits s hdlc_flag = rx_flag_or_abort (s\<lparr>hr_raw_bit_stream := x, hr_num_bits := 7\<rparr>)"
    "rx_run 0 (s\<lparr>hr_raw_bit_stream := x\<rparr>)" "\<not> bit x 15"
    using hunt_flag_state [OF h] by blast
  let ?s' = "s\<lparr>hr_raw_bit_stream := x, hr_octet_counting_mode := False, hr_flags_seen := int (Suc n),
     hr_log := hr_log s @ [status_event s SIG_STATUS_FRAMING_OK], hr_framing_ok_announced := True,
     hr_len := 0, hr_num_bits := 0\<rparr>"
  have "rx_flag_or_abort (s\<lparr>hr_raw_bit_stream := x, hr_num_bits := 7\<rparr>) = Some ?s'"
    using h n x(3) by (simp add: rx_flag_or_abort_def mask_bits rx_preamble_flag_def rx_hunt_def Let_def
        report_status_change_def status_event_def add.commute)
  with x(1,2) h n show ?thesis
    by (intro exI [of _ ?s']) (simp add: rx_hunt_def rx_run_def rx_config_same_def rx_ready_def rx_data_def)
qed

lemma status_event_config: "rx_config_same s s' \<Longrightarrow> status_event s' st = status_event s st"
  by (simp add: status_event_def rx_config_same_def)

lemma ready_flags:
  "rx_ready s \<Longrightarrow> \<exists>s'. rx_bits s (concat (replicate k hdlc_flag)) = Some s' \<and> rx_ready s' \<and>
     hr_log s' = hr_log s \<and> rx_config_same s s'"
proof (induction k arbitrary: s)
  case (Suc k)
  obtain s1 where s1: "rx_bits s hdlc_flag = Some s1" "rx_ready s1" "hr_log s1 = hr_log s" "rx_config_same s s1"
    using rx_bits_frame [OF Suc.prems, of "[]"] by (auto simp: rx_report_def)
  from Suc.IH [OF s1(2)] obtain s' where "rx_bits s1 (concat (replicate k hdlc_flag)) = Some s'" "rx_ready s'"
    "hr_log s' = hr_log s1" "rx_config_same s1 s'"
    by blast
  with s1 show ?case
    by (auto simp: rx_bits_append intro: rx_config_same_trans)
qed (auto simp: rx_ready_def)

lemma hunt_flags:
  "rx_hunt n s \<Longrightarrow> hr_framing_ok_threshold s \<le> int (n + k) \<Longrightarrow>
   \<exists>s'. rx_bits s (concat (replicate k hdlc_flag)) = Some s' \<and> rx_ready s' \<and>
     hr_log s' = hr_log s @ [status_event s SIG_STATUS_FRAMING_OK] \<and> rx_config_same s s'"
proof (induction k arbitrary: n s)
  case 0
  then show ?case by (simp add: rx_hunt_def)
next
  case (Suc k)
  show ?case
  proof (cases "int (Suc n) = hr_framing_ok_threshold s")
    case True
    from hunt_flag_last [OF Suc.prems(1) this] obtain s1 where s1: "rx_bits s hdlc_flag = Some s1" "rx_ready s1"
      "hr_log s1 = hr_log s @ [status_event s SIG_STATUS_FRAMING_OK]" "rx_config_same s s1"
      by blast
    from ready_flags [OF s1(2), of k] s1 show ?thesis
      by (auto simp: rx_bits_append intro: rx_config_same_trans)
  next
    case False
    with Suc.prems(1) have "int (Suc n) < hr_framing_ok_threshold s"
      by (simp add: rx_hunt_def)
    from hunt_flag_more [OF Suc.prems(1) this] obtain s1 where s1: "rx_bits s hdlc_flag = Some s1"
      "rx_hunt (Suc n) s1" "hr_log s1 = hr_log s" "rx_config_same s s1"
      by blast
    have "hr_framing_ok_threshold s1 \<le> int (Suc n + k)"
      using Suc.prems(2) s1(4) by (simp add: rx_config_same_def)
    from Suc.IH [OF s1(2) this] s1 status_event_config [OF s1(4)] show ?thesis
      by (auto simp: rx_bits_append intro: rx_config_same_trans)
  qed
qed

lemma hunt_init: "rx_hunt 0 (hdlc_rx_init crc32 bad thr True)"
proof -
  have "rx_run 0 (hdlc_rx_init crc32 bad thr True)"
    unfolding rx_run_def by (rule exI [of _ "[]"]) (simp add: hdlc_rx_init_def)
  then show ?thesis
    by (simp add: rx_hunt_def hdlc_rx_init_def)
qed


section \<open>Properties\<close>

lemma rx_bits_frames:
  assumes "rx_ready s" and "\<forall>bs\<in>set bss. length bs \<le> hr_max_frame_len s"
  shows "\<exists>s'. rx_bits s (concat (map (\<lambda>bs. stuff 0 (stream_lsb bs) @ hdlc_flag) bss)) = Some s' \<and> rx_ready s' \<and>
    hr_log s' = hr_log s @ concat (map (rx_report (hr_crc_bytes s) (hr_report_bad_frames s)) bss)"
  using assms
proof (induction bss arbitrary: s)
  case (Cons bs bss)
  obtain s1 where s1: "rx_bits s (stuff 0 (stream_lsb bs) @ hdlc_flag) = Some s1" "rx_ready s1"
    "hr_log s1 = hr_log s @ rx_report (hr_crc_bytes s) (hr_report_bad_frames s) bs" "rx_config_same s s1"
    using rx_bits_frame [OF Cons.prems(1), of bs] Cons.prems(2) by auto
  have "\<forall>bs\<in>set bss. length bs \<le> hr_max_frame_len s1"
    using Cons.prems(2) s1(4) by (simp add: rx_config_same_def)
  from Cons.IH [OF s1(2) this] obtain s' where s':
    "rx_bits s1 (concat (map (\<lambda>bs. stuff 0 (stream_lsb bs) @ hdlc_flag) bss)) = Some s'" "rx_ready s'"
    "hr_log s' = hr_log s1 @ concat (map (rx_report (hr_crc_bytes s) (hr_report_bad_frames s)) bss)"
    using s1(4) by (auto simp: rx_config_same_def)
  have "rx_bits s (concat (map (\<lambda>bs. stuff 0 (stream_lsb bs) @ hdlc_flag) (bs # bss))) = Some s'"
    using s1(1) s'(1) rx_bits_append [of s "stuff 0 (stream_lsb bs) @ hdlc_flag"] by simp
  with s'(2,3) s1(3) show ?case by simp
qed auto

lemma deframes:
  assumes "1 \<le> k" and "threshold \<le> int k" and "\<forall>bs\<in>set bss. length bs \<le> HDLC_MAXFRAME_LEN + 4"
  shows "\<exists>s'. rx_bits (hdlc_rx_init crc32 report_bad threshold True)
      (concat (replicate k hdlc_flag) @ concat (map (\<lambda>bs. stuff 0 (stream_lsb bs) @ hdlc_flag) bss)) = Some s' \<and>
    hr_log s' = Frame_Status SIG_STATUS_FRAMING_OK #
      concat (map (rx_report (if crc32 then 4 else 2) report_bad) bss)"
proof -
  let ?s = "hdlc_rx_init crc32 report_bad threshold True"
  have init: "hr_framing_ok_threshold ?s \<le> int (0 + k)" "hr_log ?s = []" "\<not> hr_status_handler ?s"
    "hr_max_frame_len ?s = HDLC_MAXFRAME_LEN + 4" "hr_crc_bytes ?s = (if crc32 then 4 else 2)"
    "hr_report_bad_frames ?s = report_bad"
    using assms(1,2) by (simp_all add: hdlc_rx_init_def)
  obtain s1 where s1: "rx_bits ?s (concat (replicate k hdlc_flag)) = Some s1" "rx_ready s1"
    "hr_log s1 = hr_log ?s @ [status_event ?s SIG_STATUS_FRAMING_OK]" "rx_config_same ?s s1"
    using hunt_flags [OF hunt_init init(1)] by blast
  have "\<forall>bs\<in>set bss. length bs \<le> hr_max_frame_len s1"
    using assms(3) s1(4) init(4) by (simp add: rx_config_same_def)
  from rx_bits_frames [OF s1(2) this] s1 init show ?thesis
    by (auto simp: rx_bits_append rx_config_same_def status_event_def)
qed

text \<open>
  Claim C8. The HDLC receiver recovers what is on the line. After at least the required number of flags,
  whatever octets come bit stuffed between flags, the receiver reports framing once and then for each
  octet string, in order: the message when the CRC is right, the message marked bad when the CRC is
  wrong or missing and bad frames are wanted, and nothing otherwise.
\<close>
theorem hdlc_rx_deframes:
  assumes "1 \<le> k" and "threshold \<le> int k" and "\<forall>bs\<in>set bss. length bs \<le> HDLC_MAXFRAME_LEN + 4"
  shows "\<exists>s'. rx_bits (hdlc_rx_init crc32 report_bad threshold True)
      (concat (replicate k hdlc_flag) @ concat (map (\<lambda>bs. stuff 0 (stream_lsb bs) @ hdlc_flag) bss)) = Some s' \<and>
    hr_log s' = Frame_Status SIG_STATUS_FRAMING_OK #
      concat (map (rx_report (if crc32 then 4 else 2) report_bad) bss)"
  using assms by (rule deframes)

theorem hdlc_rx_deframes_witness:
  "\<exists>s'. rx_bits (hdlc_rx_init False True 2 True)
      (concat (replicate 3 hdlc_flag) @ concat (map (\<lambda>bs. stuff 0 (stream_lsb bs) @ hdlc_flag)
        [[3, 65, 162, 118], [3, 67, 162, 118], [255]])) = Some s' \<and>
    hr_log s' = [Frame_Status SIG_STATUS_FRAMING_OK, Frame [3, 65] True, Frame [3, 67] False, Frame [] False]"
proof -
  have crc: "crc_itu16_check [3, 65, 162, 118]" "\<not> crc_itu16_check [3, 67, 162, 118]"
    by code_simp+
  have "\<exists>s'. rx_bits (hdlc_rx_init False True 2 True)
      (concat (replicate 3 hdlc_flag) @ concat (map (\<lambda>bs. stuff 0 (stream_lsb bs) @ hdlc_flag)
        [[3, 65, 162, 118], [3, 67, 162, 118], [255]])) = Some s' \<and>
    hr_log s' = Frame_Status SIG_STATUS_FRAMING_OK #
      concat (map (rx_report (if False then 4 else 2) True) [[3, 65, 162, 118], [3, 67, 162, 118], [255]])"
    by (rule hdlc_rx_deframes) (simp_all add: HDLC_MAXFRAME_LEN_def)
  with crc show ?thesis
    by (simp add: rx_report_def rx_crc_good_def del: concat_append)
qed

end
