(* ===== verification/Hdlc_Rx_Octets.thy ===== *)
theory Hdlc_Rx_Octets
  imports Hdlc_Deframe
begin

text \<open>
  The octet interface of the HDLC receiver against its bit interface.
\<close>

section \<open>Octets are eight bits\<close>

text \<open>
  \<^verbatim>\<open>hdlc_rx_put_byte\<close> holds the rest of its octet below the eight positions that the bit handler
  inspects. Nothing but those positions matters, and no operation changes the register.
\<close>

named_theorems raw_commute

lemma report_status_change_raw [raw_commute]:
  "report_status_change (s\<lparr>hr_raw_bit_stream := x\<rparr>) st = (report_status_change s st)\<lparr>hr_raw_bit_stream := x\<rparr>"
  by (simp add: report_status_change_def)

lemma count_down_raw [raw_commute]:
  "count_down (s\<lparr>hr_raw_bit_stream := x\<rparr>) = (count_down s)\<lparr>hr_raw_bit_stream := x\<rparr>"
  by (simp add: count_down_def report_status_change_def Let_def)

lemma octet_set_and_count_raw [raw_commute]:
  "octet_set_and_count (s\<lparr>hr_raw_bit_stream := x\<rparr>) = (octet_set_and_count s)\<lparr>hr_raw_bit_stream := x\<rparr>"
  by (simp add: octet_set_and_count_def raw_commute)

lemma octet_count_raw:
  "s' = s\<lparr>hr_raw_bit_stream := x\<rparr> \<Longrightarrow> octet_count s' = (octet_count s)\<lparr>hr_raw_bit_stream := x\<rparr>"
  by (simp add: octet_count_def raw_commute)

lemma call_frame_handler_raw:
  "s' = s\<lparr>hr_raw_bit_stream := x\<rparr> \<Longrightarrow>
   call_frame_handler s' ok = map_option (hr_raw_bit_stream_update (\<lambda>_. x)) (call_frame_handler s ok)"
  by (cases "mem_read (hr_buffer s) 0 (int (hr_len s))") (simp_all add: call_frame_handler_def del: mem_read_Some)

lemma rx_frame_end_raw:
  assumes s': "s' = s\<lparr>hr_raw_bit_stream := x\<rparr>"
  shows "rx_frame_end s' = map_option (hr_raw_bit_stream_update (\<lambda>_. x)) (rx_frame_end s)"
proof (cases "hr_num_bits s = 7 \<and> hr_crc_bytes s \<le> hr_len s \<and> hr_len s \<le> hr_max_frame_len s")
  case True
  let ?s1 = "s\<lparr>hr_rx_frames := hr_rx_frames s + 1,
     hr_rx_bytes := hr_rx_bytes s + of_nat (hr_len s - hr_crc_bytes s), hr_len := hr_len s - hr_crc_bytes s\<rparr>"
  let ?s2 = "s\<lparr>hr_rx_crc_errors := hr_rx_crc_errors s + 1, hr_len := hr_len s - hr_crc_bytes s\<rparr>"
  have "call_frame_handler (s'\<lparr>hr_rx_frames := hr_rx_frames s + 1,
     hr_rx_bytes := hr_rx_bytes s + of_nat (hr_len s - hr_crc_bytes s), hr_len := hr_len s - hr_crc_bytes s\<rparr>) True =
     map_option (hr_raw_bit_stream_update (\<lambda>_. x)) (call_frame_handler ?s1 True)"
    by (rule call_frame_handler_raw) (simp add: s')
  moreover have "call_frame_handler (s'\<lparr>hr_rx_crc_errors := hr_rx_crc_errors s + 1,
     hr_len := hr_len s - hr_crc_bytes s\<rparr>) False =
     map_option (hr_raw_bit_stream_update (\<lambda>_. x)) (call_frame_handler ?s2 False)"
    by (rule call_frame_handler_raw) (simp add: s')
  ultimately show ?thesis
    using True unfolding rx_frame_end_def
    by (cases "mem_read (hr_buffer s) 0 (int (hr_len s))") (simp_all add: s' del: mem_read_Some)
next
  case False
  let ?n = "if hr_crc_bytes s \<le> hr_len s then hr_len s - hr_crc_bytes s else 0"
  have e: "call_frame_handler (s'\<lparr>hr_len := ?n\<rparr>) False =
     map_option (hr_raw_bit_stream_update (\<lambda>_. x)) (call_frame_handler (s\<lparr>hr_len := ?n\<rparr>) False)"
    by (rule call_frame_handler_raw) (simp add: s')
  have "\<not> (hr_num_bits s' = 7 \<and> hr_crc_bytes s' \<le> hr_len s' \<and> hr_len s' \<le> hr_max_frame_len s')"
    "hr_report_bad_frames s' = hr_report_bad_frames s" "hr_crc_bytes s' = hr_crc_bytes s" "hr_len s' = hr_len s"
    using False by (simp_all add: s')
  with False e show ?thesis
    unfolding rx_frame_end_def
    by (cases "call_frame_handler (s\<lparr>hr_len := ?n\<rparr>) False") (simp_all only: if_False, simp_all add: s')
qed

lemma rx_preamble_flag_raw:
  "s' = s\<lparr>hr_raw_bit_stream := x\<rparr> \<Longrightarrow> rx_preamble_flag s' = (rx_preamble_flag s)\<lparr>hr_raw_bit_stream := x\<rparr>"
  by (simp add: rx_preamble_flag_def flags_back_off_def report_status_change_def Let_def)

lemma rx_flag_or_abort_raw:
  assumes "x AND 0x8000 = hr_raw_bit_stream s AND 0x8000"
  shows "rx_flag_or_abort (s\<lparr>hr_raw_bit_stream := x\<rparr>) =
    map_option (hr_raw_bit_stream_update (\<lambda>_. x)) (rx_flag_or_abort s)"
proof -
  have a: "octet_set_and_count (report_status_change (s\<lparr>hr_raw_bit_stream := x, hr_rx_aborts := n\<rparr>) st\<lparr>hr_flags_seen := f\<rparr>) =
     (octet_set_and_count (report_status_change (s\<lparr>hr_rx_aborts := n\<rparr>) st\<lparr>hr_flags_seen := f\<rparr>))\<lparr>hr_raw_bit_stream := x\<rparr>" for n f st
    by (simp add: octet_set_and_count_def count_down_def report_status_change_def Let_def)
  have b: "rx_frame_end (s\<lparr>hr_raw_bit_stream := x, hr_octet_counting_mode := m\<rparr>) =
     map_option (hr_raw_bit_stream_update (\<lambda>_. x)) (rx_frame_end (s\<lparr>hr_octet_counting_mode := m\<rparr>))" for m
    by (rule rx_frame_end_raw) simp
  have c: "rx_preamble_flag (s\<lparr>hr_raw_bit_stream := x, hr_octet_counting_mode := m\<rparr>) =
     (rx_preamble_flag (s\<lparr>hr_octet_counting_mode := m\<rparr>))\<lparr>hr_raw_bit_stream := x\<rparr>" for m
    by (rule rx_preamble_flag_raw) simp
  have d: "flags_back_off (report_status_change (s\<lparr>hr_raw_bit_stream := x, hr_rx_aborts := n\<rparr>) st) =
     flags_back_off (report_status_change (s\<lparr>hr_rx_aborts := n\<rparr>) st)" for n st
    by (simp add: flags_back_off_def report_status_change_def)
  show ?thesis
    by (cases "rx_frame_end (s\<lparr>hr_octet_counting_mode := False\<rparr>)")
      (simp_all add: rx_flag_or_abort_def assms Let_def a b c d)
qed

lemma rx_collect_bit_raw:
  assumes "x AND 0x100 = hr_raw_bit_stream s AND 0x100"
  shows "rx_collect_bit (s\<lparr>hr_raw_bit_stream := x\<rparr>) =
    map_option (hr_raw_bit_stream_update (\<lambda>_. x)) (rx_collect_bit s)"
proof -
  have c: "octet_count (s\<lparr>hr_raw_bit_stream := x, hr_num_bits := n\<rparr>) =
     (octet_count (s\<lparr>hr_num_bits := n\<rparr>))\<lparr>hr_raw_bit_stream := x\<rparr>" for n
    by (rule octet_count_raw) simp
  have d: "rx_store_octet (s\<lparr>hr_raw_bit_stream := x, hr_num_bits := n, hr_byte_in_progress := w\<rparr>) =
     map_option (hr_raw_bit_stream_update (\<lambda>_. x)) (rx_store_octet (s\<lparr>hr_num_bits := n, hr_byte_in_progress := w\<rparr>))" for n w
    by (simp add: rx_store_octet_def mem_write_def octet_set_and_count_def count_down_def report_status_change_def Let_def)
  show ?thesis
    by (cases "rx_store_octet (s\<lparr>hr_num_bits := 8, hr_byte_in_progress :=
            drop_bit 1 (hr_byte_in_progress s OR (hr_raw_bit_stream s AND 0x100))\<rparr>)")
      (simp_all add: rx_collect_bit_def assms Let_def c d)
qed

lemma put_bit_core_raw:
  assumes "\<And>i. 8 \<le> i \<Longrightarrow> bit x i = bit (hr_raw_bit_stream s) i"
  shows "hdlc_rx_put_bit_core (s\<lparr>hr_raw_bit_stream := x\<rparr>) =
    map_option (hr_raw_bit_stream_update (\<lambda>_. x)) (hdlc_rx_put_bit_core s)"
proof -
  have m: "x AND m = hr_raw_bit_stream s AND m" if "\<And>i. i < 8 \<Longrightarrow> \<not> bit m i" for m
    by (rule bit_word_eqI) (use assms that in \<open>auto simp: bit_and_iff not_le [symmetric]\<close>)
  have lo: "\<not> bit (0x100 :: u32) i \<and> \<not> bit (0x3F00 :: u32) i \<and> \<not> bit (0x4000 :: u32) i \<and> \<not> bit (0x8000 :: u32) i"
    if "i < 8" for i
  proof -
    have "\<forall>i\<in>set [0..<8]. \<not> bit (0x100 :: u32) i \<and> \<not> bit (0x3F00 :: u32) i \<and> \<not> bit (0x4000 :: u32) i \<and>
        \<not> bit (0x8000 :: u32) i"
      by (simp add: indices_8)
    with that show ?thesis by simp
  qed
  have same: "x AND 0x100 = hr_raw_bit_stream s AND 0x100" "x AND 0x3F00 = hr_raw_bit_stream s AND 0x3F00"
    "x AND 0x4000 = hr_raw_bit_stream s AND 0x4000" "x AND 0x8000 = hr_raw_bit_stream s AND 0x8000"
    using lo by (auto intro!: m)
  show ?thesis
    unfolding hdlc_rx_put_bit_core_def rx_collect_bit_raw [OF same(1)] rx_flag_or_abort_raw [OF same(4)]
    by (simp add: same(2,3))
qed

lemma put_bit_core_keeps_raw:
  assumes "hdlc_rx_put_bit_core s = Some u"
  shows "hr_raw_bit_stream u = hr_raw_bit_stream s"
proof -
  have "hdlc_rx_put_bit_core (s\<lparr>hr_raw_bit_stream := hr_raw_bit_stream s\<rparr>) =
      map_option (hr_raw_bit_stream_update (\<lambda>_. hr_raw_bit_stream s)) (hdlc_rx_put_bit_core s)"
    by (rule put_bit_core_raw) simp
  then have "u = u\<lparr>hr_raw_bit_stream := hr_raw_bit_stream s\<rparr>"
    using assms by simp
  then show ?thesis
    by (metis hdlc_rx_state.select_convs(9) hdlc_rx_state.surjective hdlc_rx_state.update_convs(9))
qed

lemma rx_shift_hist:
  assumes "hr_raw_bit_stream s = push_bit 8 (shift_word h)"
  shows "rx_shift b s = s\<lparr>hr_raw_bit_stream := push_bit 8 (shift_word (h @ [b]))\<rparr>"
  unfolding rx_shift_def mask_100 assms shifted_raw ..

lemma pending_bits_agree:
  assumes "8 \<le> i" and "length bs < 8"
  shows "bit (push_bit (8 - length bs) (shift_word (h @ [b] @ bs))) i = bit (push_bit 8 (shift_word (h @ [b]))) i"
proof -
  have "rev (h @ [b] @ bs) ! (i - (8 - length bs)) = rev (h @ [b]) ! (i - 8)"
    using assms nth_append_length_plus [of "rev bs" "rev (h @ [b])" "i - 8"]
    by (simp add: add.commute)
  then show ?thesis
    using assms by (auto simp: bit_push_bit_iff bit_shift_word)
qed

lemma put_bits_core_bits:
  assumes "hr_raw_bit_stream s = push_bit 8 (shift_word h)" and "length bs \<le> 8"
  shows "put_bits_core (length bs) (s\<lparr>hr_raw_bit_stream := push_bit (8 - length bs) (shift_word (h @ bs))\<rparr>) =
    rx_bits s bs"
  using assms
proof (induction bs arbitrary: s h)
  case Nil
  then show ?case by (simp flip: Nil(1))
next
  case (Cons b bs)
  let ?x = "push_bit (8 - length bs) (shift_word (h @ [b] @ bs))"
  let ?s1 = "rx_shift b s"
  have s1: "?s1 = s\<lparr>hr_raw_bit_stream := push_bit 8 (shift_word (h @ [b]))\<rparr>"
    by (rule rx_shift_hist) (rule Cons.prems)
  have shift: "push_bit 1 (push_bit (8 - length (b # bs)) (shift_word (h @ b # bs))) = ?x"
    using Cons.prems(2) by (simp only: push_bit_twice append_Cons append_Nil) (metis Suc_diff_Suc Suc_le_eq diff_Suc_Suc
        length_Cons plus_1_eq_Suc)
  have "hdlc_rx_put_bit_core (?s1\<lparr>hr_raw_bit_stream := ?x\<rparr>) =
      map_option (hr_raw_bit_stream_update (\<lambda>_. ?x)) (hdlc_rx_put_bit_core ?s1)"
    by (rule put_bit_core_raw) (use pending_bits_agree [of _ bs h b] Cons.prems(2) in \<open>simp add: s1\<close>)
  moreover have "?s1\<lparr>hr_raw_bit_stream := ?x\<rparr> = s\<lparr>hr_raw_bit_stream := ?x\<rparr>"
    by (simp add: s1)
  ultimately have core: "hdlc_rx_put_bit_core (s\<lparr>hr_raw_bit_stream := ?x\<rparr>) =
      map_option (hr_raw_bit_stream_update (\<lambda>_. ?x)) (hdlc_rx_put_bit_core ?s1)"
    by simp
  have "put_bits_core (length (b # bs))
      (s\<lparr>hr_raw_bit_stream := push_bit (8 - length (b # bs)) (shift_word (h @ b # bs))\<rparr>) =
    do { s \<leftarrow> hdlc_rx_put_bit_core (s\<lparr>hr_raw_bit_stream := ?x\<rparr>); put_bits_core (length bs) s }"
    using shift by (simp del: push_bit_Suc)
  also have "\<dots> = do { u \<leftarrow> hdlc_rx_put_bit_core ?s1; rx_bits u bs }"
  proof (cases "hdlc_rx_put_bit_core ?s1")
    case (Some u)
    then have "hr_raw_bit_stream u = push_bit 8 (shift_word (h @ [b]))"
      using put_bit_core_keeps_raw [OF Some] s1 by simp
    then have "put_bits_core (length bs) (u\<lparr>hr_raw_bit_stream := ?x\<rparr>) = rx_bits u bs"
      using Cons.IH [of u "h @ [b]"] Cons.prems(2) by simp
    with Some core show ?thesis by simp
  qed (use core in simp)
  finally show ?case
    by (simp only: rx_bits.simps put_bit_bool)
qed

lemma shift_word_octet: "shift_word (h @ bits_msb b) = push_bit 8 (shift_word h) OR ucast b"
  by (rule bit_word_eqI)
    (auto simp: bit_shift_word bit_simps bits_msb_def nth_append bits_lsb_nth bit_u8_bound)

lemma of_int_uint_octet: "(of_int (uint (b :: u8)) :: u32) = ucast b"
  by (simp only: ucast_eq)

lemma put_byte_hist:
  assumes "hr_raw_bit_stream s = push_bit 8 (shift_word h)"
  shows "hdlc_rx_put_byte s (uint b) = rx_bits s (bits_msb b)"
proof -
  have "hdlc_rx_put_byte s (uint b) = put_bits_core 8 (s\<lparr>hr_raw_bit_stream := push_bit 8 (shift_word h) OR ucast b\<rparr>)"
    unfolding hdlc_rx_put_byte_def of_int_uint_octet assms by (simp add: linorder_not_less)
  with put_bits_core_bits [OF assms, of "bits_msb b"] show ?thesis
    by (simp add: shift_word_octet)
qed

lemma raw_as_hist:
  assumes "take_bit 8 w = (0 :: u32)"
  shows "\<exists>h. w = push_bit 8 (shift_word h)"
proof
  show "w = push_bit 8 (shift_word (rev (map (\<lambda>i. bit w (i + 8)) [0..<24])))"
  proof (rule bit_word_eqI)
    fix i assume "i < LENGTH(32)"
    moreover have "\<not> bit w i" if "i < 8"
      using assms that by (metis bit_0_eq bit_take_bit_iff bot_apply bot_bool_def)
    ultimately show "bit w i = bit (push_bit 8 (shift_word (rev (map (\<lambda>i. bit w (i + 8)) [0..<24])))) i"
      by (cases "i < 8") (auto simp: bit_push_bit_iff bit_shift_word)
  qed
qed

lemma put_byte_bits:
  "take_bit 8 (hr_raw_bit_stream s) = 0 \<Longrightarrow> hdlc_rx_put_byte s (uint b) = rx_bits s (bits_msb b)"
  using raw_as_hist put_byte_hist by blast


section \<open>Properties\<close>

text \<open>
  Claim C14. Putting an octet into the HDLC receiver is putting its eight bits, most significant bit
  first, whatever the state of the receiver, as long as no part of an octet is left in the register,
  which holds at octet boundaries.
\<close>
theorem hdlc_rx_octet_is_bits:
  assumes "take_bit 8 (hr_raw_bit_stream s) = 0"
  shows "hdlc_rx_put_byte s (uint b) = rx_bits s (bits_msb b)"
  using assms by (rule put_byte_bits)

theorem hdlc_rx_octet_is_bits_witness:
  "hdlc_rx_put_byte (hdlc_rx_init True False 1 True) 0x7E =
     rx_bits (hdlc_rx_init True False 1 True) (bits_msb 0x7E)"
proof -
  have "take_bit 8 (hr_raw_bit_stream (hdlc_rx_init True False 1 True)) = 0"
    by (simp add: hdlc_rx_init_def)
  from hdlc_rx_octet_is_bits [OF this, of "0x7E"] show ?thesis by simp
qed

end
