(* ===== verification/Hdlc_Link.thy ===== *)
theory Hdlc_Link
  imports Hdlc_Framing Hdlc_Rx_Octets "HOL-Library.Sublist"
begin

text \<open>
  The HDLC transmitter and receiver back to back. The locale \<open>frame_source\<close> states what the link needs
  of an underflow handler: on each underflow it loads the next frame of its queue, or leaves the
  transmitter idle. For every such handler all frames arrive, in order, once, and nothing else does.
\<close>

section \<open>The receiver's log only grows\<close>

lemma log_report: "prefix (hr_log s) (hr_log (report_status_change s st))"
  by (simp add: report_status_change_def)

lemma log_octet_counts [simp]:
  "prefix (hr_log s) (hr_log (octet_set_and_count s))" "prefix (hr_log s) (hr_log (octet_count s))"
  by (simp_all add: octet_set_and_count_def octet_count_def count_down_def report_status_change_def Let_def)

lemma log_call_frame_handler: "call_frame_handler s ok = Some s' \<Longrightarrow> prefix (hr_log s) (hr_log s')"
  by (auto simp: call_frame_handler_def split: if_splits bind_splits)

lemma log_frame_end:
  assumes "rx_frame_end s = Some s'"
  shows "prefix (hr_log s) (hr_log s')"
  using assms log_call_frame_handler unfolding rx_frame_end_def
  by (fastforce split: if_splits bind_splits)

lemma log_flag_or_abort:
  assumes "rx_flag_or_abort s = Some s'"
  shows "prefix (hr_log s) (hr_log s')"
proof -
  have abort: "prefix (hr_log s) (hr_log (octet_set_and_count
      (report_status_change (s\<lparr>hr_rx_aborts := n\<rparr>) st\<lparr>hr_flags_seen := f\<rparr>)))" for n st f
    by (simp add: octet_set_and_count_def count_down_def report_status_change_def Let_def)
  have pre: "prefix (hr_log s) (hr_log (rx_preamble_flag (s\<lparr>hr_octet_counting_mode := False\<rparr>)))"
    by (simp add: rx_preamble_flag_def report_status_change_def Let_def)
  have frame: "prefix (hr_log s) (hr_log u)" if "rx_frame_end (s\<lparr>hr_octet_counting_mode := False\<rparr>) = Some u" for u
    using log_frame_end [OF that] by simp
  show ?thesis
    using assms abort pre frame by (auto simp: rx_flag_or_abort_def Let_def split: if_splits bind_splits)
qed

lemma log_collect_bit:
  assumes "rx_collect_bit s = Some s'"
  shows "prefix (hr_log s) (hr_log s')"
proof -
  have count: "prefix (hr_log s) (hr_log (octet_count (s\<lparr>hr_num_bits := n\<rparr>)))" for n
    using log_octet_counts(2) [of "s\<lparr>hr_num_bits := n\<rparr>"] by simp
  have store: "prefix (hr_log t) (hr_log u)" if "rx_store_octet t = Some u" for t u
    using that log_octet_counts(1) [of "t\<lparr>hr_len := a, hr_flags_seen := b\<rparr>" for a b]
    by (auto simp: rx_store_octet_def split: if_splits bind_splits)
  show ?thesis
    using assms count store by (fastforce simp: rx_collect_bit_def Let_def split: if_splits bind_splits)
qed

lemma log_put_bit: "hdlc_rx_put_bit s (of_bool b) = Some s' \<Longrightarrow> prefix (hr_log s) (hr_log s')"
  using log_flag_or_abort [of "rx_shift b s"] log_collect_bit [of "rx_shift b s"]
  by (auto simp: put_bit_bool hdlc_rx_put_bit_core_def rx_shift_def split: if_splits)

lemma log_bits: "rx_bits s bs = Some s' \<Longrightarrow> prefix (hr_log s) (hr_log s')"
proof (induction bs arbitrary: s)
  case (Cons b bs)
  then obtain u where "hdlc_rx_put_bit s (of_bool b) = Some u" "rx_bits u bs = Some s'"
    by (auto split: bind_splits)
  with log_put_bit Cons.IH show ?case
    by (meson prefix_order.trans)
qed simp

section \<open>Octets into the receiver\<close>

definition rx_aligned :: "hdlc_rx_state \<Rightarrow> bool" where
  "rx_aligned s \<longleftrightarrow> (\<exists>h. hr_raw_bit_stream s = push_bit 8 (shift_word h))"

lemma rx_aligned_put_bit:
  assumes "rx_aligned s" and "hdlc_rx_put_bit s (of_bool b) = Some s'"
  shows "rx_aligned s'"
proof -
  obtain h where h: "hr_raw_bit_stream s = push_bit 8 (shift_word h)"
    using assms(1) by (auto simp: rx_aligned_def)
  have "hr_raw_bit_stream s' = hr_raw_bit_stream (rx_shift b s)"
    using assms(2) by (simp add: put_bit_bool put_bit_core_keeps_raw)
  with rx_shift_hist [OF h, of b] show ?thesis
    by (auto simp: rx_aligned_def)
qed

lemma rx_aligned_bits: "rx_aligned s \<Longrightarrow> rx_bits s bs = Some s' \<Longrightarrow> rx_aligned s'"
proof (induction bs arbitrary: s)
  case (Cons b bs)
  then obtain u where "hdlc_rx_put_bit s (of_bool b) = Some u" "rx_bits u bs = Some s'"
    by (auto split: bind_splits)
  with Cons rx_aligned_put_bit show ?case
    by blast
qed simp

lemma put_octets_bits: "rx_aligned s \<Longrightarrow> hdlc_rx_put s os = rx_bits s (stream_msb os)"
proof (induction os arbitrary: s)
  case (Cons x os)
  then have "hdlc_rx_put_byte s (uint x) = rx_bits s (bits_msb x)"
    using put_byte_hist by (auto simp: rx_aligned_def)
  with Cons rx_aligned_bits [OF Cons.prems, of "bits_msb x"] show ?case
    by (cases "rx_bits s (bits_msb x)") (simp_all add: rx_bits_append)
qed simp

lemma rx_aligned_init: "rx_aligned (hdlc_rx_init crc32 bad thr handler)"
  unfolding rx_aligned_def by (rule exI [of _ "[]"]) (simp add: hdlc_rx_init_def)

section \<open>Frames on the line\<close>

definition frame_line :: "nat \<Rightarrow> octets \<Rightarrow> bits" where
  "frame_line n msg = stuff 0 (stream_lsb (hdlc_framed n msg)) @ hdlc_flag"

definition frames_line :: "nat \<Rightarrow> nat \<Rightarrow> octets list \<Rightarrow> bits" where
  "frames_line n k msgs = concat (map (\<lambda>msg. frame_line n msg @ flags_line k) msgs)"

lemma framed_length: "n \<in> {2, 4} \<Longrightarrow> length (hdlc_framed n msg) = length msg + n"
  by (auto simp: hdlc_framed_def crc_itu16_append_def crc_itu32_append_def Let_def)

lemma framed_good:
  assumes "n \<in> {2, 4}"
  shows "rx_crc_good n (hdlc_framed n msg)" and "take (length msg) (hdlc_framed n msg) = msg"
proof -
  have 16: "crc_itu16_check (crc_itu16_append msg)"
    using crc_itu16_check_iff [of msg] by (simp add: crc_itu16_append_def Let_def)
  have 32: "crc_itu32_check (crc_itu32_append msg)"
    using crc_itu32_check_iff [of msg] by (simp add: crc_itu32_append_def Let_def)
  from assms 16 32 show "rx_crc_good n (hdlc_framed n msg)"
    by (auto simp: rx_crc_good_def hdlc_framed_def)
  from assms show "take (length msg) (hdlc_framed n msg) = msg"
    by (auto simp: hdlc_framed_def crc_itu16_append_def crc_itu32_append_def Let_def)
qed

lemma framed_report: "n \<in> {2, 4} \<Longrightarrow> rx_report n bad (hdlc_framed n msg) = [Frame msg True]"
  using framed_good [of n msg] framed_length [of n msg] by (auto simp: rx_report_def)

lemma rx_flags_line:
  "rx_ready s \<Longrightarrow> \<exists>s'. rx_bits s (flags_line k) = Some s' \<and> rx_ready s' \<and> hr_log s' = hr_log s \<and> rx_config_same s s'"
  unfolding flags_line_def by (rule ready_flags)

lemma rx_frame_line:
  assumes ready: "rx_ready s" and msg: "length msg + hr_crc_bytes s \<le> hr_max_frame_len s"
  shows "\<exists>s'. rx_bits s (frame_line (hr_crc_bytes s) msg) = Some s' \<and> rx_ready s' \<and>
    hr_log s' = hr_log s @ [Frame msg True] \<and> rx_config_same s s'"
proof -
  have n: "hr_crc_bytes s \<in> {2, 4}"
    using ready by (simp add: rx_ready_def)
  show ?thesis
    using rx_bits_frame [OF ready, of "hdlc_framed (hr_crc_bytes s) msg"] framed_length [OF n] framed_report [OF n] msg
    unfolding frame_line_def by metis
qed

lemma rx_frames_line:
  assumes "rx_ready s" and "hr_crc_bytes s = n" and "\<forall>msg\<in>set msgs. length msg + n \<le> hr_max_frame_len s"
  shows "\<exists>s'. rx_bits s (frames_line n k msgs) = Some s' \<and> rx_ready s' \<and>
    hr_log s' = hr_log s @ map (\<lambda>msg. Frame msg True) msgs \<and> rx_config_same s s'"
  using assms
proof (induction msgs arbitrary: s)
  case Nil
  then show ?case by (simp add: frames_line_def)
next
  case (Cons msg msgs)
  obtain s1 where s1: "rx_bits s (frame_line n msg) = Some s1" "rx_ready s1" "hr_log s1 = hr_log s @ [Frame msg True]"
    "rx_config_same s s1"
    using rx_frame_line [OF Cons.prems(1), of msg] Cons.prems(2,3) by auto
  obtain s2 where s2: "rx_bits s1 (flags_line k) = Some s2" "rx_ready s2" "hr_log s2 = hr_log s1" "rx_config_same s1 s2"
    using rx_flags_line [OF s1(2)] by blast
  have cfg: "rx_config_same s s2"
    using s1(4) s2(4) by (rule rx_config_same_trans)
  then have "hr_crc_bytes s2 = n" "\<forall>msg\<in>set msgs. length msg + n \<le> hr_max_frame_len s2"
    using Cons.prems by (simp_all add: rx_config_same_def)
  from Cons.IH [OF s2(2) this] obtain s' where "rx_bits s2 (frames_line n k msgs) = Some s'" "rx_ready s'"
    "hr_log s' = hr_log s2 @ map (\<lambda>msg. Frame msg True) msgs" "rx_config_same s2 s'"
    by blast
  with s1 s2 cfg show ?case
    by (intro exI [of _ s']) (auto simp: frames_line_def rx_bits_append intro: rx_config_same_trans)
qed

lemma rx_whole_line:
  fixes thr :: int and crc32 bad :: bool
  defines "s0 \<equiv> hdlc_rx_init crc32 bad thr True"
  assumes "1 \<le> k" and "thr \<le> int k" and msgs: "\<forall>msg\<in>set msgs. length msg \<le> HDLC_MAXFRAME_LEN"
  shows "\<exists>s'. rx_bits s0 (flags_line k @ frames_line (hr_crc_bytes s0) j msgs @ flags_line m) = Some s' \<and> rx_ready s' \<and>
    hr_log s' = Frame_Status SIG_STATUS_FRAMING_OK # map (\<lambda>msg. Frame msg True) msgs"
proof -
  have init: "hr_log s0 = []" "hr_framing_ok_threshold s0 \<le> int (0 + k)" "\<not> hr_status_handler s0"
    "hr_max_frame_len s0 = HDLC_MAXFRAME_LEN + 4" "hr_crc_bytes s0 \<in> {2, 4}"
    using assms(2,3) by (simp_all add: s0_def hdlc_rx_init_def)
  have hunt: "rx_hunt 0 s0"
    unfolding s0_def by (rule hunt_init)
  from hunt_flags [OF hunt init(2)] obtain s1 where s1: "rx_bits s0 (flags_line k) = Some s1" "rx_ready s1"
    "hr_log s1 = [Frame_Status SIG_STATUS_FRAMING_OK]" "rx_config_same s0 s1"
    using init(1,3) by (auto simp: flags_line_def status_event_def)
  have "hr_crc_bytes s1 = hr_crc_bytes s0" "\<forall>msg\<in>set msgs. length msg + hr_crc_bytes s0 \<le> hr_max_frame_len s1"
    using s1(4) init(4,5) msgs by (auto simp: rx_config_same_def)
  from rx_frames_line [OF s1(2) this] obtain s2 where s2: "rx_bits s1 (frames_line (hr_crc_bytes s0) j msgs) = Some s2"
    "rx_ready s2" "hr_log s2 = hr_log s1 @ map (\<lambda>msg. Frame msg True) msgs"
    by blast
  obtain s3 where "rx_bits s2 (flags_line m) = Some s3" "rx_ready s3" "hr_log s3 = hr_log s2"
    using rx_flags_line [OF s2(2)] by blast
  with s1 s2 show ?thesis
    by (intro exI [of _ s3]) (simp add: rx_bits_append)
qed

section \<open>Flags from the transmitter\<close>

lemma tx_timed_flags_line:
  "tx_base p s \<Longrightarrow> ht_flag_octets s = int k \<Longrightarrow> \<not> ht_report_flag_underflow s \<Longrightarrow>
   tx_sends uf s p (flags_line k) (s\<lparr>ht_flag_octets := 0\<rparr>) p"
proof (induction k arbitrary: s)
  case 0
  then have "s\<lparr>ht_flag_octets := 0\<rparr> = s" by simp
  then show ?case by (simp add: tx_sends_refl)
next
  case (Suc k)
  let ?s1 = "s\<lparr>ht_flag_octets := ht_flag_octets s - 1\<rparr>"
  have one: "tx_sends uf s p hdlc_flag ?s1 p"
    using tx_idle_flag [OF Suc.prems(1)] Suc.prems(2,3) by simp
  have "tx_base p ?s1"
    using Suc.prems(1) by (simp add: tx_base_def)
  from Suc.IH [OF this] Suc.prems have "tx_sends uf ?s1 p (flags_line k) (s\<lparr>ht_flag_octets := 0\<rparr>) p"
    by simp
  from tx_sends_trans [OF one this] show ?case by simp
qed

lemma tx_idle_line:
  assumes "tx_idle p s" and "ht_flag_octets s = 0" and "\<not> ht_tx_end s"
  shows "tx_sends uf s p (flags_line m) s p"
proof (induction m)
  case (Suc m)
  obtain x where x: "uint (ht_idle_octet s) = uint (x :: u8)" "bits_msb x @ p = p @ hdlc_flag"
    using tx_idle_octet_line assms(1) by (auto simp: tx_idle_def)
  have "hdlc_tx_get_byte uf s = Some (uint x, s)"
    using assms x(1) by (simp add: hdlc_tx_get_byte_def tx_idle_def)
  from tx_sends_trans [OF tx_sends_byte [OF this x(2)] Suc.IH] show ?case by simp
qed (simp add: tx_sends_refl)

section \<open>What the link needs of an underflow handler\<close>

definition tx_kept :: "'u hdlc_tx_state_scheme \<Rightarrow> 'u hdlc_tx_state_scheme \<Rightarrow> bool" where
  "tx_kept c u \<longleftrightarrow> ht_crc_bytes u = ht_crc_bytes c \<and> ht_inter_frame_flags u = ht_inter_frame_flags c \<and>
     ht_max_frame_len u = ht_max_frame_len c \<and> ht_flag_octets u = ht_flag_octets c \<and>
     ht_report_flag_underflow u = ht_report_flag_underflow c \<and> (ht_tx_end u \<longrightarrow> ht_tx_end c)"

locale frame_source =
  fixes next_frame :: "'u hdlc_tx_state_scheme \<Rightarrow> 'u hdlc_tx_state_scheme option"
    and queue :: "'u hdlc_tx_state_scheme \<Rightarrow> octets list"
  assumes queue_user_data: "hdlc_tx_state.more s = hdlc_tx_state.more s' \<Longrightarrow> queue s = queue s'"
    and underflow_empty: "tx_idle p c \<Longrightarrow> queue c = [] \<Longrightarrow>
      \<exists>u. next_frame c = Some u \<and> tx_idle p u \<and> tx_kept c u"
    and underflow_next: "tx_idle p c \<Longrightarrow> queue c = f # fs \<Longrightarrow> f \<noteq> [] \<Longrightarrow> length f \<le> ht_max_frame_len c \<Longrightarrow>
      \<exists>u. next_frame c = Some u \<and> tx_loaded p f u \<and> tx_kept c u \<and> queue u = fs"
begin

lemma queue_flags [simp]: "queue (s\<lparr>ht_flag_octets := n\<rparr>) = queue s"
  by (rule queue_user_data) simp

lemma send_last:
  assumes "tx_loaded p f s" "ht_flag_octets s = 0" "queue s = []" "1 \<le> ht_inter_frame_flags s" "\<not> ht_tx_end s"
  shows "\<exists>s' p' m. tx_sends (Some next_frame) s p
      (frames_line (ht_crc_bytes s) (nat (ht_inter_frame_flags s - 1)) [f] @ flags_line m) s' p' \<and>
    tx_idle p' s' \<and> ht_flag_octets s' = 0 \<and> \<not> ht_tx_end s'"
proof -
  let ?n = "ht_crc_bytes s" and ?j = "nat (ht_inter_frame_flags s - 1)"
  have f0: "ht_flag_octets s \<le> 0"
    using assms(2) by simp
  obtain p' c where c: "tx_idle p' c" "tx_same s c" "ht_flag_octets c = ht_inter_frame_flags s - 1"
    "\<not> ht_report_flag_underflow c"
    "\<And>u. tx_call_underflow (Some next_frame) c = Some u \<Longrightarrow>
      tx_sends (Some next_frame) s p (frame_line ?n f) (tx_fix_flags u) p'"
    using tx_frame_sent [OF assms(1) f0, of "Some next_frame"] unfolding frame_line_def by blast
  have q: "queue c = []"
    using queue_user_data [of c s] c(2) assms(3) by (simp add: tx_same_def)
  obtain u where u: "next_frame c = Some u" "tx_idle p' u" "tx_kept c u"
    using underflow_empty [OF c(1) q] by blast
  let ?v = "tx_fix_flags u"
  let ?k = "max ?j 2"
  have v: "tx_idle p' ?v" "ht_flag_octets ?v = int ?k" "\<not> ht_report_flag_underflow ?v" "\<not> ht_tx_end ?v"
    using u(2,3) c(2-4) assms(4,5) by (auto simp: tx_fix_flags_def tx_idle_def tx_base_def tx_kept_def tx_same_def)
  have sent: "tx_sends (Some next_frame) s p (frame_line ?n f) ?v p'"
    by (rule c(5)) (simp add: tx_call_underflow_def u(1))
  have "tx_sends (Some next_frame) ?v p' (flags_line ?k) (?v\<lparr>ht_flag_octets := 0\<rparr>) p'"
    using tx_timed_flags_line v by (auto simp: tx_idle_def)
  from tx_sends_trans [OF sent this] have "tx_sends (Some next_frame) s p
      (frames_line ?n ?j [f] @ flags_line (?k - ?j)) (?v\<lparr>ht_flag_octets := 0\<rparr>) p'"
    by (simp add: frames_line_def flags_line_add [symmetric])
  moreover have "tx_idle p' (?v\<lparr>ht_flag_octets := 0\<rparr>)" "\<not> ht_tx_end (?v\<lparr>ht_flag_octets := 0\<rparr>)"
    using v(1,4) by (simp_all add: tx_idle_def tx_base_def)
  ultimately show ?thesis
    by (intro exI [of _ "?v\<lparr>ht_flag_octets := 0\<rparr>"] exI [of _ p'] exI [of _ "?k - ?j"]) simp
qed

lemma send_one:
  assumes "tx_loaded p f s" "ht_flag_octets s = 0" "queue s = g # gs" "1 \<le> ht_inter_frame_flags s" "\<not> ht_tx_end s"
    and "g \<noteq> []" "length g \<le> ht_max_frame_len s"
  shows "\<exists>s' p'. tx_sends (Some next_frame) s p (frames_line (ht_crc_bytes s) (nat (ht_inter_frame_flags s - 1)) [f]) s' p' \<and>
    tx_loaded p' g s' \<and> ht_flag_octets s' = 0 \<and> queue s' = gs \<and> \<not> ht_tx_end s' \<and>
    ht_crc_bytes s' = ht_crc_bytes s \<and> ht_inter_frame_flags s' = ht_inter_frame_flags s \<and>
    ht_max_frame_len s' = ht_max_frame_len s"
proof -
  let ?n = "ht_crc_bytes s" and ?j = "nat (ht_inter_frame_flags s - 1)"
  have f0: "ht_flag_octets s \<le> 0"
    using assms(2) by simp
  obtain p' c where c: "tx_idle p' c" "tx_same s c" "ht_flag_octets c = ht_inter_frame_flags s - 1"
    "\<not> ht_report_flag_underflow c"
    "\<And>u. tx_call_underflow (Some next_frame) c = Some u \<Longrightarrow>
      tx_sends (Some next_frame) s p (frame_line ?n f) (tx_fix_flags u) p'"
    using tx_frame_sent [OF assms(1) f0, of "Some next_frame"] unfolding frame_line_def by blast
  have q: "queue c = g # gs" "length g \<le> ht_max_frame_len c"
    using queue_user_data [of c s] c(2) assms(3,7) by (simp_all add: tx_same_def)
  obtain u where u: "next_frame c = Some u" "tx_loaded p' g u" "tx_kept c u" "queue u = gs"
    using underflow_next [OF c(1) q(1) assms(6) q(2)] by blast
  have fixed: "tx_fix_flags u = u"
    using u(2) by (simp add: tx_fix_flags_def tx_loaded_def)
  have k: "ht_flag_octets u = int ?j" "\<not> ht_report_flag_underflow u" "tx_base p' u"
    using u(2,3) c(3,4) assms(4) by (simp_all add: tx_kept_def tx_loaded_def)
  have sent: "tx_sends (Some next_frame) s p (frame_line ?n f) u p'"
    using c(5) [of u] by (simp add: tx_call_underflow_def u(1) fixed)
  from tx_sends_trans [OF sent tx_timed_flags_line [OF k(3,1,2)]]
  have "tx_sends (Some next_frame) s p (frames_line ?n ?j [f]) (u\<lparr>ht_flag_octets := 0\<rparr>) p'"
    by (simp add: frames_line_def)
  moreover have "tx_loaded p' g (u\<lparr>ht_flag_octets := 0\<rparr>)"
    using u(2) by (simp add: tx_loaded_def tx_base_def)
  ultimately show ?thesis
    using u(3,4) c(2) assms(5)
    by (intro exI [of _ "u\<lparr>ht_flag_octets := 0\<rparr>"] exI [of _ p']) (auto simp: tx_kept_def tx_same_def)
qed

lemma send_frames:
  assumes "tx_loaded p f s" "ht_flag_octets s = 0" "queue s = fs" "1 \<le> ht_inter_frame_flags s" "\<not> ht_tx_end s"
    and "\<forall>g\<in>set fs. g \<noteq> [] \<and> length g \<le> ht_max_frame_len s"
  shows "\<exists>s' p' m. tx_sends (Some next_frame) s p
      (frames_line (ht_crc_bytes s) (nat (ht_inter_frame_flags s - 1)) (f # fs) @ flags_line m) s' p' \<and>
    tx_idle p' s' \<and> ht_flag_octets s' = 0 \<and> \<not> ht_tx_end s'"
  using assms
proof (induction fs arbitrary: p f s)
  case Nil
  then show ?case using send_last by blast
next
  case (Cons g gs)
  from send_one [OF Cons.prems(1-5)] Cons.prems(6) obtain s1 p1 where s1:
    "tx_sends (Some next_frame) s p (frames_line (ht_crc_bytes s) (nat (ht_inter_frame_flags s - 1)) [f]) s1 p1"
    "tx_loaded p1 g s1" "ht_flag_octets s1 = 0" "queue s1 = gs" "\<not> ht_tx_end s1"
    "ht_crc_bytes s1 = ht_crc_bytes s" "ht_inter_frame_flags s1 = ht_inter_frame_flags s"
    "ht_max_frame_len s1 = ht_max_frame_len s"
    by auto
  have "1 \<le> ht_inter_frame_flags s1" and "\<forall>g\<in>set gs. g \<noteq> [] \<and> length g \<le> ht_max_frame_len s1"
    using Cons.prems(4,6) s1(7,8) by simp_all
  from Cons.IH [OF s1(2-4) this(1) s1(5) this(2)] obtain s' p' m where s':
    "tx_sends (Some next_frame) s1 p1
      (frames_line (ht_crc_bytes s) (nat (ht_inter_frame_flags s - 1)) (g # gs) @ flags_line m) s' p'"
    "tx_idle p' s'" "ht_flag_octets s' = 0" "\<not> ht_tx_end s'"
    by (auto simp: s1(6,7))
  from tx_sends_trans [OF s1(1) s'(1)] s'(2-4) show ?case
    by (intro exI [of _ s'] exI [of _ p'] exI [of _ m]) (simp add: frames_line_def)
qed

lemma send_preamble:
  assumes idle: "tx_idle p s" and f: "ht_flag_octets s = int (Suc k)" "ht_report_flag_underflow s"
  shows "tx_sends (Some next_frame) s p (flags_line k) (s\<lparr>ht_flag_octets := 1\<rparr>) p"
  using idle f
proof (induction k arbitrary: s)
  case 0
  then have "s\<lparr>ht_flag_octets := 1\<rparr> = s" by simp
  then show ?case by (simp add: tx_sends_refl)
next
  case (Suc k)
  let ?s1 = "s\<lparr>ht_flag_octets := ht_flag_octets s - 1\<rparr>"
  have base: "tx_base p s"
    using Suc.prems(1) by (simp add: tx_idle_def)
  obtain x where x: "uint (ht_idle_octet s) = uint (x :: u8)" "bits_msb x @ p = p @ hdlc_flag"
    using tx_idle_octet_line [OF base] by blast
  have "hdlc_tx_get_byte (Some next_frame) s = Some (uint x, ?s1)"
    using base Suc.prems(2) x(1) by (simp add: hdlc_tx_get_byte_def tx_timed_flags_def tx_base_def Let_def)
  from tx_sends_byte [OF this x(2)] have one: "tx_sends (Some next_frame) s p hdlc_flag ?s1 p" .
  have "tx_idle p ?s1"
    using Suc.prems(1) by (simp add: tx_idle_def tx_base_def)
  from Suc.IH [OF this] Suc.prems(2,3) have "tx_sends (Some next_frame) ?s1 p (flags_line k) (s\<lparr>ht_flag_octets := 1\<rparr>) p"
    by simp
  from tx_sends_trans [OF one this] show ?case by simp
qed

lemma last_preamble_flag:
  assumes idle: "tx_idle p s" and f: "ht_flag_octets s = 1" "ht_report_flag_underflow s"
    and u: "next_frame (s\<lparr>ht_flag_octets := 0, ht_report_flag_underflow := False\<rparr>) = Some u" "tx_base p u"
  shows "tx_sends (Some next_frame) s p hdlc_flag u p"
proof -
  obtain x where x: "uint (ht_idle_octet u) = uint (x :: u8)" "bits_msb x @ p = p @ hdlc_flag"
    using tx_idle_octet_line [OF u(2)] by blast
  have "hdlc_tx_get_byte (Some next_frame) s = Some (uint x, u)"
    using idle f u x(1)
    by (simp add: hdlc_tx_get_byte_def tx_timed_flags_def tx_idle_def tx_base_def tx_call_underflow_def Let_def)
  then show ?thesis
    using x(2) by (rule tx_sends_byte)
qed

lemma send_all:
  assumes idle: "tx_idle p s" and f: "ht_flag_octets s = int k" "1 \<le> k" "ht_report_flag_underflow s"
    and s: "1 \<le> ht_inter_frame_flags s" "\<not> ht_tx_end s"
    and fs: "\<forall>g\<in>set (queue s). g \<noteq> [] \<and> length g \<le> ht_max_frame_len s"
  shows "\<exists>s' p' m. tx_sends (Some next_frame) s p (flags_line k @
      frames_line (ht_crc_bytes s) (nat (ht_inter_frame_flags s - 1)) (queue s) @ flags_line m) s' p' \<and>
    tx_idle p' s' \<and> ht_flag_octets s' = 0 \<and> \<not> ht_tx_end s'"
proof -
  obtain k' where k': "k = Suc k'"
    using f(2) by (cases k) auto
  let ?n = "ht_crc_bytes s" and ?j = "nat (ht_inter_frame_flags s - 1)"
  let ?s1 = "s\<lparr>ht_flag_octets := 1\<rparr>" and ?c = "s\<lparr>ht_flag_octets := 0, ht_report_flag_underflow := False\<rparr>"
  have pre: "tx_sends (Some next_frame) s p (flags_line k') ?s1 p"
    using send_preamble [OF idle _ f(3)] f(1) k' by simp
  have c: "tx_idle p ?c" "tx_idle p ?s1" "queue ?c = queue s"
    using idle by (auto simp: tx_idle_def tx_base_def intro: queue_user_data)
  have start: "tx_sends (Some next_frame) s p (flags_line k) u p" if "next_frame ?c = Some u" "tx_base p u" for u
  proof -
    have "tx_sends (Some next_frame) ?s1 p hdlc_flag u p"
      by (rule last_preamble_flag) (use c(2) f(3) that in simp_all)
    from tx_sends_trans [OF pre this] show ?thesis
      unfolding k' flags_line_Suc_end .
  qed
  show ?thesis
  proof (cases "queue s")
    case Nil
    obtain u where u: "next_frame ?c = Some u" "tx_idle p u" "tx_kept ?c u"
      using underflow_empty [OF c(1)] c(3) Nil by auto
    with start [OF u(1)] Nil s(2) show ?thesis
      by (intro exI [of _ u] exI [of _ p] exI [of _ 0]) (auto simp: tx_idle_def tx_kept_def frames_line_def)
  next
    case (Cons g gs)
    obtain u where u: "next_frame ?c = Some u" "tx_loaded p g u" "tx_kept ?c u" "queue u = gs"
      using underflow_next [OF c(1), of g gs] c(3) Cons fs by auto
    have "\<exists>s' p' m. tx_sends (Some next_frame) u p
        (frames_line (ht_crc_bytes u) (nat (ht_inter_frame_flags u - 1)) (g # gs) @ flags_line m) s' p' \<and>
      tx_idle p' s' \<and> ht_flag_octets s' = 0 \<and> \<not> ht_tx_end s'"
      by (rule send_frames) (use u s fs Cons in \<open>auto simp: tx_kept_def\<close>)
    then obtain s' p' m where s': "tx_sends (Some next_frame) u p (frames_line ?n ?j (queue s) @ flags_line m) s' p'"
      "tx_idle p' s'" "ht_flag_octets s' = 0" "\<not> ht_tx_end s'"
      using u(3) Cons by (auto simp: tx_kept_def)
    have "tx_sends (Some next_frame) s p (flags_line k) u p"
      using start [OF u(1)] u(2) by (simp add: tx_loaded_def)
    from tx_sends_trans [OF this s'(1)] s'(2-4) show ?thesis
      by blast
  qed
qed

end

section \<open>A sender with a queue of frames\<close>

text \<open>
  A client of the transmitter that loads the next of its queued frames at each underflow through
  \<^verbatim>\<open>hdlc_tx_frame\<close>.
\<close>

record frame_sender = hdlc_tx_state +
  fs_queue :: "octets list"

definition send_queued :: "frame_sender \<Rightarrow> frame_sender option" where
  "send_queued s = (case fs_queue s of
       [] \<Rightarrow> Some s
     | f # fs \<Rightarrow> map_option snd (hdlc_tx_frame (s\<lparr>fs_queue := fs\<rparr>) f))"

definition frame_sender_init :: "bool \<Rightarrow> int \<Rightarrow> bool \<Rightarrow> octets list \<Rightarrow> frame_sender" where
  "frame_sender_init crc32 flags progressive fs =
     hdlc_tx_state.extend (hdlc_tx_init crc32 flags progressive) \<lparr>fs_queue = fs\<rparr>"

lemma frame_sender_more: "hdlc_tx_state.more s = hdlc_tx_state.more s' \<Longrightarrow> fs_queue s = fs_queue s'"
  by (cases s; cases s') (simp add: frame_sender.defs hdlc_tx_state.defs)

interpretation queued: frame_source send_queued fs_queue
proof
  fix s s' :: frame_sender
  assume "hdlc_tx_state.more s = hdlc_tx_state.more s'"
  then show "fs_queue s = fs_queue s'"
    by (rule frame_sender_more)
next
  fix p and c :: frame_sender
  assume "tx_idle p c" and "fs_queue c = []"
  then show "\<exists>u. send_queued c = Some u \<and> tx_idle p u \<and> tx_kept c u"
    by (simp add: send_queued_def tx_kept_def)
next
  fix p and c :: frame_sender and f fs
  assume idle: "tx_idle p c" and q: "fs_queue c = f # fs" and f: "f \<noteq> []" "length f \<le> ht_max_frame_len c"
  let ?c = "c\<lparr>fs_queue := fs\<rparr>"
  have "tx_idle p ?c"
    using idle by (simp add: tx_idle_def tx_base_def)
  from hdlc_tx_frame_loads [OF this f(1)] f(2) obtain buf where
    "hdlc_tx_frame ?c f = Some (0, ?c\<lparr>ht_buffer := buf, ht_crc := tx_crc_of (ht_crc_bytes ?c) f,
       ht_len := length f, ht_tx_end := False\<rparr>)"
    "tx_loaded p f (?c\<lparr>ht_buffer := buf, ht_crc := tx_crc_of (ht_crc_bytes ?c) f,
       ht_len := length f, ht_tx_end := False\<rparr>)"
    by auto
  with q show "\<exists>u. send_queued c = Some u \<and> tx_loaded p f u \<and> tx_kept c u \<and> fs_queue u = fs"
    by (simp add: send_queued_def tx_kept_def)
qed

lemma tx_idle_init:
  "tx_idle [] (snd (hdlc_tx_flags (frame_sender_init crc32 flags progressive fs) k))"
proof -
  have "take 8 hdlc_flag = hdlc_flag"
    by (simp add: hdlc_flag_def)
  with tx_idle_hdlc_tx_init [of crc32 flags progressive] show ?thesis
    by (simp add: tx_idle_def tx_base_def hdlc_tx_flags_def frame_sender_init_def hdlc_tx_init_def
        hdlc_tx_state.defs)
qed

section \<open>Runs of the link\<close>

lemma hdlc_tx_get_take:
  "hdlc_tx_get uf s (length xs) = Some (xs, s') \<Longrightarrow> n \<le> length xs \<Longrightarrow>
   \<exists>t. hdlc_tx_get uf s n = Some (take n xs, t)"
proof (induction xs arbitrary: s n)
  case (Cons x xs)
  show ?case
  proof (cases n)
    case (Suc m)
    from Cons.prems(1) obtain v t where v: "hdlc_tx_get_byte uf s = Some (v, t)" "v \<noteq> SIG_STATUS_END_OF_DATA"
      "hdlc_tx_get uf t (length xs) = Some (xs, s')" "x = of_int v"
      by (auto split: bind_splits if_splits prod.splits)
    from Cons.IH [OF v(3), of m] Cons.prems(2) Suc obtain t' where "hdlc_tx_get uf t m = Some (take m xs, t')"
      by auto
    with v(1,2,4) Suc show ?thesis by simp
  qed simp
qed simp

lemma stream_msb_take: "stream_msb (take n os) = take (8 * n) (stream_msb os)"
proof (induction os arbitrary: n)
  case (Cons x os)
  then show ?case by (cases n) simp_all
qed simp

text \<open>
  A line that begins with \<open>l\<close> and continues with flags. When the receiver reports \<open>full\<close> for \<open>l\<close> and
  for every such continuation, then it reports a part of \<open>full\<close> after any number of octets and all of
  it as soon as the octets cover \<open>l\<close>.
\<close>

lemma link_log:
  assumes sends: "\<And>m. \<exists>t. tx_sends uf s [] (l @ flags_line m) t p"
    and recv: "\<And>m. \<exists>r. rx_bits r0 (l @ flags_line m) = Some r \<and> hr_log r = full"
    and al: "rx_aligned r0" and p: "length p < 8"
  shows "\<exists>n0. \<forall>n. \<exists>os t r. hdlc_tx_get uf s n = Some (os, t) \<and> length os = n \<and>
    hdlc_rx_put r0 os = Some r \<and> prefix (hr_log r) full \<and> (n0 \<le> n \<longrightarrow> hr_log r = full)"
proof (rule exI [of _ "Suc (length l)"], rule allI)
  fix n
  obtain xs t where xs: "hdlc_tx_get uf s (length xs) = Some (xs, t)" "stream_msb xs @ p = l @ flags_line (Suc n)"
    using sends [of "Suc n"] by (auto simp: tx_sends_def)
  have "length (flags_line m) = 8 * m" for m
    by (induction m) (simp_all add: hdlc_flag_def)
  then have lens: "8 * length xs + length p = length l + 8 * Suc n"
    using arg_cong [OF xs(2), of length] by (simp add: hdlc_flag_def)
  then have n: "n \<le> length xs"
    using p by simp
  obtain t' where get: "hdlc_tx_get uf s n = Some (take n xs, t')"
    using hdlc_tx_get_take [OF xs(1) n] by blast
  obtain r1 where r1: "rx_bits r0 (l @ flags_line (Suc n)) = Some r1" "hr_log r1 = full"
    using recv by blast
  have split: "l @ flags_line (Suc n) = stream_msb (take n xs) @ (drop (8 * n) (stream_msb xs) @ p)"
    by (simp only: xs(2) [symmetric] stream_msb_take append_assoc [symmetric] append_take_drop_id)
  obtain r where r: "rx_bits r0 (stream_msb (take n xs)) = Some r" "rx_bits r (drop (8 * n) (stream_msb xs) @ p) = Some r1"
    using r1(1) unfolding split rx_bits_append [of r0] by (auto split: bind_splits)
  have put: "hdlc_rx_put r0 (take n xs) = Some r"
    using put_octets_bits [OF al] r(1) by simp
  have pre: "prefix (hr_log r) full"
    using log_bits [OF r(2)] r1(2) by simp
  have "hr_log r = full" if "Suc (length l) \<le> n"
  proof -
    have "take (8 * n) (l @ flags_line (Suc n)) = stream_msb (take n xs)"
      using n unfolding split by simp
    then have cover: "stream_msb (take n xs) = l @ take (8 * n - length l) (flags_line (Suc n))"
      using that by simp
    obtain r2 where r2: "rx_bits r0 l = Some r2" "hr_log r2 = full"
      using recv [of 0] by auto
    have "rx_bits r2 (take (8 * n - length l) (flags_line (Suc n))) = Some r"
      using r(1) r2(1) unfolding cover rx_bits_append by simp
    from log_bits [OF this] r2(2) pre show ?thesis
      by (simp add: prefix_order.antisym)
  qed
  with get put pre n show "\<exists>os t r. hdlc_tx_get uf s n = Some (os, t) \<and> length os = n \<and>
    hdlc_rx_put r0 os = Some r \<and> prefix (hr_log r) full \<and> (Suc (length l) \<le> n \<longrightarrow> hr_log r = full)"
    by auto
qed

lemma link_delivers:
  fixes thr :: int and crc32 bad progressive :: bool and flags :: int and k :: nat and fs :: "octets list"
  defines "s \<equiv> snd (hdlc_tx_flags (frame_sender_init crc32 flags progressive fs) (int k))"
  defines "r0 \<equiv> hdlc_rx_init crc32 bad thr True"
  assumes k: "1 \<le> k" "thr \<le> int k" and fs: "\<forall>f\<in>set fs. f \<noteq> [] \<and> length f \<le> HDLC_MAXFRAME_LEN"
  shows "\<exists>n0. \<forall>n. \<exists>os t r. hdlc_tx_get (Some send_queued) s n = Some (os, t) \<and> length os = n \<and>
    hdlc_rx_put r0 os = Some r \<and>
    prefix (hr_log r) (Frame_Status SIG_STATUS_FRAMING_OK # map (\<lambda>f. Frame f True) fs) \<and>
    (n0 \<le> n \<longrightarrow> hr_log r = Frame_Status SIG_STATUS_FRAMING_OK # map (\<lambda>f. Frame f True) fs)"
proof -
  have s: "ht_flag_octets s = int k" "ht_report_flag_underflow s" "1 \<le> ht_inter_frame_flags s" "\<not> ht_tx_end s"
    "fs_queue s = fs" "ht_max_frame_len s = HDLC_MAXFRAME_LEN" "ht_crc_bytes s = hr_crc_bytes r0"
    by (simp_all add: s_def r0_def hdlc_tx_flags_def frame_sender_init_def hdlc_tx_init_def hdlc_tx_state.defs
        frame_sender.defs hdlc_rx_init_def)
  let ?j = "nat (ht_inter_frame_flags s - 1)"
  have idle: "tx_idle [] s"
    unfolding s_def by (rule tx_idle_init)
  obtain s' p m0 where all: "tx_sends (Some send_queued) s []
      (flags_line k @ frames_line (ht_crc_bytes s) ?j (fs_queue s) @ flags_line m0) s' p"
    "tx_idle p s'" "ht_flag_octets s' = 0" "\<not> ht_tx_end s'"
    using queued.send_all [OF idle s(1) k(1) s(2-4)] fs s(5,6) by auto
  let ?l = "flags_line k @ frames_line (hr_crc_bytes r0) ?j fs @ flags_line m0"
  show ?thesis
  proof (rule link_log [where l = ?l])
    show "\<exists>t. tx_sends (Some send_queued) s [] (?l @ flags_line m) t p" for m
      using tx_sends_trans [OF all(1) tx_idle_line [OF all(2-4)], of m] s(5,7) by auto
    show "\<exists>r. rx_bits r0 (?l @ flags_line m) = Some r \<and>
        hr_log r = Frame_Status SIG_STATUS_FRAMING_OK # map (\<lambda>f. Frame f True) fs" for m
      using rx_whole_line [OF k, of fs crc32 bad ?j "m0 + m"] fs
      by (auto simp: r0_def flags_line_add)
    show "rx_aligned r0"
      unfolding r0_def by (rule rx_aligned_init)
    show "length p < 8"
      using all(2) by (simp add: tx_idle_def tx_base_def)
  qed
qed

section \<open>Properties\<close>

text \<open>
  Claim C1. An HDLC transmitter and receiver back to back deliver every frame. For any queue of frames
  of 1 to 400 octets, CRC width, number of flags between frames, progressive or not, after a preamble
  of enough flags: whatever number of octets is carried from the transmitter to the receiver, nobody
  fails and the receiver has reported framing and then a prefix of the queued frames, each unchanged
  and once; from some number of octets on it has reported all of them, and nothing else ever.
\<close>
theorem hdlc_link_delivers:
  assumes "1 \<le> k" and "threshold \<le> int k" and "\<forall>f\<in>set fs. f \<noteq> [] \<and> length f \<le> HDLC_MAXFRAME_LEN"
  shows "\<exists>n0. \<forall>n. \<exists>os t r.
    hdlc_tx_get (Some send_queued) (snd (hdlc_tx_flags (frame_sender_init crc32 flags progressive fs) (int k))) n =
      Some (os, t) \<and> length os = n \<and>
    hdlc_rx_put (hdlc_rx_init crc32 report_bad threshold True) os = Some r \<and>
    prefix (hr_log r) (Frame_Status SIG_STATUS_FRAMING_OK # map (\<lambda>f. Frame f True) fs) \<and>
    (n0 \<le> n \<longrightarrow> hr_log r = Frame_Status SIG_STATUS_FRAMING_OK # map (\<lambda>f. Frame f True) fs)"
  using assms by (rule link_delivers)

theorem hdlc_link_delivers_witness:
  "\<exists>n0. \<forall>n. \<exists>os t r.
    hdlc_tx_get (Some send_queued) (snd (hdlc_tx_flags (frame_sender_init False 2 False [[3, 65], [255, 255]]) (int 5))) n =
      Some (os, t) \<and> length os = n \<and>
    hdlc_rx_put (hdlc_rx_init False True 3 True) os = Some r \<and>
    prefix (hr_log r) (Frame_Status SIG_STATUS_FRAMING_OK # map (\<lambda>f. Frame f True) [[3, 65], [255, 255]]) \<and>
    (n0 \<le> n \<longrightarrow> hr_log r = Frame_Status SIG_STATUS_FRAMING_OK # map (\<lambda>f. Frame f True) [[3, 65], [255, 255]])"
  by (rule hdlc_link_delivers) (simp_all add: HDLC_MAXFRAME_LEN_def)

end
