(* ===== verification/Hdlc_Rx_Lengths.thy ===== *)
theory Hdlc_Rx_Lengths
  imports Hdlc_Deframe
begin

text \<open>
  What the HDLC receiver does with a frame longer than its limit.
\<close>

section \<open>Frames that are too long\<close>

definition rx_quiet :: "hdlc_rx_state \<Rightarrow> hdlc_rx_state \<Rightarrow> bool" where
  "rx_quiet s s' \<longleftrightarrow> hr_log s' = hr_log s \<and> hdlc_rx_get_stats s' = hdlc_rx_get_stats s \<and> rx_config_same s s'"

lemma rx_quiet_trans: "rx_quiet s s' \<Longrightarrow> rx_quiet s' s'' \<Longrightarrow> rx_quiet s s''"
  by (auto simp: rx_quiet_def intro: rx_config_same_trans)

lemma rx_quiet_same: "rx_same s s' \<Longrightarrow> rx_quiet s s'"
  by (simp add: rx_quiet_def rx_same_def rx_config_same_def hdlc_rx_get_stats_def)

text \<open>The receiver has given up on a frame and waits for a flag.\<close>

definition rx_lost :: "hdlc_rx_state \<Rightarrow> bool" where
  "rx_lost s \<longleftrightarrow> hr_flags_seen s = hr_framing_ok_threshold s - 1 \<and> hr_octet_count_report_interval s = 0 \<and>
     hr_framing_ok_announced s \<and> hr_max_frame_len s \<le> length (hr_buffer s) \<and>
     (\<forall>i \<ge> 8. \<not> bit (hr_byte_in_progress s) i) \<and> hr_frame_handler s \<and> hr_crc_bytes s \<in> {2, 4}"

lemma rx_lost_shift [simp]: "rx_lost (rx_shift b s) = rx_lost s"
  by (simp add: rx_lost_def rx_shift_def)

lemma lost_bit:
  assumes lost: "rx_lost s" and run: "rx_run r s" and b: "b \<or> r < 5"
  shows "\<exists>s'. hdlc_rx_put_bit s (of_bool b) = Some s' \<and> rx_lost s' \<and> rx_quiet s s' \<and>
    rx_run (if b then Suc r else 0) s'"
proof -
  let ?s = "rx_shift b s"
  let ?s' = "?s\<lparr>hr_num_bits := hr_num_bits ?s + 1\<rparr>"
  have put: "hdlc_rx_put_bit s (of_bool b) = rx_collect_bit ?s"
    using b put_bit_one [OF run] put_bit_zero_data [OF run] by (cases b) simp_all
  have "rx_collect_bit ?s = Some ?s'"
    using lost by (simp add: rx_collect_bit_def rx_lost_def rx_shift_def octet_count_def Let_def)
  moreover have "rx_lost ?s'"
    using lost by (simp add: rx_lost_def rx_shift_def)
  moreover have "rx_quiet s ?s'"
    by (simp add: rx_quiet_def rx_shift_def rx_config_same_def hdlc_rx_get_stats_def)
  moreover have "rx_run (if b then Suc r else 0) ?s'"
    using rx_run_shift [OF run, of b] by (simp add: rx_run_def)
  ultimately show ?thesis
    using put by auto
qed

lemma lost_zero:
  assumes "rx_lost s" and "rx_run 5 s"
  shows "\<exists>s'. hdlc_rx_put_bit s (of_bool False) = Some s' \<and> rx_lost s' \<and> rx_quiet s s' \<and> rx_run 0 s'"
  using put_bit_zero_stuffed [OF assms(2)] assms(1) rx_run_shift [OF assms(2), of False]
    rx_quiet_same [OF rx_same_shift, of s False] by auto

lemma lost_stuffed:
  assumes "rx_lost s" and "rx_run r s" and "r < 5"
  shows "\<exists>s'. rx_bits s (stuff r bs) = Some s' \<and> rx_lost s' \<and> rx_quiet s s' \<and> rx_run (run_after r bs) s'"
  using assms
proof (induction r bs arbitrary: s rule: stuff.induct)
  case (1 r)
  then show ?case by (auto simp: rx_quiet_def)
next
  case (2 r bs)
  obtain s1 where s1: "hdlc_rx_put_bit s (of_bool False) = Some s1" "rx_lost s1" "rx_quiet s s1" "rx_run 0 s1"
    using lost_bit [OF 2(2,3), of False] 2(4) by auto
  from 2(1) [OF s1(2,4)] s1 show ?case
    by (auto intro: rx_quiet_trans)
next
  case (3 r bs)
  obtain s1 where s1: "hdlc_rx_put_bit s (of_bool True) = Some s1" "rx_lost s1" "rx_quiet s s1" "rx_run (Suc r) s1"
    using lost_bit [OF 3(3,4), of True] by auto
  show ?case
  proof (cases "r = 4")
    case True
    with s1(4) have "rx_run 5 s1" by simp
    from lost_zero [OF s1(2) this] obtain s2 where s2: "hdlc_rx_put_bit s1 (of_bool False) = Some s2" "rx_lost s2"
      "rx_quiet s1 s2" "rx_run 0 s2"
      by blast
    from 3(1) [OF True s2(2,4)] s1 s2 True show ?thesis
      by (auto intro: rx_quiet_trans)
  next
    case False
    from 3(2) [OF False s1(2,4)] 3(5) s1 False show ?thesis
      by (auto intro: rx_quiet_trans)
  qed
qed

lemma lost_ones:
  "rx_lost s \<Longrightarrow> rx_run r s \<Longrightarrow>
   \<exists>s'. rx_bits s (replicate n True) = Some s' \<and> rx_lost s' \<and> rx_quiet s s' \<and> rx_run (r + n) s'"
proof (induction n arbitrary: s r)
  case (Suc n)
  obtain s1 where s1: "hdlc_rx_put_bit s (of_bool True) = Some s1" "rx_lost s1" "rx_quiet s s1" "rx_run (Suc r) s1"
    using lost_bit [OF Suc.prems, of True] by auto
  from Suc.IH [OF s1(2,4)] s1 show ?case
    by (auto intro: rx_quiet_trans)
qed (auto simp: rx_quiet_def)

lemma lost_flag:
  assumes "rx_lost s" and "rx_run r s" and "r < 5"
  shows "\<exists>s'. rx_bits s hdlc_flag = Some s' \<and> rx_ready s' \<and> rx_quiet s s'"
proof -
  obtain s1 where s1: "hdlc_rx_put_bit s (of_bool False) = Some s1" "rx_lost s1" "rx_quiet s s1" "rx_run 0 s1"
    using lost_bit [OF assms(1,2), of False] assms(3) by auto
  obtain s2 where s2: "rx_bits s1 (replicate 6 True) = Some s2" "rx_lost s2" "rx_quiet s1 s2" "rx_run 6 s2"
    using lost_ones [OF s1(2,4), of 6] by auto
  let ?s = "rx_shift False s2"
  define x where "x = hr_raw_bit_stream ?s"
  have sh: "?s = s2\<lparr>hr_raw_bit_stream := x\<rparr>"
    by (simp add: rx_shift_def x_def)
  let ?s' = "s2\<lparr>hr_raw_bit_stream := x, hr_octet_counting_mode := False, hr_flags_seen := hr_framing_ok_threshold s2,
      hr_len := 0, hr_num_bits := 0\<rparr>"
  have "\<not> bit x 15"
    using put_bit_zero_flag(2) [OF s2(4)] by (simp add: x_def)
  then have "rx_flag_or_abort ?s = Some ?s'"
    unfolding sh using s2(2)
    by (simp add: rx_flag_or_abort_def mask_bits rx_preamble_flag_def flags_back_off_def rx_lost_def Let_def)
  with put_bit_zero_flag(1) [OF s2(4)] have last: "hdlc_rx_put_bit s2 (of_bool False) = Some ?s'"
    by simp
  have "rx_bits s hdlc_flag = Some ?s'"
    unfolding hdlc_flag_parts rx_bits_append using s1(1) s2(1) last by simp
  moreover have "rx_run 0 ?s'"
    using rx_run_shift [OF s2(4), of False] by (simp add: rx_run_def x_def)
  then have "rx_ready ?s'"
    using s2(2) by (simp add: rx_ready_def rx_data_def rx_lost_def)
  moreover have "rx_quiet s2 ?s'"
    by (simp add: rx_quiet_def rx_config_same_def hdlc_rx_get_stats_def)
  ultimately show ?thesis
    using s1(3) s2(3) by (blast intro: rx_quiet_trans)
qed

lemma overflow_bit:
  assumes d: "rx_data D s" and run: "rx_run r s" and b: "b \<or> r < 5"
    and len: "length D = 8 * hr_max_frame_len s + 7"
    and s: "hr_octet_count_report_interval s = 0" "hr_framing_ok_announced s" "hr_frame_handler s" "hr_crc_bytes s \<in> {2, 4}"
  shows "\<exists>s'. hdlc_rx_put_bit s (of_bool b) = Some s' \<and> rx_lost s' \<and> rx_quiet s s' \<and>
    rx_run (if b then Suc r else 0) s'"
proof -
  let ?s = "rx_shift b s"
  define x where "x = hr_raw_bit_stream ?s"
  define w where "w = drop_bit 1 (hr_byte_in_progress s OR (x AND 0x100))"
  have sh: "?s = s\<lparr>hr_raw_bit_stream := x\<rparr>"
    by (simp add: rx_shift_def x_def)
  let ?s' = "s\<lparr>hr_raw_bit_stream := x, hr_byte_in_progress := w, hr_len := length (hr_buffer s) + 1,
      hr_flags_seen := hr_framing_ok_threshold s - 1, hr_num_bits := 0\<rparr>"
  have put: "hdlc_rx_put_bit s (of_bool b) = rx_collect_bit ?s"
    using b put_bit_one [OF run] put_bit_zero_data [OF run] by (cases b) simp_all
  have f: "hr_framing_ok_threshold s \<le> hr_flags_seen s" "hr_len s = hr_max_frame_len s" "hr_num_bits s = 7"
    "\<forall>i \<ge> 8. \<not> bit (hr_byte_in_progress s) i" "hr_max_frame_len s \<le> length (hr_buffer s)"
    using d len by (simp_all add: rx_data_def)
  have "rx_collect_bit ?s = Some ?s'"
    unfolding sh using f(1-3) s(1)
    by (simp add: rx_collect_bit_def rx_store_octet_def octet_set_and_count_def Let_def w_def)
  moreover have "\<forall>i\<ge>8. \<not> bit w i"
    using f(4) bit_next_byte [OF f(4), of x, folded w_def] by simp
  then have "rx_lost ?s'"
    using s f(5) by (simp add: rx_lost_def)
  moreover have "rx_quiet s ?s'"
    by (simp add: rx_quiet_def rx_config_same_def hdlc_rx_get_stats_def)
  moreover have "rx_run (if b then Suc r else 0) ?s'"
    using rx_run_shift [OF run, of b] by (simp add: rx_run_def x_def)
  ultimately show ?thesis
    using put by auto
qed

lemma overflow_stuffed:
  assumes d: "rx_data D s" and run: "rx_run r s" "r < 5"
    and len: "length D = 8 * hr_max_frame_len s + 7"
    and s: "hr_octet_count_report_interval s = 0" "hr_framing_ok_announced s" "hr_frame_handler s" "hr_crc_bytes s \<in> {2, 4}"
  shows "\<exists>s'. rx_bits s (stuff r [b]) = Some s' \<and> rx_lost s' \<and> rx_quiet s s' \<and> rx_run (run_after r [b]) s'"
proof -
  have "b \<or> r < 5"
    using run(2) by simp
  from overflow_bit [OF d run(1) this len s] obtain s1 where s1: "hdlc_rx_put_bit s (of_bool b) = Some s1"
    "rx_lost s1" "rx_quiet s s1" "rx_run (if b then Suc r else 0) s1"
    by blast
  show ?thesis
  proof (cases "b \<and> r = 4")
    case True
    with s1(4) have "rx_run 5 s1" by simp
    from lost_zero [OF s1(2) this] s1 True show ?thesis
      by (auto intro: rx_quiet_trans)
  next
    case False
    with s1 show ?thesis by (cases b) auto
  qed
qed

lemma rx_bits_too_long:
  assumes ready: "rx_ready s" and long: "hr_max_frame_len s < length bs"
    and s: "hr_octet_count_report_interval s = 0" "hr_framing_ok_announced s"
  shows "\<exists>s'. rx_bits s (stuff 0 (stream_lsb bs) @ hdlc_flag) = Some s' \<and> rx_ready s' \<and> rx_quiet s s'"
proof -
  let ?m = "hr_max_frame_len s"
  let ?D = "take (8 * ?m + 7) (stream_lsb bs)" and ?b = "stream_lsb bs ! (8 * ?m + 7)"
  let ?rest = "drop (Suc (8 * ?m + 7)) (stream_lsb bs)"
  have "8 * ?m + 7 < length (stream_lsb bs)"
    using long by simp
  then have split: "stream_lsb bs = ?D @ [?b] @ ?rest"
    using id_take_nth_drop [of "8 * ?m + 7" "stream_lsb bs"] by (simp only: append_Cons append_Nil)
  have lenD: "length ?D = 8 * ?m + 7"
    using long by simp
  from ready have r: "rx_data [] s" "rx_run 0 s" "hr_frame_handler s" "hr_crc_bytes s \<in> {2, 4}"
    by (simp_all add: rx_ready_def)
  have "(length [] + length ?D) div 8 \<le> ?m"
    unfolding lenD by simp
  from rx_stuffed [OF r(1,2) _ this] obtain s1 where s1: "rx_bits s (stuff 0 ?D) = Some s1" "rx_data ?D s1"
    "rx_same s s1" "rx_run (run_after 0 ?D) s1"
    by auto
  have r1: "run_after 0 ?D < 5"
    by (rule run_after_less) simp
  obtain s2 where s2: "rx_bits s1 (stuff (run_after 0 ?D) [?b]) = Some s2" "rx_lost s2" "rx_quiet s1 s2"
    "rx_run (run_after (run_after 0 ?D) [?b]) s2"
    using overflow_stuffed [OF s1(2,4) r1, of ?b] lenD s r rx_sameD [OF s1(3)] by auto
  have r2: "run_after (run_after 0 ?D) [?b] < 5"
    by (rule run_after_less) (rule r1)
  obtain s3 where s3: "rx_bits s2 (stuff (run_after (run_after 0 ?D) [?b]) ?rest) = Some s3" "rx_lost s3" "rx_quiet s2 s3"
    "rx_run (run_after (run_after (run_after 0 ?D) [?b]) ?rest) s3"
    using lost_stuffed [OF s2(2,4) r2] by blast
  obtain s4 where s4: "rx_bits s3 hdlc_flag = Some s4" "rx_ready s4" "rx_quiet s3 s4"
    using lost_flag [OF s3(2,4) run_after_less [OF r2]] by blast
  have "rx_bits s (stuff 0 (?D @ [?b] @ ?rest) @ hdlc_flag) = Some s4"
    unfolding stuff_append rx_bits_append s1(1) bind.bind_lunit s2(1) s3(1) s4(1) ..
  then have "rx_bits s (stuff 0 (stream_lsb bs) @ hdlc_flag) = Some s4"
    unfolding split [symmetric] .
  with s4(2) show ?thesis
    using rx_quiet_same [OF s1(3)] s2(3) s3(3) s4(3) by (blast intro: rx_quiet_trans)
qed

section \<open>Properties\<close>

text \<open>
  A frame longer than the limit is dropped without a trace. The receiver is ready for the next
  frame after the closing flag, but it reports nothing, even when bad frames are to be reported, and
  none of its statistics changes: the count of length errors covers short frames only.
\<close>
theorem hdlc_rx_long_frame_not_counted:
  assumes "rx_ready s" and "hr_max_frame_len s < length bs"
    and "hr_octet_count_report_interval s = 0" and "hr_framing_ok_announced s"
  shows "\<exists>s'. rx_bits s (stuff 0 (stream_lsb bs) @ hdlc_flag) = Some s' \<and> rx_ready s' \<and>
    hr_log s' = hr_log s \<and> hdlc_rx_get_stats s' = hdlc_rx_get_stats s"
  using rx_bits_too_long [OF assms] by (auto simp: rx_quiet_def)

theorem hdlc_rx_long_frame_not_counted_witness:
  "\<exists>s'. rx_bits ((hdlc_rx_set_max_frame_len (hdlc_rx_init False True 1 True) 1)
        \<lparr>hr_flags_seen := 1, hr_framing_ok_announced := True\<rparr>)
      (stuff 0 (stream_lsb [1, 2, 3, 4]) @ hdlc_flag) = Some s' \<and>
    rx_ready s' \<and> hr_log s' = [] \<and> hs_length_errors (hdlc_rx_get_stats s') = 0"
proof -
  let ?s = "(hdlc_rx_set_max_frame_len (hdlc_rx_init False True 1 True) 1)
      \<lparr>hr_flags_seen := 1, hr_framing_ok_announced := True\<rparr>"
  have fields: "hr_max_frame_len ?s = 3" "hr_octet_count_report_interval ?s = 0" "hr_framing_ok_announced ?s"
    "hr_log ?s = []" "hs_length_errors (hdlc_rx_get_stats ?s) = 0" "hr_raw_bit_stream ?s = 0"
    by (simp_all add: hdlc_rx_set_max_frame_len_def hdlc_rx_init_def HDLC_MAXFRAME_LEN_def hdlc_rx_get_stats_def)
  have "rx_run 0 ?s"
    unfolding rx_run_def fields(6) by (rule exI [of _ "[]"]) simp
  then have "rx_ready ?s"
    by (simp add: rx_ready_def rx_data_def hdlc_rx_set_max_frame_len_def hdlc_rx_init_def HDLC_MAXFRAME_LEN_def)
  from hdlc_rx_long_frame_not_counted [OF this, of "[1, 2, 3, 4]"] fields show ?thesis
    by auto
qed

end
