(* ===== verification/T38_Names.thy ===== *)
theory T38_Names
  imports Prelude
begin

text \<open>
  The enumerations of \<^verbatim>\<open>spandsp/t38_core.h\<close>, the names that \<^verbatim>\<open>t38_core.c\<close> gives to their values, the
  table of modem start up times and the decoding of the V.34 rate message.
\<close>

section \<open>Enumerations\<close>

definition T38_IND_NO_SIGNAL :: int where "T38_IND_NO_SIGNAL = 0"
definition T38_IND_CNG :: int where "T38_IND_CNG = 1"
definition T38_IND_CED :: int where "T38_IND_CED = 2"
definition T38_IND_V21_PREAMBLE :: int where "T38_IND_V21_PREAMBLE = 3"
definition T38_IND_V27TER_2400_TRAINING :: int where "T38_IND_V27TER_2400_TRAINING = 4"
definition T38_IND_V27TER_4800_TRAINING :: int where "T38_IND_V27TER_4800_TRAINING = 5"
definition T38_IND_V29_7200_TRAINING :: int where "T38_IND_V29_7200_TRAINING = 6"
definition T38_IND_V29_9600_TRAINING :: int where "T38_IND_V29_9600_TRAINING = 7"
definition T38_IND_V17_7200_SHORT_TRAINING :: int where "T38_IND_V17_7200_SHORT_TRAINING = 8"
definition T38_IND_V17_7200_LONG_TRAINING :: int where "T38_IND_V17_7200_LONG_TRAINING = 9"
definition T38_IND_V17_9600_SHORT_TRAINING :: int where "T38_IND_V17_9600_SHORT_TRAINING = 10"
definition T38_IND_V17_9600_LONG_TRAINING :: int where "T38_IND_V17_9600_LONG_TRAINING = 11"
definition T38_IND_V17_12000_SHORT_TRAINING :: int where "T38_IND_V17_12000_SHORT_TRAINING = 12"
definition T38_IND_V17_12000_LONG_TRAINING :: int where "T38_IND_V17_12000_LONG_TRAINING = 13"
definition T38_IND_V17_14400_SHORT_TRAINING :: int where "T38_IND_V17_14400_SHORT_TRAINING = 14"
definition T38_IND_V17_14400_LONG_TRAINING :: int where "T38_IND_V17_14400_LONG_TRAINING = 15"
definition T38_IND_V8_ANSAM :: int where "T38_IND_V8_ANSAM = 16"
definition T38_IND_V8_SIGNAL :: int where "T38_IND_V8_SIGNAL = 17"
definition T38_IND_V34_CNTL_CHANNEL_1200 :: int where "T38_IND_V34_CNTL_CHANNEL_1200 = 18"
definition T38_IND_V34_PRI_CHANNEL :: int where "T38_IND_V34_PRI_CHANNEL = 19"
definition T38_IND_V34_CC_RETRAIN :: int where "T38_IND_V34_CC_RETRAIN = 20"
definition T38_IND_V33_12000_TRAINING :: int where "T38_IND_V33_12000_TRAINING = 21"
definition T38_IND_V33_14400_TRAINING :: int where "T38_IND_V33_14400_TRAINING = 22"

definition T38_DATA_NONE :: int where "T38_DATA_NONE = -1"
definition T38_DATA_V21 :: int where "T38_DATA_V21 = 0"
definition T38_DATA_V27TER_2400 :: int where "T38_DATA_V27TER_2400 = 1"
definition T38_DATA_V27TER_4800 :: int where "T38_DATA_V27TER_4800 = 2"
definition T38_DATA_V29_7200 :: int where "T38_DATA_V29_7200 = 3"
definition T38_DATA_V29_9600 :: int where "T38_DATA_V29_9600 = 4"
definition T38_DATA_V17_7200 :: int where "T38_DATA_V17_7200 = 5"
definition T38_DATA_V17_9600 :: int where "T38_DATA_V17_9600 = 6"
definition T38_DATA_V17_12000 :: int where "T38_DATA_V17_12000 = 7"
definition T38_DATA_V17_14400 :: int where "T38_DATA_V17_14400 = 8"
definition T38_DATA_V8 :: int where "T38_DATA_V8 = 9"
definition T38_DATA_V34_PRI_RATE :: int where "T38_DATA_V34_PRI_RATE = 10"
definition T38_DATA_V34_CC_1200 :: int where "T38_DATA_V34_CC_1200 = 11"
definition T38_DATA_V34_PRI_CH :: int where "T38_DATA_V34_PRI_CH = 12"
definition T38_DATA_V33_12000 :: int where "T38_DATA_V33_12000 = 13"
definition T38_DATA_V33_14400 :: int where "T38_DATA_V33_14400 = 14"

definition T38_FIELD_HDLC_DATA :: int where "T38_FIELD_HDLC_DATA = 0"
definition T38_FIELD_HDLC_SIG_END :: int where "T38_FIELD_HDLC_SIG_END = 1"
definition T38_FIELD_HDLC_FCS_OK :: int where "T38_FIELD_HDLC_FCS_OK = 2"
definition T38_FIELD_HDLC_FCS_BAD :: int where "T38_FIELD_HDLC_FCS_BAD = 3"
definition T38_FIELD_HDLC_FCS_OK_SIG_END :: int where "T38_FIELD_HDLC_FCS_OK_SIG_END = 4"
definition T38_FIELD_HDLC_FCS_BAD_SIG_END :: int where "T38_FIELD_HDLC_FCS_BAD_SIG_END = 5"
definition T38_FIELD_T4_NON_ECM_DATA :: int where "T38_FIELD_T4_NON_ECM_DATA = 6"
definition T38_FIELD_T4_NON_ECM_SIG_END :: int where "T38_FIELD_T4_NON_ECM_SIG_END = 7"
definition T38_FIELD_CM_MESSAGE :: int where "T38_FIELD_CM_MESSAGE = 8"
definition T38_FIELD_JM_MESSAGE :: int where "T38_FIELD_JM_MESSAGE = 9"
definition T38_FIELD_CI_MESSAGE :: int where "T38_FIELD_CI_MESSAGE = 10"
definition T38_FIELD_V34RATE :: int where "T38_FIELD_V34RATE = 11"

definition T38_TYPE_OF_MSG_T30_INDICATOR :: int where "T38_TYPE_OF_MSG_T30_INDICATOR = 0"
definition T38_TYPE_OF_MSG_T30_DATA :: int where "T38_TYPE_OF_MSG_T30_DATA = 1"

definition T38_TRANSPORT_UDPTL :: int where "T38_TRANSPORT_UDPTL = 0"
definition T38_TRANSPORT_RTP :: int where "T38_TRANSPORT_RTP = 1"
definition T38_TRANSPORT_TCP :: int where "T38_TRANSPORT_TCP = 2"

definition T38_DATA_RATE_MANAGEMENT_LOCAL_TCF :: int where "T38_DATA_RATE_MANAGEMENT_LOCAL_TCF = 1"
definition T38_DATA_RATE_MANAGEMENT_TRANSFERRED_TCF :: int where "T38_DATA_RATE_MANAGEMENT_TRANSFERRED_TCF = 2"

definition T38_PACKET_CATEGORY_INDICATOR :: int where "T38_PACKET_CATEGORY_INDICATOR = 0"
definition T38_PACKET_CATEGORY_CONTROL_DATA :: int where "T38_PACKET_CATEGORY_CONTROL_DATA = 1"
definition T38_PACKET_CATEGORY_CONTROL_DATA_END :: int where "T38_PACKET_CATEGORY_CONTROL_DATA_END = 2"
definition T38_PACKET_CATEGORY_IMAGE_DATA :: int where "T38_PACKET_CATEGORY_IMAGE_DATA = 3"
definition T38_PACKET_CATEGORY_IMAGE_DATA_END :: int where "T38_PACKET_CATEGORY_IMAGE_DATA_END = 4"

lemmas t38_enum_defs =
  T38_IND_NO_SIGNAL_def T38_IND_CNG_def T38_IND_CED_def T38_IND_V21_PREAMBLE_def
  T38_IND_V27TER_2400_TRAINING_def T38_IND_V27TER_4800_TRAINING_def T38_IND_V29_7200_TRAINING_def
  T38_IND_V29_9600_TRAINING_def T38_IND_V17_7200_SHORT_TRAINING_def
  T38_IND_V17_7200_LONG_TRAINING_def T38_IND_V17_9600_SHORT_TRAINING_def
  T38_IND_V17_9600_LONG_TRAINING_def T38_IND_V17_12000_SHORT_TRAINING_def
  T38_IND_V17_12000_LONG_TRAINING_def T38_IND_V17_14400_SHORT_TRAINING_def
  T38_IND_V17_14400_LONG_TRAINING_def T38_IND_V8_ANSAM_def T38_IND_V8_SIGNAL_def
  T38_IND_V34_CNTL_CHANNEL_1200_def T38_IND_V34_PRI_CHANNEL_def T38_IND_V34_CC_RETRAIN_def
  T38_IND_V33_12000_TRAINING_def T38_IND_V33_14400_TRAINING_def T38_DATA_NONE_def T38_DATA_V21_def
  T38_DATA_V27TER_2400_def T38_DATA_V27TER_4800_def T38_DATA_V29_7200_def T38_DATA_V29_9600_def
  T38_DATA_V17_7200_def T38_DATA_V17_9600_def T38_DATA_V17_12000_def T38_DATA_V17_14400_def
  T38_DATA_V8_def T38_DATA_V34_PRI_RATE_def T38_DATA_V34_CC_1200_def T38_DATA_V34_PRI_CH_def
  T38_DATA_V33_12000_def T38_DATA_V33_14400_def T38_FIELD_HDLC_DATA_def T38_FIELD_HDLC_SIG_END_def
  T38_FIELD_HDLC_FCS_OK_def T38_FIELD_HDLC_FCS_BAD_def T38_FIELD_HDLC_FCS_OK_SIG_END_def
  T38_FIELD_HDLC_FCS_BAD_SIG_END_def T38_FIELD_T4_NON_ECM_DATA_def T38_FIELD_T4_NON_ECM_SIG_END_def
  T38_FIELD_CM_MESSAGE_def T38_FIELD_JM_MESSAGE_def T38_FIELD_CI_MESSAGE_def T38_FIELD_V34RATE_def
  T38_TYPE_OF_MSG_T30_INDICATOR_def T38_TYPE_OF_MSG_T30_DATA_def T38_TRANSPORT_UDPTL_def
  T38_TRANSPORT_RTP_def T38_TRANSPORT_TCP_def T38_DATA_RATE_MANAGEMENT_LOCAL_TCF_def
  T38_DATA_RATE_MANAGEMENT_TRANSFERRED_TCF_def T38_PACKET_CATEGORY_INDICATOR_def
  T38_PACKET_CATEGORY_CONTROL_DATA_def T38_PACKET_CATEGORY_CONTROL_DATA_END_def
  T38_PACKET_CATEGORY_IMAGE_DATA_def T38_PACKET_CATEGORY_IMAGE_DATA_END_def

section \<open>Names\<close>

definition t38_indicator_to_str :: "int \<Rightarrow> string" where
  "t38_indicator_to_str indicator =
     (if indicator = T38_IND_NO_SIGNAL then ''no-signal''
      else if indicator = T38_IND_CNG then ''cng''
      else if indicator = T38_IND_CED then ''ced''
      else if indicator = T38_IND_V21_PREAMBLE then ''v21-preamble''
      else if indicator = T38_IND_V27TER_2400_TRAINING then ''v27-2400-training''
      else if indicator = T38_IND_V27TER_4800_TRAINING then ''v27-4800-training''
      else if indicator = T38_IND_V29_7200_TRAINING then ''v29-7200-training''
      else if indicator = T38_IND_V29_9600_TRAINING then ''v29-9600-training''
      else if indicator = T38_IND_V17_7200_SHORT_TRAINING then ''v17-7200-short-training''
      else if indicator = T38_IND_V17_7200_LONG_TRAINING then ''v17-7200-long-training''
      else if indicator = T38_IND_V17_9600_SHORT_TRAINING then ''v17-9600-short-training''
      else if indicator = T38_IND_V17_9600_LONG_TRAINING then ''v17-9600-long-training''
      else if indicator = T38_IND_V17_12000_SHORT_TRAINING then ''v17-12000-short-training''
      else if indicator = T38_IND_V17_12000_LONG_TRAINING then ''v17-12000-long-training''
      else if indicator = T38_IND_V17_14400_SHORT_TRAINING then ''v17-14400-short-training''
      else if indicator = T38_IND_V17_14400_LONG_TRAINING then ''v17-14400-long-training''
      else if indicator = T38_IND_V8_ANSAM then ''v8-ansam''
      else if indicator = T38_IND_V8_SIGNAL then ''v8-signal''
      else if indicator = T38_IND_V34_CNTL_CHANNEL_1200 then ''v34-cntl-channel-1200''
      else if indicator = T38_IND_V34_PRI_CHANNEL then ''v34-pri-channel''
      else if indicator = T38_IND_V34_CC_RETRAIN then ''v34-CC-retrain''
      else if indicator = T38_IND_V33_12000_TRAINING then ''v33-12000-training''
      else if indicator = T38_IND_V33_14400_TRAINING then ''v33-14400-training''
      else ''???'')"

definition t38_data_type_to_str :: "int \<Rightarrow> string" where
  "t38_data_type_to_str data_type =
     (if data_type = T38_DATA_V21 then ''v21''
      else if data_type = T38_DATA_V27TER_2400 then ''v27-2400''
      else if data_type = T38_DATA_V27TER_4800 then ''v27-4800''
      else if data_type = T38_DATA_V29_7200 then ''v29-7200''
      else if data_type = T38_DATA_V29_9600 then ''v29-9600''
      else if data_type = T38_DATA_V17_7200 then ''v17-7200''
      else if data_type = T38_DATA_V17_9600 then ''v17-9600''
      else if data_type = T38_DATA_V17_12000 then ''v17-12000''
      else if data_type = T38_DATA_V17_14400 then ''v17-14400''
      else if data_type = T38_DATA_V8 then ''v8''
      else if data_type = T38_DATA_V34_PRI_RATE then ''v34-pri-rate''
      else if data_type = T38_DATA_V34_CC_1200 then ''v34-CC-1200''
      else if data_type = T38_DATA_V34_PRI_CH then ''v34-pri-vh''
      else if data_type = T38_DATA_V33_12000 then ''v33-12000''
      else if data_type = T38_DATA_V33_14400 then ''v33-14400''
      else ''???'')"

definition t38_field_type_to_str :: "int \<Rightarrow> string" where
  "t38_field_type_to_str field_type =
     (if field_type = T38_FIELD_HDLC_DATA then ''hdlc-data''
      else if field_type = T38_FIELD_HDLC_SIG_END then ''hdlc-sig-end''
      else if field_type = T38_FIELD_HDLC_FCS_OK then ''hdlc-fcs-OK''
      else if field_type = T38_FIELD_HDLC_FCS_BAD then ''hdlc-fcs-BAD''
      else if field_type = T38_FIELD_HDLC_FCS_OK_SIG_END then ''hdlc-fcs-OK-sig-end''
      else if field_type = T38_FIELD_HDLC_FCS_BAD_SIG_END then ''hdlc-fcs-BAD-sig-end''
      else if field_type = T38_FIELD_T4_NON_ECM_DATA then ''t4-non-ecm-data''
      else if field_type = T38_FIELD_T4_NON_ECM_SIG_END then ''t4-non-ecm-sig-end''
      else if field_type = T38_FIELD_CM_MESSAGE then ''cm-message''
      else if field_type = T38_FIELD_JM_MESSAGE then ''jm-message''
      else if field_type = T38_FIELD_CI_MESSAGE then ''ci-message''
      else if field_type = T38_FIELD_V34RATE then ''v34rate''
      else ''???'')"

definition t38_cm_profile_to_str :: "int \<Rightarrow> string" where
  "t38_cm_profile_to_str profile =
     (if profile = 49 then ''G3 FAX sending terminal''
      else if profile = 50 then ''G3 FAX receiving terminal''
      else if profile = 51 then ''V.34 HDX and G3 FAX sending terminal''
      else if profile = 52 then ''V.34 HDX and G3 FAX receiving terminal''
      else if profile = 53 then ''V.34 HDX-only FAX sending terminal''
      else if profile = 54 then ''V.34 HDX-only FAX receiving terminal''
      else ''???'')"

definition t38_jm_to_str :: "octets \<Rightarrow> string" where
  "t38_jm_to_str data =
     (if length data < 2 then ''???''
      else if data ! 0 = 65
      then (if data ! 1 = 48 then ''ACK'' else ''???'')
      else if data ! 0 = 78
      then (if data ! 1 = 48 then ''NACK: No compatible mode available''
            else if data ! 1 = 49 then ''NACK: No V.34 FAX, use G3 FAX''
            else if data ! 1 = 50 then ''NACK: V.34 only FAX.''
            else ''???'')
      else ''???'')"

fun v34rate_digits :: "octets \<Rightarrow> int \<Rightarrow> int option" where
  "v34rate_digits [] rate = Some rate"
| "v34rate_digits (d # ds) rate =
     (if d < 48 \<or> d > 57 then None else v34rate_digits ds (rate * 10 + uint d - 48))"

definition t38_v34rate_to_bps :: "octets \<Rightarrow> int" where
  "t38_v34rate_to_bps data =
     (if length data < 3 then -1
      else case v34rate_digits (take 3 data) 0 of None \<Rightarrow> -1 | Some rate \<Rightarrow> rate * 100)"

section \<open>Start up times\<close>

text \<open>For each indicator the duration of the echo protection tone, the training and the flags.\<close>

definition modem_startup_time :: "(int \<times> int \<times> int) list" where
  "modem_startup_time =
    [(0, 75000, 0),
     (0, 0, 0),
     (0, 3000000, 0),
     (0, 0, 1000000),
     (215000, 943000, 200000),
     (215000, 708000, 200000),
     (215000, 234000, 200000),
     (215000, 234000, 200000),
     (215000, 142000, 200000),
     (215000, 1393000, 200000),
     (215000, 142000, 200000),
     (215000, 1393000, 200000),
     (215000, 142000, 200000),
     (215000, 1393000, 200000),
     (215000, 142000, 200000),
     (215000, 1393000, 200000),
     (215000, 0, 0),
     (215000, 0, 0),
     (215000, 0, 0),
     (215000, 0, 0),
     (215000, 0, 0),
     (215000, 0, 0),
     (215000, 0, 0)]"

end
