(* ===== verification/T38_Core.thy ===== *)
theory T38_Core
  imports T38_Names "HOL-Library.Monad_Syntax"
begin

text \<open>
  The T.38 packet layer of \<^verbatim>\<open>spandsp-0.0.6/src/t38_core.c\<close>: encoding and decoding of IFP packets,
  sequence numbers and redundancy control. The calls of the four user handlers are recorded in
  order in \<open>t38_log\<close>; handlers that call back into the core are outside the model, as is logging. A
  result \<open>None\<close> means an access outside a buffer or array.
\<close>

section \<open>State\<close>

definition ACCEPTABLE_SEQ_NO_OFFSET :: int where
  "ACCEPTABLE_SEQ_NO_OFFSET = 2000"

datatype t38_event =
    Rx_indicator int
  | Rx_data int int octets
  | Rx_missing int int
  | Tx_packet octets int

record t38_data_field =
  field_type :: int
  field_octets :: octets

record t38_core_state =
  t38_data_rate_management_method :: int
  t38_data_transport_protocol :: int
  t38_fill_bit_removal :: bool
  t38_mmr_transcoding :: bool
  t38_jbig_transcoding :: bool
  t38_max_buffer_size :: int
  t38_max_datagram_size :: int
  t38_version :: int
  t38_allow_for_tep :: bool
  t38_fastest_image_data_rate :: int
  t38_category_control :: "int list"
  t38_check_sequence_numbers :: bool
  t38_tx_seq_no :: int
  t38_rx_expected_seq_no :: int
  t38_current_rx_indicator :: int
  t38_current_rx_data_type :: int
  t38_current_rx_field_type :: int
  t38_current_tx_indicator :: int
  t38_v34_rate :: int
  t38_missing_packets :: int
  t38_log :: "t38_event list"

definition t38_emit :: "t38_event \<Rightarrow> t38_core_state \<Rightarrow> t38_core_state" where
  "t38_emit e s = s\<lparr>t38_log := t38_log s @ [e]\<rparr>"

definition octet_at :: "octets \<Rightarrow> nat \<Rightarrow> int option" where
  "octet_at buf i = (if i < length buf then Some (uint (buf ! i)) else None)"

section \<open>Receiving\<close>

definition classify_seq_no_offset :: "int \<Rightarrow> int \<Rightarrow> int" where
  "classify_seq_no_offset expected actual =
     (if expected > actual
      then if expected > actual + 0x10000 - ACCEPTABLE_SEQ_NO_OFFSET then 1
           else if expected < actual + ACCEPTABLE_SEQ_NO_OFFSET then -1
           else 0
      else if expected + ACCEPTABLE_SEQ_NO_OFFSET > actual then 1
           else if expected + 0x10000 - ACCEPTABLE_SEQ_NO_OFFSET < actual then -1
           else 0)"

text \<open>The sequence number check; the flag tells whether the packet is to be processed.\<close>

definition t38_check_seq_no :: "t38_core_state \<Rightarrow> u16 \<Rightarrow> bool \<times> t38_core_state" where
  "t38_check_seq_no s seq_no =
     (if t38_check_sequence_numbers s \<and> uint seq_no \<noteq> t38_rx_expected_seq_no s
      then if t38_rx_expected_seq_no s \<noteq> -1
           then if (uint seq_no + 1) AND 0xFFFF = t38_rx_expected_seq_no s then (False, s)
                else
                  let c = classify_seq_no_offset (t38_rx_expected_seq_no s) (uint seq_no)
                  in if c = -1 then (False, s)
                     else
                       let s = (if c = 1
                             then (t38_emit (Rx_missing (t38_rx_expected_seq_no s) (uint seq_no)) s)
                               \<lparr>t38_missing_packets := t38_missing_packets s + (uint seq_no - t38_rx_expected_seq_no s)\<rparr>
                             else (t38_emit (Rx_missing (-1) (-1)) s)
                               \<lparr>t38_missing_packets := t38_missing_packets s + 1\<rparr>)
                       in (True, s\<lparr>t38_rx_expected_seq_no := uint seq_no\<rparr>)
           else (True, s\<lparr>t38_rx_expected_seq_no := uint seq_no\<rparr>)
      else (True, s))"

text \<open>
  The six low bits of an extended indicator or data type, and of an extended field type: four bits of
  one octet and two of the next.
\<close>

definition extension_value :: "int \<Rightarrow> int \<Rightarrow> int" where
  "extension_value b0 b1 = (push_bit 2 b0 AND 0x3C) OR (drop_bit 6 b1 AND 0x3)"

definition t38_rx_indicator :: "t38_core_state \<Rightarrow> octets \<Rightarrow> (int \<times> t38_core_state) option" where
  "t38_rx_indicator s buf = do {
     b0 \<leftarrow> octet_at buf 0;
     if drop_bit 7 b0 AND 1 \<noteq> 0 then Some (-1, s)
     else do {
       let s = s\<lparr>t38_current_rx_data_type := -1, t38_current_rx_field_type := -1\<rparr>;
       if b0 AND 0x20 \<noteq> 0
       then if length buf \<noteq> 2 then Some (-1, s)
            else do {
              b1 \<leftarrow> octet_at buf 1;
              let ind = T38_IND_V8_ANSAM + extension_value b0 b1;
              if ind > T38_IND_V33_14400_TRAINING then Some (-1, s)
              else Some (0, (t38_emit (Rx_indicator ind) s)\<lparr>t38_current_rx_indicator := ind\<rparr>)
            }
       else if length buf \<noteq> 1 then Some (-1, s)
       else
         let ind = drop_bit 1 b0 AND 0xF
         in Some (0, (t38_emit (Rx_indicator ind) s)\<lparr>t38_current_rx_indicator := ind\<rparr>)
     }
   }"

text \<open>
  The header of a data field: whether data are present, the field type, the next position and whether
  that is in the middle of an octet. \<open>Inl\<close> stands for an error return.
\<close>

definition t38_rx_field_header :: "int \<Rightarrow> octets \<Rightarrow> nat \<Rightarrow> bool \<Rightarrow> (unit + bool \<times> int \<times> nat \<times> bool) option" where
  "t38_rx_field_header version buf ptr other_half =
     (if ptr \<ge> length buf then Some (Inl ())
      else do {
        b \<leftarrow> octet_at buf ptr;
        if version = 0
        then
          let (present, ft, ptr, other_half) =
                (if other_half then (drop_bit 3 b AND 1 \<noteq> 0, b AND 0x7, ptr + 1, False)
                 else
                   let present = drop_bit 7 b AND 1 \<noteq> 0
                   in (present, drop_bit 4 b AND 0x7, if present then ptr + 1 else ptr, \<not> present))
          in Some (if ft > T38_FIELD_T4_NON_ECM_SIG_END then Inl () else Inr (present, ft, ptr, other_half))
        else
          let present = drop_bit 7 b AND 1 \<noteq> 0
          in if b AND 0x40 \<noteq> 0
             then if int ptr > int (length buf) - 2 then Some (Inl ())
                  else do {
                    b1 \<leftarrow> octet_at buf (ptr + 1);
                    let ft = T38_FIELD_CM_MESSAGE + extension_value b b1;
                    Some (if ft > T38_FIELD_V34RATE then Inl () else Inr (present, ft, ptr + 2, other_half))
                  }
             else Some (Inr (present, drop_bit 3 b AND 0x7, ptr + 1, other_half))
      })"

text \<open>The data of a field and the position behind it.\<close>

definition t38_rx_field_data :: "octets \<Rightarrow> bool \<Rightarrow> nat \<Rightarrow> (unit + octets \<times> nat) option" where
  "t38_rx_field_data buf present ptr =
     (if present
      then if int ptr > int (length buf) - 2 then Some (Inl ())
           else do {
             hi \<leftarrow> octet_at buf ptr;
             lo \<leftarrow> octet_at buf (ptr + 1);
             let numocts = nat ((push_bit 8 hi OR lo) + 1);
             if ptr + numocts + 2 > length buf then Some (Inl ())
             else do {
               msg \<leftarrow> mem_read buf (int ptr + 2) (int numocts);
               Some (Inr (msg, ptr + numocts + 2))
             }
           }
      else Some (if ptr > length buf then Inl () else Inr ([], ptr)))"

fun t38_rx_fields :: "nat \<Rightarrow> t38_core_state \<Rightarrow> int \<Rightarrow> octets \<Rightarrow> nat \<Rightarrow> bool \<Rightarrow>
    (t38_core_state \<times> (unit + nat \<times> bool)) option" where
  "t38_rx_fields 0 s t30_data buf ptr other_half = Some (s, Inr (ptr, other_half))"
| "t38_rx_fields (Suc n) s t30_data buf ptr other_half = do {
     header \<leftarrow> t38_rx_field_header (t38_version s) buf ptr other_half;
     case header of Inl _ \<Rightarrow> Some (s, Inl ())
     | Inr (present, ft, ptr, other_half) \<Rightarrow> do {
         data \<leftarrow> t38_rx_field_data buf present ptr;
         case data of Inl _ \<Rightarrow> Some (s, Inl ())
         | Inr (msg, ptr) \<Rightarrow>
             t38_rx_fields n
               ((t38_emit (Rx_data t30_data ft msg) s)
                  \<lparr>t38_current_rx_data_type := t30_data, t38_current_rx_field_type := ft\<rparr>)
               t30_data buf ptr other_half
       }
   }"

definition t38_rx_data_type :: "octets \<Rightarrow> (unit + int \<times> nat) option" where
  "t38_rx_data_type buf = do {
     b0 \<leftarrow> octet_at buf 0;
     if b0 AND 0x20 \<noteq> 0
     then if length buf < 2 then Some (Inl ())
          else do {
            b1 \<leftarrow> octet_at buf 1;
            let dt = T38_DATA_V8 + extension_value b0 b1;
            Some (if dt > T38_DATA_V33_14400 then Inl () else Inr (dt, 2))
          }
     else
       let dt = drop_bit 1 b0 AND 0xF
       in Some (if dt > T38_DATA_V17_14400 then Inl () else Inr (dt, 1))
   }"

definition t38_rx_data :: "t38_core_state \<Rightarrow> octets \<Rightarrow> (int \<times> t38_core_state) option" where
  "t38_rx_data s buf = do {
     b0 \<leftarrow> octet_at buf 0;
     dt \<leftarrow> t38_rx_data_type buf;
     case dt of Inl _ \<Rightarrow> Some (-1, s)
     | Inr (t30_data, ptr) \<Rightarrow>
         if drop_bit 7 b0 AND 1 = 0
         then Some (if ptr \<noteq> length buf then -1 else 0, s)
         else if ptr \<ge> length buf then Some (-1, s)
         else do {
           count \<leftarrow> octet_at buf ptr;
           (s, res) \<leftarrow> t38_rx_fields (nat count) s t30_data buf (ptr + 1) False;
           case res of Inl _ \<Rightarrow> Some (-1, s)
           | Inr (ptr, other_half) \<Rightarrow>
               Some (if ptr \<noteq> length buf \<and>
                     (t38_version s \<noteq> 0 \<or> int ptr \<noteq> int (length buf) - 1 \<or> \<not> other_half)
                   then -1 else 0, s)
         }
   }"

definition t38_core_rx_ifp_packet :: "t38_core_state \<Rightarrow> octets \<Rightarrow> u16 \<Rightarrow> (int \<times> t38_core_state) option" where
  "t38_core_rx_ifp_packet s buf seq_no =
     (if length buf < 1 then Some (-1, s)
      else
        let (go, s) = t38_check_seq_no s seq_no
        in if \<not> go then Some (0, s)
           else do {
             let s = s\<lparr>t38_rx_expected_seq_no := (t38_rx_expected_seq_no s + 1) AND 0xFFFF\<rparr>;
             b0 \<leftarrow> octet_at buf 0;
             if drop_bit 6 b0 AND 1 = T38_TYPE_OF_MSG_T30_INDICATOR then t38_rx_indicator s buf
             else t38_rx_data s buf
           })"

section \<open>Sending\<close>

text \<open>Storing octets at the end of what a buffer of a given size holds so far.\<close>

definition put_octets :: "nat \<Rightarrow> octets \<Rightarrow> int list \<Rightarrow> octets option" where
  "put_octets cap buf xs =
     (if length buf + length xs \<le> cap then Some (buf @ map of_int xs) else None)"

definition t38_encode_indicator :: "t38_core_state \<Rightarrow> nat \<Rightarrow> int \<Rightarrow> (unit + octets) option" where
  "t38_encode_indicator s cap indicator =
     (if indicator \<le> T38_IND_V17_14400_LONG_TRAINING
      then map_option Inr (put_octets cap [] [push_bit 1 indicator])
      else if t38_version s \<noteq> 0 \<and> indicator \<le> T38_IND_V33_14400_TRAINING
      then map_option Inr (put_octets cap []
        [0x20 OR drop_bit 2 ((indicator - T38_IND_V8_ANSAM) AND 0xF),
         push_bit 6 (indicator - T38_IND_V8_ANSAM) AND 0xFF])
      else Some (Inl ()))"

definition t38_encode_field_type :: "int \<Rightarrow> int \<Rightarrow> int \<Rightarrow> int list option" where
  "t38_encode_field_type version ft present =
     (if version = 0
      then if ft > T38_FIELD_T4_NON_ECM_SIG_END then None
           else Some [push_bit 7 present OR push_bit 4 ft]
      else if ft \<le> T38_FIELD_T4_NON_ECM_SIG_END
      then Some [push_bit 7 present OR push_bit 3 ft]
      else if ft \<le> T38_FIELD_V34RATE
      then Some [push_bit 7 present OR 0x40 OR drop_bit 2 (ft - T38_FIELD_CM_MESSAGE),
        push_bit 6 (ft - T38_FIELD_CM_MESSAGE) AND 0xC0]
      else None)"

definition t38_encode_field :: "t38_core_state \<Rightarrow> nat \<Rightarrow> octets \<Rightarrow> t38_data_field \<Rightarrow> (unit + octets) option" where
  "t38_encode_field s cap buf q =
     (let n = int (length (field_octets q));
          present = of_bool (n > 0)
      in case t38_encode_field_type (t38_version s) (field_type q) present of None \<Rightarrow> Some (Inl ())
         | Some h \<Rightarrow> do {
             buf \<leftarrow> put_octets cap buf h;
             if present \<noteq> 0
             then if n < 1 \<or> n > 65535 then Some (Inl ())
                  else do {
                    buf \<leftarrow> put_octets cap buf [drop_bit 8 (n - 1) AND 0xFF, (n - 1) AND 0xFF];
                    buf \<leftarrow> put_octets cap buf (map uint (field_octets q));
                    Some (Inr buf)
                  }
             else Some (Inr buf)
           })"

text \<open>The inner loop: how many elements are still to encode, and the index of the next field.\<close>

fun t38_encode_elements :: "nat \<Rightarrow> t38_core_state \<Rightarrow> nat \<Rightarrow> octets \<Rightarrow> t38_data_field list \<Rightarrow> nat \<Rightarrow>
    (unit + octets \<times> nat) option" where
  "t38_encode_elements 0 s cap buf field no = Some (Inr (buf, no))"
| "t38_encode_elements (Suc k) s cap buf field no =
     (if no < length field
      then do {
        res \<leftarrow> t38_encode_field s cap buf (field ! no);
        case res of Inl _ \<Rightarrow> Some (Inl ())
        | Inr buf \<Rightarrow> t38_encode_elements k s cap buf field (no + 1)
      }
      else None)"

text \<open>The number of fields, or of a fragment of them: its octets and the count encoded.\<close>

definition t38_encode_count :: "int \<Rightarrow> int list \<times> int" where
  "t38_encode_count value =
     (if value < 0x80 then ([value], value)
      else if value < 0x4000 then ([0x80 OR (drop_bit 8 value AND 0xFF), value AND 0xFF], value)
      else
        let multiplier = (if value div 0x4000 < 4 then value div 0x4000 else 4)
        in ([0xC0 OR multiplier], 0x4000 * multiplier))"

text \<open>
  The outer loop. Its first branch never applies: no more elements are counted than there are fields.
\<close>

function t38_encode_fragments :: "t38_core_state \<Rightarrow> nat \<Rightarrow> octets \<Rightarrow> t38_data_field list \<Rightarrow> nat \<Rightarrow> nat \<Rightarrow>
    (unit + octets) option" where
  "t38_encode_fragments s cap buf field encoded_len no =
     (if length field < encoded_len then None
      else
        let (octs, enclen) = t38_encode_count (int (length field) - int encoded_len);
            encoded_len' = encoded_len + nat enclen
        in do {
          buf \<leftarrow> put_octets cap buf octs;
          res \<leftarrow> t38_encode_elements encoded_len' s cap buf field no;
          case res of Inl _ \<Rightarrow> Some (Inl ())
          | Inr (buf, no) \<Rightarrow>
              if length field \<noteq> encoded_len' \<or> enclen \<ge> 16384
              then t38_encode_fragments s cap buf field encoded_len' no
              else Some (Inr buf)
        })"
  by pat_completeness auto
termination
  by (relation "measure (\<lambda>(s, cap, buf, field, encoded_len, no). length field - encoded_len)")
    (auto simp: t38_encode_count_def Let_def split: if_splits)

definition t38_encode_data :: "t38_core_state \<Rightarrow> nat \<Rightarrow> int \<Rightarrow> t38_data_field list \<Rightarrow> (unit + octets) option" where
  "t38_encode_data s cap data_type field =
     (let header =
        (if data_type \<le> T38_DATA_V17_14400 then Some [0x80 OR 0x40 OR push_bit 1 data_type]
         else if t38_version s \<noteq> 0 \<and> data_type \<le> T38_DATA_V33_14400
         then Some [0x80 OR 0x60 OR drop_bit 2 ((data_type - T38_DATA_V8) AND 0xF),
           push_bit 6 (data_type - T38_DATA_V8) AND 0xFF]
         else None)
      in case header of None \<Rightarrow> Some (Inl ())
         | Some h \<Rightarrow> do {
             buf \<leftarrow> put_octets cap [] h;
             t38_encode_fragments s cap buf field 0 0
           })"

definition category_at :: "t38_core_state \<Rightarrow> int \<Rightarrow> int option" where
  "category_at s category =
     (if 0 \<le> category \<and> category < int (length (t38_category_control s))
      then Some (t38_category_control s ! nat category) else None)"

definition startup_time :: "int \<Rightarrow> (int \<times> int \<times> int) option" where
  "startup_time indicator =
     (if 0 \<le> indicator \<and> indicator < int (length modem_startup_time)
      then Some (modem_startup_time ! nat indicator) else None)"

definition t38_core_send_indicator :: "t38_core_state \<Rightarrow> int \<Rightarrow> (int \<times> t38_core_state) option" where
  "t38_core_send_indicator s indicator =
     (if t38_current_tx_indicator s \<noteq> indicator
      then do {
        count \<leftarrow> category_at s T38_PACKET_CATEGORY_INDICATOR;
        if count \<noteq> 0
        then do {
          res \<leftarrow> t38_encode_indicator s 100 indicator;
          case res of Inl _ \<Rightarrow> Some (-1, s)
          | Inr buf \<Rightarrow> do {
              let s = t38_emit (Tx_packet buf count) s;
              let s = s\<lparr>t38_tx_seq_no := (t38_tx_seq_no s + 1) AND 0xFFFF\<rparr>;
              (tep, training, flags) \<leftarrow> startup_time indicator;
              Some (if t38_allow_for_tep s then training + tep else training,
                s\<lparr>t38_current_tx_indicator := indicator\<rparr>)
            }
        }
        else Some (0, s\<lparr>t38_current_tx_indicator := indicator\<rparr>)
      }
      else Some (0, s))"

definition t38_core_send_flags_delay :: "t38_core_state \<Rightarrow> int \<Rightarrow> int option" where
  "t38_core_send_flags_delay s indicator = map_option (\<lambda>(tep, training, flags). flags) (startup_time indicator)"

definition t38_core_send_data_multi_field :: "t38_core_state \<Rightarrow> int \<Rightarrow> t38_data_field list \<Rightarrow> int \<Rightarrow>
    (int \<times> t38_core_state) option" where
  "t38_core_send_data_multi_field s data_type field category = do {
     res \<leftarrow> t38_encode_data s 1000 data_type field;
     case res of Inl _ \<Rightarrow> Some (-1, s)
     | Inr buf \<Rightarrow> do {
         count \<leftarrow> category_at s category;
         let s = t38_emit (Tx_packet buf count) s;
         Some (0, s\<lparr>t38_tx_seq_no := (t38_tx_seq_no s + 1) AND 0xFFFF\<rparr>)
       }
   }"

definition t38_core_send_data :: "t38_core_state \<Rightarrow> int \<Rightarrow> int \<Rightarrow> octets \<Rightarrow> int \<Rightarrow> (int \<times> t38_core_state) option" where
  "t38_core_send_data s data_type ft data category = do {
     res \<leftarrow> t38_encode_data s 1000 data_type [\<lparr>field_type = ft, field_octets = data\<rparr>];
     case res of Inl _ \<Rightarrow> Some (-1, s)
     | Inr buf \<Rightarrow> do {
         count \<leftarrow> category_at s category;
         let s = t38_emit (Tx_packet buf count) s;
         Some (0, s\<lparr>t38_tx_seq_no := (t38_tx_seq_no s + 1) AND 0xFFFF\<rparr>)
       }
   }"

section \<open>Configuration\<close>

definition t38_set_data_rate_management_method :: "t38_core_state \<Rightarrow> int \<Rightarrow> t38_core_state" where
  "t38_set_data_rate_management_method s method = s\<lparr>t38_data_rate_management_method := method\<rparr>"

definition t38_set_data_transport_protocol :: "t38_core_state \<Rightarrow> int \<Rightarrow> t38_core_state" where
  "t38_set_data_transport_protocol s protocol = s\<lparr>t38_data_transport_protocol := protocol\<rparr>"

definition t38_set_fill_bit_removal :: "t38_core_state \<Rightarrow> bool \<Rightarrow> t38_core_state" where
  "t38_set_fill_bit_removal s removal = s\<lparr>t38_fill_bit_removal := removal\<rparr>"

definition t38_set_mmr_transcoding :: "t38_core_state \<Rightarrow> bool \<Rightarrow> t38_core_state" where
  "t38_set_mmr_transcoding s transcoding = s\<lparr>t38_mmr_transcoding := transcoding\<rparr>"

definition t38_set_jbig_transcoding :: "t38_core_state \<Rightarrow> bool \<Rightarrow> t38_core_state" where
  "t38_set_jbig_transcoding s transcoding = s\<lparr>t38_jbig_transcoding := transcoding\<rparr>"

definition t38_set_max_buffer_size :: "t38_core_state \<Rightarrow> int \<Rightarrow> t38_core_state" where
  "t38_set_max_buffer_size s n = s\<lparr>t38_max_buffer_size := n\<rparr>"

definition t38_set_max_datagram_size :: "t38_core_state \<Rightarrow> int \<Rightarrow> t38_core_state" where
  "t38_set_max_datagram_size s n = s\<lparr>t38_max_datagram_size := n\<rparr>"

definition t38_set_t38_version :: "t38_core_state \<Rightarrow> int \<Rightarrow> t38_core_state" where
  "t38_set_t38_version s version = s\<lparr>t38_version := version\<rparr>"

definition t38_set_sequence_number_handling :: "t38_core_state \<Rightarrow> bool \<Rightarrow> t38_core_state" where
  "t38_set_sequence_number_handling s check = s\<lparr>t38_check_sequence_numbers := check\<rparr>"

definition t38_set_tep_handling :: "t38_core_state \<Rightarrow> bool \<Rightarrow> t38_core_state" where
  "t38_set_tep_handling s allow = s\<lparr>t38_allow_for_tep := allow\<rparr>"

definition t38_set_redundancy_control :: "t38_core_state \<Rightarrow> int \<Rightarrow> int \<Rightarrow> t38_core_state option" where
  "t38_set_redundancy_control s category setting =
     (if 0 \<le> category \<and> category < int (length (t38_category_control s))
      then Some (s\<lparr>t38_category_control := (t38_category_control s)[nat category := setting]\<rparr>) else None)"

definition t38_set_fastest_image_data_rate :: "t38_core_state \<Rightarrow> int \<Rightarrow> t38_core_state" where
  "t38_set_fastest_image_data_rate s rate = s\<lparr>t38_fastest_image_data_rate := rate\<rparr>"

definition t38_core_init :: t38_core_state where
  "t38_core_init =
     \<lparr>t38_data_rate_management_method = T38_DATA_RATE_MANAGEMENT_TRANSFERRED_TCF,
      t38_data_transport_protocol = T38_TRANSPORT_UDPTL,
      t38_fill_bit_removal = False,
      t38_mmr_transcoding = False,
      t38_jbig_transcoding = False,
      t38_max_buffer_size = 400,
      t38_max_datagram_size = 100,
      t38_version = 0,
      t38_allow_for_tep = False,
      t38_fastest_image_data_rate = 0,
      t38_category_control = [1, 1, 1, 1, 1],
      t38_check_sequence_numbers = True,
      t38_tx_seq_no = 0,
      t38_rx_expected_seq_no = -1,
      t38_current_rx_indicator = -1,
      t38_current_rx_data_type = -1,
      t38_current_rx_field_type = -1,
      t38_current_tx_indicator = -1,
      t38_v34_rate = 0,
      t38_missing_packets = 0,
      t38_log = []\<rparr>"

declare t38_encode_fragments.simps [simp del]

end
