(* ===== verification/T38_Receive.thy ===== *)
theory T38_Receive
  imports T38_Core
begin

text \<open>
  Properties of the receiver of \<^verbatim>\<open>t38_core.c\<close> on arbitrary packets: it never reads outside the
  packet, hands only values of the enumerations to the handlers, treats sequence numbers as
  offsets modulo \<open>2 ^ 16\<close>, and is not disturbed by copies of a packet.
\<close>

section \<open>The invariant of the state\<close>

fun event_ok :: "t38_event \<Rightarrow> bool" where
  "event_ok (Rx_indicator ind) \<longleftrightarrow> 0 \<le> ind \<and> ind \<le> T38_IND_V33_14400_TRAINING"
| "event_ok (Rx_data dt ft msg) \<longleftrightarrow>
     0 \<le> dt \<and> dt \<le> T38_DATA_V33_14400 \<and> 0 \<le> ft \<and> ft \<le> T38_FIELD_V34RATE \<and> length msg \<le> 65536"
| "event_ok (Rx_missing a b) \<longleftrightarrow> a = -1 \<and> b = -1 \<or> 0 \<le> a \<and> a < 65536 \<and> 0 \<le> b \<and> b < 65536"
| "event_ok (Tx_packet buf n) \<longleftrightarrow> 0 < length buf \<and> length buf \<le> 1000"

definition t38_ok :: "t38_core_state \<Rightarrow> bool" where
  "t38_ok s \<longleftrightarrow>
     length (t38_category_control s) = 5 \<and>
     0 \<le> t38_tx_seq_no s \<and> t38_tx_seq_no s < 65536 \<and>
     -1 \<le> t38_rx_expected_seq_no s \<and> t38_rx_expected_seq_no s < 65536 \<and>
     -1 \<le> t38_current_rx_indicator s \<and> t38_current_rx_indicator s \<le> T38_IND_V33_14400_TRAINING \<and>
     -1 \<le> t38_current_rx_data_type s \<and> t38_current_rx_data_type s \<le> T38_DATA_V33_14400 \<and>
     -1 \<le> t38_current_rx_field_type s \<and> t38_current_rx_field_type s \<le> T38_FIELD_V34RATE \<and>
     list_all event_ok (t38_log s)"

lemma t38_ok_emit [simp]: "t38_ok (t38_emit e s) \<longleftrightarrow> t38_ok s \<and> event_ok e"
  by (auto simp: t38_ok_def t38_emit_def)

lemma t38_ok_init: "t38_ok t38_core_init"
  by (simp add: t38_ok_def t38_core_init_def t38_enum_defs)

lemma and_0xFFFF [simp]: "(x :: int) AND 0xFFFF = x mod 65536"
proof -
  have "x AND 0xFFFF = take_bit 16 x"
    by (simp add: take_bit_eq_mask mask_numeral)
  then show ?thesis
    by (simp add: take_bit_eq_mod)
qed

lemma t38_ok_update:
  "t38_ok s \<Longrightarrow> t38_ok (s\<lparr>t38_rx_expected_seq_no := x mod 65536\<rparr>)"
  "t38_ok s \<Longrightarrow> t38_ok (s\<lparr>t38_tx_seq_no := x mod 65536\<rparr>)"
  "t38_ok s \<Longrightarrow> t38_ok (s\<lparr>t38_current_rx_data_type := -1, t38_current_rx_field_type := -1\<rparr>)"
  "t38_ok s \<Longrightarrow> 0 \<le> ind \<Longrightarrow> ind \<le> 22 \<Longrightarrow> t38_ok (s\<lparr>t38_current_rx_indicator := ind\<rparr>)"
  "t38_ok s \<Longrightarrow> 0 \<le> dt \<Longrightarrow> dt \<le> 14 \<Longrightarrow> 0 \<le> ft \<Longrightarrow> ft \<le> 11 \<Longrightarrow>
    t38_ok (s\<lparr>t38_current_rx_data_type := dt, t38_current_rx_field_type := ft\<rparr>)"
  "t38_ok s \<Longrightarrow> t38_ok (s\<lparr>t38_current_tx_indicator := k\<rparr>)"
  "t38_ok s \<Longrightarrow> t38_ok (s\<lparr>t38_missing_packets := m\<rparr>)"
  by (auto simp: t38_ok_def t38_enum_defs intro: order_trans [of _ 0])

section \<open>Totality and memory safety\<close>

lemma octet_at_Some [simp]: "i < length buf \<Longrightarrow> octet_at buf i = Some (uint (buf ! i))"
  by (simp add: octet_at_def)

lemma extension_value_nonneg [simp]: "0 \<le> extension_value b c"
  by (simp add: extension_value_def)

lemma rx_field_header_total:
  "case t38_rx_field_header v buf ptr oh of None \<Rightarrow> False
   | Some (Inl _) \<Rightarrow> True
   | Some (Inr (present, ft, ptr', oh')) \<Rightarrow> 0 \<le> ft \<and> ft \<le> T38_FIELD_V34RATE"
  using AND_upper2 [of 7 "drop_bit 3 (uint (buf ! ptr))"]
  by (auto simp: t38_rx_field_header_def Let_def t38_enum_defs)

lemma rx_length_bound: "(push_bit 8 (uint (a :: u8)) OR uint (b :: u8)) + 1 \<le> 65536"
proof -
  have "take_bit 16 (push_bit 8 (uint a) OR uint b) = push_bit 8 (uint a) OR uint b"
    by (rule bit_eqI) (auto simp: bit_simps dest: bit_u8_bound)
  then have "push_bit 8 (uint a) OR uint b < 65536"
    using take_bit_int_less_exp [of 16 "push_bit 8 (uint a) OR uint b"] by simp
  then show ?thesis
    by simp
qed

lemma rx_field_data_total:
  "case t38_rx_field_data buf present ptr of None \<Rightarrow> False
   | Some (Inl _) \<Rightarrow> True
   | Some (Inr (msg, ptr')) \<Rightarrow> length msg \<le> 65536"
  using rx_length_bound [of "buf ! ptr" "buf ! Suc ptr"]
  by (auto simp: t38_rx_field_data_def Let_def mem_read_def)

lemma rx_fields_total:
  assumes "t38_ok s" "0 \<le> dt" "dt \<le> T38_DATA_V33_14400"
  shows "case t38_rx_fields n s dt buf ptr oh of None \<Rightarrow> False | Some (s', res) \<Rightarrow> t38_ok s'"
  using assms(1)
proof (induction n arbitrary: s ptr oh)
  case (Suc n)
  let ?next = "\<lambda>ft msg. (t38_emit (Rx_data dt ft msg) s)\<lparr>t38_current_rx_data_type := dt, t38_current_rx_field_type := ft\<rparr>"
  consider "t38_rx_field_header (t38_version s) buf ptr oh = Some (Inl ())"
    | p ft i oh' where "t38_rx_field_header (t38_version s) buf ptr oh = Some (Inr (p, ft, i, oh'))"
      "0 \<le> ft" "ft \<le> T38_FIELD_V34RATE"
    using rx_field_header_total [of "t38_version s" buf ptr oh] by (auto split: option.splits sum.splits)
  then show ?case
  proof cases
    case (2 p ft i oh')
    consider "t38_rx_field_data buf p i = Some (Inl ())"
      | msg i' where "t38_rx_field_data buf p i = Some (Inr (msg, i'))" "length msg \<le> 65536"
      using rx_field_data_total [of buf p i] by (auto split: option.splits sum.splits)
    then show ?thesis
    proof cases
      case (2 msg i')
      then have "t38_ok (?next ft msg)"
        using \<open>0 \<le> ft\<close> \<open>ft \<le> T38_FIELD_V34RATE\<close> Suc.prems assms(2,3) by (simp add: t38_ok_update t38_enum_defs)
      then show ?thesis
        using Suc.IH 2 \<open>t38_rx_field_header _ _ _ _ = _\<close> by simp
    qed (use 2 Suc.prems in simp)
  qed (use Suc.prems in simp)
qed simp

lemma rx_indicator_total:
  assumes "t38_ok s" "buf \<noteq> []"
  shows "case t38_rx_indicator s buf of None \<Rightarrow> False | Some (r, s') \<Rightarrow> t38_ok s' \<and> r \<in> {0, -1}"
  using assms AND_upper2 [of 15 "drop_bit 1 (uint (buf ! 0))"]
  by (auto simp: t38_rx_indicator_def Let_def t38_ok_update t38_enum_defs)

lemma rx_data_type_total:
  assumes "buf \<noteq> []"
  shows "case t38_rx_data_type buf of None \<Rightarrow> False | Some (Inl _) \<Rightarrow> True
    | Some (Inr (dt, ptr)) \<Rightarrow> 0 \<le> dt \<and> dt \<le> T38_DATA_V33_14400"
  using assms by (auto simp: t38_rx_data_type_def Let_def t38_enum_defs)

lemma rx_data_total:
  assumes "t38_ok s" "buf \<noteq> []"
  shows "case t38_rx_data s buf of None \<Rightarrow> False | Some (r, s') \<Rightarrow> t38_ok s' \<and> r \<in> {0, -1}"
proof -
  consider "t38_rx_data_type buf = Some (Inl ())"
    | dt ptr where "t38_rx_data_type buf = Some (Inr (dt, ptr))" "0 \<le> dt" "dt \<le> T38_DATA_V33_14400"
    using rx_data_type_total [OF assms(2)] by (auto split: option.splits sum.splits)
  then show ?thesis
  proof cases
    case (2 dt ptr)
    then show ?thesis
      using rx_fields_total [OF assms(1) 2(2,3), of "nat (uint (buf ! ptr))" buf "ptr + 1" False] assms
      by (auto simp: t38_rx_data_def split: option.splits sum.splits if_splits)
  qed (use assms in \<open>simp add: t38_rx_data_def\<close>)
qed

section \<open>Sequence numbers\<close>

text \<open>
  The offset of a packet from the expected one, modulo \<open>2 ^ 16\<close>: 0 in sequence, 1 to 1999 ahead,
  63537 and more behind.
\<close>

definition seq_offset :: "t38_core_state \<Rightarrow> u16 \<Rightarrow> int" where
  "seq_offset s seq_no = (uint seq_no - t38_rx_expected_seq_no s) mod 65536"

lemma mod_65536_cases:
  assumes "-65536 < (x::int)" "x < 65536"
  shows "x mod 65536 = (if x < 0 then x + 65536 else x)"
proof (cases "x < 0")
  case True
  have "x mod 65536 = (x + 65536) mod 65536"
    by simp
  also have "\<dots> = x + 65536"
    using True assms by (intro mod_pos_pos_trivial) auto
  finally show ?thesis
    using True by simp
qed (use assms in simp)

lemma uint_u16_bounds: "0 \<le> uint (w :: u16)" "uint (w :: u16) < 65536"
  using uint_bounded [of w] by simp_all

lemma classify_seq_no_offset_eq:
  assumes "0 \<le> e" "e < 65536" "0 \<le> a" "a < 65536"
  shows "classify_seq_no_offset e a =
    (if (a - e) mod 65536 < 2000 then 1 else if (a - e) mod 65536 > 63536 then -1 else 0)"
  using assms by (auto simp: classify_seq_no_offset_def ACCEPTABLE_SEQ_NO_OFFSET_def mod_65536_cases)

lemma check_seq_no_cases:
  assumes "t38_check_sequence_numbers s" "0 \<le> t38_rx_expected_seq_no s" "t38_rx_expected_seq_no s < 65536"
  shows "t38_check_seq_no s seq_no =
    (let d = seq_offset s seq_no; e = t38_rx_expected_seq_no s in
     if d = 0 then (True, s)
     else if d > 63536 then (False, s)
     else if d < 2000
     then (True, (t38_emit (Rx_missing e (uint seq_no)) s)
       \<lparr>t38_missing_packets := t38_missing_packets s + (uint seq_no - e), t38_rx_expected_seq_no := uint seq_no\<rparr>)
     else (True, (t38_emit (Rx_missing (-1) (-1)) s)
       \<lparr>t38_missing_packets := t38_missing_packets s + 1, t38_rx_expected_seq_no := uint seq_no\<rparr>))"
proof -
  define e a d where "e = t38_rx_expected_seq_no s" and "a = uint seq_no" and "d = seq_offset s seq_no"
  have b: "0 \<le> e" "e < 65536" "0 \<le> a" "a < 65536"
    using assms(2,3) uint_u16_bounds [of seq_no] by (simp_all only: e_def a_def)
  have d: "d = (a - e) mod 65536"
    by (simp add: d_def e_def a_def seq_offset_def)
  also have "\<dots> = (if a - e < 0 then a - e + 65536 else a - e)"
    using b by (intro mod_65536_cases) auto
  finally have dc: "d = (if a < e then a - e + 65536 else a - e)"
    by auto
  have r: "(a + 1) mod 65536 = (if a = 65535 then 0 else a + 1)"
    using b by auto
  have 1: "a \<noteq> e \<longleftrightarrow> d \<noteq> 0"
    using b by (auto simp: dc)
  have 2: "(a + 1) AND 0xFFFF = e \<longleftrightarrow> d = 65535" "e \<noteq> -1"
    using b by (auto simp: dc r)
  have 3: "classify_seq_no_offset e a = (if d < 2000 then 1 else if d > 63536 then -1 else 0)"
    using classify_seq_no_offset_eq [OF b] by (simp add: d)
  have chk: "t38_check_seq_no s seq_no =
     (if d \<noteq> 0
      then if d = 65535 then (False, s)
           else
             let c = (if d < 2000 then 1 else if d > 63536 then -1 else 0)
             in if c = -1 then (False, s)
                else
                  let s = (if c = (1::int)
                      then (t38_emit (Rx_missing e a) s)\<lparr>t38_missing_packets := t38_missing_packets s + (a - e)\<rparr>
                      else (t38_emit (Rx_missing (-1) (-1)) s)\<lparr>t38_missing_packets := t38_missing_packets s + 1\<rparr>)
                  in (True, s\<lparr>t38_rx_expected_seq_no := a\<rparr>)
      else (True, s))"
    unfolding t38_check_seq_no_def e_def [symmetric] a_def [symmetric]
    by (simp only: assms(1) 1 2 3 simp_thms if_True)
  have "0 \<le> d" "d < 65536"
    by (simp_all add: d)
  then consider "d = 0" | "d = 65535" | "63536 < d" "d < 65535" | "0 < d" "d < 2000" | "2000 \<le> d" "d \<le> 63536"
    by linarith
  then show ?thesis
    unfolding chk d_def [symmetric] e_def [symmetric] a_def [symmetric] by cases (simp_all add: t38_emit_def)
qed

lemma check_seq_no_ok:
  assumes "t38_ok s"
  shows "t38_ok (snd (t38_check_seq_no s seq_no))"
proof -
  have "-1 \<le> uint seq_no"
    by (rule order_trans [of _ 0]) simp_all
  then show ?thesis
    using assms uint_u16_bounds(2) [of seq_no]
    by (auto simp: t38_check_seq_no_def Let_def t38_ok_def t38_emit_def)
qed

lemma rx_ifp_packet_total:
  assumes "t38_ok s"
  shows "case t38_core_rx_ifp_packet s buf seq_no of None \<Rightarrow> False | Some (r, s') \<Rightarrow> t38_ok s' \<and> r \<in> {0, -1}"
proof -
  obtain go s1 where c: "t38_check_seq_no s seq_no = (go, s1)"
    by (cases "t38_check_seq_no s seq_no")
  with check_seq_no_ok [OF assms, of seq_no] have ok: "t38_ok s1"
    by simp
  then have "t38_ok (s1\<lparr>t38_rx_expected_seq_no := (t38_rx_expected_seq_no s1 + 1) mod 65536\<rparr>)"
    by (rule t38_ok_update)
  then show ?thesis
    using ok c assms rx_indicator_total [of _ buf] rx_data_total [of _ buf]
    by (auto simp: t38_core_rx_ifp_packet_def Let_def Suc_le_eq)
qed

section \<open>Copies of a packet\<close>

text \<open>What a step of the receiver leaves alone.\<close>

definition seq_same :: "t38_core_state \<Rightarrow> t38_core_state \<Rightarrow> bool" where
  "seq_same s s' \<longleftrightarrow>
     t38_rx_expected_seq_no s' = t38_rx_expected_seq_no s \<and>
     t38_check_sequence_numbers s' = t38_check_sequence_numbers s \<and>
     t38_version s' = t38_version s"

lemma rx_indicator_seq_same: "t38_rx_indicator s buf = Some (r, s') \<Longrightarrow> seq_same s s'"
  by (auto simp: t38_rx_indicator_def bind_eq_Some_conv Let_def seq_same_def t38_emit_def split: if_splits)

lemma rx_fields_seq_same: "t38_rx_fields n s dt buf ptr oh = Some (s', res) \<Longrightarrow> seq_same s s'"
proof (induction n arbitrary: s ptr oh)
  case (Suc n)
  from Suc.prems show ?case
    by (auto dest!: Suc.IH split: sum.split_asm Option.bind_split_asm) (simp_all add: seq_same_def t38_emit_def)
qed (simp add: seq_same_def)

lemma rx_data_seq_same: "t38_rx_data s buf = Some (r, s') \<Longrightarrow> seq_same s s'"
  by (auto simp: t38_rx_data_def dest!: rx_fields_seq_same
      split: if_split_asm sum.split_asm Option.bind_split_asm) (simp_all add: seq_same_def)

lemma check_seq_no_accepts:
  assumes "t38_check_seq_no s seq_no = (True, s1)" "t38_check_sequence_numbers s"
  shows "t38_rx_expected_seq_no s1 = uint seq_no" "t38_check_sequence_numbers s1"
  using assms by (auto simp: t38_check_seq_no_def t38_emit_def Let_def split: if_splits)

lemma check_seq_no_drops: "t38_check_seq_no s seq_no = (False, s1) \<Longrightarrow> s1 = s"
  by (auto simp: t38_check_seq_no_def Let_def split: if_splits)

lemma check_seq_no_repeat:
  assumes "t38_check_sequence_numbers s" "t38_rx_expected_seq_no s = (uint seq_no + 1) mod 65536"
  shows "t38_check_seq_no s seq_no = (False, s)"
proof -
  have "(uint seq_no + 1) mod 65536 = (if uint seq_no = 65535 then 0 else uint seq_no + 1)"
    using uint_u16_bounds [of seq_no] by auto
  moreover have "uint seq_no \<noteq> (if uint seq_no = 65535 then 0 else uint seq_no + 1)"
    by simp
  moreover have "(uint seq_no + 1) mod 65536 \<noteq> -1"
    using pos_mod_sign [of 65536 "uint seq_no + 1"] by linarith
  ultimately show ?thesis
    using assms by (simp add: t38_check_seq_no_def)
qed

lemma rx_again:
  assumes "t38_core_rx_ifp_packet s buf seq_no = Some (r, s')" and "t38_check_sequence_numbers s"
  shows "\<exists>r'. t38_core_rx_ifp_packet s' buf seq_no = Some (r', s')" "t38_check_sequence_numbers s'"
proof -
  obtain go s1 where c: "t38_check_seq_no s seq_no = (go, s1)"
    by (cases "t38_check_seq_no s seq_no")
  have *: "(\<exists>r'. t38_core_rx_ifp_packet s' buf seq_no = Some (r', s')) \<and> t38_check_sequence_numbers s'"
  proof (cases "buf = [] \<or> \<not> go")
    case True
    then show ?thesis
      using assms c check_seq_no_drops [of s seq_no s1] by (auto simp: t38_core_rx_ifp_packet_def)
  next
    case False
    let ?s = "s1\<lparr>t38_rx_expected_seq_no := (t38_rx_expected_seq_no s1 + 1) mod 65536\<rparr>"
    from False c assms(2) have s1: "t38_rx_expected_seq_no s1 = uint seq_no" "t38_check_sequence_numbers s1"
      using check_seq_no_accepts [of s seq_no s1] by auto
    have "seq_same ?s s'"
      using False c assms(1) rx_indicator_seq_same [of ?s buf] rx_data_seq_same [of ?s buf]
      by (auto simp: t38_core_rx_ifp_packet_def Suc_le_eq Let_def split: if_splits)
    then have "t38_check_sequence_numbers s'" "t38_rx_expected_seq_no s' = (uint seq_no + 1) mod 65536"
      by (simp_all add: seq_same_def s1)
    then show ?thesis
      using check_seq_no_repeat [of s' seq_no] by (simp add: t38_core_rx_ifp_packet_def)
  qed
  then show "\<exists>r'. t38_core_rx_ifp_packet s' buf seq_no = Some (r', s')" "t38_check_sequence_numbers s'"
    by blast+
qed

fun t38_receive_all :: "t38_core_state \<Rightarrow> (octets \<times> u16) list \<Rightarrow> t38_core_state option" where
  "t38_receive_all s [] = Some s"
| "t38_receive_all s ((buf, seq_no) # ps) = do {
     (r, s) \<leftarrow> t38_core_rx_ifp_packet s buf seq_no;
     t38_receive_all s ps
   }"

lemma receive_all_append:
  "t38_receive_all s (ps @ qs) = t38_receive_all s ps \<bind> (\<lambda>s. t38_receive_all s qs)"
  by (induction ps arbitrary: s) (auto split: prod.splits Option.bind_splits)

lemma receive_copies:
  assumes "t38_core_rx_ifp_packet s buf seq_no = Some (r, s')" "t38_check_sequence_numbers s"
  shows "t38_receive_all s' (replicate n (buf, seq_no)) = Some s'"
  using rx_again(1) [OF assms] by (induction n) auto

lemma receive_redundant:
  assumes "t38_check_sequence_numbers s"
  shows "t38_receive_all s (concat (map (\<lambda>(n, p). replicate (Suc n) p) nps)) = t38_receive_all s (map snd nps)"
  using assms
proof (induction nps arbitrary: s)
  case (Cons np nps)
  obtain n buf seq_no where np: "np = (n, buf, seq_no)"
    by (cases np)
  show ?case
  proof (cases "t38_core_rx_ifp_packet s buf seq_no")
    case (Some rs)
    then obtain r s' where rs: "t38_core_rx_ifp_packet s buf seq_no = Some (r, s')"
      by (cases rs) auto
    then show ?thesis
      using Cons receive_copies [OF rs] rx_again(2) [OF rs]
      by (simp add: np receive_all_append)
  qed (simp add: np)
qed simp

end
