(* ===== verification/T38_Packets.thy ===== *)
theory T38_Packets
  imports T38_Core
begin

text \<open>
  The octets of an IFP packet as a specification, and the two directions of
  \<^verbatim>\<open>t38_core.c\<close> against it: the encoder produces these octets, and the decoder reads them back.
\<close>

section \<open>The octets of a packet\<close>

definition field_header :: "int \<Rightarrow> int \<Rightarrow> bool \<Rightarrow> octets" where
  "field_header version ft present =
     (if version = 0 then [of_int (128 * of_bool present + 16 * ft)]
      else if ft \<le> 7 then [of_int (128 * of_bool present + 8 * ft)]
      else [of_int (128 * of_bool present + 64), of_int (64 * (ft - 8))])"

definition field_image :: "int \<Rightarrow> t38_data_field \<Rightarrow> octets" where
  "field_image version q =
     field_header version (field_type q) (field_octets q \<noteq> []) @
     (if field_octets q = [] then []
      else of_nat ((length (field_octets q) - 1) div 256) # of_nat (length (field_octets q) - 1) # field_octets q)"

definition data_header :: "int \<Rightarrow> octets" where
  "data_header dt = (if dt \<le> 8 then [of_int (192 + 2 * dt)] else [of_int (224 + (dt - 9) div 4), of_int (64 * (dt - 9))])"

definition indicator_image :: "int \<Rightarrow> octets" where
  "indicator_image ind = (if ind \<le> 15 then [of_int (2 * ind)] else [of_int (32 + (ind - 16) div 4), of_int (64 * (ind - 16))])"

definition max_field_type :: "int \<Rightarrow> int" where
  "max_field_type version = (if version = 0 then 7 else 11)"

definition max_data_type :: "int \<Rightarrow> int" where
  "max_data_type version = (if version = 0 then 8 else 14)"

definition max_indicator :: "int \<Rightarrow> int" where
  "max_indicator version = (if version = 0 then 15 else 22)"

definition field_ok :: "int \<Rightarrow> t38_data_field \<Rightarrow> bool" where
  "field_ok version q \<longleftrightarrow> 0 \<le> field_type q \<and> field_type q \<le> max_field_type version \<and> length (field_octets q) \<le> 65535"

lemma small_int_cases:
  assumes "0 \<le> (i::int)" "i \<le> n" "list_all (\<lambda>i. P i True \<and> P i False) [0..n]"
  shows "P i b"
  using assms by (cases b) (auto simp: list_all_iff)

section \<open>Encoding\<close>

lemma code_field_header_0:
  assumes "0 \<le> ft" "ft \<le> 7"
  shows "(of_int (push_bit 7 (of_bool p) OR push_bit 4 ft) :: u8) = of_int (128 * of_bool p + 16 * ft)"
  by (rule small_int_cases [OF assms, where b = p and
    P = "\<lambda>ft p. (of_int (push_bit 7 (of_bool p) OR push_bit 4 ft) :: u8) = of_int (128 * of_bool p + 16 * ft)"])
    code_simp

lemma code_field_header_1:
  assumes "0 \<le> ft" "ft \<le> 7"
  shows "(of_int (push_bit 7 (of_bool p) OR push_bit 3 ft) :: u8) = of_int (128 * of_bool p + 8 * ft)"
  by (rule small_int_cases [OF assms, where b = p and
    P = "\<lambda>ft p. (of_int (push_bit 7 (of_bool p) OR push_bit 3 ft) :: u8) = of_int (128 * of_bool p + 8 * ft)"])
    code_simp

lemma code_field_header_2:
  assumes "8 \<le> ft" "ft \<le> 11"
  shows "(of_int (push_bit 7 (of_bool p) OR 0x40 OR drop_bit 2 (ft - 8)) :: u8) = of_int (128 * of_bool p + 64) \<and>
    (of_int (push_bit 6 (ft - 8) AND 0xC0) :: u8) = of_int (64 * (ft - 8))"
  by (rule small_int_cases [where i = "ft - 8" and n = 3 and b = p and
    P = "\<lambda>k p. (of_int (push_bit 7 (of_bool p) OR 0x40 OR drop_bit 2 k) :: u8) = of_int (128 * of_bool p + 64) \<and>
      (of_int (push_bit 6 k AND 0xC0) :: u8) = of_int (64 * k)"])
    (use assms in simp, use assms in simp, code_simp)

lemma and_255: "x AND 0xFF = take_bit 8 (x :: int)"
  by (simp add: take_bit_eq_mask mask_numeral)

lemma of_int_take_bit_u8 [simp]: "(word_of_int (take_bit 8 x) :: u8) = word_of_int x"
  by transfer simp

lemma length_octets:
  assumes "xs \<noteq> []"
  shows "(of_int (drop_bit 8 (int (length xs) - 1) AND 0xFF) :: u8) = of_nat ((length xs - 1) div 256)"
    "(of_int ((int (length xs) - 1) AND 0xFF) :: u8) = of_nat (length xs - 1)"
proof -
  obtain n where n: "length xs = Suc n"
    using assms by (cases xs) auto
  have "of_int (int n div 256) = (of_nat (n div 256) :: u8)"
    by (metis of_int_of_nat_eq of_nat_div of_nat_numeral)
  then show "(of_int (drop_bit 8 (int (length xs) - 1) AND 0xFF) :: u8) = of_nat ((length xs - 1) div 256)"
    by (simp add: n and_255 drop_bit_eq_div)
  show "(of_int ((int (length xs) - 1) AND 0xFF) :: u8) = of_nat (length xs - 1)"
    by (simp add: n and_255)
qed

lemma encode_field_type_eq:
  assumes "0 \<le> ft" "ft \<le> max_field_type v"
  obtains h where "t38_encode_field_type v ft (of_bool p) = Some h" "map of_int h = field_header v ft p"
proof -
  consider "v = 0" "ft \<le> 7" | "v \<noteq> 0" "ft \<le> 7" | "v \<noteq> 0" "8 \<le> ft" "ft \<le> 11"
    using assms by (fastforce simp: max_field_type_def split: if_splits)
  then show ?thesis
  proof cases
    case 1
    then show ?thesis
      using assms by (intro that [of "[push_bit 7 (of_bool p) OR push_bit 4 ft]"])
        (simp_all add: t38_encode_field_type_def field_header_def t38_enum_defs code_field_header_0)
  next
    case 2
    then show ?thesis
      using assms by (intro that [of "[push_bit 7 (of_bool p) OR push_bit 3 ft]"])
        (simp_all add: t38_encode_field_type_def field_header_def t38_enum_defs code_field_header_1)
  next
    case 3
    then show ?thesis
      using code_field_header_2 [of ft p]
      by (intro that [of "[push_bit 7 (of_bool p) OR 0x40 OR drop_bit 2 (ft - 8), push_bit 6 (ft - 8) AND 0xC0]"])
        (simp_all add: t38_encode_field_type_def field_header_def t38_enum_defs)
  qed
qed

lemma encode_field_eq:
  assumes "field_ok (t38_version s) q"
  shows "t38_encode_field s cap buf q =
    (if length buf + length (field_image (t38_version s) q) \<le> cap
     then Some (Inr (buf @ field_image (t38_version s) q)) else None)"
proof -
  have range: "0 \<le> field_type q" "field_type q \<le> max_field_type (t38_version s)" "length (field_octets q) \<le> 65535"
    using assms by (auto simp: field_ok_def)
  obtain h where h: "t38_encode_field_type (t38_version s) (field_type q) (of_bool (field_octets q \<noteq> [])) = Some h"
    and im: "map of_int h = field_header (t38_version s) (field_type q) (field_octets q \<noteq> [])"
    using encode_field_type_eq [OF range(1,2)] .
  have len: "length (field_header (t38_version s) (field_type q) (field_octets q \<noteq> [])) = length h"
    using im by (metis length_map)
  show ?thesis
  proof (cases "field_octets q = []")
    case True
    then show ?thesis
      using h im len by (simp add: t38_encode_field_def put_octets_def field_image_def)
  next
    case False
    then have pos: "0 < length (field_octets q)"
      by simp
    show ?thesis
      using h im len False pos range(3) length_octets [OF False]
      by (simp add: t38_encode_field_def put_octets_def field_image_def comp_def Let_def Suc_leI) 
  qed
qed

definition data_image :: "int \<Rightarrow> int \<Rightarrow> t38_data_field list \<Rightarrow> octets" where
  "data_image version dt fs = data_header dt @ of_nat (length fs) # concat (map (field_image version) fs)"

lemma encode_elements_eq:
  assumes "\<forall>q\<in>set field. field_ok (t38_version s) q" "no + k \<le> length field"
  shows "t38_encode_elements k s cap buf field no =
    (let img = concat (map (field_image (t38_version s)) (take k (drop no field)))
     in if length buf + length img \<le> cap \<or> k = 0 then Some (Inr (buf @ img, no + k)) else None)"
  using assms(2)
proof (induction k arbitrary: buf no)
  case (Suc k)
  then have no: "no < length field" and ok: "field_ok (t38_version s) (field ! no)"
    using assms(1) by auto
  have "take (Suc k) (drop no field) = field ! no # take k (drop (Suc no) field)"
    using no by (metis Cons_nth_drop_Suc take_Suc_Cons)
  then show ?case
    using Suc.IH [of "Suc no" "buf @ field_image (t38_version s) (field ! no)"] Suc.prems no
    by (simp add: encode_field_eq [OF ok] Let_def) 
qed simp

lemma encode_data_type:
  assumes "0 \<le> dt" "dt \<le> max_data_type v"
  obtains h where "(if dt \<le> T38_DATA_V17_14400 then Some [0x80 OR 0x40 OR push_bit 1 dt]
      else if v \<noteq> 0 \<and> dt \<le> T38_DATA_V33_14400
      then Some [0x80 OR 0x60 OR drop_bit 2 ((dt - T38_DATA_V8) AND 0xF), push_bit 6 (dt - T38_DATA_V8) AND 0xFF]
      else None) = Some h" "map of_int h = data_header dt"
proof (cases "dt \<le> 8")
  case True
  have "(of_int (0x80 OR 0x40 OR push_bit 1 dt) :: u8) = of_int (192 + 2 * dt)"
    by (rule small_int_cases [OF assms(1) True, where b = True and
      P = "\<lambda>dt _. (of_int (0x80 OR 0x40 OR push_bit 1 dt) :: u8) = of_int (192 + 2 * dt)"]) code_simp
  then show ?thesis
    using True by (intro that [of "[0x80 OR 0x40 OR push_bit 1 dt]"]) (simp_all add: t38_enum_defs data_header_def)
next
  case False
  then have v: "v \<noteq> 0" "0 \<le> dt - 9" "dt - 9 \<le> 5"
    using assms by (auto simp: max_data_type_def split: if_splits)
  have "(of_int (0x80 OR 0x60 OR drop_bit 2 ((dt - 9) AND 0xF)) :: u8) = of_int (224 + (dt - 9) div 4) \<and>
      (of_int (push_bit 6 (dt - 9) AND 0xFF) :: u8) = of_int (64 * (dt - 9))"
    by (rule small_int_cases [OF v(2,3), where b = True and
      P = "\<lambda>k _. (of_int (0x80 OR 0x60 OR drop_bit 2 (k AND 0xF)) :: u8) = of_int (224 + k div 4) \<and>
        (of_int (push_bit 6 k AND 0xFF) :: u8) = of_int (64 * k)"]) code_simp
  then show ?thesis
    using False v
    by (intro that [of "[0x80 OR 0x60 OR drop_bit 2 ((dt - 9) AND 0xF), push_bit 6 (dt - 9) AND 0xFF]"])
      (simp_all add: t38_enum_defs data_header_def)
qed

lemma encode_data_eq:
  assumes "0 \<le> dt" "dt \<le> max_data_type (t38_version s)"
    and ok: "\<forall>q\<in>set fs. field_ok (t38_version s) q" and n: "length fs < 128"
  shows "t38_encode_data s cap dt fs =
    (if length (data_image (t38_version s) dt fs) \<le> cap then Some (Inr (data_image (t38_version s) dt fs)) else None)"
proof -
  obtain h where h: "(if dt \<le> T38_DATA_V17_14400 then Some [0x80 OR 0x40 OR push_bit 1 dt]
      else if t38_version s \<noteq> 0 \<and> dt \<le> T38_DATA_V33_14400
      then Some [0x80 OR 0x60 OR drop_bit 2 ((dt - T38_DATA_V8) AND 0xF), push_bit 6 (dt - T38_DATA_V8) AND 0xFF]
      else None) = Some h" and im: "map of_int h = data_header dt"
    using encode_data_type [OF assms(1,2)] .
  have len: "length h = length (data_header dt)"
    using im by (metis length_map)
  show ?thesis
    using n unfolding t38_encode_data_def h Let_def
    by (subst t38_encode_fragments.simps)
      (auto simp: t38_encode_count_def put_octets_def encode_elements_eq [OF ok] im len data_image_def Let_def)
qed

section \<open>Decoding\<close>

lemma octet_at_append [simp]:
  "octet_at (pre @ x # post) (length pre) = Some (uint x)"
  "octet_at (pre @ y # x # post) (Suc (length pre)) = Some (uint x)"
  by (simp_all add: octet_at_def nth_append)

lemma read_field_header_0:
  assumes "0 \<le> ft" "ft \<le> 7"
  shows "(drop_bit 7 (uint (of_int (128 * of_bool p + 16 * ft) :: u8)) AND 1 \<noteq> 0) = p \<and>
    drop_bit 4 (uint (of_int (128 * of_bool p + 16 * ft) :: u8)) AND 0x7 = ft"
  by (rule small_int_cases [OF assms, where b = p and
    P = "\<lambda>ft p. (drop_bit 7 (uint (of_int (128 * of_bool p + 16 * ft) :: u8)) AND 1 \<noteq> 0) = p \<and>
    drop_bit 4 (uint (of_int (128 * of_bool p + 16 * ft) :: u8)) AND 0x7 = ft"])
    code_simp

lemma read_field_header_1:
  assumes "0 \<le> ft" "ft \<le> 7"
  shows "(drop_bit 7 (uint (of_int (128 * of_bool p + 8 * ft) :: u8)) AND 1 \<noteq> 0) = p \<and>
    uint (of_int (128 * of_bool p + 8 * ft) :: u8) AND 0x40 = 0 \<and>
    drop_bit 3 (uint (of_int (128 * of_bool p + 8 * ft) :: u8)) AND 0x7 = ft"
  by (rule small_int_cases [OF assms, where b = p and
    P = "\<lambda>ft p. (drop_bit 7 (uint (of_int (128 * of_bool p + 8 * ft) :: u8)) AND 1 \<noteq> 0) = p \<and>
    uint (of_int (128 * of_bool p + 8 * ft) :: u8) AND 0x40 = 0 \<and>
    drop_bit 3 (uint (of_int (128 * of_bool p + 8 * ft) :: u8)) AND 0x7 = ft"])
    code_simp

lemma read_field_header_2:
  assumes "8 \<le> ft" "ft \<le> 11"
  shows "(drop_bit 7 (uint (of_int (128 * of_bool p + 64) :: u8)) AND 1 \<noteq> 0) = p \<and>
    uint (of_int (128 * of_bool p + 64) :: u8) AND 0x40 \<noteq> 0 \<and>
    extension_value (uint (of_int (128 * of_bool p + 64) :: u8)) (uint (of_int (64 * (ft - 8)) :: u8)) = ft - 8"
  by (rule small_int_cases [where i = "ft - 8" and n = 3 and b = p and
    P = "\<lambda>k p. (drop_bit 7 (uint (of_int (128 * of_bool p + 64) :: u8)) AND 1 \<noteq> 0) = p \<and>
    uint (of_int (128 * of_bool p + 64) :: u8) AND 0x40 \<noteq> 0 \<and>
    extension_value (uint (of_int (128 * of_bool p + 64) :: u8)) (uint (of_int (64 * k) :: u8)) = k"])
    (use assms in simp, use assms in simp, code_simp)

lemma rx_field_header_0:
  assumes "0 \<le> ft" "ft \<le> 7"
  shows "t38_rx_field_header 0 (pre @ field_header 0 ft p @ post) (length pre) False =
    Some (Inr (p, ft, length pre + of_bool p, \<not> p))"
proof -
  define b :: u8 where "b = of_int (128 * of_bool p + 16 * ft)"
  have "(drop_bit 7 (uint b) AND 1 \<noteq> 0) = p" "drop_bit 4 (uint b) AND 0x7 = ft"
    using read_field_header_0 [OF assms, of p] unfolding b_def by blast+
  moreover have "field_header 0 ft p = [b]"
    by (simp add: field_header_def b_def)
  ultimately show ?thesis
    using assms(2) by (auto simp: t38_rx_field_header_def Let_def t38_enum_defs)
qed

lemma rx_field_header_1:
  assumes "v \<noteq> 0" "0 \<le> ft" "ft \<le> 11"
  shows "t38_rx_field_header v (pre @ field_header v ft p @ post) (length pre) oh =
    Some (Inr (p, ft, length pre + length (field_header v ft p), oh))"
proof (cases "ft \<le> 7")
  case True
  define b :: u8 where "b = of_int (128 * of_bool p + 8 * ft)"
  have "(drop_bit 7 (uint b) AND 1 \<noteq> 0) = p" "uint b AND 0x40 = 0" "drop_bit 3 (uint b) AND 0x7 = ft"
    using read_field_header_1 [OF assms(2) True, of p] unfolding b_def by blast+
  moreover have "field_header v ft p = [b]"
    using True assms by (simp add: field_header_def b_def)
  ultimately show ?thesis
    using assms by (simp add: t38_rx_field_header_def Let_def t38_enum_defs)
next
  case False
  define b0 b1 :: u8 where "b0 = of_int (128 * of_bool p + 64)" and "b1 = of_int (64 * (ft - 8))"
  have "(drop_bit 7 (uint b0) AND 1 \<noteq> 0) = p" "uint b0 AND 0x40 \<noteq> 0" "extension_value (uint b0) (uint b1) = ft - 8"
    using read_field_header_2 [of ft p] False assms unfolding b0_def b1_def by auto
  moreover have "field_header v ft p = [b0, b1]"
    using False assms by (simp add: field_header_def b0_def b1_def)
  ultimately show ?thesis
    using assms by (simp add: t38_rx_field_header_def Let_def t38_enum_defs)
qed

lemma read_length:
  assumes "n < 65536"
  shows "push_bit 8 (uint (of_nat (n div 256) :: u8)) OR uint (of_nat n :: u8) = int n"
proof -
  have "uint (of_nat n :: u8) = take_bit 8 (int n)"
    by (simp add: unsigned_of_nat of_nat_take_bit)
  moreover have "uint (of_nat (n div 256) :: u8) = take_bit 8 (drop_bit 8 (int n))"
    by (simp add: unsigned_of_nat of_nat_take_bit drop_bit_eq_div of_nat_div)
  moreover have "push_bit 8 (take_bit 8 (drop_bit 8 (int n))) OR take_bit 8 (int n) = take_bit 16 (int n)"
    by (rule bit_eqI) (auto simp: bit_simps)
  moreover have "take_bit 16 (int n) = int n"
    using assms by (simp add: take_bit_int_eq_self)
  ultimately show ?thesis
    by simp
qed

lemma rx_field_data_eq:
  assumes "xs \<noteq> []" "length xs \<le> 65535"
  shows "t38_rx_field_data (pre @ of_nat ((length xs - 1) div 256) # of_nat (length xs - 1) # xs @ post) True (length pre) =
    Some (Inr (xs, length pre + 2 + length xs))"
proof -
  define hi lo :: u8 where "hi = of_nat ((length xs - 1) div 256)" and "lo = of_nat (length xs - 1)"
  have "length xs - 1 < 65536" "0 < length xs"
    using assms by auto
  then have "nat ((push_bit 8 (uint hi) OR uint lo) + 1) = length xs"
    using read_length [of "length xs - 1"] unfolding hi_def lo_def by (simp add: nat_add_distrib)
  then show ?thesis
    unfolding hi_def [symmetric] lo_def [symmetric]
    by (simp add: t38_rx_field_data_def mem_read_def nat_add_distrib Let_def)
qed

text \<open>What a receiver does with the fields of a packet that it accepts.\<close>

definition t38_deliver :: "int \<Rightarrow> t38_data_field \<Rightarrow> t38_core_state \<Rightarrow> t38_core_state" where
  "t38_deliver dt q s =
     (t38_emit (Rx_data dt (field_type q) (field_octets q)) s)
       \<lparr>t38_current_rx_data_type := dt, t38_current_rx_field_type := field_type q\<rparr>"

lemma t38_deliver_simps [simp]:
  "t38_version (t38_deliver dt q s) = t38_version s"
  "t38_log (t38_deliver dt q s) = t38_log s @ [Rx_data dt (field_type q) (field_octets q)]"
  "t38_rx_expected_seq_no (t38_deliver dt q s) = t38_rx_expected_seq_no s"
  "t38_check_sequence_numbers (t38_deliver dt q s) = t38_check_sequence_numbers s"
  by (simp_all add: t38_deliver_def t38_emit_def)

lemma t38_deliver_fold [simp]:
  "t38_version (fold (t38_deliver dt) fs s) = t38_version s"
  "t38_log (fold (t38_deliver dt) fs s) = t38_log s @ map (\<lambda>q. Rx_data dt (field_type q) (field_octets q)) fs"
  "t38_rx_expected_seq_no (fold (t38_deliver dt) fs s) = t38_rx_expected_seq_no s"
  "t38_check_sequence_numbers (fold (t38_deliver dt) fs s) = t38_check_sequence_numbers s"
  by (induction fs arbitrary: s) auto

text \<open>In version 0 a field without data takes half an octet, so that it has to be the last one.\<close>

definition fields_packable :: "int \<Rightarrow> t38_data_field list \<Rightarrow> bool" where
  "fields_packable version fs \<longleftrightarrow> version \<noteq> 0 \<or> (\<forall>q\<in>set (butlast fs). field_octets q \<noteq> [])"

definition half_octet :: "int \<Rightarrow> t38_data_field list \<Rightarrow> bool" where
  "half_octet version fs \<longleftrightarrow> version = 0 \<and> fs \<noteq> [] \<and> field_octets (last fs) = []"

lemma rx_field_eq:
  assumes ok: "field_ok (t38_version s) q" and "t38_version s \<noteq> 0 \<or> field_octets q \<noteq> []"
  shows "t38_rx_fields (Suc n) s dt (pre @ field_image (t38_version s) q @ post) (length pre) False =
    t38_rx_fields n (t38_deliver dt q s) dt (pre @ field_image (t38_version s) q @ post)
      (length (pre @ field_image (t38_version s) q)) False"
proof -
  define h where "h = field_header (t38_version s) (field_type q) (field_octets q \<noteq> [])"
  define d where "d = (if field_octets q = [] then []
      else of_nat ((length (field_octets q) - 1) div 256) # of_nat (length (field_octets q) - 1) # field_octets q)"
  have im: "field_image (t38_version s) q = h @ d"
    by (simp add: field_image_def h_def d_def)
  have ft: "0 \<le> field_type q" "field_type q \<le> max_field_type (t38_version s)"
    using ok by (auto simp: field_ok_def)
  have hdr: "t38_rx_field_header (t38_version s) (pre @ h @ d @ post) (length pre) False =
    Some (Inr (field_octets q \<noteq> [], field_type q, length (pre @ h), False))"
  proof (cases "t38_version s = 0")
    case True
    with assms(2) have "length h = 1" "field_octets q \<noteq> []"
      by (auto simp: h_def field_header_def)
    with True ft rx_field_header_0 [of "field_type q" pre True "d @ post"] show ?thesis
      by (simp add: h_def max_field_type_def)
  next
    case False
    with ft rx_field_header_1 [OF False, of "field_type q" pre "field_octets q \<noteq> []" "d @ post"] show ?thesis
      by (simp add: h_def max_field_type_def)
  qed
  have dat: "t38_rx_field_data (pre @ h @ d @ post) (field_octets q \<noteq> []) (length (pre @ h)) =
    Some (Inr (field_octets q, length (pre @ h @ d)))"
  proof (cases "field_octets q = []")
    case True
    then show ?thesis
      by (simp add: d_def t38_rx_field_data_def)
  next
    case False
    with ok rx_field_data_eq [OF False, of "pre @ h" post] show ?thesis
      by (simp add: d_def field_ok_def)
  qed
  show ?thesis
    using hdr dat by (simp add: im t38_deliver_def)
qed

lemma rx_last_half_field:
  assumes "t38_version s = 0" "field_ok 0 q" "field_octets q = []"
  shows "t38_rx_fields 1 s dt (pre @ field_image 0 q) (length pre) False =
    Some (t38_deliver dt q s, Inr (length pre, True))"
  using assms rx_field_header_0 [of "field_type q" pre False "[]"]
  by (simp add: field_image_def field_ok_def max_field_type_def t38_rx_field_data_def t38_deliver_def)

lemma rx_fields_eq:
  assumes "\<forall>q\<in>set fs. field_ok (t38_version s) q" "fields_packable (t38_version s) fs"
    and "stop = length pre + length (concat (map (field_image (t38_version s)) fs))"
  shows "t38_rx_fields (length fs) s dt (pre @ concat (map (field_image (t38_version s)) fs)) (length pre) False =
    Some (fold (t38_deliver dt) fs s,
      Inr (if half_octet (t38_version s) fs then stop - 1 else stop, half_octet (t38_version s) fs))"
  using assms
proof (induction fs arbitrary: s pre)
  case Nil
  then show ?case by (simp add: half_octet_def)
next
  case (Cons q fs)
  let ?v = "t38_version s"
  have ok: "field_ok ?v q" "\<forall>q\<in>set fs. field_ok ?v q"
    using Cons.prems(1) by auto
  show ?case
  proof (cases "fs = [] \<and> half_octet ?v [q]")
    case True
    then show ?thesis
      using rx_last_half_field [of s q dt pre] ok Cons.prems(3)
      by (simp add: half_octet_def field_image_def field_header_def)
  next
    case False
    then have 1: "?v \<noteq> 0 \<or> field_octets q \<noteq> []" and 2: "fields_packable ?v fs"
      and 3: "half_octet ?v (q # fs) = half_octet ?v fs"
      using Cons.prems(2) by (auto simp: fields_packable_def half_octet_def split: if_splits)
    show ?thesis
      using rx_field_eq [OF ok(1) 1, of "length fs" dt pre "concat (map (field_image ?v) fs)"]
        Cons.IH [of "t38_deliver dt q s" "pre @ field_image ?v q"] ok(2) 2 Cons.prems(3)
      by (simp add: 3 add.assoc del: t38_rx_fields.simps)
  qed
qed

lemma read_data_type:
  assumes "0 \<le> dt" "dt \<le> 14"
  obtains b0 tl where "data_header dt = b0 # tl" "drop_bit 7 (uint b0) AND 1 = 1" "drop_bit 6 (uint b0) AND 1 = 1"
    "t38_rx_data_type (data_header dt @ post) = Some (Inr (dt, length (data_header dt)))"
proof (cases "dt \<le> 8")
  case True
  define b :: u8 where "b = of_int (192 + 2 * dt)"
  have "drop_bit 7 (uint b) AND 1 = 1 \<and> drop_bit 6 (uint b) AND 1 = 1 \<and> uint b AND 0x20 = 0 \<and> drop_bit 1 (uint b) AND 0xF = dt"
    unfolding b_def
    by (rule small_int_cases [OF assms(1) True, where b = True and
      P = "\<lambda>dt _. drop_bit 7 (uint (of_int (192 + 2 * dt) :: u8)) AND 1 = 1 \<and> drop_bit 6 (uint (of_int (192 + 2 * dt) :: u8)) AND 1 = 1
        \<and> uint (of_int (192 + 2 * dt) :: u8) AND 0x20 = 0 \<and> drop_bit 1 (uint (of_int (192 + 2 * dt) :: u8)) AND 0xF = dt"])
      code_simp
  moreover have "data_header dt = [b]"
    using True by (simp add: data_header_def b_def)
  ultimately show ?thesis
    using True by (intro that [of b "[]"]) (simp_all add: t38_rx_data_type_def octet_at_def t38_enum_defs)
next
  case False
  then have k: "0 \<le> dt - 9" "dt - 9 \<le> 5"
    using assms by auto
  define b0 b1 :: u8 where "b0 = of_int (224 + (dt - 9) div 4)" and "b1 = of_int (64 * (dt - 9))"
  have "drop_bit 7 (uint b0) AND 1 = 1 \<and> drop_bit 6 (uint b0) AND 1 = 1 \<and> uint b0 AND 0x20 \<noteq> 0 \<and>
      extension_value (uint b0) (uint b1) = dt - 9"
    unfolding b0_def b1_def
    by (rule small_int_cases [OF k, where b = True and
      P = "\<lambda>k _. drop_bit 7 (uint (of_int (224 + k div 4) :: u8)) AND 1 = 1 \<and> drop_bit 6 (uint (of_int (224 + k div 4) :: u8)) AND 1 = 1
        \<and> uint (of_int (224 + k div 4) :: u8) AND 0x20 \<noteq> 0 \<and>
        extension_value (uint (of_int (224 + k div 4) :: u8)) (uint (of_int (64 * k) :: u8)) = k"])
      code_simp
  moreover have "data_header dt = [b0, b1]"
    using False by (simp add: data_header_def b0_def b1_def)
  ultimately show ?thesis
    using False assms by (intro that [of b0 "[b1]"]) (simp_all add: t38_rx_data_type_def octet_at_def t38_enum_defs)
qed

lemma rx_data_eq:
  assumes dt: "0 \<le> dt" "dt \<le> 14" and n: "length fs < 128"
    and ok: "\<forall>q\<in>set fs. field_ok (t38_version s) q" "fields_packable (t38_version s) fs"
  shows "t38_rx_data s (data_image (t38_version s) dt fs) = Some (0, fold (t38_deliver dt) fs s)"
proof -
  let ?v = "t38_version s"
  let ?rest = "concat (map (field_image ?v) fs)"
  let ?pre = "data_header dt @ [of_nat (length fs)]"
  obtain b0 tl where hd: "data_header dt = b0 # tl" and b0: "drop_bit 7 (uint b0) AND 1 = 1"
    and type: "t38_rx_data_type (data_header dt @ of_nat (length fs) # ?rest) = Some (Inr (dt, length (data_header dt)))"
    using read_data_type [OF dt] .
  have img: "data_image ?v dt fs = data_header dt @ of_nat (length fs) # ?rest"
    by (simp add: data_image_def)
  have at0: "octet_at (data_header dt @ of_nat (length fs) # ?rest) 0 = Some (uint b0)"
    by (simp add: hd octet_at_def)
  have cnt: "unat (of_nat (length fs) :: u8) = length fs"
    using n by (simp add: unsigned_of_nat take_bit_nat_eq_self)
  have "t38_rx_fields (length fs) s dt (data_header dt @ of_nat (length fs) # ?rest) (length (data_header dt) + 1) False =
    Some (fold (t38_deliver dt) fs s, Inr (if half_octet ?v fs then length (?pre @ ?rest) - 1 else length (?pre @ ?rest), half_octet ?v fs))"
    using rx_fields_eq [OF ok, where pre = ?pre and dt = dt and stop = "length (?pre @ ?rest)"] by simp
  then show ?thesis
    unfolding t38_rx_data_def img at0 type
    by (cases "half_octet ?v fs") (auto simp: b0 cnt half_octet_def)
qed

lemma rx_packet_eq:
  assumes "0 \<le> dt" "dt \<le> 14" "length fs < 128"
    and "\<forall>q\<in>set fs. field_ok (t38_version s) q" "fields_packable (t38_version s) fs"
    and chk: "t38_check_seq_no s seq_no = (True, s1)"
  shows "t38_core_rx_ifp_packet s (data_image (t38_version s) dt fs) seq_no =
    Some (0, fold (t38_deliver dt) fs (s1\<lparr>t38_rx_expected_seq_no := (t38_rx_expected_seq_no s1 + 1) AND 0xFFFF\<rparr>))"
proof -
  have v: "t38_version s1 = t38_version s"
    using chk by (auto simp: t38_check_seq_no_def t38_emit_def Let_def split: if_splits)
  obtain b0 tl where hd: "data_header dt = b0 # tl" and b0: "drop_bit 6 (uint b0) AND 1 = 1"
    using read_data_type [OF assms(1,2)] .
  have at0: "octet_at (data_image (t38_version s) dt fs) 0 = Some (uint b0)" "length (data_image (t38_version s) dt fs) \<noteq> 0"
    by (simp_all add: data_image_def hd octet_at_def)
  show ?thesis
    using rx_data_eq [OF assms(1-3), of "s1\<lparr>t38_rx_expected_seq_no := (t38_rx_expected_seq_no s1 + 1) AND 0xFFFF\<rparr>"] assms(4,5) at0
    by (simp add: t38_core_rx_ifp_packet_def chk v b0 Let_def t38_enum_defs)
qed

end
