(* ===== verification/T38_Protocol.thy ===== *)
theory T38_Protocol
  imports T38_Receive T38_Packets
begin

text \<open>
  The properties of the T.38 core: the invariant of all states its operations can reach, the
  behaviour of the receiver on any packet, and the agreement of the two directions.
\<close>

section \<open>Bounds of the encoder\<close>

lemma put_octets_bounds:
  "put_octets cap buf xs = Some buf' \<Longrightarrow> length buf' = length buf + length xs \<and> length buf' \<le> cap"
  by (auto simp: put_octets_def split: if_splits)

lemma encode_field_bounds:
  "t38_encode_field s cap buf q = Some (Inr buf') \<Longrightarrow> length buf \<le> length buf' \<and> length buf' \<le> cap"
  by (auto simp: t38_encode_field_def Let_def dest!: put_octets_bounds
      split: if_split_asm option.split_asm Option.bind_split_asm)

lemma encode_elements_bounds:
  "t38_encode_elements k s cap buf field no = Some (Inr (buf', no')) \<Longrightarrow> length buf \<le> cap \<Longrightarrow>
    length buf \<le> length buf' \<and> length buf' \<le> cap"
proof (induction k arbitrary: buf no)
  case (Suc k)
  from Suc.prems(1) obtain b where "t38_encode_field s cap buf (field ! no) = Some (Inr b)"
    "t38_encode_elements k s cap b field (no + 1) = Some (Inr (buf', no'))"
    by (auto split: if_split_asm sum.split_asm Option.bind_split_asm)
  then show ?case
    using Suc.IH [of b "no + 1"] encode_field_bounds [of s cap buf "field ! no" b] by auto
qed simp

lemma encode_fragments_bounds:
  "t38_encode_fragments s cap buf field len no = Some (Inr buf') \<Longrightarrow> length buf \<le> length buf' \<and> length buf' \<le> cap"
proof (induction s cap buf field len no rule: t38_encode_fragments.induct)
  case (1 s cap buf field len no)
  obtain octs enclen where c: "t38_encode_count (int (length field) - int len) = (octs, enclen)"
    by (cases "t38_encode_count (int (length field) - int len)")
  let ?len = "len + nat enclen"
  from "1.prems" [unfolded t38_encode_fragments.simps [of s cap buf field len no]]
  obtain b b' no' where le: "\<not> length field < len" and put: "put_octets cap buf octs = Some b"
    and el: "t38_encode_elements ?len s cap b field no = Some (Inr (b', no'))"
    and rest: "(if length field \<noteq> ?len \<or> enclen \<ge> 16384
      then t38_encode_fragments s cap b' field ?len no' else Some (Inr b')) = Some (Inr buf')"
    by (auto simp: c Let_def split: if_split_asm sum.split_asm Option.bind_split_asm)
  have b: "length buf \<le> length b" "length b \<le> length b'" "length b' \<le> cap"
    using put_octets_bounds [OF put] encode_elements_bounds [OF el] by auto
  show ?case
  proof (cases "length field \<noteq> ?len \<or> enclen \<ge> 16384")
    case True
    then show ?thesis
      using "1.IH" [OF le refl c [symmetric] refl put el refl refl] rest b by simp
  qed (use rest b in auto)
qed

lemma encode_data_bounds:
  assumes "t38_encode_data s cap dt fs = Some (Inr buf)"
  shows "0 < length buf" "length buf \<le> cap"
  using assms
  by (auto simp: t38_encode_data_def dest!: put_octets_bounds encode_fragments_bounds
      split: if_split_asm option.split_asm Option.bind_split_asm)

lemma encode_indicator_bounds:
  assumes "t38_encode_indicator s cap ind = Some (Inr buf)"
  shows "0 < length buf" "length buf \<le> 2"
  using assms by (auto simp: t38_encode_indicator_def dest!: put_octets_bounds split: if_split_asm)

section \<open>The reachable states\<close>

text \<open>One call of the interface. Setters are those that the session negotiation uses.\<close>

inductive t38_step :: "t38_core_state \<Rightarrow> t38_core_state \<Rightarrow> bool" where
  rx: "t38_core_rx_ifp_packet s buf seq_no = Some (r, s') \<Longrightarrow> t38_step s s'"
| send_indicator: "t38_core_send_indicator s ind = Some (d, s') \<Longrightarrow> t38_step s s'"
| send_data: "t38_core_send_data s dt ft data cat = Some (r, s') \<Longrightarrow> t38_step s s'"
| send_fields: "t38_core_send_data_multi_field s dt fs cat = Some (r, s') \<Longrightarrow> t38_step s s'"
| set_method: "t38_step s (t38_set_data_rate_management_method s k)"
| set_protocol: "t38_step s (t38_set_data_transport_protocol s k)"
| set_fill: "t38_step s (t38_set_fill_bit_removal s b)"
| set_mmr: "t38_step s (t38_set_mmr_transcoding s b)"
| set_jbig: "t38_step s (t38_set_jbig_transcoding s b)"
| set_buffer: "t38_step s (t38_set_max_buffer_size s k)"
| set_datagram: "t38_step s (t38_set_max_datagram_size s k)"
| set_version: "t38_step s (t38_set_t38_version s k)"
| set_sequence: "t38_step s (t38_set_sequence_number_handling s b)"
| set_tep: "t38_step s (t38_set_tep_handling s b)"
| set_redundancy: "t38_set_redundancy_control s cat k = Some s' \<Longrightarrow> t38_step s s'"
| set_rate: "t38_step s (t38_set_fastest_image_data_rate s k)"

inductive t38_reachable :: "t38_core_state \<Rightarrow> bool" where
  init: "t38_reachable t38_core_init"
| step: "t38_reachable s \<Longrightarrow> t38_step s s' \<Longrightarrow> t38_reachable s'"

lemma data_event_ok: "t38_encode_data s 1000 dt fs = Some (Inr buf) \<Longrightarrow> event_ok (Tx_packet buf n)"
  using encode_data_bounds [of s 1000 dt fs buf] by simp

lemma indicator_event_ok: "t38_encode_indicator s cap ind = Some (Inr buf) \<Longrightarrow> event_ok (Tx_packet buf n)"
  using encode_indicator_bounds [of s cap ind buf] by simp

lemma t38_ok_emitI: "t38_ok s \<Longrightarrow> event_ok e \<Longrightarrow> t38_ok (t38_emit e s)"
  by simp

lemma send_indicator_ok: "t38_ok s \<Longrightarrow> t38_core_send_indicator s ind = Some (d, s') \<Longrightarrow> t38_ok s'"
  by (auto simp: t38_core_send_indicator_def Let_def simp del: event_ok.simps t38_ok_emit
      intro!: t38_ok_update t38_ok_emitI indicator_event_ok
      split: if_split_asm sum.split_asm Option.bind_split_asm)

lemma send_fields_ok:
  "t38_ok s \<Longrightarrow> t38_core_send_data_multi_field s dt fs cat = Some (r, s') \<Longrightarrow> t38_ok s'"
  by (auto simp: t38_core_send_data_multi_field_def Let_def simp del: event_ok.simps t38_ok_emit
      intro!: t38_ok_update t38_ok_emitI data_event_ok split: sum.split_asm Option.bind_split_asm)

lemma send_data_as_fields:
  "t38_core_send_data s dt ft data cat =
    t38_core_send_data_multi_field s dt [\<lparr>field_type = ft, field_octets = data\<rparr>] cat"
  by (simp add: t38_core_send_data_def t38_core_send_data_multi_field_def)

lemma rx_ok: "t38_ok s \<Longrightarrow> t38_core_rx_ifp_packet s buf seq_no = Some (r, s') \<Longrightarrow> t38_ok s'"
  using rx_ifp_packet_total [of s buf seq_no] by simp

lemmas t38_setter_defs =
  t38_set_data_rate_management_method_def t38_set_data_transport_protocol_def t38_set_fill_bit_removal_def
  t38_set_mmr_transcoding_def t38_set_jbig_transcoding_def t38_set_max_buffer_size_def
  t38_set_max_datagram_size_def t38_set_t38_version_def t38_set_sequence_number_handling_def
  t38_set_tep_handling_def t38_set_redundancy_control_def t38_set_fastest_image_data_rate_def

lemma t38_step_ok: "t38_step s s' \<Longrightarrow> t38_ok s \<Longrightarrow> t38_ok s'"
proof (induction rule: t38_step.induct)
  case (rx s buf seq_no r s')
  then show ?case
    using rx_ok by blast
next
  case (send_indicator s ind d s')
  then show ?case
    using send_indicator_ok by blast
next
  case (send_data s dt ft data cat r s')
  then show ?case
    using send_fields_ok by (simp add: send_data_as_fields)
next
  case (send_fields s dt fs cat r s')
  then show ?case
    using send_fields_ok by blast
qed (auto simp: t38_setter_defs t38_ok_def split: if_splits)

lemma t38_reachable_ok: "t38_reachable s \<Longrightarrow> t38_ok s"
  by (induction rule: t38_reachable.induct) (auto intro: t38_ok_init t38_step_ok)

section \<open>What was sent is received\<close>

lemma encode_field_accepts:
  assumes "t38_encode_field s cap buf q = Some (Inr buf')" "0 \<le> field_type q"
  shows "field_ok (t38_version s) q"
  using assms
  by (auto simp: t38_encode_field_def Let_def t38_encode_field_type_def field_ok_def max_field_type_def t38_enum_defs
      split: if_split_asm option.split_asm Option.bind_split_asm)

lemma encode_elements_accepts:
  assumes "t38_encode_elements k s cap buf field no = Some (Inr res)" "\<forall>q\<in>set field. 0 \<le> field_type q"
  shows "\<forall>q\<in>set (take k (drop no field)). field_ok (t38_version s) q"
  using assms(1)
proof (induction k arbitrary: buf no)
  case (Suc k)
  from Suc.prems obtain b where no: "no < length field"
    and f: "t38_encode_field s cap buf (field ! no) = Some (Inr b)"
    and e: "t38_encode_elements k s cap b field (no + 1) = Some (Inr res)"
    by (auto split: if_split_asm sum.split_asm Option.bind_split_asm)
  have "take (Suc k) (drop no field) = field ! no # take k (drop (no + 1) field)"
    using no by (metis Cons_nth_drop_Suc Suc_eq_plus1 take_Suc_Cons)
  then show ?case
    using Suc.IH [OF e] encode_field_accepts [OF f] assms(2) no by simp
qed simp

lemma encode_few_fragments:
  assumes "length fs < 128"
  shows "t38_encode_fragments s cap b fs 0 0 = do {
    b \<leftarrow> put_octets cap b [int (length fs)];
    res \<leftarrow> t38_encode_elements (length fs) s cap b fs 0;
    case res of Inl _ \<Rightarrow> Some (Inl ()) | Inr (b, no) \<Rightarrow> Some (Inr b)
  }"
  using assms by (subst t38_encode_fragments.simps) (simp add: t38_encode_count_def Let_def)

lemma encode_data_accepts:
  assumes enc: "t38_encode_data s cap dt fs = Some (Inr buf)"
    and "0 \<le> dt" "\<forall>q\<in>set fs. 0 \<le> field_type q" "length fs < 128"
  shows "dt \<le> max_data_type (t38_version s)" "\<forall>q\<in>set fs. field_ok (t38_version s) q"
    "buf = data_image (t38_version s) dt fs"
proof -
  show dt: "dt \<le> max_data_type (t38_version s)"
    using enc by (auto simp: t38_encode_data_def max_data_type_def t38_enum_defs split: if_split_asm)
  from enc obtain b where frag: "t38_encode_fragments s cap b fs 0 0 = Some (Inr buf)"
    by (auto simp: t38_encode_data_def split: if_split_asm option.split_asm Option.bind_split_asm)
  obtain b' no' where el: "t38_encode_elements (length fs) s cap b' fs 0 = Some (Inr no')"
    using frag by (auto simp: encode_few_fragments [OF assms(4)] split: sum.split_asm Option.bind_split_asm)
  show ok: "\<forall>q\<in>set fs. field_ok (t38_version s) q"
    using encode_elements_accepts [OF el assms(3)] by simp
  show "buf = data_image (t38_version s) dt fs"
    using enc encode_data_eq [OF assms(2) dt ok assms(4), of cap] by (simp split: if_splits)
qed

definition in_sequence :: "t38_core_state \<Rightarrow> u16 \<Rightarrow> bool" where
  "in_sequence r seq_no \<longleftrightarrow> t38_check_sequence_numbers r \<longrightarrow> t38_rx_expected_seq_no r \<in> {-1, uint seq_no}"

lemma in_sequence_check:
  assumes "in_sequence r seq_no" "t38_check_sequence_numbers r"
  shows "t38_check_seq_no r seq_no = (True, r\<lparr>t38_rx_expected_seq_no := uint seq_no\<rparr>)"
proof (cases "t38_rx_expected_seq_no r = uint seq_no")
  case True
  then have "r\<lparr>t38_rx_expected_seq_no := uint seq_no\<rparr> = r"
    by (cases r) simp
  then show ?thesis
    using True by (simp add: t38_check_seq_no_def)
next
  case False
  then show ?thesis
    using assms by (auto simp: t38_check_seq_no_def in_sequence_def)
qed

text \<open>
  Claim C3. Round trip of data packets. Whatever list of fewer than 128 fields the sender accepts, in
  version 0 with data in all fields but the last,
  the packet it hands to the transport is decoded without error by a receiver of the same protocol
  version that checks sequence numbers and either expects this packet or has had none so far: it passes
  exactly these fields, in order and octet for octet, to its data handler and expects the next sequence number.
\<close>

theorem t38_data_round_trip:
  assumes "t38_core_send_data_multi_field s dt fs cat = Some (0, s')"
    and "0 \<le> dt" "\<forall>q\<in>set fs. 0 \<le> field_type q" "length fs < 128" "fields_packable (t38_version s) fs"
    and "t38_version r = t38_version s" "in_sequence r seq_no" "t38_check_sequence_numbers r"
  shows "\<exists>buf n r'. t38_log s' = t38_log s @ [Tx_packet buf n] \<and>
    t38_core_rx_ifp_packet r buf seq_no = Some (0, r') \<and>
    t38_log r' = t38_log r @ map (\<lambda>q. Rx_data dt (field_type q) (field_octets q)) fs \<and>
    t38_rx_expected_seq_no r' = (uint seq_no + 1) mod 65536"
proof -
  from assms(1) obtain buf n where enc: "t38_encode_data s 1000 dt fs = Some (Inr buf)"
    and log: "t38_log s' = t38_log s @ [Tx_packet buf n]"
    by (auto simp: t38_core_send_data_multi_field_def t38_emit_def Let_def split: sum.split_asm Option.bind_split_asm)
  note ok = encode_data_accepts [OF enc assms(2-4)]
  have dt: "dt \<le> 14"
    using ok(1) by (simp add: max_data_type_def split: if_splits)
  show ?thesis
    using rx_packet_eq [OF assms(2) dt assms(4) _ _ in_sequence_check [OF assms(7,8)]] ok assms(5,6) log by auto
qed

theorem t38_data_round_trip_witness:
  "\<exists>buf n r'. t38_core_rx_ifp_packet t38_core_init buf 7 = Some (0, r') \<and>
     t38_log (snd (the (t38_core_send_data_multi_field t38_core_init 3
       [\<lparr>field_type = 6, field_octets = [1, 2, 3]\<rparr>, \<lparr>field_type = 7, field_octets = []\<rparr>] 1))) = [Tx_packet buf n] \<and>
     t38_log r' = [Rx_data 3 6 [1, 2, 3], Rx_data 3 7 []]"
proof -
  let ?fs = "[\<lparr>field_type = 6, field_octets = [1, 2, 3]\<rparr>, \<lparr>field_type = 7, field_octets = []\<rparr>] :: t38_data_field list"
  obtain s' where s': "t38_core_send_data_multi_field t38_core_init 3 ?fs 1 = Some (0, s')"
  proof -
    have "map_option fst (t38_core_send_data_multi_field t38_core_init 3 ?fs 1) = Some 0"
      by code_simp
    then show thesis
      using that by auto
  qed
  have "fields_packable (t38_version t38_core_init) ?fs" "in_sequence t38_core_init 7" "t38_check_sequence_numbers t38_core_init"
    "t38_log t38_core_init = []"
    by (simp_all add: fields_packable_def in_sequence_def t38_core_init_def)
  then show ?thesis
    using t38_data_round_trip [OF s', where r = t38_core_init and seq_no = 7] s' by auto
qed

lemma indicator_octets:
  assumes "0 \<le> ind" "ind \<le> max_indicator (t38_version s)"
  shows "t38_encode_indicator s cap ind = map_option Inr (put_octets cap []
      (if ind \<le> 15 then [push_bit 1 ind] else [0x20 OR drop_bit 2 ((ind - 16) AND 0xF), push_bit 6 (ind - 16) AND 0xFF]))"
  using assms by (auto simp: t38_encode_indicator_def max_indicator_def t38_enum_defs split: if_splits)

lemma rx_indicator_image:
  assumes "0 \<le> ind" "ind \<le> 22"
  shows "indicator_image ind \<noteq> []" "drop_bit 6 (uint (hd (indicator_image ind))) AND 1 = 0"
    "map (of_int :: int \<Rightarrow> u8) (if ind \<le> 15 then [push_bit 1 ind]
      else [0x20 OR drop_bit 2 ((ind - 16) AND 0xF), push_bit 6 (ind - 16) AND 0xFF]) = indicator_image ind"
    "t38_rx_indicator s (indicator_image ind) =
      Some (0, (t38_emit (Rx_indicator ind) (s\<lparr>t38_current_rx_data_type := -1, t38_current_rx_field_type := -1\<rparr>))
        \<lparr>t38_current_rx_indicator := ind\<rparr>)"
proof -
  let ?P = "\<lambda>ind. drop_bit 6 (uint (hd (indicator_image ind))) AND 1 = 0 \<and>
    drop_bit 7 (uint (hd (indicator_image ind))) AND 1 = 0 \<and>
    map (of_int :: int \<Rightarrow> u8) (if ind \<le> 15 then [push_bit 1 ind]
      else [0x20 OR drop_bit 2 ((ind - 16) AND 0xF), push_bit 6 (ind - 16) AND 0xFF]) = indicator_image ind \<and>
    (if ind \<le> 15 then uint (hd (indicator_image ind)) AND 0x20 = 0 \<and> drop_bit 1 (uint (hd (indicator_image ind))) AND 0xF = ind
     else uint (hd (indicator_image ind)) AND 0x20 \<noteq> 0 \<and>
       extension_value (uint (hd (indicator_image ind))) (uint (indicator_image ind ! 1)) = ind - 16)"
  have P: "?P ind"
    by (rule small_int_cases [OF assms, where b = True and P = "\<lambda>i _. ?P i"]) code_simp
  show ne: "indicator_image ind \<noteq> []"
    by (simp add: indicator_image_def)
  show "drop_bit 6 (uint (hd (indicator_image ind))) AND 1 = 0"
    "map (of_int :: int \<Rightarrow> u8) (if ind \<le> 15 then [push_bit 1 ind]
      else [0x20 OR drop_bit 2 ((ind - 16) AND 0xF), push_bit 6 (ind - 16) AND 0xFF]) = indicator_image ind"
    using P by blast+
  have len: "length (indicator_image ind) = (if ind \<le> 15 then 1 else 2)"
    by (simp add: indicator_image_def)
  have at0: "octet_at (indicator_image ind) 0 = Some (uint (hd (indicator_image ind)))"
    using ne by (simp add: hd_conv_nth)
  show "t38_rx_indicator s (indicator_image ind) =
      Some (0, (t38_emit (Rx_indicator ind) (s\<lparr>t38_current_rx_data_type := -1, t38_current_rx_field_type := -1\<rparr>))
        \<lparr>t38_current_rx_indicator := ind\<rparr>)"
  proof (cases "ind \<le> 15")
    case True
    then have "uint (hd (indicator_image ind)) AND 0x20 = 0" "drop_bit 1 (uint (hd (indicator_image ind))) AND 0xF = ind"
      "drop_bit 7 (uint (hd (indicator_image ind))) AND 1 = 0" "length (indicator_image ind) = 1"
      using P len by (simp_all only: if_True simp_thms)
    then show ?thesis
      unfolding t38_rx_indicator_def at0 by simp
  next
    case False
    then have "uint (hd (indicator_image ind)) AND 0x20 \<noteq> 0" "length (indicator_image ind) = 2"
      "extension_value (uint (hd (indicator_image ind))) (uint (indicator_image ind ! Suc 0)) = ind - 16"
      "drop_bit 7 (uint (hd (indicator_image ind))) AND 1 = 0"
      using P len by (simp_all only: if_False simp_thms One_nat_def)
    then show ?thesis
      using assms unfolding t38_rx_indicator_def at0 by (simp add: t38_enum_defs)
  qed
qed

text \<open>
  Round trip of indicators. A sender that announces a new indicator of its protocol version
  hands one packet to the transport, and a receiver in sequence decodes it to the same indicator,
  reports it once, remembers it and forgets the types of earlier data.
\<close>

theorem t38_indicator_round_trip:
  assumes "t38_ok s" "0 \<le> ind" "ind \<le> max_indicator (t38_version s)" "t38_current_tx_indicator s \<noteq> ind"
    and "t38_category_control s ! 0 \<noteq> 0" "in_sequence r seq_no" "t38_check_sequence_numbers r"
  shows "\<exists>d s' buf r'. t38_core_send_indicator s ind = Some (d, s') \<and>
    t38_log s' = t38_log s @ [Tx_packet buf (t38_category_control s ! 0)] \<and>
    t38_tx_seq_no s' = (t38_tx_seq_no s + 1) mod 65536 \<and> t38_current_tx_indicator s' = ind \<and>
    t38_core_rx_ifp_packet r buf seq_no = Some (0, r') \<and>
    t38_log r' = t38_log r @ [Rx_indicator ind] \<and> t38_current_rx_indicator r' = ind \<and>
    t38_current_rx_data_type r' = -1 \<and> t38_current_rx_field_type r' = -1"
proof -
  have ind: "0 \<le> ind" "ind \<le> 22"
    using assms(2,3) by (auto simp: max_indicator_def split: if_splits)
  note img = rx_indicator_image [OF ind]
  have enc: "t38_encode_indicator s 100 ind = Some (Inr (indicator_image ind))"
    unfolding indicator_octets [OF assms(2,3)] put_octets_def using img(3) by simp
  obtain tep training flags where t: "startup_time ind = Some (tep, training, flags)"
    using ind by (cases "modem_startup_time ! nat ind") (simp add: startup_time_def modem_startup_time_def)
  have send: "\<exists>d s'. t38_core_send_indicator s ind = Some (d, s') \<and>
    t38_log s' = t38_log s @ [Tx_packet (indicator_image ind) (t38_category_control s ! 0)] \<and>
    t38_tx_seq_no s' = (t38_tx_seq_no s + 1) mod 65536 \<and> t38_current_tx_indicator s' = ind"
    using assms(1,4,5) t
    by (simp add: t38_core_send_indicator_def category_at_def enc t38_enum_defs t38_ok_def t38_emit_def)
  have "\<exists>r'. t38_core_rx_ifp_packet r (indicator_image ind) seq_no = Some (0, r') \<and>
    t38_log r' = t38_log r @ [Rx_indicator ind] \<and> t38_current_rx_indicator r' = ind \<and>
    t38_current_rx_data_type r' = -1 \<and> t38_current_rx_field_type r' = -1"
    using img(1,2) in_sequence_check [OF assms(6,7)] 
    by (simp add: t38_core_rx_ifp_packet_def hd_conv_nth Suc_le_eq T38_TYPE_OF_MSG_T30_INDICATOR_def img(4) t38_emit_def)
  with send show ?thesis
    by blast
qed

theorem t38_indicator_round_trip_witness:
  "\<exists>d s' buf r'. t38_core_send_indicator t38_core_init 3 = Some (d, s') \<and> t38_log s' = [Tx_packet buf 1] \<and>
    t38_core_rx_ifp_packet t38_core_init buf 9 = Some (0, r') \<and> t38_log r' = [Rx_indicator 3]"
proof -
  have "t38_log t38_core_init = []" "t38_category_control t38_core_init ! 0 = 1" "t38_current_tx_indicator t38_core_init = -1"
    "t38_version t38_core_init = 0" "in_sequence t38_core_init 9" "t38_check_sequence_numbers t38_core_init"
    by (simp_all add: t38_core_init_def in_sequence_def)
  then show ?thesis
    using t38_indicator_round_trip [OF t38_ok_init, of 3 t38_core_init 9] by (auto simp: max_indicator_def)
qed

section \<open>Properties of all reachable states\<close>

text \<open>
  Claim C16. Invariant of the core. In every state that any sequence of received packets, sent
  packets and configuration calls can reach, sequence numbers stay in 16 bits, the remembered
  indicator, data type and field type are values of their enumerations or -1, the redundancy
  settings keep their five entries, and every handler call had values of the enumerations and
  every packet sent was of 1 to 1000 octets.
\<close>

theorem t38_invariant:
  assumes "t38_reachable s"
  shows "t38_ok s"
  using assms by (rule t38_reachable_ok)

theorem t38_invariant_witness:
  "t38_ok (t38_set_t38_version t38_core_init 2)"
  by (rule t38_invariant, rule t38_reachable.step, rule t38_reachable.init, rule t38_step.set_version)

text \<open>
  Claim C17. The receiver is total. In every reachable state, on every packet, truncated, malformed or
  empty, and every sequence number, the receiver stays inside the packet and returns 0 or -1.
\<close>

theorem t38_rx_total:
  assumes "t38_reachable s"
  shows "\<exists>r s'. t38_core_rx_ifp_packet s buf seq_no = Some (r, s') \<and> r \<in> {0, -1}"
  using rx_ifp_packet_total [OF t38_reachable_ok [OF assms], of buf seq_no] by (auto split: option.splits)

theorem t38_rx_total_witness:
  "\<exists>r s'. t38_core_rx_ifp_packet t38_core_init [0xC0, 2, 0x80, 0xFF] 1 = Some (r, s') \<and> r \<in> {0, -1}"
  by (rule t38_rx_total, rule t38_reachable.init)

text \<open>
  Claim C19. Sequence numbers are compared modulo \<open>2 ^ 16\<close>. When the next number is known, a packet
  in sequence is processed, one up to 1999 behind is dropped with the state unchanged, one up to
  1999 ahead is processed after the gap has been reported, and any other restarts the sequence;
  this holds across the wrap from 65535 to 0.
\<close>

theorem t38_sequence_check:
  assumes "t38_reachable s" "t38_check_sequence_numbers s" "t38_rx_expected_seq_no s \<noteq> -1"
  shows "t38_check_seq_no s seq_no =
    (let d = (uint seq_no - t38_rx_expected_seq_no s) mod 65536; e = t38_rx_expected_seq_no s in
     if d = 0 then (True, s)
     else if d > 63536 then (False, s)
     else if d < 2000
     then (True, (t38_emit (Rx_missing e (uint seq_no)) s)
       \<lparr>t38_missing_packets := t38_missing_packets s + (uint seq_no - e), t38_rx_expected_seq_no := uint seq_no\<rparr>)
     else (True, (t38_emit (Rx_missing (-1) (-1)) s)
       \<lparr>t38_missing_packets := t38_missing_packets s + 1, t38_rx_expected_seq_no := uint seq_no\<rparr>))"
proof -
  have "0 \<le> t38_rx_expected_seq_no s" "t38_rx_expected_seq_no s < 65536"
    using t38_reachable_ok [OF assms(1)] assms(3) by (auto simp: t38_ok_def)
  then show ?thesis
    using check_seq_no_cases [OF assms(2)] by (simp only: seq_offset_def)
qed

lemma reachable_after_rx:
  "t38_core_rx_ifp_packet t38_core_init buf seq_no = Some (r, s) \<Longrightarrow> t38_reachable s"
  by (rule t38_reachable.step, rule t38_reachable.init, rule t38_step.rx)

lemma rx_65534: "t38_core_rx_ifp_packet t38_core_init [0] 65534 = Some (0,
  t38_core_init\<lparr>t38_rx_expected_seq_no := 65535, t38_current_rx_indicator := 0, t38_log := [Rx_indicator 0]\<rparr>)"
  by code_simp

theorem t38_sequence_check_witness:
  "fst (t38_check_seq_no (snd (the (t38_core_rx_ifp_packet t38_core_init [0] 65534))) 63537) = False"
  unfolding rx_65534
  using t38_sequence_check [OF reachable_after_rx [OF rx_65534], of 63537]
  by (simp add: t38_core_init_def)

text \<open>
  Claim C20. Redundant copies do no harm. With sequence checking on, a receiver to which every packet
  is delivered one or more times in a row ends in the same state, with the same handler calls, as one
  that gets every packet once.
\<close>

theorem t38_redundant_copies:
  assumes "t38_check_sequence_numbers s"
  shows "t38_receive_all s (concat (map (\<lambda>(n, p). replicate (Suc n) p) nps)) = t38_receive_all s (map snd nps)"
  using assms by (rule receive_redundant)

theorem t38_redundant_copies_witness:
  "t38_receive_all t38_core_init [([0], 5), ([0], 5), ([0], 5), ([2], 6)] = t38_receive_all t38_core_init [([0], 5), ([2], 6)]"
  using t38_redundant_copies [of t38_core_init "[(2, [0], 5), (0, [2], 6)]"]
  by (simp add: t38_core_init_def numeral_eq_Suc del: t38_receive_all.simps)

section \<open>Limits\<close>

text \<open>
  The packet buffer of the sender. For the original data and field types, a field of at
  most 995 octets is sent; with one octet more, up to the 65535 that the field length allows, the
  encoder writes beyond its buffer of 1000 octets.
\<close>

theorem t38_send_data_bound:
  assumes "t38_ok s" "0 \<le> dt" "dt \<le> 8" "0 \<le> ft" "ft \<le> 7" "0 \<le> cat" "cat \<le> 4" "1 \<le> length data" "length data \<le> 65535"
  shows "t38_core_send_data s dt ft data cat \<noteq> None \<longleftrightarrow> length data \<le> 995"
proof -
  let ?q = "\<lparr>field_type = ft, field_octets = data\<rparr>"
  have ok: "\<forall>q\<in>set [?q]. field_ok (t38_version s) q" "dt \<le> max_data_type (t38_version s)"
    using assms by (auto simp: field_ok_def max_field_type_def max_data_type_def)
  have ne: "data \<noteq> []"
    using assms(8) by auto
  have "length (data_image (t38_version s) dt [?q]) = length data + 5"
    using assms(3,5) ne by (simp add: data_image_def data_header_def field_image_def field_header_def)
  moreover have "category_at s cat = Some (t38_category_control s ! nat cat)"
    using assms(1,6,7) by (simp add: category_at_def t38_ok_def)
  ultimately show ?thesis
    by (simp add: t38_core_send_data_def encode_data_eq [OF assms(2) ok(2,1)] Let_def)
qed

theorem t38_send_data_bound_witness:
  "t38_core_send_data t38_core_init 1 6 (replicate 996 0) 3 = None"
  using t38_send_data_bound [OF t38_ok_init, of 1 6 3 "replicate 996 0"] by (simp del: not_None_eq)

text \<open>
  Claim C40. Two empty fields in version 0. The sender gives each field without data an octet of its
  own, the receiver reads two of them from one octet: the second field is delivered as an empty
  field of type 0, whatever was sent, and the packet is reported as bad.
\<close>

theorem t38_version_0_empty_fields:
  assumes "t38_version s = 0" "t38_version r = 0" "0 \<le> a" "a \<le> 7" "0 \<le> b" "b \<le> 7"
  shows "\<exists>buf r'. t38_encode_data s 1000 T38_DATA_V21
        [\<lparr>field_type = a, field_octets = []\<rparr>, \<lparr>field_type = b, field_octets = []\<rparr>] = Some (Inr buf) \<and>
      t38_rx_data r buf = Some (-1, r') \<and>
      t38_log r' = t38_log r @ [Rx_data T38_DATA_V21 a [], Rx_data T38_DATA_V21 T38_FIELD_HDLC_DATA []]"
proof -
  let ?fs = "[\<lparr>field_type = a, field_octets = []\<rparr>, \<lparr>field_type = b, field_octets = []\<rparr>] :: t38_data_field list"
  define c d :: u8 where "c = of_int (16 * a)" and "d = of_int (16 * b)"
  have ok: "\<forall>q\<in>set ?fs. field_ok (t38_version s) q"
    using assms by (simp add: field_ok_def max_field_type_def)
  have enc: "t38_encode_data s 1000 T38_DATA_V21 ?fs = Some (Inr [0xC0, 2, c, d])"
    using encode_data_eq [OF _ _ ok, of 0 1000] assms
    by (simp add: data_image_def data_header_def field_image_def field_header_def max_data_type_def T38_DATA_V21_def c_def d_def)
  have "drop_bit 7 (uint c) AND 1 = 0 \<and> drop_bit 4 (uint c) AND 7 = a \<and> drop_bit 3 (uint c) AND 1 = 0 \<and> uint c AND 7 = 0"
    unfolding c_def
    by (rule small_int_cases [OF assms(3,4), where b = True and P = "\<lambda>a _. drop_bit 7 (uint (of_int (16 * a) :: u8)) AND 1 = 0 \<and>
      drop_bit 4 (uint (of_int (16 * a) :: u8)) AND 7 = a \<and>
      drop_bit 3 (uint (of_int (16 * a) :: u8)) AND 1 = 0 \<and> uint (of_int (16 * a) :: u8) AND 7 = 0"]) code_simp
  moreover have "t38_rx_fields 2 s' dt buf i h = t38_rx_fields (Suc (Suc 0)) s' dt buf i h" for s' dt buf i h
    by (simp only: numeral_2_eq_2)
  ultimately have "\<exists>r'. t38_rx_data r [0xC0, 2, c, d] = Some (-1, r') \<and>
      t38_log r' = t38_log r @ [Rx_data T38_DATA_V21 a [], Rx_data T38_DATA_V21 T38_FIELD_HDLC_DATA []]"
    using assms(2,3,4)
    by (simp add: t38_rx_data_def t38_rx_data_type_def octet_at_def t38_enum_defs t38_rx_field_header_def
        t38_rx_field_data_def t38_emit_def Let_def)
  with enc show ?thesis
    by blast
qed

theorem t38_version_0_empty_fields_witness:
  "\<exists>buf r'. t38_encode_data t38_core_init 1000 T38_DATA_V21
        [\<lparr>field_type = T38_FIELD_HDLC_FCS_OK, field_octets = []\<rparr>, \<lparr>field_type = T38_FIELD_HDLC_SIG_END, field_octets = []\<rparr>] =
        Some (Inr buf) \<and>
      t38_rx_data t38_core_init buf = Some (-1, r') \<and>
      t38_log r' = [Rx_data T38_DATA_V21 T38_FIELD_HDLC_FCS_OK [], Rx_data T38_DATA_V21 T38_FIELD_HDLC_DATA []]"
  using t38_version_0_empty_fields [of t38_core_init t38_core_init T38_FIELD_HDLC_FCS_OK T38_FIELD_HDLC_SIG_END]
  by (simp add: t38_core_init_def T38_FIELD_HDLC_FCS_OK_def T38_FIELD_HDLC_SIG_END_def)

text \<open>
  The count of missing packets. When the gap spans the wrap of the sequence numbers, the
  counter is lowered by 65536 less the size of the gap instead of being raised by the gap.
\<close>

theorem t38_missing_count_at_wrap:
  assumes "t38_check_sequence_numbers s" "t38_rx_expected_seq_no s < 65536"
    and "uint seq_no + 65536 - t38_rx_expected_seq_no s = gap" "0 < gap" "gap < 2000"
  shows "t38_missing_packets (snd (t38_check_seq_no s seq_no)) = t38_missing_packets s + gap - 65536"
proof -
  have e: "0 \<le> t38_rx_expected_seq_no s"
    using assms(3,5) uint_u16_bounds(1) [of seq_no] by linarith
  have "uint seq_no - t38_rx_expected_seq_no s = gap - 65536"
    using assms(3) by linarith
  then have "(uint seq_no - t38_rx_expected_seq_no s) mod 65536 = (gap - 65536) mod 65536"
    by (simp only:)
  also have "\<dots> = gap"
    using assms(4,5) by simp
  finally have "seq_offset s seq_no = gap"
    by (simp add: seq_offset_def)
  then show ?thesis
    using check_seq_no_cases [OF assms(1) e assms(2), of seq_no] assms(3-5) by (simp add: Let_def t38_emit_def)
qed

theorem t38_missing_count_at_wrap_witness:
  "t38_missing_packets (snd (t38_check_seq_no (t38_core_init\<lparr>t38_rx_expected_seq_no := 65535\<rparr>) 1)) = -65534"
  using t38_missing_count_at_wrap [of "t38_core_init\<lparr>t38_rx_expected_seq_no := 65535\<rparr>" 1 2] by (simp add: t38_core_init_def)

text \<open>
  Packets of 128 fields and more. The sender writes the number of fields in two octets,
  the receiver reads one: 128 fields without data are sent without an error and refused.
\<close>

theorem t38_128_fields_refused:
  "\<exists>buf. t38_encode_data (t38_set_t38_version t38_core_init 1) 1000 T38_DATA_V21
       (replicate 128 \<lparr>field_type = T38_FIELD_HDLC_FCS_OK, field_octets = []\<rparr>) = Some (Inr buf) \<and>
     map_option fst (t38_rx_data (t38_set_t38_version t38_core_init 1) buf) = Some (-1)"
proof -
  let ?buf = "0xC0 # 0x80 # 0x80 # replicate 128 0x10"
  have "t38_encode_data (t38_set_t38_version t38_core_init 1) 1000 T38_DATA_V21
       (replicate 128 \<lparr>field_type = T38_FIELD_HDLC_FCS_OK, field_octets = []\<rparr>) = Some (Inr ?buf)"
    by code_simp
  moreover have "map_option fst (t38_rx_data (t38_set_t38_version t38_core_init 1) ?buf) = Some (-1)"
    by code_simp
  ultimately show ?thesis
    by blast
qed

end
