(* ===== verification/T38_Non_Ecm.thy ===== *)
theory T38_Non_Ecm
  imports Bit_Ops Queue Sig_Status "HOL-Library.Monad_Syntax"
begin

text \<open>
  The flow controlled buffer for non-ECM image data and TCF of
  \<^verbatim>\<open>spandsp-0.0.6/src/t38_non_ecm_buffer.c\<close>, between the T.38 packets and the transmitting modem. An
  access outside the ring makes an operation \<open>None\<close>; logging is left out.
\<close>

section \<open>State\<close>

definition T38_NON_ECM_TX_BUF_LEN :: int where "T38_NON_ECM_TX_BUF_LEN = 16384"

definition TCF_AT_INITIAL_ALL_ONES :: int where "TCF_AT_INITIAL_ALL_ONES = 0"
definition TCF_AT_ALL_ZEROS :: int where "TCF_AT_ALL_ZEROS = 1"
definition IMAGE_WAITING_FOR_FIRST_EOL :: int where "IMAGE_WAITING_FOR_FIRST_EOL = 2"
definition IMAGE_IN_PROGRESS :: int where "IMAGE_IN_PROGRESS = 3"

lemmas non_ecm_phases = TCF_AT_INITIAL_ALL_ONES_def TCF_AT_ALL_ZEROS_def IMAGE_WAITING_FOR_FIRST_EOL_def IMAGE_IN_PROGRESS_def

record t38_non_ecm_buffer_state =
  ne_min_bits_per_row :: int
  ne_data :: octets
  ne_in_ptr :: int
  ne_out_ptr :: int
  ne_latest_eol_ptr :: int
  ne_row_bits :: int
  ne_bit_stream :: u32
  ne_flow_control_fill_octet :: u8
  ne_input_phase :: int
  ne_data_finished :: bool
  ne_octet :: u32
  ne_bit_no :: int
  ne_image_data_mode :: bool
  ne_in_octets :: int
  ne_in_rows :: int
  ne_min_row_bits_fill_octets :: int
  ne_out_octets :: int
  ne_out_rows :: int
  ne_flow_control_fill_octets :: int

definition restart_buffer :: "t38_non_ecm_buffer_state \<Rightarrow> t38_non_ecm_buffer_state" where
  "restart_buffer s =
     s\<lparr>ne_octet := 0xFF, ne_flow_control_fill_octet := 0xFF,
       ne_input_phase := if ne_image_data_mode s then IMAGE_WAITING_FOR_FIRST_EOL else TCF_AT_INITIAL_ALL_ONES,
       ne_bit_stream := 0xFFFF, ne_out_ptr := 0, ne_in_ptr := 0, ne_latest_eol_ptr := 0, ne_data_finished := False\<rparr>"

definition t38_non_ecm_buffer_init :: "bool \<Rightarrow> int \<Rightarrow> t38_non_ecm_buffer_state" where
  "t38_non_ecm_buffer_init mode min_bits_per_row =
     restart_buffer
       \<lparr>ne_min_bits_per_row = min_bits_per_row, ne_data = replicate (nat T38_NON_ECM_TX_BUF_LEN) 0,
        ne_in_ptr = 0, ne_out_ptr = 0, ne_latest_eol_ptr = 0, ne_row_bits = 0, ne_bit_stream = 0,
        ne_flow_control_fill_octet = 0, ne_input_phase = 0, ne_data_finished = False, ne_octet = 0, ne_bit_no = 0,
        ne_image_data_mode = mode, ne_in_octets = 0, ne_in_rows = 0, ne_min_row_bits_fill_octets = 0,
        ne_out_octets = 0, ne_out_rows = 0, ne_flow_control_fill_octets = 0\<rparr>"

section \<open>Output\<close>

definition next_ptr :: "int \<Rightarrow> int" where
  "next_ptr p = (p + 1) AND (T38_NON_ECM_TX_BUF_LEN - 1)"

definition shift_bit_out :: "t38_non_ecm_buffer_state \<Rightarrow> int \<times> t38_non_ecm_buffer_state" where
  "shift_bit_out s =
     (uint (drop_bit 7 (ne_octet s) AND 1), s\<lparr>ne_bit_no := ne_bit_no s - 1, ne_octet := push_bit 1 (ne_octet s)\<rparr>)"

definition t38_non_ecm_buffer_get_bit :: "t38_non_ecm_buffer_state \<Rightarrow> (int \<times> t38_non_ecm_buffer_state) option" where
  "t38_non_ecm_buffer_get_bit s =
     (if ne_bit_no s \<le> 0
      then if ne_out_ptr s \<noteq> ne_latest_eol_ptr s
           then do {
             b \<leftarrow> mem_read (ne_data s) (ne_out_ptr s) 1;
             Some (shift_bit_out (s\<lparr>ne_octet := ucast (hd b), ne_out_ptr := next_ptr (ne_out_ptr s),
               ne_out_octets := ne_out_octets s + 1, ne_bit_no := 8\<rparr>))
           }
           else if ne_data_finished s then Some (SIG_STATUS_END_OF_DATA, restart_buffer s)
           else Some (shift_bit_out (s\<lparr>ne_octet := ucast (ne_flow_control_fill_octet s),
             ne_flow_control_fill_octets := ne_flow_control_fill_octets s + 1,
             ne_out_octets := ne_out_octets s + 1, ne_bit_no := 8\<rparr>))
      else Some (shift_bit_out s))"

definition t38_non_ecm_buffer_push :: "t38_non_ecm_buffer_state \<Rightarrow> t38_non_ecm_buffer_state" where
  "t38_non_ecm_buffer_push s = s\<lparr>ne_latest_eol_ptr := ne_in_ptr s, ne_data_finished := True\<rparr>"

section \<open>Input\<close>

definition ne_store :: "t38_non_ecm_buffer_state \<Rightarrow> u8 \<Rightarrow> t38_non_ecm_buffer_state option" where
  "ne_store s b = do {
     d \<leftarrow> mem_write (ne_data s) (ne_in_ptr s) [b];
     Some (s\<lparr>ne_data := d, ne_in_ptr := next_ptr (ne_in_ptr s)\<rparr>)
   }"

fun inject_tcf :: "octets \<Rightarrow> t38_non_ecm_buffer_state \<Rightarrow> t38_non_ecm_buffer_state option" where
  "inject_tcf [] s = Some s"
| "inject_tcf (b # bs) s = do {
     s \<leftarrow> ne_store (s\<lparr>ne_latest_eol_ptr := ne_in_ptr s\<rparr>) b;
     inject_tcf bs (s\<lparr>ne_in_octets := ne_in_octets s + 1\<rparr>)
   }"

fun skip_ones :: "octets \<Rightarrow> t38_non_ecm_buffer_state \<Rightarrow> octets \<times> t38_non_ecm_buffer_state" where
  "skip_ones [] s = ([], s)"
| "skip_ones (b # bs) s =
     (if b \<noteq> 0xFF then (b # bs, s\<lparr>ne_input_phase := TCF_AT_ALL_ZEROS, ne_flow_control_fill_octet := 0x00\<rparr>)
      else skip_ones bs s)"

definition eol_at :: "u32 \<Rightarrow> u8 \<Rightarrow> bool" where
  "eol_at bit_stream b \<longleftrightarrow>
     b \<noteq> 0 \<and> bottom_bit (bit_stream OR 0x800) - top_bit (ucast b) > 11 - 8"

definition shift_in :: "t38_non_ecm_buffer_state \<Rightarrow> u8 \<Rightarrow> t38_non_ecm_buffer_state" where
  "shift_in s b = s\<lparr>ne_bit_stream := push_bit 8 (ne_bit_stream s) OR ucast b\<rparr>"

fun skip_to_eol :: "octets \<Rightarrow> t38_non_ecm_buffer_state \<Rightarrow> (octets \<times> t38_non_ecm_buffer_state) option" where
  "skip_to_eol [] s = Some ([], s)"
| "skip_to_eol (b # bs) s =
     (if eol_at (ne_bit_stream s) b
      then do {
        let s = s\<lparr>ne_input_phase := IMAGE_IN_PROGRESS, ne_row_bits := top_bit (ucast b) - 8,
                  ne_latest_eol_ptr := ne_in_ptr s, ne_flow_control_fill_octet := 0x00\<rparr>;
        s \<leftarrow> ne_store s 0x00;
        s \<leftarrow> ne_store s 0x00;
        s \<leftarrow> ne_store s b;
        Some (bs, shift_in (s\<lparr>ne_in_octets := ne_in_octets s + 3\<rparr>) b)
      }
      else skip_to_eol bs (shift_in s b))"

lemma ne_store_fields:
  "ne_store s b = Some s' \<Longrightarrow> ne_row_bits s' = ne_row_bits s \<and> ne_min_bits_per_row s' = ne_min_bits_per_row s"
  by (auto simp: ne_store_def split: Option.bind_split_asm)

function fill_row :: "t38_non_ecm_buffer_state \<Rightarrow> t38_non_ecm_buffer_state option" where
  "fill_row s =
     (if ne_row_bits s < ne_min_bits_per_row s
      then do {
        s \<leftarrow> ne_store (s\<lparr>ne_min_row_bits_fill_octets := ne_min_row_bits_fill_octets s + 1\<rparr>) 0;
        fill_row (s\<lparr>ne_row_bits := ne_row_bits s + 8\<rparr>)
      }
      else Some s)"
  by pat_completeness auto
termination
  by (relation "measure (\<lambda>s. nat (ne_min_bits_per_row s - ne_row_bits s))") (auto dest: ne_store_fields)

definition end_row :: "t38_non_ecm_buffer_state \<Rightarrow> u8 \<Rightarrow> t38_non_ecm_buffer_state option" where
  "end_row s b =
     (if eol_at (ne_bit_stream s) b
      then do {
        let lower = top_bit (ucast b);
        let s = s\<lparr>ne_row_bits := ne_row_bits s + (8 - lower)\<rparr>;
        s \<leftarrow> (if ne_row_bits s < 12 \<or> ne_row_bits s > 13
              then do { s \<leftarrow> fill_row s; Some (s\<lparr>ne_latest_eol_ptr := ne_in_ptr s\<rparr>) }
              else Some s);
        Some (s\<lparr>ne_row_bits := lower - 8, ne_in_rows := ne_in_rows s + 1\<rparr>)
      }
      else Some s)"

fun inject_image :: "octets \<Rightarrow> t38_non_ecm_buffer_state \<Rightarrow> t38_non_ecm_buffer_state option" where
  "inject_image [] s = Some s"
| "inject_image (b # bs) s = do {
     s \<leftarrow> end_row s b;
     s \<leftarrow> ne_store (shift_in s b) b;
     inject_image bs (s\<lparr>ne_row_bits := ne_row_bits s + 8, ne_in_octets := ne_in_octets s + 1\<rparr>)
   }"

definition t38_non_ecm_buffer_inject :: "t38_non_ecm_buffer_state \<Rightarrow> octets \<Rightarrow> t38_non_ecm_buffer_state option" where
  "t38_non_ecm_buffer_inject s buf =
     (if ne_input_phase s = TCF_AT_INITIAL_ALL_ONES then let (rest, s) = skip_ones buf s in inject_tcf rest s
      else if ne_input_phase s = TCF_AT_ALL_ZEROS then inject_tcf buf s
      else if ne_input_phase s = IMAGE_WAITING_FOR_FIRST_EOL
      then do { (rest, s) \<leftarrow> skip_to_eol buf s; inject_image rest s }
      else if ne_input_phase s = IMAGE_IN_PROGRESS then inject_image buf s
      else Some s)"

section \<open>Statistics and configuration\<close>

definition t38_non_ecm_buffer_report_input_status :: "t38_non_ecm_buffer_state \<Rightarrow> t38_non_ecm_buffer_state" where
  "t38_non_ecm_buffer_report_input_status s =
     (if ne_in_octets s \<noteq> 0 \<or> ne_min_row_bits_fill_octets s \<noteq> 0
      then s\<lparr>ne_in_octets := 0, ne_in_rows := 0, ne_min_row_bits_fill_octets := 0\<rparr> else s)"

definition t38_non_ecm_buffer_report_output_status :: "t38_non_ecm_buffer_state \<Rightarrow> t38_non_ecm_buffer_state" where
  "t38_non_ecm_buffer_report_output_status s =
     (if ne_out_octets s \<noteq> 0 \<or> ne_flow_control_fill_octets s \<noteq> 0
      then s\<lparr>ne_out_octets := 0, ne_out_rows := 0, ne_flow_control_fill_octets := 0\<rparr> else s)"

definition t38_non_ecm_buffer_set_mode :: "t38_non_ecm_buffer_state \<Rightarrow> bool \<Rightarrow> int \<Rightarrow> t38_non_ecm_buffer_state" where
  "t38_non_ecm_buffer_set_mode s mode min_bits_per_row =
     s\<lparr>ne_image_data_mode := mode, ne_min_bits_per_row := min_bits_per_row\<rparr>"

declare fill_row.simps [simp del]

section \<open>Invariant\<close>

definition ne_ok :: "t38_non_ecm_buffer_state \<Rightarrow> bool" where
  "ne_ok s \<longleftrightarrow> length (ne_data s) = 16384 \<and> 0 \<le> ne_in_ptr s \<and> ne_in_ptr s < 16384 \<and>
     0 \<le> ne_out_ptr s \<and> ne_out_ptr s < 16384 \<and> 0 \<le> ne_latest_eol_ptr s \<and> ne_latest_eol_ptr s < 16384"

text \<open>The octets that wait in the ring.\<close>

definition ne_ring :: "t38_non_ecm_buffer_state \<Rightarrow> octets" where
  "ne_ring s = ring_list (ne_data s) (nat (ne_out_ptr s)) (nat (ne_in_ptr s))"

text \<open>An input operation that appends octets to the ring and leaves the output side alone.\<close>

definition appends :: "t38_non_ecm_buffer_state \<Rightarrow> octets \<Rightarrow> t38_non_ecm_buffer_state \<Rightarrow> bool" where
  "appends s xs s' \<longleftrightarrow> ne_ok s' \<and>
     (length (ne_ring s) + length xs < 16384 \<longrightarrow> ne_ring s' = ne_ring s @ xs) \<and>
     ne_out_ptr s' = ne_out_ptr s \<and> ne_bit_no s' = ne_bit_no s \<and> ne_data_finished s' = ne_data_finished s \<and>
     ne_image_data_mode s' = ne_image_data_mode s \<and> ne_min_bits_per_row s' = ne_min_bits_per_row s"

lemma appends_refl: "ne_ok s \<Longrightarrow> appends s [] s"
  by (simp add: appends_def)

lemma appends_trans: "appends s xs t \<Longrightarrow> appends t ys u \<Longrightarrow> appends s (xs @ ys) u"
  by (auto simp: appends_def)

text \<open>Fields that matter neither to the ring nor to the invariant.\<close>

lemma appends_update:
  assumes "appends s xs t"
    and "ne_data u = ne_data t" "ne_in_ptr u = ne_in_ptr t" "ne_out_ptr u = ne_out_ptr t"
    and "ne_bit_no u = ne_bit_no t" "ne_data_finished u = ne_data_finished t"
    and "ne_image_data_mode u = ne_image_data_mode t" "ne_min_bits_per_row u = ne_min_bits_per_row t"
    and "0 \<le> ne_latest_eol_ptr u" "ne_latest_eol_ptr u < 16384"
  shows "appends s xs u"
  using assms by (auto simp: appends_def ne_ok_def ne_ring_def)

lemma next_ptr_mod: "next_ptr p = (p + 1) mod 16384"
proof -
  have "(p + 1) AND 16383 = take_bit 14 (p + 1)"
    by (simp add: take_bit_eq_mask mask_numeral)
  then show ?thesis
    by (simp add: next_ptr_def T38_NON_ECM_TX_BUF_LEN_def take_bit_eq_mod)
qed

lemma next_ptr_ring:
  assumes "p < 16384" "length d = 16384"
  shows "next_ptr (int p) = int (ring_next d p 1)"
  using assms by (cases "p = 16383") (simp_all add: next_ptr_mod ring_next_def)

lemma ne_okD:
  assumes "ne_ok s"
  obtains i out where "ne_in_ptr s = int i" "i < 16384" "ne_out_ptr s = int out" "out < 16384"
    "length (ne_data s) = 16384" "ne_ring s = ring_list (ne_data s) out i"
  using assms that [of "nat (ne_in_ptr s)" "nat (ne_out_ptr s)"] by (auto simp: ne_ok_def ne_ring_def)

lemma ne_store_appends:
  assumes "ne_ok s"
  shows "\<exists>s'. ne_store s b = Some s' \<and> appends s [b] s' \<and> ne_input_phase s' = ne_input_phase s \<and>
    ne_bit_stream s' = ne_bit_stream s \<and> ne_row_bits s' = ne_row_bits s"
proof -
  obtain i out where s: "ne_in_ptr s = int i" "i < 16384" "ne_out_ptr s = int out" "out < 16384"
    "length (ne_data s) = 16384" "ne_ring s = ring_list (ne_data s) out i"
    using assms by (rule ne_okD)
  have w: "mem_write (ne_data s) (int i) [b] = Some (ring_put (ne_data s) i [b])"
    using s by (intro mem_write_ring) simp
  have n: "next_ptr (int i) = int (ring_next (ne_data s) i 1)"
    using s by (intro next_ptr_ring) auto
  let ?s = "s\<lparr>ne_data := ring_put (ne_data s) i [b], ne_in_ptr := int (ring_next (ne_data s) i 1)\<rparr>"
  have "ne_ok ?s"
    using assms s by (auto simp: ne_ok_def ring_next_def)
  moreover have "length (ne_ring s) + 1 < 16384 \<longrightarrow> ne_ring ?s = ne_ring s @ [b]"
    using ring_put_list [of out "ne_data s" i "[b]"] s by (simp add: ne_ring_def)
  ultimately have "appends s [b] ?s"
    by (simp add: appends_def)
  then show ?thesis
    by (simp add: ne_store_def s(1) w n)
qed

section \<open>What each octet adds\<close>

text \<open>
  The reference for the input side, octet by octet: the phase, the recent bits and the length of the
  row so far, and the octets that go to the ring.
\<close>

type_synonym ne_view = "int \<times> u32 \<times> int"

definition row_fill :: "int \<Rightarrow> int \<Rightarrow> nat" where
  "row_fill min_bits row_bits = (if row_bits < 12 \<or> row_bits > 13 then nat ((min_bits - row_bits + 7) div 8) else 0)"

definition next_octet :: "int \<Rightarrow> ne_view \<Rightarrow> u8 \<Rightarrow> octets \<times> ne_view" where
  "next_octet min_bits v b =
     (case v of (phase, stream, row) \<Rightarrow>
      let stream' = push_bit 8 stream OR ucast b; lower = top_bit (ucast b) in
      if phase = TCF_AT_INITIAL_ALL_ONES
      then if b = 0xFF then ([], v) else ([b], (TCF_AT_ALL_ZEROS, stream, row))
      else if phase = TCF_AT_ALL_ZEROS then ([b], v)
      else if phase = IMAGE_WAITING_FOR_FIRST_EOL
      then if eol_at stream b then ([0, 0, b], (IMAGE_IN_PROGRESS, stream', lower - 8))
           else ([], (phase, stream', row))
      else if phase = IMAGE_IN_PROGRESS
      then if eol_at stream b
           then (replicate (row_fill min_bits (row + (8 - lower))) 0 @ [b], (phase, stream', lower))
           else ([b], (phase, stream', row + 8))
      else ([], v))"

fun all_octets :: "int \<Rightarrow> ne_view \<Rightarrow> octets \<Rightarrow> octets \<times> ne_view" where
  "all_octets min_bits v [] = ([], v)"
| "all_octets min_bits v (b # bs) =
     (let (xs, v) = next_octet min_bits v b; (ys, v) = all_octets min_bits v bs in (xs @ ys, v))"

definition ne_view_of :: "t38_non_ecm_buffer_state \<Rightarrow> ne_view" where
  "ne_view_of s = (ne_input_phase s, ne_bit_stream s, ne_row_bits s)"

definition injects :: "t38_non_ecm_buffer_state \<Rightarrow> octets \<Rightarrow> t38_non_ecm_buffer_state option \<Rightarrow> bool" where
  "injects s buf res \<longleftrightarrow> (\<exists>s'. res = Some s' \<and>
     (let (xs, v) = all_octets (ne_min_bits_per_row s) (ne_view_of s) buf in appends s xs s' \<and> ne_view_of s' = v))"

lemma injectsE:
  assumes "injects s buf res"
  obtains t xs where "res = Some t" "appends s xs t" "all_octets (ne_min_bits_per_row s) (ne_view_of s) buf = (xs, ne_view_of t)"
  using assms that by (cases "all_octets (ne_min_bits_per_row s) (ne_view_of s) buf") (auto simp: injects_def)

lemma fill_row_appends:
  assumes "ne_ok s"
  shows "\<exists>s'. fill_row s = Some s' \<and> appends s (replicate (nat ((ne_min_bits_per_row s - ne_row_bits s + 7) div 8)) 0) s' \<and>
    ne_input_phase s' = ne_input_phase s \<and> ne_bit_stream s' = ne_bit_stream s"
  using assms
proof (induction s rule: fill_row.induct)
  case (1 s)
  show ?case
  proof (cases "ne_row_bits s < ne_min_bits_per_row s")
    case True
    let ?s = "s\<lparr>ne_min_row_bits_fill_octets := ne_min_row_bits_fill_octets s + 1\<rparr>"
    let ?n = "(ne_min_bits_per_row s - ne_row_bits s + 7) div 8"
    have "ne_ok ?s"
      using "1.prems" by (simp add: ne_ok_def)
    then obtain t where t: "ne_store ?s 0 = Some t" "appends ?s [0] t" "ne_input_phase t = ne_input_phase s"
      "ne_bit_stream t = ne_bit_stream s" "ne_row_bits t = ne_row_bits s"
      using ne_store_appends [of ?s 0] by auto
    let ?t = "t\<lparr>ne_row_bits := ne_row_bits s + 8\<rparr>"
    have at: "appends s [0] ?t"
      using t(2) "1.prems" by (auto simp: appends_def ne_ok_def ne_ring_def)
    then obtain u where u: "fill_row ?t = Some u"
      "appends ?t (replicate (nat ((ne_min_bits_per_row s - (ne_row_bits s + 8) + 7) div 8)) 0) u"
      "ne_input_phase u = ne_input_phase s" "ne_bit_stream u = ne_bit_stream s"
      using "1.IH" [OF True t(1)] t(3-5) by (auto simp: appends_def ne_ok_def)
    have "(ne_min_bits_per_row s - (ne_row_bits s + 8) + 7) div 8 = ?n - 1" "0 < ?n"
      using True by simp_all
    then have "[0] @ replicate (nat ((ne_min_bits_per_row s - (ne_row_bits s + 8) + 7) div 8)) 0 = replicate (nat ?n) (0 :: u8)"
      by (simp add: nat_diff_distrib flip: replicate_Suc)
    then have "appends s (replicate (nat ?n) 0) u"
      using appends_trans [OF at u(2)] by simp
    then show ?thesis
      using True t u by (subst fill_row.simps) auto
  next
    case False
    then have "nat ((ne_min_bits_per_row s - ne_row_bits s + 7) div 8) = 0"
      by simp
    then show ?thesis
      using False appends_refl [OF "1.prems"] by (subst fill_row.simps) simp
  qed
qed

lemma injects_Nil: "ne_ok s \<Longrightarrow> injects s [] (Some s)"
  by (simp add: injects_def appends_refl)

lemma injects_Cons:
  assumes "next_octet (ne_min_bits_per_row s) (ne_view_of s) b = (xs, ne_view_of t)" "appends s xs t" "injects t bs res"
  shows "injects s (b # bs) res"
proof -
  have "ne_min_bits_per_row t = ne_min_bits_per_row s"
    using assms(2) by (simp add: appends_def)
  then show ?thesis
    using assms appends_trans [OF assms(2)] by (auto simp: injects_def split: prod.splits)
qed

lemma appends_ok: "appends s xs t \<Longrightarrow> ne_ok t"
  by (simp add: appends_def)

lemma inject_tcf_injects:
  assumes "ne_ok s" "ne_input_phase s = TCF_AT_ALL_ZEROS"
  shows "injects s buf (inject_tcf buf s)"
  using assms
proof (induction buf arbitrary: s)
  case (Cons b bs)
  let ?s = "s\<lparr>ne_latest_eol_ptr := ne_in_ptr s\<rparr>"
  have "ne_ok ?s"
    using Cons.prems(1) by (simp add: ne_ok_def)
  then obtain t where t: "ne_store ?s b = Some t" "appends ?s [b] t" "ne_input_phase t = ne_input_phase s"
    "ne_bit_stream t = ne_bit_stream s" "ne_row_bits t = ne_row_bits s"
    using ne_store_appends [of ?s b] by auto
  let ?t = "t\<lparr>ne_in_octets := ne_in_octets t + 1\<rparr>"
  have at: "appends s [b] ?t"
    using t(2) by (auto simp: appends_def ne_ok_def ne_ring_def)
  have "injects ?t bs (inject_tcf bs ?t)"
    using Cons.IH [of ?t] appends_ok [OF at] t(3) Cons.prems(2) by simp
  then have "injects s (b # bs) (inject_tcf bs ?t)"
    using Cons.prems(2) t(3-5) at
    by (intro injects_Cons [of s b "[b]" ?t]) (simp_all add: next_octet_def ne_view_of_def non_ecm_phases)
  then show ?case
    using t(1) by simp
qed (simp add: injects_Nil)

lemma skip_ones_injects:
  assumes "ne_ok s" "ne_input_phase s = TCF_AT_INITIAL_ALL_ONES"
  shows "injects s buf (let (rest, s) = skip_ones buf s in inject_tcf rest s)"
  using assms
proof (induction buf arbitrary: s)
  case (Cons b bs)
  show ?case
  proof (cases "b = 0xFF")
    case True
    then show ?thesis
      using Cons.IH [OF Cons.prems] Cons.prems appends_refl [OF Cons.prems(1)]
      by (intro injects_Cons [of s b "[]" s]) (simp_all add: next_octet_def ne_view_of_def non_ecm_phases)
  next
    case False
    let ?s = "s\<lparr>ne_input_phase := TCF_AT_ALL_ZEROS, ne_flow_control_fill_octet := 0x00\<rparr>"
    have ok: "ne_ok ?s" "ne_input_phase ?s = TCF_AT_ALL_ZEROS"
      using Cons.prems(1) by (simp_all add: ne_ok_def)
    have "next_octet m (ne_view_of s) b = next_octet m (ne_view_of ?s) b" for m
      using False Cons.prems(2) by (simp add: next_octet_def ne_view_of_def non_ecm_phases)
    moreover have "appends s xs t \<longleftrightarrow> appends ?s xs t" for xs t
      by (simp add: appends_def ne_ok_def ne_ring_def)
    ultimately have "injects s (b # bs) res \<longleftrightarrow> injects ?s (b # bs) res" for res
      by (simp add: injects_def)
    then show ?thesis
      using False inject_tcf_injects [OF ok, of "b # bs"] by simp
  qed
qed (simp add: injects_Nil)

lemma end_row_appends:
  assumes "ne_ok s"
  shows "\<exists>s'. end_row s b = Some s' \<and> ne_input_phase s' = ne_input_phase s \<and> ne_bit_stream s' = ne_bit_stream s \<and>
    appends s (if eol_at (ne_bit_stream s) b
      then replicate (row_fill (ne_min_bits_per_row s) (ne_row_bits s + (8 - top_bit (ucast b)))) 0 else []) s' \<and>
    ne_row_bits s' = (if eol_at (ne_bit_stream s) b then top_bit (ucast b) - 8 else ne_row_bits s)"
proof (cases "eol_at (ne_bit_stream s) b")
  case True
  define s1 where "s1 = s\<lparr>ne_row_bits := ne_row_bits s + (8 - top_bit (ucast b))\<rparr>"
  have s1: "ne_ok s1" "ne_row_bits s1 = ne_row_bits s + (8 - top_bit (ucast b))" "ne_min_bits_per_row s1 = ne_min_bits_per_row s"
    "ne_input_phase s1 = ne_input_phase s" "ne_bit_stream s1 = ne_bit_stream s" "\<And>xs t. appends s1 xs t \<longleftrightarrow> appends s xs t"
    using assms by (simp_all add: s1_def ne_ok_def appends_def ne_ring_def)
  let ?short = "ne_row_bits s1 < 12 \<or> ne_row_bits s1 > 13"
  obtain t where t: "(if ?short then do { s \<leftarrow> fill_row s1; Some (s\<lparr>ne_latest_eol_ptr := ne_in_ptr s\<rparr>) } else Some s1) = Some t"
    "appends s (replicate (row_fill (ne_min_bits_per_row s) (ne_row_bits s1)) 0) t" "ne_input_phase t = ne_input_phase s"
    "ne_bit_stream t = ne_bit_stream s"
  proof (cases ?short)
    case True
    obtain u where u: "fill_row s1 = Some u"
      "appends s1 (replicate (nat ((ne_min_bits_per_row s1 - ne_row_bits s1 + 7) div 8)) 0) u"
      "ne_input_phase u = ne_input_phase s1" "ne_bit_stream u = ne_bit_stream s1"
      using fill_row_appends [OF s1(1)] by blast
    have n: "row_fill (ne_min_bits_per_row s) (ne_row_bits s1) = nat ((ne_min_bits_per_row s1 - ne_row_bits s1 + 7) div 8)"
      using True by (simp only: row_fill_def if_True s1(3))
    have in_range: "0 \<le> ne_in_ptr u" "ne_in_ptr u < 16384"
      using appends_ok [OF u(2)] by (simp_all add: ne_ok_def)
    have "appends s (replicate (row_fill (ne_min_bits_per_row s) (ne_row_bits s1)) 0) (u\<lparr>ne_latest_eol_ptr := ne_in_ptr u\<rparr>)"
      unfolding n using u(2) [unfolded s1(6)] by (rule appends_update) (simp_all add: in_range)
    then show ?thesis
      using that [of "u\<lparr>ne_latest_eol_ptr := ne_in_ptr u\<rparr>"] True u(1,3,4) s1(4,5) by simp
  next
    case False
    then show ?thesis
      using that s1 appends_refl [OF s1(1)] by (simp add: row_fill_def)
  qed
  let ?t = "t\<lparr>ne_row_bits := top_bit (ucast b) - 8, ne_in_rows := ne_in_rows t + 1\<rparr>"
  have "end_row s b = Some ?t"
    using True t(1) unfolding end_row_def Let_def s1_def [symmetric] by simp
  moreover have "appends s (replicate (row_fill (ne_min_bits_per_row s) (ne_row_bits s1)) 0) ?t"
    using t(2) by (rule appends_update) (use appends_ok [OF t(2)] in \<open>simp_all add: ne_ok_def\<close>)
  ultimately show ?thesis
    using True t(3,4) s1(2) by simp
qed (simp add: end_row_def appends_refl [OF assms])

lemma inject_image_injects:
  assumes "ne_ok s" "ne_input_phase s = IMAGE_IN_PROGRESS"
  shows "injects s buf (inject_image buf s)"
  using assms
proof (induction buf arbitrary: s)
  case (Cons b bs)
  let ?xs = "if eol_at (ne_bit_stream s) b then replicate (row_fill (ne_min_bits_per_row s) (ne_row_bits s + (8 - top_bit (ucast b)))) 0 else []"
  let ?row = "if eol_at (ne_bit_stream s) b then top_bit (ucast b) - 8 else ne_row_bits s"
  obtain t where t: "end_row s b = Some t" "appends s ?xs t" "ne_input_phase t = ne_input_phase s"
    "ne_bit_stream t = ne_bit_stream s" "ne_row_bits t = ?row"
    using end_row_appends [OF Cons.prems(1), of b] by blast
  have ok: "ne_ok (shift_in t b)" "\<And>xs u. appends (shift_in t b) xs u \<longleftrightarrow> appends t xs u"
    using appends_ok [OF t(2)] by (simp_all add: shift_in_def ne_ok_def appends_def ne_ring_def)
  obtain u where u: "ne_store (shift_in t b) b = Some u" "appends t [b] u" "ne_input_phase u = ne_input_phase s"
    "ne_bit_stream u = push_bit 8 (ne_bit_stream s) OR ucast b" "ne_row_bits u = ?row"
    using ne_store_appends [OF ok(1), of b] ok(2) t(3-5) by (auto simp: shift_in_def)
  let ?u = "u\<lparr>ne_row_bits := ne_row_bits u + 8, ne_in_octets := ne_in_octets u + 1\<rparr>"
  have au: "appends s (?xs @ [b]) ?u"
    using appends_trans [OF t(2) u(2)]
    by (rule appends_update) (use appends_ok [OF u(2)] in \<open>simp_all add: ne_ok_def\<close>)
  have "injects ?u bs (inject_image bs ?u)"
    using Cons.IH [of ?u] appends_ok [OF au] u(3) Cons.prems(2) by simp
  moreover have "next_octet (ne_min_bits_per_row s) (ne_view_of s) b = (?xs @ [b], ne_view_of ?u)"
    using Cons.prems(2) u(3-5) by (simp add: next_octet_def ne_view_of_def non_ecm_phases Let_def)
  ultimately have "injects s (b # bs) (inject_image bs ?u)"
    using au by (intro injects_Cons)
  then show ?case
    using t(1) u(1) by simp
qed (simp add: injects_Nil)

lemma skip_to_eol_injects:
  assumes "ne_ok s" "ne_input_phase s = IMAGE_WAITING_FOR_FIRST_EOL"
  shows "injects s buf (do { (rest, s) \<leftarrow> skip_to_eol buf s; inject_image rest s })"
  using assms
proof (induction buf arbitrary: s)
  case (Cons b bs)
  show ?case
  proof (cases "eol_at (ne_bit_stream s) b")
    case False
    have a: "appends s [] (shift_in s b)"
      using appends_refl [OF Cons.prems(1)] by (rule appends_update) (use Cons.prems(1) in \<open>simp_all add: shift_in_def ne_ok_def\<close>)
    have "injects (shift_in s b) bs (do { (rest, s) \<leftarrow> skip_to_eol bs (shift_in s b); inject_image rest s })"
      using Cons.IH [of "shift_in s b"] appends_ok [OF a] Cons.prems(2) by (simp add: shift_in_def)
    moreover have "next_octet (ne_min_bits_per_row s) (ne_view_of s) b = ([], ne_view_of (shift_in s b))"
      using False Cons.prems(2) by (simp add: next_octet_def ne_view_of_def non_ecm_phases shift_in_def)
    ultimately show ?thesis
      using a False injects_Cons by simp
  next
    case True
    define s1 where "s1 = s\<lparr>ne_input_phase := IMAGE_IN_PROGRESS, ne_row_bits := top_bit (ucast b) - 8,
      ne_latest_eol_ptr := ne_in_ptr s, ne_flow_control_fill_octet := 0x00\<rparr>"
    have s1: "appends s [] s1" "ne_input_phase s1 = IMAGE_IN_PROGRESS" "ne_row_bits s1 = top_bit (ucast b) - 8"
      "ne_bit_stream s1 = ne_bit_stream s"
      using Cons.prems(1) by (auto simp: s1_def appends_def ne_ok_def ne_ring_def)
    obtain s2 where s2: "ne_store s1 0 = Some s2" "appends s1 [0] s2" "ne_input_phase s2 = ne_input_phase s1"
      "ne_bit_stream s2 = ne_bit_stream s1" "ne_row_bits s2 = ne_row_bits s1"
      using ne_store_appends [OF appends_ok [OF s1(1)]] by blast
    obtain s3 where s3: "ne_store s2 0 = Some s3" "appends s2 [0] s3" "ne_input_phase s3 = ne_input_phase s2"
      "ne_bit_stream s3 = ne_bit_stream s2" "ne_row_bits s3 = ne_row_bits s2"
      using ne_store_appends [OF appends_ok [OF s2(2)]] by blast
    obtain s4 where s4: "ne_store s3 b = Some s4" "appends s3 [b] s4" "ne_input_phase s4 = ne_input_phase s3"
      "ne_bit_stream s4 = ne_bit_stream s3" "ne_row_bits s4 = ne_row_bits s3"
      using ne_store_appends [OF appends_ok [OF s3(2)]] by blast
    let ?s = "shift_in (s4\<lparr>ne_in_octets := ne_in_octets s4 + 3\<rparr>) b"
    have a4: "appends s [0, 0, b] s4"
      using appends_trans [OF appends_trans [OF appends_trans [OF s1(1) s2(2)] s3(2)] s4(2)] by simp
    then have a: "appends s [0, 0, b] ?s"
      by (rule appends_update) (use appends_ok [OF a4] in \<open>simp_all add: shift_in_def ne_ok_def\<close>)
    have "injects ?s bs (inject_image bs ?s)"
      using inject_image_injects [OF appends_ok [OF a]] s4(3) s3(3) s2(3) s1(2) by (simp add: shift_in_def)
    moreover have "next_octet (ne_min_bits_per_row s) (ne_view_of s) b = ([0, 0, b], ne_view_of ?s)"
      using True Cons.prems(2) s4(3-5) s3(3-5) s2(3-5) s1(2-4)
      by (simp add: next_octet_def ne_view_of_def non_ecm_phases shift_in_def Let_def)
    ultimately have "injects s (b # bs) (inject_image bs ?s)"
      using a by (intro injects_Cons)
    moreover have "skip_to_eol (b # bs) s = Some (bs, ?s)"
      using True s2(1) s3(1) s4(1) by (simp add: s1_def)
    ultimately show ?thesis
      by simp
  qed
qed (simp add: injects_Nil)

lemma inject_injects:
  assumes "ne_ok s"
  shows "injects s buf (t38_non_ecm_buffer_inject s buf)"
proof -
  have "all_octets m v buf = ([], v)" if "fst v \<notin> {0, 1, 2, 3}" for m v
    using that by (induction buf) (auto simp: next_octet_def non_ecm_phases split: prod.splits)
  then have "injects s buf (Some s)" if "ne_input_phase s \<notin> {0, 1, 2, 3}"
    using that appends_refl [OF assms] by (simp add: injects_def ne_view_of_def)
  then show ?thesis
    using skip_ones_injects [OF assms, of buf] inject_tcf_injects [OF assms, of buf]
      skip_to_eol_injects [OF assms, of buf] inject_image_injects [OF assms, of buf]
    by (auto simp: t38_non_ecm_buffer_inject_def non_ecm_phases)
qed

fun inject_all :: "t38_non_ecm_buffer_state \<Rightarrow> octets list \<Rightarrow> t38_non_ecm_buffer_state option" where
  "inject_all s [] = Some s"
| "inject_all s (buf # bufs) = do { s \<leftarrow> t38_non_ecm_buffer_inject s buf; inject_all s bufs }"

lemma all_octets_append:
  "all_octets m v (xs @ ys) = (let (as, v) = all_octets m v xs; (bs, v) = all_octets m v ys in (as @ bs, v))"
  by (induction xs arbitrary: v) (auto simp: Let_def split: prod.splits)

lemma inject_all_injects:
  assumes "ne_ok s"
  shows "injects s (concat bufs) (inject_all s bufs)"
  using assms
proof (induction bufs arbitrary: s)
  case (Cons buf bufs)
  obtain t xs where t: "t38_non_ecm_buffer_inject s buf = Some t" "appends s xs t"
    "all_octets (ne_min_bits_per_row s) (ne_view_of s) buf = (xs, ne_view_of t)"
    using inject_injects [OF Cons.prems, of buf] by (rule injectsE)
  have m: "ne_min_bits_per_row t = ne_min_bits_per_row s"
    using t(2) by (simp add: appends_def)
  have "injects t (concat bufs) (inject_all t bufs)"
    using Cons.IH [OF appends_ok [OF t(2)]] .
  then show ?case
    using t m appends_trans [OF t(2)] by (auto simp: injects_def all_octets_append split: prod.splits)
qed (simp add: injects_Nil)

section \<open>Draining the buffer\<close>

fun get_bits :: "nat \<Rightarrow> t38_non_ecm_buffer_state \<Rightarrow> (int list \<times> t38_non_ecm_buffer_state) option" where
  "get_bits 0 s = Some ([], s)"
| "get_bits (Suc n) s = do {
     (b, s) \<leftarrow> t38_non_ecm_buffer_get_bit s;
     (bs, s) \<leftarrow> get_bits n s;
     Some (b # bs, s)
   }"

lemma shift_bit_out_octet:
  assumes "ne_octet s = push_bit k (ucast x)" "k < 8"
  shows "shift_bit_out s = (of_bool (bit (x :: u8) (7 - k)), s\<lparr>ne_bit_no := ne_bit_no s - 1, ne_octet := push_bit (Suc k) (ucast x)\<rparr>)"
proof -
  have "drop_bit 7 (push_bit k (ucast x :: u32)) AND 1 = of_bool (bit x (7 - k))"
    using assms(2) by (intro bit_word_eqI) (auto simp: bit_simps bit_1_iff)
  then show ?thesis
    unfolding shift_bit_out_def assms(1) by simp
qed

text \<open>An octet that has been taken from the ring, bit by bit.\<close>

lemma get_bits_octet:
  assumes "ne_octet s = push_bit k (ucast (x :: u8))" "ne_bit_no s = 8 - int k" "k \<le> 8"
  shows "get_bits (8 - k) s = Some (map (\<lambda>i. of_bool (bit x (7 - i))) [k..<8],
    s\<lparr>ne_bit_no := 0, ne_octet := push_bit 8 (ucast x)\<rparr>)"
  using assms
proof (induction "8 - k" arbitrary: k s)
  case 0
  then show ?case
    by (cases s) simp
next
  case (Suc n)
  then have k: "k < 8" "8 - k = Suc n" "n = 8 - Suc k"
    by auto
  let ?s = "s\<lparr>ne_bit_no := ne_bit_no s - 1, ne_octet := push_bit (Suc k) (ucast x)\<rparr>"
  have "t38_non_ecm_buffer_get_bit s = Some (of_bool (bit x (7 - k)), ?s)"
    using Suc.prems(2) k(1) shift_bit_out_octet [OF Suc.prems(1) k(1)] by (simp add: t38_non_ecm_buffer_get_bit_def)
  moreover have "get_bits n ?s = Some (map (\<lambda>i. of_bool (bit x (7 - i))) [Suc k..<8],
      s\<lparr>ne_bit_no := 0, ne_octet := push_bit 8 (ucast x)\<rparr>)"
    using Suc.hyps(1) [OF k(3), of ?s] Suc.prems(2) k by simp
  moreover have "[k..<8] = k # [Suc k..<8]"
    using k(1) by (simp add: upt_conv_Cons)
  ultimately show ?case
    by (simp add: k(2))
qed

lemma bits_msb_map: "map of_bool (bits_msb x) = map (\<lambda>i. of_bool (bit x (7 - i)) :: int) [0..<8]"
  by (rule nth_equalityI) (simp_all add: bits_msb_def rev_nth bit_list_simps)

definition pushed :: "octets \<Rightarrow> t38_non_ecm_buffer_state \<Rightarrow> bool" where
  "pushed xs s \<longleftrightarrow> ne_ok s \<and> ne_ring s = xs \<and> ne_latest_eol_ptr s = ne_in_ptr s \<and> ne_data_finished s \<and> ne_bit_no s \<le> 0"

lemma drain_octet:
  assumes "pushed (x # xs) s"
  shows "\<exists>s'. get_bits 8 s = Some (map of_bool (bits_msb x), s') \<and> pushed xs s'"
proof -
  have ok: "ne_ok s" and ring: "ne_ring s = x # xs" and eol: "ne_latest_eol_ptr s = ne_in_ptr s"
    and fin: "ne_data_finished s" and bn: "ne_bit_no s \<le> 0"
    using assms by (simp_all add: pushed_def)
  obtain i out where s: "ne_in_ptr s = int i" "i < 16384" "ne_out_ptr s = int out" "out < 16384"
    "length (ne_data s) = 16384" "ne_ring s = ring_list (ne_data s) out i"
    using ok by (rule ne_okD)
  have rl: "ring_list (ne_data s) out i = x # xs"
    using ring s(6) by simp
  have ne: "out \<noteq> i"
    using rl by (auto simp: ring_list_def)
  have x: "ne_data s ! out = x"
    using rl s(2,4,5) ne by (cases "out < i") (auto simp: ring_list_def hd_drop_conv_nth dest!: arg_cong [of _ _ hd])
  have n: "next_ptr (int out) = int (ring_next (ne_data s) out 1)"
    using s by (intro next_ptr_ring) auto
  have rest: "ring_list (ne_data s) (ring_next (ne_data s) out 1) i = xs"
    using ring_drop_list [of out "ne_data s" i 1] s rl by simp
  define t where "t = s\<lparr>ne_octet := ucast x, ne_out_ptr := next_ptr (int out), ne_out_octets := ne_out_octets s + 1, ne_bit_no := 8\<rparr>"
  have get: "t38_non_ecm_buffer_get_bit s = Some (shift_bit_out t)"
    using bn ne eol s x by (simp add: t38_non_ecm_buffer_get_bit_def t_def hd_drop_conv_nth take_Suc)
  moreover have "t38_non_ecm_buffer_get_bit t = Some (shift_bit_out t)"
    by (simp add: t38_non_ecm_buffer_get_bit_def t_def)
  ultimately have "get_bits 8 s = get_bits 8 t"
    by (simp add: numeral_eq_Suc)
  also have "\<dots> = Some (map of_bool (bits_msb x), t\<lparr>ne_bit_no := 0, ne_octet := push_bit 8 (ucast x)\<rparr>)"
    using get_bits_octet [of t 0 x] by (simp add: t_def bits_msb_map)
  finally have "get_bits 8 s = Some (map of_bool (bits_msb x), t\<lparr>ne_bit_no := 0, ne_octet := push_bit 8 (ucast x)\<rparr>)" .
  moreover have "pushed xs (t\<lparr>ne_bit_no := 0, ne_octet := push_bit 8 (ucast x)\<rparr>)"
    using ok eol fin rest s by (auto simp: pushed_def t_def ne_ok_def ne_ring_def n ring_next_def)
  ultimately show ?thesis
    by blast
qed

lemma get_bits_add:
  "get_bits (m + n) s = do { (as, s) \<leftarrow> get_bits m s; (bs, s) \<leftarrow> get_bits n s; Some (as @ bs, s) }"
  by (induction m arbitrary: s) (auto split: Option.bind_splits)

lemma drain_all:
  assumes "pushed xs s"
  shows "\<exists>s'. get_bits (8 * length xs + 1) s = Some (map of_bool (stream_msb xs) @ [SIG_STATUS_END_OF_DATA], s')"
  using assms
proof (induction xs arbitrary: s)
  case Nil
  have ok: "ne_ok s" and ring: "ne_ring s = []" and fin: "ne_latest_eol_ptr s = ne_in_ptr s" "ne_data_finished s" "ne_bit_no s \<le> 0"
    using Nil by (simp_all add: pushed_def)
  obtain i out where s: "ne_in_ptr s = int i" "i < 16384" "ne_out_ptr s = int out" "out < 16384"
    "length (ne_data s) = 16384" "ne_ring s = ring_list (ne_data s) out i"
    using ok by (rule ne_okD)
  have "length (ring_list (ne_data s) out i) = 0"
    using ring s(6) by simp
  then have "out = i"
    using s(2,4,5) length_ring_list [of out "ne_data s" i] by (auto split: if_splits)
  then show ?case
    using s fin by (simp add: t38_non_ecm_buffer_get_bit_def)
next
  case (Cons x xs)
  obtain t where t: "get_bits 8 s = Some (map of_bool (bits_msb x), t)" "pushed xs t"
    using drain_octet [OF Cons.prems] by blast
  obtain u where u: "get_bits (8 * length xs + 1) t = Some (map of_bool (stream_msb xs) @ [SIG_STATUS_END_OF_DATA], u)"
    using Cons.IH [OF t(2)] by blast
  have "get_bits (8 + (8 * length xs + 1)) s = Some (map of_bool (bits_msb x) @ map of_bool (stream_msb xs) @ [SIG_STATUS_END_OF_DATA], u)"
    by (simp only: get_bits_add [of 8] t(1) u bind.bind_lunit prod.case)
  moreover have "8 * length (x # xs) + 1 = 8 + (8 * length xs + 1)"
    by simp
  ultimately show ?case
    by simp
qed

section \<open>Properties\<close>

lemma tcf_octets: "fst (all_octets m (TCF_AT_ALL_ZEROS, v) buf) = buf"
  by (induction buf) (auto simp: next_octet_def non_ecm_phases split: prod.splits)

lemma ones_octets: "fst (all_octets m (TCF_AT_INITIAL_ALL_ONES, v) buf) = dropWhile (\<lambda>b. b = 0xFF) buf"
proof (induction buf)
  case (Cons b bs)
  then show ?case
    using tcf_octets [of m v bs] by (auto simp: next_octet_def non_ecm_phases split: prod.splits)
qed simp

lemma ne_ok_init: "ne_ok (t38_non_ecm_buffer_init mode m)" "ne_ring (t38_non_ecm_buffer_init mode m) = []"
  by (simp_all add: ne_ok_def t38_non_ecm_buffer_init_def restart_buffer_def T38_NON_ECM_TX_BUF_LEN_def ne_ring_def ring_list_def)

lemma inject_push_drain:
  assumes "ys = fst (all_octets m (ne_view_of (t38_non_ecm_buffer_init mode m)) (concat bufs))" "length ys < 16384"
  shows "\<exists>s s'. inject_all (t38_non_ecm_buffer_init mode m) bufs = Some s \<and>
    get_bits (8 * length ys + 1) (t38_non_ecm_buffer_push s) =
      Some (map of_bool (stream_msb ys) @ [SIG_STATUS_END_OF_DATA], s')"
proof -
  let ?s = "t38_non_ecm_buffer_init mode m"
  have m: "ne_min_bits_per_row ?s = m" "ne_bit_no ?s = 0"
    by (simp_all add: t38_non_ecm_buffer_init_def restart_buffer_def)
  obtain s xs where s: "inject_all ?s bufs = Some s" "appends ?s xs s"
    "all_octets (ne_min_bits_per_row ?s) (ne_view_of ?s) (concat bufs) = (xs, ne_view_of s)"
    using inject_all_injects [OF ne_ok_init(1), of mode m bufs] by (rule injectsE)
  have "xs = ys"
    using s(3) assms(1) m by simp
  then have "pushed ys (t38_non_ecm_buffer_push s)"
    using s(2) m assms(2) ne_ok_init(2) [of mode m]
    by (auto simp: appends_def pushed_def t38_non_ecm_buffer_push_def ne_ok_def ne_ring_def)
  then show ?thesis
    using drain_all s(1) by blast
qed

text \<open>
  The training check passes. In TCF mode the modem gets exactly the octets that were put in,
  less the leading octets of ones, and then the end of data.
\<close>

theorem non_ecm_tcf_delivers:
  assumes "ys = dropWhile (\<lambda>b. b = 0xFF) (concat bufs)" "length ys < 16384"
  shows "\<exists>s s'. inject_all (t38_non_ecm_buffer_init False min_bits) bufs = Some s \<and>
    get_bits (8 * length ys + 1) (t38_non_ecm_buffer_push s) =
      Some (map of_bool (stream_msb ys) @ [SIG_STATUS_END_OF_DATA], s')"
proof -
  have "ne_view_of (t38_non_ecm_buffer_init False min_bits) = (TCF_AT_INITIAL_ALL_ONES, 0xFFFF, 0)"
    by (simp add: ne_view_of_def t38_non_ecm_buffer_init_def restart_buffer_def)
  then show ?thesis
    using inject_push_drain [of ys min_bits False bufs] assms by (simp add: ones_octets)
qed

theorem non_ecm_tcf_delivers_witness:
  "\<exists>s s'. inject_all (t38_non_ecm_buffer_init False 0) [[0xFF], [0xFF, 0], [7]] = Some s \<and>
    get_bits 17 (t38_non_ecm_buffer_push s) = Some (map of_bool (stream_msb [0, 7]) @ [SIG_STATUS_END_OF_DATA], s')"
  using non_ecm_tcf_delivers [of "[0, 7]" "[[0xFF], [0xFF, 0], [7]]" 0] by simp

text \<open>
  Claim C25. Both sides always return. With pointers inside the ring, putting in any octets ends,
  whatever minimum row length was set, and taking a bit gives 0, 1 or the end of data; neither
  touches memory outside the ring, and the pointers stay inside.
\<close>

theorem non_ecm_total:
  assumes "ne_ok s"
  shows "(\<exists>s'. t38_non_ecm_buffer_inject s buf = Some s' \<and> ne_ok s') \<and>
    (\<exists>b s'. t38_non_ecm_buffer_get_bit s = Some (b, s') \<and> b \<in> {0, 1, SIG_STATUS_END_OF_DATA} \<and> ne_ok s')"
proof
  show "\<exists>s'. t38_non_ecm_buffer_inject s buf = Some s' \<and> ne_ok s'"
    using inject_injects [OF assms, of buf] appends_ok by (elim injectsE) blast
  have out: "\<exists>b s'. shift_bit_out t = (b, s') \<and> b \<in> {0, 1, SIG_STATUS_END_OF_DATA} \<and> ne_ok s'" if "ne_ok t" for t
  proof -
    have "uint (w AND 1 :: u32) \<in> {0, 1}" for w
      by (simp add: and_one_eq mod_2_eq_odd)
    then show ?thesis
      using that unfolding shift_bit_out_def by (auto simp: ne_ok_def)
  qed
  have ptr: "0 \<le> next_ptr p" "next_ptr p < 16384" for p
    by (simp_all add: next_ptr_mod)
  show "\<exists>b s'. t38_non_ecm_buffer_get_bit s = Some (b, s') \<and> b \<in> {0, 1, SIG_STATUS_END_OF_DATA} \<and> ne_ok s'"
    using assms out unfolding t38_non_ecm_buffer_get_bit_def
    by (auto simp: ne_ok_def ptr restart_buffer_def)
qed

theorem non_ecm_total_witness:
  "\<exists>s'. t38_non_ecm_buffer_inject (t38_non_ecm_buffer_init True 1000) [0, 0, 1, 0, 0, 1] = Some s' \<and> ne_ok s'"
  using non_ecm_total [OF ne_ok_init(1)] by blast

end
