(* ===== verification/T38_Non_Ecm_Image.thy ===== *)
theory T38_Non_Ecm_Image
  imports T38_Non_Ecm
begin

text \<open>
  What the non-ECM buffer of \<^verbatim>\<open>t38_non_ecm_buffer.c\<close> does to image data, stated on the bits of the line: an EOL is
  eleven zeros and a one, wherever it lies in the octets.
\<close>

section \<open>Image data as a specification\<close>






section \<open>EOLs and the bits of the last octets\<close>















section \<open>What the input adds\<close>



section \<open>The specification determines what is sent\<close>








section \<open>Properties\<close>



end
