(* ===== verification/Async.thy ===== *)
theory Async
  imports Sig_Status
begin

text \<open>
  The asynchronous serial converters of \<^verbatim>\<open>spandsp-0.0.6/src/async.c\<close>: a receiver that finds
  start and stop bits and checks parity, and a transmitter. The calls of \<^verbatim>\<open>put_byte\<close> are recorded in
  order in \<open>arx_log\<close>; \<^verbatim>\<open>get_byte\<close> is a parameter of the transmitter, a function on a state of its own.
\<close>

section \<open>Status names\<close>

definition SIG_STATUS_BREAK :: int where "SIG_STATUS_BREAK = -9"
definition SIG_STATUS_SHUTDOWN_COMPLETE :: int where "SIG_STATUS_SHUTDOWN_COMPLETE = -10"
definition SIG_STATUS_POOR_SIGNAL_QUALITY :: int where "SIG_STATUS_POOR_SIGNAL_QUALITY = -12"
definition SIG_STATUS_MODEM_RETRAIN_OCCURRED :: int where "SIG_STATUS_MODEM_RETRAIN_OCCURRED = -13"

definition signal_status_to_str :: "int \<Rightarrow> string" where
  "signal_status_to_str status =
     (if status = SIG_STATUS_CARRIER_DOWN then ''Carrier down''
      else if status = SIG_STATUS_CARRIER_UP then ''Carrier up''
      else if status = SIG_STATUS_TRAINING_IN_PROGRESS then ''Training in progress''
      else if status = SIG_STATUS_TRAINING_SUCCEEDED then ''Training succeeded''
      else if status = SIG_STATUS_TRAINING_FAILED then ''Training failed''
      else if status = SIG_STATUS_FRAMING_OK then ''Framing OK''
      else if status = SIG_STATUS_END_OF_DATA then ''End of data''
      else if status = SIG_STATUS_ABORT then ''Abort''
      else if status = SIG_STATUS_BREAK then ''Break''
      else if status = SIG_STATUS_SHUTDOWN_COMPLETE then ''Shutdown complete''
      else if status = SIG_STATUS_OCTET_REPORT then ''Octet report''
      else if status = SIG_STATUS_POOR_SIGNAL_QUALITY then ''Poor signal quality''
      else if status = SIG_STATUS_MODEM_RETRAIN_OCCURRED then ''Modem retrain occurred''
      else ''???'')"

section \<open>States\<close>

definition ASYNC_PARITY_NONE :: int where "ASYNC_PARITY_NONE = 0"
definition ASYNC_PARITY_EVEN :: int where "ASYNC_PARITY_EVEN = 1"
definition ASYNC_PARITY_ODD :: int where "ASYNC_PARITY_ODD = 2"

record async_tx_state =
  atx_data_bits :: int
  atx_parity :: int
  atx_stop_bits :: int
  atx_byte_in_progress :: int
  atx_bitpos :: int
  atx_parity_bit :: int

record async_rx_state =
  arx_data_bits :: int
  arx_parity :: int
  arx_stop_bits :: int
  arx_use_v14 :: bool
  arx_byte_in_progress :: int
  arx_bitpos :: int
  arx_parity_bit :: int
  arx_parity_errors :: int
  arx_framing_errors :: int
  arx_log :: "int list"

section \<open>Receiver\<close>

definition async_rx_init :: "int \<Rightarrow> int \<Rightarrow> int \<Rightarrow> bool \<Rightarrow> async_rx_state" where
  "async_rx_init data_bits parity stop_bits use_v14 =
     \<lparr>arx_data_bits = data_bits, arx_parity = parity, arx_stop_bits = stop_bits, arx_use_v14 = use_v14,
      arx_byte_in_progress = 0, arx_bitpos = 0, arx_parity_bit = 0,
      arx_parity_errors = 0, arx_framing_errors = 0, arx_log = []\<rparr>"

definition async_put_byte :: "async_rx_state \<Rightarrow> int \<Rightarrow> async_rx_state" where
  "async_put_byte s byte = s\<lparr>arx_log := arx_log s @ [byte]\<rparr>"

definition align_byte :: "async_rx_state \<Rightarrow> async_rx_state" where
  "align_byte s =
     (if arx_data_bits s < 8
      then s\<lparr>arx_byte_in_progress := drop_bit (nat (8 - arx_data_bits s)) (arx_byte_in_progress s)\<rparr>
      else s)"

definition async_rx_put_bit :: "async_rx_state \<Rightarrow> int \<Rightarrow> async_rx_state" where
  "async_rx_put_bit s b =
     (if b < 0
      then if b = SIG_STATUS_CARRIER_UP \<or> b = SIG_STATUS_CARRIER_DOWN \<or> b = SIG_STATUS_TRAINING_IN_PROGRESS \<or>
              b = SIG_STATUS_TRAINING_SUCCEEDED \<or> b = SIG_STATUS_TRAINING_FAILED \<or> b = SIG_STATUS_END_OF_DATA
           then (async_put_byte s b)\<lparr>arx_bitpos := 0, arx_byte_in_progress := 0\<rparr>
           else s
      else if arx_bitpos s = 0
      then s\<lparr>arx_bitpos := arx_bitpos s + (b XOR 1), arx_parity_bit := 0, arx_byte_in_progress := 0\<rparr>
      else if arx_bitpos s \<le> arx_data_bits s
      then s\<lparr>arx_byte_in_progress := drop_bit 1 (arx_byte_in_progress s) OR push_bit 7 b,
             arx_parity_bit := arx_parity_bit s XOR b, arx_bitpos := arx_bitpos s + 1\<rparr>
      else if arx_parity s \<noteq> 0 \<and> arx_bitpos s = arx_data_bits s + 1
      then
        let s = (if arx_parity s = ASYNC_PARITY_ODD then s\<lparr>arx_parity_bit := arx_parity_bit s XOR 1\<rparr> else s);
            s = (if arx_parity_bit s \<noteq> b then s\<lparr>arx_parity_errors := arx_parity_errors s + 1\<rparr> else s)
        in s\<lparr>arx_bitpos := arx_bitpos s + 1\<rparr>
      else if b = 1
      then
        let s = align_byte s
        in (async_put_byte s (arx_byte_in_progress s))\<lparr>arx_bitpos := 0\<rparr>
      else if arx_use_v14 s
      then
        let s = align_byte s
        in (async_put_byte s (arx_byte_in_progress s))
             \<lparr>arx_bitpos := 1, arx_parity_bit := 0, arx_byte_in_progress := 0\<rparr>
      else s\<lparr>arx_framing_errors := arx_framing_errors s + 1, arx_bitpos := 0\<rparr>)"

section \<open>Transmitter\<close>

definition async_tx_init :: "int \<Rightarrow> int \<Rightarrow> int \<Rightarrow> async_tx_state" where
  "async_tx_init data_bits parity stop_bits =
     \<lparr>atx_data_bits = data_bits, atx_parity = parity,
      atx_stop_bits = (if parity \<noteq> ASYNC_PARITY_NONE then stop_bits + 1 else stop_bits),
      atx_byte_in_progress = 0, atx_bitpos = 0, atx_parity_bit = 0\<rparr>"

definition async_tx_get_bit :: "('u \<Rightarrow> int \<times> 'u) \<Rightarrow> async_tx_state \<Rightarrow> 'u \<Rightarrow> int \<times> async_tx_state \<times> 'u" where
  "async_tx_get_bit get_byte s u =
     (if atx_bitpos s = 0
      then
        let (byte, u) = get_byte u;
            s = s\<lparr>atx_byte_in_progress := byte\<rparr>
        in if byte < 0 then (SIG_STATUS_END_OF_DATA, s, u)
           else (0, s\<lparr>atx_parity_bit := 0, atx_bitpos := atx_bitpos s + 1\<rparr>, u)
      else if atx_bitpos s \<le> atx_data_bits s
      then
        let b = atx_byte_in_progress s AND 1
        in (b, s\<lparr>atx_byte_in_progress := drop_bit 1 (atx_byte_in_progress s),
                 atx_parity_bit := atx_parity_bit s XOR b, atx_bitpos := atx_bitpos s + 1\<rparr>, u)
      else if atx_parity s \<noteq> 0 \<and> atx_bitpos s = atx_data_bits s + 1
      then
        let s = (if atx_parity s = ASYNC_PARITY_ODD then s\<lparr>atx_parity_bit := atx_parity_bit s XOR 1\<rparr> else s)
        in (atx_parity_bit s, s\<lparr>atx_bitpos := atx_bitpos s + 1\<rparr>, u)
      else
        let s = s\<lparr>atx_bitpos := atx_bitpos s + 1\<rparr>
        in (1, if atx_bitpos s > atx_data_bits s + atx_stop_bits s then s\<lparr>atx_bitpos := 0\<rparr> else s, u))"

section \<open>The line\<close>

text \<open>
  A character on the line: a start bit, the data bits from the lowest, the parity bit if there is
  one, and some stop bits.
\<close>

definition char_value :: "bits \<Rightarrow> int" where
  "char_value ds = horner_sum of_bool 2 ds"

definition odd_ones :: "bits \<Rightarrow> bool" where
  "odd_ones ds \<longleftrightarrow> odd (length (filter id ds))"

definition char_bits :: "int \<Rightarrow> int \<Rightarrow> bits" where
  "char_bits data_bits x = map (bit x) [0..<nat data_bits]"

definition parity_bits :: "int \<Rightarrow> bits \<Rightarrow> bits" where
  "parity_bits parity ds = (if parity = 0 then [] else [odd_ones ds \<noteq> (parity = ASYNC_PARITY_ODD)])"

definition char_line :: "int \<Rightarrow> int \<Rightarrow> int \<times> nat \<Rightarrow> bits" where
  "char_line data_bits parity c =
     (let ds = char_bits data_bits (fst c) in False # ds @ parity_bits parity ds @ replicate (snd c) True)"

definition async_rx_bits :: "bits \<Rightarrow> async_rx_state \<Rightarrow> async_rx_state" where
  "async_rx_bits bs s = fold (\<lambda>b s. async_rx_put_bit s (of_bool b)) bs s"

fun async_tx_bits :: "nat \<Rightarrow> ('u \<Rightarrow> int \<times> 'u) \<Rightarrow> async_tx_state \<Rightarrow> 'u \<Rightarrow> int list \<times> async_tx_state \<times> 'u" where
  "async_tx_bits 0 get_byte s u = ([], s, u)"
| "async_tx_bits (Suc n) get_byte s u =
     (let (b, s, u) = async_tx_get_bit get_byte s u;
          (bs, s, u) = async_tx_bits n get_byte s u
      in (b # bs, s, u))"

lemma async_rx_bits_simps [simp]:
  "async_rx_bits [] s = s"
  "async_rx_bits (b # bs) s = async_rx_bits bs (async_rx_put_bit s (of_bool b))"
  "async_rx_bits (bs @ cs) s = async_rx_bits cs (async_rx_bits bs s)"
  by (simp_all add: async_rx_bits_def)

section \<open>Receiving a character\<close>

lemma char_value_snoc: "length ds \<le> 7 \<Longrightarrow>
  drop_bit 1 (push_bit (8 - length ds) (char_value ds)) OR push_bit 7 (of_bool b) =
    push_bit (8 - length (ds @ [b])) (char_value (ds @ [b]))"
proof -
  assume le: "length ds \<le> 7"
  then obtain m where m: "7 = m + length ds"
    by (metis add.commute le_Suc_ex)
  then have "8 - length ds = Suc m" "8 - length (ds @ [b]) = m"
    by auto
  moreover have "drop_bit 1 (push_bit (Suc m) (char_value ds)) = push_bit m (char_value ds)"
    by (simp add: push_bit_double drop_bit_Suc)
  moreover have "char_value (ds @ [b]) = char_value ds OR push_bit (length ds) (of_bool b)"
    unfolding char_value_def
    by (rule bit_eqI) (auto simp: bit_horner_sum_bit_iff bit_push_bit_iff nth_append bit_1_iff less_Suc_eq bit_or_iff bit_exp_iff)
  ultimately show ?thesis
    by (simp add: m)
qed

lemma odd_ones_snoc: "(of_bool (odd_ones ds) XOR of_bool b :: int) = of_bool (odd_ones (ds @ [b]))"
  by (auto simp: odd_ones_def)

lemma rx_data_bits:
  assumes "arx_bitpos s = int (length xs) + 1" "arx_data_bits s \<le> 8" "int (length xs + length ds) \<le> arx_data_bits s"
    and "arx_byte_in_progress s = push_bit (8 - length xs) (char_value xs)" "arx_parity_bit s = of_bool (odd_ones xs)"
  shows "async_rx_bits ds s = s\<lparr>arx_bitpos := int (length (xs @ ds)) + 1,
    arx_byte_in_progress := push_bit (8 - length (xs @ ds)) (char_value (xs @ ds)),
    arx_parity_bit := of_bool (odd_ones (xs @ ds))\<rparr>"
  using assms
proof (induction ds arbitrary: xs s)
  case (Cons d ds)
  have b: "drop_bit 1 (arx_byte_in_progress s) OR push_bit 7 (of_bool d) = push_bit (8 - length (xs @ [d])) (char_value (xs @ [d]))"
    unfolding Cons.prems(4) using Cons.prems(2,3) by (intro char_value_snoc) simp
  have p: "arx_parity_bit s XOR of_bool d = of_bool (odd_ones (xs @ [d]))"
    unfolding Cons.prems(5) by (rule odd_ones_snoc)
  have step: "async_rx_put_bit s (of_bool d) = s\<lparr>arx_bitpos := int (length (xs @ [d])) + 1,
    arx_byte_in_progress := push_bit (8 - length (xs @ [d])) (char_value (xs @ [d])),
    arx_parity_bit := of_bool (odd_ones (xs @ [d]))\<rparr>"
    using Cons.prems(1-3) unfolding async_rx_put_bit_def b p by simp
  show ?case
    unfolding async_rx_bits_simps step using Cons.prems
    by (subst Cons.IH [of _ "xs @ [d]"]) simp_all
qed (cases s, simp)

text \<open>Between the start bit and the data, and between the last bit of a character and its stop bit.\<close>

definition rx_started :: "async_rx_state \<Rightarrow> bool" where
  "rx_started s \<longleftrightarrow> arx_bitpos s = 1 \<and> arx_byte_in_progress s = 0 \<and> arx_parity_bit s = 0"

definition rx_pending :: "int \<Rightarrow> async_rx_state \<Rightarrow> bool" where
  "rx_pending v s \<longleftrightarrow> 0 \<le> arx_data_bits s \<and> arx_data_bits s \<le> 8 \<and>
     arx_bitpos s = arx_data_bits s + (if arx_parity s = 0 then 1 else 2) \<and>
     arx_byte_in_progress s = push_bit (nat (8 - arx_data_bits s)) v"

definition rx_view :: "async_rx_state \<Rightarrow> (int \<times> int \<times> bool) \<times> int \<times> int \<times> int list" where
  "rx_view s = ((arx_data_bits s, arx_parity s, arx_use_v14 s), arx_parity_errors s, arx_framing_errors s, arx_log s)"

lemma rx_start_bit:
  assumes "arx_bitpos s = 0"
  shows "rx_started (async_rx_put_bit s 0)" "rx_view (async_rx_put_bit s 0) = rx_view s"
  using assms by (simp_all add: async_rx_put_bit_def rx_started_def rx_view_def)

lemma rx_idle_bit:
  assumes "arx_bitpos s = 0"
  shows "arx_bitpos (async_rx_put_bit s 1) = 0" "rx_view (async_rx_put_bit s 1) = rx_view s"
  using assms by (simp_all add: async_rx_put_bit_def rx_view_def)

lemma rx_idle_bits:
  assumes "arx_bitpos s = 0"
  shows "arx_bitpos (async_rx_bits (replicate n True) s) = 0 \<and> rx_view (async_rx_bits (replicate n True) s) = rx_view s"
  using assms by (induction n arbitrary: s) (simp_all add: rx_idle_bit)

lemma rx_char_bits:
  assumes "rx_started s" and d: "arx_data_bits s \<le> 8" "arx_data_bits s = int (length ds)"
    and ps: "length ps = (if arx_parity s = 0 then 0 else 1)"
  shows "rx_pending (char_value ds) (async_rx_bits (ds @ ps) s)"
    "rx_view (async_rx_bits (ds @ ps) s) =
      ((arx_data_bits s, arx_parity s, arx_use_v14 s),
       arx_parity_errors s + of_bool (ps \<noteq> parity_bits (arx_parity s) ds), arx_framing_errors s, arx_log s)"
proof -
  let ?s = "s\<lparr>arx_bitpos := int (length ds) + 1, arx_byte_in_progress := push_bit (8 - length ds) (char_value ds),
    arx_parity_bit := of_bool (odd_ones ds)\<rparr>"
  have data: "async_rx_bits ds s = ?s"
    using rx_data_bits [of s "[]" ds] assms(1) d by (simp add: rx_started_def char_value_def odd_ones_def)
  have shift: "nat (8 - arx_data_bits s) = 8 - length ds" "nat (8 - int (length ds)) = 8 - length ds"
    using d(2) by simp_all
  have "rx_pending (char_value ds) (async_rx_bits ps ?s) \<and> rx_view (async_rx_bits ps ?s) =
      ((arx_data_bits s, arx_parity s, arx_use_v14 s),
       arx_parity_errors s + of_bool (ps \<noteq> parity_bits (arx_parity s) ds), arx_framing_errors s, arx_log s)"
  proof (cases "arx_parity s = 0")
    case True
    then show ?thesis
      using ps d by (simp add: rx_pending_def rx_view_def parity_bits_def shift)
  next
    case False
    then obtain p where p: "ps = [p]"
      using ps by (auto simp: length_Suc_conv)
    show ?thesis
      using False d
      by (cases p; cases "odd_ones ds"; cases "arx_parity s = 2")
        (simp_all add: p async_rx_put_bit_def rx_pending_def rx_view_def parity_bits_def shift ASYNC_PARITY_ODD_def)
  qed
  then show "rx_pending (char_value ds) (async_rx_bits (ds @ ps) s)"
    "rx_view (async_rx_bits (ds @ ps) s) =
      ((arx_data_bits s, arx_parity s, arx_use_v14 s),
       arx_parity_errors s + of_bool (ps \<noteq> parity_bits (arx_parity s) ds), arx_framing_errors s, arx_log s)"
    by (simp_all add: data)
qed

lemma align_pending:
  assumes "rx_pending v s"
  shows "align_byte s = s\<lparr>arx_byte_in_progress := v\<rparr>"
proof (cases "arx_data_bits s = 8")
  case True
  then show ?thesis
    using assms by (cases s) (simp add: align_byte_def rx_pending_def)
next
  case False
  then show ?thesis
    using assms by (simp add: align_byte_def rx_pending_def drop_bit_push_bit)
qed

lemma rx_stop_bit:
  assumes "rx_pending v s"
  shows "async_rx_put_bit s 1 = s\<lparr>arx_byte_in_progress := v, arx_log := arx_log s @ [v], arx_bitpos := 0\<rparr>"
    "async_rx_put_bit s 0 = (if arx_use_v14 s
       then s\<lparr>arx_log := arx_log s @ [v], arx_bitpos := 1, arx_parity_bit := 0, arx_byte_in_progress := 0\<rparr>
       else s\<lparr>arx_framing_errors := arx_framing_errors s + 1, arx_bitpos := 0\<rparr>)"
  using assms by (auto simp: async_rx_put_bit_def rx_pending_def align_pending [OF assms] async_put_byte_def)

text \<open>
  Claim C23. A received character. A start bit, the data bits and the parity bit, if the line has
  one, are read for any bits on the line; the parity error count grows exactly when the parity bit
  is wrong. Then a stop bit delivers the value of the data bits; a missing stop bit is a framing
  error without delivery, or, with V.14 rate adaption, delivers the value and is itself the start
  bit of the next character.
\<close>

theorem async_rx_character:
  assumes "arx_bitpos s = 0" "arx_data_bits s = int (length ds)" "length ds \<le> 8"
    and "length ps = (if arx_parity s = 0 then 0 else 1)"
    and "s1 = async_rx_bits (False # ds @ ps) s" "s2 = async_rx_put_bit s1 stop" "stop \<in> {0, 1}"
  shows "arx_parity_errors s2 = arx_parity_errors s + of_bool (ps \<noteq> parity_bits (arx_parity s) ds) \<and>
    arx_log s2 = arx_log s @ (if stop = 1 \<or> arx_use_v14 s then [char_value ds] else []) \<and>
    arx_framing_errors s2 = arx_framing_errors s + of_bool (stop = 0 \<and> \<not> arx_use_v14 s) \<and>
    (if stop = 0 \<and> arx_use_v14 s then rx_started s2 else arx_bitpos s2 = 0)"
proof -
  let ?s0 = "async_rx_put_bit s 0"
  have v: "rx_view ?s0 = rx_view s" and st: "rx_started ?s0"
    using rx_start_bit [OF assms(1)] by auto
  have conf: "arx_data_bits ?s0 = arx_data_bits s" "arx_parity ?s0 = arx_parity s" "arx_use_v14 ?s0 = arx_use_v14 s"
    using v by (simp_all add: rx_view_def)
  have s1: "s1 = async_rx_bits (ds @ ps) ?s0"
    by (simp add: assms(5))
  have pend: "rx_pending (char_value ds) s1" and view: "rx_view s1 =
      ((arx_data_bits s, arx_parity s, arx_use_v14 s),
       arx_parity_errors s + of_bool (ps \<noteq> parity_bits (arx_parity s) ds), arx_framing_errors s, arx_log s)"
    using rx_char_bits [OF st, of ds ps] assms(2-4) v conf unfolding s1 by (simp_all add: rx_view_def)
  have "stop = 0 \<or> stop = 1"
    using assms(7) by simp
  then show ?thesis
    using view unfolding assms(6)
    by (auto simp: rx_stop_bit [OF pend] rx_view_def rx_started_def)
qed

theorem async_rx_character_witness:
  "arx_parity_errors (async_rx_put_bit (async_rx_bits [False, True, False, True, True, False, False]
      (async_rx_init 5 ASYNC_PARITY_EVEN 1 True)) 0) = 1 \<and>
   arx_log (async_rx_put_bit (async_rx_bits [False, True, False, True, True, False, False]
      (async_rx_init 5 ASYNC_PARITY_EVEN 1 True)) 0) = [13]"
  using async_rx_character [of "async_rx_init 5 ASYNC_PARITY_EVEN 1 True" "[True, False, True, True, False]" "[False]"
    "async_rx_bits [False, True, False, True, True, False, False] (async_rx_init 5 ASYNC_PARITY_EVEN 1 True)" _ 0]
  by (simp add: async_rx_init_def ASYNC_PARITY_EVEN_def ASYNC_PARITY_ODD_def parity_bits_def odd_ones_def char_value_def
      del: async_rx_bits_simps)

text \<open>A whole line of characters.\<close>

definition async_line :: "int \<Rightarrow> int \<Rightarrow> (int \<times> nat) list \<Rightarrow> bits" where
  "async_line data_bits parity cs = concat (map (char_line data_bits parity) cs)"

definition line_ok :: "bool \<Rightarrow> (int \<times> nat) list \<Rightarrow> bool" where
  "line_ok v14 cs \<longleftrightarrow> (\<forall>c\<in>set cs. v14 \<or> 0 < snd c) \<and> (cs \<noteq> [] \<longrightarrow> 0 < snd (last cs))"

definition rx_ready :: "(int \<times> int \<times> bool) \<Rightarrow> int \<Rightarrow> int \<Rightarrow> int list \<Rightarrow> async_rx_state \<Rightarrow> bool" where
  "rx_ready cfg pe fe L s \<longleftrightarrow>
     arx_bitpos s = 0 \<and> rx_view s = (cfg, pe, fe, L) \<or>
     (\<exists>v L'. snd (snd cfg) \<and> rx_pending v s \<and> rx_view s = (cfg, pe, fe, L') \<and> L = L' @ [v])"

lemma rx_ready_start:
  assumes "rx_ready (d, p, v14) pe fe L s"
  shows "rx_started (async_rx_put_bit s 0)" "rx_view (async_rx_put_bit s 0) = ((d, p, v14), pe, fe, L)"
  using assms unfolding rx_ready_def
  by (auto simp: rx_start_bit rx_stop_bit(2)) (auto simp: rx_view_def rx_started_def)

lemma char_value_bits: "char_value (char_bits (int n) x) = take_bit n x"
  unfolding char_value_def char_bits_def by (simp add: horner_sum_bit_eq_take_bit)

lemma rx_char_line:
  assumes "rx_ready (int d, p, v14) pe fe L s" "d \<le> 8" "v14 \<or> 0 < snd c"
  shows "rx_ready (int d, p, v14) pe fe (L @ [take_bit d (fst c)]) (async_rx_bits (char_line (int d) p c) s)"
    "0 < snd c \<Longrightarrow> arx_bitpos (async_rx_bits (char_line (int d) p c) s) = 0"
proof -
  let ?ds = "char_bits (int d) (fst c)"
  let ?s1 = "async_rx_bits (?ds @ parity_bits p ?ds) (async_rx_put_bit s 0)"
  note st = rx_ready_start [OF assms(1)]
  have conf: "arx_data_bits (async_rx_put_bit s 0) = int d" "arx_parity (async_rx_put_bit s 0) = p"
    using st(2) by (simp_all add: rx_view_def)
  have len: "length ?ds = d" "length (parity_bits p ?ds) = (if p = 0 then 0 else 1)"
    by (simp_all add: char_bits_def parity_bits_def)
  have pend: "rx_pending (take_bit d (fst c)) ?s1" and view: "rx_view ?s1 = ((int d, p, v14), pe, fe, L)"
    using rx_char_bits [OF st(1), of ?ds "parity_bits p ?ds"] st(2) conf len assms(2)
    by (simp_all add: char_value_bits rx_view_def)
  have line: "async_rx_bits (char_line (int d) p c) s = async_rx_bits (replicate (snd c) True) ?s1"
    by (simp add: char_line_def Let_def)
  have "rx_ready (int d, p, v14) pe fe (L @ [take_bit d (fst c)]) (async_rx_bits (replicate n True) ?s1) \<and>
    (0 < n \<longrightarrow> arx_bitpos (async_rx_bits (replicate n True) ?s1) = 0)" if "v14 \<or> 0 < n" for n
  proof (cases n)
    case 0
    then show ?thesis
      using that pend view by (auto simp: rx_ready_def)
  next
    case (Suc m)
    have "arx_bitpos (async_rx_put_bit ?s1 1) = 0 \<and> rx_view (async_rx_put_bit ?s1 1) = ((int d, p, v14), pe, fe, L @ [take_bit d (fst c)])"
      using view unfolding rx_stop_bit(1) [OF pend] by (simp add: rx_view_def)
    then show ?thesis
      using rx_idle_bits [of "async_rx_put_bit ?s1 1" m] by (simp add: Suc rx_ready_def del: async_rx_bits_simps(3))
  qed
  from this [OF assms(3)]
  show "rx_ready (int d, p, v14) pe fe (L @ [take_bit d (fst c)]) (async_rx_bits (char_line (int d) p c) s)"
    "0 < snd c \<Longrightarrow> arx_bitpos (async_rx_bits (char_line (int d) p c) s) = 0"
    unfolding line by auto
qed

lemma rx_line:
  assumes "rx_ready (int d, p, v14) pe fe L s" "d \<le> 8" "\<forall>c\<in>set cs. v14 \<or> 0 < snd c"
  shows "rx_ready (int d, p, v14) pe fe (L @ map (\<lambda>c. take_bit d (fst c)) cs) (async_rx_bits (async_line (int d) p cs) s)"
  using assms
proof (induction cs arbitrary: s L)
  case (Cons c cs)
  show ?case
    using Cons.IH [OF rx_char_line(1) [OF Cons.prems(1,2), of c]] Cons.prems(2,3)
    by (simp add: async_line_def)
qed (simp add: async_line_def)

lemma rx_line_end:
  assumes "arx_bitpos s = 0" "rx_view s = ((int d, p, v14), pe, fe, L)" "d \<le> 8" "line_ok v14 cs"
  shows "arx_bitpos (async_rx_bits (async_line (int d) p cs) s) = 0 \<and>
    rx_view (async_rx_bits (async_line (int d) p cs) s) = ((int d, p, v14), pe, fe, L @ map (\<lambda>c. take_bit d (fst c)) cs)"
proof -
  have r: "rx_ready (int d, p, v14) pe fe L s"
    using assms(1,2) by (simp add: rx_ready_def)
  have all: "\<forall>c\<in>set cs. v14 \<or> 0 < snd c"
    using assms(4) by (simp add: line_ok_def)
  have pos: "arx_bitpos (async_rx_bits (async_line (int d) p cs) s) = 0"
  proof (cases cs rule: rev_cases)
    case (snoc cs' c)
    then have "rx_ready (int d, p, v14) pe fe (L @ map (\<lambda>c. take_bit d (fst c)) cs') (async_rx_bits (async_line (int d) p cs') s)"
      using rx_line [OF r assms(3), of cs'] all by simp
    then show ?thesis
      using rx_char_line(2) [OF _ assms(3), of p v14 pe fe _ _ c] assms(4) by (simp add: async_line_def snoc line_ok_def)
  qed (use assms(1) in \<open>simp add: async_line_def\<close>)
  moreover have "\<not> rx_pending v t" if "arx_bitpos t = 0" for v t
    using that by (auto simp: rx_pending_def)
  ultimately show ?thesis
    using rx_line [OF r assms(3) all] by (auto simp: rx_ready_def)
qed

text \<open>
  Characters with missing stop bits. A receiver delivers every character of a line whose
  characters have any number of stop bits, also none when V.14 rate adaption is on, as long as the
  last one has a stop bit; it counts no errors.
\<close>

theorem async_rx_v14_line:
  assumes "d \<le> 8" "\<forall>c\<in>set cs. v14 \<or> 0 < snd c" "cs \<noteq> []" "0 < snd (last cs)"
  shows "rx_view (async_rx_bits (async_line (int d) p cs) (async_rx_init (int d) p stop v14)) =
    ((int d, p, v14), 0, 0, map (\<lambda>c. take_bit d (fst c)) cs)"
  using rx_line_end [of "async_rx_init (int d) p stop v14" d p v14 0 0 "[]" cs] assms
  by (simp add: line_ok_def async_rx_init_def rx_view_def)

theorem async_rx_v14_line_witness:
  "arx_log (async_rx_bits (async_line 8 ASYNC_PARITY_NONE [(0x41, 0), (0x42, 0), (0x43, 3), (0x44, 1)])
     (async_rx_init 8 ASYNC_PARITY_NONE 1 True)) = [0x41, 0x42, 0x43, 0x44]"
  using async_rx_v14_line [of 8 "[(0x41, 0), (0x42, 0), (0x43, 3), (0x44, 1)]" True ASYNC_PARITY_NONE 1]
  by (simp add: rx_view_def take_bit_int_eq_self)

end
