(* ===== verification/Async_Link.thy ===== *)
theory Async_Link
  imports Async Queue_Messages
begin

text \<open>
  The asynchronous transmitter and receiver back to back. The locale \<open>octet_source\<close> states what the
  link needs of the function that supplies the characters; the octet queue of \<^verbatim>\<open>queue.c\<close>
  provides it.
\<close>

section \<open>Transmitting a character\<close>

lemma async_tx_bits_add:
  "async_tx_bits (m + n) get_byte s u =
    (let (bs, s, u) = async_tx_bits m get_byte s u; (cs, s, u) = async_tx_bits n get_byte s u in (bs @ cs, s, u))"
  by (induction m arbitrary: s u) (auto simp: Let_def split: prod.splits)

lemma char_bits_Suc: "char_bits (int (Suc k)) x = char_bits (int k) x @ [bit x k]"
  by (simp add: char_bits_def nat_add_distrib)

lemma drop_char_bits: "drop k (char_bits (int (k + n)) x) = map (bit x) [k..<k + n]"
  by (simp only: char_bits_def nat_int drop_map drop_upt add_0)

lemma tx_data_bits:
  assumes "atx_bitpos s = int k + 1" "int (k + n) \<le> atx_data_bits s"
    and "atx_byte_in_progress s = drop_bit k x" "atx_parity_bit s = of_bool (odd_ones (char_bits (int k) x))"
  shows "async_tx_bits n get_byte s u = (map of_bool (drop k (char_bits (int (k + n)) x)),
    s\<lparr>atx_bitpos := int (k + n) + 1, atx_byte_in_progress := drop_bit (k + n) x,
      atx_parity_bit := of_bool (odd_ones (char_bits (int (k + n)) x))\<rparr>, u)"
  using assms
proof (induction n arbitrary: k s)
  case 0
  then show ?case
    by (cases s) (simp add: char_bits_def)
next
  case (Suc n)
  let ?s = "s\<lparr>atx_bitpos := int (Suc k) + 1, atx_byte_in_progress := drop_bit (Suc k) x,
    atx_parity_bit := of_bool (odd_ones (char_bits (int (Suc k)) x))\<rparr>"
  have b: "drop_bit k x AND 1 = of_bool (bit x k)"
    by (simp add: and_one_eq bit_iff_odd_drop_bit mod_2_eq_odd)
  have d: "drop_bit 1 (drop_bit k x) = drop_bit (Suc k) x"
    by (simp add: drop_bit_drop_bit)
  have step: "async_tx_get_bit get_byte s u = (of_bool (bit x k), ?s, u)"
    using Suc.prems(1,2) unfolding async_tx_get_bit_def Suc.prems(3,4) b d odd_ones_snoc char_bits_Suc Let_def by simp
  have "drop k (char_bits (int (k + Suc n)) x) = bit x k # drop (Suc k) (char_bits (int (Suc k + n)) x)"
    unfolding drop_char_bits by (simp add: upt_conv_Cons del: upt_Suc)
  then show ?case
    using Suc.IH [of ?s "Suc k"] Suc.prems(2) by (simp add: step)
qed

lemma tx_stop_bits:
  assumes "atx_bitpos s = atx_data_bits s + 1 + (if atx_parity s = 0 then 0 else 1) + int k"
    and "0 \<le> atx_data_bits s" "n = nat (atx_data_bits s + atx_stop_bits s - atx_bitpos s) + 1"
  shows "\<exists>s'. async_tx_bits n get_byte s u = (replicate n 1, s', u) \<and> atx_bitpos s' = 0 \<and>
    atx_data_bits s' = atx_data_bits s \<and> atx_parity s' = atx_parity s \<and> atx_stop_bits s' = atx_stop_bits s"
  using assms
proof (induction n arbitrary: k s)
  case (Suc n)
  let ?s = "s\<lparr>atx_bitpos := atx_bitpos s + 1\<rparr>"
  have nz: "atx_bitpos s \<noteq> 0" "\<not> atx_bitpos s \<le> atx_data_bits s"
    "\<not> (atx_parity s \<noteq> 0 \<and> atx_bitpos s = atx_data_bits s + 1)"
    using Suc.prems(1,2) by (auto split: if_splits)
  have step: "async_tx_get_bit get_byte s u =
      (1, if atx_bitpos s + 1 > atx_data_bits s + atx_stop_bits s then ?s\<lparr>atx_bitpos := 0\<rparr> else ?s, u)"
    by (simp only: async_tx_get_bit_def nz if_False Let_def) simp
  show ?case
  proof (cases "atx_bitpos s + 1 > atx_data_bits s + atx_stop_bits s")
    case True
    then have "n = 0"
      using Suc.prems(3) by simp
    then show ?thesis
      using True by (simp add: step)
  next
    case False
    then have "n = nat (atx_data_bits ?s + atx_stop_bits ?s - atx_bitpos ?s) + 1"
      using Suc.prems(3) by simp
    then obtain s' where "async_tx_bits n get_byte ?s u = (replicate n 1, s', u)" "atx_bitpos s' = 0"
      "atx_data_bits s' = atx_data_bits s" "atx_parity s' = atx_parity s" "atx_stop_bits s' = atx_stop_bits s"
      using Suc.IH [of ?s "Suc k"] Suc.prems(1,2) by (auto simp: algebra_simps)
    then show ?thesis
      using False by (simp add: step)
  qed
qed simp

definition tx_config :: "nat \<Rightarrow> int \<Rightarrow> int \<Rightarrow> async_tx_state \<Rightarrow> bool" where
  "tx_config d p stop s \<longleftrightarrow> atx_data_bits s = int d \<and> atx_parity s = p \<and>
     atx_stop_bits s = stop + (if p = 0 then 0 else 1)"

definition char_time :: "nat \<Rightarrow> int \<Rightarrow> int \<Rightarrow> nat" where
  "char_time d p stop = 1 + d + (if p = 0 then 0 else 1) + max 1 (nat stop)"

lemma tx_char_line:
  assumes "tx_config d p stop s" "atx_bitpos s = 0" "get_byte u = (x, u')" "0 \<le> x"
  shows "\<exists>s'. async_tx_bits (char_time d p stop) get_byte s u =
    (map of_bool (char_line (int d) p (x, max 1 (nat stop))), s', u') \<and> tx_config d p stop s' \<and> atx_bitpos s' = 0"
proof -
  have c: "atx_data_bits s = int d" "atx_parity s = p" "atx_stop_bits s = stop + (if p = 0 then 0 else 1)"
    using assms(1) by (simp_all add: tx_config_def)
  let ?ds = "char_bits (int d) x"
  let ?s1 = "s\<lparr>atx_byte_in_progress := x, atx_parity_bit := 0, atx_bitpos := 1\<rparr>"
  let ?s2 = "?s1\<lparr>atx_bitpos := int d + 1, atx_byte_in_progress := drop_bit d x, atx_parity_bit := of_bool (odd_ones ?ds)\<rparr>"
  have start: "async_tx_bits 1 get_byte s u = ([0], ?s1, u')"
    using assms(2-4) by (simp add: async_tx_get_bit_def Let_def)
  have data: "async_tx_bits d get_byte ?s1 u' = (map of_bool ?ds, ?s2, u')"
    using tx_data_bits [of ?s1 0 d x get_byte u'] c by (simp add: char_bits_def odd_ones_def)
  have "\<exists>s3. async_tx_bits (if p = 0 then 0 else 1) get_byte ?s2 u' = (map of_bool (parity_bits p ?ds), s3, u') \<and>
      atx_data_bits s3 = int d \<and> atx_parity s3 = p \<and> atx_stop_bits s3 = atx_stop_bits s \<and>
      atx_bitpos s3 = int d + 1 + (if p = 0 then 0 else 1)"
    using c by (auto simp: async_tx_get_bit_def Let_def parity_bits_def ASYNC_PARITY_ODD_def)
  then obtain s3 where par: "async_tx_bits (if p = 0 then 0 else 1) get_byte ?s2 u' = (map of_bool (parity_bits p ?ds), s3, u')"
    and s3: "atx_data_bits s3 = int d" "atx_parity s3 = p" "atx_stop_bits s3 = atx_stop_bits s"
      "atx_bitpos s3 = int d + 1 + (if p = 0 then 0 else 1)"
    by blast
  have n: "max 1 (nat stop) = nat (atx_data_bits s3 + atx_stop_bits s3 - atx_bitpos s3) + 1"
    using s3 c by auto
  obtain s4 where stop: "async_tx_bits (max 1 (nat stop)) get_byte s3 u' = (replicate (max 1 (nat stop)) 1, s4, u')"
    and s4: "atx_bitpos s4 = 0" "atx_data_bits s4 = int d" "atx_parity s4 = p" "atx_stop_bits s4 = atx_stop_bits s"
    using tx_stop_bits [of s3 0 "max 1 (nat stop)" get_byte u', OF _ _ n] s3 by auto
  have "async_tx_bits (1 + (d + ((if p = 0 then 0 else 1) + max 1 (nat stop)))) get_byte s u =
      ([0] @ map of_bool ?ds @ map of_bool (parity_bits p ?ds) @ replicate (max 1 (nat stop)) 1, s4, u')"
    by (simp only: async_tx_bits_add start data par stop Let_def prod.case)
  moreover have "char_time d p stop = 1 + (d + ((if p = 0 then 0 else 1) + max 1 (nat stop)))"
    by (simp add: char_time_def)
  ultimately show ?thesis
    using s4 c by (simp add: char_line_def Let_def tx_config_def)
qed

section \<open>Sources of characters\<close>

locale octet_source =
  fixes get_byte :: "'u \<Rightarrow> int \<times> 'u" and source_ok :: "'u \<Rightarrow> bool" and queued :: "'u \<Rightarrow> octets"
  assumes source_empty: "source_ok u \<Longrightarrow> queued u = [] \<Longrightarrow> fst (get_byte u) < 0"
    and source_next: "source_ok u \<Longrightarrow> queued u = x # xs \<Longrightarrow>
      \<exists>u'. get_byte u = (uint x, u') \<and> source_ok u' \<and> queued u' = xs"
begin

lemma tx_line:
  assumes "source_ok u" "queued u = xs" "tx_config d p stop s" "atx_bitpos s = 0"
  shows "\<exists>s' u'. async_tx_bits (length xs * char_time d p stop) get_byte s u =
    (map of_bool (async_line (int d) p (map (\<lambda>x. (uint x, max 1 (nat stop))) xs)), s', u') \<and>
    source_ok u' \<and> queued u' = [] \<and> atx_bitpos s' = 0"
  using assms
proof (induction xs arbitrary: s u)
  case (Cons x xs)
  obtain u1 where u1: "get_byte u = (uint x, u1)" "source_ok u1" "queued u1 = xs"
    using source_next [OF Cons.prems(1,2)] by blast
  obtain s1 where s1: "async_tx_bits (char_time d p stop) get_byte s u =
      (map of_bool (char_line (int d) p (uint x, max 1 (nat stop))), s1, u1)" "tx_config d p stop s1" "atx_bitpos s1 = 0"
    using tx_char_line [where get_byte = get_byte and u = u, OF Cons.prems(3,4) u1(1)] by auto
  obtain s2 u2 where "async_tx_bits (length xs * char_time d p stop) get_byte s1 u1 =
      (map of_bool (async_line (int d) p (map (\<lambda>x. (uint x, max 1 (nat stop))) xs)), s2, u2)"
    "source_ok u2" "queued u2 = []" "atx_bitpos s2 = 0"
    using Cons.IH [OF u1(2,3) s1(2,3)] by blast
  then show ?case
    using s1 by (simp add: async_tx_bits_add async_line_def)
qed (auto simp: async_line_def)

lemma tx_end:
  assumes "source_ok u" "queued u = []" "atx_bitpos s = 0"
  shows "fst (async_tx_get_bit get_byte s u) = SIG_STATUS_END_OF_DATA"
  using source_empty [OF assms(1,2)] assms(3) by (cases "get_byte u") (simp add: async_tx_get_bit_def)

lemma rx_of_bools: "fold (\<lambda>b s. async_rx_put_bit s b) (map of_bool bs) s = async_rx_bits bs s"
  by (induction bs arbitrary: s) simp_all

lemma source_delivers:
  assumes "source_ok u" "d \<le> 8"
  shows "\<exists>bs s' u' b. async_tx_bits (length (queued u) * char_time d p stop) get_byte (async_tx_init (int d) p stop) u = (bs, s', u') \<and>
    fst (async_tx_get_bit get_byte s' u') = b \<and>
    rx_view (fold (\<lambda>b s. async_rx_put_bit s b) (bs @ [b]) (async_rx_init (int d) p stop v14)) =
      ((int d, p, v14), 0, 0, map (\<lambda>x. take_bit d (uint x)) (queued u) @ [SIG_STATUS_END_OF_DATA])"
proof -
  let ?r = "async_rx_init (int d) p stop v14"
  let ?cs = "map (\<lambda>x. (uint x, max 1 (nat stop))) (queued u)"
  have conf: "tx_config d p stop (async_tx_init (int d) p stop)" "atx_bitpos (async_tx_init (int d) p stop) = 0"
    by (simp_all add: tx_config_def async_tx_init_def ASYNC_PARITY_NONE_def)
  obtain s' u' where tx: "async_tx_bits (length (queued u) * char_time d p stop) get_byte (async_tx_init (int d) p stop) u =
      (map of_bool (async_line (int d) p ?cs), s', u')" and u': "source_ok u'" "queued u' = []" "atx_bitpos s' = 0"
    using tx_line [OF assms(1) refl conf] by blast
  have ok: "line_ok v14 ?cs"
    by (auto simp: line_ok_def last_map)
  have rx: "rx_view (async_rx_bits (async_line (int d) p ?cs) ?r) = ((int d, p, v14), 0, 0, map (\<lambda>x. take_bit d (uint x)) (queued u))"
    using rx_line_end [of ?r d p v14 0 0 "[]", OF _ _ assms(2) ok] by (simp add: async_rx_init_def rx_view_def comp_def)
  have "rx_view (async_rx_put_bit (async_rx_bits (async_line (int d) p ?cs) ?r) SIG_STATUS_END_OF_DATA) =
      ((int d, p, v14), 0, 0, map (\<lambda>x. take_bit d (uint x)) (queued u) @ [SIG_STATUS_END_OF_DATA])"
    using rx by (simp add: async_rx_put_bit_def rx_view_def async_put_byte_def sig_status_defs)
  then show ?thesis
    using tx tx_end [OF u'] by (simp add: rx_of_bools)
qed

end

definition queue_get_byte :: "queue_state \<Rightarrow> int \<times> queue_state" where
  "queue_get_byte q = (case queue_read_byte q of Some (q', b) \<Rightarrow> (b, q') | None \<Rightarrow> (-1, q))"

interpretation serial: octet_source queue_get_byte queue_ok queue_list
proof
  show "fst (queue_get_byte u) < 0" if "queue_ok u" "queue_list u = []" for u
    using queue_read_byte_list [OF that(1)] that(2) by (simp add: queue_get_byte_def)
  show "\<exists>u'. queue_get_byte u = (uint x, u') \<and> queue_ok u' \<and> queue_list u' = xs"
    if "queue_ok u" "queue_list u = x # xs" for u x xs
    using queue_read_byte_list [OF that(1)] that(2) by (auto simp: queue_get_byte_def)
qed

text \<open>
  Claim C22. The serial link delivers. Whatever octets a queue holds, a transmitter that takes its
  characters from the queue and a receiver of the same settings, with up to 8 data bits, any parity
  and any number of stop bits, with or without V.14, deliver exactly these octets in order (cut to
  the number of data bits), without parity or framing errors, and then the end of data.
\<close>

theorem async_link_delivers:
  assumes "queue_ok q" "d \<le> 8"
  shows "\<exists>bs s' q' b. async_tx_bits (length (queue_list q) * char_time d p stop) queue_get_byte (async_tx_init (int d) p stop) q = (bs, s', q') \<and>
    fst (async_tx_get_bit queue_get_byte s' q') = b \<and>
    rx_view (fold (\<lambda>b s. async_rx_put_bit s b) (bs @ [b]) (async_rx_init (int d) p stop v14)) =
      ((int d, p, v14), 0, 0, map (\<lambda>x. take_bit d (uint x)) (queue_list q) @ [SIG_STATUS_END_OF_DATA])"
  by (rule serial.source_delivers [OF assms])

theorem async_link_delivers_witness:
  "let q = \<lparr>q_flags = 0, q_len = 4, q_iptr = 1, q_optr = 3, q_data = [0x31, 0, 0, 0xC2]\<rparr> in
   \<exists>bs s' q' b. async_tx_bits 22 queue_get_byte (async_tx_init 7 ASYNC_PARITY_ODD 2) q = (bs, s', q') \<and>
    arx_log (fold (\<lambda>b s. async_rx_put_bit s b) (bs @ [b]) (async_rx_init 7 ASYNC_PARITY_ODD 2 False)) =
      [0x42, 0x31, SIG_STATUS_END_OF_DATA]"
proof -
  let ?q = "\<lparr>q_flags = 0, q_len = 4, q_iptr = 1, q_optr = 3, q_data = [0x31, 0, 0, 0xC2]\<rparr>"
  have q: "queue_ok ?q" "queue_list ?q = [0xC2, 0x31]"
    by code_simp+
  have t: "2 * char_time 7 ASYNC_PARITY_ODD 2 = 22" "map (\<lambda>x. take_bit 7 (uint x)) [0xC2, 0x31 :: u8] = [0x42, 0x31]"
    by code_simp+
  show ?thesis
    using async_link_delivers [OF q(1), of 7 ASYNC_PARITY_ODD 2 False] t
    by (fastforce simp: q(2) rx_view_def Let_def)
qed

end
