(* ===== verification/Bitstream.thy ===== *)
theory Bitstream
  imports Prelude "HOL-Library.Monad_Syntax"
begin

text \<open>
  The bit packer of \<^verbatim>\<open>spandsp-0.0.6/src/bitstream.c\<close>, which writes fields of a few bits to
  octets and reads them back, least or most significant bit first. The octets written are appended
  to a list; reading takes them from a list, and \<open>None\<close> stands for a read behind its end or a
  shift that C leaves undefined.
\<close>

record bitstream_state =
  bs_bitstream :: u32
  bs_residue :: nat
  bs_lsb_first :: bool

definition bitstream_init :: "bool \<Rightarrow> bitstream_state" where
  "bitstream_init lsb_first = \<lparr>bs_bitstream = 0, bs_residue = 0, bs_lsb_first = lsb_first\<rparr>"

text \<open>The value \<^verbatim>\<open>(1 << bits) - 1\<close>, on \<^verbatim>\<open>int\<close>.\<close>

definition low_mask :: "nat \<Rightarrow> u32 option" where
  "low_mask bits = (if bits \<le> 30 then Some (2 ^ bits - 1) else None)"

fun put_octets_lsb :: "u32 \<Rightarrow> nat \<Rightarrow> octets \<Rightarrow> u32 \<times> nat \<times> octets" where
  "put_octets_lsb w residue out =
     (if residue \<ge> 8 then put_octets_lsb (drop_bit 8 w) (residue - 8) (out @ [ucast (w AND 0xFF)])
      else (w, residue, out))"

fun put_octets_msb :: "u32 \<Rightarrow> nat \<Rightarrow> octets \<Rightarrow> nat \<times> octets" where
  "put_octets_msb w residue out =
     (if residue \<ge> 8
      then put_octets_msb w (residue - 8) (out @ [ucast (drop_bit (residue - 8) w AND 0xFF)])
      else (residue, out))"

definition bitstream_put :: "bitstream_state \<Rightarrow> octets \<Rightarrow> u32 \<Rightarrow> nat \<Rightarrow> (bitstream_state \<times> octets) option" where
  "bitstream_put s out value bits = do {
     m \<leftarrow> low_mask bits;
     let value = value AND m;
     if bs_lsb_first s
     then
       let s = (if bs_residue s + bits \<le> 32
             then s\<lparr>bs_bitstream := bs_bitstream s OR push_bit (bs_residue s) value,
                    bs_residue := bs_residue s + bits\<rparr>
             else s);
           (w, residue, out) = put_octets_lsb (bs_bitstream s) (bs_residue s) out
       in Some (s\<lparr>bs_bitstream := w, bs_residue := residue\<rparr>, out)
     else
       let s = (if bs_residue s + bits \<le> 32
             then s\<lparr>bs_bitstream := push_bit bits (bs_bitstream s) OR value,
                    bs_residue := bs_residue s + bits\<rparr>
             else s);
           (residue, out) = put_octets_msb (bs_bitstream s) (bs_residue s) out
       in Some (s\<lparr>bs_residue := residue\<rparr>, out)
   }"

definition bitstream_flush :: "bitstream_state \<Rightarrow> octets \<Rightarrow> (bitstream_state \<times> octets) option" where
  "bitstream_flush s out =
     (if bs_residue s > 0
      then do {
        m \<leftarrow> low_mask (bs_residue s);
        let w = bs_bitstream s AND m;
        if bs_lsb_first s
        then Some (s\<lparr>bs_bitstream := 0, bs_residue := 0\<rparr>, out @ [ucast w])
        else if bs_residue s \<le> 8
        then Some (s\<lparr>bs_bitstream := 0, bs_residue := 0\<rparr>, out @ [ucast (push_bit (8 - bs_residue s) w)])
        else None
      }
      else Some (s\<lparr>bs_bitstream := 0\<rparr>, out))"

fun get_octets_lsb :: "nat \<Rightarrow> u32 \<Rightarrow> nat \<Rightarrow> octets \<Rightarrow> (u32 \<times> nat \<times> octets) option" where
  "get_octets_lsb bits w residue inp =
     (if residue < bits
      then case inp of [] \<Rightarrow> None
        | c # inp \<Rightarrow> get_octets_lsb bits (w OR push_bit residue (ucast c)) (residue + 8) inp
      else Some (w, residue, inp))"

fun get_octets_msb :: "nat \<Rightarrow> u32 \<Rightarrow> nat \<Rightarrow> octets \<Rightarrow> (u32 \<times> nat \<times> octets) option" where
  "get_octets_msb bits w residue inp =
     (if residue < bits
      then case inp of [] \<Rightarrow> None
        | c # inp \<Rightarrow> get_octets_msb bits (push_bit 8 w OR ucast c) (residue + 8) inp
      else Some (w, residue, inp))"

definition bitstream_get :: "bitstream_state \<Rightarrow> octets \<Rightarrow> nat \<Rightarrow> (u32 \<times> bitstream_state \<times> octets) option" where
  "bitstream_get s inp bits =
     (if bs_lsb_first s
      then do {
        (w, residue, inp) \<leftarrow> get_octets_lsb bits (bs_bitstream s) (bs_residue s) inp;
        m \<leftarrow> low_mask bits;
        Some (w AND m, s\<lparr>bs_bitstream := drop_bit bits w, bs_residue := residue - bits\<rparr>, inp)
      }
      else do {
        (w, residue, inp) \<leftarrow> get_octets_msb bits (bs_bitstream s) (bs_residue s) inp;
        m \<leftarrow> low_mask bits;
        Some (drop_bit (residue - bits) w AND m, s\<lparr>bs_bitstream := w, bs_residue := residue - bits\<rparr>, inp)
      })"

declare put_octets_lsb.simps [simp del] put_octets_msb.simps [simp del]
  get_octets_lsb.simps [simp del] get_octets_msb.simps [simp del]

section \<open>The stream of bits\<close>

text \<open>The bits of a field, of octets and of what the state holds back, in the order of the stream.\<close>

definition field_bits :: "bool \<Rightarrow> nat \<Rightarrow> 'a::len word \<Rightarrow> bits" where
  "field_bits lsb n v = (if lsb then map (bit v) [0..<n] else rev (map (bit v) [0..<n]))"

definition octet_stream :: "bool \<Rightarrow> octets \<Rightarrow> bits" where
  "octet_stream lsb xs = concat (map (field_bits lsb 8) xs)"

definition held_back :: "bitstream_state \<Rightarrow> bits" where
  "held_back s = field_bits (bs_lsb_first s) (bs_residue s) (bs_bitstream s)"

definition bs_ok :: "bitstream_state \<Rightarrow> bool" where
  "bs_ok s \<longleftrightarrow> bs_residue s < 8 \<and> (bs_lsb_first s \<longrightarrow> take_bit (bs_residue s) (bs_bitstream s) = bs_bitstream s)"

lemma length_field_bits [simp]: "length (field_bits lsb n v) = n"
  by (simp add: field_bits_def)

lemma octet_stream_simps [simp]:
  "octet_stream lsb [] = []"
  "octet_stream lsb (x # xs) = field_bits lsb 8 x @ octet_stream lsb xs"
  "octet_stream lsb (xs @ ys) = octet_stream lsb xs @ octet_stream lsb ys"
  by (simp_all add: octet_stream_def)

lemma length_octet_stream [simp]: "length (octet_stream lsb xs) = 8 * length xs"
  by (induction xs) auto

lemma low_mask_Some: "bits \<le> 30 \<Longrightarrow> low_mask bits = Some (mask bits)"
  by (simp add: low_mask_def mask_eq_exp_minus_1)

lemma field_bits_add_lsb:
  "field_bits True (m + n) v = field_bits True m v @ field_bits True n (drop_bit m v)"
  by (rule nth_equalityI) (auto simp: field_bits_def nth_append bit_simps)

lemma field_bits_add_msb:
  "field_bits False (m + n) v = field_bits False n (drop_bit m v) @ field_bits False m v"
  using field_bits_add_lsb [of m n v] by (simp add: field_bits_def)

lemma field_bits_cong: "(\<And>i. i < n \<Longrightarrow> bit v i = bit w i) \<Longrightarrow> field_bits lsb n v = field_bits lsb n w"
  by (simp add: field_bits_def)

lemma take_bit_self_bit: "take_bit n w = w \<Longrightarrow> bit (w :: 'a::len word) i \<Longrightarrow> i < n"
  by (metis bit_take_bit_iff)

lemma take_bit_selfI: "(\<And>i. bit (w :: 'a::len word) i \<Longrightarrow> i < n) \<Longrightarrow> take_bit n w = w"
  by (rule bit_word_eqI) (auto simp: bit_simps)

section \<open>Writing\<close>

lemma octet_bits: "field_bits lsb 8 (ucast (w AND 0xFF :: u32) :: u8) = field_bits lsb 8 w"
proof (rule field_bits_cong)
  fix i :: nat assume "i < 8"
  have "w AND 0xFF = take_bit 8 w"
    by (simp add: take_bit_eq_mask mask_numeral)
  then show "bit (ucast (w AND 0xFF) :: u8) i = bit w i"
    using \<open>i < 8\<close> by (simp add: bit_simps)
qed

lemma put_octets_lsb_stream:
  assumes "take_bit r w = w"
  shows "\<exists>octs w' r'. put_octets_lsb w r out = (w', r', out @ octs) \<and> r' < 8 \<and> take_bit r' w' = w' \<and>
    octet_stream True octs @ field_bits True r' w' = field_bits True r w"
  using assms
proof (induction r arbitrary: w out rule: less_induct)
  case (less r)
  show ?case
  proof (cases "8 \<le> r")
    case True
    have "take_bit (r - 8) (drop_bit 8 w) = drop_bit 8 w"
      using less.prems by (intro take_bit_selfI) (auto simp: bit_simps dest: take_bit_self_bit)
    then obtain octs w' r' where IH: "put_octets_lsb (drop_bit 8 w) (r - 8) (out @ [ucast (w AND 0xFF)]) =
        (w', r', (out @ [ucast (w AND 0xFF)]) @ octs)" "r' < 8" "take_bit r' w' = w'"
        "octet_stream True octs @ field_bits True r' w' = field_bits True (r - 8) (drop_bit 8 w)"
      using less.IH [of "r - 8" "drop_bit 8 w" "out @ [ucast (w AND 0xFF)]"] True by auto
    moreover have "field_bits True r w = field_bits True 8 w @ field_bits True (r - 8) (drop_bit 8 w)"
      using field_bits_add_lsb [of 8 "r - 8" w] True by simp
    ultimately show ?thesis
      using True by (subst put_octets_lsb.simps)
        (auto simp: octet_bits intro!: exI [of _ "ucast (w AND 0xFF) # octs"])
  next
    case False
    then show ?thesis
      using less.prems by (subst put_octets_lsb.simps) (auto intro!: exI [of _ "[]"])
  qed
qed

lemma put_octets_msb_stream:
  "\<exists>octs r'. put_octets_msb w r out = (r', out @ octs) \<and> r' < 8 \<and>
    octet_stream False octs @ field_bits False r' w = field_bits False r w"
proof (induction r arbitrary: out rule: less_induct)
  case (less r)
  show ?case
  proof (cases "8 \<le> r")
    case True
    let ?c = "ucast (drop_bit (r - 8) w AND 0xFF) :: u8"
    obtain octs r' where IH: "put_octets_msb w (r - 8) (out @ [?c]) = (r', (out @ [?c]) @ octs)" "r' < 8"
        "octet_stream False octs @ field_bits False r' w = field_bits False (r - 8) w"
      using less.IH [of "r - 8" "out @ [?c]"] True by auto
    moreover have "field_bits False r w = field_bits False 8 (drop_bit (r - 8) w) @ field_bits False (r - 8) w"
      using field_bits_add_msb [of "r - 8" 8 w] True by simp
    ultimately show ?thesis
      using True by (subst put_octets_msb.simps) (auto simp: octet_bits intro!: exI [of _ "?c # octs"])
  next
    case False
    then show ?thesis
      by (subst put_octets_msb.simps) (auto intro!: exI [of _ "[]"])
  qed
qed

lemma bitstream_put_stream:
  assumes "bs_ok s" "bits \<le> 25"
  shows "\<exists>s' octs. bitstream_put s out value bits = Some (s', out @ octs) \<and> bs_ok s' \<and>
    bs_lsb_first s' = bs_lsb_first s \<and>
    octet_stream (bs_lsb_first s) octs @ held_back s' = held_back s @ field_bits (bs_lsb_first s) bits value"
proof -
  let ?r = "bs_residue s" and ?w = "bs_bitstream s" and ?v = "value AND mask bits"
  have m: "low_mask bits = Some (mask bits)" and le: "?r + bits \<le> 32"
    using assms by (simp_all add: low_mask_Some bs_ok_def)
  show ?thesis
  proof (cases "bs_lsb_first s")
    case True
    let ?w' = "?w OR push_bit ?r ?v"
    have w: "take_bit ?r ?w = ?w"
      using assms(1) True by (simp add: bs_ok_def)
    have "take_bit (?r + bits) ?w' = ?w'"
      by (rule take_bit_selfI) (auto simp: bit_simps dest!: take_bit_self_bit [OF w])
    then obtain octs w' r' where put: "put_octets_lsb ?w' (?r + bits) out = (w', r', out @ octs)" "r' < 8"
      "take_bit r' w' = w'" "octet_stream True octs @ field_bits True r' w' = field_bits True (?r + bits) ?w'"
      using put_octets_lsb_stream by blast
    have "field_bits True ?r ?w' = field_bits True ?r ?w"
      by (rule field_bits_cong) (simp add: bit_simps)
    moreover have "field_bits True bits (drop_bit ?r ?w') = field_bits True bits value"
    proof (rule field_bits_cong)
      fix i assume "i < bits"
      then show "bit (drop_bit ?r ?w') i = bit value i"
        using le take_bit_self_bit [OF w, of "?r + i"] by (auto simp: bit_simps)
    qed
    ultimately have "field_bits True (?r + bits) ?w' = held_back s @ field_bits True bits value"
      using True by (simp add: field_bits_add_lsb held_back_def)
    then show ?thesis
      using True m le put by (auto simp: bitstream_put_def Let_def bs_ok_def held_back_def)
  next
    case False
    let ?w' = "push_bit bits ?w OR ?v"
    obtain octs r' where put: "put_octets_msb ?w' (?r + bits) out = (r', out @ octs)" "r' < 8"
      "octet_stream False octs @ field_bits False r' ?w' = field_bits False (?r + bits) ?w'"
      using put_octets_msb_stream by blast
    have "field_bits False bits ?w' = field_bits False bits value"
      using assms(2) by (intro field_bits_cong) (auto simp: bit_simps)
    moreover have "field_bits False ?r (drop_bit bits ?w') = field_bits False ?r ?w"
      using le by (intro field_bits_cong) (auto simp: bit_simps)
    ultimately have "field_bits False (?r + bits) ?w' = held_back s @ field_bits False bits value"
      using False by (simp add: field_bits_add_msb [of bits ?r, unfolded add.commute [of bits]] held_back_def)
    then show ?thesis
      using False m le put by (auto simp: bitstream_put_def Let_def bs_ok_def held_back_def)
  qed
qed

text \<open>Flushing fills the last octet with zero bits.\<close>

lemma bitstream_flush_stream:
  assumes "bs_ok s"
  shows "\<exists>octs. bitstream_flush s out = Some (bitstream_init (bs_lsb_first s), out @ octs) \<and>
    (\<exists>k<8. octet_stream (bs_lsb_first s) octs = held_back s @ replicate k False)"
proof (cases "bs_residue s = 0")
  case True
  then show ?thesis
    by (cases s) (auto simp: bitstream_flush_def bitstream_init_def held_back_def field_bits_def intro!: exI [of _ "[]"] exI [of _ 0])
next
  case False
  let ?r = "bs_residue s" and ?w = "bs_bitstream s AND mask (bs_residue s)"
  have r: "?r < 8" "low_mask ?r = Some (mask ?r)"
    using assms by (simp_all add: bs_ok_def low_mask_Some)
  define c :: u8 where "c = (if bs_lsb_first s then ucast ?w else ucast (push_bit (8 - ?r) ?w))"
  have "field_bits (bs_lsb_first s) 8 c = held_back s @ replicate (8 - ?r) False"
  proof (cases "bs_lsb_first s")
    case True
    have "field_bits True ?r c = held_back s" "field_bits True (8 - ?r) (drop_bit ?r c) = replicate (8 - ?r) False"
      using r True by (auto simp: c_def held_back_def field_bits_def bit_simps intro!: replicate_eqI)
    then show ?thesis
      using field_bits_add_lsb [of ?r "8 - ?r" c] r True by simp
  next
    case F: False
    have "field_bits False (8 - ?r) c = replicate (8 - ?r) False" "field_bits False ?r (drop_bit (8 - ?r) c) = held_back s"
      using r F by (auto simp: c_def held_back_def field_bits_def bit_simps intro!: replicate_eqI)
    then show ?thesis
      using field_bits_add_msb [of "8 - ?r" ?r c] r F by simp
  qed
  then show ?thesis
    using False r by (auto simp: bitstream_flush_def bitstream_init_def c_def intro!: exI [of _ "[c]"] exI [of _ "8 - ?r"])
qed

section \<open>Reading\<close>

lemma get_octets_lsb_stream:
  assumes "take_bit r w = w" "bits \<le> 25" "r < bits + 8" "bits \<le> r + 8 * length inp"
  shows "\<exists>w' r' rest. get_octets_lsb bits w r inp = Some (w', r', rest) \<and> bits \<le> r' \<and> r' < bits + 8 \<and>
    take_bit r' w' = w' \<and> field_bits True r' w' @ octet_stream True rest = field_bits True r w @ octet_stream True inp"
  using assms
proof (induction inp arbitrary: w r)
  case (Cons c inp)
  show ?case
  proof (cases "r < bits")
    case True
    let ?w = "w OR push_bit r (ucast c) :: u32"
    have "take_bit (r + 8) ?w = ?w"
      using True Cons.prems(1) by (intro take_bit_selfI) (auto simp: bit_simps dest!: take_bit_self_bit bit_u8_bound)
    moreover have "field_bits True (r + 8) ?w = field_bits True r w @ field_bits True 8 c"
    proof -
      have "field_bits True r ?w = field_bits True r w"
        by (rule field_bits_cong) (auto simp: bit_simps)
      moreover have "field_bits True 8 (drop_bit r ?w) = field_bits True 8 (ucast c :: u32)"
        using True Cons.prems(1,2) by (intro field_bits_cong) (auto simp: bit_simps dest: take_bit_self_bit)
      moreover have "field_bits True 8 (ucast c :: u32) = field_bits True 8 c"
        by (auto simp: field_bits_def bit_simps)
      ultimately show ?thesis
        by (simp add: field_bits_add_lsb)
    qed
    ultimately show ?thesis
      using Cons.IH [of "r + 8" ?w] Cons.prems(2-4) True by (subst get_octets_lsb.simps) auto
  next
    case False
    then show ?thesis
      using Cons.prems by (subst get_octets_lsb.simps) auto
  qed
next
  case Nil
  then show ?case
    by (subst get_octets_lsb.simps) auto
qed

lemma get_octets_msb_stream:
  assumes "bits \<le> 25" "r < bits + 8" "bits \<le> r + 8 * length inp"
  shows "\<exists>w' r' rest. get_octets_msb bits w r inp = Some (w', r', rest) \<and> bits \<le> r' \<and> r' < bits + 8 \<and>
    field_bits False r' w' @ octet_stream False rest = field_bits False r w @ octet_stream False inp"
  using assms
proof (induction inp arbitrary: w r)
  case (Cons c inp)
  show ?case
  proof (cases "r < bits")
    case True
    let ?w = "push_bit 8 w OR ucast c :: u32"
    have "field_bits False (8 + r) ?w = field_bits False r w @ field_bits False 8 c"
    proof -
      have "field_bits False r (drop_bit 8 ?w) = field_bits False r w"
        using True Cons.prems(1) by (intro field_bits_cong) (auto simp: bit_simps dest!: bit_u8_bound)
      moreover have "field_bits False 8 ?w = field_bits False 8 c"
        by (auto simp: field_bits_def bit_simps)
      ultimately show ?thesis
        by (simp add: field_bits_add_msb)
    qed
    then show ?thesis
      using Cons.IH [of "r + 8" ?w] Cons.prems True by (subst get_octets_msb.simps) (auto simp: add.commute)
  next
    case False
    then show ?thesis
      using Cons.prems by (subst get_octets_msb.simps) auto
  qed
next
  case Nil
  then show ?case
    by (subst get_octets_msb.simps) auto
qed

lemma bitstream_get_stream:
  assumes "bs_ok s" "bits \<le> 25" "held_back s @ octet_stream (bs_lsb_first s) inp = field_bits (bs_lsb_first s) bits v @ rest"
  shows "\<exists>s' inp'. bitstream_get s inp bits = Some (take_bit bits v, s', inp') \<and> bs_ok s' \<and>
    bs_lsb_first s' = bs_lsb_first s \<and> held_back s' @ octet_stream (bs_lsb_first s) inp' = rest"
proof -
  let ?r = "bs_residue s" and ?w = "bs_bitstream s"
  have len: "bits \<le> ?r + 8 * length inp"
    using arg_cong [OF assms(3), of length] by (simp add: held_back_def)
  have r: "?r < bits + 8"
    using assms(1) by (simp add: bs_ok_def)
  have m: "low_mask bits = Some (mask bits)"
    using assms(2) by (simp add: low_mask_Some)
  have take: "take_bit bits (u :: u32) = take_bit bits v" if "field_bits lsb bits u = field_bits lsb bits v" for u lsb
    using that by (intro bit_word_eqI) (cases lsb; auto simp: field_bits_def bit_simps)
  show ?thesis
  proof (cases "bs_lsb_first s")
    case True
    have w: "take_bit ?r ?w = ?w"
      using assms(1) True by (simp add: bs_ok_def)
    obtain w' r' inp' where get: "get_octets_lsb bits ?w ?r inp = Some (w', r', inp')" "bits \<le> r'" "r' < bits + 8"
      "take_bit r' w' = w'" "field_bits True r' w' @ octet_stream True inp' = held_back s @ octet_stream True inp"
      using get_octets_lsb_stream [OF w assms(2) r len] True by (auto simp: held_back_def)
    have "field_bits True r' w' = field_bits True bits w' @ field_bits True (r' - bits) (drop_bit bits w')"
      using field_bits_add_lsb [of bits "r' - bits" w'] get(2) by simp
    then have eq: "field_bits True bits w' @ (field_bits True (r' - bits) (drop_bit bits w') @ octet_stream True inp') =
        field_bits True bits v @ rest"
      using get(5) assms(3) True by simp
    then have "field_bits True bits w' = field_bits True bits v"
      "field_bits True (r' - bits) (drop_bit bits w') @ octet_stream True inp' = rest"
      by (simp_all add: append_eq_append_conv)
    moreover have "take_bit (r' - bits) (drop_bit bits w') = drop_bit bits w'"
      using get(4) by (intro take_bit_selfI) (auto simp: bit_simps dest: take_bit_self_bit)
    ultimately show ?thesis
      using True get m take [of True w'] by (auto simp: bitstream_get_def bs_ok_def held_back_def simp flip: take_bit_eq_mask)
  next
    case False
    obtain w' r' inp' where get: "get_octets_msb bits ?w ?r inp = Some (w', r', inp')" "bits \<le> r'" "r' < bits + 8"
      "field_bits False r' w' @ octet_stream False inp' = held_back s @ octet_stream False inp"
      using get_octets_msb_stream [OF assms(2) r len, of ?w] False by (auto simp: held_back_def)
    have "field_bits False r' w' = field_bits False bits (drop_bit (r' - bits) w') @ field_bits False (r' - bits) w'"
      using field_bits_add_msb [of "r' - bits" bits w'] get(2) by simp
    then have eq: "field_bits False bits (drop_bit (r' - bits) w') @ (field_bits False (r' - bits) w' @ octet_stream False inp') =
        field_bits False bits v @ rest"
      using get(4) assms(3) False by simp
    then have "field_bits False bits (drop_bit (r' - bits) w') = field_bits False bits v"
      "field_bits False (r' - bits) w' @ octet_stream False inp' = rest"
      by (simp_all add: append_eq_append_conv)
    then show ?thesis
      using False get m take [of False "drop_bit (r' - bits) w'"]
      by (auto simp: bitstream_get_def bs_ok_def held_back_def simp flip: take_bit_eq_mask)
  qed
qed

section \<open>Round trip\<close>

fun bitstream_put_all :: "bitstream_state \<Rightarrow> octets \<Rightarrow> (u32 \<times> nat) list \<Rightarrow> octets option" where
  "bitstream_put_all s out [] = map_option snd (bitstream_flush s out)"
| "bitstream_put_all s out ((v, n) # fs) = do {
     (s, out) \<leftarrow> bitstream_put s out v n;
     bitstream_put_all s out fs
   }"

fun bitstream_get_all :: "bitstream_state \<Rightarrow> octets \<Rightarrow> nat list \<Rightarrow> u32 list option" where
  "bitstream_get_all s inp [] = Some []"
| "bitstream_get_all s inp (n # ns) = do {
     (x, s, inp) \<leftarrow> bitstream_get s inp n;
     xs \<leftarrow> bitstream_get_all s inp ns;
     Some (x # xs)
   }"

definition fields_stream :: "bool \<Rightarrow> (u32 \<times> nat) list \<Rightarrow> bits" where
  "fields_stream lsb fs = concat (map (\<lambda>(v, n). field_bits lsb n v) fs)"

lemma put_all_stream:
  assumes "bs_ok s" "\<forall>f\<in>set fs. snd f \<le> 25"
  shows "\<exists>octs. bitstream_put_all s out fs = Some (out @ octs) \<and>
    (\<exists>k<8. octet_stream (bs_lsb_first s) octs = held_back s @ fields_stream (bs_lsb_first s) fs @ replicate k False)"
  using assms
proof (induction fs arbitrary: s out)
  case Nil
  then show ?case
    using bitstream_flush_stream [of s out] by (auto simp: fields_stream_def)
next
  case (Cons f fs)
  obtain v n where f: "f = (v, n)"
    by (cases f)
  obtain s' octs where put: "bitstream_put s out v n = Some (s', out @ octs)" "bs_ok s'" "bs_lsb_first s' = bs_lsb_first s"
    "octet_stream (bs_lsb_first s) octs @ held_back s' = held_back s @ field_bits (bs_lsb_first s) n v"
    using bitstream_put_stream [OF Cons.prems(1), of n out v] Cons.prems(2) f by auto
  obtain octs' k where "bitstream_put_all s' (out @ octs) fs = Some ((out @ octs) @ octs')" "k < 8"
    "octet_stream (bs_lsb_first s) octs' = held_back s' @ fields_stream (bs_lsb_first s) fs @ replicate k False"
    using Cons.IH [OF put(2), of "out @ octs"] Cons.prems(2) put(3) by auto
  moreover from this(3) have "octet_stream (bs_lsb_first s) (octs @ octs') =
      held_back s @ fields_stream (bs_lsb_first s) (f # fs) @ replicate k False"
    using put(4) by (simp add: fields_stream_def f flip: append_assoc)
  ultimately show ?case
    using put(1) by (auto simp: f)
qed

lemma get_all_stream:
  assumes "bs_ok s" "\<forall>f\<in>set fs. snd f \<le> 25"
    and "held_back s @ octet_stream (bs_lsb_first s) inp = fields_stream (bs_lsb_first s) fs @ rest"
  shows "bitstream_get_all s inp (map snd fs) = Some (map (\<lambda>(v, n). take_bit n v) fs)"
  using assms
proof (induction fs arbitrary: s inp)
  case (Cons f fs)
  obtain v n where f: "f = (v, n)"
    by (cases f)
  obtain s' inp' where "bitstream_get s inp n = Some (take_bit n v, s', inp')" "bs_ok s'" "bs_lsb_first s' = bs_lsb_first s"
    "held_back s' @ octet_stream (bs_lsb_first s) inp' = fields_stream (bs_lsb_first s) fs @ rest"
    using bitstream_get_stream [OF Cons.prems(1), of n inp v "fields_stream (bs_lsb_first s) fs @ rest"] Cons.prems(2,3)
    by (auto simp: f fields_stream_def)
  then show ?case
    using Cons.IH [of s' inp'] Cons.prems(2) by (simp add: f)
qed simp

text \<open>
  Claim C34. Round trip of the bit packer. Any sequence of fields of up to 25 bits that is written,
  flushed and read back with the same widths gives the low bits of the values that were written, in
  both bit orders; the octets are as few as the bits allow.
\<close>

theorem bitstream_round_trip:
  assumes "\<forall>f\<in>set fs. snd f \<le> 25"
  shows "\<exists>octs. bitstream_put_all (bitstream_init lsb) [] fs = Some octs \<and>
    length octs = (sum_list (map snd fs) + 7) div 8 \<and>
    bitstream_get_all (bitstream_init lsb) octs (map snd fs) = Some (map (\<lambda>(v, n). take_bit n v) fs)"
proof -
  have s: "bs_ok (bitstream_init lsb)" "bs_lsb_first (bitstream_init lsb) = lsb" "held_back (bitstream_init lsb) = []"
    by (simp_all add: bs_ok_def bitstream_init_def held_back_def field_bits_def)
  obtain octs k where put: "bitstream_put_all (bitstream_init lsb) [] fs = Some octs" "k < 8"
    "octet_stream lsb octs = fields_stream lsb fs @ replicate k False"
    using put_all_stream [OF s(1) assms, of "[]"] s by auto
  have "length (fields_stream lsb fs) = sum_list (map snd fs)"
    by (induction fs) (auto simp: fields_stream_def)
  then have "8 * length octs = sum_list (map snd fs) + k"
    using arg_cong [OF put(3), of length] by (simp only: length_octet_stream length_append length_replicate)
  then have "sum_list (map snd fs) + 7 = 7 - k + 8 * length octs"
    using put(2) by linarith
  then have "length octs = (sum_list (map snd fs) + 7) div 8"
    using put(2) by simp
  then show ?thesis
    using put get_all_stream [OF s(1) assms, of octs "replicate k False"] s by simp
qed

theorem bitstream_round_trip_witness:
  "\<exists>octs. bitstream_put_all (bitstream_init False) [] [(5, 3), (0x1FFFFFF, 25), (9, 2)] = Some octs \<and> length octs = 4 \<and>
    bitstream_get_all (bitstream_init False) octs [3, 25, 2] = Some [5, 0x1FFFFFF, 1]"
proof -
  have "map (\<lambda>(v, n). take_bit n v) [(5, 3), (0x1FFFFFF, 25), (9, 2)] = [5, 0x1FFFFFF, 1 :: u32]"
    by code_simp
  then show ?thesis
    using bitstream_round_trip [of "[(5, 3), (0x1FFFFFF, 25), (9, 2)]" False] by simp
qed

end
