(* ===== verification/Schedule.thy ===== *)
theory Schedule
  imports Prelude "HOL-Library.Monad_Syntax"
begin

text \<open>
  The event scheduler of \<^verbatim>\<open>spandsp-0.0.6/src/schedule.c\<close>. The array of events is a list whose
  elements are \<open>None\<close> until they are first written, as memory from \<^verbatim>\<open>realloc\<close> is; a read of such an
  element or outside the array makes an operation \<open>None\<close>. What a callback does is a parameter: the
  list of calls of the scheduler that it makes, which may depend on the state. The callbacks made are
  recorded in order in \<open>ss_fired\<close>. Failing memory allocation and logging are left out.
\<close>

section \<open>State\<close>

record ('c, 'd) span_sched =
  se_when :: u64
  se_callback :: "'c option"
  se_user_data :: "'d option"

record ('c, 'd) span_sched_state =
  ss_ticker :: u64
  ss_allocated :: nat
  ss_max_to_date :: nat
  ss_sched :: "('c, 'd) span_sched option list"
  ss_fired :: "('c \<times> 'd option) list"

definition span_schedule_init :: "('c, 'd) span_sched_state" where
  "span_schedule_init = \<lparr>ss_ticker = 0, ss_allocated = 0, ss_max_to_date = 0, ss_sched = [], ss_fired = []\<rparr>"

definition entry_at :: "('c, 'd) span_sched_state \<Rightarrow> nat \<Rightarrow> ('c, 'd) span_sched option" where
  "entry_at s i = (if i < length (ss_sched s) then ss_sched s ! i else None)"

definition store_entry :: "('c, 'd) span_sched_state \<Rightarrow> nat \<Rightarrow> ('c, 'd) span_sched \<Rightarrow> ('c, 'd) span_sched_state option" where
  "store_entry s i e =
     (if i < length (ss_sched s) then Some (s\<lparr>ss_sched := (ss_sched s)[i := Some e]\<rparr>) else None)"

section \<open>Operations\<close>

function find_free_slot :: "('c, 'd) span_sched_state \<Rightarrow> nat \<Rightarrow> nat option" where
  "find_free_slot s i =
     (if i < ss_max_to_date s
      then do {
        e \<leftarrow> entry_at s i;
        if se_callback e = None then Some i else find_free_slot s (i + 1)
      }
      else Some i)"
  by pat_completeness auto
termination
  by (relation "measure (\<lambda>(s, i). ss_max_to_date s - i)") auto

definition span_schedule_event :: "('c, 'd) span_sched_state \<Rightarrow> int \<Rightarrow> 'c \<Rightarrow> 'd option \<Rightarrow>
    (nat \<times> ('c, 'd) span_sched_state) option" where
  "span_schedule_event s us function user_data = do {
     i \<leftarrow> find_free_slot s 0;
     let s = (if i \<ge> ss_allocated s
           then s\<lparr>ss_allocated := ss_allocated s + 5,
                  ss_sched := take (ss_allocated s + 5) (ss_sched s @ replicate (ss_allocated s + 5) None)\<rparr>
           else s);
     let s = (if i \<ge> ss_max_to_date s then s\<lparr>ss_max_to_date := i + 1\<rparr> else s);
     s \<leftarrow> store_entry s i \<lparr>se_when = ss_ticker s + of_int us, se_callback = Some function, se_user_data = user_data\<rparr>;
     Some (i, s)
   }"

function next_event :: "('c, 'd) span_sched_state \<Rightarrow> nat \<Rightarrow> u64 \<Rightarrow> u64 option" where
  "next_event s i earliest =
     (if i < ss_max_to_date s
      then do {
        e \<leftarrow> entry_at s i;
        next_event s (i + 1) (if se_callback e \<noteq> None \<and> earliest > se_when e then se_when e else earliest)
      }
      else Some earliest)"
  by pat_completeness auto
termination
  by (relation "measure (\<lambda>(s, i, e). ss_max_to_date s - i)") auto

definition span_schedule_next :: "('c, 'd) span_sched_state \<Rightarrow> u64 option" where
  "span_schedule_next s = next_event s 0 (NOT 0)"

definition span_schedule_time :: "('c, 'd) span_sched_state \<Rightarrow> u64" where
  "span_schedule_time s = ss_ticker s"

definition span_schedule_del :: "('c, 'd) span_sched_state \<Rightarrow> int \<Rightarrow> ('c, 'd) span_sched_state option" where
  "span_schedule_del s i =
     (if i \<ge> int (ss_max_to_date s) \<or> i < 0 then Some s
      else do {
        e \<leftarrow> entry_at s (nat i);
        if se_callback e = None then Some s
        else store_entry s (nat i) (e\<lparr>se_callback := None\<rparr>)
      })"

text \<open>What a callback does with the scheduler.\<close>

datatype ('c, 'd) sched_call = Event int 'c "'d option" | Del int

fun sched_do :: "('c, 'd) sched_call list \<Rightarrow> ('c, 'd) span_sched_state \<Rightarrow> ('c, 'd) span_sched_state option" where
  "sched_do [] s = Some s"
| "sched_do (Event us f d # cs) s = do { (i, s) \<leftarrow> span_schedule_event s us f d; sched_do cs s }"
| "sched_do (Del i # cs) s = do { s \<leftarrow> span_schedule_del s i; sched_do cs s }"

type_synonym ('c, 'd) sched_callbacks =
  "'c \<Rightarrow> 'd option \<Rightarrow> ('c, 'd) span_sched_state \<Rightarrow> ('c, 'd) sched_call list"

definition fire_slot :: "('c, 'd) sched_callbacks \<Rightarrow> nat \<Rightarrow> ('c, 'd) span_sched_state \<Rightarrow> ('c, 'd) span_sched_state option" where
  "fire_slot run i s = do {
     e \<leftarrow> entry_at s i;
     case se_callback e of None \<Rightarrow> Some s
     | Some callback \<Rightarrow>
         if se_when e \<le> ss_ticker s
         then do {
           s' \<leftarrow> store_entry s i (e\<lparr>se_callback := None, se_user_data := None\<rparr>);
           let s' = s'\<lparr>ss_fired := ss_fired s' @ [(callback, se_user_data e)]\<rparr>;
           sched_do (run callback (se_user_data e) s') s'
         }
         else Some s
   }"

text \<open>The loop, whose end may move while it runs: \<open>None\<close> also stands for a loop without end.\<close>

partial_function (option) update_loop :: "('c, 'd) sched_callbacks \<Rightarrow> nat \<Rightarrow> ('c, 'd) span_sched_state \<Rightarrow> ('c, 'd) span_sched_state option" where
  "update_loop run i s =
     (if i < ss_max_to_date s then do { s \<leftarrow> fire_slot run i s; update_loop run (i + 1) s } else Some s)"

definition span_schedule_update :: "('c, 'd) sched_callbacks \<Rightarrow> ('c, 'd) span_sched_state \<Rightarrow> int \<Rightarrow> ('c, 'd) span_sched_state option" where
  "span_schedule_update run s us = update_loop run 0 (s\<lparr>ss_ticker := ss_ticker s + of_int us\<rparr>)"

declare find_free_slot.simps [simp del] next_event.simps [simp del]

section \<open>Invariant\<close>

definition sched_ok :: "('c, 'd) span_sched_state \<Rightarrow> bool" where
  "sched_ok s \<longleftrightarrow> length (ss_sched s) = ss_allocated s \<and> ss_max_to_date s \<le> ss_allocated s \<and>
     (\<forall>i < ss_allocated s. ss_sched s ! i \<noteq> None \<longleftrightarrow> i < ss_max_to_date s)"

definition busy :: "('c, 'd) span_sched_state \<Rightarrow> nat \<Rightarrow> bool" where
  "busy s i \<longleftrightarrow> (case entry_at s i of None \<Rightarrow> False | Some e \<Rightarrow> se_callback e \<noteq> None)"

lemma sched_ok_init: "sched_ok span_schedule_init"
  by (simp add: sched_ok_def span_schedule_init_def)

lemma sched_ok_entry: "sched_ok s \<Longrightarrow> i < ss_max_to_date s \<Longrightarrow> \<exists>e. entry_at s i = Some e"
  by (auto simp: sched_ok_def entry_at_def)

lemma find_free_slot_spec:
  assumes "sched_ok s" "i \<le> ss_max_to_date s"
  shows "\<exists>k. find_free_slot s i = Some k \<and> i \<le> k \<and> k \<le> ss_max_to_date s \<and> (\<forall>j. i \<le> j \<and> j < k \<longrightarrow> busy s j) \<and>
    \<not> (k < ss_max_to_date s \<and> busy s k)"
  using assms(2)
proof (induction "ss_max_to_date s - i" arbitrary: i)
  case 0
  then show ?case
    by (subst find_free_slot.simps) auto
next
  case (Suc n)
  then have i: "i < ss_max_to_date s"
    by simp
  then obtain e where e: "entry_at s i = Some e"
    using sched_ok_entry [OF assms(1)] by blast
  show ?case
  proof (cases "se_callback e = None")
    case True
    then show ?thesis
      using i e by (subst find_free_slot.simps) (auto simp: busy_def)
  next
    case False
    then have b: "busy s i"
      using e by (simp add: busy_def)
    obtain k where "find_free_slot s (i + 1) = Some k" "i + 1 \<le> k" "k \<le> ss_max_to_date s"
      "\<forall>j. i + 1 \<le> j \<and> j < k \<longrightarrow> busy s j" "\<not> (k < ss_max_to_date s \<and> busy s k)"
      using Suc.hyps(1) [of "i + 1"] Suc.hyps(2) i by fastforce
    moreover have "busy s j" if "i \<le> j" "j < k" for j
      using b that calculation(4) by (cases "j = i") auto
    ultimately show ?thesis
      using i e False by (subst find_free_slot.simps) auto
  qed
qed

lemma sched_ok_free: "sched_ok s \<Longrightarrow> ss_max_to_date s \<le> i \<Longrightarrow> entry_at s i = None"
  by (auto simp: sched_ok_def entry_at_def)

lemma event_spec:
  assumes ok: "sched_ok s"
  shows "\<exists>k s'. span_schedule_event s us f d = Some (k, s') \<and> sched_ok s' \<and>
    k \<le> ss_max_to_date s \<and> \<not> busy s k \<and> (\<forall>j. j < k \<longrightarrow> busy s j) \<and>
    entry_at s' k = Some \<lparr>se_when = ss_ticker s + of_int us, se_callback = Some f, se_user_data = d\<rparr> \<and>
    (\<forall>j. j \<noteq> k \<longrightarrow> entry_at s' j = entry_at s j) \<and>
    ss_max_to_date s' = max (ss_max_to_date s) (k + 1) \<and> ss_ticker s' = ss_ticker s \<and> ss_fired s' = ss_fired s"
proof -
  obtain k where k: "find_free_slot s 0 = Some k" "k \<le> ss_max_to_date s" "\<forall>j. j < k \<longrightarrow> busy s j"
    "\<not> (k < ss_max_to_date s \<and> busy s k)"
    using find_free_slot_spec [OF ok, of 0] by auto
  have free: "\<not> busy s k"
    using k(2,4) sched_ok_free [OF ok, of k] by (cases "k < ss_max_to_date s") (auto simp: busy_def)
  have len: "length (ss_sched s) = ss_allocated s" "ss_max_to_date s \<le> ss_allocated s"
    using ok by (simp_all add: sched_ok_def)
  define s1 where "s1 = (if k \<ge> ss_allocated s
     then s\<lparr>ss_allocated := ss_allocated s + 5,
            ss_sched := take (ss_allocated s + 5) (ss_sched s @ replicate (ss_allocated s + 5) None)\<rparr> else s)"
  define s2 where "s2 = (if k \<ge> ss_max_to_date s1 then s1\<lparr>ss_max_to_date := k + 1\<rparr> else s1)"
  let ?e = "\<lparr>se_when = ss_ticker s + of_int us, se_callback = Some f, se_user_data = d\<rparr>"
  have s1: "length (ss_sched s1) = ss_allocated s1" "k < ss_allocated s1" "ss_max_to_date s1 = ss_max_to_date s"
    "ss_ticker s1 = ss_ticker s" "ss_fired s1 = ss_fired s" "ss_allocated s \<le> ss_allocated s1"
    using len k(2) by (auto simp: s1_def)
  have e1: "entry_at s1 j = entry_at s j" for j
    using len by (auto simp: entry_at_def nth_append s1_def)
  have s2: "ss_sched s2 = ss_sched s1" "ss_max_to_date s2 = max (ss_max_to_date s) (k + 1)" "ss_ticker s2 = ss_ticker s"
    "ss_fired s2 = ss_fired s" "ss_allocated s2 = ss_allocated s1"
    using s1(3-5) k(2) by (auto simp: s2_def)
  define s3 where "s3 = s2\<lparr>ss_sched := (ss_sched s1)[k := Some ?e]\<rparr>"
  have ev: "span_schedule_event s us f d = Some (k, s3)"
    unfolding span_schedule_event_def k(1) Let_def s1_def [symmetric] bind.bind_lunit
    unfolding s2_def [symmetric] using s1(1,2) s2 by (simp add: store_entry_def s3_def)
  have en: "entry_at s3 j = (if j = k then Some ?e else entry_at s j)" for j
    using s1(1,2) e1 [of j] by (auto simp: entry_at_def s3_def)
  have old: "ss_sched s1 ! j \<noteq> None \<longleftrightarrow> j < ss_max_to_date s" if "j < ss_allocated s1" for j
    using that e1 [of j] s1(1) sched_ok_entry [OF ok, of j] sched_ok_free [OF ok, of j]
    by (cases "j < ss_max_to_date s") (auto simp: entry_at_def)
  have ok3: "sched_ok s3"
    unfolding sched_ok_def s3_def using s1(1,2,6) s2 old len k(2) by (auto simp: nth_list_update max_def)
  show ?thesis
    using ev ok3 en k free s2 by (intro exI [of _ k] exI [of _ s3]) (simp add: s3_def)
qed

lemma store_entry_spec:
  assumes "sched_ok s" "i < ss_max_to_date s"
  shows "\<exists>s'. store_entry s i e = Some s' \<and> sched_ok s' \<and> ss_max_to_date s' = ss_max_to_date s \<and>
    ss_ticker s' = ss_ticker s \<and> ss_fired s' = ss_fired s \<and>
    (\<forall>j. entry_at s' j = (if j = i then Some e else entry_at s j))"
  using assms by (auto simp: store_entry_def sched_ok_def entry_at_def nth_list_update)

lemma del_spec:
  assumes "sched_ok s"
  shows "\<exists>s'. span_schedule_del s i = Some s' \<and> sched_ok s' \<and> ss_max_to_date s' = ss_max_to_date s \<and>
    ss_ticker s' = ss_ticker s \<and> ss_fired s' = ss_fired s \<and> (\<forall>j. int j \<noteq> i \<longrightarrow> entry_at s' j = entry_at s j) \<and>
    (0 \<le> i \<longrightarrow> \<not> busy s' (nat i))"
proof (cases "0 \<le> i \<and> i < int (ss_max_to_date s)")
  case True
  then have i: "nat i < ss_max_to_date s" "int (nat i) = i"
    by auto
  obtain e where e: "entry_at s (nat i) = Some e"
    using sched_ok_entry [OF assms i(1)] by blast
  show ?thesis
    using True e store_entry_spec [OF assms i(1), of "e\<lparr>se_callback := None\<rparr>"] assms i
    by (cases "se_callback e = None") (auto simp: span_schedule_del_def busy_def)
next
  case False
  then show ?thesis
    using assms sched_ok_free [OF assms, of "nat i"] by (auto simp: span_schedule_del_def busy_def)
qed

section \<open>The update loop\<close>

definition due_at :: "u64 \<Rightarrow> ('c, 'd) span_sched_state \<Rightarrow> nat \<Rightarrow> ('c \<times> 'd option) list" where
  "due_at now s i =
     (case entry_at s i of None \<Rightarrow> []
      | Some e \<Rightarrow> (case se_callback e of None \<Rightarrow> []
        | Some c \<Rightarrow> if se_when e \<le> now then [(c, se_user_data e)] else []))"

definition due_events :: "u64 \<Rightarrow> ('c, 'd) span_sched_state \<Rightarrow> ('c \<times> 'd option) list" where
  "due_events now s = concat (map (due_at now s) [0..<ss_max_to_date s])"

text \<open>Callbacks that schedule at most one event each and remove none.\<close>

definition restarts_once :: "('c, 'd) sched_callbacks \<Rightarrow> bool" where
  "restarts_once run \<longleftrightarrow> (\<forall>c d s. run c d s = [] \<or> (\<exists>us f x. run c d s = [Event us f x]))"

lemma fire_slot_spec:
  assumes ok: "sched_ok s" and i: "i < ss_max_to_date s" and run: "restarts_once run"
  shows "\<exists>s'. fire_slot run i s = Some s' \<and> sched_ok s' \<and> ss_max_to_date s' = ss_max_to_date s \<and>
    ss_ticker s' = ss_ticker s \<and> ss_fired s' = ss_fired s @ due_at (ss_ticker s) s i \<and>
    (\<forall>j. (busy s j \<or> i < j) \<and> (j = i \<longrightarrow> due_at (ss_ticker s) s i = []) \<longrightarrow> entry_at s' j = entry_at s j)"
proof (cases "due_at (ss_ticker s) s i = []")
  case True
  obtain e where "entry_at s i = Some e"
    using sched_ok_entry [OF ok i] by blast
  then show ?thesis
    using True ok by (auto simp: fire_slot_def due_at_def split: option.splits if_splits)
next
  case False
  then obtain e c where e: "entry_at s i = Some e" "se_callback e = Some c" "se_when e \<le> ss_ticker s"
    by (auto simp: due_at_def split: option.splits if_splits)
  obtain s1 where st: "store_entry s i (e\<lparr>se_callback := None, se_user_data := None\<rparr>) = Some s1" and ok1: "sched_ok s1"
    and s1: "ss_max_to_date s1 = ss_max_to_date s" "ss_ticker s1 = ss_ticker s" "ss_fired s1 = ss_fired s"
      "\<forall>j. entry_at s1 j = (if j = i then Some (e\<lparr>se_callback := None, se_user_data := None\<rparr>) else entry_at s j)"
    using store_entry_spec [OF ok i] by blast
  define s2 where "s2 = s1\<lparr>ss_fired := ss_fired s1 @ [(c, se_user_data e)]\<rparr>"
  have s2: "sched_ok s2" "ss_max_to_date s2 = ss_max_to_date s" "ss_ticker s2 = ss_ticker s"
    "ss_fired s2 = ss_fired s @ due_at (ss_ticker s) s i" "\<And>j. entry_at s2 j = entry_at s1 j"
    using ok1 s1(1-3) e by (simp_all add: s2_def sched_ok_def due_at_def entry_at_def)
  have fire: "fire_slot run i s = sched_do (run c (se_user_data e) s2) s2"
    using e st by (simp add: fire_slot_def s2_def Let_def)
  have free: "\<not> busy s2 i"
    using s1(4) s2(5) by (simp add: busy_def)
  consider "run c (se_user_data e) s2 = []" | us f x where "run c (se_user_data e) s2 = [Event us f x]"
    using run unfolding restarts_once_def by metis
  then show ?thesis
  proof cases
    case 1
    then show ?thesis
      using fire s2 s1(4) False by auto
  next
    case (2 us f x)
    obtain k s3 where ev: "span_schedule_event s2 us f x = Some (k, s3)" "sched_ok s3" "\<not> busy s2 k" "\<forall>j. j < k \<longrightarrow> busy s2 j"
      "\<forall>j. j \<noteq> k \<longrightarrow> entry_at s3 j = entry_at s2 j" "ss_max_to_date s3 = max (ss_max_to_date s2) (k + 1)"
      "ss_ticker s3 = ss_ticker s2" "ss_fired s3 = ss_fired s2"
      using event_spec [OF s2(1), of us f x] by blast
    have k: "k \<le> i"
      using free ev(4) by (meson not_le_imp_less)
    have "entry_at s3 j = entry_at s j" if "busy s j \<or> i < j" "j \<noteq> i" for j
    proof -
      have "j \<noteq> k"
        using that k ev(3) s1(4) s2(5) by (auto simp: busy_def)
      then show ?thesis
        using ev(5) s2(5) s1(4) that(2) by simp
    qed
    then show ?thesis
      using fire 2 ev s2 k i False by auto
  qed
qed

lemma update_loop_spec:
  assumes "sched_ok s" "restarts_once run" "i \<le> ss_max_to_date s"
  shows "\<exists>s'. update_loop run i s = Some s' \<and> sched_ok s' \<and> ss_max_to_date s' = ss_max_to_date s \<and>
    ss_ticker s' = ss_ticker s \<and>
    ss_fired s' = ss_fired s @ concat (map (due_at (ss_ticker s) s) [i..<ss_max_to_date s]) \<and>
    (\<forall>j. busy s j \<and> (i \<le> j \<longrightarrow> due_at (ss_ticker s) s j = []) \<longrightarrow> entry_at s' j = entry_at s j)"
  using assms(1,3)
proof (induction "ss_max_to_date s - i" arbitrary: i s)
  case 0
  then show ?case
    by (subst update_loop.simps) auto
next
  case (Suc n)
  then have i: "i < ss_max_to_date s"
    by simp
  obtain s1 where fire: "fire_slot run i s = Some s1" and s1: "sched_ok s1" "ss_max_to_date s1 = ss_max_to_date s"
    "ss_ticker s1 = ss_ticker s" "ss_fired s1 = ss_fired s @ due_at (ss_ticker s) s i"
    "\<forall>j. (busy s j \<or> i < j) \<and> (j = i \<longrightarrow> due_at (ss_ticker s) s i = []) \<longrightarrow> entry_at s1 j = entry_at s j"
    using fire_slot_spec [OF Suc.prems(1) i assms(2)] by blast
  have later: "due_at t s1 j = due_at t s j" "busy s1 j = busy s j" if "i < j" for t j
    using s1(5) that by (simp_all add: due_at_def busy_def)
  have n: "n = ss_max_to_date s1 - (i + 1)" "i + 1 \<le> ss_max_to_date s1"
    using Suc.hyps(2) s1(2) i by simp_all
  obtain s2 where s2: "update_loop run (i + 1) s1 = Some s2" "sched_ok s2" "ss_max_to_date s2 = ss_max_to_date s"
    "ss_ticker s2 = ss_ticker s"
    "ss_fired s2 = ss_fired s1 @ concat (map (due_at (ss_ticker s) s1) [i + 1..<ss_max_to_date s])"
    "\<forall>j. busy s1 j \<and> (i + 1 \<le> j \<longrightarrow> due_at (ss_ticker s) s1 j = []) \<longrightarrow> entry_at s2 j = entry_at s1 j"
    using Suc.hyps(1) [OF n(1) s1(1) n(2)] s1(2,3) by auto
  have "concat (map (due_at (ss_ticker s) s1) [i + 1..<ss_max_to_date s]) =
      concat (map (due_at (ss_ticker s) s) [i + 1..<ss_max_to_date s])"
    using later by (intro arg_cong [of _ _ concat]) simp
  then have fired: "ss_fired s2 = ss_fired s @ concat (map (due_at (ss_ticker s) s) [i..<ss_max_to_date s])"
    unfolding s2(5) using s1(4) i by (simp add: upt_conv_Cons)
  have "entry_at s2 j = entry_at s j" if j: "busy s j" "i \<le> j \<longrightarrow> due_at (ss_ticker s) s j = []" for j
  proof -
    have "entry_at s1 j = entry_at s j"
      using s1(5) j by auto
    moreover from this have "busy s1 j" "due_at (ss_ticker s) s1 j = due_at (ss_ticker s) s j"
      using j(1) by (simp_all add: busy_def due_at_def)
    ultimately show ?thesis
      using s2(6) j(2) by auto
  qed
  then show ?case
    using i fire s2 fired by (subst update_loop.simps) auto
qed

section \<open>Properties\<close>

text \<open>
  Claim C33. Due events fire. With callbacks that schedule at most one new event each, advancing the
  clock always returns and makes exactly the calls of the events that are due then, each once, in
  the order of their slots; events scheduled meanwhile wait for the next update, and an event that
  is not yet due stays as it is.
\<close>

theorem schedule_update_fires_due:
  assumes "sched_ok s" "restarts_once run" "now = ss_ticker s + of_int us"
  shows "\<exists>s'. span_schedule_update run s us = Some s' \<and> sched_ok s' \<and> ss_ticker s' = now \<and>
    ss_fired s' = ss_fired s @ due_events now s \<and>
    (\<forall>j. busy s j \<and> due_at now s j = [] \<longrightarrow> entry_at s' j = entry_at s j)"
proof -
  let ?s = "s\<lparr>ss_ticker := now\<rparr>"
  have ok: "sched_ok ?s"
    using assms(1) by (simp add: sched_ok_def)
  have same: "due_at t ?s j = due_at t s j" "busy ?s j = busy s j" "entry_at ?s j = entry_at s j" for t j
    by (simp_all add: due_at_def busy_def entry_at_def)
  then have "due_at t ?s = due_at t s" for t
    by blast
  then show ?thesis
    using update_loop_spec [OF ok assms(2), of 0] same
    by (auto simp: span_schedule_update_def due_events_def assms(3))
qed

definition demo_restart :: "(nat, nat) sched_callbacks" where
  "demo_restart c d s = (if c = 0 then [Event 20 c d] else [])"

lemma demo_restarts_once: "restarts_once demo_restart"
  by (auto simp: restarts_once_def demo_restart_def)

theorem schedule_update_fires_due_witness:
  "\<exists>s s'. map_option snd (span_schedule_event (span_schedule_init :: (nat, nat) span_sched_state) 10 0 (Some 7)) = Some s \<and>
    span_schedule_update demo_restart s 10 = Some s' \<and> ss_fired s' = [(0, Some 7)]"
proof -
  obtain k s where ev: "span_schedule_event (span_schedule_init :: (nat, nat) span_sched_state) 10 0 (Some 7) = Some (k, s)"
    and s: "sched_ok s" "k \<le> ss_max_to_date (span_schedule_init :: (nat, nat) span_sched_state)"
      "entry_at s k = Some \<lparr>se_when = ss_ticker (span_schedule_init :: (nat, nat) span_sched_state) + of_int 10, se_callback = Some 0, se_user_data = Some 7\<rparr>"
      "ss_max_to_date s = max (ss_max_to_date (span_schedule_init :: (nat, nat) span_sched_state)) (k + 1)"
      "ss_ticker s = ss_ticker (span_schedule_init :: (nat, nat) span_sched_state)"
      "ss_fired s = ss_fired (span_schedule_init :: (nat, nat) span_sched_state)"
    using event_spec [OF sched_ok_init, of 10 0 "Some 7"] by blast
  have due: "due_events 10 s = [(0, Some 7)]" "ss_fired s = []" "ss_ticker s = 0"
    using s(2-6) by (simp_all add: due_events_def due_at_def span_schedule_init_def)
  obtain s' where "span_schedule_update demo_restart s 10 = Some s'" "ss_fired s' = [(0, Some 7)]"
    using schedule_update_fires_due [OF s(1) demo_restarts_once refl, of 10] due by auto
  then show ?thesis
    using ev by auto
qed

text \<open>
  Scheduling and removing. From any state that meets the invariant, scheduling returns the
  lowest slot that holds no event, stores the event there for the given time and changes no other
  slot; removing an event empties its slot, whatever the number given, and changes no other.
  Neither leaves the array, and both keep the invariant that exactly the slots in use so far are
  initialised.
\<close>

theorem schedule_event_and_del:
  assumes "sched_ok s"
  shows "(\<exists>k s'. span_schedule_event s us f d = Some (k, s') \<and> sched_ok s' \<and> \<not> busy s k \<and> (\<forall>j. j < k \<longrightarrow> busy s j) \<and>
      entry_at s' k = Some \<lparr>se_when = ss_ticker s + of_int us, se_callback = Some f, se_user_data = d\<rparr> \<and>
      (\<forall>j. j \<noteq> k \<longrightarrow> entry_at s' j = entry_at s j)) \<and>
    (\<exists>s'. span_schedule_del s i = Some s' \<and> sched_ok s' \<and> (0 \<le> i \<longrightarrow> \<not> busy s' (nat i)) \<and>
      (\<forall>j. int j \<noteq> i \<longrightarrow> entry_at s' j = entry_at s j))"
  using event_spec [OF assms, of us f d] del_spec [OF assms, of i] by blast

theorem schedule_event_and_del_witness:
  "\<exists>s'. span_schedule_del (span_schedule_init :: (nat, nat) span_sched_state) 3 = Some s' \<and> \<not> busy s' 3"
  using schedule_event_and_del [OF sched_ok_init, of 0 "0 :: nat" "None :: nat option" 3] by auto

lemma next_event_spec:
  assumes "sched_ok s" "i \<le> ss_max_to_date s"
  shows "\<exists>t. next_event s i m = Some t \<and> t \<le> m \<and>
    (\<forall>j e. i \<le> j \<and> entry_at s j = Some e \<and> se_callback e \<noteq> None \<longrightarrow> t \<le> se_when e) \<and>
    (t = m \<or> (\<exists>j e. entry_at s j = Some e \<and> se_callback e \<noteq> None \<and> t = se_when e))"
  using assms(2)
proof (induction "ss_max_to_date s - i" arbitrary: i m)
  case 0
  then have "entry_at s j = None" if "i \<le> j" for j
    using sched_ok_free [OF assms(1), of j] that by simp
  then show ?case
    using 0 by (subst next_event.simps) auto
next
  case (Suc n)
  then have i: "i < ss_max_to_date s"
    by simp
  obtain e where e: "entry_at s i = Some e"
    using sched_ok_entry [OF assms(1) i] by blast
  let ?m = "if se_callback e \<noteq> None \<and> m > se_when e then se_when e else m"
  have n: "n = ss_max_to_date s - (i + 1)" "i + 1 \<le> ss_max_to_date s"
    using Suc.hyps(2) i by simp_all
  obtain t where t: "next_event s (i + 1) ?m = Some t" "t \<le> ?m"
    "\<forall>j e. i + 1 \<le> j \<and> entry_at s j = Some e \<and> se_callback e \<noteq> None \<longrightarrow> t \<le> se_when e"
    "t = ?m \<or> (\<exists>j e. entry_at s j = Some e \<and> se_callback e \<noteq> None \<and> t = se_when e)"
    using Suc.hyps(1) [OF n, of ?m] by blast
  have "t \<le> se_when e'" if "i \<le> j" "entry_at s j = Some e'" "se_callback e' \<noteq> None" for j e'
  proof (cases "j = i")
    case True
    then show ?thesis
      using that t(2) e by (auto split: if_splits)
  next
    case False
    then have "i + 1 \<le> j"
      using that(1) by simp
    then show ?thesis
      using that t(3) by blast
  qed
  moreover have "t \<le> m"
    using t(2) by (auto split: if_splits)
  moreover have "t = m \<or> (\<exists>j e. entry_at s j = Some e \<and> se_callback e \<noteq> None \<and> t = se_when e)"
    using t(4) e by (auto split: if_splits)
  ultimately show ?case
    using i e t(1) by (subst next_event.simps) auto
qed

text \<open>
  The next event. The time reported is the smallest time of all scheduled events, or the
  largest 64 bit number when there is none.
\<close>

theorem schedule_next_is_earliest:
  assumes "sched_ok s"
  shows "\<exists>t. span_schedule_next s = Some t \<and>
    (\<forall>j e. entry_at s j = Some e \<and> se_callback e \<noteq> None \<longrightarrow> t \<le> se_when e) \<and>
    (t = -1 \<or> (\<exists>j e. entry_at s j = Some e \<and> se_callback e \<noteq> None \<and> t = se_when e))"
  using next_event_spec [OF assms, of 0 "NOT 0"] by (simp add: span_schedule_next_def)

theorem schedule_next_is_earliest_witness:
  "\<exists>t. span_schedule_next (span_schedule_init :: (nat, nat) span_sched_state) = Some t \<and> t = -1"
  using schedule_next_is_earliest [OF sched_ok_init, where 'a = nat and 'b = nat] 
  by (auto simp: entry_at_def span_schedule_init_def)

end
