(* ===== verification/G711.thy ===== *)
theory G711
  imports Bit_Ops
begin

text \<open>
  The A-law and u-law conversions: the inline functions of \<^verbatim>\<open>spandsp/g711.h\<close> with the tables and block
  functions of \<^verbatim>\<open>spandsp-0.0.6/src/g711.c\<close>, and the older conversions of \<^verbatim>\<open>t38modem/g711.c\<close>.
  Samples are integers; the callers pass 16 bit values, for which no computation leaves 32 bits.
\<close>

section \<open>Conversions of spandsp\<close>

definition G711_ALAW :: int where "G711_ALAW = 0"
definition G711_ULAW :: int where "G711_ULAW = 1"

definition ULAW_BIAS :: int where "ULAW_BIAS = 0x84"
definition ALAW_AMI_MASK :: int where "ALAW_AMI_MASK = 0x55"

definition linear_to_ulaw :: "int \<Rightarrow> u8" where
  "linear_to_ulaw linear =
     (let mask = (if linear \<ge> 0 then 0xFF else 0x7F);
          linear = (if linear \<ge> 0 then ULAW_BIAS + linear else ULAW_BIAS - linear);
          seg = top_bit (of_int (linear OR 0xFF)) - 7
      in of_int (if seg \<ge> 8 then 0x7F XOR mask
           else (push_bit 4 seg OR (drop_bit (nat (seg + 3)) linear AND 0xF)) XOR mask))"

definition ulaw_to_linear :: "u8 \<Rightarrow> int" where
  "ulaw_to_linear ulaw =
     (let ulaw = uint (NOT ulaw);
          t = push_bit (nat (drop_bit 4 (ulaw AND 0x70))) (push_bit 3 (ulaw AND 0x0F) + ULAW_BIAS)
      in signed_take_bit 15 (if ulaw AND 0x80 \<noteq> 0 then ULAW_BIAS - t else t - ULAW_BIAS))"

definition linear_to_alaw :: "int \<Rightarrow> u8" where
  "linear_to_alaw linear =
     (let mask = (if linear \<ge> 0 then ALAW_AMI_MASK OR 0x80 else ALAW_AMI_MASK);
          linear = (if linear \<ge> 0 then linear else - linear - 1);
          seg = top_bit (of_int (linear OR 0xFF)) - 7
      in of_int (if seg \<ge> 8 then if linear \<ge> 0 then 0x7F XOR mask else 0x00 XOR mask
           else (push_bit 4 seg OR (drop_bit (nat (if seg \<noteq> 0 then seg + 3 else 4)) linear AND 0x0F)) XOR mask))"

definition alaw_to_linear :: "u8 \<Rightarrow> int" where
  "alaw_to_linear alaw =
     (let alaw = uint (alaw XOR of_int ALAW_AMI_MASK);
          i = push_bit 4 (alaw AND 0x0F);
          seg = drop_bit 4 (alaw AND 0x70);
          i = (if seg \<noteq> 0 then push_bit (nat (seg - 1)) (i + 0x108) else i + 8)
      in signed_take_bit 15 (if alaw AND 0x80 \<noteq> 0 then i else - i))"

definition ulaw_to_alaw_table :: octets where
  "ulaw_to_alaw_table =
     [42, 43, 40, 41, 46, 47, 44, 45, 34, 35, 32, 33, 38, 39, 36, 37,
      58, 59, 56, 57, 62, 63, 60, 61, 50, 51, 48, 49, 54, 55, 52, 53,
      10, 11, 8, 9, 14, 15, 12, 13, 2, 3, 0, 1, 6, 7, 4, 26,
      27, 24, 25, 30, 31, 28, 29, 18, 19, 16, 17, 22, 23, 20, 21, 106,
      104, 105, 110, 111, 108, 109, 98, 99, 96, 97, 102, 103, 100, 101, 122, 120,
      126, 127, 124, 125, 114, 115, 112, 113, 118, 119, 116, 117, 75, 73, 79, 77,
      66, 67, 64, 65, 70, 71, 68, 69, 90, 91, 88, 89, 94, 95, 92, 93,
      82, 82, 83, 83, 80, 80, 81, 81, 86, 86, 87, 87, 84, 84, 85, 85,
      170, 171, 168, 169, 174, 175, 172, 173, 162, 163, 160, 161, 166, 167, 164, 165,
      186, 187, 184, 185, 190, 191, 188, 189, 178, 179, 176, 177, 182, 183, 180, 181,
      138, 139, 136, 137, 142, 143, 140, 141, 130, 131, 128, 129, 134, 135, 132, 154,
      155, 152, 153, 158, 159, 156, 157, 146, 147, 144, 145, 150, 151, 148, 149, 234,
      232, 233, 238, 239, 236, 237, 226, 227, 224, 225, 230, 231, 228, 229, 250, 248,
      254, 255, 252, 253, 242, 243, 240, 241, 246, 247, 244, 245, 203, 201, 207, 205,
      194, 195, 192, 193, 198, 199, 196, 197, 218, 219, 216, 217, 222, 223, 220, 221,
      210, 210, 211, 211, 208, 208, 209, 209, 214, 214, 215, 215, 212, 212, 213, 213]"

definition alaw_to_ulaw_table :: octets where
  "alaw_to_ulaw_table =
     [42, 43, 40, 41, 46, 47, 44, 45, 34, 35, 32, 33, 38, 39, 36, 37,
      57, 58, 55, 56, 61, 62, 59, 60, 49, 50, 47, 48, 53, 54, 51, 52,
      10, 11, 8, 9, 14, 15, 12, 13, 2, 3, 0, 1, 6, 7, 4, 5,
      26, 27, 24, 25, 30, 31, 28, 29, 18, 19, 16, 17, 22, 23, 20, 21,
      98, 99, 96, 97, 102, 103, 100, 101, 93, 93, 92, 92, 95, 95, 94, 94,
      116, 118, 112, 114, 124, 126, 120, 122, 106, 107, 104, 105, 110, 111, 108, 109,
      72, 73, 70, 71, 76, 77, 74, 75, 64, 65, 63, 63, 68, 69, 66, 67,
      86, 87, 84, 85, 90, 91, 88, 89, 79, 79, 78, 78, 82, 83, 80, 81,
      170, 171, 168, 169, 174, 175, 172, 173, 162, 163, 160, 161, 166, 167, 164, 165,
      185, 186, 183, 184, 189, 190, 187, 188, 177, 178, 175, 176, 181, 182, 179, 180,
      138, 139, 136, 137, 142, 143, 140, 141, 130, 131, 128, 129, 134, 135, 132, 133,
      154, 155, 152, 153, 158, 159, 156, 157, 146, 147, 144, 145, 150, 151, 148, 149,
      226, 227, 224, 225, 230, 231, 228, 229, 221, 221, 220, 220, 223, 223, 222, 222,
      244, 246, 240, 242, 252, 254, 248, 250, 234, 235, 232, 233, 238, 239, 236, 237,
      200, 201, 198, 199, 204, 205, 202, 203, 192, 193, 191, 191, 196, 197, 194, 195,
      214, 215, 212, 213, 218, 219, 216, 217, 207, 207, 206, 206, 210, 211, 208, 209]"

definition alaw_to_ulaw :: "u8 \<Rightarrow> u8" where
  "alaw_to_ulaw alaw = alaw_to_ulaw_table ! unat alaw"

definition ulaw_to_alaw :: "u8 \<Rightarrow> u8" where
  "ulaw_to_alaw ulaw = ulaw_to_alaw_table ! unat ulaw"

record g711_state =
  g711_mode :: int

definition g711_init :: "int \<Rightarrow> g711_state" where
  "g711_init mode = \<lparr>g711_mode = mode\<rparr>"

text \<open>The block functions; the number they return is the length of the list.\<close>

definition g711_decode :: "g711_state \<Rightarrow> octets \<Rightarrow> int list" where
  "g711_decode s g711_data = map (if g711_mode s = G711_ALAW then alaw_to_linear else ulaw_to_linear) g711_data"

definition g711_encode :: "g711_state \<Rightarrow> int list \<Rightarrow> octets" where
  "g711_encode s amp = map (if g711_mode s = G711_ALAW then linear_to_alaw else linear_to_ulaw) amp"

definition g711_transcode :: "g711_state \<Rightarrow> octets \<Rightarrow> octets" where
  "g711_transcode s g711_in = map (if g711_mode s = G711_ALAW then alaw_to_ulaw else ulaw_to_alaw) g711_in"

section \<open>Conversions of t38modem\<close>

definition seg_aend :: "int list" where
  "seg_aend = [0x1F, 0x3F, 0x7F, 0xFF, 0x1FF, 0x3FF, 0x7FF, 0xFFF]"

definition seg_uend :: "int list" where
  "seg_uend = [0x3F, 0x7F, 0xFF, 0x1FF, 0x3FF, 0x7FF, 0xFFF, 0x1FFF]"

fun search :: "int \<Rightarrow> int list \<Rightarrow> int" where
  "search val [] = 0"
| "search val (t # table) = (if val \<le> t then 0 else 1 + search val table)"

definition linear2alaw :: "int \<Rightarrow> int" where
  "linear2alaw pcm_val =
     (let pcm_val = drop_bit 3 pcm_val;
          mask = (if pcm_val \<ge> 0 then 0xD5 else 0x55);
          pcm_val = (if pcm_val \<ge> 0 then pcm_val else - pcm_val - 1);
          seg = search pcm_val seg_aend
      in if seg \<ge> 8 then 0x7F XOR mask
         else (push_bit 4 seg OR ((if seg < 2 then drop_bit 1 pcm_val else drop_bit (nat seg) pcm_val) AND 0xF)) XOR mask)"

definition alaw2linear :: "int \<Rightarrow> int" where
  "alaw2linear a_val =
     (let a_val = a_val XOR 0x55;
          t = push_bit 4 (a_val AND 0xF);
          seg = drop_bit 4 (a_val AND 0x70);
          t = (if seg = 0 then t + 8 else if seg = 1 then t + 0x108 else push_bit (nat (seg - 1)) (t + 0x108))
      in if a_val AND 0x80 \<noteq> 0 then t else - t)"

definition linear2ulaw :: "int \<Rightarrow> int" where
  "linear2ulaw pcm_val =
     (let pcm_val = drop_bit 2 pcm_val;
          mask = (if pcm_val < 0 then 0x7F else 0xFF);
          pcm_val = (if pcm_val < 0 then - pcm_val else pcm_val);
          pcm_val = (if pcm_val > 8159 then 8159 else pcm_val) + drop_bit 2 0x84;
          seg = search pcm_val seg_uend
      in if seg \<ge> 8 then 0x7F XOR mask
         else (push_bit 4 seg OR (drop_bit (nat (seg + 1)) pcm_val AND 0xF)) XOR mask)"

definition ulaw2linear :: "int \<Rightarrow> int" where
  "ulaw2linear u_val =
     (let u_val = NOT u_val;
          t = push_bit (nat (drop_bit 4 (u_val AND 0x70))) (push_bit 3 (u_val AND 0xF) + 0x84)
      in if u_val AND 0x80 \<noteq> 0 then 0x84 - t else t - 0x84)"

section \<open>All codes\<close>

lemma all_codes:
  assumes "list_all (\<lambda>i. P (of_int i)) [0..255]"
  shows "P (c :: u8)"
proof -
  have "uint c \<in> set [0..255]"
    using uint_bounded [of c] by simp
  then have "P (of_int (uint c))"
    using assms by (simp only: list_all_iff)
  then show ?thesis
    by simp
qed

section \<open>Segments\<close>

lemma top_bit_or_255:
  assumes "2 ^ k \<le> l" "l < 2 ^ Suc k" "8 \<le> k" "k < 32"
  shows "top_bit (of_int (l OR 0xFF)) = int k"
proof (rule top_bit_highest)
  have "l div 2 ^ k = 1"
    using assms(1,2) by (intro int_div_pos_eq [of _ _ _ "l - 2 ^ k"]) auto
  then have "bit l k"
    by (simp add: bit_iff_odd)
  then show "bit (of_int (l OR 0xFF) :: u32) k"
    using assms(4) by (simp add: bit_simps)
  have mask: "(255 :: int) = mask 8"
    by (simp add: mask_numeral)
  fix j assume "bit (of_int (l OR 0xFF) :: u32) j"
  then have "bit l j \<or> bit (255 :: int) j"
    by (simp add: bit_simps)
  then show "j \<le> k"
  proof
    assume b: "bit l j"
    show ?thesis
    proof (rule ccontr)
      assume "\<not> j \<le> k"
      then have "(2::int) ^ Suc k \<le> 2 ^ j"
        by (intro power_increasing) auto
      then have "l div 2 ^ j = 0"
        using assms(1,2) order_trans [of 0 "2 ^ k" l] by (intro div_pos_pos_trivial) auto
      then show False
        using b by (simp add: bit_iff_odd)
    qed
  next
    assume "bit (255 :: int) j"
    then show ?thesis
      unfolding mask using assms(3) by (simp add: bit_simps)
  qed
qed

definition segment :: "int \<Rightarrow> int" where
  "segment l =
     (if l < 256 then 0 else if l < 512 then 1 else if l < 1024 then 2 else if l < 2048 then 3
      else if l < 4096 then 4 else if l < 8192 then 5 else if l < 16384 then 6 else if l < 32768 then 7 else 8)"

lemma or_255_small:
  assumes "0 \<le> l" "l < 256"
  shows "l OR 0xFF = (0xFF :: int)"
proof -
  have "take_bit 8 l = l"
    using assms by (simp add: take_bit_int_eq_self)
  moreover have "take_bit 8 l OR mask 8 = (mask 8 :: int)"
    by (rule bit_eqI) (auto simp: bit_simps)
  ultimately show ?thesis
    by (simp add: mask_numeral)
qed

lemma top_bit_segment:
  assumes "0 \<le> l" "l < 65536"
  shows "top_bit (of_int (l OR 0xFF)) - 7 = segment l"
proof -
  have seg: "top_bit (of_int (l OR 0xFF)) = int k" if "2 ^ k \<le> l" "l < 2 ^ Suc k" "k \<in> {8..15}" for k
    using that by (intro top_bit_or_255) auto
  have low: "top_bit (of_int (l OR 0xFF)) = 7" if "l < 256"
    using or_255_small [OF assms(1) that] by (simp add: top_bit_def narrow_mask_def)
  consider "l < 256" | "256 \<le> l" "l < 512" | "512 \<le> l" "l < 1024" | "1024 \<le> l" "l < 2048" | "2048 \<le> l" "l < 4096"
    | "4096 \<le> l" "l < 8192" | "8192 \<le> l" "l < 16384" | "16384 \<le> l" "l < 32768" | "32768 \<le> l"
    by linarith
  then show ?thesis
    using low seg [of 8] seg [of 9] seg [of 10] seg [of 11] seg [of 12] seg [of 13] seg [of 14] seg [of 15] assms(2)
    by cases (simp_all add: segment_def)
qed

section \<open>The codes as arithmetic\<close>

definition alaw_code :: "int \<Rightarrow> int" where
  "alaw_code l =
     (let s = segment l in if s \<ge> 8 then 127 else 16 * s + l div 2 ^ nat (if s \<noteq> 0 then s + 3 else 4) mod 16)"

definition ulaw_code :: "int \<Rightarrow> int" where
  "ulaw_code l = (let s = segment l in if s \<ge> 8 then 127 else 16 * s + l div 2 ^ nat (s + 3) mod 16)"

lemma segment_bounds: "0 \<le> segment l" "segment l \<le> 8"
  by (simp_all add: segment_def)

lemma and_15: "x AND 0xF = x mod (16 :: int)"
proof -
  have "x AND 0xF = take_bit 4 x"
    by (simp add: take_bit_eq_mask mask_numeral)
  then show ?thesis
    by (simp add: take_bit_eq_mod)
qed

lemma seg_or_quant:
  assumes "0 \<le> s" "s \<le> 7" "0 \<le> q" "q \<le> 15"
  shows "push_bit 4 s OR q = 16 * s + (q :: int)"
proof -
  have "list_all (\<lambda>s. list_all (\<lambda>q. push_bit 4 s OR q = 16 * s + q) [0..15]) [0..7 :: int]"
    by code_simp
  then show ?thesis
    using assms by (simp only: list_all_iff set_upto) auto
qed

lemma code_value:
  assumes "0 \<le> s" "s < 8"
  shows "push_bit 4 s OR (drop_bit n l AND 0xF) = 16 * s + l div 2 ^ n mod (16 :: int)"
proof -
  have "0 \<le> l div 2 ^ n mod 16" "l div 2 ^ n mod 16 \<le> 15"
    using pos_mod_bound [of 16 "l div 2 ^ n"] by auto
  then show ?thesis
    using assms by (simp add: and_15 drop_bit_eq_div seg_or_quant)
qed

lemma linear_to_alaw_code:
  assumes "-32768 \<le> x" "x < 32768"
  shows "linear_to_alaw x = of_int (alaw_code (if x \<ge> 0 then x else - x - 1) XOR (if x \<ge> 0 then 0xD5 else 0x55))"
proof -
  define l where "l = (if x \<ge> 0 then x else - x - 1)"
  have l: "0 \<le> l" "l < 65536"
    using assms by (auto simp: l_def)
  define s where "s = segment l"
  have seg: "top_bit (of_int (l OR 0xFF)) - 7 = s"
    using top_bit_segment [OF l] by (simp add: s_def)
  have mask: "(if x \<ge> 0 then ALAW_AMI_MASK OR 0x80 else ALAW_AMI_MASK) = (if x \<ge> 0 then 0xD5 else 0x55)"
    by (simp add: ALAW_AMI_MASK_def)
  have s: "0 \<le> s" "s \<le> 8"
    using segment_bounds [of l] by (simp_all add: s_def)
  show ?thesis
    unfolding linear_to_alaw_def Let_def l_def [symmetric] seg mask alaw_code_def s_def [symmetric]
    using s l(1) code_value [of s "nat (if s \<noteq> 0 then s + 3 else 4)" l] by (cases "s \<ge> 8") simp_all
qed

lemma linear_to_ulaw_code:
  assumes "-32768 \<le> x" "x < 32768"
  shows "linear_to_ulaw x = of_int (ulaw_code (132 + \<bar>x\<bar>) XOR (if x \<ge> 0 then 0xFF else 0x7F))"
proof -
  define l where "l = (if x \<ge> 0 then ULAW_BIAS + x else ULAW_BIAS - x)"
  have l: "0 \<le> l" "l < 65536" "132 + \<bar>x\<bar> = l"
    using assms by (auto simp: l_def ULAW_BIAS_def)
  define s where "s = segment l"
  have seg: "top_bit (of_int (l OR 0xFF)) - 7 = s"
    using top_bit_segment [OF l(1,2)] by (simp add: s_def)
  have s: "0 \<le> s" "s \<le> 8"
    using segment_bounds [of l] by (simp_all add: s_def)
  show ?thesis
    unfolding linear_to_ulaw_def Let_def l_def [symmetric] seg ulaw_code_def l(3) s_def [symmetric]
    using s l(1) code_value [of s "nat (s + 3)" l] by (cases "s \<ge> 8") simp_all
qed

lemma alaw_codes: "linear_to_alaw (alaw_to_linear c) = c"
proof -
  let ?P = "\<lambda>c. let x = alaw_to_linear c in -32768 \<le> x \<and> x < 32768 \<and>
    of_int (alaw_code (if x \<ge> 0 then x else - x - 1) XOR (if x \<ge> 0 then 0xD5 else 0x55)) = c"
  have "?P c"
    by (rule all_codes [where P = ?P]) code_simp
  then show ?thesis
    using linear_to_alaw_code [of "alaw_to_linear c"] by (simp add: Let_def)
qed

lemma ulaw_codes: "linear_to_ulaw (ulaw_to_linear c) = (if c = 0x7F then 0xFF else c)"
proof -
  let ?P = "\<lambda>c. let x = ulaw_to_linear c in -32768 \<le> x \<and> x < 32768 \<and>
    of_int (ulaw_code (132 + \<bar>x\<bar>) XOR (if x \<ge> 0 then 0xFF else 0x7F)) = (if c = 0x7F then 0xFF else c)"
  have "?P c"
    by (rule all_codes [where P = ?P]) code_simp
  then show ?thesis
    using linear_to_ulaw_code [of "ulaw_to_linear c"] by (simp add: Let_def)
qed

lemma alaw_decoders: "alaw2linear (uint c) = alaw_to_linear c"
  by (rule all_codes) code_simp

lemma ulaw_decoders: "ulaw2linear (uint c) = ulaw_to_linear c"
  by (rule all_codes) code_simp

end
