(* ===== verification/G711_Error.thy ===== *)
theory G711_Error
  imports G711
begin

text \<open>
  Properties of the G.711 conversions: round trips of the codes, the size of the quantisation error,
  and the agreement of the two implementations.
\<close>

section \<open>Quantisation\<close>

lemma quantised:
  assumes "0 < h" "32 * h \<le> l" "l < 64 * (h :: int)"
  shows "- h < 2 * h * (16 + l div (2 * h) mod 16) + h - l \<and> 2 * h * (16 + l div (2 * h) mod 16) + h - l \<le> h"
proof -
  define q r where "q = l div (2 * h)" and "r = l mod (2 * h)"
  have l: "l = 2 * h * q + r"
    by (simp add: q_def r_def)
  have r: "0 \<le> r" "r < 2 * h"
    using assms(1) by (simp_all add: r_def)
  have "16 * (2 * h) div (2 * h) \<le> q"
    unfolding q_def using assms by (intro zdiv_mono1) auto
  then have q1: "16 \<le> q"
    using assms(1) by simp
  have q2: "q < 32"
  proof (rule ccontr)
    assume "\<not> q < 32"
    then have "2 * h * 32 \<le> 2 * h * q"
      using assms(1) by (intro mult_left_mono) auto
    then show False
      using l r(1) assms(3) by linarith
  qed
  have "q mod 16 = (q - 16) mod 16"
    by simp
  also have "\<dots> = q - 16"
    using q1 q2 by (intro mod_pos_pos_trivial) auto
  finally have "2 * h * (16 + q mod 16) + h - l = h - r"
    using l by (simp add: algebra_simps)
  then show ?thesis
    using r unfolding q_def [symmetric] by simp
qed

lemma segment_cases:
  assumes "0 \<le> l" "l < 32768"
  obtains "l < 256" "segment l = 0"
  | k where "k < 8" "1 \<le> k" "segment l = int k" "2 ^ (k + 7) \<le> l" "l < 2 ^ (k + 8)"
proof -
  consider "l < 256" | "256 \<le> l" "l < 512" | "512 \<le> l" "l < 1024" | "1024 \<le> l" "l < 2048" | "2048 \<le> l" "l < 4096"
    | "4096 \<le> l" "l < 8192" | "8192 \<le> l" "l < 16384" | "16384 \<le> l" "l < 32768"
    using assms by linarith
  then show ?thesis
    using that(1) that(2) [of 1] that(2) [of 2] that(2) [of 3] that(2) [of 4] that(2) [of 5] that(2) [of 6] that(2) [of 7]
    by cases (simp_all add: segment_def)
qed

definition code_ok :: "int \<Rightarrow> int \<Rightarrow> bool" where
  "code_ok s q \<longleftrightarrow> 0 \<le> s \<and> s \<le> 7 \<and> 0 \<le> q \<and> q \<le> 15"

lemma all_segments:
  assumes "code_ok s q" "list_all (\<lambda>s. list_all (P s) [0..15]) [0..7]"
  shows "P s q"
  using assms by (simp only: code_ok_def list_all_iff set_upto) auto

lemma alaw_decoded:
  assumes "code_ok s q"
  shows "alaw_to_linear (of_int ((16 * s + q) XOR 0xD5)) = (if s = 0 then 16 * q + 8 else (16 * q + 264) * 2 ^ nat (s - 1)) \<and>
    alaw_to_linear (of_int ((16 * s + q) XOR 0x55)) = - (if s = 0 then 16 * q + 8 else (16 * q + 264) * 2 ^ nat (s - 1))"
  by (rule all_segments [OF assms, where P = "\<lambda>s q.
    alaw_to_linear (of_int ((16 * s + q) XOR 0xD5)) = (if s = 0 then 16 * q + 8 else (16 * q + 264) * 2 ^ nat (s - 1)) \<and>
    alaw_to_linear (of_int ((16 * s + q) XOR 0x55)) = - (if s = 0 then 16 * q + 8 else (16 * q + 264) * 2 ^ nat (s - 1))"])
    code_simp

lemma ulaw_decoded:
  assumes "code_ok s q"
  shows "ulaw_to_linear (of_int ((16 * s + q) XOR 0xFF)) = (8 * q + 132) * 2 ^ nat s - 132 \<and>
    ulaw_to_linear (of_int ((16 * s + q) XOR 0x7F)) = 132 - (8 * q + 132) * 2 ^ nat s"
  by (rule all_segments [OF assms, where P = "\<lambda>s q.
    ulaw_to_linear (of_int ((16 * s + q) XOR 0xFF)) = (8 * q + 132) * 2 ^ nat s - 132 \<and>
    ulaw_to_linear (of_int ((16 * s + q) XOR 0x7F)) = 132 - (8 * q + 132) * 2 ^ nat s"])
    code_simp

lemma code_okI: "0 \<le> s \<Longrightarrow> s \<le> 7 \<Longrightarrow> code_ok s (x mod 16)"
  using pos_mod_bound [of 16 x] by (simp add: code_ok_def)

lemma alaw_code_decoded:
  assumes "0 \<le> l" "l < 32768"
  obtains v h where "alaw_to_linear (of_int (alaw_code l XOR 0xD5)) = v" "alaw_to_linear (of_int (alaw_code l XOR 0x55)) = - v"
    "- h < v - l" "v - l \<le> h" "32 * h \<le> max 256 l"
  using assms
proof (rule segment_cases)
  assume l: "l < 256" "segment l = 0"
  define q where "q = l div 16 mod 16"
  have q: "code_ok 0 q"
    unfolding q_def by (rule code_okI) simp_all
  have "l div 16 mod 16 = l div 16"
    using assms(1) l(1) by (intro mod_pos_pos_trivial) auto
  then have "- 8 < 16 * q + 8 - l" "16 * q + 8 - l \<le> 8"
    unfolding q_def by presburger+
  moreover have "alaw_code l = 16 * 0 + q"
    using l by (simp add: alaw_code_def q_def)
  ultimately show thesis
    using alaw_decoded [OF q] by (intro that [of "16 * q + 8" 8]) simp_all
next
  fix k assume k: "k < 8" "1 \<le> k" "segment l = int k" "2 ^ (k + 7) \<le> l" "l < 2 ^ (k + 8)"
  define h :: int where "h = 2 ^ (k + 2)"
  have h: "0 < h" "32 * h = 2 ^ (k + 7)" "64 * h = 2 ^ (k + 8)" "2 * h = 2 ^ (k + 3)" "h = 8 * 2 ^ (k - 1)"
    using k(2) by (simp_all add: h_def power_add power_diff)
  define q where "q = l div (2 * h) mod 16"
  have q: "code_ok (int k) q"
    unfolding q_def using k(1) by (intro code_okI) auto
  have v: "(16 * q + 264) * 2 ^ nat (int k - 1) = 2 * h * (16 + q) + h"
    using k(2) by (simp add: h(5) algebra_simps nat_diff_distrib)
  have err: "- h < 2 * h * (16 + q) + h - l" "2 * h * (16 + q) + h - l \<le> h"
    unfolding q_def using quantised [OF h(1), of l] k(4,5) h(2,3) by simp_all
  have n: "nat (if int k \<noteq> 0 then int k + 3 else 4) = k + 3"
    using k(2) by simp
  have "alaw_code l = 16 * int k + q"
    unfolding alaw_code_def k(3) Let_def n q_def h(4) using k(1) by simp
  then show thesis
    using that [OF _ _ err] alaw_decoded [OF q] k(2,4) h(2) by (simp add: v)
qed

lemma ulaw_code_decoded:
  assumes "128 \<le> l" "l < 32768"
  obtains v h where "ulaw_to_linear (of_int (ulaw_code l XOR 0xFF)) = v - 132" "ulaw_to_linear (of_int (ulaw_code l XOR 0x7F)) = 132 - v"
    "- h < v - l" "v - l \<le> h" "32 * h \<le> l"
proof -
  have "0 \<le> l"
    using assms(1) by simp
  then obtain k where k: "k < 8" "segment l = int k" "2 ^ (k + 7) \<le> l" "l < 2 ^ (k + 8)"
    using assms(2)
  proof (rule segment_cases)
    assume "l < 256" "segment l = 0"
    then show ?thesis
      using that [of 0] assms(1) by simp
  qed (use that in blast)
  define h :: int where "h = 2 ^ (k + 2)"
  have h: "0 < h" "32 * h = 2 ^ (k + 7)" "64 * h = 2 ^ (k + 8)" "2 * h = 2 ^ (k + 3)" "h = 4 * 2 ^ k"
    by (simp_all add: h_def power_add)
  define q where "q = l div (2 * h) mod 16"
  have q: "code_ok (int k) q"
    unfolding q_def using k(1) by (intro code_okI) auto
  have v: "(8 * q + 132) * 2 ^ k = 2 * h * (16 + q) + h"
    by (simp add: h(5) algebra_simps)
  have err: "- h < 2 * h * (16 + q) + h - l" "2 * h * (16 + q) + h - l \<le> h"
    unfolding q_def using quantised [OF h(1), of l] k(3,4) h(2,3) by simp_all
  have n: "nat (int k + 3) = k + 3"
    by simp
  have "ulaw_code l = 16 * int k + q"
    unfolding ulaw_code_def k(2) Let_def n q_def h(4) using k(1) by simp
  then show thesis
    using that [OF _ _ err] ulaw_decoded [OF q] k(3) h(2) by (simp add: v)
qed

section \<open>The two implementations\<close>

lemma search_segment:
  assumes "0 \<le> l" "l < 32768"
  shows "search (l div 8) seg_aend = segment l"
proof -
  have "l div 8 \<le> 31 \<longleftrightarrow> l < 256" "l div 8 \<le> 63 \<longleftrightarrow> l < 512" "l div 8 \<le> 127 \<longleftrightarrow> l < 1024" "l div 8 \<le> 255 \<longleftrightarrow> l < 2048"
    "l div 8 \<le> 511 \<longleftrightarrow> l < 4096" "l div 8 \<le> 1023 \<longleftrightarrow> l < 8192" "l div 8 \<le> 2047 \<longleftrightarrow> l < 16384" "l div 8 \<le> 4095 \<longleftrightarrow> l < 32768"
    by presburger+
  then show ?thesis
    using assms by (simp add: seg_aend_def segment_def)
qed

lemma linear2alaw_code:
  assumes "-32768 \<le> x" "x < 32768"
  shows "linear2alaw x = alaw_code (if x \<ge> 0 then x else - x - 1) XOR (if x \<ge> 0 then 0xD5 else 0x55)"
proof -
  define l where "l = (if x \<ge> 0 then x else - x - 1)"
  have l: "0 \<le> l" "l < 32768"
    using assms by (auto simp: l_def)
  have sign: "drop_bit 3 x \<ge> 0 \<longleftrightarrow> x \<ge> 0"
    by simp
  have p: "(if x \<ge> 0 then drop_bit 3 x else - drop_bit 3 x - 1) = l div 8"
    unfolding l_def by (auto simp: drop_bit_eq_div)
  define s where "s = segment l"
  have s: "0 \<le> s" "s \<le> 7"
    using l by (simp_all add: s_def segment_def)
  have d: "(if s < 2 then drop_bit 1 (l div 8) else drop_bit (nat s) (l div 8)) = drop_bit (nat (if s \<noteq> 0 then s + 3 else 4)) l"
  proof -
    have "l div 8 = drop_bit 3 l"
      by (simp add: drop_bit_eq_div)
    moreover have "s < 2 \<Longrightarrow> nat (if s \<noteq> 0 then s + 3 else 4) = 4" "\<not> s < 2 \<Longrightarrow> nat (if s \<noteq> 0 then s + 3 else 4) = nat s + 3"
      using s(1) by auto
    ultimately show ?thesis
      by (simp add: drop_bit_drop_bit del: drop_bit_eq_div)
  qed
  show ?thesis
    unfolding linear2alaw_def Let_def sign p search_segment [OF l] l_def [symmetric] s_def [symmetric] d alaw_code_def
    using s code_value [of s "nat (if s \<noteq> 0 then s + 3 else 4)" l] by simp
qed

lemma alaw_code_range: "0 \<le> l \<Longrightarrow> 0 \<le> alaw_code l \<and> alaw_code l < 128"
  using segment_bounds [of l] pos_mod_bound [of 16] by (auto simp: alaw_code_def Let_def) 

lemma xor_code_range:
  assumes "0 \<le> y" "y < 256" "0 \<le> m" "m < (256 :: int)"
  shows "0 \<le> y XOR m" "y XOR m < 256"
proof -
  have "take_bit 8 y = y" "take_bit 8 m = m"
    using assms by (simp_all add: take_bit_int_eq_self)
  then have "take_bit 8 (y XOR m) = y XOR m"
    by (simp add: take_bit_xor)
  then show "0 \<le> y XOR m" "y XOR m < 256"
    using take_bit_nonnegative [of 8 "y XOR m"] take_bit_int_less_exp [of 8 "y XOR m"] by simp_all
qed

lemma table_lookup:
  assumes "list_all2 P (map of_int [0..255]) table"
  shows "P c (table ! unat (c :: u8))"
proof -
  have c: "unat c < 256"
    using unsigned_less [of c, where ?'a = nat] by simp
  then have "0 + int (unat c) \<le> 255"
    by linarith
  then have "[0..255] ! unat c = 0 + int (unat c)"
    by (rule nth_upto)
  then show ?thesis
    using list_all2_nthD [OF assms, of "unat c"] c by simp
qed

lemma alaw_to_ulaw_error: "32 * \<bar>ulaw_to_linear (alaw_to_ulaw c) - alaw_to_linear c\<bar> \<le> \<bar>alaw_to_linear c\<bar>"
  unfolding alaw_to_ulaw_def by (rule table_lookup) code_simp

lemma ulaw_to_alaw_error:
  "32 * \<bar>alaw_to_linear (ulaw_to_alaw c) - ulaw_to_linear c\<bar> \<le> max 256 \<bar>ulaw_to_linear c\<bar>"
  unfolding ulaw_to_alaw_def by (rule table_lookup) code_simp

lemma ulaw_alaw_stable: "ulaw_to_alaw (alaw_to_ulaw (ulaw_to_alaw c)) = ulaw_to_alaw c"
proof -
  let ?lost = "\<lambda>a :: u8. a AND 0x7F \<in> {5, 72, 74, 76, 78, 107, 121, 123}"
  have "?lost a \<or> ulaw_to_alaw (alaw_to_ulaw a) = a" for a
    unfolding alaw_to_ulaw_def by (rule table_lookup) code_simp
  moreover have "\<not> ?lost (ulaw_to_alaw c)"
    unfolding ulaw_to_alaw_def by (rule table_lookup) code_simp
  ultimately show ?thesis
    by blast
qed

section \<open>Properties\<close>

text \<open>
  Codes survive. Decoding a block of A-law or u-law codes and encoding the samples again
  gives the same codes, except that the u-law code for negative zero becomes that for zero.
\<close>

theorem g711_codes_round_trip:
  "g711_encode (g711_init G711_ALAW) (g711_decode (g711_init G711_ALAW) cs) = cs \<and>
   g711_encode (g711_init G711_ULAW) (g711_decode (g711_init G711_ULAW) cs) = map (\<lambda>c. if c = 0x7F then 0xFF else c) cs"
  by (simp add: g711_encode_def g711_decode_def g711_init_def G711_ALAW_def G711_ULAW_def alaw_codes ulaw_codes comp_def)

text \<open>
  Claim C35. Quantisation error. For every 16 bit sample, A-law changes the sample by at most 8 or a
  32nd of its magnitude, whichever is larger; u-law changes it by at most a 32nd of the magnitude
  increased by 132, for all samples up to the clipping level of 32635.
\<close>

theorem g711_error_bound:
  assumes "-32768 \<le> x" "x < 32768"
  shows "32 * \<bar>alaw_to_linear (linear_to_alaw x) - x\<bar> \<le> max 256 \<bar>x\<bar> \<and>
    (\<bar>x\<bar> \<le> 32635 \<longrightarrow> 32 * \<bar>ulaw_to_linear (linear_to_ulaw x) - x\<bar> \<le> \<bar>x\<bar> + 132)"
proof
  let ?l = "if x \<ge> 0 then x else - x - 1"
  have "0 \<le> ?l" "?l < 32768"
    using assms by auto
  then obtain v h where v: "alaw_to_linear (of_int (alaw_code ?l XOR 0xD5)) = v" "alaw_to_linear (of_int (alaw_code ?l XOR 0x55)) = - v"
    "- h < v - ?l" "v - ?l \<le> h" "32 * h \<le> max 256 ?l"
    by (rule alaw_code_decoded)
  show "32 * \<bar>alaw_to_linear (linear_to_alaw x) - x\<bar> \<le> max 256 \<bar>x\<bar>"
  proof (cases "x \<ge> 0")
    case True
    then have "alaw_to_linear (linear_to_alaw x) = v" "- h < v - x" "v - x \<le> h" "32 * h \<le> max 256 x"
      using v linear_to_alaw_code [OF assms] by simp_all
    then show ?thesis
      using True by (simp add: abs_if max_def split: if_splits)
  next
    case False
    then have "alaw_to_linear (linear_to_alaw x) = - v" "- h < v - (- x - 1)" "v - (- x - 1) \<le> h" "32 * h \<le> max 256 (- x - 1)"
      using v linear_to_alaw_code [OF assms] by simp_all
    then show ?thesis
      using False by (simp add: abs_if max_def split: if_splits)
  qed
  show "\<bar>x\<bar> \<le> 32635 \<longrightarrow> 32 * \<bar>ulaw_to_linear (linear_to_ulaw x) - x\<bar> \<le> \<bar>x\<bar> + 132"
  proof
    assume "\<bar>x\<bar> \<le> 32635"
    then have "128 \<le> 132 + \<bar>x\<bar>" "132 + \<bar>x\<bar> < 32768"
      by auto
    then obtain u k where u: "ulaw_to_linear (of_int (ulaw_code (132 + \<bar>x\<bar>) XOR 0xFF)) = u - 132"
      "ulaw_to_linear (of_int (ulaw_code (132 + \<bar>x\<bar>) XOR 0x7F)) = 132 - u"
      "- k < u - (132 + \<bar>x\<bar>)" "u - (132 + \<bar>x\<bar>) \<le> k" "32 * k \<le> 132 + \<bar>x\<bar>"
      by (rule ulaw_code_decoded)
    have "ulaw_to_linear (linear_to_ulaw x) = (if x \<ge> 0 then u - 132 else 132 - u)"
      unfolding linear_to_ulaw_code [OF assms] using u(1,2) by presburger
    then show "32 * \<bar>ulaw_to_linear (linear_to_ulaw x) - x\<bar> \<le> \<bar>x\<bar> + 132"
      using u(3-5) by (simp add: abs_if split: if_splits)
  qed
qed

theorem g711_error_bound_witness:
  "32 * \<bar>alaw_to_linear (linear_to_alaw (-12345)) - (-12345)\<bar> \<le> 12345"
  using g711_error_bound [of "-12345"] by simp

text \<open>
  Claim C36. Two implementations. On all 16 bit samples the A-law encoder of t38modem, which searches a
  table for the segment, gives the code of the spandsp encoder, which takes the segment from the
  highest bit set; the decoders agree on all A-law and u-law codes. The u-law encoders do not agree.
\<close>

theorem g711_implementations_agree:
  assumes "-32768 \<le> x" "x < 32768"
  shows "linear2alaw x = uint (linear_to_alaw x) \<and> alaw2linear (uint c) = alaw_to_linear c \<and> ulaw2linear (uint d) = ulaw_to_linear d"
proof -
  define l m where "l = (if x \<ge> 0 then x else - x - 1)" and "m = (if x \<ge> 0 then 0xD5 else 0x55 :: int)"
  then have "0 \<le> alaw_code l" "alaw_code l < 256" "0 \<le> m" "m < 256"
    using alaw_code_range [of l] by auto
  then have "uint (of_int (alaw_code l XOR m) :: u8) = alaw_code l XOR m"
    using xor_code_range [of "alaw_code l" m] by (simp add: uint_word_of_int_eq take_bit_int_eq_self)
  then show ?thesis
    using linear2alaw_code [OF assms] linear_to_alaw_code [OF assms] alaw_decoders ulaw_decoders
    by (simp add: l_def m_def)
qed

theorem g711_implementations_agree_witness:
  "linear2alaw (-20000) = uint (linear_to_alaw (-20000)) \<and> alaw2linear (uint (5 :: u8)) = alaw_to_linear 5 \<and>
    ulaw2linear (uint (6 :: u8)) = ulaw_to_linear 6"
  using g711_implementations_agree [of "-20000" 5 6] by simp

text \<open>
  Transcoding. Converting a block from one law to the other changes no sample by more than a
  32nd of its magnitude, or by more than 8 where that is larger; the number of octets stays the same,
  and from the second conversion on, going to A-law and back loses nothing.
\<close>

theorem g711_transcode_error:
  "list_all2 (\<lambda>x y. 32 * \<bar>y - x\<bar> \<le> \<bar>x\<bar>) (g711_decode (g711_init G711_ALAW) cs)
     (g711_decode (g711_init G711_ULAW) (g711_transcode (g711_init G711_ALAW) cs)) \<and>
   list_all2 (\<lambda>x y. 32 * \<bar>y - x\<bar> \<le> max 256 \<bar>x\<bar>) (g711_decode (g711_init G711_ULAW) ds)
     (g711_decode (g711_init G711_ALAW) (g711_transcode (g711_init G711_ULAW) ds)) \<and>
   (let there = g711_transcode (g711_init G711_ULAW); back = g711_transcode (g711_init G711_ALAW)
    in there (back (there ds)) = there ds)"
  by (simp add: g711_decode_def g711_transcode_def g711_init_def G711_ALAW_def G711_ULAW_def
      alaw_to_ulaw_error ulaw_to_alaw_error ulaw_alaw_stable list.rel_map list.rel_refl)

text \<open>The u-law encoder of t38modem rounds small negative samples away from zero.\<close>

lemma linear2ulaw_minus_one:
  "ulaw2linear (linear2ulaw (-1)) = -8 \<and> ulaw_to_linear (linear_to_ulaw (-1)) = 0"
  by code_simp

end
