(* ===== verification/Data_Stream.thy ===== *)
theory Data_Stream
  imports Prelude "HOL-Library.Monad_Syntax"
begin

text \<open>
  The octet streams of \<^verbatim>\<open>t38modem/pmutils.cxx\<close>: a queue of chunks of 256 octets with an end mark. The
  pointers \<^verbatim>\<open>firstBuf\<close> and \<^verbatim>\<open>lastBuf\<close> may point to the same chunk, and chunks are deleted while the other
  pointer may still refer to them, so the chunks live in a store and pointers are addresses in it;
  an access through a pointer to a deleted chunk makes an operation \<open>None\<close>, as does an access outside
  the array of a chunk. The octets of a new chunk, which C++ leaves unset, are zero.
\<close>

section \<open>Chunks\<close>

record ChunkStream =
  cs_data :: octets
  cs_first :: nat
  cs_last :: nat

definition ChunkStream_new :: ChunkStream where
  "ChunkStream_new = \<lparr>cs_data = replicate 256 0, cs_first = 0, cs_last = 0\<rparr>"

definition ChunkStream_write :: "ChunkStream \<Rightarrow> octets \<Rightarrow> (int \<times> ChunkStream) option" where
  "ChunkStream_write c buf =
     (let len = 256 - int (cs_last c)
      in if len = 0 then Some (-1, c)
         else do {
           let len = (if len > int (length buf) then int (length buf) else len);
           src \<leftarrow> mem_read buf 0 len;
           data \<leftarrow> mem_write (cs_data c) (int (cs_last c)) src;
           Some (len, c\<lparr>cs_data := data, cs_last := cs_last c + nat len\<rparr>)
         })"

definition ChunkStream_read :: "ChunkStream \<Rightarrow> nat \<Rightarrow> (int \<times> octets \<times> ChunkStream) option" where
  "ChunkStream_read c count =
     (if cs_first c = 256 then Some (-1, [], c)
      else do {
        let len = int (cs_last c) - int (cs_first c);
        let len = (if len > int count then int count else len);
        out \<leftarrow> mem_read (cs_data c) (int (cs_first c)) len;
        Some (len, out, c\<lparr>cs_first := cs_first c + nat len\<rparr>)
      })"

section \<open>Streams\<close>

record DataStream =
  ds_chunks :: "nat \<rightharpoonup> ChunkStream"
  ds_fresh :: nat
  ds_firstBuf :: "nat option"
  ds_bufQ :: "nat list"
  ds_lastBuf :: "nat option"
  ds_busy :: int
  ds_threshold :: int
  ds_eof :: bool
  ds_diag :: int

definition DataStream_new :: "int \<Rightarrow> DataStream" where
  "DataStream_new threshold =
     \<lparr>ds_chunks = (\<lambda>_. None), ds_fresh = 0, ds_firstBuf = None, ds_bufQ = [], ds_lastBuf = None, ds_busy = 0,
      ds_threshold = threshold, ds_eof = False, ds_diag = 0\<rparr>"

definition enqueue_chunk :: "'a DataStream_scheme \<Rightarrow> 'a DataStream_scheme" where
  "enqueue_chunk s =
     s\<lparr>ds_chunks := (ds_chunks s)(ds_fresh s \<mapsto> ChunkStream_new), ds_fresh := ds_fresh s + 1,
       ds_lastBuf := Some (ds_fresh s), ds_bufQ := ds_bufQ s @ [ds_fresh s]\<rparr>"

text \<open>One round of the loop of \<^verbatim>\<open>PutData\<close>, with the number of octets written or -1.\<close>

definition put_step :: "'a DataStream_scheme \<Rightarrow> octets \<Rightarrow> (int \<times> 'a DataStream_scheme) option" where
  "put_step s buf = do {
     let s = (if ds_lastBuf s = None then enqueue_chunk s else s);
     a \<leftarrow> ds_lastBuf s;
     c \<leftarrow> ds_chunks s a;
     (len, c) \<leftarrow> ChunkStream_write c buf;
     let s = s\<lparr>ds_chunks := (ds_chunks s)(a \<mapsto> c)\<rparr>;
     Some (len, if len < 0 then s\<lparr>ds_lastBuf := None\<rparr> else s)
   }"

partial_function (option) put_loop :: "'a DataStream_scheme \<Rightarrow> octets \<Rightarrow> int \<Rightarrow> (int \<times> 'a DataStream_scheme) option" where
  "put_loop s buf done =
     (if buf = [] then Some (done, s)
      else do {
        r \<leftarrow> put_step s buf;
        if fst r < 0 then put_loop (snd r) buf done
        else put_loop (snd r) (drop (nat (fst r)) buf) (done + fst r)
      })"

definition PutData :: "'a DataStream_scheme \<Rightarrow> octets \<Rightarrow> (int \<times> 'a DataStream_scheme) option" where
  "PutData s buf =
     (if ds_eof s then Some (-1, s)
      else do {
        (done, s) \<leftarrow> put_loop s buf 0;
        Some (done, s\<lparr>ds_busy := ds_busy s + done\<rparr>)
      })"

text \<open>
  One round of the loop of \<^verbatim>\<open>GetData\<close>: -1 when a used up chunk was deleted, 0 when the loop is left, or
  the number of octets read.
\<close>

definition get_step :: "'a DataStream_scheme \<Rightarrow> nat \<Rightarrow> (int \<times> octets \<times> 'a DataStream_scheme) option" where
  "get_step s count =
     (let s = (case (ds_firstBuf s, ds_bufQ s) of (None, a # q) \<Rightarrow> s\<lparr>ds_firstBuf := Some a, ds_bufQ := q\<rparr> | _ \<Rightarrow> s)
      in case ds_firstBuf s of None \<Rightarrow> Some (0, [], s\<lparr>ds_lastBuf := None\<rparr>)
         | Some a \<Rightarrow> do {
             c \<leftarrow> ds_chunks s a;
             (len, out, c) \<leftarrow> ChunkStream_read c count;
             Some (len, out,
               if len < 0 then s\<lparr>ds_chunks := (ds_chunks s)(a := None), ds_firstBuf := None\<rparr>
               else s\<lparr>ds_chunks := (ds_chunks s)(a \<mapsto> c)\<rparr>)
           })"

partial_function (option) get_loop :: "'a DataStream_scheme \<Rightarrow> nat \<Rightarrow> octets \<Rightarrow> (octets \<times> 'a DataStream_scheme) option" where
  "get_loop s count out =
     (if count = 0 then Some (out, s)
      else do {
        r \<leftarrow> get_step s count;
        if fst r = 0 then Some (out, snd (snd r))
        else get_loop (snd (snd r)) (count - nat (fst r)) (out @ fst (snd r))
      })"

definition GetData :: "'a DataStream_scheme \<Rightarrow> nat \<Rightarrow> (int \<times> octets \<times> 'a DataStream_scheme) option" where
  "GetData s count =
     (if ds_busy s = 0 then Some (if ds_eof s then -1 else 0, [], s)
      else do {
        (out, s) \<leftarrow> get_loop s count [];
        Some (int (length out), out, s\<lparr>ds_busy := ds_busy s - int (length out)\<rparr>)
      })"

definition PutEof :: "'a DataStream_scheme \<Rightarrow> 'a DataStream_scheme" where
  "PutEof s = s\<lparr>ds_eof := True\<rparr>"

definition GetDiag :: "'a DataStream_scheme \<Rightarrow> int" where
  "GetDiag s = ds_diag s"

definition SetDiag :: "'a DataStream_scheme \<Rightarrow> int \<Rightarrow> 'a DataStream_scheme" where
  "SetDiag s diag = s\<lparr>ds_diag := diag\<rparr>"

definition isFull :: "'a DataStream_scheme \<Rightarrow> bool" where
  "isFull s \<longleftrightarrow> ds_threshold s \<noteq> 0 \<and> ds_threshold s < ds_busy s"

definition Clean :: "'a DataStream_scheme \<Rightarrow> 'a DataStream_scheme" where
  "Clean s =
     s\<lparr>ds_chunks := (\<lambda>a. if a \<in> set (ds_bufQ s) \<or> ds_firstBuf s = Some a then None else ds_chunks s a),
       ds_bufQ := [], ds_firstBuf := None, ds_lastBuf := None, ds_busy := 0, ds_eof := False, ds_diag := 0\<rparr>"

section \<open>Invariant\<close>

definition chunk_ok :: "ChunkStream \<Rightarrow> bool" where
  "chunk_ok c \<longleftrightarrow> length (cs_data c) = 256 \<and> cs_first c \<le> cs_last c \<and> cs_last c \<le> 256"

definition chunk_octets :: "ChunkStream \<Rightarrow> octets" where
  "chunk_octets c = drop (cs_first c) (take (cs_last c) (cs_data c))"

definition stream_addrs :: "'a DataStream_scheme \<Rightarrow> nat list" where
  "stream_addrs s = (case ds_firstBuf s of None \<Rightarrow> [] | Some a \<Rightarrow> [a]) @ ds_bufQ s"

definition octets_at :: "(nat \<rightharpoonup> ChunkStream) \<Rightarrow> nat list \<Rightarrow> octets" where
  "octets_at h as = concat (map (\<lambda>a. case h a of None \<Rightarrow> [] | Some c \<Rightarrow> chunk_octets c) as)"

definition stream_octets :: "'a DataStream_scheme \<Rightarrow> octets" where
  "stream_octets s = octets_at (ds_chunks s) (stream_addrs s)"

text \<open>
  The chunks of the queue are exactly the allocated ones; all but the last are full, and so is the
  last unless \<^verbatim>\<open>lastBuf\<close> points to it.
\<close>

definition chunks_ok :: "(nat \<rightharpoonup> ChunkStream) \<Rightarrow> nat \<Rightarrow> nat list \<Rightarrow> nat option \<Rightarrow> bool" where
  "chunks_ok h n as l \<longleftrightarrow> distinct as \<and> dom h = set as \<and> (\<forall>a\<in>set as. a < n) \<and>
     (\<forall>c\<in>ran h. chunk_ok c) \<and>
     (\<forall>a c. a \<in> set as \<longrightarrow> h a = Some c \<longrightarrow> cs_last c = 256 \<or> l = Some a) \<and>
     (\<forall>a. l = Some a \<longrightarrow> as \<noteq> [] \<and> last as = a)"

definition stream_wf :: "'a DataStream_scheme \<Rightarrow> bool" where
  "stream_wf s \<longleftrightarrow> chunks_ok (ds_chunks s) (ds_fresh s) (stream_addrs s) (ds_lastBuf s)"

definition stream_ok :: "'a DataStream_scheme \<Rightarrow> bool" where
  "stream_ok s \<longleftrightarrow> stream_wf s \<and> ds_busy s = int (length (stream_octets s))"

text \<open>What writing and reading leave alone.\<close>

definition stream_same :: "'a DataStream_scheme \<Rightarrow> 'a DataStream_scheme \<Rightarrow> bool" where
  "stream_same s s' \<longleftrightarrow> ds_threshold s' = ds_threshold s \<and> ds_eof s' = ds_eof s \<and> ds_diag s' = ds_diag s \<and>
     DataStream.more s' = DataStream.more s"

lemma stream_same_refl [simp]: "stream_same s s"
  by (simp add: stream_same_def)

lemma stream_same_trans: "stream_same s s' \<Longrightarrow> stream_same s' s'' \<Longrightarrow> stream_same s s''"
  by (simp add: stream_same_def)

lemma busy_simps [simp]:
  "stream_wf (s\<lparr>ds_busy := n\<rparr>) = stream_wf s" "stream_octets (s\<lparr>ds_busy := n\<rparr>) = stream_octets s"
  "stream_same s0 (s\<lparr>ds_busy := n\<rparr>) = stream_same s0 s"
  by (simp_all add: stream_wf_def stream_octets_def stream_addrs_def stream_same_def)

lemma octets_at_simps [simp]:
  "octets_at h [] = []" "octets_at h (as @ bs) = octets_at h as @ octets_at h bs"
  "h a = Some c \<Longrightarrow> octets_at h (a # as) = chunk_octets c @ octets_at h as"
  by (simp_all add: octets_at_def)

lemma octets_at_other [simp]: "a \<notin> set as \<Longrightarrow> octets_at (h(a := v)) as = octets_at h as"
  by (induction as) (auto simp: octets_at_def)

lemma chunk_octets_new [simp]: "chunk_octets ChunkStream_new = []" "chunk_ok ChunkStream_new"
  by (simp_all add: chunk_octets_def chunk_ok_def ChunkStream_new_def)

lemma chunk_write:
  assumes "chunk_ok c" "cs_last c \<noteq> 256" "buf \<noteq> []"
  obtains n c' where "ChunkStream_write c buf = Some (int n, c')" "chunk_ok c'" "0 < n" "n \<le> length buf"
    "chunk_octets c' = chunk_octets c @ take n buf"
proof -
  let ?n = "min (256 - cs_last c) (length buf)"
  let ?c = "c\<lparr>cs_data := take (cs_last c) (cs_data c) @ take ?n buf @ drop (cs_last c + ?n) (cs_data c),
    cs_last := cs_last c + ?n\<rparr>"
  have len: "(if 256 - int (cs_last c) > int (length buf) then int (length buf) else 256 - int (cs_last c)) = int ?n"
    using assms(1) by (auto simp: chunk_ok_def of_nat_diff)
  have "ChunkStream_write c buf = Some (int ?n, ?c)"
    using assms unfolding ChunkStream_write_def Let_def len by (auto simp: chunk_ok_def min_def)
  moreover have "chunk_octets ?c = chunk_octets c @ take ?n buf"
    using assms(1) by (simp add: chunk_octets_def chunk_ok_def)
  moreover have "chunk_ok ?c" "0 < ?n" "?n \<le> length buf"
    using assms by (auto simp: chunk_ok_def)
  ultimately show ?thesis
    using that by blast
qed

lemma chunk_read:
  assumes "chunk_ok c" "cs_first c \<noteq> 256"
  obtains n c' where "ChunkStream_read c k = Some (int n, take n (chunk_octets c), c')" "chunk_ok c'"
    "n = min k (length (chunk_octets c))" "chunk_octets c' = drop n (chunk_octets c)" "cs_last c' = cs_last c"
proof -
  let ?n = "min k (cs_last c - cs_first c)"
  let ?c = "c\<lparr>cs_first := cs_first c + ?n\<rparr>"
  have len: "(if int (cs_last c) - int (cs_first c) > int k then int k else int (cs_last c) - int (cs_first c)) = int ?n"
    using assms(1) by (auto simp: chunk_ok_def)
  have "ChunkStream_read c k = Some (int ?n, take ?n (chunk_octets c), ?c)"
    using assms unfolding ChunkStream_read_def Let_def len by (auto simp: chunk_ok_def chunk_octets_def drop_take)
  moreover have "chunk_ok ?c" "?n = min k (length (chunk_octets c))" "chunk_octets ?c = drop ?n (chunk_octets c)"
    using assms(1) by (auto simp: chunk_ok_def chunk_octets_def drop_take add.commute)
  ultimately show ?thesis
    using that by simp
qed

section \<open>Writing\<close>

lemma chunks_okD:
  assumes "chunks_ok h n as l" "a \<in> set as"
  obtains c where "h a = Some c" "chunk_ok c" "cs_last c = 256 \<or> l = Some a" "a < n"
  using assms unfolding chunks_ok_def by (metis domD ranI)

lemma chunks_ok_update:
  assumes "chunks_ok h n as l" "l = Some a" "chunk_ok c"
  shows "chunks_ok (h(a \<mapsto> c)) n as l"
  using assms unfolding chunks_ok_def by (auto simp: ran_def)

lemma chunks_ok_release:
  assumes "chunks_ok h n as l" "l = Some a" "h a = Some c" "cs_last c = 256"
  shows "chunks_ok h n as None"
  using assms unfolding chunks_ok_def by (metis option.inject option.simps(3))

lemma chunks_ok_enqueue:
  assumes "chunks_ok h n as None"
  shows "chunks_ok (h(n \<mapsto> ChunkStream_new)) (n + 1) (as @ [n]) (Some n)"
  using assms unfolding chunks_ok_def by (auto simp: ran_def dest: less_imp_neq)

lemma enqueue_chunk_wf:
  assumes "stream_wf s" "ds_lastBuf s = None"
  shows "stream_wf (enqueue_chunk s)" "stream_octets (enqueue_chunk s) = stream_octets s"
    "stream_same s (enqueue_chunk s)" "ds_busy (enqueue_chunk s) = ds_busy s"
    "ds_chunks (enqueue_chunk s) (ds_fresh s) = Some ChunkStream_new" "ds_lastBuf (enqueue_chunk s) = Some (ds_fresh s)"
proof -
  have addrs: "stream_addrs (enqueue_chunk s) = stream_addrs s @ [ds_fresh s]"
    by (simp add: stream_addrs_def enqueue_chunk_def)
  have new: "ds_fresh s \<notin> set (stream_addrs s)"
    using assms(1) by (auto simp: stream_wf_def chunks_ok_def)
  show "stream_wf (enqueue_chunk s)"
    using chunks_ok_enqueue [of "ds_chunks s"] assms unfolding stream_wf_def addrs by (simp add: enqueue_chunk_def)
  show "stream_octets (enqueue_chunk s) = stream_octets s"
    using new unfolding stream_octets_def addrs by (simp add: enqueue_chunk_def)
qed (simp_all add: enqueue_chunk_def stream_same_def)

definition wrote :: "'a DataStream_scheme \<Rightarrow> octets \<Rightarrow> 'a DataStream_scheme \<Rightarrow> bool" where
  "wrote s xs s' \<longleftrightarrow> stream_wf s' \<and> stream_octets s' = stream_octets s @ xs \<and> stream_same s s' \<and> ds_busy s' = ds_busy s"

lemma wrote_trans: "wrote s xs s' \<Longrightarrow> wrote s' ys s'' \<Longrightarrow> wrote s (xs @ ys) s''"
  using stream_same_trans by (auto simp: wrote_def)

lemma put_last:
  assumes wf: "stream_wf s" and l: "ds_lastBuf s = Some a" and buf: "buf \<noteq> []" and c: "ds_chunks s a = Some c"
  shows "(cs_last c = 256 \<longrightarrow> (\<exists>s'. put_step s buf = Some (-1, s') \<and> wrote s [] s' \<and> ds_lastBuf s' = None)) \<and>
    (cs_last c \<noteq> 256 \<longrightarrow> (\<exists>n s'. put_step s buf = Some (int n, s') \<and> wrote s (take n buf) s' \<and> 0 < n \<and> n \<le> length buf))"
proof (intro conjI impI)
  have ok: "chunks_ok (ds_chunks s) (ds_fresh s) (stream_addrs s) (Some a)"
    using wf l by (simp add: stream_wf_def)
  then have a: "a \<in> set (stream_addrs s)" "chunk_ok c"
    using c by (auto simp: chunks_ok_def ranI)
  obtain as where as: "stream_addrs s = as @ [a]" "a \<notin> set as"
  proof
    show "stream_addrs s = butlast (stream_addrs s) @ [a]"
      using ok append_butlast_last_id [of "stream_addrs s"] by (simp add: chunks_ok_def)
    then show "a \<notin> set (butlast (stream_addrs s))"
      using ok unfolding chunks_ok_def by (metis distinct_append disjoint_insert(1) list.simps(15))
  qed
  show "\<exists>s'. put_step s buf = Some (-1, s') \<and> wrote s [] s' \<and> ds_lastBuf s' = None" if "cs_last c = 256"
  proof -
    have "put_step s buf = Some (-1, s\<lparr>ds_lastBuf := None\<rparr>)"
      using that l c by (simp add: put_step_def ChunkStream_write_def fun_upd_idem)
    moreover have "wrote s [] (s\<lparr>ds_lastBuf := None\<rparr>)"
      using chunks_ok_release [OF ok refl c that]
      by (simp add: wrote_def stream_wf_def stream_octets_def stream_addrs_def stream_same_def)
    ultimately show ?thesis
      by auto
  qed
  show "\<exists>n s'. put_step s buf = Some (int n, s') \<and> wrote s (take n buf) s' \<and> 0 < n \<and> n \<le> length buf" if full: "cs_last c \<noteq> 256"
  proof -
    obtain n c' where n: "ChunkStream_write c buf = Some (int n, c')" "chunk_ok c'" "0 < n" "n \<le> length buf"
      "chunk_octets c' = chunk_octets c @ take n buf"
      using chunk_write [OF a(2) full buf] .
    let ?s = "s\<lparr>ds_chunks := (ds_chunks s)(a \<mapsto> c')\<rparr>"
    have "put_step s buf = Some (int n, ?s)"
      using l c n(1) by (simp add: put_step_def)
    moreover have "stream_addrs ?s = stream_addrs s"
      by (simp add: stream_addrs_def)
    then have "wrote s (take n buf) ?s"
      using chunks_ok_update [OF ok refl n(2)] as c n(5) l by (simp add: wrote_def stream_wf_def stream_octets_def stream_same_def)
    ultimately show ?thesis
      using n(3,4) by blast
  qed
qed

lemma put_step_spec:
  assumes "stream_wf s" "buf \<noteq> []"
  shows "(\<exists>s'. put_step s buf = Some (-1, s') \<and> wrote s [] s' \<and> ds_lastBuf s' = None \<and> ds_lastBuf s \<noteq> None) \<or>
    (\<exists>n s'. put_step s buf = Some (int n, s') \<and> wrote s (take n buf) s' \<and> 0 < n \<and> n \<le> length buf)"
proof (cases "ds_lastBuf s")
  case None
  note new = enqueue_chunk_wf [OF assms(1) None]
  have "put_step s buf = put_step (enqueue_chunk s) buf"
    using None new(6) by (simp add: put_step_def)
  moreover have "wrote s [] (enqueue_chunk s)"
    using new by (simp add: wrote_def)
  ultimately show ?thesis
    using put_last [OF new(1,6) assms(2) new(5)] wrote_trans by (fastforce simp: ChunkStream_new_def)
next
  case (Some a)
  then obtain c where "ds_chunks s a = Some c"
    using assms(1) unfolding stream_wf_def chunks_ok_def by (metis domD last_in_set)
  then show ?thesis
    using put_last [OF assms(1) Some assms(2)] Some by fastforce
qed

lemma put_loop_spec:
  "stream_wf s \<Longrightarrow> \<exists>s'. put_loop s buf k = Some (k + int (length buf), s') \<and> wrote s buf s'"
proof (induction "2 * length buf + (if ds_lastBuf s = None then 0 else 1)" arbitrary: s buf k rule: less_induct)
  case less
  show ?case
  proof (cases "buf = []")
    case True
    then show ?thesis
      using less.prems by (subst put_loop.simps) (simp add: wrote_def)
  next
    case False
    from put_step_spec [OF less.prems False] show ?thesis
    proof (elim disjE exE conjE)
      fix s1 assume s1: "put_step s buf = Some (-1, s1)" "wrote s [] s1" "ds_lastBuf s1 = None" "ds_lastBuf s \<noteq> None"
      then obtain s' where "put_loop s1 buf k = Some (k + int (length buf), s')" "wrote s1 buf s'"
        using less.hyps [of buf s1 k] by (auto simp: wrote_def)
      then show ?thesis
        using False s1(1) wrote_trans [OF s1(2)] by (subst put_loop.simps) auto
    next
      fix n s1 assume s1: "put_step s buf = Some (int n, s1)" "wrote s (take n buf) s1" "0 < n" "n \<le> length buf"
      then have "2 * length (drop n buf) + (if ds_lastBuf s1 = None then 0 else 1) <
          2 * length buf + (if ds_lastBuf s = None then 0 else 1)" "stream_wf s1"
        by (auto simp: wrote_def)
      then obtain s' where "put_loop s1 (drop n buf) (k + int n) = Some (k + int n + int (length (drop n buf)), s')"
        "wrote s1 (drop n buf) s'"
        using less.hyps by blast
      then show ?thesis
        using False s1 wrote_trans [OF s1(2)] by (subst put_loop.simps) fastforce
    qed
  qed
qed

lemma PutData_spec:
  assumes "stream_ok s"
  shows "\<exists>s'. PutData s xs = Some (if ds_eof s then -1 else int (length xs), s') \<and> stream_ok s' \<and> stream_same s s' \<and>
    stream_octets s' = (if ds_eof s then stream_octets s else stream_octets s @ xs)"
proof (cases "ds_eof s")
  case False
  obtain s' where "put_loop s xs 0 = Some (int (length xs), s')" "wrote s xs s'"
    using put_loop_spec [of s xs 0] assms by (auto simp: stream_ok_def)
  then show ?thesis
    using False assms by (simp add: PutData_def wrote_def stream_ok_def)
qed (use assms in \<open>simp add: PutData_def\<close>)

section \<open>Reading\<close>

definition took :: "'a DataStream_scheme \<Rightarrow> octets \<Rightarrow> 'a DataStream_scheme \<Rightarrow> bool" where
  "took s xs s' \<longleftrightarrow> stream_wf s' \<and> stream_octets s = xs @ stream_octets s' \<and> stream_same s s' \<and> ds_busy s' = ds_busy s"

lemma took_trans: "took s xs s' \<Longrightarrow> took s' ys s'' \<Longrightarrow> took s (xs @ ys) s''"
  using stream_same_trans by (auto simp: took_def)

lemma took_rest: "took s (take n (stream_octets s)) s' \<Longrightarrow> stream_octets s' = drop n (stream_octets s)"
  unfolding took_def by (metis append_take_drop_id same_append_eq)

lemma chunks_ok_read:
  assumes "chunks_ok h n as l" "h a = Some c" "chunk_ok c'" "cs_last c' = cs_last c"
  shows "chunks_ok (h(a \<mapsto> c')) n as l"
  using assms unfolding chunks_ok_def by (auto simp: ran_def)

lemma chunks_ok_delete:
  assumes "chunks_ok h n (a # as) l"
  shows "chunks_ok (h(a := None)) n as (if as = [] then None else l)"
  using assms unfolding chunks_ok_def by (auto simp: ran_def split: if_splits)

text \<open>The stream with the oldest chunk taken from the queue.\<close>

definition next_first :: "'a DataStream_scheme \<Rightarrow> 'a DataStream_scheme" where
  "next_first s =
     (case (ds_firstBuf s, ds_bufQ s) of (None, a # q) \<Rightarrow> s\<lparr>ds_firstBuf := Some a, ds_bufQ := q\<rparr> | _ \<Rightarrow> s)"

lemma next_first_same:
  "stream_addrs (next_first s) = stream_addrs s" "stream_wf (next_first s) = stream_wf s"
  "stream_octets (next_first s) = stream_octets s" "stream_same (next_first s) s' = stream_same s s'"
  "ds_busy (next_first s) = ds_busy s"
  by (auto simp: next_first_def stream_addrs_def stream_wf_def stream_octets_def stream_same_def octets_at_def
      split: option.split list.split)

lemma next_first_cases:
  obtains "ds_firstBuf (next_first s) = None" "stream_addrs s = []"
  | a where "ds_firstBuf (next_first s) = Some a" "stream_addrs s = a # ds_bufQ (next_first s)"
  by (cases "ds_firstBuf s"; cases "ds_bufQ s") (auto simp: next_first_def stream_addrs_def)

lemma get_step_next_first:
  "get_step s k = (let s = next_first s in
     case ds_firstBuf s of None \<Rightarrow> Some (0, [], s\<lparr>ds_lastBuf := None\<rparr>)
     | Some a \<Rightarrow> do {
         c \<leftarrow> ds_chunks s a;
         (len, out, c) \<leftarrow> ChunkStream_read c k;
         Some (len, out,
           if len < 0 then s\<lparr>ds_chunks := (ds_chunks s)(a := None), ds_firstBuf := None\<rparr>
           else s\<lparr>ds_chunks := (ds_chunks s)(a \<mapsto> c)\<rparr>)
       })"
  by (simp only: get_step_def next_first_def)

text \<open>
  After the last chunk has been deleted \<^verbatim>\<open>lastBuf\<close> still points to it until the next round; the
  invariant then holds for the stream with this pointer cleared.
\<close>

definition clear_last :: "'a DataStream_scheme \<Rightarrow> 'a DataStream_scheme" where
  "clear_last s = (if stream_addrs s = [] then s\<lparr>ds_lastBuf := None\<rparr> else s)"

definition took_part :: "'a DataStream_scheme \<Rightarrow> octets \<Rightarrow> 'a DataStream_scheme \<Rightarrow> bool" where
  "took_part s xs s' \<longleftrightarrow> stream_wf (clear_last s') \<and> stream_octets s = xs @ stream_octets s' \<and> stream_same s s' \<and> ds_busy s' = ds_busy s"

lemma clear_last_simps [simp]:
  "stream_addrs (clear_last s) = stream_addrs s" "stream_octets (clear_last s) = stream_octets s"
  "stream_same s0 (clear_last s) = stream_same s0 s" "ds_busy (clear_last s) = ds_busy s" "ds_chunks (clear_last s) = ds_chunks s"
  by (simp_all add: clear_last_def stream_addrs_def stream_octets_def stream_same_def)

definition step_left :: "'a DataStream_scheme \<Rightarrow> nat \<Rightarrow> bool" where
  "step_left s k \<longleftrightarrow> (\<exists>s'. get_step s k = Some (0, [], s') \<and> took s [] s' \<and> stream_octets s = [])"

definition step_freed :: "'a DataStream_scheme \<Rightarrow> nat \<Rightarrow> bool" where
  "step_freed s k \<longleftrightarrow> (\<exists>s'. get_step s k = Some (-1, [], s') \<and> took_part s [] s' \<and>
     length (stream_addrs s') < length (stream_addrs s))"

definition step_read :: "'a DataStream_scheme \<Rightarrow> nat \<Rightarrow> bool" where
  "step_read s k \<longleftrightarrow> (\<exists>n s'. get_step s k = Some (int n, take n (stream_octets s), s') \<and> 0 < n \<and> n \<le> k \<and>
     n \<le> length (stream_octets s) \<and> took s (take n (stream_octets s)) s' \<and>
     length (stream_addrs s') \<le> length (stream_addrs s))"

lemma get_step_chunk:
  assumes wf: "stream_wf s" and first: "ds_firstBuf s = Some a" and k: "0 < k"
  shows "step_left s k \<or> step_freed s k \<or> step_read s k"
proof -
  let ?h = "ds_chunks s" and ?q = "ds_bufQ s"
  have addrs: "stream_addrs s = a # ?q" and nf: "next_first s = s"
    using first by (simp_all add: stream_addrs_def next_first_def)
  have ok: "chunks_ok ?h (ds_fresh s) (a # ?q) (ds_lastBuf s)"
    using wf by (simp add: stream_wf_def addrs)
  obtain c where c: "?h a = Some c" "chunk_ok c" "cs_last c = 256 \<or> ds_lastBuf s = Some a"
    using chunks_okD [OF ok, of a] by auto
  have a: "a \<notin> set ?q"
    using ok by (simp add: chunks_ok_def)
  have octets: "stream_octets s = chunk_octets c @ octets_at ?h ?q"
    using c(1) by (simp add: stream_octets_def addrs)
  show ?thesis
  proof (cases "cs_first c = 256")
    case True
    let ?s = "s\<lparr>ds_chunks := ?h(a := None), ds_firstBuf := None\<rparr>"
    have "get_step s k = Some (-1, [], ?s)"
      using True c(1) first by (simp add: get_step_next_first nf ChunkStream_read_def)
    moreover have "stream_addrs ?s = ?q"
      by (simp add: stream_addrs_def)
    moreover have "chunk_octets c = []"
      using True c(2) by (simp add: chunk_octets_def chunk_ok_def)
    moreover have "stream_wf (clear_last ?s)"
      using chunks_ok_delete [OF ok] by (auto simp: stream_wf_def clear_last_def stream_addrs_def)
    ultimately have "step_freed s k"
      using a by (simp add: step_freed_def took_part_def octets addrs stream_same_def) (simp add: stream_octets_def)
    then show ?thesis
      by blast
  next
    case False
    obtain n c' where n: "ChunkStream_read c k = Some (int n, take n (chunk_octets c), c')" "chunk_ok c'"
      "n = min k (length (chunk_octets c))" "chunk_octets c' = drop n (chunk_octets c)" "cs_last c' = cs_last c"
      using chunk_read [OF c(2) False] .
    let ?s = "s\<lparr>ds_chunks := ?h(a \<mapsto> c')\<rparr>"
    have step: "get_step s k = Some (int n, take n (stream_octets s), ?s)"
      using n(1,3) c(1) first by (simp add: get_step_next_first nf octets)
    have addrs': "stream_addrs ?s = a # ?q"
      using first by (simp add: stream_addrs_def)
    have took: "took s (take n (stream_octets s)) ?s"
    proof -
      have "stream_octets ?s = drop n (chunk_octets c) @ octets_at ?h ?q"
        using n(4) a by (simp add: stream_octets_def addrs')
      then have "stream_octets s = take n (stream_octets s) @ stream_octets ?s"
        using n(3) by (simp add: octets)
      then show ?thesis
        using chunks_ok_read [OF ok c(1) n(2,5)] by (simp add: took_def stream_wf_def addrs' stream_same_def)
    qed
    show ?thesis
    proof (cases "n = 0")
      case True
      then have empty: "chunk_octets c = []"
        using n(3) k by (auto simp: min_def split: if_splits)
      then have "ds_lastBuf s = Some a"
        using False c(2,3) by (auto simp: chunk_octets_def chunk_ok_def)
      then have "?q = []"
        using ok a by (auto simp: chunks_ok_def split: if_splits dest: last_in_set)
      then show ?thesis
        using True step took empty by (simp add: step_left_def octets)
    next
      case False
      then show ?thesis
        using step took n(3) addrs addrs' by (auto simp: step_read_def octets)
    qed
  qed
qed

lemma get_step_spec:
  assumes "stream_wf (clear_last s)" "0 < k"
  shows "step_left s k \<or> step_freed s k \<or> step_read s k"
proof (cases rule: next_first_cases [of s])
  case 1
  then have "get_step s k = Some (0, [], (next_first s)\<lparr>ds_lastBuf := None\<rparr>)" "next_first s = s"
    by (auto simp: get_step_next_first next_first_def stream_addrs_def split: option.splits list.splits)
  moreover have "stream_wf (s\<lparr>ds_lastBuf := None\<rparr>)" "stream_octets (s\<lparr>ds_lastBuf := None\<rparr>) = stream_octets s" "stream_octets s = []"
    using assms(1) 1(2) by (simp_all add: clear_last_def stream_octets_def) (simp add: stream_addrs_def)
  ultimately have "step_left s k"
    by (simp add: step_left_def took_def stream_same_def)
  then show ?thesis ..
next
  case (2 a)
  then have "stream_wf (next_first s)"
    using assms(1) by (simp add: next_first_same clear_last_def)
  moreover have "get_step (next_first s) k = get_step s k"
    using 2(1) by (simp add: get_step_next_first) (simp add: next_first_def)
  ultimately show ?thesis
    using get_step_chunk [of "next_first s" a k] 2(1) assms(2)
    by (simp add: step_left_def step_freed_def step_read_def took_def took_part_def next_first_same)
qed

lemma stream_wf_clear_last: "stream_wf s \<Longrightarrow> clear_last s = s"
  by (cases "ds_lastBuf s") (auto simp: clear_last_def stream_wf_def chunks_ok_def)

lemma get_loop_spec:
  assumes "stream_wf (clear_last s)" "0 < k \<or> stream_wf s"
  shows "\<exists>s'. get_loop s k out = Some (out @ take k (stream_octets s), s') \<and> took s (take k (stream_octets s)) s'"
  using assms
proof (induction "k + length (stream_addrs s)" arbitrary: s k out rule: less_induct)
  case less
  show ?case
  proof (cases "k = 0")
    case True
    then show ?thesis
      using less.prems by (subst get_loop.simps) (simp add: took_def)
  next
    case False
    then consider "step_left s k" | "step_freed s k" | "step_read s k"
      using get_step_spec [OF less.prems(1)] by auto
    then show ?thesis
    proof cases
      case 1
      then show ?thesis
        using False by (subst get_loop.simps) (auto simp: step_left_def)
    next
      case 2
      then obtain s1 where s1: "get_step s k = Some (-1, [], s1)" "took_part s [] s1"
        "length (stream_addrs s1) < length (stream_addrs s)"
        by (auto simp: step_freed_def)
      then obtain s' where "get_loop s1 k out = Some (out @ take k (stream_octets s1), s')"
        "took s1 (take k (stream_octets s1)) s'"
        using less.hyps [of k s1 out] False by (auto simp: took_part_def)
      then show ?thesis
        using False s1(1,2) stream_same_trans [of s s1 s'] by (subst get_loop.simps) (simp add: took_def took_part_def)
    next
      case 3
      then obtain n s1 where s1: "get_step s k = Some (int n, take n (stream_octets s), s1)" "0 < n" "n \<le> k"
        "n \<le> length (stream_octets s)" "took s (take n (stream_octets s)) s1" "length (stream_addrs s1) \<le> length (stream_addrs s)"
        by (auto simp: step_read_def)
      then have wf: "stream_wf s1" and rest: "stream_octets s1 = drop n (stream_octets s)"
        using took_rest by (auto simp: took_def)
      have "k - n + length (stream_addrs s1) < k + length (stream_addrs s)"
        using s1(2,3,6) by linarith
      then obtain s' where "get_loop s1 (k - n) (out @ take n (stream_octets s)) =
          Some ((out @ take n (stream_octets s)) @ take (k - n) (stream_octets s1), s')"
        "took s1 (take (k - n) (stream_octets s1)) s'"
        using less.hyps wf stream_wf_clear_last by metis
      then show ?thesis
        using False s1(1-3) took_trans [OF s1(5)] take_add [of n "k - n" "stream_octets s"]
        by (subst get_loop.simps) (simp add: rest)
    qed
  qed
qed

lemma GetData_spec:
  assumes "stream_ok s"
  shows "\<exists>s'. GetData s k = Some (if stream_octets s = [] then if ds_eof s then -1 else 0 else int (length (take k (stream_octets s))),
      take k (stream_octets s), s') \<and>
    stream_ok s' \<and> stream_same s s' \<and> stream_octets s' = drop k (stream_octets s)"
proof (cases "stream_octets s = []")
  case True
  then show ?thesis
    using assms by (simp add: GetData_def stream_ok_def)
next
  case False
  obtain s' where "get_loop s k [] = Some (take k (stream_octets s), s')" "took s (take k (stream_octets s)) s'"
    using get_loop_spec [of s k "[]"] assms stream_wf_clear_last [of s] by (auto simp: stream_ok_def)
  moreover from this have "stream_octets s' = drop k (stream_octets s)"
    using took_rest by blast
  ultimately show ?thesis
    using False assms by (auto simp: GetData_def took_def stream_ok_def)
qed

lemma stream_ok_new: "stream_ok (DataStream_new n)" "stream_octets (DataStream_new n) = []"
  by (simp_all add: stream_ok_def stream_wf_def chunks_ok_def stream_octets_def stream_addrs_def DataStream_new_def ran_def)

lemma stream_ok_eof [simp]:
  "stream_ok (PutEof s) = stream_ok s" "stream_octets (PutEof s) = stream_octets s"
  by (simp_all add: PutEof_def stream_ok_def stream_wf_def stream_octets_def stream_addrs_def)

lemma Clean_spec:
  assumes "stream_ok s"
  shows "stream_ok (Clean s)" "stream_octets (Clean s) = []" "ds_chunks (Clean s) = Map.empty" "\<not> ds_eof (Clean s)"
proof -
  have "dom (ds_chunks s) = set (stream_addrs s)"
    using assms by (simp add: stream_ok_def stream_wf_def chunks_ok_def)
  then have "ds_chunks s a = None" if "a \<notin> set (ds_bufQ s)" "ds_firstBuf s \<noteq> Some a" for a
  proof -
    have "a \<notin> set (stream_addrs s)"
      using that by (auto simp: stream_addrs_def split: option.splits)
    then show ?thesis
      using \<open>dom (ds_chunks s) = set (stream_addrs s)\<close> by (metis domIff)
  qed
  then show empty: "ds_chunks (Clean s) = Map.empty"
    by (auto simp: Clean_def)
  show "stream_octets (Clean s) = []" "\<not> ds_eof (Clean s)"
    by (simp_all add: Clean_def stream_octets_def stream_addrs_def)
  then show "stream_ok (Clean s)"
    using empty by (simp add: stream_ok_def stream_wf_def chunks_ok_def stream_addrs_def Clean_def)
qed

section \<open>What clients rely on\<close>

text \<open>A stream as a list of octets with an end mark, and the results of its operations.\<close>

datatype stream_op = Put octets | Get nat | Eof | Clean_all

fun spec_do :: "stream_op \<Rightarrow> octets \<times> bool \<Rightarrow> (int \<times> octets) \<times> octets \<times> bool" where
  "spec_do (Put xs) (q, e) = (if e then ((-1, []), q, e) else ((int (length xs), []), q @ xs, e))"
| "spec_do (Get n) (q, e) =
     ((if q = [] then if e then -1 else 0 else int (length (take n q)), take n q), drop n q, e)"
| "spec_do Eof (q, e) = ((0, []), q, True)"
| "spec_do Clean_all (q, e) = ((0, []), [], False)"

fun spec_run :: "stream_op list \<Rightarrow> octets \<times> bool \<Rightarrow> (int \<times> octets) list" where
  "spec_run [] q = []"
| "spec_run (p # ps) q = fst (spec_do p q) # spec_run ps (snd (spec_do p q))"

fun stream_do :: "stream_op \<Rightarrow> DataStream \<Rightarrow> ((int \<times> octets) \<times> DataStream) option" where
  "stream_do (Put xs) s = do { (r, s) \<leftarrow> PutData s xs; Some ((r, []), s) }"
| "stream_do (Get n) s = do { (r, out, s) \<leftarrow> GetData s n; Some ((r, out), s) }"
| "stream_do Eof s = Some ((0, []), PutEof s)"
| "stream_do Clean_all s = Some ((0, []), Clean s)"

fun run_ops :: "(stream_op \<Rightarrow> 's \<Rightarrow> ((int \<times> octets) \<times> 's) option) \<Rightarrow> stream_op list \<Rightarrow> 's \<Rightarrow> ((int \<times> octets) list \<times> 's) option" where
  "run_ops f [] s = Some ([], s)"
| "run_ops f (p # ps) s = do { (r, s) \<leftarrow> f p s; (rs, s) \<leftarrow> run_ops f ps s; Some (r # rs, s) }"

locale octet_stream =
  fixes perform :: "stream_op \<Rightarrow> 's \<Rightarrow> ((int \<times> octets) \<times> 's) option"
    and ok :: "'s \<Rightarrow> bool" and contents :: "'s \<Rightarrow> octets" and ended :: "'s \<Rightarrow> bool"
  assumes operation: "ok s \<Longrightarrow> \<exists>r s'. perform p s = Some (r, s') \<and> ok s' \<and>
    spec_do p (contents s, ended s) = (r, contents s', ended s')"
begin

lemma run_refines:
  "ok s \<Longrightarrow> \<exists>s'. run_ops perform ps s = Some (spec_run ps (contents s, ended s), s') \<and> ok s'"
proof (induction ps arbitrary: s)
  case (Cons p ps)
  obtain r s1 where s1: "perform p s = Some (r, s1)" "ok s1" "spec_do p (contents s, ended s) = (r, contents s1, ended s1)"
    using operation [OF Cons.prems] by blast
  then show ?case
    using Cons.IH [OF s1(2)] by auto
qed simp

end

interpretation stream: octet_stream stream_do stream_ok stream_octets ds_eof
proof
  fix s :: DataStream and p
  assume ok: "stream_ok s"
  show "\<exists>r s'. stream_do p s = Some (r, s') \<and> stream_ok s' \<and>
      spec_do p (stream_octets s, ds_eof s) = (r, stream_octets s', ds_eof s')"
  proof (cases p)
    case (Put xs)
    then show ?thesis
      using PutData_spec [OF ok, of xs] by (auto simp: stream_same_def)
  next
    case (Get n)
    then show ?thesis
      using GetData_spec [OF ok, of n] by (auto simp: stream_same_def)
  next
    case Eof
    then show ?thesis
      using ok by (simp add: PutEof_def) (metis PutEof_def stream_ok_eof)
  next
    case Clean_all
    then show ?thesis
      using Clean_spec [OF ok] by auto
  qed
qed

text \<open>
  Claim C18. The stream behaves as a list of octets with an end mark: whatever operations are applied
  to a new stream, in whatever order, every one returns what it returns on the list. No access goes
  through a pointer to a deleted chunk or outside a chunk, and the loops end.
\<close>

theorem data_stream_refines_list:
  "\<exists>s'. run_ops stream_do ps (DataStream_new threshold) = Some (spec_run ps ([], False), s')"
  using stream.run_refines [OF stream_ok_new(1), of ps threshold] stream_ok_new(2) [of threshold]
  by (auto simp: DataStream_new_def)

end
