(* ===== verification/Dle.thy ===== *)
theory Dle
  imports Data_Stream Bit_Ops
begin

text \<open>
  The transparent data of the modem's serial interface, \<^verbatim>\<open>t38modem/dle.cxx\<close>: an octet stream whose data are
  written and read with DLE escapes, and with the bits of each octet reversed where the modem class asks
  for it. The class inherits from \<^verbatim>\<open>DataStream\<close>; its record extends that of the stream.
\<close>

section \<open>Model\<close>

definition ETX :: u8 where "ETX = 0x03"
definition DLE :: u8 where "DLE = 0x10"

fun rev_loop :: "nat \<Rightarrow> u32 \<Rightarrow> u32 \<Rightarrow> u32" where
  "rev_loop 0 inp out = out"
| "rev_loop (Suc j) inp out = rev_loop j (drop_bit 1 inp) (push_bit 1 out + (inp AND 1))"

definition BitRevTable :: octets where
  "BitRevTable = map (\<lambda>i. ucast (rev_loop 8 (of_nat i) 0)) [0..<256]"

definition bit_rev :: "u8 \<Rightarrow> u8" where
  "bit_rev b = BitRevTable ! unat b"

record DLEData = DataStream +
  dle_dle :: bool
  dle_recvEtx :: bool
  dle_bitRev :: bool

definition DLEData_new :: DLEData where
  "DLEData_new = DataStream.extend (DataStream_new 0) (DLEData.fields False False False)"

definition BitRev :: "DLEData \<Rightarrow> bool \<Rightarrow> DLEData" where
  "BitRev s b = s\<lparr>dle_bitRev := b\<rparr>"

definition DLEData_Clean :: "DLEData \<Rightarrow> DLEData" where
  "DLEData_Clean s = (Clean s)\<lparr>dle_dle := False, dle_recvEtx := False\<rparr>"

text \<open>The octets from \<open>p\<close> on, reversed and put in blocks of 1024.\<close>

function put_reversed :: "DLEData \<Rightarrow> octets \<Rightarrow> nat \<Rightarrow> DLEData option" where
  "put_reversed s p cPut =
     (if cPut = 0 then Some s
      else
        let cTmp = (if cPut > 1024 then 1024 else cPut)
        in do {
          (r, s) \<leftarrow> PutData s (map bit_rev (take cTmp p));
          put_reversed s p (cPut - cTmp)
        })"
  by pat_completeness auto
termination
  by (relation "measure (\<lambda>(s, p, cPut). cPut)") auto

definition put_run :: "DLEData \<Rightarrow> octets \<Rightarrow> nat \<Rightarrow> DLEData option" where
  "put_run s p cPut =
     (if cPut \<noteq> 0
      then if dle_bitRev s then put_reversed s p cPut
           else do { (r, s) \<leftarrow> PutData s (take cPut p); Some s }
      else Some s)"

fun memchr :: "u8 \<Rightarrow> octets \<Rightarrow> nat option" where
  "memchr c [] = None"
| "memchr c (x # xs) = (if x = c then Some 0 else map_option Suc (memchr c xs))"

text \<open>The loop of \<^verbatim>\<open>PutDleData\<close>, with the number of octets left.\<close>

function put_dle_loop :: "DLEData \<Rightarrow> octets \<Rightarrow> (nat \<times> DLEData) option" where
  "put_dle_loop s [] = Some (0, s)"
| "put_dle_loop s (b # rest) =
     (if dle_dle s \<and> b = ETX then Some (length rest, PutEof (s\<lparr>dle_dle := False\<rparr>))
      else
        let p = (if dle_dle s \<and> b \<noteq> DLE then rest else b # rest);
            skip = (if dle_dle s \<and> b = DLE then 1 else 0);
            pDle = memchr DLE (drop skip p);
            cPut = (case pDle of None \<Rightarrow> length p | Some k \<Rightarrow> skip + k);
            cDone = (case pDle of None \<Rightarrow> cPut | Some k \<Rightarrow> cPut + 1)
        in do {
          s \<leftarrow> put_run (s\<lparr>dle_dle := (pDle \<noteq> None)\<rparr>) p cPut;
          put_dle_loop s (drop cDone p)
        })"
  by pat_completeness auto
termination
  by (relation "measure (\<lambda>(s, p). length p)") (auto split: option.splits)

definition PutDleData :: "DLEData \<Rightarrow> octets \<Rightarrow> (int \<times> DLEData) option" where
  "PutDleData s buf = do {
     (r, s) \<leftarrow> PutData s [];
     if r < 0 then Some (-1, s)
     else do {
       (cRest, s) \<leftarrow> put_dle_loop s buf;
       Some (int (length buf) - int cRest, s)
     }
   }"

definition escaped :: "DLEData \<Rightarrow> u8 \<Rightarrow> octets" where
  "escaped s x = (let b = (if dle_bitRev s then bit_rev x else x) in if b = DLE then [DLE, b] else [b])"

partial_function (option) get_dle_loop :: "DLEData \<Rightarrow> nat \<Rightarrow> octets \<Rightarrow> (octets \<times> DLEData) option" where
  "get_dle_loop s count out =
     (if length out + 4 \<le> count
      then do {
        r \<leftarrow> GetData s (min 1024 ((count - length out - 2) div 2));
        if fst r = -1 then Some (out @ [DLE, ETX], (snd (snd r))\<lparr>dle_recvEtx := True\<rparr>)
        else if fst r = 0 then Some (out, snd (snd r))
        else get_dle_loop (snd (snd r)) count (out @ concat (map (escaped (snd (snd r))) (fst (snd r))))
      }
      else Some (out, s))"

definition GetDleData :: "DLEData \<Rightarrow> nat \<Rightarrow> (int \<times> octets \<times> DLEData) option" where
  "GetDleData s count =
     (if dle_recvEtx s then Some (-1, [], s)
      else do {
        (out, s) \<leftarrow> get_dle_loop s count [];
        Some (int (length out), out, s)
      })"

declare put_reversed.simps [simp del]

section \<open>Reversal\<close>

lemma bit_rev_table: "list_all (\<lambda>i. (ucast (rev_loop 8 (of_int i) 0) :: u8) = bit_reverse8 (of_int i)) [0..255]"
  by code_simp

lemma bit_rev_reverse8 [simp]: "bit_rev b = bit_reverse8 b"
proof -
  have b: "uint b \<in> set [0..255]" "unat b < 256"
    using uint_bounded [of b] unsigned_less [of b, where ?'a = nat] by simp_all
  have "(ucast (rev_loop 8 (of_int (uint b)) 0) :: u8) = bit_reverse8 (of_int (uint b))"
    by (rule bit_rev_table [unfolded list_all_iff, rule_format, OF b(1)])
  moreover have "(of_nat (unat b) :: u32) = of_int (uint b)"
    by (simp add: of_nat_unat)
  ultimately show ?thesis
    using b(2) by (simp add: bit_rev_def BitRevTable_def)
qed

lemma bit_rev_eq [simp]: "bit_rev = bit_reverse8"
  by (rule ext) simp

definition octet_order :: "bool \<Rightarrow> u8 \<Rightarrow> u8" where
  "octet_order r = (if r then bit_reverse8 else id)"

lemma octet_order_twice [simp]: "octet_order r (octet_order r b) = b"
  by (simp add: octet_order_def)

lemma escaped_order: "escaped s = (\<lambda>x. let b = octet_order (dle_bitRev s) x in if b = DLE then [DLE, DLE] else [b])"
  by (rule ext) (simp add: escaped_def octet_order_def Let_def)

section \<open>Escapes\<close>

text \<open>
  The octets with escapes as a specification. Reading gives the data, whether an escape is pending,
  whether the end was seen and the number of octets after it.
\<close>

definition dle_encode :: "bool \<Rightarrow> octets \<Rightarrow> octets" where
  "dle_encode r xs = concat (map (\<lambda>x. let b = octet_order r x in if b = DLE then [DLE, DLE] else [b]) xs)"

fun dle_scan :: "bool \<Rightarrow> octets \<Rightarrow> octets \<times> bool \<times> bool \<times> nat" where
  "dle_scan d [] = ([], d, False, 0)"
| "dle_scan False (b # bs) = (if b = DLE then dle_scan True bs else map_prod ((#) b) id (dle_scan False bs))"
| "dle_scan True (b # bs) =
     (if b = ETX then ([], False, True, length bs)
      else if b = DLE then map_prod ((#) b) id (dle_scan False bs) else dle_scan False bs)"

lemma dle_encode_simps [simp]:
  "dle_encode r [] = []" "dle_encode r (xs @ ys) = dle_encode r xs @ dle_encode r ys"
  by (simp_all add: dle_encode_def)

lemma map_prod_append [simp]:
  "map_prod ((@) []) id p = p" "map_prod ((@) xs) id (map_prod ((@) ys) id p) = map_prod ((@) (xs @ ys)) id p"
  "map_prod ((#) x) id (map_prod ((@) ys) id p) = map_prod ((@) (x # ys)) id p"
  by (cases p, simp)+

lemma ETX_DLE [simp]: "ETX \<noteq> DLE" "DLE \<noteq> ETX"
  by (simp_all add: ETX_def DLE_def)

lemma dle_scan_encode: "dle_scan False (dle_encode r xs @ ys) = map_prod ((@) (map (octet_order r) xs)) id (dle_scan False ys)"
proof (induction xs)
  case (Cons x xs)
  then show ?case
    by (simp add: dle_encode_def Let_def) (cases "dle_scan False ys"; simp)
qed simp

lemma dle_scan_no_dle: "memchr DLE xs = None \<Longrightarrow> dle_scan False xs = (xs, False, False, 0)"
  by (induction xs) (auto split: if_splits)

lemma dle_scan_to_dle:
  "memchr DLE xs = Some k \<Longrightarrow> dle_scan False xs = map_prod ((@) (take k xs)) id (dle_scan True (drop (Suc k) xs))"
proof (induction xs arbitrary: k)
  case (Cons x xs)
  then show ?case
    by (cases "dle_scan True (drop k xs)") (auto split: if_splits)
qed simp

lemma memchr_less: "memchr c xs = Some k \<Longrightarrow> k < length xs"
  by (induction xs arbitrary: k) (auto split: if_splits)

section \<open>Writing\<close>

definition dle_same :: "DLEData \<Rightarrow> DLEData \<Rightarrow> bool" where
  "dle_same s s' \<longleftrightarrow> dle_dle s' = dle_dle s \<and> dle_recvEtx s' = dle_recvEtx s \<and> dle_bitRev s' = dle_bitRev s \<and> ds_eof s' = ds_eof s"

lemma dle_same_stream: "stream_same s s' \<Longrightarrow> dle_same s s'" for s :: DLEData
  by (cases s; cases s') (simp add: stream_same_def dle_same_def)

lemma dle_fields [simp]:
  "stream_ok (s\<lparr>dle_dle := b\<rparr>) = stream_ok s" "stream_octets (s\<lparr>dle_dle := b\<rparr>) = stream_octets s"
  "stream_ok (s\<lparr>dle_recvEtx := b\<rparr>) = stream_ok s" "stream_octets (s\<lparr>dle_recvEtx := b\<rparr>) = stream_octets s"
  "stream_ok (s\<lparr>dle_bitRev := b\<rparr>) = stream_ok s" "stream_octets (s\<lparr>dle_bitRev := b\<rparr>) = stream_octets s"
  by (simp_all add: stream_ok_def stream_wf_def stream_octets_def stream_addrs_def)

lemma put_data:
  assumes "stream_ok s" "\<not> ds_eof s"
  obtains s' where "PutData s xs = Some (int (length xs), s')" "stream_ok s'" "dle_same s s'" "stream_octets s' = stream_octets s @ xs"
  using PutData_spec [OF assms(1), of xs] assms(2) dle_same_stream by auto

lemma put_run_spec:
  assumes "stream_ok s" "\<not> ds_eof s" "n \<le> length p" "dle_bitRev s \<Longrightarrow> n \<le> 1024"
  shows "\<exists>s'. put_run s p n = Some s' \<and> stream_ok s' \<and> dle_same s s' \<and>
    stream_octets s' = stream_octets s @ map (octet_order (dle_bitRev s)) (take n p)"
proof (cases "n = 0")
  case False
  obtain s' where "PutData s (map (octet_order (dle_bitRev s)) (take n p)) = Some (int n, s')" "stream_ok s'"
    "dle_same s s'" "stream_octets s' = stream_octets s @ map (octet_order (dle_bitRev s)) (take n p)"
    using put_data [OF assms(1,2), of "map (octet_order (dle_bitRev s)) (take n p)"] assms(3) by auto
  then show ?thesis
    using False assms(4)
    by (cases "dle_bitRev s") (simp_all add: put_run_def octet_order_def put_reversed.simps comp_def)
qed (use assms in \<open>simp add: put_run_def dle_same_def\<close>)

definition dle_put :: "DLEData \<Rightarrow> octets \<times> bool \<times> bool \<times> nat \<Rightarrow> DLEData \<Rightarrow> bool" where
  "dle_put s r s' \<longleftrightarrow> stream_ok s' \<and> dle_recvEtx s' = dle_recvEtx s \<and> dle_bitRev s' = dle_bitRev s \<and>
     stream_octets s' = stream_octets s @ map (octet_order (dle_bitRev s)) (fst r) \<and>
     dle_dle s' = fst (snd r) \<and> ds_eof s' = fst (snd (snd r))"

lemma dle_put_trans:
  assumes "dle_put s (xs, d, False, n) s'" "dle_put s' r s''"
  shows "dle_put s (map_prod ((@) xs) id r) s''"
  using assms by (simp add: dle_put_def)

lemma put_dle_loop_run:
  assumes ok: "stream_ok s" "\<not> ds_eof s" and len: "dle_bitRev s \<Longrightarrow> length p \<le> 1024" and k: "k \<le> length p"
  obtains s' where "put_run (s\<lparr>dle_dle := d\<rparr>) p k = Some s'" "dle_put s (take k p, d, False, 0) s'"
proof -
  have "dle_bitRev s \<Longrightarrow> k \<le> 1024"
    using len k by linarith
  then show ?thesis
    using put_run_spec [of "s\<lparr>dle_dle := d\<rparr>" k p] ok k that by (auto simp: dle_put_def dle_same_def)
qed

lemma put_dle_step:
  assumes ok: "stream_ok s" "\<not> ds_eof s" and len: "dle_bitRev s \<Longrightarrow> length (b # rest) \<le> 1024"
    and b: "\<not> (dle_dle s \<and> b = ETX)"
  obtains s1 xs q where "put_dle_loop s (b # rest) = put_dle_loop s1 q" "length q < length (b # rest)"
    "dle_put s (xs, dle_dle s1, False, 0) s1" "dle_scan (dle_dle s) (b # rest) = map_prod ((@) xs) id (dle_scan (dle_dle s1) q)"
proof -
  let ?p = "if dle_dle s \<and> b \<noteq> DLE then rest else b # rest" and ?skip = "if dle_dle s \<and> b = DLE then 1 else 0 :: nat"
  let ?r = "memchr DLE (drop ?skip ?p)"
  let ?put = "case ?r of None \<Rightarrow> length ?p | Some k \<Rightarrow> ?skip + k"
  let ?done = "case ?r of None \<Rightarrow> ?put | Some k \<Rightarrow> ?put + 1"
  have put: "?put \<le> length ?p"
    using memchr_less by (auto split: option.split dest!: memchr_less)
  have len': "length ?p \<le> 1024" if "dle_bitRev s"
    using len [OF that] by auto
  obtain s1 where s1: "put_run (s\<lparr>dle_dle := (?r \<noteq> None)\<rparr>) ?p ?put = Some s1" "dle_put s (take ?put ?p, ?r \<noteq> None, False, 0) s1"
    using put_dle_loop_run [OF ok len' put] .
  have d: "dle_dle s1 = (?r \<noteq> None)"
    using s1(2) by (simp add: dle_put_def)
  have loop: "put_dle_loop s (b # rest) = put_dle_loop s1 (drop ?done ?p)"
    using b s1(1) unfolding put_dle_loop.simps Let_def by (simp only: if_False) simp
  have scan: "dle_scan (dle_dle s) (b # rest) = map_prod ((@) (take ?put ?p)) id (dle_scan (dle_dle s1) (drop ?done ?p))"
  proof (cases ?r)
    case None
    then show ?thesis
      using b dle_scan_no_dle [of "drop ?skip ?p"] unfolding d by (cases "dle_dle s") (auto split: if_splits)
  next
    case (Some k)
    then show ?thesis
      using b dle_scan_to_dle [of "drop ?skip ?p" k] unfolding d by (cases "dle_dle s") (auto split: if_splits)
  qed
  have "length (drop ?done ?p) < length (b # rest)"
    using memchr_less by (auto split: option.split)
  then show ?thesis
    using that [OF loop _ _ scan] s1(2) d by simp
qed

lemma put_dle_loop_spec:
  assumes "stream_ok s" "\<not> ds_eof s" "dle_bitRev s \<Longrightarrow> length p \<le> 1024"
  shows "\<exists>s'. put_dle_loop s p = Some (snd (snd (snd (dle_scan (dle_dle s) p))), s') \<and> dle_put s (dle_scan (dle_dle s) p) s'"
  using assms
proof (induction p arbitrary: s rule: length_induct)
  case (1 p)
  show ?case
  proof (cases p)
    case Nil
    then show ?thesis
      using 1(2,3) by (simp add: dle_put_def)
  next
    case (Cons b rest)
    show ?thesis
    proof (cases "dle_dle s \<and> b = ETX")
      case True
      then show ?thesis
        using 1(2,3) Cons by (simp add: dle_put_def) (simp add: PutEof_def)
    next
      case False
      have len: "dle_bitRev s \<Longrightarrow> length (b # rest) \<le> 1024"
        using 1(4) Cons by simp
      obtain s1 xs q where q: "put_dle_loop s p = put_dle_loop s1 q" "length q < length p"
        "dle_put s (xs, dle_dle s1, False, 0) s1" "dle_scan (dle_dle s) p = map_prod ((@) xs) id (dle_scan (dle_dle s1) q)"
        unfolding Cons by (rule put_dle_step [OF 1(2,3) len False])
      have s1: "stream_ok s1" "\<not> ds_eof s1" "dle_bitRev s1 \<Longrightarrow> length q \<le> 1024"
        using q(2,3) 1(4) by (simp_all add: dle_put_def)
      obtain s' where "put_dle_loop s1 q = Some (snd (snd (snd (dle_scan (dle_dle s1) q))), s')"
        "dle_put s1 (dle_scan (dle_dle s1) q) s'"
        using 1(1) [rule_format, OF q(2) s1] by blast
      then show ?thesis
        using q(1,4) dle_put_trans [OF q(3)] by simp
    qed
  qed
qed

lemma PutDleData_spec:
  assumes "stream_ok s" "\<not> ds_eof s" "dle_bitRev s \<Longrightarrow> length buf \<le> 1024"
  shows "\<exists>s'. PutDleData s buf = Some (int (length buf) - int (snd (snd (snd (dle_scan (dle_dle s) buf)))), s') \<and>
    dle_put s (dle_scan (dle_dle s) buf) s'"
proof -
  obtain s1 where s1: "PutData s [] = Some (0, s1)" "stream_ok s1" "dle_same s s1" "stream_octets s1 = stream_octets s"
    using put_data [OF assms(1,2), of "[]"] by auto
  then have "\<not> ds_eof s1" "dle_bitRev s1 \<Longrightarrow> length buf \<le> 1024"
    using assms by (simp_all add: dle_same_def)
  from put_dle_loop_spec [OF s1(2) this] show ?thesis
    using s1 by (auto simp: PutDleData_def dle_same_def dle_put_def)
qed

section \<open>Reading\<close>

lemma length_dle_encode: "length (dle_encode r xs) \<le> 2 * length xs"
  by (induction xs) (auto simp: dle_encode_def Let_def)

lemma concat_escaped: "concat (map (escaped s) xs) = dle_encode (dle_bitRev s) xs"
  by (simp add: dle_encode_def escaped_order)

text \<open>The first \<open>n\<close> octets were taken, and the end was reached if \<open>e\<close>.\<close>

definition dle_got :: "DLEData \<Rightarrow> nat \<Rightarrow> bool \<Rightarrow> DLEData \<Rightarrow> bool" where
  "dle_got s n e s' \<longleftrightarrow> stream_ok s' \<and> n \<le> length (stream_octets s) \<and> stream_octets s' = drop n (stream_octets s) \<and>
     dle_bitRev s' = dle_bitRev s \<and> dle_dle s' = dle_dle s \<and> ds_eof s' = ds_eof s \<and> dle_recvEtx s' = (dle_recvEtx s \<or> e) \<and>
     (e \<longrightarrow> ds_eof s \<and> n = length (stream_octets s))"

definition dle_end :: "bool \<Rightarrow> octets" where
  "dle_end e = (if e then [DLE, ETX] else [])"

lemma dle_got_trans:
  assumes "dle_got s n False s1" "dle_got s1 m e s'"
  shows "dle_got s (n + m) e s'"
  using assms by (auto simp: dle_got_def add.commute)

lemma get_data:
  assumes "stream_ok s" "0 < k"
  obtains "stream_octets s = []" "GetData s k = Some (if ds_eof s then -1 else 0, [], s)"
  | n s' where "stream_octets s \<noteq> []" "GetData s k = Some (int n, take n (stream_octets s), s')" "0 < n" "n \<le> k" "dle_got s n False s'"
proof (cases "stream_octets s = []")
  case True
  then show ?thesis
    using assms that(1) by (simp add: GetData_def stream_ok_def)
next
  case False
  let ?n = "length (take k (stream_octets s))"
  obtain s' where "GetData s k = Some (int ?n, take k (stream_octets s), s')" "stream_ok s'" "stream_same s s'"
    "stream_octets s' = drop k (stream_octets s)"
    using GetData_spec [OF assms(1), of k] False by auto
  moreover have "take k (stream_octets s) = take ?n (stream_octets s)" "drop k (stream_octets s) = drop ?n (stream_octets s)"
    by (auto simp: min_def)
  ultimately have "GetData s k = Some (int ?n, take ?n (stream_octets s), s')" "dle_got s ?n False s'"
    using dle_same_stream [of s s'] by (auto simp: dle_got_def dle_same_def)
  then show ?thesis
    using that(2) [of ?n s'] False assms(2) by simp
qed

lemma get_dle_loop_spec:
  assumes "stream_ok s"
  shows "\<exists>n e s'. get_dle_loop s count out = Some (out @ dle_encode (dle_bitRev s) (take n (stream_octets s)) @ dle_end e, s') \<and>
    dle_got s n e s' \<and> (length out \<le> count \<longrightarrow> length (out @ dle_encode (dle_bitRev s) (take n (stream_octets s)) @ dle_end e) \<le> count) \<and>
    (length out + 4 \<le> count \<longrightarrow> 0 < n \<or> stream_octets s = [] \<and> e = ds_eof s)"
  using assms
proof (induction "length (stream_octets s)" arbitrary: s out rule: less_induct)
  case less
  let ?xs = "stream_octets s"
  let ?k = "min 1024 ((count - length out - 2) div 2)"
  show ?case
  proof (cases "length out + 4 \<le> count")
    case False
    then have "get_dle_loop s count out = Some (out @ dle_encode (dle_bitRev s) (take 0 ?xs) @ dle_end False, s)" "dle_got s 0 False s"
      using less.prems by (auto simp: dle_got_def dle_end_def get_dle_loop.simps)
    then show ?thesis
      using False by (intro exI [of _ 0] exI [of _ False] exI [of _ s]) (simp add: dle_end_def)
  next
    case True
    then have "0 < ?k" and k: "2 * ?k + 2 + length out \<le> count"
      by auto
    from less.prems this(1) show ?thesis
    proof (cases rule: get_data)
      case 1
      let ?s = "if ds_eof s then s\<lparr>dle_recvEtx := True\<rparr> else s"
      have "get_dle_loop s count out = Some (out @ dle_encode (dle_bitRev s) (take 0 ?xs) @ dle_end (ds_eof s), ?s)"
        using True 1(2) by (subst get_dle_loop.simps) (simp add: dle_end_def)
      moreover have "dle_got s 0 (ds_eof s) ?s"
        using less.prems 1(1) by (simp add: dle_got_def)
      ultimately show ?thesis
        using True 1(1) by (intro exI [of _ 0] exI [of _ "ds_eof s"] exI [of _ ?s]) (simp add: dle_end_def)
    next
      case (2 n s1)
      let ?out = "out @ dle_encode (dle_bitRev s) (take n ?xs)"
      have s1: "stream_octets s1 = drop n ?xs" "stream_ok s1" "dle_bitRev s1 = dle_bitRev s"
        using 2(5) by (simp_all add: dle_got_def)
      have len: "length ?out \<le> count"
      proof -
        have "length (take n ?xs) \<le> ?k"
          using 2(4) by (simp only: length_take min.coboundedI2)
        then show ?thesis
          using length_dle_encode [of "dle_bitRev s" "take n ?xs"] k unfolding length_append by linarith
      qed
      have "length (stream_octets s1) < length ?xs"
        using 2(1,3) s1(1) by simp
      from less.hyps [OF this s1(2), of ?out] obtain m e s' where m: "get_dle_loop s1 count ?out =
          Some (?out @ dle_encode (dle_bitRev s) (take m (drop n ?xs)) @ dle_end e, s')" "dle_got s1 m e s'"
        "length (?out @ dle_encode (dle_bitRev s) (take m (drop n ?xs)) @ dle_end e) \<le> count"
        using len unfolding s1(1,3) by blast
      have "get_dle_loop s count out = get_dle_loop s1 count ?out"
        using True 2(2,3) s1(3) by (subst get_dle_loop.simps) (simp add: concat_escaped)
      then show ?thesis
        using m dle_got_trans [OF 2(5) m(2)] 2(3)
        by (intro exI [of _ "n + m"] exI [of _ e] exI [of _ s']) (simp add: take_add)
    qed
  qed
qed

lemma GetDleData_spec:
  assumes "stream_ok s" "\<not> dle_recvEtx s" "dle_bitRev s = r"
  obtains out s' n e where "GetDleData s count = Some (int (length out), out, s')" "length out \<le> count"
    "out = dle_encode r (take n (stream_octets s)) @ dle_end e" "dle_got s n e s'"
    "4 \<le> count \<longrightarrow> 0 < n \<or> stream_octets s = [] \<and> e = ds_eof s"
  using get_dle_loop_spec [OF assms(1), of count "[]"] assms(2,3) that by (auto simp: GetDleData_def)

section \<open>Properties\<close>

text \<open>One side reads its data with escapes, the other takes them.\<close>

fun dle_transfer :: "nat list \<Rightarrow> DLEData \<Rightarrow> DLEData \<Rightarrow> (DLEData \<times> DLEData) option" where
  "dle_transfer [] a b = Some (a, b)"
| "dle_transfer (n # ns) a b = do {
     (len, out, a) \<leftarrow> GetDleData a n;
     (r, b) \<leftarrow> PutDleData b out;
     dle_transfer ns a b
   }"

lemma dle_new:
  "stream_ok (BitRev DLEData_new r)" "\<not> ds_eof (BitRev DLEData_new r)" "\<not> dle_dle (BitRev DLEData_new r)"
  "dle_bitRev (BitRev DLEData_new r) = r" "stream_octets (BitRev DLEData_new r) = []"
  "\<not> dle_recvEtx (BitRev DLEData_new r)"
  using stream_ok_new [of 0]
  by (simp_all add: BitRev_def DLEData_new_def DataStream.defs DLEData.defs stream_ok_def stream_wf_def stream_octets_def
      stream_addrs_def DataStream_new_def)

lemma transfer_after_end:
  assumes "stream_ok a" "dle_recvEtx a" "stream_ok b" "ds_eof b"
  shows "\<exists>b'. dle_transfer ns a b = Some (a, b') \<and> stream_ok b' \<and> ds_eof b' \<and> stream_octets b' = stream_octets b"
  using assms(3,4)
proof (induction ns arbitrary: b)
  case (Cons n ns)
  have "PutDleData b [] = Some (-1, b)"
    using Cons.prems by (simp add: PutDleData_def PutData_def)
  then show ?case
    using Cons.IH [OF Cons.prems] assms(2) by (simp add: GetDleData_def)
qed simp

lemma dle_scan_all:
  "dle_scan False (dle_encode r xs @ dle_end e) = (map (octet_order r) xs, False, e, 0)"
  using dle_scan_encode [of r xs "dle_end e"] by (cases e) (simp_all add: dle_end_def)

lemma transfer_all:
  assumes "stream_ok a" "ds_eof a" "\<not> dle_recvEtx a" "dle_bitRev a = r"
    and "stream_ok b" "\<not> ds_eof b" "\<not> dle_dle b" "dle_bitRev b = r"
    and "\<forall>n\<in>set ns. 4 \<le> n \<and> (r \<longrightarrow> n \<le> 1024)" "length (stream_octets a) < length ns"
  shows "\<exists>a' b'. dle_transfer ns a b = Some (a', b') \<and> stream_octets b' = stream_octets b @ stream_octets a \<and> ds_eof b'"
  using assms
proof (induction ns arbitrary: a b)
  case (Cons k ns)
  obtain out a1 n e where a1: "GetDleData a k = Some (int (length out), out, a1)" "length out \<le> k"
    "out = dle_encode r (take n (stream_octets a)) @ dle_end e" "dle_got a n e a1"
    "4 \<le> k \<longrightarrow> 0 < n \<or> stream_octets a = [] \<and> e = ds_eof a"
    by (rule GetDleData_spec [OF Cons.prems(1,3,4), of k])
  have scan: "dle_scan (dle_dle b) out = (map (octet_order r) (take n (stream_octets a)), False, e, 0)"
    using Cons.prems(7) dle_scan_all by (simp add: a1(3))
  have "length out \<le> 1024" if "dle_bitRev b"
    using that a1(2) Cons.prems(8,9) by auto
  from PutDleData_spec [OF Cons.prems(5,6) this] obtain b1 where
    b1: "PutDleData b out = Some (int (length out), b1)" "dle_put b (map (octet_order r) (take n (stream_octets a)), False, e, 0) b1"
    unfolding scan by auto
  then have octets: "stream_octets b1 = stream_octets b @ take n (stream_octets a)"
    using Cons.prems(8) by (simp add: dle_put_def comp_def)
  have step: "dle_transfer (k # ns) a b = dle_transfer ns a1 b1"
    using a1(1) b1(1) by simp
  show ?case
  proof (cases e)
    case True
    then show ?thesis
      using transfer_after_end [of a1 b1 ns] a1(4) b1(2) octets unfolding step by (auto simp: dle_got_def dle_put_def)
  next
    case False
    have "\<exists>a' b'. dle_transfer ns a1 b1 = Some (a', b') \<and> stream_octets b' = stream_octets b1 @ stream_octets a1 \<and> ds_eof b'"
    proof (rule Cons.IH)
      show "length (stream_octets a1) < length ns"
        using a1(4,5) False Cons.prems(2,9,10) by (auto simp: dle_got_def)
    qed (use False a1(4) b1(2) Cons.prems in \<open>auto simp: dle_got_def dle_put_def\<close>)
    then show ?thesis
      using a1(4) octets unfolding step by (auto simp: dle_got_def)
  qed
qed simp

text \<open>
  Claim C21. Transparent data. Whatever octets a finished stream holds, escapes included, and in whatever
  portions of at least four octets they are read with DLE escapes, the other side gets exactly
  these octets and the end of data. With bit reversal, the portions are at most 1024 octets.
\<close>

theorem dle_transfer_delivers:
  assumes "\<forall>n\<in>set ns. 4 \<le> n \<and> (r \<longrightarrow> n \<le> 1024)" "length xs < length ns"
  shows "\<exists>a a' b. PutData (BitRev DLEData_new r) xs = Some (int (length xs), a) \<and>
    dle_transfer ns (PutEof a) (BitRev DLEData_new r) = Some (a', b) \<and> stream_octets b = xs \<and> ds_eof b"
proof -
  let ?s = "BitRev DLEData_new r"
  obtain a where a: "PutData ?s xs = Some (int (length xs), a)" "stream_ok a" "dle_same ?s a" "stream_octets a = xs"
    using put_data [OF dle_new(1,2), of r xs] dle_new(5) by auto
  have "stream_ok (PutEof a)" "ds_eof (PutEof a)" "\<not> dle_recvEtx (PutEof a)" "dle_bitRev (PutEof a) = r"
    using a(2,3) dle_new [of r] by (simp_all add: dle_same_def) (simp_all add: PutEof_def)
  from transfer_all [OF this dle_new(1-4) assms(1)] show ?thesis
    using a assms(2) dle_new(5) by auto
qed

theorem dle_transfer_delivers_witness:
  "\<exists>a a' b. PutData (BitRev DLEData_new True) [0x10, 0x08, 0x03] = Some (3, a) \<and>
    dle_transfer [5, 4, 9, 1024] (PutEof a) (BitRev DLEData_new True) = Some (a', b) \<and> stream_octets b = [0x10, 0x08, 0x03] \<and> ds_eof b"
  using dle_transfer_delivers [of "[5, 4, 9, 1024]" True "[0x10, 0x08, 0x03]"] by simp

text \<open>
  Claim C37. Long runs with bit reversal. When the modem reverses bits, a write of more than 1024 and at most
  2048 octets without DLE stores the first 1024 octets and then, in place of the rest, the first octets again:
  the pointer to the data is not advanced between the blocks.
\<close>

theorem dle_long_run_repeats:
  assumes "1024 < length buf" "length buf \<le> 2048" "memchr DLE buf = None"
  shows "\<exists>b. PutDleData (BitRev DLEData_new True) buf = Some (int (length buf), b) \<and>
    stream_octets b = map bit_reverse8 (take 1024 buf @ take (length buf - 1024) buf)"
proof -
  let ?s = "BitRev DLEData_new True"
  obtain s0 where s0: "PutData ?s [] = Some (0, s0)" "stream_ok s0" "dle_same ?s s0" "stream_octets s0 = []"
    using put_data [OF dle_new(1,2), of True "[]"] dle_new(5) by auto
  then have same: "\<not> ds_eof s0" "\<not> dle_dle s0" "dle_bitRev s0"
    using dle_new [of True] by (simp_all add: dle_same_def)
  let ?s0 = "s0\<lparr>dle_dle := False\<rparr>"
  obtain s1 where s1: "PutData ?s0 (map bit_reverse8 (take 1024 buf)) = Some (1024, s1)" "stream_ok s1" "dle_same ?s0 s1"
    "stream_octets s1 = map bit_reverse8 (take 1024 buf)"
    using put_data [of ?s0 "map bit_reverse8 (take 1024 buf)"] s0(2,4) same(1) assms(1) by auto
  obtain s2 where s2: "PutData s1 (map bit_reverse8 (take (length buf - 1024) buf)) = Some (int (length buf - 1024), s2)"
    "stream_octets s2 = stream_octets s1 @ map bit_reverse8 (take (length buf - 1024) buf)"
    using put_data [of s1 "map bit_reverse8 (take (length buf - 1024) buf)"] s1(2,3) same(1) by (auto simp: dle_same_def)
  have "\<not> 1024 < length buf - 1024" "buf \<noteq> []"
    using assms(1,2) by auto
  then have "put_reversed ?s0 buf (length buf) = Some s2"
    using assms(1,2) s1(1) s2(1) by (simp add: put_reversed.simps [of ?s0] put_reversed.simps [of s1] put_reversed.simps [of s2])
  then have "put_dle_loop s0 buf = Some (0, s2)"
    using assms(1,3) same by (cases buf) (auto simp: put_run_def)
  then show ?thesis
    using s0(1) s1(4) s2(2) by (simp add: PutDleData_def)
qed

lemma memchr_replicate: "c \<noteq> x \<Longrightarrow> memchr c xs = None \<Longrightarrow> memchr c (replicate n x @ xs) = None"
  by (induction n) auto

theorem dle_long_run_repeats_witness:
  "\<exists>b. PutDleData (BitRev DLEData_new True) (replicate 1024 1 @ [2]) = Some (1025, b) \<and>
    stream_octets b = map bit_reverse8 (replicate 1024 1 @ [1])"
proof -
  have "memchr DLE (replicate 1024 1 @ [2]) = None"
    by (rule memchr_replicate) (simp_all add: DLE_def)
  then show ?thesis
    using dle_long_run_repeats [of "replicate 1024 1 @ [2]"] by (simp add: take_replicate)
qed

end
