(* ===== verification/Fcs.thy ===== *)
theory Fcs
  imports Crc Bit_Ops
begin

text \<open>
  The frame check sequence of \<^verbatim>\<open>t38modem/fcs.cxx\<close>, calculated bit by bit, most significant bit first, in the
  low half of a 32 bit register, and its relation to the table driven CRC-16 of spandsp, which takes the
  least significant bit first.
\<close>

section \<open>Model\<close>

definition FCS_new :: u32 where
  "FCS_new = 0xFFFF"

definition fcs_step :: "bool \<Rightarrow> u32 \<Rightarrow> u32" where
  "fcs_step b fcs =
     (let fcs = push_bit 1 fcs;
          fcs = (if b then fcs XOR 0x10000 else fcs)
      in if fcs AND 0x10000 \<noteq> 0 then fcs XOR 0x11021 else fcs)"

function fcs_octet :: "u8 \<Rightarrow> u8 \<Rightarrow> u32 \<Rightarrow> u32" where
  "fcs_octet c m fcs = (if m = 0 then fcs else fcs_octet c (drop_bit 1 m) (fcs_step (c AND m \<noteq> 0) fcs))"
  by pat_completeness auto
termination
proof (relation "measure (\<lambda>(c, m, fcs). unat m)")
  fix c m :: u8 and fcs :: u32
  assume "m \<noteq> 0"
  then have "unat m div 2 < unat m"
    by (simp add: unat_gt_0)
  then show "((c, drop_bit 1 m, fcs_step (c AND m \<noteq> 0) fcs), c, m, fcs) \<in> measure (\<lambda>(c, m, fcs). unat m)"
    by (simp add: drop_bit_eq_div unat_div_distrib)
qed simp

fun FCS_build :: "u32 \<Rightarrow> octets \<Rightarrow> u32" where
  "FCS_build fcs [] = fcs"
| "FCS_build fcs (c # buf) = FCS_build (fcs_octet c 0x80 fcs) buf"

definition FCS_word :: "u32 \<Rightarrow> u16" where
  "FCS_word fcs = ucast (NOT fcs)"

declare fcs_octet.simps [simp del]

section \<open>Bits\<close>

lemma fcs_octet_mask:
  "k < 8 \<Longrightarrow> fcs_octet c (2 ^ k) fcs = fold fcs_step (rev (map (bit c) [0..<Suc k])) fcs"
proof (induction k arbitrary: fcs)
  case 0
  have "drop_bit 1 (1 :: u8) = 0"
    by simp
  then show ?case
    using and_exp_eq_0_iff_not_bit [of c 0] by (simp add: fcs_octet.simps [of c 1] fcs_octet.simps [of c 0])
next
  case (Suc k)
  have "(2 :: u8) ^ Suc k \<noteq> 0"
    using Suc.prems by (simp del: power_Suc add: exp_eq_zero_iff)
  moreover have "drop_bit 1 ((2 :: u8) ^ Suc k) = 2 ^ k"
    using Suc.prems by (intro bit_word_eqI) (auto simp: bit_simps bit_exp_iff)
  moreover have "(c AND 2 ^ Suc k \<noteq> 0) = bit c (Suc k)"
    using and_exp_eq_0_iff_not_bit [of c "Suc k"] by blast
  ultimately have "fcs_octet c (2 ^ Suc k) fcs = fcs_octet c (2 ^ k) (fcs_step (bit c (Suc k)) fcs)"
    by (subst fcs_octet.simps) (simp only: if_False)
  then show ?case
    using Suc by simp
qed

lemma fcs_octet_bits: "fcs_octet c 0x80 fcs = fold fcs_step (bits_msb c) fcs"
  using fcs_octet_mask [of 7 c fcs] by (simp add: bits_msb_def bits_lsb_def)

lemma FCS_build_bits: "FCS_build fcs buf = fold fcs_step (stream_msb buf) fcs"
  by (induction buf arbitrary: fcs) (simp_all add: fcs_octet_bits)

lemma u32_eqI: "(\<forall>i\<in>set [0..<32]. bit a i = bit b i) \<Longrightarrow> a = (b :: u32)"
  by (rule bit_word_eqI) simp

lemma reversed_register:
  "\<forall>i\<in>set [0..<32]. bit (ucast (bit_reverse16 c) :: u32) i = (i < 16 \<and> bit c (15 - i))"
  using bit_reverse16_bits [of c] by (auto simp: bit_simps dest: bit_imp_le_length)

lemma poly_bits:
  "\<forall>i\<in>set [0..<32]. bit (0x11021 :: u32) i = (i = 16 \<or> i < 16 \<and> bit (0x8408 :: u16) (15 - i))"
  unfolding all_indices by simp

lemma crc_bit_nth: "bit (crc_bit p d) k = (bit d (Suc k) \<noteq> (bit d 0 \<and> bit p k))" for d :: u16
  by (auto simp: crc_bit_def bit_simps)

lemma fcs_step_crc:
  "fcs_step b (ucast (bit_reverse16 c)) = ucast (bit_reverse16 (crc_bit 0x8408 (c XOR of_bool b)))"
proof (rule u32_eqI, rule ballI)
  fix i :: nat
  assume i: "i \<in> set [0..<32]"
  let ?f = "ucast (bit_reverse16 c) :: u32" and ?c = "c XOR of_bool b"
  define x where "x = (if b then push_bit 1 ?f XOR 0x10000 else push_bit 1 ?f)"
  have f: "bit ?f j = (j < 16 \<and> bit c (15 - j))" if "j < 32" for j
    using reversed_register [of c] that by simp
  have x: "bit x j = ((0 < j \<and> j < 17 \<and> bit c (16 - j)) \<noteq> (b \<and> j = 16))" if "j < 32" for j
  proof -
    have "(0x10000 :: u32) = 2 ^ 16"
      by simp
    then have "bit (0x10000 :: u32) j = (j = 16)"
      using that by (simp only: bit_exp_iff) auto
    moreover have "bit (push_bit 1 ?f) j = (0 < j \<and> j < 17 \<and> bit c (16 - j))"
      using f [of "j - 1"] that by (cases j) (auto simp only: bit_push_bit_iff, auto)
    ultimately show ?thesis
      unfolding x_def by (simp only: bit_xor_iff if_distrib if_distribR) auto
  qed
  have "x AND 0x10000 \<noteq> 0 \<longleftrightarrow> bit x 16"
    using and_exp_eq_0_iff_not_bit [of x 16] by simp
  then have "bit (fcs_step b ?f) i = (bit x i \<noteq> (bit x 16 \<and> bit (0x11021 :: u32) i))"
    unfolding fcs_step_def Let_def x_def [symmetric] by (simp add: bit_simps)
  also have "\<dots> = (i < 16 \<and> bit (crc_bit 0x8408 ?c) (15 - i))"
  proof -
    have c0: "bit x 16 = bit ?c 0"
      using x [of 16] by auto
    have "bit (crc_bit 0x8408 ?c) k = (bit c (Suc k) \<noteq> (bit ?c 0 \<and> bit (0x8408 :: u16) k))" for k
    proof -
      have "bit ?c (Suc k) = bit c (Suc k)"
        by (simp only: bit_xor_iff bit_of_bool_iff) simp
      then show ?thesis
        by (simp only: crc_bit_nth)
    qed
    then have crc: "bit (crc_bit 0x8408 ?c) (15 - i) = (bit c (Suc (15 - i)) \<noteq> (bit ?c 0 \<and> bit (0x8408 :: u16) (15 - i)))" .
    have p: "bit (0x11021 :: u32) i = (i = 16 \<or> i < 16 \<and> bit (0x8408 :: u16) (15 - i))"
      using poly_bits i by (rule bspec)
    have i': "i < 32"
      using i by simp
    consider "i = 0" | "0 < i" "i < 16" | "i = 16" | "16 < i"
      by linarith
    then show ?thesis
    proof cases
      case 1
      then show ?thesis
        using p crc c0 x [of 0] by (simp only: no_high_bit16) simp
    next
      case 2
      then have "Suc (15 - i) = 16 - i"
        by simp
      then show ?thesis
        using 2 p crc c0 x [OF i'] by auto
    next
      case 3
      then show ?thesis
        using p by simp
    next
      case 4
      then show ?thesis
        using p x [OF i'] by simp
    qed
  qed
  also have "\<dots> = bit (ucast (bit_reverse16 (crc_bit 0x8408 ?c)) :: u32) i"
    using reversed_register i by simp
  finally show "bit (fcs_step b ?f) i = bit (ucast (bit_reverse16 (crc_bit 0x8408 ?c)) :: u32) i" .
qed


lemma fcs_bits_crc:
  "fold fcs_step bs (ucast (bit_reverse16 c)) = ucast (bit_reverse16 (crc_serial 0x8408 c bs))"
  by (induction bs arbitrary: c) (simp_all add: fcs_step_crc)

lemma bit_reverse16_eqI:
  assumes "\<And>i. i < 16 \<Longrightarrow> bit x i = bit y (15 - i)"
  shows "x = bit_reverse16 y"
  using assms bit_reverse16_bits [of y] by (intro bit_word_eqI) simp

lemma FCS_build_crc:
  "FCS_build FCS_new xs = ucast (bit_reverse16 (crc_itu16_calc (map bit_reverse8 xs) 0xFFFF))"
proof -
  have "(0xFFFF :: u16) = bit_reverse16 0xFFFF"
    by (rule bit_reverse16_eqI) (simp add: u16_ones)
  then have new: "FCS_new = ucast (bit_reverse16 (0xFFFF :: u16))"
    by (simp add: FCS_new_def flip: \<open>0xFFFF = bit_reverse16 0xFFFF\<close>)
  show ?thesis
    unfolding new by (simp only: FCS_build_bits fcs_bits_crc crc_itu16_calc_serial stream_lsb_reversed)
qed

lemma FCS_word_crc:
  "FCS_word (FCS_build FCS_new xs) = bit_reverse16 (crc_itu16_calc (map bit_reverse8 xs) 0xFFFF XOR 0xFFFF)"
proof (rule bit_reverse16_eqI)
  let ?c = "crc_itu16_calc (map bit_reverse8 xs) 0xFFFF"
  fix i :: nat
  assume i: "i < 16"
  have "bit (FCS_word (FCS_build FCS_new xs)) i = (\<not> bit (bit_reverse16 ?c) i)"
    using i by (simp add: FCS_word_def FCS_build_crc bit_simps)
  also have "\<dots> = (\<not> bit ?c (15 - i))"
    using bit_reverse16_bits [of ?c] i by simp
  finally have "bit (FCS_word (FCS_build FCS_new xs)) i = (\<not> bit ?c (15 - i))" .
  moreover have "15 - i < 16"
    by simp
  ultimately show "bit (FCS_word (FCS_build FCS_new xs)) i = bit (?c XOR 0xFFFF) (15 - i)"
    unfolding u16_ones by (simp only: bit_xor_iff bit_minus_1_iff) simp
qed

text \<open>
  Claim C28. The two frame check sequences. For octets in the order of the line, the check sequence of t38modem
  is the complemented CRC-16 of spandsp over the octets with their bits reversed, itself read in reverse: on
  the line both are the same sixteen bits.
\<close>

theorem fcs_is_crc16:
  "FCS_word (FCS_build FCS_new xs) = bit_reverse16 (crc_itu16_calc (map bit_reverse8 xs) 0xFFFF XOR 0xFFFF)"
  by (rule FCS_word_crc)

end
