(* ===== verification/Modem_Hdlc.thy ===== *)
theory Modem_Hdlc
  imports Data_Stream Fcs Hdlc_Line
begin

text \<open>
  The HDLC converter of \<^verbatim>\<open>t38modem/hdlc.cxx\<close>, which turns the octets of a frame into the octets of a line and
  back, most significant bit first. The stream that \<^verbatim>\<open>inData\<close> points to is a field of the state; the
  converter is its only reader. An operation is \<open>None\<close> when a stream operation is, or when a loop does
  not end.
\<close>

section \<open>State\<close>

definition dtNone :: int where "dtNone = 0"
definition dtHdlc :: int where "dtHdlc = 6"
definition dtRaw :: int where "dtRaw = 7"
definition diagErrorMask :: int where "diagErrorMask = 0xFF00"

datatype hdlc_state = stEof | stSync | stSkipFlags | stData

record HDLC =
  hd_inDataType :: int
  hd_outDataType :: int
  hd_inData :: "DataStream option"
  hd_outData :: DataStream
  hd_fcs :: u32
  hd_lastChar :: int
  hd_rawCount :: int
  hd_rawByte :: u8
  hd_rawByteLen :: nat
  hd_rawOnes :: nat
  hd_hdlcChunk :: u32
  hd_hdlcChunkLen :: nat
  hd_hdlcState :: hdlc_state

text \<open>The constructor leaves \<^verbatim>\<open>rawByte\<close>, \<^verbatim>\<open>hdlcChunk\<close> and \<^verbatim>\<open>hdlcChunkLen\<close> unset; they are parameters.\<close>

definition HDLC_new :: "u8 \<Rightarrow> u32 \<Rightarrow> nat \<Rightarrow> HDLC" where
  "HDLC_new raw chunk len =
     \<lparr>hd_inDataType = dtNone, hd_outDataType = dtNone, hd_inData = None, hd_outData = DataStream_new 0,
      hd_fcs = FCS_new, hd_lastChar = -1, hd_rawCount = 0, hd_rawByte = raw, hd_rawByteLen = 0, hd_rawOnes = 0,
      hd_hdlcChunk = chunk, hd_hdlcChunkLen = len, hd_hdlcState = stEof\<rparr>"

section \<open>Frames to line\<close>

text \<open>One more bit of \<open>w\<close> is in its upper half.\<close>

definition count_bit :: "u16 \<Rightarrow> HDLC \<Rightarrow> HDLC option" where
  "count_bit w s =
     (if hd_rawByteLen s + 1 = 8
      then do {
        let b = ucast (drop_bit 8 w);
        (r, out) \<leftarrow> PutData (hd_outData s) [b];
        Some (s\<lparr>hd_rawByte := b, hd_outData := out, hd_rawByteLen := 0\<rparr>)
      }
      else Some (s\<lparr>hd_rawByteLen := hd_rawByteLen s + 1\<rparr>))"

definition pack_bit :: "bool \<Rightarrow> u16 \<Rightarrow> HDLC \<Rightarrow> (u16 \<times> HDLC) option" where
  "pack_bit flag w s = do {
     let w = push_bit 1 w;
     s \<leftarrow> count_bit w s;
     if flag then Some (w, s)
     else if w AND 0x100 \<noteq> 0
     then if hd_rawOnes s + 1 = 5
          then do {
            let w = push_bit 1 (w AND 0xFF00) OR (w AND 0xFF);
            s \<leftarrow> count_bit w s;
            Some (w, s\<lparr>hd_rawOnes := 0\<rparr>)
          }
          else Some (w, s\<lparr>hd_rawOnes := hd_rawOnes s + 1\<rparr>)
     else Some (w, s\<lparr>hd_rawOnes := 0\<rparr>)
   }"

fun pack_bits :: "nat \<Rightarrow> bool \<Rightarrow> u16 \<Rightarrow> HDLC \<Rightarrow> (u16 \<times> HDLC) option" where
  "pack_bits 0 flag w s = Some (w, s)"
| "pack_bits (Suc n) flag w s = do { (w, s) \<leftarrow> pack_bit flag w s; pack_bits n flag w s }"

fun pack_octets :: "octets \<Rightarrow> bool \<Rightarrow> u16 \<Rightarrow> HDLC \<Rightarrow> (u16 \<times> HDLC) option" where
  "pack_octets [] flag w s = Some (w, s)"
| "pack_octets (b # buf) flag w s = do { (w, s) \<leftarrow> pack_bits 8 flag (w OR ucast b) s; pack_octets buf flag w s }"

definition pack :: "HDLC \<Rightarrow> octets \<Rightarrow> bool \<Rightarrow> HDLC option" where
  "pack s buf flag = do {
     (w, s) \<leftarrow> pack_octets buf flag (push_bit 8 (ucast (hd_rawByte s))) s;
     let s = s\<lparr>hd_rawByte := ucast (drop_bit 8 w)\<rparr>;
     Some (if flag then s\<lparr>hd_rawOnes := 0\<rparr> else s)
   }"

section \<open>Line to frames\<close>

text \<open>The bits left of the last octet and the new octet, most significant bit first in 16 bits.\<close>

definition raw_window :: "HDLC \<Rightarrow> u8 \<Rightarrow> u16" where
  "raw_window s b = push_bit (8 - hd_rawByteLen s) (push_bit 8 (ucast (hd_rawByte s)) OR ucast b)"

function sync_loop :: "nat \<Rightarrow> u16 \<Rightarrow> bool \<times> nat \<times> u16" where
  "sync_loop j w =
     (if j \<le> 8 then if drop_bit 8 w = 0x7E then (True, j, w) else sync_loop (j + 1) (push_bit 1 w)
      else (False, j, w))"
  by pat_completeness auto
termination
  by (relation "measure (\<lambda>(j, w). 9 - j)") auto

definition sync :: "HDLC \<Rightarrow> u8 \<Rightarrow> bool \<times> HDLC" where
  "sync s b =
     (let (found, j, w) = sync_loop (8 - hd_rawByteLen s) (raw_window s b)
      in (found, s\<lparr>hd_rawByte := ucast (drop_bit j w), hd_rawByteLen := if found then 8 - j else 7\<rparr>))"

definition skipFlag :: "HDLC \<Rightarrow> u8 \<Rightarrow> bool \<times> HDLC" where
  "skipFlag s b =
     (let w = raw_window s b
      in if drop_bit 8 w = 0x7E
         then (True, s\<lparr>hd_rawByte := ucast (drop_bit (8 - hd_rawByteLen s) w)\<rparr>)
         else (False, s))"

text \<open>The bit at the top of the window goes to the chunk, unless it is a stuffed zero.\<close>

definition chunk_bit :: "bool \<Rightarrow> HDLC \<Rightarrow> HDLC" where
  "chunk_bit b s =
     (if b
      then s\<lparr>hd_hdlcChunk := push_bit 1 (hd_hdlcChunk s) OR 1, hd_hdlcChunkLen := hd_hdlcChunkLen s + 1,
             hd_rawOnes := hd_rawOnes s + 1\<rparr>
      else if hd_rawOnes s \<noteq> 5
      then s\<lparr>hd_hdlcChunk := push_bit 1 (hd_hdlcChunk s), hd_hdlcChunkLen := hd_hdlcChunkLen s + 1, hd_rawOnes := 0\<rparr>
      else s\<lparr>hd_rawOnes := 0\<rparr>)"

definition chunk_out :: "HDLC \<Rightarrow> HDLC option" where
  "chunk_out s =
     (if hd_hdlcChunkLen s = 24
      then do {
        (r, out) \<leftarrow> PutData (hd_outData s) [ucast (drop_bit 16 (hd_hdlcChunk s))];
        Some (s\<lparr>hd_outData := out, hd_hdlcChunkLen := 16\<rparr>)
      }
      else Some s)"

function unpack_loop :: "nat \<Rightarrow> u16 \<Rightarrow> HDLC \<Rightarrow> (bool \<times> HDLC) option" where
  "unpack_loop j w s =
     (if j \<le> 8
      then if drop_bit 8 w = 0x7E
           then Some (False, s\<lparr>hd_rawByte := ucast (drop_bit j w), hd_rawByteLen := 8 - j\<rparr>)
           else do {
             s \<leftarrow> chunk_out (chunk_bit (w AND 0x8000 \<noteq> 0) s);
             unpack_loop (j + 1) (push_bit 1 w) s
           }
      else Some (True, s\<lparr>hd_rawByte := ucast (drop_bit j w), hd_rawByteLen := 7\<rparr>))"
  by pat_completeness auto
termination
  by (relation "measure (\<lambda>(j, w, s). 9 - j)") auto

definition unpack :: "HDLC \<Rightarrow> u8 \<Rightarrow> (bool \<times> HDLC) option" where
  "unpack s b = unpack_loop (8 - hd_rawByteLen s) (raw_window s b) s"

section \<open>The interface\<close>

definition GetInData :: "HDLC \<Rightarrow> nat \<Rightarrow> (int \<times> octets \<times> HDLC) option" where
  "GetInData s count =
     (case hd_inData s of None \<Rightarrow> Some (-1, [], s)
      | Some d \<Rightarrow> do {
          (len, buf, d) \<leftarrow> GetData d count;
          let s = s\<lparr>hd_inData := Some d\<rparr>;
          Some (if len > 0
            then (len, buf, s\<lparr>hd_rawCount := hd_rawCount s + len, hd_lastChar := uint (buf ! nat (len - 1))\<rparr>)
            else if len < 0 then (-1, [], s\<lparr>hd_inData := None\<rparr>)
            else (len, buf, s))
        })"

text \<open>The next data of the frame are packed; the result is false if there are none yet.\<close>

definition raw_fill :: "HDLC \<Rightarrow> (bool \<times> HDLC) option" where
  "raw_fill s =
     (case hd_inData s of None \<Rightarrow> Some (True, s)
      | Some d \<Rightarrow> do {
          (len, buf, d) \<leftarrow> GetData d 256;
          let s = s\<lparr>hd_inData := Some d\<rparr>;
          if len < 0
          then do {
            let fcs = FCS_word (hd_fcs s);
            let hi = (ucast (drop_bit 8 fcs) :: u8) + (if GetDiag d AND diagErrorMask \<noteq> 0 then 1 else 0);
            s \<leftarrow> pack s [hi, ucast fcs] False;
            s \<leftarrow> pack s [0x7E, 0x7E] True;
            Some (True, s\<lparr>hd_outData := PutEof (hd_outData s), hd_inData := None\<rparr>)
          }
          else if len > 0
          then do {
            s \<leftarrow> pack (s\<lparr>hd_lastChar := uint (buf ! nat (len - 1)), hd_fcs := FCS_build (hd_fcs s) buf\<rparr>) buf False;
            Some (True, s)
          }
          else Some (False, s)
        })"

definition raw_result :: "HDLC \<Rightarrow> octets \<Rightarrow> int \<times> octets \<times> HDLC" where
  "raw_result s out = (int (length out), out, s\<lparr>hd_rawCount := hd_rawCount s + int (length out)\<rparr>)"

partial_function (option) raw_loop :: "HDLC \<Rightarrow> nat \<Rightarrow> octets \<Rightarrow> (int \<times> octets \<times> HDLC) option" where
  "raw_loop s count out = do {
     f \<leftarrow> raw_fill s;
     if \<not> fst f then Some (raw_result (snd f) out)
     else do {
       r \<leftarrow> GetData (hd_outData (snd f)) count;
       if fst r < 0
       then Some (if out \<noteq> [] then raw_result (snd f) out else (-1, [], snd f))
       else if count - nat (fst r) = 0
       then Some (raw_result ((snd f)\<lparr>hd_outData := snd (snd r)\<rparr>) (out @ fst (snd r)))
       else raw_loop ((snd f)\<lparr>hd_outData := snd (snd r)\<rparr>) (count - nat (fst r)) (out @ fst (snd r))
     }
   }"

definition GetRawData :: "HDLC \<Rightarrow> nat \<Rightarrow> (int \<times> octets \<times> HDLC) option" where
  "GetRawData s count =
     (if hd_inDataType s = dtHdlc
      then do {
        (len, out, d) \<leftarrow> GetData (hd_outData s) count;
        let s = s\<lparr>hd_outData := d\<rparr>;
        if len < 0 then Some (-1, [], s)
        else raw_loop s (count - nat len) out
      }
      else if hd_inDataType s = dtRaw then GetInData s count
      else Some (0, [], s))"

text \<open>The effect of one octet of the line; \<^verbatim>\<open>stEof\<close> does not occur here.\<close>

definition hdlc_octet :: "HDLC \<Rightarrow> u8 \<Rightarrow> HDLC option" where
  "hdlc_octet s b =
     (let unpack_data = (\<lambda>s. do {
            (going, s) \<leftarrow> unpack s b;
            Some (if going then s else s\<lparr>hd_outData := PutEof (hd_outData s), hd_hdlcState := stEof\<rparr>) })
      in case hd_hdlcState s of
           stSync \<Rightarrow> (let (found, s) = sync s b in Some (if found then s\<lparr>hd_hdlcState := stSkipFlags\<rparr> else s))
         | stSkipFlags \<Rightarrow>
             (let (flag, s) = skipFlag s b in if flag then Some s else unpack_data (s\<lparr>hd_hdlcState := stData\<rparr>))
         | stData \<Rightarrow> unpack_data s
         | stEof \<Rightarrow> Some s)"

text \<open>One round of the loop of \<^verbatim>\<open>GetHdlcData\<close>: whether there was something to read, and the new state.\<close>

definition hdlc_input :: "HDLC \<Rightarrow> (bool \<times> HDLC) option" where
  "hdlc_input s =
     (case hd_inData s of None \<Rightarrow> None
      | Some d \<Rightarrow> do {
          (res, buf, d) \<leftarrow> GetData d 1;
          let s = s\<lparr>hd_inData := Some d\<rparr>;
          if res = 0 then Some (False, s)
          else if res < 0
          then Some (True, s\<lparr>hd_outData := PutEof (hd_outData s), hd_inData := None, hd_hdlcState := stEof\<rparr>)
          else do {
            s \<leftarrow> hdlc_octet (s\<lparr>hd_lastChar := uint (hd buf), hd_rawCount := hd_rawCount s + 1\<rparr>) (hd buf);
            Some (True, s)
          }
        })"

partial_function (option) hdlc_loop :: "HDLC \<Rightarrow> nat \<Rightarrow> octets \<Rightarrow> (int \<times> octets \<times> HDLC) option" where
  "hdlc_loop s count out = do {
     f \<leftarrow> hdlc_input s;
     if \<not> fst f then Some (int (length out), out, snd f)
     else if hd_hdlcState (snd f) = stEof \<or> hd_hdlcState (snd f) = stData
     then do {
       r \<leftarrow> GetData (hd_outData (snd f)) count;
       if fst r < 0 then Some (if out \<noteq> [] then (int (length out), out, snd f) else (-1, [], snd f))
       else if count - nat (fst r) = 0 \<or> hd_hdlcState (snd f) = stEof
       then Some (int (length (out @ fst (snd r))), out @ fst (snd r),
         (snd f)\<lparr>hd_outData := snd (snd r), hd_fcs := FCS_build (hd_fcs (snd f)) (fst (snd r))\<rparr>)
       else hdlc_loop ((snd f)\<lparr>hd_outData := snd (snd r), hd_fcs := FCS_build (hd_fcs (snd f)) (fst (snd r))\<rparr>)
         (count - nat (fst r)) (out @ fst (snd r))
     }
     else hdlc_loop (snd f) count out
   }"

definition GetHdlcData :: "HDLC \<Rightarrow> nat \<Rightarrow> (int \<times> octets \<times> HDLC) option" where
  "GetHdlcData s count =
     (if hd_inDataType s = dtHdlc
      then do {
        (len, buf, s) \<leftarrow> GetInData s count;
        Some (len, buf, if len > 0 then s\<lparr>hd_fcs := FCS_build (hd_fcs s) buf\<rparr> else s)
      }
      else if hd_inDataType s = dtRaw
      then case hd_inData s of
             None \<Rightarrow> do {
               (len, buf, d) \<leftarrow> GetData (hd_outData s) count;
               Some (len, buf, s\<lparr>hd_outData := d, hd_fcs := FCS_build (hd_fcs s) buf\<rparr>) }
           | Some d \<Rightarrow>
               if hd_hdlcState s = stEof
               then do {
                 (len, buf, d) \<leftarrow> GetData (hd_outData s) count;
                 Some (len, buf, s\<lparr>hd_outData := d, hd_fcs := FCS_build (hd_fcs s) buf\<rparr>) }
               else if count = 0 \<and> hd_hdlcState s = stData
               then do {
                 (r1, b1, d1) \<leftarrow> GetData (hd_outData s) 0;
                 (r2, b2, d2) \<leftarrow> GetData d 0;
                 Some (if r1 < 0 \<or> r2 < 0 then -1 else 0, [], s) }
               else hdlc_loop s count []
      else Some (0, [], s))"

definition isFcsOK :: "HDLC \<Rightarrow> bool" where
  "isFcsOK s \<longleftrightarrow> hd_hdlcChunkLen s = 16 \<and> (ucast (hd_hdlcChunk s) :: u16) = FCS_word (hd_fcs s)"

definition PutRawData :: "HDLC \<Rightarrow> DataStream option \<Rightarrow> HDLC" where
  "PutRawData s d = s\<lparr>hd_inDataType := dtRaw, hd_inData := d, hd_lastChar := -1\<rparr>"

definition PutHdlcData :: "HDLC \<Rightarrow> DataStream option \<Rightarrow> HDLC" where
  "PutHdlcData s d = s\<lparr>hd_inDataType := dtHdlc, hd_inData := d, hd_lastChar := -1\<rparr>"

fun put_flags :: "nat \<Rightarrow> HDLC \<Rightarrow> HDLC option" where
  "put_flags 0 s = Some s"
| "put_flags (Suc n) s = do { s \<leftarrow> pack s [0x7E] True; put_flags n s }"

definition GetRawStart :: "HDLC \<Rightarrow> nat \<Rightarrow> HDLC option" where
  "GetRawStart s flags =
     (let s = s\<lparr>hd_outDataType := dtRaw, hd_outData := Clean (hd_outData s), hd_fcs := FCS_new\<rparr>
      in if hd_inDataType s = dtHdlc then put_flags flags s else Some s)"

definition GetHdlcStart :: "HDLC \<Rightarrow> bool \<Rightarrow> HDLC" where
  "GetHdlcStart s synchronise =
     (let s = s\<lparr>hd_outDataType := dtHdlc, hd_outData := Clean (hd_outData s), hd_fcs := FCS_new\<rparr>
      in if hd_inDataType s = dtRaw
         then s\<lparr>hd_hdlcChunkLen := 0, hd_rawOnes := 0, hd_hdlcState := if synchronise then stSync else stSkipFlags\<rparr>
         else if \<not> synchronise then s\<lparr>hd_rawCount := hd_rawCount s + 4\<rparr> else s)"

definition HDLC_GetData :: "HDLC \<Rightarrow> nat \<Rightarrow> (int \<times> octets \<times> HDLC) option" where
  "HDLC_GetData s count =
     (if hd_outDataType s = dtHdlc then GetHdlcData s count
      else if hd_outDataType s = dtRaw then GetRawData s count
      else Some (-1, [], s))"

definition getLastChar :: "HDLC \<Rightarrow> int" where
  "getLastChar s = hd_lastChar s"

definition getRawCount :: "HDLC \<Rightarrow> int" where
  "getRawCount s = hd_rawCount s"

definition resetRawCount :: "HDLC \<Rightarrow> HDLC" where
  "resetRawCount s = s\<lparr>hd_rawCount := 0\<rparr>"

declare sync_loop.simps [simp del] unpack_loop.simps [simp del]

section \<open>Windows as bit sequences\<close>

definition bits16 :: "u16 \<Rightarrow> bits" where
  "bits16 w = map (\<lambda>i. bit w (15 - i)) [0..<16]"

lemma length_bits16 [simp]: "length (bits16 w) = 16"
  by (simp add: bits16_def)

lemma bits16_nth: "i < 16 \<Longrightarrow> bits16 w ! i = bit w (15 - i)"
  by (simp add: bits16_def)

lemma bits16_push: "n \<le> 16 \<Longrightarrow> bits16 (push_bit n w) = drop n (bits16 w) @ replicate n False"
  by (rule nth_equalityI) (auto simp: bits16_nth nth_append bit_simps add.commute)

lemma bits16_octets: "bits16 (push_bit 8 (ucast a) OR ucast b) = bits_msb a @ bits_msb b"
proof (rule nth_equalityI)
  fix i assume "i < length (bits16 (push_bit 8 (ucast a) OR ucast b))"
  then show "bits16 (push_bit 8 (ucast a) OR ucast b) ! i = (bits_msb a @ bits_msb b) ! i"
    by (auto simp: bits16_nth nth_append bits_msb_nth bit_simps dest: bit_u8_bound)
qed simp

lemma bits16_or_octet:
  assumes "drop 8 (bits16 w) = replicate 8 False"
  shows "bits16 (w OR ucast b) = take 8 (bits16 w) @ bits_msb b"
proof (rule nth_equalityI)
  fix i assume "i < length (bits16 (w OR ucast b))"
  then have i: "i < 16"
    by simp
  have "\<not> bit w (15 - i)" if "8 \<le> i"
    using arg_cong [OF assms, of "\<lambda>l. l ! (i - 8)"] that i by (simp add: bits16_nth)
  then show "bits16 (w OR ucast b) ! i = (take 8 (bits16 w) @ bits_msb b) ! i"
    using i by (auto simp: bits16_nth nth_append bits_msb_nth bit_simps dest: bit_u8_bound)
qed simp

lemma bits_msb_high: "bits_msb (ucast (drop_bit 8 w)) = take 8 (bits16 w)"
  by (rule nth_equalityI) (auto simp: bits16_nth bits_msb_nth bit_simps)

lemma masks16: "bit (0xFF00 :: u16) i = (8 \<le> i \<and> i < 16)" "bit (0xFF :: u16) i = (i < 8)"
proof -
  have "(0xFF00 :: u16) = push_bit 8 (mask 8)" "(0xFF :: u16) = mask 8"
    by (simp_all add: mask_numeral push_bit_eq_mult)
  then show "bit (0xFF00 :: u16) i = (8 \<le> i \<and> i < 16)" "bit (0xFF :: u16) i = (i < 8)"
    by (auto simp only: bit_push_bit_iff bit_mask_iff, auto)
qed

lemma bits16_stuffed:
  "bits16 (push_bit 1 (w AND 0xFF00) OR (w AND 0xFF)) = tl (take 8 (bits16 w)) @ False # drop 8 (bits16 w)"
proof (rule nth_equalityI)
  fix i assume "i < length (bits16 (push_bit 1 (w AND 0xFF00) OR (w AND 0xFF)))"
  then have i: "i < 16"
    by simp
  have "bit (push_bit 1 (w AND 0xFF00) OR (w AND 0xFF)) k = (if k < 8 then bit w k else 9 \<le> k \<and> k < 16 \<and> bit w (k - 1))" for k
    unfolding bit_or_iff bit_and_iff bit_push_bit_iff masks16 by (cases "k < 8"; cases "k = 8") auto
  then show "bits16 (push_bit 1 (w AND 0xFF00) OR (w AND 0xFF)) ! i = (tl (take 8 (bits16 w)) @ False # drop 8 (bits16 w)) ! i"
    using i by (auto simp: bits16_nth nth_append nth_tl nth_Cons' simp del: push_bit_Suc)
qed simp

lemma window_bit: "(w AND 0x100 \<noteq> 0) = bits16 w ! 7" "(w AND 0x8000 \<noteq> 0) = hd (bits16 w)"
  using and_exp_eq_0_iff_not_bit [of w 8] and_exp_eq_0_iff_not_bit [of w 15]
  by (simp_all add: bits16_nth bits16_def upt_rec)

lemma bits_msb_flag: "bits_msb 0x7E = hdlc_flag"
  by (simp add: bits_msb_def bits_lsb_def hdlc_flag_def indices_8)

lemma bits_msb_inject [simp]: "bits_msb a = bits_msb b \<longleftrightarrow> a = b"
  by (simp add: bits_msb_def)

lemma ucast_7E: "(ucast (0x7E :: u8) :: u16) = 0x7E" "(ucast (0x7E :: u16) :: u8) = 0x7E"
  by simp_all

lemma window_flag: "(drop_bit 8 w = 0x7E) = (take 8 (bits16 w) = hdlc_flag)"
proof -
  have "(ucast (ucast (drop_bit 8 w) :: u8) :: u16) = drop_bit 8 w"
    by (rule bit_word_eqI) (auto simp: bit_simps dest: bit_imp_le_length)
  then have "drop_bit 8 w = 0x7E \<longleftrightarrow> (ucast (drop_bit 8 w) :: u8) = 0x7E"
    by (metis ucast_7E)
  then show ?thesis
    by (simp flip: bits_msb_high bits_msb_flag)
qed

end
