(* ===== verification/Modem_Hdlc_Tx.thy ===== *)
theory Modem_Hdlc_Tx
  imports Modem_Hdlc
begin

text \<open>
  What the HDLC converter of \<^verbatim>\<open>t38modem/hdlc.cxx\<close> puts on the line: its output octets, read most significant bit
  first, followed by the bits not yet output, are the specified line of flags and stuffed octets.
\<close>

section \<open>Packing\<close>

definition pack_ok :: "HDLC \<Rightarrow> bool" where
  "pack_ok s \<longleftrightarrow> stream_ok (hd_outData s) \<and> \<not> ds_eof (hd_outData s) \<and> hd_rawByteLen s < 8 \<and> hd_rawOnes s < 5"

definition pack_same :: "HDLC \<Rightarrow> HDLC \<Rightarrow> bool" where
  "pack_same s s' \<longleftrightarrow> hd_inDataType s' = hd_inDataType s \<and> hd_outDataType s' = hd_outDataType s \<and>
     hd_inData s' = hd_inData s \<and> hd_fcs s' = hd_fcs s"

text \<open>The line so far, with the upper half of \<open>w\<close> as the octet in progress.\<close>

definition line_at :: "u16 \<Rightarrow> HDLC \<Rightarrow> bits" where
  "line_at w s = stream_msb (stream_octets (hd_outData s)) @ drop (8 - hd_rawByteLen s) (take 8 (bits16 w))"

definition sent_bits :: "bool \<Rightarrow> nat \<Rightarrow> bits \<Rightarrow> bits" where
  "sent_bits flag r xs = (if flag then xs else stuff r xs)"

definition ones_after :: "bool \<Rightarrow> nat \<Rightarrow> bits \<Rightarrow> nat" where
  "ones_after flag r xs = (if flag then r else run_after r xs)"

lemma sent_bits_simps [simp]:
  "sent_bits flag r [] = []" "sent_bits flag r (xs @ ys) = sent_bits flag r xs @ sent_bits flag (ones_after flag r xs) ys"
  by (simp_all add: sent_bits_def ones_after_def stuff_append)

lemma sent_bits_Cons: "sent_bits flag r (x # xs) = sent_bits flag r [x] @ sent_bits flag (ones_after flag r [x]) xs"
  using sent_bits_simps(2) [of flag r "[x]" xs] by simp

lemma ones_after_simps [simp]:
  "ones_after flag r [] = r" "ones_after flag r (xs @ ys) = ones_after flag (ones_after flag r xs) ys"
  by (simp_all add: ones_after_def run_after_append)

lemma ones_after_Cons: "ones_after flag r (x # xs) = ones_after flag (ones_after flag r [x]) xs"
  using ones_after_simps(2) [of flag r "[x]" xs] by simp

lemma pack_same_refl [simp]: "pack_same s s"
  by (simp add: pack_same_def)

lemma pack_same_trans: "pack_same s s' \<Longrightarrow> pack_same s' s'' \<Longrightarrow> pack_same s s''"
  by (simp add: pack_same_def)

lemma count_bit_line:
  assumes ok: "pack_ok s" and w: "take 8 (bits16 w) = tl u @ [x]" and u: "length u = 8"
  shows "\<exists>s'. count_bit w s = Some s' \<and> pack_ok s' \<and> pack_same s s' \<and> hd_rawOnes s' = hd_rawOnes s \<and>
    line_at w s' = stream_msb (stream_octets (hd_outData s)) @ drop (8 - hd_rawByteLen s) u @ [x]"
proof -
  let ?n = "hd_rawByteLen s"
  have n: "?n < 8"
    using ok by (simp add: pack_ok_def)
  have pend: "drop (7 - ?n) (tl u @ [x]) = drop (8 - ?n) u @ [x]"
  proof -
    have "Suc (7 - ?n) = 8 - ?n" "7 - ?n \<le> length (tl u)"
      using n u by simp_all
    then show ?thesis
      by (simp add: drop_Suc [symmetric])
  qed
  show ?thesis
  proof (cases "?n + 1 = 8")
    case True
    let ?b = "ucast (drop_bit 8 w) :: u8"
    obtain out where out: "PutData (hd_outData s) [?b] = Some (1, out)" "stream_ok out" "\<not> ds_eof out"
      "stream_octets out = stream_octets (hd_outData s) @ [?b]"
      using PutData_spec [of "hd_outData s" "[?b]"] ok by (auto simp: pack_ok_def stream_same_def)
    have "count_bit w s = Some (s\<lparr>hd_rawByte := ?b, hd_outData := out, hd_rawByteLen := 0\<rparr>)"
      using True out(1) by (simp add: count_bit_def)
    then show ?thesis
      using True ok out(2-4) w u pend by (simp add: pack_ok_def pack_same_def line_at_def bits_msb_high)
  next
    case False
    then have "count_bit w s = Some (s\<lparr>hd_rawByteLen := ?n + 1\<rparr>)"
      by (simp add: count_bit_def)
    then show ?thesis
      using False ok w pend by (simp add: pack_ok_def pack_same_def line_at_def)
  qed
qed

lemma stuff_single: "\<not> (x \<and> r = 4) \<Longrightarrow> stuff r [x] = [x]"
  by (cases x) auto

lemma pack_bit_line:
  assumes ok: "pack_ok s" and w: "drop 8 (bits16 w) = x # xs"
  shows "\<exists>w' s'. pack_bit flag w s = Some (w', s') \<and> pack_ok s' \<and> pack_same s s' \<and>
    hd_rawOnes s' = ones_after flag (hd_rawOnes s) [x] \<and> drop 8 (bits16 w') = xs @ [False] \<and>
    line_at w' s' = line_at w s @ sent_bits flag (hd_rawOnes s) [x]"
proof -
  let ?u = "take 8 (bits16 w)" and ?w1 = "push_bit 1 w"
  let ?w2 = "push_bit 1 (?w1 AND 0xFF00) OR (?w1 AND 0xFF)"
  have "bits16 w = ?u @ x # xs"
    using w append_take_drop_id [of 8 "bits16 w"] by simp
  then have b: "bits16 ?w1 = tl ?u @ x # xs @ [False]"
    using bits16_push [of 1 w] by (cases ?u) (auto simp del: push_bit_Suc)
  have w1: "take 8 (bits16 ?w1) = tl ?u @ [x]" "drop 8 (bits16 ?w1) = xs @ [False]" "bits16 ?w1 ! 7 = x"
    unfolding b by (simp_all add: nth_append)
  obtain s1 where s1: "count_bit ?w1 s = Some s1" "pack_ok s1" "pack_same s s1" "hd_rawOnes s1 = hd_rawOnes s"
    "line_at ?w1 s1 = line_at w s @ [x]"
    using count_bit_line [OF ok w1(1)] by (auto simp: line_at_def)
  show ?thesis
  proof (cases "\<not> flag \<and> x \<and> hd_rawOnes s = 4")
    case True
    have w2: "take 8 (bits16 ?w2) = tl (take 8 (bits16 ?w1)) @ [False]" "drop 8 (bits16 ?w2) = xs @ [False]"
      unfolding bits16_stuffed w1(1,2) by simp_all
    obtain s2 where s2: "count_bit ?w2 s1 = Some s2" "pack_ok s2" "pack_same s1 s2" "line_at ?w2 s2 = line_at ?w1 s1 @ [False]"
      using count_bit_line [OF s1(2) w2(1)] by (auto simp: line_at_def)
    have "pack_bit flag w s = Some (?w2, s2\<lparr>hd_rawOnes := 0\<rparr>)"
      using True s1(1,4) s2(1) w1(3) unfolding pack_bit_def Let_def window_bit by simp
    moreover have "pack_ok (s2\<lparr>hd_rawOnes := 0\<rparr>)" "pack_same s (s2\<lparr>hd_rawOnes := 0\<rparr>)"
      "line_at ?w2 (s2\<lparr>hd_rawOnes := 0\<rparr>) = line_at w s @ [True, False]"
      using s2(2-4) s1(3,5) True pack_same_trans [OF s1(3) s2(3)] by (simp_all add: pack_ok_def pack_same_def line_at_def)
    ultimately show ?thesis
      using True w2(2) by (simp add: sent_bits_def ones_after_def)
  next
    case False
    let ?s = "s1\<lparr>hd_rawOnes := ones_after flag (hd_rawOnes s) [x]\<rparr>"
    have "pack_bit flag w s = Some (?w1, ?s)"
      using False s1(1,4) w1(3) unfolding pack_bit_def Let_def window_bit by (auto simp: ones_after_def simp del: push_bit_Suc)
    moreover have "pack_ok ?s" "pack_same s ?s" "line_at ?w1 ?s = line_at w s @ sent_bits flag (hd_rawOnes s) [x]"
      using False s1(2,3,5) ok run_after_less [of "hd_rawOnes s" "[x]"] stuff_single [of x "hd_rawOnes s"]
      by (auto simp: pack_ok_def pack_same_def line_at_def ones_after_def sent_bits_def)
    ultimately show ?thesis
      using w1(2) by auto
  qed
qed

definition packed :: "bool \<Rightarrow> u16 \<Rightarrow> HDLC \<Rightarrow> bits \<Rightarrow> u16 \<Rightarrow> HDLC \<Rightarrow> bool" where
  "packed flag w s xs w' s' \<longleftrightarrow> pack_ok s' \<and> pack_same s s' \<and> hd_rawOnes s' = ones_after flag (hd_rawOnes s) xs \<and>
     line_at w' s' = line_at w s @ sent_bits flag (hd_rawOnes s) xs"

lemma packed_trans:
  assumes "packed flag w s xs w1 s1" "packed flag w1 s1 ys w' s'"
  shows "packed flag w s (xs @ ys) w' s'"
  using assms pack_same_trans [of s s1 s'] by (simp add: packed_def)

lemma pack_bits_line:
  assumes "pack_ok s" "drop 8 (bits16 w) = xs @ ys"
  shows "\<exists>w' s'. pack_bits (length xs) flag w s = Some (w', s') \<and> packed flag w s xs w' s' \<and>
    drop 8 (bits16 w') = ys @ replicate (length xs) False"
  using assms
proof (induction xs arbitrary: w s ys)
  case (Cons x xs)
  obtain w1 s1 where s1: "pack_bit flag w s = Some (w1, s1)" "packed flag w s [x] w1 s1"
    "drop 8 (bits16 w1) = (xs @ ys) @ [False]"
    using pack_bit_line [OF Cons.prems(1), of w x "xs @ ys" flag] Cons.prems(2) by (auto simp: packed_def)
  then have ok: "pack_ok s1"
    by (simp add: packed_def)
  obtain w' s' where "pack_bits (length xs) flag w1 s1 = Some (w', s')" "packed flag w1 s1 xs w' s'"
    "drop 8 (bits16 w') = (ys @ [False]) @ replicate (length xs) False"
    using Cons.IH [OF ok, of w1 "ys @ [False]"] s1(3) by auto
  then show ?case
    using s1(1) packed_trans [OF s1(2)] by fastforce
qed (simp add: packed_def)

lemma pack_octets_line:
  assumes "pack_ok s" "drop 8 (bits16 w) = replicate 8 False"
  shows "\<exists>w' s'. pack_octets buf flag w s = Some (w', s') \<and> packed flag w s (stream_msb buf) w' s'"
  using assms
proof (induction buf arbitrary: w s)
  case (Cons b buf)
  have w: "bits16 (w OR ucast b) = take 8 (bits16 w) @ bits_msb b"
    by (rule bits16_or_octet [OF Cons.prems(2)])
  then have "drop 8 (bits16 (w OR ucast b)) = bits_msb b @ []"
    by simp
  from pack_bits_line [OF Cons.prems(1) this, of flag] obtain w1 s1 where
    s1: "pack_bits 8 flag (w OR ucast b) s = Some (w1, s1)" "packed flag (w OR ucast b) s (bits_msb b) w1 s1"
    "drop 8 (bits16 w1) = replicate 8 False"
    by auto
  have first: "packed flag w s (bits_msb b) w1 s1"
    using s1(2) by (simp add: packed_def line_at_def w)
  then have "pack_ok s1"
    by (simp add: packed_def)
  then obtain w' s' where "pack_octets buf flag w1 s1 = Some (w', s')" "packed flag w1 s1 (stream_msb buf) w' s'"
    using Cons.IH [OF _ s1(3)] by blast
  then show ?case
    using s1(1) packed_trans [OF first] by auto
qed (simp add: packed_def)

text \<open>The line so far between two calls of \<^verbatim>\<open>pack\<close>.\<close>

definition tx_pending :: "HDLC \<Rightarrow> bits" where
  "tx_pending s = drop (8 - hd_rawByteLen s) (bits_msb (hd_rawByte s))"

definition packed_line :: "HDLC \<Rightarrow> bits" where
  "packed_line s = stream_msb (stream_octets (hd_outData s)) @ tx_pending s"

lemma bits_msb_zero: "bits_msb 0 = replicate 8 False"
  by (simp add: bits_msb_def bits_lsb_def indices_8 eval_nat_numeral)

lemma pack_line:
  assumes "pack_ok s"
  shows "\<exists>s'. pack s buf flag = Some s' \<and> pack_ok s' \<and> pack_same s s' \<and>
    packed_line s' = packed_line s @ sent_bits flag (hd_rawOnes s) (stream_msb buf) \<and>
    hd_rawOnes s' = (if flag then 0 else run_after (hd_rawOnes s) (stream_msb buf))"
proof -
  let ?w = "push_bit 8 (ucast (hd_rawByte s)) :: u16"
  have w: "bits16 ?w = bits_msb (hd_rawByte s) @ replicate 8 False"
    using bits16_octets [of "hd_rawByte s" 0] by (simp add: bits_msb_zero)
  then obtain w' s' where s': "pack_octets buf flag ?w s = Some (w', s')" "packed flag ?w s (stream_msb buf) w' s'"
    using pack_octets_line [OF assms, of ?w buf flag] by auto
  let ?s = "s'\<lparr>hd_rawByte := ucast (drop_bit 8 w')\<rparr>"
  have "packed_line ?s = line_at w' s'"
    by (simp add: packed_line_def tx_pending_def line_at_def bits_msb_high)
  moreover have "line_at ?w s = packed_line s"
    by (simp add: packed_line_def tx_pending_def line_at_def w)
  ultimately show ?thesis
    using s' by (auto simp: pack_def packed_def pack_ok_def pack_same_def ones_after_def packed_line_def tx_pending_def)
qed

section \<open>Reading the line\<close>

definition fcs_octets :: "u32 \<Rightarrow> octets" where
  "fcs_octets fcs = [ucast (drop_bit 8 (FCS_word fcs)), ucast (FCS_word fcs)]"

text \<open>The line that a finished frame still gives: what is packed, and the rest of the input.\<close>

definition tx_future :: "HDLC \<Rightarrow> bits" where
  "tx_future s = packed_line s @
     (case hd_inData s of None \<Rightarrow> []
      | Some d \<Rightarrow> stuff (hd_rawOnes s) (stream_msb (stream_octets d @ fcs_octets (FCS_build (hd_fcs s) (stream_octets d)))) @
          hdlc_flag @ hdlc_flag)"

definition frame_in :: "DataStream \<Rightarrow> bool" where
  "frame_in d \<longleftrightarrow> stream_ok d \<and> ds_eof d \<and> GetDiag d AND diagErrorMask = 0"

definition modem_tx_ok :: "HDLC \<Rightarrow> bool" where
  "modem_tx_ok s \<longleftrightarrow> hd_inDataType s = dtHdlc \<and> hd_outDataType s = dtRaw \<and> stream_ok (hd_outData s) \<and> hd_rawByteLen s < 8 \<and>
     hd_rawOnes s < 5 \<and> (case hd_inData s of None \<Rightarrow> ds_eof (hd_outData s) | Some d \<Rightarrow> frame_in d \<and> \<not> ds_eof (hd_outData s))"

definition in_size :: "HDLC \<Rightarrow> nat" where
  "in_size s = (case hd_inData s of None \<Rightarrow> 0 | Some d \<Rightarrow> Suc (length (stream_octets d)))"

lemma FCS_build_append: "FCS_build f (xs @ ys) = FCS_build (FCS_build f xs) ys"
  by (induction xs arbitrary: f) simp_all

lemma read_frame:
  assumes "frame_in d"
  obtains d' where "GetData d k = Some (if stream_octets d = [] then -1 else int (length (take k (stream_octets d))), take k (stream_octets d), d')"
    "frame_in d'" "stream_octets d' = drop k (stream_octets d)"
  using GetData_spec [of d k] assms by (auto simp: frame_in_def stream_same_def GetDiag_def)

lemma tx_eof_fields [simp]:
  "packed_line (s\<lparr>hd_outData := PutEof (hd_outData s), hd_inData := None\<rparr>) = packed_line s"
  by (simp add: packed_line_def tx_pending_def)

lemma raw_fill_line:
  assumes ok: "modem_tx_ok s"
  shows "\<exists>s'. raw_fill s = Some (True, s') \<and> modem_tx_ok s' \<and> tx_future s' = tx_future s \<and> (hd_inData s \<noteq> None \<longrightarrow> in_size s' < in_size s) \<and>
    (hd_inData s = None \<longrightarrow> s' = s)"
proof (cases "hd_inData s")
  case None
  then show ?thesis
    using ok by (simp add: raw_fill_def)
next
  case (Some d)
  then have d: "frame_in d" and pk: "pack_ok s"
    using ok by (simp_all add: modem_tx_ok_def pack_ok_def)
  let ?xs = "stream_octets d"
  obtain d1 where d1: "GetData d 256 = Some (if ?xs = [] then -1 else int (length (take 256 ?xs)), take 256 ?xs, d1)"
    "frame_in d1" "stream_octets d1 = drop 256 ?xs"
    using read_frame [OF d] .
  show ?thesis
  proof (cases "?xs = []")
    case True
    let ?s = "s\<lparr>hd_inData := Some d1\<rparr>"
    have pk1: "pack_ok ?s"
      using pk by (simp add: pack_ok_def)
    obtain s1 where s1: "pack ?s (fcs_octets (hd_fcs s)) False = Some s1" "pack_ok s1" "pack_same ?s s1"
      "packed_line s1 = packed_line ?s @ stuff (hd_rawOnes s) (stream_msb (fcs_octets (hd_fcs s)))"
      using pack_line [OF pk1, of "fcs_octets (hd_fcs s)" False] by (auto simp: sent_bits_def)
    obtain s2 where s2: "pack s1 [0x7E, 0x7E] True = Some s2" "pack_ok s2" "pack_same s1 s2"
      "packed_line s2 = packed_line s1 @ hdlc_flag @ hdlc_flag"
      using pack_line [OF s1(2), of "[0x7E, 0x7E]" True] by (auto simp: sent_bits_def bits_msb_flag)
    let ?s' = "s2\<lparr>hd_outData := PutEof (hd_outData s2), hd_inData := None\<rparr>"
    have "raw_fill s = Some (True, ?s')"
      using Some d1(1,2) True s1(1) s2(1) by (simp add: raw_fill_def frame_in_def fcs_octets_def)
    moreover have "modem_tx_ok ?s'"
      using ok s2(2) pack_same_trans [OF s1(3) s2(3)]
      by (simp add: modem_tx_ok_def pack_ok_def pack_same_def) (simp add: PutEof_def)
    moreover have "tx_future ?s' = tx_future s"
      using Some True s1(4) s2(4) by (simp add: tx_future_def) (simp add: packed_line_def tx_pending_def)
    ultimately show ?thesis
      using Some by (simp add: in_size_def)
  next
    case False
    let ?buf = "take 256 ?xs"
    let ?s = "s\<lparr>hd_inData := Some d1, hd_lastChar := uint (?buf ! nat (int (length ?buf) - 1)), hd_fcs := FCS_build (hd_fcs s) ?buf\<rparr>"
    have pk1: "pack_ok ?s"
      using pk by (simp add: pack_ok_def)
    obtain s1 where s1: "pack ?s ?buf False = Some s1" "pack_ok s1" "pack_same ?s s1"
      "packed_line s1 = packed_line ?s @ stuff (hd_rawOnes s) (stream_msb ?buf)" "hd_rawOnes s1 = run_after (hd_rawOnes s) (stream_msb ?buf)"
      using pack_line [OF pk1, of ?buf False] by (auto simp: sent_bits_def)
    have "0 < int (length ?buf)"
      using False by simp
    then have "raw_fill s = Some (True, s1)"
      using Some d1(1) False s1(1) unfolding raw_fill_def by (simp add: Let_def)
    moreover have "modem_tx_ok s1"
      using ok s1(2,3) d1(2) by (simp add: modem_tx_ok_def pack_ok_def pack_same_def)
    moreover have "tx_future s1 = tx_future s"
    proof -
      have "packed_line ?s = packed_line s"
        by (simp add: packed_line_def tx_pending_def)
      moreover have "stream_msb ?xs = stream_msb ?buf @ stream_msb (drop 256 ?xs)"
        by (metis append_take_drop_id stream_msb_append)
      moreover have "FCS_build (FCS_build (hd_fcs s) ?buf) (drop 256 ?xs) = FCS_build (hd_fcs s) ?xs"
        by (metis FCS_build_append append_take_drop_id)
      ultimately show ?thesis
        using Some s1(3-5) d1(3) by (simp add: tx_future_def pack_same_def stuff_append)
    qed
    moreover have "in_size s1 < in_size s"
      using Some False s1(3) d1(3) by (simp add: in_size_def pack_same_def)
    ultimately show ?thesis
      using Some by simp
  qed
qed

definition tx_took :: "HDLC \<Rightarrow> octets \<Rightarrow> HDLC \<Rightarrow> bool" where
  "tx_took s xs s' \<longleftrightarrow> modem_tx_ok s' \<and> tx_future s = stream_msb xs @ tx_future s'"

definition tx_done :: "HDLC \<Rightarrow> bool" where
  "tx_done s \<longleftrightarrow> hd_inData s = None \<and> stream_octets (hd_outData s) = []"

lemma tx_took_trans: "tx_took s xs s1 \<Longrightarrow> tx_took s1 ys s' \<Longrightarrow> tx_took s (xs @ ys) s'"
  by (simp add: tx_took_def)

lemma take_out:
  assumes ok: "modem_tx_ok s"
  obtains "GetData (hd_outData s) k = Some (-1, [], hd_outData s)" "tx_done s"
  | d n where "GetData (hd_outData s) k = Some (int n, take n (stream_octets (hd_outData s)), d)"
    "tx_took s (take n (stream_octets (hd_outData s))) (s\<lparr>hd_outData := d\<rparr>)"
    "n = min k (length (stream_octets (hd_outData s)))" "stream_octets (hd_outData s) \<noteq> [] \<or> hd_inData s \<noteq> None"
proof -
  let ?d = "hd_outData s" and ?xs = "stream_octets (hd_outData s)"
  have sok: "stream_ok ?d"
    using ok by (simp add: modem_tx_ok_def)
  show ?thesis
  proof (cases "?xs = [] \<and> hd_inData s = None")
    case True
    then show ?thesis
      using that(1) ok sok by (auto simp: modem_tx_ok_def tx_done_def GetData_def stream_ok_def)
  next
    case False
    let ?n = "min k (length ?xs)"
    obtain d where d: "GetData ?d k = Some (int ?n, take k ?xs, d)" "stream_ok d" "stream_same ?d d" "stream_octets d = drop k ?xs"
      using GetData_spec [OF sok, of k] False ok by (auto simp: modem_tx_ok_def min.commute)
    have n: "take k ?xs = take ?n ?xs" "drop k ?xs = drop ?n ?xs"
      by (auto simp: min_def)
    have "stream_msb ?xs = stream_msb (take ?n ?xs) @ stream_msb (drop ?n ?xs)"
      by (metis append_take_drop_id stream_msb_append)
    then have "tx_took s (take ?n ?xs) (s\<lparr>hd_outData := d\<rparr>)"
      using ok d(2-4) unfolding n
      by (simp add: tx_took_def modem_tx_ok_def tx_future_def packed_line_def tx_pending_def stream_same_def split: option.splits)
    then show ?thesis
      using that(2) d(1) False unfolding n by blast
  qed
qed

text \<open>The result of a read that returned \<open>out\<close>.\<close>

definition tx_read :: "HDLC \<Rightarrow> octets \<Rightarrow> int \<Rightarrow> HDLC \<Rightarrow> bool" where
  "tx_read s out r s' \<longleftrightarrow> tx_took s out s' \<and> (r = int (length out) \<and> out \<noteq> [] \<or> r = -1 \<and> out = [] \<and> tx_done s')"

lemma raw_count_fields [simp]:
  "modem_tx_ok (s\<lparr>hd_rawCount := n\<rparr>) = modem_tx_ok s" "tx_future (s\<lparr>hd_rawCount := n\<rparr>) = tx_future s"
  by (auto simp: modem_tx_ok_def tx_future_def packed_line_def tx_pending_def split: option.split)

lemma raw_loop_line:
  assumes "tx_took s0 out s" "0 < k \<or> out \<noteq> []"
  shows "\<exists>r o' s'. raw_loop s k out = Some (r, o', s') \<and> tx_read s0 o' r s' \<and> length o' \<le> length out + k"
  using assms
proof (induction "in_size s + k" arbitrary: s k out rule: less_induct)
  case less
  obtain s1 where s1: "raw_fill s = Some (True, s1)" "modem_tx_ok s1" "tx_future s1 = tx_future s" "hd_inData s \<noteq> None \<longrightarrow> in_size s1 < in_size s"
    "hd_inData s = None \<longrightarrow> s1 = s"
    using raw_fill_line [of s] less.prems(1) by (auto simp: tx_took_def)
  have took: "tx_took s0 out s1"
    using less.prems(1) s1(2,3) by (simp add: tx_took_def)
  from s1(2) show ?case
  proof (cases rule: take_out [where k = k])
    case 1
    then have "raw_loop s k out = Some (if out \<noteq> [] then raw_result s1 out else (-1, [], s1))"
      using s1(1) by (subst raw_loop.simps) simp
    moreover have "tx_read s0 out (int (length out)) (s1\<lparr>hd_rawCount := hd_rawCount s1 + int (length out)\<rparr>)" if "out \<noteq> []"
      using that took by (simp add: tx_read_def tx_took_def)
    moreover have "tx_read s0 [] (-1) s1" if "out = []"
      using that took 1(2) by (simp add: tx_read_def)
    ultimately show ?thesis
      by (cases "out = []") (simp_all add: raw_result_def)
  next
    case (2 d n)
    let ?s = "s1\<lparr>hd_outData := d\<rparr>" and ?o = "out @ take n (stream_octets (hd_outData s1))"
    have took': "tx_took s0 ?o ?s"
      using tx_took_trans [OF took 2(2)] .
    show ?thesis
    proof (cases "k - n = 0")
      case True
      then have "raw_loop s k out = Some (raw_result ?s ?o)"
        using s1(1) 2(1) by (subst raw_loop.simps) simp
      moreover have "?o \<noteq> []" "length ?o \<le> length out + k"
        using True 2(3) less.prems(2) by auto
      moreover from this took' have "tx_read s0 ?o (int (length ?o)) (?s\<lparr>hd_rawCount := hd_rawCount ?s + int (length ?o)\<rparr>)"
        unfolding tx_read_def tx_took_def raw_count_fields by blast
      ultimately show ?thesis
        unfolding raw_result_def by blast
    next
      case False
      have step: "raw_loop s k out = raw_loop ?s (k - n) ?o"
        using s1(1) 2(1) False by (subst raw_loop.simps) simp
      have "in_size ?s + (k - n) < in_size s + k"
      proof (cases "hd_inData s")
        case None
        then have "0 < n" "in_size ?s = in_size s"
          using s1(5) 2(3,4) False by (auto simp: in_size_def)
        then show ?thesis
          using False by simp
      next
        case (Some d')
        then show ?thesis
          using s1(4) by (simp add: in_size_def)
      qed
      moreover have "0 < k - n \<or> ?o \<noteq> []"
        using False by simp
      ultimately obtain r o' s' where "raw_loop ?s (k - n) ?o = Some (r, o', s')" "tx_read s0 o' r s'" "length o' \<le> length ?o + (k - n)"
        using less.hyps [OF _ took', of "k - n"] by metis
      moreover have "length ?o + (k - n) = length out + k"
        using False 2(3) by simp
      ultimately show ?thesis
        unfolding step by auto
    qed
  qed
qed

lemma HDLC_GetData_line:
  assumes "modem_tx_ok s" "0 < k"
  shows "\<exists>r out s'. HDLC_GetData s k = Some (r, out, s') \<and> tx_read s out r s' \<and> length out \<le> k"
proof -
  have types: "hd_inDataType s = dtHdlc" "hd_outDataType s = dtRaw" "dtRaw \<noteq> dtHdlc"
    using assms(1) by (simp_all add: modem_tx_ok_def dtRaw_def dtHdlc_def)
  from assms(1) show ?thesis
  proof (cases rule: take_out [where k = k])
    case 1
    then show ?thesis
      using types assms(1) by (simp add: HDLC_GetData_def GetRawData_def tx_read_def tx_took_def)
  next
    case (2 d n)
    then have "0 < k - n \<or> take n (stream_octets (hd_outData s)) \<noteq> []"
      using assms(2) by auto
    from raw_loop_line [OF 2(2) this] show ?thesis
      using types 2(1,3) by (fastforce simp: HDLC_GetData_def GetRawData_def)
  qed
qed

fun hdlc_reads :: "nat list \<Rightarrow> HDLC \<Rightarrow> (octets \<times> HDLC) option" where
  "hdlc_reads [] s = Some ([], s)"
| "hdlc_reads (n # ns) s = do {
     (r, out, s) \<leftarrow> HDLC_GetData s n;
     (rest, s) \<leftarrow> hdlc_reads ns s;
     Some (out @ rest, s)
   }"

lemma reads_done:
  assumes "modem_tx_ok s" "tx_done s"
  shows "hdlc_reads ns s = Some ([], s)"
proof (induction ns)
  case (Cons n ns)
  have "GetData (hd_outData s) n = Some (-1, [], hd_outData s)"
    using assms by (auto simp: GetData_def modem_tx_ok_def tx_done_def stream_ok_def)
  then have "HDLC_GetData s n = Some (-1, [], s)"
    using assms(1) by (simp add: HDLC_GetData_def GetRawData_def modem_tx_ok_def dtRaw_def dtHdlc_def)
  then show ?case
    using Cons by simp
qed simp

lemma reads_line:
  assumes "modem_tx_ok s" "\<forall>n\<in>set ns. 0 < n" "length (tx_future s) < 8 * length ns"
  shows "\<exists>out s'. hdlc_reads ns s = Some (out, s') \<and> tx_took s out s' \<and> tx_done s'"
  using assms
proof (induction ns arbitrary: s)
  case (Cons n ns)
  obtain r out s1 where s1: "HDLC_GetData s n = Some (r, out, s1)" "tx_read s out r s1"
    using HDLC_GetData_line [OF Cons.prems(1), of n] Cons.prems(2) by auto
  then have took: "tx_took s out s1"
    by (simp add: tx_read_def)
  show ?case
  proof (cases "out = []")
    case True
    then have "tx_done s1"
      using s1(2) by (simp add: tx_read_def)
    then show ?thesis
      using reads_done [of s1 ns] s1(1) took True by (simp add: tx_took_def)
  next
    case False
    then have "8 * 1 \<le> 8 * length out"
      by (cases out) auto
    then have "length (tx_future s1) < 8 * length ns" "modem_tx_ok s1"
      using took Cons.prems(3) by (auto simp: tx_took_def)
    then obtain rest s' where "hdlc_reads ns s1 = Some (rest, s')" "tx_took s1 rest s'" "tx_done s'"
      using Cons.IH [of s1] Cons.prems(2) by auto
    then show ?thesis
      using s1(1) tx_took_trans [OF took] by auto
  qed
qed simp

section \<open>A frame on the line\<close>

definition modem_line :: "nat \<Rightarrow> octets \<Rightarrow> bits" where
  "modem_line flags xs = concat (replicate flags hdlc_flag) @
     stuff 0 (stream_msb (xs @ fcs_octets (FCS_build FCS_new xs))) @ hdlc_flag @ hdlc_flag"

lemma put_flags_line:
  assumes "pack_ok s" "hd_rawOnes s = 0"
  shows "\<exists>s'. put_flags n s = Some s' \<and> pack_ok s' \<and> pack_same s s' \<and> hd_rawOnes s' = 0 \<and>
    packed_line s' = packed_line s @ concat (replicate n hdlc_flag)"
  using assms
proof (induction n arbitrary: s)
  case (Suc n)
  obtain s1 where s1: "pack s [0x7E] True = Some s1" "pack_ok s1" "pack_same s s1" "hd_rawOnes s1 = 0" "packed_line s1 = packed_line s @ hdlc_flag"
    using pack_line [OF Suc.prems(1), of "[0x7E]" True] by (auto simp: sent_bits_def bits_msb_flag)
  then show ?case
    using Suc.IH [OF s1(2,4)] pack_same_trans [OF s1(3)] by auto
qed simp

text \<open>A stream with the octets of a frame and the end mark.\<close>

lemma frame_stream:
  obtains d where "PutData (DataStream_new t) xs = Some (int (length xs), d)" "frame_in (PutEof d)" "stream_octets (PutEof d) = xs"
proof -
  obtain d where d: "PutData (DataStream_new t) xs = Some (int (length xs), d)" "stream_ok d" "stream_same (DataStream_new t) d" "stream_octets d = xs"
  proof -
    have "\<not> ds_eof (DataStream_new t)"
      by (simp add: DataStream_new_def)
    then show ?thesis
      using that PutData_spec [OF stream_ok_new(1), of t xs] stream_ok_new(2) [of t] by auto
  qed
  then have "frame_in (PutEof d)"
    by (simp add: frame_in_def stream_same_def) (simp add: PutEof_def GetDiag_def DataStream_new_def)
  then show ?thesis
    using that d(1,4) by simp
qed

lemma raw_start:
  assumes "frame_in d"
  obtains s where "GetRawStart (PutHdlcData (HDLC_new raw chunk len) (Some d)) flags = Some s" "modem_tx_ok s"
    "tx_future s = modem_line flags (stream_octets d)"
proof -
  let ?s = "PutHdlcData (HDLC_new raw chunk len) (Some d)"
  let ?start = "?s\<lparr>hd_outDataType := dtRaw, hd_outData := Clean (hd_outData ?s), hd_fcs := FCS_new\<rparr>"
  have out: "stream_ok (hd_outData ?start)" "stream_octets (hd_outData ?start) = []" "\<not> ds_eof (hd_outData ?start)"
    using Clean_spec [OF stream_ok_new(1), of 0] by (simp_all add: PutHdlcData_def HDLC_new_def)
  then have ok: "pack_ok ?start" and empty: "hd_rawOnes ?start = 0" "packed_line ?start = []"
    by (simp_all add: pack_ok_def packed_line_def tx_pending_def) (simp_all add: PutHdlcData_def HDLC_new_def)
  from put_flags_line [OF ok empty(1), of flags] empty(2) obtain s where s: "put_flags flags ?start = Some s" "pack_ok s" "pack_same ?start s"
    "hd_rawOnes s = 0" "packed_line s = concat (replicate flags hdlc_flag)"
    by auto
  have "GetRawStart ?s flags = Some s"
  proof -
    have "hd_inDataType ?start = dtHdlc"
      by (simp add: PutHdlcData_def)
    then show ?thesis
      using s(1) unfolding GetRawStart_def Let_def by (simp only: refl if_True)
  qed
  moreover have "modem_tx_ok s" "tx_future s = modem_line flags (stream_octets d)"
    using s(2-5) assms by (simp_all add: modem_tx_ok_def pack_ok_def pack_same_def PutHdlcData_def tx_future_def modem_line_def)
  ultimately show ?thesis
    using that by blast
qed

lemma sent_line:
  assumes "\<forall>n\<in>set ns. 0 < n" "length (modem_line flags xs) < 8 * length ns"
  shows "\<exists>d s out s'. PutData (DataStream_new 0) xs = Some (int (length xs), d) \<and>
    GetRawStart (PutHdlcData (HDLC_new raw chunk len) (Some (PutEof d))) flags = Some s \<and>
    hdlc_reads ns s = Some (out, s') \<and> stream_msb out @ tx_pending s' = modem_line flags xs \<and> length (tx_pending s') < 8"
proof -
  obtain d where d: "PutData (DataStream_new 0) xs = Some (int (length xs), d)" "frame_in (PutEof d)" "stream_octets (PutEof d) = xs"
    by (rule frame_stream)
  obtain s where s: "GetRawStart (PutHdlcData (HDLC_new raw chunk len) (Some (PutEof d))) flags = Some s" "modem_tx_ok s"
    "tx_future s = modem_line flags xs"
    using raw_start [OF d(2), of raw chunk len flags] unfolding d(3) .
  obtain out s' where out: "hdlc_reads ns s = Some (out, s')" "tx_took s out s'" "tx_done s'"
    using reads_line [OF s(2) assms(1)] assms(2) s(3) by auto
  then have "stream_msb out @ tx_pending s' = modem_line flags xs" "length (tx_pending s') < 8"
    using s(3) by (simp_all add: tx_took_def tx_done_def tx_future_def packed_line_def) (simp add: tx_pending_def modem_tx_ok_def)
  then show ?thesis
    using d(1) s(1) out(1) by blast
qed

text \<open>
  Claim C7. The line of t38modem. Whatever octets a frame has, and in whatever portions the line is read until
  it ends, the octets read, most significant bit first, and the fewer than eight bits left over are
  exactly: the opening flags, the frame with its check sequence bit stuffed, and two closing flags.
\<close>

theorem modem_hdlc_tx_line:
  assumes "\<forall>n\<in>set ns. 0 < n" "length (modem_line flags xs) < 8 * length ns"
  shows "\<exists>d s out s'. PutData (DataStream_new 0) xs = Some (int (length xs), d) \<and>
    GetRawStart (PutHdlcData (HDLC_new raw chunk len) (Some (PutEof d))) flags = Some s \<and>
    hdlc_reads ns s = Some (out, s') \<and> stream_msb out @ tx_pending s' = modem_line flags xs \<and> length (tx_pending s') < 8"
  using assms by (rule sent_line)

theorem modem_hdlc_tx_line_witness:
  "\<exists>d s out s'. PutData (DataStream_new 0) [0xFF, 0x13] = Some (2, d) \<and>
    GetRawStart (PutHdlcData (HDLC_new 0 0 0) (Some (PutEof d))) 1 = Some s \<and>
    hdlc_reads (replicate 40 3) s = Some (out, s') \<and> stream_msb out @ tx_pending s' = modem_line 1 [0xFF, 0x13] \<and> length (tx_pending s') < 8"
proof -
  have "length (modem_line 1 [0xFF, 0x13]) < 8 * length (replicate 40 (3 :: nat))"
    by code_simp
  then show ?thesis
    using modem_hdlc_tx_line [of "replicate 40 3" 1 "[0xFF, 0x13]" 0 0 0] by simp
qed

end
