(* ===== verification/Modem_Hdlc_Rx.thy ===== *)
theory Modem_Hdlc_Rx
  imports Modem_Hdlc_Tx
begin

text \<open>
  What the HDLC converter of \<^verbatim>\<open>t38modem/hdlc.cxx\<close> makes of a line: the functions that search for the flag and
  unpack the frame are scans over the bits not yet used, and a line with one frame gives the octets of the
  frame, with the check sequence kept for the comparison.
\<close>

section \<open>Windows\<close>

definition window :: "u16 \<Rightarrow> bits \<Rightarrow> bool" where
  "window w l \<longleftrightarrow> length l \<le> 16 \<and> bits16 w = l @ replicate (16 - length l) False"

lemma window_start:
  assumes "hd_rawByteLen s < 8"
  shows "window (raw_window s b) (tx_pending s @ bits_msb b)"
proof -
  have "bits16 (raw_window s b) = drop (8 - hd_rawByteLen s) (bits_msb (hd_rawByte s) @ bits_msb b) @
      replicate (8 - hd_rawByteLen s) False"
    unfolding raw_window_def bits16_octets [symmetric] by (rule bits16_push) simp
  then show ?thesis
    using assms by (simp add: window_def tx_pending_def)
qed

lemma window_shift: "window w l \<Longrightarrow> l \<noteq> [] \<Longrightarrow> window (push_bit 1 w) (tl l)"
proof -
  assume w: "window w l" "l \<noteq> []"
  then have "bits16 (push_bit 1 w) = tl l @ replicate (16 - length l) False @ [False]"
    using bits16_push [of 1 w] by (cases l) (simp_all add: window_def)
  moreover have "replicate (16 - length l) False @ [False] = replicate (16 - length (tl l)) False"
    using w by (cases l) (auto simp: window_def replicate_append_same Suc_diff_le simp flip: replicate_Suc)
  moreover have "length (tl l) \<le> 16"
    using w(1) by (auto simp: window_def)
  ultimately show ?thesis
    unfolding window_def by (simp only: simp_thms)
qed

lemma window_top:
  assumes "window w l" "8 \<le> length l"
  shows "(drop_bit 8 w = 0x7E) = (take 8 l = hdlc_flag)" "(w AND 0x8000 \<noteq> 0) = hd l"
  using assms by (cases l; simp add: window_flag window_bit window_def)+

lemma window_rest:
  assumes "window w l" "length l = 16 - j" "j \<le> 8"
  shows "drop j (bits_msb (ucast (drop_bit j w))) = drop 8 l"
proof (rule nth_equalityI)
  show "length (drop j (bits_msb (ucast (drop_bit j w)))) = length (drop 8 l)"
    using assms by simp
next
  fix i
  assume "i < length (drop j (bits_msb (ucast (drop_bit j w))))"
  then have i: "i + j < 8" "7 - (j + i) < 8" "j + (7 - (j + i)) = 7 - i" "15 - (8 + i) = 7 - i"
    by simp_all
  then have "drop j (bits_msb (ucast (drop_bit j w))) ! i = bit w (7 - i)"
    by (simp add: bits_msb_nth bit_simps)
  also have "\<dots> = bits16 w ! (8 + i)"
    using i(1,4) by (simp add: bits16_nth)
  also have "\<dots> = l ! (8 + i)"
  proof -
    have "8 + i < length l"
      using i(1) assms(2) by simp
    then show ?thesis
      using assms(1) by (simp add: window_def nth_append)
  qed
  finally show "drop j (bits_msb (ucast (drop_bit j w))) ! i = drop 8 l ! i"
    using i(1) assms by simp
qed

lemma window_end:
  assumes "window w l" "length l = 7"
  shows "drop 1 (bits_msb (ucast (drop_bit 9 w))) = l"
proof (rule nth_equalityI)
  fix i
  assume "i < length (drop 1 (bits_msb (ucast (drop_bit 9 w))))"
  then have i: "i < 7" "9 + (6 - i) = 15 - i" "7 - Suc i = 6 - i" "6 - i < 8"
    by simp_all
  then have "drop 1 (bits_msb (ucast (drop_bit 9 w))) ! i = bits16 w ! i"
    by (simp add: bits_msb_nth bits16_nth bit_simps)
  then show "drop 1 (bits_msb (ucast (drop_bit 9 w))) ! i = l ! i"
    using i(1) assms by (simp add: window_def nth_append)
qed (use assms in simp)

lemma window_next:
  assumes "window w l" "length l = 16 - j" "j \<le> 8"
  shows "window (push_bit 1 w) (tl l)" "length (tl l) = 16 - (j + 1)" "j + 1 \<le> 9" "1 \<le> j + 1"
proof -
  have "l \<noteq> []"
    using assms by auto
  then show "window (push_bit 1 w) (tl l)"
    by (rule window_shift [OF assms(1)])
qed (use assms in auto)

section \<open>Scans\<close>

text \<open>The search for the first flag, with the bits that follow it or are left.\<close>

function sync_bits :: "bits \<Rightarrow> bool \<times> bits" where
  "sync_bits l = (if length l < 8 then (False, l) else if take 8 l = hdlc_flag then (True, drop 8 l) else sync_bits (tl l))"
  by pat_completeness auto
termination
  by (relation "measure length") auto

function unpack_bits :: "bits \<Rightarrow> HDLC \<Rightarrow> (bool \<times> bits \<times> HDLC) option" where
  "unpack_bits l s =
     (if length l < 8 then Some (True, l, s)
      else if take 8 l = hdlc_flag then Some (False, drop 8 l, s)
      else do { s \<leftarrow> chunk_out (chunk_bit (hd l) s); unpack_bits (tl l) s })"
  by pat_completeness auto
termination
  by (relation "measure (\<lambda>(l, s). length l)") auto

declare sync_bits.simps [simp del] unpack_bits.simps [simp del]

text \<open>The state with the bits \<open>l\<close> left over.\<close>

definition left_over :: "bits \<Rightarrow> HDLC \<Rightarrow> HDLC \<Rightarrow> bool" where
  "left_over l s s' \<longleftrightarrow> tx_pending s' = l \<and> hd_rawByteLen s' = length l \<and> length l < 8 \<and>
     (\<exists>r. s' = s\<lparr>hd_rawByte := r, hd_rawByteLen := length l\<rparr>)"

lemma left_overI:
  assumes "drop (8 - n) (bits_msb r) = l" "length l = n" "n < 8"
  shows "left_over l s (s\<lparr>hd_rawByte := r, hd_rawByteLen := n\<rparr>)"
  using assms by (auto simp: left_over_def tx_pending_def)

lemma sync_loop_bits:
  assumes "window w l" "length l = 16 - j" "j \<le> 9" "1 \<le> j"
  shows "sync_loop j w = (f, j', w') \<Longrightarrow>
    fst (sync_bits l) = f \<and> left_over (snd (sync_bits l)) s (s\<lparr>hd_rawByte := ucast (drop_bit j' w'), hd_rawByteLen := if f then 8 - j' else 7\<rparr>)"
  using assms
proof (induction j w arbitrary: l rule: sync_loop.induct)
  case (1 j w)
  show ?case
  proof (cases "j \<le> 8")
    case False
    then have "j = 9" "length l = 7"
      using 1(4,5) by auto
    then show ?thesis
      using 1(2,3) window_end [OF 1(3)] by (auto simp: sync_loop.simps sync_bits.simps intro!: left_overI)
  next
    case True
    then have len: "8 \<le> length l"
      using 1(4) by simp
    note top = window_top(1) [OF 1(3) len]
    show ?thesis
    proof (cases "take 8 l = hdlc_flag")
      case flag: True
      then show ?thesis
        using 1(2,4,6) True len top window_rest [OF 1(3,4) True]
        by (auto simp: sync_loop.simps [of j] sync_bits.simps [of l] intro!: left_overI)
    next
      case False
      then have loop: "sync_loop (j + 1) (push_bit 1 w) = (f, j', w')" "sync_bits l = sync_bits (tl l)" "drop_bit 8 w \<noteq> 0x7E"
        using 1(2) True len top by (simp_all add: sync_loop.simps [of j] sync_bits.simps [of l])
      from 1(1) [OF True loop(3,1) window_next [OF 1(3,4) True]] show ?thesis
        unfolding loop(2) .
    qed
  qed
qed

lemma sync_scan:
  assumes "hd_rawByteLen s < 8"
  shows "fst (sync s b) = fst (sync_bits (tx_pending s @ bits_msb b)) \<and>
    left_over (snd (sync_bits (tx_pending s @ bits_msb b))) s (snd (sync s b))"
proof -
  obtain f j w where l: "sync_loop (8 - hd_rawByteLen s) (raw_window s b) = (f, j, w)"
    by (cases "sync_loop (8 - hd_rawByteLen s) (raw_window s b)")
  have "length (tx_pending s @ bits_msb b) = 16 - (8 - hd_rawByteLen s)"
    using assms by (simp add: tx_pending_def)
  from sync_loop_bits [OF window_start [OF assms] this _ _ l, of s] show ?thesis
    using assms by (simp add: sync_def l)
qed

lemma skipFlag_scan:
  assumes "hd_rawByteLen s < 8"
  shows "if take 8 (tx_pending s @ bits_msb b) = hdlc_flag
    then fst (skipFlag s b) \<and> left_over (drop 8 (tx_pending s @ bits_msb b)) s (snd (skipFlag s b))
    else skipFlag s b = (False, s)"
proof -
  let ?l = "tx_pending s @ bits_msb b" and ?w = "raw_window s b" and ?j = "8 - hd_rawByteLen s"
  have l: "length ?l = 16 - ?j"
    using assms by (simp add: tx_pending_def)
  have top: "(drop_bit 8 ?w = 0x7E) = (take 8 ?l = hdlc_flag)"
    by (rule window_top(1) [OF window_start [OF assms]]) (use l in simp)
  have "drop ?j (bits_msb (ucast (drop_bit ?j ?w))) = drop 8 ?l"
    by (rule window_rest [OF window_start [OF assms] l]) simp
  moreover have "length (drop 8 ?l) = hd_rawByteLen s"
    using l assms by simp
  ultimately have "left_over (drop 8 ?l) s (s\<lparr>hd_rawByte := ucast (drop_bit ?j ?w), hd_rawByteLen := hd_rawByteLen s\<rparr>)"
    using assms by (intro left_overI) simp_all
  moreover have "s\<lparr>hd_rawByte := ucast (drop_bit ?j ?w), hd_rawByteLen := hd_rawByteLen s\<rparr> = s\<lparr>hd_rawByte := ucast (drop_bit ?j ?w)\<rparr>"
    by simp
  ultimately show ?thesis
    using top by (simp add: skipFlag_def Let_def)
qed

lemma unpack_loop_bits:
  assumes "window w l" "length l = 16 - j" "j \<le> 9" "1 \<le> j"
  shows "case unpack_bits l s of None \<Rightarrow> unpack_loop j w s = None
    | Some (m, l', s1) \<Rightarrow> \<exists>s'. unpack_loop j w s = Some (m, s') \<and> left_over l' s1 s'"
  using assms
proof (induction j w s arbitrary: l rule: unpack_loop.induct)
  case (1 j w s)
  show ?case
  proof (cases "j \<le> 8")
    case False
    then have "j = 9" "length l = 7"
      using 1(3,4) by auto
    then show ?thesis
      using window_end [OF 1(2)] by (auto simp: unpack_loop.simps unpack_bits.simps intro!: left_overI)
  next
    case True
    then have len: "8 \<le> length l"
      using 1(3) by simp
    note top = window_top [OF 1(2) len]
    show ?thesis
    proof (cases "take 8 l = hdlc_flag")
      case flag: True
      then show ?thesis
        using 1(3,5) True len top window_rest [OF 1(2,3) True]
        by (auto simp: unpack_loop.simps [of j] unpack_bits.simps [of l] intro!: left_overI)
    next
      case False
      note shift = window_next [OF 1(2,3) True]
      show ?thesis
      proof (cases "chunk_out (chunk_bit (hd l) s)")
        case None
        then show ?thesis
          using True False len top by (simp add: unpack_loop.simps [of j] unpack_bits.simps [of l])
      next
        case (Some s1)
        have "unpack_loop j w s = unpack_loop (j + 1) (push_bit 1 w) s1" "unpack_bits l s = unpack_bits (tl l) s1"
          using True False len top Some by (simp_all add: unpack_loop.simps [of j] unpack_bits.simps [of l])
        moreover have "drop_bit 8 w \<noteq> 0x7E" "chunk_out (chunk_bit (w AND 0x8000 \<noteq> 0) s) = Some s1"
          using False top Some by simp_all
        note 1(1) [OF True this shift]
        ultimately show ?thesis
          by (simp only:)
      qed
    qed
  qed
qed

lemma unpack_scan:
  assumes "hd_rawByteLen s < 8" "unpack_bits (tx_pending s @ bits_msb b) s = Some (m, l', s1)"
  obtains s' where "unpack s b = Some (m, s')" "left_over l' s1 s'"
proof -
  have "length (tx_pending s @ bits_msb b) = 16 - (8 - hd_rawByteLen s)"
    using assms(1) by (simp add: tx_pending_def)
  moreover have "8 - hd_rawByteLen s \<le> 9" "1 \<le> 8 - hd_rawByteLen s"
    using assms(1) by auto
  ultimately show ?thesis
    using unpack_loop_bits [OF window_start [OF assms(1)], of b "8 - hd_rawByteLen s" s] assms that by (auto simp: unpack_def)
qed

section \<open>Destuffing\<close>

definition chunk_bits :: "HDLC \<Rightarrow> bits" where
  "chunk_bits s = rev (map (bit (hd_hdlcChunk s)) [0..<hd_hdlcChunkLen s])"

text \<open>The data received, as far as they have not been read, and the state in which more can come.\<close>

definition received_bits :: "HDLC \<Rightarrow> bits" where
  "received_bits s = stream_msb (stream_octets (hd_outData s)) @ chunk_bits s"

definition rx_open :: "HDLC \<Rightarrow> bool" where
  "rx_open s \<longleftrightarrow> stream_ok (hd_outData s) \<and> \<not> ds_eof (hd_outData s) \<and> hd_hdlcChunkLen s < 24 \<and>
     (stream_octets (hd_outData s) \<noteq> [] \<longrightarrow> 16 \<le> hd_hdlcChunkLen s)"

definition unpack_same :: "HDLC \<Rightarrow> HDLC \<Rightarrow> bool" where
  "unpack_same s s' \<longleftrightarrow> hd_inDataType s' = hd_inDataType s \<and> hd_outDataType s' = hd_outDataType s \<and> hd_inData s' = hd_inData s \<and>
     hd_fcs s' = hd_fcs s \<and> hd_hdlcState s' = hd_hdlcState s"

lemma unpack_same_refl [simp]: "unpack_same s s"
  by (simp add: unpack_same_def)

lemma unpack_same_trans: "unpack_same s s' \<Longrightarrow> unpack_same s' s'' \<Longrightarrow> unpack_same s s''"
  by (simp add: unpack_same_def)

definition with_bit :: "bool \<Rightarrow> HDLC \<Rightarrow> HDLC" where
  "with_bit b s = s\<lparr>hd_hdlcChunk := push_bit 1 (hd_hdlcChunk s) OR of_bool b, hd_hdlcChunkLen := hd_hdlcChunkLen s + 1\<rparr>"

lemma chunk_bits_with_bit:
  assumes "hd_hdlcChunkLen s < 32"
  shows "chunk_bits (with_bit b s) = chunk_bits s @ [b]"
proof -
  have "bit (push_bit 1 (hd_hdlcChunk s) OR of_bool b) i = (if i = 0 then b else bit (hd_hdlcChunk s) (i - 1))" if "i < 32" for i
    using that unfolding bit_or_iff bit_push_bit_iff bit_of_bool_iff by (cases i) auto
  then have "map (bit (push_bit 1 (hd_hdlcChunk s) OR of_bool b)) [0..<Suc (hd_hdlcChunkLen s)] =
      b # map (bit (hd_hdlcChunk s)) [0..<hd_hdlcChunkLen s]"
    using assms by (intro nth_equalityI) (auto simp: nth_Cons' simp del: upt_Suc)
  then show ?thesis
    unfolding chunk_bits_def with_bit_def by (simp del: upt_Suc push_bit_Suc)
qed

lemma chunk_out_data:
  assumes ok: "rx_open s" and len: "hd_hdlcChunkLen s < 24"
  shows "\<exists>s'. chunk_out (with_bit b s) = Some s' \<and> rx_open s' \<and> received_bits s' = received_bits s @ [b] \<and> unpack_same s s' \<and>
    hd_rawOnes s' = hd_rawOnes s \<and> hd_rawByte s' = hd_rawByte s \<and> hd_rawByteLen s' = hd_rawByteLen s"
proof (cases "hd_hdlcChunkLen s = 23")
  case False
  then have "chunk_out (with_bit b s) = Some (with_bit b s)"
    by (simp add: chunk_out_def with_bit_def)
  then show ?thesis
    using False assms chunk_bits_with_bit [of s b] by (auto simp: rx_open_def received_bits_def unpack_same_def with_bit_def)
next
  case True
  let ?s = "with_bit b s"
  let ?o = "ucast (drop_bit 16 (hd_hdlcChunk ?s)) :: u8"
  obtain out where out: "PutData (hd_outData s) [?o] = Some (1, out)" "stream_ok out" "\<not> ds_eof out"
    "stream_octets out = stream_octets (hd_outData s) @ [?o]"
    using PutData_spec [of "hd_outData s" "[?o]"] ok by (auto simp: rx_open_def stream_same_def)
  have "chunk_bits ?s = bits_msb ?o @ rev (map (bit (hd_hdlcChunk ?s)) [0..<16])"
  proof -
    have "[0..<24] = [0..<16] @ map (\<lambda>i. 16 + i) [0..<8 :: nat]"
      by (simp add: upt_rec)
    moreover have "map (bit (hd_hdlcChunk ?s)) (map (\<lambda>i. 16 + i) [0..<8]) = bits_lsb ?o"
      by (simp add: bits_lsb_def bit_simps)
    moreover have "hd_hdlcChunkLen ?s = 24"
      using True by (simp add: with_bit_def)
    ultimately show ?thesis
      by (simp only: chunk_bits_def bits_msb_def map_append rev_append)
  qed
  moreover have "chunk_out ?s = Some (?s\<lparr>hd_outData := out, hd_hdlcChunkLen := 16\<rparr>)"
    using True out(1) by (simp add: chunk_out_def with_bit_def)
  ultimately show ?thesis
    using True ok out(2-4) chunk_bits_with_bit [of s b]
    by (auto simp: rx_open_def received_bits_def unpack_same_def with_bit_def chunk_bits_def)
qed

lemma chunk_bit_data:
  assumes "rx_open s"
  shows "\<exists>s'. chunk_out (chunk_bit b s) = Some s' \<and> rx_open s' \<and> unpack_same s s' \<and>
    received_bits s' = received_bits s @ (if b \<or> hd_rawOnes s \<noteq> 5 then [b] else []) \<and> hd_rawOnes s' = (if b then hd_rawOnes s + 1 else 0) \<and>
    hd_rawByte s' = hd_rawByte s \<and> hd_rawByteLen s' = hd_rawByteLen s"
proof (cases "b \<or> hd_rawOnes s \<noteq> 5")
  case True
  let ?s = "s\<lparr>hd_rawOnes := if b then hd_rawOnes s + 1 else 0\<rparr>"
  have "chunk_bit b s = with_bit b ?s"
    using True by (auto simp: chunk_bit_def with_bit_def)
  moreover have "rx_open ?s" "hd_hdlcChunkLen ?s < 24" "received_bits ?s = received_bits s" "unpack_same s ?s"
    using assms by (simp_all add: rx_open_def received_bits_def chunk_bits_def unpack_same_def)
  ultimately show ?thesis
    using chunk_out_data [of ?s b] True by (auto simp: unpack_same_def)
next
  case False
  then have "chunk_bit b s = s\<lparr>hd_rawOnes := 0\<rparr>" "chunk_out (s\<lparr>hd_rawOnes := 0\<rparr>) = Some (s\<lparr>hd_rawOnes := 0\<rparr>)"
    using assms by (simp_all add: chunk_bit_def chunk_out_def rx_open_def)
  then show ?thesis
    using False assms by (simp add: rx_open_def received_bits_def chunk_bits_def unpack_same_def)
qed

text \<open>A stuffed sequence that may start with the zero after five ones.\<close>

definition stuffed :: "nat \<Rightarrow> bits \<Rightarrow> bits" where
  "stuffed r xs = (if r = 5 then False # stuff 0 xs else stuff r xs)"

lemma ones_in_stuff: "r \<le> 4 \<Longrightarrow> length (takeWhile id (stuff r bs @ False # rest)) \<le> 5 - r"
  by (induction r bs rule: stuff.induct) auto

lemma takeWhile_six:
  assumes "take 7 l = [True, True, True, True, True, True, False]"
  shows "6 \<le> length (takeWhile id l)"
proof -
  obtain m where "l = [True, True, True, True, True, True, False] @ m"
    using assms append_take_drop_id [of 7 l] by metis
  then show ?thesis
    by simp
qed

lemma no_flag_before:
  assumes "r \<le> 4" "xs @ ys = False # stuff r bs @ hdlc_flag @ rest"
  shows "take 8 xs \<noteq> hdlc_flag"
proof
  assume "take 8 xs = hdlc_flag"
  moreover have "length hdlc_flag = 8"
    by (simp add: hdlc_flag_def)
  ultimately have "take 8 (xs @ ys) = hdlc_flag"
    by (metis append.right_neutral diff_is_0_eq' length_take min.cobounded1 min_def nat_le_linear take0 take_append)
  then have "take 7 (stuff r bs @ hdlc_flag @ rest) = [True, True, True, True, True, True, False]"
    using assms(2) by (simp add: hdlc_flag_def)
  then have "6 \<le> length (takeWhile id (stuff r bs @ hdlc_flag @ rest))"
    by (metis takeWhile_six)
  then show False
    using ones_in_stuff [OF assms(1), of bs "tl hdlc_flag @ rest"] by (simp add: hdlc_flag_def)
qed

text \<open>
  The bits \<open>l\<close> at hand are the beginning of a line that goes on with \<open>more\<close>: the scan takes a part of the frame,
  or all of it with the closing flag.
\<close>

definition unpacked :: "HDLC \<Rightarrow> bits \<Rightarrow> HDLC \<Rightarrow> bits \<Rightarrow> bool" where
  "unpacked s xs s' ys \<longleftrightarrow> rx_open s' \<and> unpack_same s s' \<and> received_bits s' @ ys = received_bits s @ xs"

lemma stuffed_empty: "stuffed r xs = [] \<Longrightarrow> xs = []"
  by (cases "(r, xs)" rule: stuff.cases) (auto simp: stuffed_def split: if_splits)

lemma stuffed_step:
  assumes "b # m = stuffed r xs @ rest" "stuffed r xs \<noteq> []" "r \<le> 5"
  shows "\<exists>ys. m = stuffed (if b then r + 1 else 0) ys @ rest \<and> (b \<longrightarrow> r + 1 \<le> 5) \<and> xs = (if b \<or> r \<noteq> 5 then [b] else []) @ ys"
proof (cases "r = 5")
  case True
  then show ?thesis
    using assms(1) by (auto simp: stuffed_def)
next
  case False
  then obtain x ys where "xs = x # ys"
    using assms(2) by (cases xs) (auto simp: stuffed_def)
  then show ?thesis
    using assms False by (cases x) (auto simp: stuffed_def split: if_splits)
qed

lemma flag_at_start:
  assumes "l @ m = hdlc_flag @ rest" "8 \<le> length l"
  shows "take 8 l = hdlc_flag" "drop 8 l @ m = rest"
proof -
  have "length hdlc_flag = 8"
    by (simp add: hdlc_flag_def)
  then have "take 8 (l @ m) = hdlc_flag" "drop 8 (l @ m) = rest"
    using assms(1) by simp_all
  then show "take 8 l = hdlc_flag" "drop 8 l @ m = rest"
    using assms(2) by simp_all
qed

lemma unpack_frame:
  assumes "rx_open s" "hd_rawOnes s \<le> 5" "l @ more_bits = stuffed (hd_rawOnes s) xs @ hdlc_flag @ rest"
  shows "(\<exists>l' s' ys. unpack_bits l s = Some (True, l', s') \<and> length l' < 8 \<and> hd_rawOnes s' \<le> 5 \<and>
      l' @ more_bits = stuffed (hd_rawOnes s') ys @ hdlc_flag @ rest \<and> unpacked s xs s' ys) \<or>
    (\<exists>l' s'. unpack_bits l s = Some (False, l', s') \<and> l' @ more_bits = rest \<and> unpacked s xs s' [])"
  using assms
proof (induction l arbitrary: s xs)
  case Nil
  then show ?case
    by (auto simp: unpack_bits.simps unpacked_def)
next
  case (Cons b l)
  show ?case
  proof (cases "length (b # l) < 8")
    case True
    then show ?thesis
      using Cons.prems unfolding unpack_bits.simps [of "b # l"] by (auto simp: unpacked_def)
  next
    case False
    show ?thesis
    proof (cases "stuffed (hd_rawOnes s) xs = []")
      case True
      then have "take 8 (b # l) = hdlc_flag" "drop 8 (b # l) @ more_bits = rest" "xs = []"
        using flag_at_start [of "b # l" more_bits rest] stuffed_empty Cons.prems(3) False by auto
      then show ?thesis
        using False Cons.prems unfolding unpack_bits.simps [of "b # l"] by (auto simp: unpacked_def)
    next
      case ne: False
      obtain ys where ys: "l @ more_bits = stuffed (if b then hd_rawOnes s + 1 else 0) ys @ hdlc_flag @ rest"
        "(if b then hd_rawOnes s + 1 else 0) \<le> 5" "xs = (if b \<or> hd_rawOnes s \<noteq> 5 then [b] else []) @ ys"
        using stuffed_step [OF _ ne Cons.prems(2), of b "l @ more_bits"] Cons.prems(3) by auto
      have flag: "take 8 (b # l) \<noteq> hdlc_flag"
      proof (cases b)
        case True
        then show ?thesis
          by (simp add: hdlc_flag_def)
      next
        case False
        then show ?thesis
          using ys(1) by (intro no_flag_before [where ys = more_bits and r = 0 and bs = ys and rest = rest]) (simp_all add: stuffed_def)
      qed
      obtain s1 where s1: "chunk_out (chunk_bit b s) = Some s1" "rx_open s1" "unpack_same s s1"
        "received_bits s1 = received_bits s @ (if b \<or> hd_rawOnes s \<noteq> 5 then [b] else [])" "hd_rawOnes s1 = (if b then hd_rawOnes s + 1 else 0)"
        using chunk_bit_data [OF Cons.prems(1), of b] by blast
      have step: "unpack_bits (b # l) s = unpack_bits l s1"
        using False flag s1(1) unfolding unpack_bits.simps [of "b # l"] by simp
      have trans: "unpacked s1 ys s' zs \<Longrightarrow> unpacked s xs s' zs" for s' zs
        using s1(3,4) ys(3) unpack_same_trans by (auto simp: unpacked_def)
      have "hd_rawOnes s1 \<le> 5" "l @ more_bits = stuffed (hd_rawOnes s1) ys @ hdlc_flag @ rest"
        using ys(1,2) by (simp_all only: s1(5))
      from Cons.IH [OF s1(2) this] show ?thesis
        unfolding step using trans by blast
    qed
  qed
qed

section \<open>Octets of the line\<close>

lemma no_flag_start:
  assumes "l @ m = stuffed r xs @ hdlc_flag @ rest" "stuffed r xs \<noteq> []" "r \<le> 5"
  shows "take 8 l \<noteq> hdlc_flag"
proof (cases l)
  case Nil
  then show ?thesis
    by (simp add: hdlc_flag_def)
next
  case (Cons b l')
  then obtain ys where "l' @ m = stuffed (if b then r + 1 else 0) ys @ hdlc_flag @ rest"
    using stuffed_step [OF _ assms(2,3), of b "l' @ m"] assms(1) by auto
  then show ?thesis
    using no_flag_before [of 0 l m ys rest] Cons by (cases b) (auto simp: stuffed_def hdlc_flag_def)
qed

text \<open>The first flag of the line is after \<open>pre\<close>.\<close>

definition first_flag :: "bits \<Rightarrow> bits \<Rightarrow> bool" where
  "first_flag pre l \<longleftrightarrow> (\<forall>i < length pre. take 8 (drop i (pre @ hdlc_flag @ l)) \<noteq> hdlc_flag)"

lemma first_flag_Cons:
  "first_flag (b # pre) l \<longleftrightarrow> take 8 (b # pre @ hdlc_flag @ l) \<noteq> hdlc_flag \<and> first_flag pre l"
  unfolding first_flag_def by (auto simp: less_Suc_eq_0_disj all_conj_distrib)

lemma sync_bits_first:
  assumes "l @ m = pre @ hdlc_flag @ rest" "first_flag pre rest"
  shows "(\<exists>l' pre'. sync_bits l = (False, l') \<and> length l' < 8 \<and> l' @ m = pre' @ hdlc_flag @ rest \<and> first_flag pre' rest) \<or>
    (\<exists>l'. sync_bits l = (True, l') \<and> l' @ m = rest)"
  using assms
proof (induction l arbitrary: pre)
  case Nil
  then show ?case
    by (auto simp: sync_bits.simps)
next
  case (Cons b l)
  show ?case
  proof (cases "length (b # l) < 8")
    case True
    then show ?thesis
      using Cons.prems unfolding sync_bits.simps [of "b # l"] by auto
  next
    case False
    show ?thesis
    proof (cases pre)
      case Nil
      then show ?thesis
        using flag_at_start [of "b # l" m rest] Cons.prems(1) False unfolding sync_bits.simps [of "b # l"] by auto
    next
      case pre: (Cons b' pre')
      then have "l @ m = pre' @ hdlc_flag @ rest" "first_flag pre' rest" "take 8 ((b # l) @ m) \<noteq> hdlc_flag"
        using Cons.prems by (auto simp: first_flag_Cons)
      moreover from this False have "take 8 (b # l) \<noteq> hdlc_flag"
        unfolding take_append by simp
      then have "sync_bits (b # l) = sync_bits l"
        using False unfolding sync_bits.simps [of "b # l"] by simp
      ultimately show ?thesis
        using Cons.IH by simp
    qed
  qed
qed

definition rx_start :: "HDLC \<Rightarrow> bool" where
  "rx_start s \<longleftrightarrow> rx_open s \<and> stream_octets (hd_outData s) = [] \<and> hd_hdlcChunkLen s = 0 \<and> hd_rawOnes s = 0"

definition raw_line :: "HDLC \<Rightarrow> octets \<Rightarrow> bits" where
  "raw_line s bs = tx_pending s @ stream_msb bs"

text \<open>
  The octets \<open>ys\<close> are still to be read and the check sequence \<open>c\<close> is behind them, when the octets \<open>bs\<close>
  of the line are still to come; the line goes on with \<open>rest\<close> behind the frame.
\<close>

definition rx_at :: "HDLC \<Rightarrow> octets \<Rightarrow> octets \<Rightarrow> bits \<Rightarrow> bits \<Rightarrow> bool" where
  "rx_at s bs ys c rest \<longleftrightarrow> hd_rawByteLen s < 8 \<and> length c = 16 \<and>
     (case hd_hdlcState s of
        stEof \<Rightarrow> stream_ok (hd_outData s) \<and> ds_eof (hd_outData s) \<and> stream_octets (hd_outData s) = ys \<and>
          hd_hdlcChunkLen s = 16 \<and> chunk_bits s = c \<and> raw_line s bs = rest
      | stData \<Rightarrow> rx_open s \<and> hd_rawOnes s \<le> 5 \<and> (\<exists>xs. raw_line s bs = stuffed (hd_rawOnes s) xs @ hdlc_flag @ rest \<and>
          received_bits s @ xs = stream_msb ys @ c)
      | stSkipFlags \<Rightarrow> rx_start s \<and> (\<exists>k. raw_line s bs = flags_line k @ stuff 0 (stream_msb ys @ c) @ hdlc_flag @ rest)
      | stSync \<Rightarrow> rx_start s \<and> (\<exists>pre k. let l = flags_line k @ stuff 0 (stream_msb ys @ c) @ hdlc_flag @ rest
          in raw_line s bs = pre @ hdlc_flag @ l \<and> first_flag pre l))"

lemma frame_complete:
  assumes "rx_open s" "received_bits s = stream_msb ys @ c" "length c = 16"
  shows "hd_hdlcChunkLen s = 16" "chunk_bits s = c" "stream_octets (hd_outData s) = ys"
proof -
  let ?out = "stream_octets (hd_outData s)"
  have len: "length (chunk_bits s) = hd_hdlcChunkLen s"
    by (simp add: chunk_bits_def)
  have eq: "stream_msb ?out @ chunk_bits s = stream_msb ys @ c"
    using assms(2) by (simp add: received_bits_def)
  have "8 * length ?out + hd_hdlcChunkLen s = 8 * length ys + 16"
    using arg_cong [OF eq, of length] assms(3) len by simp
  moreover have "hd_hdlcChunkLen s < 24" "length ?out = 0 \<or> 16 \<le> hd_hdlcChunkLen s"
    using assms(1) by (auto simp: rx_open_def)
  ultimately show l: "hd_hdlcChunkLen s = 16"
    by presburger
  then have "stream_msb ?out = stream_msb ys" "chunk_bits s = c"
    using eq len assms(3) append_eq_append_conv [of "chunk_bits s" c "stream_msb ?out" "stream_msb ys"] by auto
  moreover from this have "length ?out = length ys"
    by (metis length_stream_msb mult_cancel1 zero_neq_numeral)
  ultimately show "chunk_bits s = c" "?out = ys"
    by (simp_all add: stream_msb_inject)
qed

text \<open>What one octet leaves alone.\<close>

definition octet_same :: "HDLC \<Rightarrow> HDLC \<Rightarrow> bool" where
  "octet_same s s' \<longleftrightarrow> hd_inDataType s' = hd_inDataType s \<and> hd_outDataType s' = hd_outDataType s \<and> hd_inData s' = hd_inData s \<and>
     hd_fcs s' = hd_fcs s"

definition unpack_data :: "HDLC \<Rightarrow> u8 \<Rightarrow> HDLC option" where
  "unpack_data s b = do {
     (going, s) \<leftarrow> unpack s b;
     Some (if going then s else s\<lparr>hd_outData := PutEof (hd_outData s), hd_hdlcState := stEof\<rparr>) }"

lemma left_over_fields:
  assumes "left_over l s s'"
  shows "rx_open s' = rx_open s" "received_bits s' = received_bits s" "hd_rawOnes s' = hd_rawOnes s" "hd_hdlcState s' = hd_hdlcState s"
    "chunk_bits s' = chunk_bits s" "hd_hdlcChunkLen s' = hd_hdlcChunkLen s" "hd_outData s' = hd_outData s" "octet_same s0 s' = octet_same s0 s"
    "tx_pending s' = l" "hd_rawByteLen s' < 8" "rx_start s' = rx_start s"
proof -
  obtain r where s': "s' = s\<lparr>hd_rawByte := r, hd_rawByteLen := length l\<rparr>" and l: "length l < 8" "tx_pending s' = l"
    using assms by (auto simp: left_over_def)
  show "rx_open s' = rx_open s" "received_bits s' = received_bits s" "hd_rawOnes s' = hd_rawOnes s" "hd_hdlcState s' = hd_hdlcState s"
    "chunk_bits s' = chunk_bits s" "hd_hdlcChunkLen s' = hd_hdlcChunkLen s" "hd_outData s' = hd_outData s" "octet_same s0 s' = octet_same s0 s"
    "hd_rawByteLen s' < 8" "rx_start s' = rx_start s"
    unfolding s' using l(1) by (simp_all add: rx_open_def received_bits_def chunk_bits_def octet_same_def rx_start_def)
  show "tx_pending s' = l"
    by (fact l(2))
qed

lemma unpack_data_step:
  assumes open_s: "rx_open s" "hd_rawOnes s \<le> 5" "hd_rawByteLen s < 8" "hd_hdlcState s = stData" and c: "length c = 16"
    and line: "raw_line s (b # bs) = stuffed (hd_rawOnes s) xs @ hdlc_flag @ rest" and data: "received_bits s @ xs = stream_msb ys @ c"
  shows "\<exists>s'. unpack_data s b = Some s' \<and> rx_at s' bs ys c rest \<and> octet_same s s'"
proof -
  let ?l = "tx_pending s @ bits_msb b"
  have "?l @ stream_msb bs = stuffed (hd_rawOnes s) xs @ hdlc_flag @ rest"
    using line by (simp add: raw_line_def)
  from unpack_frame [OF open_s(1,2) this] show ?thesis
  proof (elim disjE exE conjE)
    fix l' s1 zs
    assume s1: "unpack_bits ?l s = Some (True, l', s1)" "hd_rawOnes s1 \<le> 5"
      "l' @ stream_msb bs = stuffed (hd_rawOnes s1) zs @ hdlc_flag @ rest" "unpacked s xs s1 zs"
    obtain s' where s': "unpack s b = Some (True, s')" "left_over l' s1 s'"
      using unpack_scan [OF open_s(3) s1(1)] .
    have "rx_at s' bs ys c rest"
      using s1(2-4) left_over_fields [OF s'(2)] open_s(4) c data
      by (auto simp: rx_at_def unpacked_def unpack_same_def raw_line_def)
    moreover have "octet_same s s'"
      using s1(4) left_over_fields(8) [OF s'(2), of s] by (simp add: unpacked_def unpack_same_def octet_same_def)
    ultimately show ?thesis
      using s'(1) by (simp add: unpack_data_def)
  next
    fix l' s1
    assume s1: "unpack_bits ?l s = Some (False, l', s1)" "l' @ stream_msb bs = rest" "unpacked s xs s1 []"
    obtain s' where s': "unpack s b = Some (False, s')" "left_over l' s1 s'"
      using unpack_scan [OF open_s(3) s1(1)] .
    note f = left_over_fields [OF s'(2)]
    have ok: "rx_open s'" "received_bits s' = stream_msb ys @ c"
      using s1(3) f(1,2) data by (simp_all add: unpacked_def)
    let ?s = "s'\<lparr>hd_outData := PutEof (hd_outData s'), hd_hdlcState := stEof\<rparr>"
    have "rx_at ?s bs ys c rest"
      using frame_complete [OF ok c] ok(1) f(9,10) c s1(2) by (simp add: rx_at_def rx_open_def chunk_bits_def raw_line_def tx_pending_def) (simp add: PutEof_def)
    moreover have "octet_same s ?s"
      using s1(3) f(8) [of s] by (simp add: unpacked_def unpack_same_def octet_same_def)
    ultimately show ?thesis
      using s'(1) by (simp add: unpack_data_def)
  qed
qed

lemma hdlc_octet_step:
  assumes at: "rx_at s (b # bs) ys c rest" and st: "hd_hdlcState s \<noteq> stEof"
  shows "\<exists>s'. hdlc_octet s b = Some s' \<and> rx_at s' bs ys c rest \<and> octet_same s s'"
proof -
  have len: "hd_rawByteLen s < 8" and c: "length c = 16"
    using at by (simp_all add: rx_at_def)
  have unpack_case: "(do { (going, s) \<leftarrow> unpack t b;
       Some (if going then s else s\<lparr>hd_outData := PutEof (hd_outData s), hd_hdlcState := stEof\<rparr>) }) = unpack_data t b" for t
    by (simp add: unpack_data_def)
  consider "hd_hdlcState s = stSync" | "hd_hdlcState s = stSkipFlags" | "hd_hdlcState s = stData"
    using st by (cases "hd_hdlcState s") auto
  then show ?thesis
  proof cases
    case 1
    then obtain pre k where l: "rx_start s" "raw_line s (b # bs) = pre @ hdlc_flag @ flags_line k @ stuff 0 (stream_msb ys @ c) @ hdlc_flag @ rest"
      "first_flag pre (flags_line k @ stuff 0 (stream_msb ys @ c) @ hdlc_flag @ rest)"
      using at by (auto simp: rx_at_def Let_def)
    have "(tx_pending s @ bits_msb b) @ stream_msb bs = pre @ hdlc_flag @ flags_line k @ stuff 0 (stream_msb ys @ c) @ hdlc_flag @ rest"
      using l(2) by (simp add: raw_line_def)
    note scan = sync_scan [OF len, of b] sync_bits_first [OF this l(3)]
    obtain f t where t: "sync s b = (f, t)"
      by (cases "sync s b")
    show ?thesis
    proof (cases f)
      case True
      then obtain l' where l': "left_over l' s t" "l' @ stream_msb bs = flags_line k @ stuff 0 (stream_msb ys @ c) @ hdlc_flag @ rest"
        using scan t by auto
      let ?s = "t\<lparr>hd_hdlcState := stSkipFlags\<rparr>"
      have "rx_at ?s bs ys c rest"
        using left_over_fields [OF l'(1)] l(1) c l'(2)
        by (auto simp: rx_at_def raw_line_def rx_start_def rx_open_def tx_pending_def)
      moreover have "octet_same s ?s"
        using left_over_fields(8) [OF l'(1), of s] by (simp add: octet_same_def)
      ultimately show ?thesis
        using 1 t True by (simp add: hdlc_octet_def)
    next
      case False
      then obtain l' pre' where l': "left_over l' s t" "l' @ stream_msb bs = pre' @ hdlc_flag @ flags_line k @ stuff 0 (stream_msb ys @ c) @ hdlc_flag @ rest"
        "first_flag pre' (flags_line k @ stuff 0 (stream_msb ys @ c) @ hdlc_flag @ rest)"
        using scan t by auto
      have "rx_at t bs ys c rest"
        using left_over_fields [OF l'(1)] l(1) c l'(2,3) 1 unfolding rx_at_def raw_line_def Let_def by auto
      moreover have "octet_same s t"
        using left_over_fields(8) [OF l'(1), of s] by (simp add: octet_same_def)
      ultimately show ?thesis
        using 1 t False by (simp add: hdlc_octet_def)
    qed
  next
    case 2
    then obtain k where l: "rx_start s" "raw_line s (b # bs) = flags_line k @ stuff 0 (stream_msb ys @ c) @ hdlc_flag @ rest"
      using at by (auto simp: rx_at_def)
    have line: "(tx_pending s @ bits_msb b) @ stream_msb bs = flags_line k @ stuff 0 (stream_msb ys @ c) @ hdlc_flag @ rest"
      using l(2) by (simp add: raw_line_def)
    obtain f t where t: "skipFlag s b = (f, t)"
      by (cases "skipFlag s b")
    show ?thesis
    proof (cases k)
      case 0
      have X: "stuffed 0 (stream_msb ys @ c) \<noteq> []"
        using c stuffed_empty by fastforce
      have "take 8 (tx_pending s @ bits_msb b) \<noteq> hdlc_flag"
        by (rule no_flag_start [OF _ X]) (use line 0 in \<open>simp_all add: stuffed_def\<close>)
      then have skip: "skipFlag s b = (False, s)"
        using skipFlag_scan [OF len, of b] by simp
      let ?s = "s\<lparr>hd_hdlcState := stData\<rparr>"
      have "\<exists>s'. unpack_data ?s b = Some s' \<and> rx_at s' bs ys c rest \<and> octet_same ?s s'"
        by (rule unpack_data_step [where xs = "stream_msb ys @ c" and rest = rest])
          (use l 0 len c in \<open>auto simp: rx_start_def rx_open_def raw_line_def tx_pending_def stuffed_def received_bits_def chunk_bits_def\<close>)
      then show ?thesis
        using 2 skip by (simp add: hdlc_octet_def unpack_case octet_same_def)
    next
      case (Suc k')
      then have flag: "take 8 (tx_pending s @ bits_msb b) = hdlc_flag"
        "drop 8 (tx_pending s @ bits_msb b) @ stream_msb bs = flags_line k' @ stuff 0 (stream_msb ys @ c) @ hdlc_flag @ rest"
        using flag_at_start [of "tx_pending s @ bits_msb b" "stream_msb bs"] line by auto
      then have skip: "f" "left_over (drop 8 (tx_pending s @ bits_msb b)) s t"
        using skipFlag_scan [OF len, of b] t by simp_all
      have "rx_at t bs ys c rest"
        using left_over_fields [OF skip(2)] l(1) c flag(2) 2 unfolding rx_at_def raw_line_def by auto
      moreover have "octet_same s t"
        using left_over_fields(8) [OF skip(2), of s] by (simp add: octet_same_def)
      ultimately show ?thesis
        using 2 t skip(1) by (simp add: hdlc_octet_def)
    qed
  next
    case 3
    then show ?thesis
      using at unpack_data_step [OF _ _ len 3 c] by (auto simp: rx_at_def hdlc_octet_def unpack_case)
  qed
qed

end
