(* ===== verification/Modem_Hdlc_Reads.thy ===== *)
theory Modem_Hdlc_Reads
  imports Modem_Hdlc_Rx
begin

text \<open>
  Reading frames from a line with the HDLC converter of \<^verbatim>\<open>t38modem/hdlc.cxx\<close>: \<^verbatim>\<open>GetHdlcData\<close> gives the octets of
  the frame behind the first flags, in whatever portions it is called, and then its end.
\<close>

section \<open>The octets already received\<close>

lemma received_prefix:
  assumes open_s: "rx_open s" and data: "received_bits s @ xs = stream_msb ys @ c" and c: "length c = 16"
  obtains ys' where "ys = stream_octets (hd_outData s) @ ys'"
proof -
  let ?out = "stream_octets (hd_outData s)"
  let ?n = "length ?out"
  have len: "8 * ?n + hd_hdlcChunkLen s + length xs = 8 * length ys + 16"
    using arg_cong [OF data, of length] c by (simp add: received_bits_def chunk_bits_def)
  have "?n \<le> length ys"
  proof (cases "?out = []")
    case False
    then have "16 \<le> hd_hdlcChunkLen s"
      using open_s by (simp add: rx_open_def)
    then show ?thesis
      using len by linarith
  qed simp
  have "stream_msb ?out = take (8 * ?n) (stream_msb (take ?n ys @ drop ?n ys) @ c)"
    using arg_cong [OF data, of "take (8 * ?n)"] by (simp add: received_bits_def)
  also have "\<dots> = stream_msb (take ?n ys)"
    unfolding stream_msb_append using \<open>?n \<le> length ys\<close> by simp
  finally have "?out = take ?n ys"
    using stream_msb_inject [of ?out "take ?n ys"] \<open>?n \<le> length ys\<close> by simp
  then have "ys = ?out @ drop ?n ys"
    by (metis append_take_drop_id)
  then show ?thesis
    by (rule that)
qed

text \<open>A read of the output takes its octets from those still to be read.\<close>

definition rx_took :: "HDLC \<Rightarrow> octets \<Rightarrow> octets \<Rightarrow> bits \<Rightarrow> bits \<Rightarrow> octets \<Rightarrow> HDLC \<Rightarrow> bool" where
  "rx_took s bs ys c rest out s' \<longleftrightarrow> (\<exists>ys'. ys = out @ ys' \<and> rx_at s' bs ys' c rest)"

lemma rx_take:
  assumes at: "rx_at s bs ys c rest" and st: "hd_hdlcState s = stEof \<or> hd_hdlcState s = stData"
  obtains "GetData (hd_outData s) k = Some (-1, [], hd_outData s)" "hd_hdlcState s = stEof" "ys = []"
  | d n out where "GetData (hd_outData s) k = Some (int n, out, d)" "n = length out" "length out \<le> k"
    "\<And>f. rx_took s bs ys c rest out (s\<lparr>hd_outData := d, hd_fcs := f\<rparr>)" "hd_hdlcState s = stEof \<longrightarrow> ys \<noteq> [] \<and> out = take k ys"
proof -
  let ?out = "stream_octets (hd_outData s)"
  have ok: "stream_ok (hd_outData s)" and len: "hd_rawByteLen s < 8" and c: "length c = 16"
    using at st by (auto simp: rx_at_def rx_open_def)
  from GetData_spec [OF ok, of k] obtain d where
    d: "GetData (hd_outData s) k = Some (if ?out = [] then if ds_eof (hd_outData s) then -1 else 0 else int (length (take k ?out)), take k ?out, d)"
      "stream_ok d" "stream_same (hd_outData s) d" "stream_octets d = drop k ?out"
    by blast
  show ?thesis
  proof (cases "hd_hdlcState s = stEof")
    case True
    then have e: "ds_eof (hd_outData s)" "?out = ys" "hd_hdlcChunkLen s = 16" "chunk_bits s = c" "raw_line s bs = rest"
      using at by (simp_all add: rx_at_def)
    show ?thesis
    proof (cases "ys = []")
      case empty: True
      then have "GetData (hd_outData s) k = Some (-1, [], hd_outData s)"
        using e ok by (auto simp: GetData_def stream_ok_def)
      then show ?thesis
        using that(1) True empty by blast
    next
      case False
      have "rx_took s bs ys c rest (take k ys) (s\<lparr>hd_outData := d, hd_fcs := f\<rparr>)" for f
        unfolding rx_took_def using True e len c d(2-4)
        by (intro exI [of _ "drop k ys"]) (simp add: rx_at_def stream_same_def chunk_bits_def raw_line_def tx_pending_def)
      then show ?thesis
        using that(2) [OF _ refl] d(1) e(2) True False by simp
    qed
  next
    case False
    then have data_st: "hd_hdlcState s = stData"
      using st by blast
    then obtain xs where x: "rx_open s" "hd_rawOnes s \<le> 5" "raw_line s bs = stuffed (hd_rawOnes s) xs @ hdlc_flag @ rest"
      "received_bits s @ xs = stream_msb ys @ c"
      using at by (auto simp: rx_at_def)
    obtain ys' where ys: "ys = ?out @ ys'"
      using received_prefix [OF x(1,4) c] .
    let ?ys = "drop k ?out @ ys'"
    have "rx_took s bs ys c rest (take k ?out) (s\<lparr>hd_outData := d, hd_fcs := f\<rparr>)" for f
    proof -
      let ?s = "s\<lparr>hd_outData := d, hd_fcs := f\<rparr>"
      have split: "stream_msb ?out = stream_msb (take k ?out) @ stream_msb (drop k ?out)"
        by (metis append_take_drop_id stream_msb_append)
      have "rx_open ?s"
        using x(1) d(2-4) by (auto simp: rx_open_def stream_same_def)
      moreover have "received_bits ?s @ xs = stream_msb ?ys @ c"
        using x(4) d(4) unfolding ys by (simp add: received_bits_def chunk_bits_def split)
      moreover have "raw_line ?s bs = stuffed (hd_rawOnes s) xs @ hdlc_flag @ rest"
        using x(3) by (simp add: raw_line_def tx_pending_def)
      ultimately have "rx_at ?s bs ?ys c rest"
        using len c x(2) data_st by (auto simp: rx_at_def)
      then show ?thesis
        unfolding rx_took_def ys by (metis append.assoc append_take_drop_id)
    qed
    moreover have "\<not> ds_eof (hd_outData s)"
      using x(1) by (simp add: rx_open_def)
    ultimately show ?thesis
      using that(2) [OF _ refl] d(1) data_st by simp
  qed
qed

section \<open>The loop of \<^verbatim>\<open>GetHdlcData\<close>\<close>

definition rx_ready_at :: "HDLC \<Rightarrow> octets \<Rightarrow> bits \<Rightarrow> bits \<Rightarrow> bool" where
  "rx_ready_at s ys c rest \<longleftrightarrow> hd_inDataType s = dtRaw \<and> hd_outDataType s = dtHdlc \<and>
     (\<exists>d. hd_inData s = Some d \<and> stream_ok d \<and> rx_at s (stream_octets d) ys c rest)"

definition in_left :: "HDLC \<Rightarrow> nat" where
  "in_left s = (case hd_inData s of None \<Rightarrow> 0 | Some d \<Rightarrow> length (stream_octets d))"

lemma line_left:
  assumes "rx_at s bs ys c rest" "hd_hdlcState s \<noteq> stEof"
  shows "bs \<noteq> []"
proof
  assume "bs = []"
  then have "length (raw_line s bs) < 8"
    using assms(1) by (simp add: raw_line_def tx_pending_def rx_at_def)
  moreover have "8 \<le> length (raw_line s bs)"
    using assms by (cases "hd_hdlcState s") (auto simp: rx_at_def Let_def hdlc_flag_def)
  ultimately show False
    by simp
qed

lemma rx_at_input: "rx_at (s\<lparr>hd_inData := d, hd_lastChar := l, hd_rawCount := n\<rparr>) bs ys c rest = rx_at s bs ys c rest"
proof -
  let ?s = "s\<lparr>hd_inData := d, hd_lastChar := l, hd_rawCount := n\<rparr>"
  have "chunk_bits ?s = chunk_bits s" "raw_line ?s bs = raw_line s bs" "rx_open ?s = rx_open s"
    by (simp_all add: chunk_bits_def raw_line_def tx_pending_def rx_open_def)
  moreover from this have "received_bits ?s = received_bits s" "rx_start ?s = rx_start s"
    by (simp_all add: received_bits_def rx_start_def)
  ultimately show ?thesis
    by (simp add: rx_at_def split: hdlc_state.split)
qed

lemma hdlc_input_step:
  assumes rd: "rx_ready_at s ys c rest" and st: "hd_hdlcState s \<noteq> stEof"
  obtains s' where "hdlc_input s = Some (True, s')" "rx_ready_at s' ys c rest" "in_left s' < in_left s" "hd_fcs s' = hd_fcs s"
proof -
  obtain d where d: "hd_inData s = Some d" "stream_ok d" "rx_at s (stream_octets d) ys c rest"
    using rd by (auto simp: rx_ready_at_def)
  obtain b bs where bs: "stream_octets d = b # bs"
    using line_left [OF d(3) st] by (cases "stream_octets d") auto
  from GetData_spec [OF d(2), of 1] bs obtain d' where d': "GetData d 1 = Some (1, [b], d')" "stream_ok d'" "stream_octets d' = bs"
    by auto
  let ?s = "s\<lparr>hd_inData := Some d', hd_lastChar := uint b, hd_rawCount := hd_rawCount s + 1\<rparr>"
  have "rx_at ?s (b # bs) ys c rest"
    using d(3) bs by (simp add: rx_at_input)
  from hdlc_octet_step [OF this] st obtain s' where s': "hdlc_octet ?s b = Some s'" "rx_at s' bs ys c rest" "octet_same ?s s'"
    by auto
  have "hdlc_input s = Some (True, s')"
    using d(1) d'(1) s'(1) by (simp add: hdlc_input_def)
  moreover have "rx_ready_at s' ys c rest" "in_left s' < in_left s" "hd_fcs s' = hd_fcs s"
    using rd s'(2,3) d'(2,3) d(1) bs by (auto simp: rx_ready_at_def octet_same_def in_left_def)
  ultimately show ?thesis
    by (rule that)
qed

text \<open>The octets \<open>out\<close> have been read since state \<open>s0\<close>, and \<open>ys\<close> are left.\<close>

definition rx_part :: "HDLC \<Rightarrow> octets \<Rightarrow> bits \<Rightarrow> bits \<Rightarrow> octets \<Rightarrow> HDLC \<Rightarrow> octets \<Rightarrow> bool" where
  "rx_part s0 ys0 c rest out s ys \<longleftrightarrow> ys0 = out @ ys \<and> rx_ready_at s ys c rest \<and> hd_fcs s = FCS_build (hd_fcs s0) out"

lemma rx_part_take:
  assumes part: "rx_part s0 ys0 c rest out s ys" and st: "hd_hdlcState s = stEof \<or> hd_hdlcState s = stData"
  obtains "GetData (hd_outData s) k = Some (-1, [], hd_outData s)" "hd_hdlcState s = stEof" "ys = []"
  | d n o' ys' where "GetData (hd_outData s) k = Some (int n, o', d)" "n = length o'" "length o' \<le> k"
    "rx_part s0 ys0 c rest (out @ o') (s\<lparr>hd_outData := d, hd_fcs := FCS_build (hd_fcs s) o'\<rparr>) ys'"
    "hd_hdlcState s = stEof \<longrightarrow> ys \<noteq> [] \<and> o' = take k ys"
proof -
  have rd: "rx_ready_at s ys c rest"
    using part by (simp add: rx_part_def)
  then obtain di where di: "hd_inData s = Some di" "stream_ok di" "rx_at s (stream_octets di) ys c rest"
    by (auto simp: rx_ready_at_def)
  show ?thesis
    using di(3) st
  proof (cases rule: rx_take [where k = k])
    case 1
    then show ?thesis
      by (rule that(1))
  next
    case (2 d n o')
    let ?s = "s\<lparr>hd_outData := d, hd_fcs := FCS_build (hd_fcs s) o'\<rparr>"
    obtain ys' where ys': "ys = o' @ ys'" "rx_at ?s (stream_octets di) ys' c rest"
      using 2(4) by (auto simp: rx_took_def)
    then have "rx_part s0 ys0 c rest (out @ o') ?s ys'"
      using part di(1,2) by (auto simp: rx_part_def rx_ready_at_def FCS_build_append)
    then show ?thesis
      using that(2) 2(1-3,5) by blast
  qed
qed

text \<open>A read that returned \<open>out\<close>: a non-empty portion, or the end when nothing is left.\<close>

definition rx_read :: "HDLC \<Rightarrow> octets \<Rightarrow> bits \<Rightarrow> bits \<Rightarrow> octets \<Rightarrow> int \<Rightarrow> HDLC \<Rightarrow> octets \<Rightarrow> bool" where
  "rx_read s ys c rest out r s' ys' \<longleftrightarrow> rx_part s ys c rest out s' ys' \<and>
     (r = int (length out) \<and> out \<noteq> [] \<or> r = -1 \<and> out = [] \<and> ys' = [] \<and> hd_hdlcState s' = stEof)"

lemma hdlc_loop_read:
  assumes "rx_part s0 ys0 c rest out s ys" "hd_hdlcState s \<noteq> stEof" "0 < k"
  shows "\<exists>r o' s' ys'. hdlc_loop s k out = Some (r, o', s') \<and> rx_read s0 ys0 c rest o' r s' ys' \<and> length o' \<le> length out + k"
  using assms
proof (induction "in_left s" arbitrary: s ys k out rule: less_induct)
  case less
  obtain s1 where s1: "hdlc_input s = Some (True, s1)" "rx_ready_at s1 ys c rest" "in_left s1 < in_left s" "hd_fcs s1 = hd_fcs s"
    using hdlc_input_step [of s ys c rest] less.prems(1,2) by (auto simp: rx_part_def)
  have part: "rx_part s0 ys0 c rest out s1 ys"
    using less.prems(1) s1(2,4) by (simp add: rx_part_def)
  show ?case
  proof (cases "hd_hdlcState s1 = stEof \<or> hd_hdlcState s1 = stData")
    case False
    then have "hdlc_loop s k out = hdlc_loop s1 k out"
      using s1(1) by (subst hdlc_loop.simps) simp
    then show ?thesis
      using less.hyps [OF s1(3) part _ less.prems(3)] False by simp
  next
    case True
    show ?thesis
      using part True
    proof (cases rule: rx_part_take [where k = k])
      case 1
      then have "hdlc_loop s k out = Some (if out \<noteq> [] then (int (length out), out, s1) else (-1, [], s1))"
        using s1(1) True by (subst hdlc_loop.simps) simp
      then show ?thesis
        using part 1(2,3) by (cases "out = []") (auto simp: rx_read_def)
    next
      case (2 d n o' ys')
      let ?s = "s1\<lparr>hd_outData := d, hd_fcs := FCS_build (hd_fcs s1) o'\<rparr>"
      have len: "length o' \<le> k"
        by (fact 2(3))
      show ?thesis
      proof (cases "k - n = 0 \<or> hd_hdlcState s1 = stEof")
        case stop: True
        then have "hdlc_loop s k out = Some (int (length (out @ o')), out @ o', ?s)"
          using s1(1) True 2(1) by (subst hdlc_loop.simps) simp
        moreover have "o' \<noteq> []"
          using stop 2(2,5) less.prems(3) by auto
        ultimately show ?thesis
          using 2(4) len by (auto simp: rx_read_def)
      next
        case go: False
        then have step: "hdlc_loop s k out = hdlc_loop ?s (k - n) (out @ o')"
          using s1(1) True 2(1) by (subst hdlc_loop.simps) simp
        have "in_left ?s < in_left s" "hd_hdlcState ?s \<noteq> stEof" "0 < k - n"
          using s1(3) go by (simp_all add: in_left_def)
        from less.hyps [OF this(1) 2(4) this(2,3)] obtain r o1 s' ys1 where
          "hdlc_loop ?s (k - n) (out @ o') = Some (r, o1, s')" "rx_read s0 ys0 c rest o1 r s' ys1" "length o1 \<le> length (out @ o') + (k - n)"
          by blast
        moreover from this(3) have "length o1 \<le> length out + k"
          using len 2(2) by simp
        ultimately show ?thesis
          unfolding step by blast
      qed
    qed
  qed
qed

lemma HDLC_GetData_read:
  assumes rd: "rx_ready_at s ys c rest" and k: "0 < k"
  shows "\<exists>r out s' ys'. HDLC_GetData s k = Some (r, out, s') \<and> rx_read s ys c rest out r s' ys' \<and> length out \<le> k"
proof -
  have types: "hd_inDataType s = dtRaw" "hd_outDataType s = dtHdlc" "dtRaw \<noteq> dtHdlc"
    using rd by (simp_all add: rx_ready_at_def dtRaw_def dtHdlc_def)
  obtain d where d: "hd_inData s = Some d"
    using rd by (auto simp: rx_ready_at_def)
  have part: "rx_part s ys c rest [] s ys"
    using rd by (simp add: rx_part_def)
  show ?thesis
  proof (cases "hd_hdlcState s = stEof")
    case True
    then have or: "hd_hdlcState s = stEof \<or> hd_hdlcState s = stData"
      by simp
    have get: "HDLC_GetData s k = do { (len, buf, d) \<leftarrow> GetData (hd_outData s) k;
        Some (len, buf, s\<lparr>hd_outData := d, hd_fcs := FCS_build (hd_fcs s) buf\<rparr>) }"
      using True types d by (simp add: HDLC_GetData_def GetHdlcData_def)
    show ?thesis
      using part or
    proof (cases rule: rx_part_take [where k = k])
      case 1
      then show ?thesis
        using get part by (auto simp: rx_read_def)
    next
      case (2 d n o' ys')
      then show ?thesis
        using get True k by (auto simp: rx_read_def)
    qed
  next
    case False
    then have "HDLC_GetData s k = hdlc_loop s k []"
      using k types d by (simp add: HDLC_GetData_def GetHdlcData_def)
    then show ?thesis
      using hdlc_loop_read [OF part False k] by auto
  qed
qed

section \<open>A frame in portions\<close>

text \<open>The end has been reached: every further read says so and changes nothing.\<close>

definition rx_end :: "HDLC \<Rightarrow> bool" where
  "rx_end s \<longleftrightarrow> (\<forall>k. HDLC_GetData s k = Some (-1, [], s))"

lemma rx_end_reached:
  assumes rd: "rx_ready_at s [] c rest" and st: "hd_hdlcState s = stEof"
  shows "rx_end s"
proof -
  have out: "stream_ok (hd_outData s)" "ds_eof (hd_outData s)" "stream_octets (hd_outData s) = []"
    using rd st by (auto simp: rx_ready_at_def rx_at_def)
  then have "GetData (hd_outData s) k = Some (-1, [], hd_outData s)" for k
    by (auto simp: GetData_def stream_ok_def)
  then show ?thesis
    using rd st by (auto simp: rx_end_def rx_ready_at_def HDLC_GetData_def GetHdlcData_def dtRaw_def dtHdlc_def)
qed

lemma reads_at_end: "rx_end s \<Longrightarrow> hdlc_reads ns s = Some ([], s)"
  by (induction ns) (simp_all add: rx_end_def)

lemma rx_part_trans:
  "rx_part s0 ys0 c rest out s1 ys1 \<Longrightarrow> rx_part s1 ys1 c rest o' s ys \<Longrightarrow> rx_part s0 ys0 c rest (out @ o') s ys"
  by (auto simp: rx_part_def FCS_build_append)

lemma reads_frame:
  assumes "rx_ready_at s ys c rest" "\<forall>n\<in>set ns. 0 < n" "length ys < length ns"
  shows "\<exists>s'. hdlc_reads ns s = Some (ys, s') \<and> rx_part s ys c rest ys s' [] \<and> hd_hdlcState s' = stEof \<and> rx_end s'"
  using assms
proof (induction ns arbitrary: s ys)
  case (Cons n ns)
  obtain r out s1 ys1 where s1: "HDLC_GetData s n = Some (r, out, s1)" "rx_read s ys c rest out r s1 ys1"
    using HDLC_GetData_read [OF Cons.prems(1), of n] Cons.prems(2) by auto
  then have part: "rx_part s ys c rest out s1 ys1"
    by (simp add: rx_read_def)
  show ?case
  proof (cases "out = []")
    case True
    then have e: "ys1 = []" "hd_hdlcState s1 = stEof"
      using s1(2) by (auto simp: rx_read_def)
    then have "rx_end s1" "ys = []"
      using part True rx_end_reached [of s1 c rest] by (auto simp: rx_part_def)
    then show ?thesis
      using s1(1) part e True reads_at_end [of s1 ns] by simp
  next
    case False
    then have "length ys1 < length ns"
      using part Cons.prems(3) by (cases out) (auto simp: rx_part_def)
    then obtain s' where "hdlc_reads ns s1 = Some (ys1, s')" "rx_part s1 ys1 c rest ys1 s' []" "hd_hdlcState s' = stEof" "rx_end s'"
      using Cons.IH [of s1 ys1] part Cons.prems(2) by (auto simp: rx_part_def)
    then show ?thesis
      using s1(1) part rx_part_trans [OF part, of ys1 s' "[]"] by (auto simp: rx_part_def)
  qed
qed simp

section \<open>Frames of a line\<close>

text \<open>
  A frame of a line: the number of flags before it, apart from the one that ends the frame before it, its octets, and
  two more octets as its check sequence.
\<close>

type_synonym modem_frame = "nat \<times> octets \<times> u8 \<times> u8"

fun modem_frames_line :: "modem_frame list \<Rightarrow> bits \<Rightarrow> bits" where
  "modem_frames_line [] rest = rest"
| "modem_frames_line ((k, xs, a, b) # fs) rest = flags_line k @ stuff 0 (stream_msb (xs @ [a, b])) @ hdlc_flag @ modem_frames_line fs rest"

text \<open>One frame after the other, as \<^verbatim>\<open>t38engine.cxx\<close> reads them: what was read and the judgement on it.\<close>

fun read_frames :: "nat list list \<Rightarrow> HDLC \<Rightarrow> ((octets \<times> bool) list \<times> HDLC) option" where
  "read_frames [] s = Some ([], s)"
| "read_frames (ns # nss) s = do {
     (xs, s) \<leftarrow> hdlc_reads ns s;
     let good = isFcsOK s;
     (fs, s) \<leftarrow> read_frames nss (GetHdlcStart s False);
     Some ((xs, good) # fs, s)
   }"

definition frame_good :: "octets \<Rightarrow> u8 \<Rightarrow> u8 \<Rightarrow> bool" where
  "frame_good xs a b \<longleftrightarrow> [a, b] = fcs_octets (FCS_build FCS_new xs)"

lemma bits_of_word16: "stream_msb [ucast (drop_bit 8 w), ucast w] = rev (map (bit w) [0..<16])" for w :: u16
proof (rule nth_equalityI)
  fix i assume "i < length (stream_msb [ucast (drop_bit 8 w) :: u8, ucast w])"
  then show "stream_msb [ucast (drop_bit 8 w), ucast w] ! i = rev (map (bit w) [0..<16]) ! i"
    by (auto simp: nth_append bits_msb_nth bit_simps rev_nth)
qed simp

lemma isFcsOK_at_end:
  assumes "hd_hdlcChunkLen s = 16" "chunk_bits s = stream_msb [a, b]"
  shows "isFcsOK s \<longleftrightarrow> [a, b] = fcs_octets (hd_fcs s)"
proof -
  let ?w = "ucast (hd_hdlcChunk s) :: u16"
  have "chunk_bits s = rev (map (bit ?w) [0..<16])"
    using assms(1) by (auto simp: chunk_bits_def bit_simps)
  then have "stream_msb [a, b] = stream_msb [ucast (drop_bit 8 ?w), ucast ?w]"
    unfolding bits_of_word16 using assms(2) by simp
  then have "[a, b] = [ucast (drop_bit 8 ?w), ucast ?w]"
    using stream_msb_inject [of "[a, b]" "[ucast (drop_bit 8 ?w), ucast ?w]"] by simp
  moreover have "v = w \<longleftrightarrow> [ucast (drop_bit 8 v) :: u8, ucast v] = [ucast (drop_bit 8 w), ucast w]" for v w :: u16
  proof
    assume "[ucast (drop_bit 8 v) :: u8, ucast v] = [ucast (drop_bit 8 w), ucast w]"
    then have "map (bit v) [0..<16] = map (bit w) [0..<16]"
      using bits_of_word16 [of v] bits_of_word16 [of w] by simp
    then show "v = w"
      by (intro bit_word_eqI) simp
  qed simp
  ultimately show ?thesis
    using assms(1) by (simp add: isFcsOK_def fcs_octets_def)
qed

lemma hdlc_start_next:
  assumes s: "rx_ready_at s [] c rest" "hd_hdlcState s = stEof" and rest: "rest = modem_frames_line ((k, xs, a, b) # fs) end_bits"
  shows "rx_ready_at (GetHdlcStart s False) xs (stream_msb [a, b]) (modem_frames_line fs end_bits)"
proof -
  obtain d where d: "hd_inData s = Some d" "stream_ok d" "rx_at s (stream_octets d) [] c rest" "hd_inDataType s = dtRaw"
    using s(1) by (auto simp: rx_ready_at_def)
  then have out: "stream_ok (hd_outData s)" "raw_line s (stream_octets d) = rest" "hd_rawByteLen s < 8"
    using s(2) by (simp_all add: rx_at_def)
  let ?s = "GetHdlcStart s False"
  have "rx_start ?s"
    using Clean_spec [OF out(1)] d(4) by (simp add: GetHdlcStart_def Let_def rx_start_def rx_open_def)
  moreover have "raw_line ?s (stream_octets d) = flags_line k @ stuff 0 (stream_msb xs @ stream_msb [a, b]) @ hdlc_flag @ modem_frames_line fs end_bits"
    using out(2) d(4) by (simp add: GetHdlcStart_def Let_def raw_line_def tx_pending_def rest)
  moreover have "hd_hdlcState ?s = stSkipFlags" "hd_rawByteLen ?s < 8" "hd_inData ?s = Some d" "hd_inDataType ?s = dtRaw" "hd_outDataType ?s = dtHdlc"
    using d out(3) by (simp_all add: GetHdlcStart_def Let_def)
  ultimately show ?thesis
    using d(2) by (auto simp: rx_ready_at_def rx_at_def)
qed

text \<open>The state at the start of a frame: its check sequence has been started anew.\<close>

lemma start_fcs: "hd_fcs (GetHdlcStart s f) = FCS_new"
  by (simp add: GetHdlcStart_def Let_def)

definition reads_enough :: "nat list list \<Rightarrow> modem_frame list \<Rightarrow> bool" where
  "reads_enough nss fs \<longleftrightarrow> list_all2 (\<lambda>ns (k, xs, a, b). length xs < length ns \<and> list_all (\<lambda>n. 0 < n) ns) nss fs"

lemma read_one_frame:
  assumes rd: "rx_ready_at s xs (stream_msb [a, b]) rest" and fcs: "hd_fcs s = FCS_new"
    and ns: "length xs < length ns" "list_all (\<lambda>n. 0 < n) ns"
  obtains s' where "hdlc_reads ns s = Some (xs, s')" "isFcsOK s' = frame_good xs a b" "rx_end s'" "hd_hdlcState s' = stEof"
    "rx_ready_at s' [] (stream_msb [a, b]) rest"
proof -
  obtain s' where s': "hdlc_reads ns s = Some (xs, s')" "rx_part s xs (stream_msb [a, b]) rest xs s' []" "hd_hdlcState s' = stEof" "rx_end s'"
    using reads_frame [OF rd _ ns(1)] ns(2) by (auto simp: list_all_iff)
  then have at: "hd_hdlcChunkLen s' = 16" "chunk_bits s' = stream_msb [a, b]" "hd_fcs s' = FCS_build FCS_new xs"
    using fcs by (auto simp: rx_part_def rx_ready_at_def rx_at_def)
  have "isFcsOK s' = frame_good xs a b"
    using isFcsOK_at_end [OF at(1,2)] at(3) by (simp add: frame_good_def)
  moreover have "rx_ready_at s' [] (stream_msb [a, b]) rest"
    using s'(2) by (simp add: rx_part_def)
  ultimately show ?thesis
    using that s' by blast
qed

lemma read_frames_line:
  assumes "rx_ready_at s xs (stream_msb [a, b]) (modem_frames_line fs end_bits)" "hd_fcs s = FCS_new"
    "reads_enough nss ((k, xs, a, b) # fs)"
  shows "\<exists>s'. read_frames nss s = Some (map (\<lambda>(k, xs, a, b). (xs, frame_good xs a b)) ((k, xs, a, b) # fs), s')"
  using assms
proof (induction fs arbitrary: s xs a b k nss)
  case Nil
  then obtain ns where "nss = [ns]" "length xs < length ns" "list_all (\<lambda>n. 0 < n) ns"
    by (auto simp: reads_enough_def list_all2_Cons2)
  with read_one_frame [OF Nil.prems(1,2) this(2,3)] show ?case
    by fastforce
next
  case (Cons f fs)
  obtain k' ys a' b' where f: "f = (k', ys, a', b')"
    by (cases f)
  obtain ns nss' where ns: "nss = ns # nss'" "length xs < length ns" "list_all (\<lambda>n. 0 < n) ns" "reads_enough nss' (f # fs)"
    using Cons.prems(3) unfolding reads_enough_def list_all2_Cons2 by fastforce
  obtain s1 where s1: "hdlc_reads ns s = Some (xs, s1)" "isFcsOK s1 = frame_good xs a b" "hd_hdlcState s1 = stEof"
    "rx_ready_at s1 [] (stream_msb [a, b]) (modem_frames_line (f # fs) end_bits)"
    using read_one_frame [OF Cons.prems(1,2) ns(2,3)] by metis
  have "rx_ready_at (GetHdlcStart s1 False) ys (stream_msb [a', b']) (modem_frames_line fs end_bits)"
    using hdlc_start_next [OF s1(4,3)] f by blast
  from Cons.IH [OF this start_fcs, of nss' k'] ns(4) f
  obtain s' where "read_frames nss' (GetHdlcStart s1 False) = Some (map (\<lambda>(k, xs, a, b). (xs, frame_good xs a b)) (f # fs), s')"
    by auto
  then show ?case
    using s1(1,2) ns(1) by simp
qed

lemma hdlc_start_sync:
  assumes "stream_ok d" "stream_msb (stream_octets d) = pre @ hdlc_flag @ modem_frames_line ((k, xs, a, b) # fs) rest"
    "first_flag pre (modem_frames_line ((k, xs, a, b) # fs) rest)"
  shows "rx_ready_at (GetHdlcStart (PutRawData (HDLC_new raw chunk len) (Some d)) True) xs (stream_msb [a, b]) (modem_frames_line fs rest)"
proof -
  let ?s = "GetHdlcStart (PutRawData (HDLC_new raw chunk len) (Some d)) True"
  have "rx_start ?s"
    using Clean_spec [OF stream_ok_new(1), of 0] by (simp add: GetHdlcStart_def PutRawData_def HDLC_new_def rx_start_def rx_open_def)
  moreover have "raw_line ?s (stream_octets d) = stream_msb (stream_octets d)"
    by (simp add: GetHdlcStart_def PutRawData_def HDLC_new_def raw_line_def tx_pending_def)
  moreover have "hd_hdlcState ?s = stSync" "hd_rawByteLen ?s < 8" "hd_inData ?s = Some d" "hd_inDataType ?s = dtRaw" "hd_outDataType ?s = dtHdlc"
    by (simp_all add: GetHdlcStart_def PutRawData_def HDLC_new_def)
  ultimately show ?thesis
    using assms by (auto simp: rx_ready_at_def rx_at_def Let_def)
qed

lemma received_frames:
  assumes "stream_msb bs = pre @ hdlc_flag @ modem_frames_line fs rest" "first_flag pre (modem_frames_line fs rest)" "fs \<noteq> []" "reads_enough nss fs"
  shows "\<exists>d s. PutData (DataStream_new 0) bs = Some (int (length bs), d) \<and>
    read_frames nss (GetHdlcStart (PutRawData (HDLC_new raw chunk len) (Some d)) True) =
      Some (map (\<lambda>(k, xs, a, b). (xs, frame_good xs a b)) fs, s)"
proof -
  obtain d where d: "PutData (DataStream_new 0) bs = Some (int (length bs), d)" "stream_ok d" "stream_octets d = bs"
    using PutData_spec [OF stream_ok_new(1), of 0 bs] stream_ok_new(2) [of 0] by (auto simp: DataStream_new_def)
  obtain k xs a b fs' where fs: "fs = (k, xs, a, b) # fs'"
    using assms(3) by (cases fs) auto
  let ?s = "GetHdlcStart (PutRawData (HDLC_new raw chunk len) (Some d)) True"
  have "rx_ready_at ?s xs (stream_msb [a, b]) (modem_frames_line fs' rest)"
    by (rule hdlc_start_sync [OF d(2), of pre k]) (use assms(1,2) d(3) fs in simp_all)
  from read_frames_line [OF this start_fcs, of nss k] show ?thesis
    using assms(4) d(1) fs by simp
qed

text \<open>
  Claim C6. Reception of a line by t38modem. The line starts with anything without a flag, then has a flag, and then
  frames of whole octets, each with any number of flags before it and one behind it. Read frame by frame in
  portions of any positive size, it gives exactly the octets of the frames, in order, and a
  frame is judged good exactly if its last two octets are the check sequence of those before them.
\<close>

theorem modem_hdlc_rx_frames:
  assumes "stream_msb bs = pre @ hdlc_flag @ modem_frames_line fs rest" "first_flag pre (modem_frames_line fs rest)" "fs \<noteq> []" "reads_enough nss fs"
  shows "\<exists>d s. PutData (DataStream_new 0) bs = Some (int (length bs), d) \<and>
    read_frames nss (GetHdlcStart (PutRawData (HDLC_new raw chunk len) (Some d)) True) =
      Some (map (\<lambda>(k, xs, a, b). (xs, frame_good xs a b)) fs, s)"
  using assms by (rule received_frames)

theorem modem_hdlc_rx_frames_witness:
  "\<exists>d s. PutData (DataStream_new 0) [239, 207, 216, 31, 125, 82, 163, 242, 168, 0, 3, 247] = Some (12, d) \<and>
    read_frames [[1, 2, 3], [5, 5]] (GetHdlcStart (PutRawData (HDLC_new 0 0 0) (Some d)) True) =
      Some ([([0xC0, 0xFF], True), ([0x55], False)], s)"
proof -
  let ?fs = "[(1, [0xC0, 0xFF], 234, 84), (0, [0x55], 0, 0)] :: modem_frame list"
  have "stream_msb [239, 207, 216, 31, 125, 82, 163, 242, 168, 0, 3, 247] = [True, True, True] @ hdlc_flag @ modem_frames_line ?fs (replicate 3 True)"
    by code_simp
  moreover have "first_flag [True, True, True] (modem_frames_line ?fs (replicate 3 True))"
    by code_simp
  moreover have "reads_enough [[1, 2, 3], [5, 5]] ?fs" "frame_good [0xC0, 0xFF] 234 84" "\<not> frame_good [0x55] 0 0"
    by code_simp+
  ultimately show ?thesis
    using modem_hdlc_rx_frames [of "[239, 207, 216, 31, 125, 82, 163, 242, 168, 0, 3, 247]" "[True, True, True]" ?fs "replicate 3 True" "[[1, 2, 3], [5, 5]]" 0 0 0] by simp
qed

end
