(* ===== verification/Modem_Hdlc_Link.thy ===== *)
theory Modem_Hdlc_Link
  imports Modem_Hdlc_Reads Hdlc_Link
begin

text \<open>
  The HDLC converter of t38modem as a link: with itself, and in both directions with the HDLC transmitter and
  receiver of spandsp, which number the bits of an octet the other way round.
\<close>

section \<open>Octets in the other order\<close>

lemma word16_reversed:
  "ucast (drop_bit 8 (bit_reverse16 w)) = bit_reverse8 (ucast w)" "ucast (bit_reverse16 w) = bit_reverse8 (ucast (drop_bit 8 w))"
proof -
  have w: "bit (bit_reverse16 w) i = bit w (15 - i)" if "i < 16" for i
    using bit_reverse16_bits [of w] that by simp
  show "ucast (drop_bit 8 (bit_reverse16 w)) = bit_reverse8 (ucast w)"
  proof (rule bit_word_eqI)
    fix i assume "i < LENGTH(8)"
    then have i: "i < 8"
      by simp
    then show "bit (ucast (drop_bit 8 (bit_reverse16 w)) :: u8) i = bit (bit_reverse8 (ucast w)) i"
      using w [of "8 + i"] by (auto simp: bit_reverse8_bit bit_simps)
  qed
  show "ucast (bit_reverse16 w) = bit_reverse8 (ucast (drop_bit 8 w))"
  proof (rule bit_word_eqI)
    fix i assume "i < LENGTH(8)"
    then have i: "i < 8" "8 + (7 - i) = 15 - i"
      by simp_all
    then show "bit (ucast (bit_reverse16 w) :: u8) i = bit (bit_reverse8 (ucast (drop_bit 8 w))) i"
      using w [of i] by (auto simp: bit_reverse8_bit bit_simps)
  qed
qed

lemma fcs_octets_reversed:
  "map bit_reverse8 (xs @ fcs_octets (FCS_build FCS_new xs)) = crc_itu16_append (map bit_reverse8 xs)"
  by (simp add: fcs_octets_def FCS_word_crc word16_reversed crc_itu16_append_def Let_def)

lemma bit_reverse8_twice [simp]: "map bit_reverse8 (map bit_reverse8 xs) = xs"
  by (simp add: comp_def)

lemma crc_reversed:
  "map bit_reverse8 (crc_itu16_append f) = map bit_reverse8 f @ fcs_octets (FCS_build FCS_new (map bit_reverse8 f))"
  using arg_cong [OF fcs_octets_reversed [of "map bit_reverse8 f"], of "map bit_reverse8"] by (simp only: bit_reverse8_twice)

section \<open>t38modem to t38modem\<close>

lemma flags_length [simp]: "length (flags_line k) = 8 * k"
  by (induction k) (simp_all add: hdlc_flag_def)

text \<open>The line of a frame as the receiver sees it: the last, unused flag may be cut short.\<close>

definition modem_frame_of :: "nat \<Rightarrow> octets \<Rightarrow> modem_frame" where
  "modem_frame_of k xs = (case fcs_octets (FCS_build FCS_new xs) of [a, b] \<Rightarrow> (k, xs, a, b) | _ \<Rightarrow> (k, xs, 0, 0))"

lemma modem_frame_good:
  obtains a b where "modem_frame_of k xs = (k, xs, a, b)" "frame_good xs a b"
  using that [of "ucast (drop_bit 8 (FCS_word (FCS_build FCS_new xs)))" "ucast (FCS_word (FCS_build FCS_new xs))"]
  by (simp add: modem_frame_of_def fcs_octets_def frame_good_def)

lemma modem_frame_line:
  "modem_frames_line (modem_frame_of k xs # fs) rest =
     flags_line k @ stuff 0 (stream_msb (xs @ fcs_octets (FCS_build FCS_new xs))) @ hdlc_flag @ modem_frames_line fs rest"
  by (simp add: modem_frame_of_def fcs_octets_def)

lemma modem_line_frame:
  "modem_line (Suc k) xs = hdlc_flag @ modem_frames_line [modem_frame_of k xs] hdlc_flag"
  by (simp add: modem_line_def modem_frame_line flags_line_def)

lemma first_flag_Nil [simp]: "first_flag [] l"
  by (simp add: first_flag_def)

lemma prefix_of_line:
  assumes "a @ b = l @ c" "length b \<le> length c"
  obtains r where "a = l @ r"
  using assms by (auto simp: append_eq_append_conv2)

lemma new_stream:
  obtains d where "PutData (DataStream_new 0) bs = Some (int (length bs), d)" "stream_ok d" "stream_octets d = bs"
  using PutData_spec [OF stream_ok_new(1), of 0 bs] stream_ok_new(2) [of 0] by (auto simp: DataStream_new_def)

lemma modem_frames_line_append: "modem_frames_line fs (r1 @ r2) = modem_frames_line fs r1 @ r2"
  by (induction fs r1 rule: modem_frames_line.induct) simp_all

text \<open>
  A frame goes from one t38modem converter to another unchanged. For any octets, at least one opening flag, and
  any portions in which the line and then the frame are read, the receiver that is given the octets
  of the line returns exactly the octets of the frame, judges it good, and from then on reports its end.
\<close>

theorem modem_hdlc_round_trip:
  assumes "\<forall>n\<in>set ns. 0 < n" "length (modem_line flags xs) < 8 * length ns" "1 \<le> flags" "\<forall>m\<in>set ms. 0 < m" "length xs < length ms"
  shows "\<exists>d s out s' line r. PutData (DataStream_new 0) xs = Some (int (length xs), d) \<and>
    GetRawStart (PutHdlcData (HDLC_new raw chunk len) (Some (PutEof d))) flags = Some s \<and>
    hdlc_reads ns s = Some (out, s') \<and> PutData (DataStream_new 0) out = Some (int (length out), line) \<and>
    hdlc_reads ms (GetHdlcStart (PutRawData (HDLC_new raw' chunk' len') (Some line)) True) = Some (xs, r) \<and>
    isFcsOK r \<and> (\<forall>k. HDLC_GetData r k = Some (-1, [], r))"
proof -
  obtain d s out s' where tx: "PutData (DataStream_new 0) xs = Some (int (length xs), d)"
    "GetRawStart (PutHdlcData (HDLC_new raw chunk len) (Some (PutEof d))) flags = Some s" "hdlc_reads ns s = Some (out, s')"
    "stream_msb out @ tx_pending s' = modem_line flags xs" "length (tx_pending s') < 8"
    using sent_line [OF assms(1,2)] by blast
  obtain k where k: "flags = Suc k"
    using assms(3) by (cases flags) auto
  obtain a b where f: "modem_frame_of k xs = (k, xs, a, b)" "frame_good xs a b"
    by (rule modem_frame_good)
  have "stream_msb out @ tx_pending s' = (hdlc_flag @ modem_frames_line [(k, xs, a, b)] []) @ hdlc_flag"
    using tx(4) modem_line_frame [of k xs] modem_frames_line_append [of "[(k, xs, a, b)]" "[]" hdlc_flag]
    by (simp only: k f append_Nil append_assoc)
  moreover have "length (tx_pending s') \<le> length hdlc_flag"
    using tx(5) by (simp add: hdlc_flag_def)
  ultimately obtain rest where "stream_msb out = (hdlc_flag @ modem_frames_line [(k, xs, a, b)] []) @ rest"
    by (rule prefix_of_line)
  then have line: "stream_msb out = [] @ hdlc_flag @ modem_frames_line ((k, xs, a, b) # []) rest"
    using modem_frames_line_append [of "[(k, xs, a, b)]" "[]" rest] by simp
  obtain e where e: "PutData (DataStream_new 0) out = Some (int (length out), e)" "stream_ok e" "stream_octets e = out"
    by (rule new_stream)
  have "rx_ready_at (GetHdlcStart (PutRawData (HDLC_new raw' chunk' len') (Some e)) True) xs (stream_msb [a, b]) rest"
    using hdlc_start_sync [OF e(2), of "[]" k xs a b "[]" rest] line e(3) by simp
  from read_one_frame [OF this start_fcs assms(5)] assms(4)
  obtain r where "hdlc_reads ms (GetHdlcStart (PutRawData (HDLC_new raw' chunk' len') (Some e)) True) = Some (xs, r)"
    "isFcsOK r" "rx_end r"
    using f(2) by (auto simp: list_all_iff)
  then show ?thesis
    using tx(1-3) e(1) unfolding rx_end_def by blast
qed

theorem modem_hdlc_round_trip_witness:
  "\<exists>d s out s' line r. PutData (DataStream_new 0) [0xFF, 0x13] = Some (2, d) \<and>
    GetRawStart (PutHdlcData (HDLC_new 0 0 0) (Some (PutEof d))) 2 = Some s \<and>
    hdlc_reads (replicate 40 3) s = Some (out, s') \<and> PutData (DataStream_new 0) out = Some (int (length out), line) \<and>
    hdlc_reads [1, 1, 1] (GetHdlcStart (PutRawData (HDLC_new 7 8 9) (Some line)) True) = Some ([0xFF, 0x13], r) \<and>
    isFcsOK r \<and> (\<forall>k. HDLC_GetData r k = Some (-1, [], r))"
proof -
  have "length (modem_line 2 [0xFF, 0x13]) < 8 * length (replicate 40 (3 :: nat))"
    by code_simp
  then show ?thesis
    using modem_hdlc_round_trip [of "replicate 40 3" 2 "[0xFF, 0x13]" "[1, 1, 1]" 0 0 0 7 8 9] by simp
qed

section \<open>t38modem to spandsp\<close>

text \<open>
  Bits that reach into a continuation which adds nothing to the log of the receiver.
\<close>

lemma covering_log:
  assumes l: "rx_bits r0 l = Some r1" "hr_log r1 = full" and e: "rx_bits r0 (l @ e) = Some r2" "hr_log r2 = full"
    and a: "l @ e = a @ b" "length l \<le> length a"
  shows "\<exists>r. rx_bits r0 a = Some r \<and> hr_log r = full"
proof -
  obtain c where c: "a = l @ c"
    using a by (auto simp: append_eq_append_conv2)
  obtain r where r: "rx_bits r0 a = Some r" "rx_bits r b = Some r2"
    using e(1) unfolding a(1) rx_bits_append by (auto split: bind_splits)
  have "rx_bits r1 c = Some r"
    using r(1) l(1) by (simp add: c rx_bits_append)
  then have "prefix full (hr_log r)" "prefix (hr_log r) full"
    using log_bits l(2) e(2) r(2) by metis+
  then show ?thesis
    using r(1) by (simp add: prefix_order.antisym)
qed

text \<open>
  Claim C5. spandsp receives what t38modem sends. The octets read from the converter for a frame of at most 400
  octets, after at least as many flags as the receiver wants and one at least, are enough: given just these
  octets, and none of the bits that the converter still holds back, the HDLC receiver of spandsp
  reports framing and then exactly this frame as good, with the bits of every octet in the other order.
\<close>

theorem modem_to_spandsp:
  assumes "\<forall>n\<in>set ns. 0 < n" "length (modem_line flags xs) < 8 * length ns" "1 \<le> flags" "threshold \<le> int flags" "length xs \<le> HDLC_MAXFRAME_LEN"
  shows "\<exists>d s out s' r. PutData (DataStream_new 0) xs = Some (int (length xs), d) \<and>
    GetRawStart (PutHdlcData (HDLC_new raw chunk len) (Some (PutEof d))) flags = Some s \<and> hdlc_reads ns s = Some (out, s') \<and>
    hdlc_rx_put (hdlc_rx_init False report_bad threshold True) out = Some r \<and>
    hr_log r = [Frame_Status SIG_STATUS_FRAMING_OK, Frame (bit_reverse xs) True]"
proof -
  obtain d s out s' where tx: "PutData (DataStream_new 0) xs = Some (int (length xs), d)"
    "GetRawStart (PutHdlcData (HDLC_new raw chunk len) (Some (PutEof d))) flags = Some s" "hdlc_reads ns s = Some (out, s')"
    "stream_msb out @ tx_pending s' = modem_line flags xs" "length (tx_pending s') < 8"
    using sent_line [OF assms(1,2)] by blast
  let ?f = "crc_itu16_append (map bit_reverse8 xs)" and ?r0 = "hdlc_rx_init False report_bad threshold True"
  let ?frames = "\<lambda>bss. concat (replicate flags hdlc_flag) @ concat (map (\<lambda>bs. stuff 0 (stream_lsb bs) @ hdlc_flag) bss)"
  let ?log = "[Frame_Status SIG_STATUS_FRAMING_OK, Frame (bit_reverse xs) True]"
  have line: "modem_line flags xs = ?frames [?f] @ hdlc_flag"
    unfolding modem_line_def fcs_octets_reversed [symmetric] by (simp add: stream_lsb_reversed)
  have "length ?f = length xs + 2" "take (length ?f - 2) ?f = map bit_reverse8 xs"
    by (simp_all add: crc_itu16_append_def Let_def)
  moreover have "crc_itu16_check ?f"
    using crc_itu16_check_iff [of "map bit_reverse8 xs"] by (auto simp: crc_itu16_append_def Let_def)
  ultimately have good: "rx_report 2 report_bad ?f = [Frame (bit_reverse xs) True]" "length ?f \<le> HDLC_MAXFRAME_LEN + 4"
    using assms(5) by (auto simp: rx_report_def rx_crc_good_def bit_reverse_map)
  obtain r1 where r1: "rx_bits ?r0 (?frames [?f]) = Some r1" "hr_log r1 = ?log"
    using deframes [OF assms(3,4), of "[?f]" False report_bad] good by auto
  obtain r2 where r2: "rx_bits ?r0 (?frames [?f] @ hdlc_flag) = Some r2" "hr_log r2 = ?log"
    using deframes [OF assms(3,4), of "[?f, []]" False report_bad] good by (auto simp: rx_report_def)
  have "?frames [?f] @ hdlc_flag = stream_msb out @ tx_pending s'"
    using tx(4) line by simp
  moreover have "length (?frames [?f]) \<le> length (stream_msb out)"
    using arg_cong [OF calculation, of length] tx(5) by (simp add: hdlc_flag_def)
  ultimately obtain r where "rx_bits ?r0 (stream_msb out) = Some r" "hr_log r = ?log"
    using covering_log [OF r1 r2] by blast
  then show ?thesis
    using tx(1-3) put_octets_bits [OF rx_aligned_init] by auto
qed

theorem modem_to_spandsp_witness:
  "\<exists>d s out s' r. PutData (DataStream_new 0) [0xFF, 0x13] = Some (2, d) \<and>
    GetRawStart (PutHdlcData (HDLC_new 0 0 0) (Some (PutEof d))) 2 = Some s \<and> hdlc_reads (replicate 40 3) s = Some (out, s') \<and>
    hdlc_rx_put (hdlc_rx_init False True 2 True) out = Some r \<and>
    hr_log r = [Frame_Status SIG_STATUS_FRAMING_OK, Frame [0xFF, 0xC8] True]"
proof -
  have "length (modem_line 2 [0xFF, 0x13]) < 8 * length (replicate 40 (3 :: nat))" "bit_reverse [0xFF, 0x13] = [0xFF, 0xC8]"
    by code_simp+
  then show ?thesis
    using modem_to_spandsp [of "replicate 40 3" 2 "[0xFF, 0x13]" 2 0 0 0 True] by (simp add: HDLC_MAXFRAME_LEN_def)
qed

section \<open>spandsp to t38modem\<close>

lemma frame_line_modem: "frame_line 2 f @ r = stuff 0 (stream_msb (map bit_reverse8 f @ fcs_octets (FCS_build FCS_new (map bit_reverse8 f)))) @ hdlc_flag @ r"
proof -
  have "stream_lsb (crc_itu16_append f) = stream_msb (map bit_reverse8 (crc_itu16_append f))"
    using stream_lsb_reversed [of "map bit_reverse8 (crc_itu16_append f)"] by (simp only: bit_reverse8_twice)
  then show ?thesis
    by (simp only: frame_line_def hdlc_framed_def crc_reversed refl if_True append_assoc)
qed

lemma frames_line_modem:
  "flags_line k @ frames_line 2 j (f # fs) @ r =
     modem_frames_line (modem_frame_of k (map bit_reverse8 f) # map (modem_frame_of j \<circ> map bit_reverse8) fs) (flags_line j @ r)"
proof (induction fs arbitrary: k f)
  case Nil
  show ?case
    by (simp add: frames_line_def modem_frame_line frame_line_modem del: append_assoc)
next
  case (Cons g fs)
  show ?case
    using Cons [of j g] by (simp add: frames_line_def modem_frame_line frame_line_modem)
qed

lemma sent_octets:
  assumes sends: "\<And>m. \<exists>t. tx_sends uf s [] (l @ flags_line m) t p" and p: "length p < 8"
  obtains os t r where "hdlc_tx_get uf s n = Some (os, t)" "length os = n" "length l \<le> 8 * n \<longrightarrow> stream_msb os = l @ r"
proof -
  obtain xs t where xs: "hdlc_tx_get uf s (length xs) = Some (xs, t)" "stream_msb xs @ p = l @ flags_line (Suc n)"
    using sends [of "Suc n"] by (auto simp: tx_sends_def)
  have "8 * length xs + length p = length l + 8 * Suc n"
    using arg_cong [OF xs(2), of length] by (simp only: length_append length_stream_msb flags_length)
  then have n: "n \<le> length xs"
    using p by simp
  obtain t' where get: "hdlc_tx_get uf s n = Some (take n xs, t')"
    using hdlc_tx_get_take [OF xs(1) n] by blast
  have "stream_msb (take n xs) = take (8 * n) (l @ flags_line (Suc n))"
    using n unfolding xs(2) [symmetric] by (simp add: stream_msb_take)
  then have "length l \<le> 8 * n \<longrightarrow> stream_msb (take n xs) = l @ take (8 * n - length l) (flags_line (Suc n))"
    by simp
  with get show ?thesis
    using n by (intro that [of "take n xs" t' "take (8 * n - length l) (flags_line (Suc n))"]) simp_all
qed

lemma spandsp_line:
  fixes flags :: int and progressive :: bool and k :: nat and fs :: "octets list"
  defines "s \<equiv> snd (hdlc_tx_flags (frame_sender_init False flags progressive fs) (int k))"
  assumes "1 \<le> k" "\<forall>f\<in>set fs. f \<noteq> [] \<and> length f \<le> HDLC_MAXFRAME_LEN"
  obtains j l p where "\<forall>m. \<exists>t. tx_sends (Some send_queued) s [] ((flags_line k @ frames_line 2 j fs @ l) @ flags_line m) t p" "length p < 8"
proof -
  have s: "ht_flag_octets s = int k" "ht_report_flag_underflow s" "1 \<le> ht_inter_frame_flags s" "\<not> ht_tx_end s"
    "fs_queue s = fs" "ht_max_frame_len s = HDLC_MAXFRAME_LEN" "ht_crc_bytes s = 2"
    by (simp_all add: s_def hdlc_tx_flags_def frame_sender_init_def hdlc_tx_init_def hdlc_tx_state.defs frame_sender.defs)
  have idle: "tx_idle [] s"
    unfolding s_def by (rule tx_idle_init)
  obtain s' p m0 where all: "tx_sends (Some send_queued) s []
      (flags_line k @ frames_line (ht_crc_bytes s) (nat (ht_inter_frame_flags s - 1)) (fs_queue s) @ flags_line m0) s' p"
    "tx_idle p s'" "ht_flag_octets s' = 0" "\<not> ht_tx_end s'"
    using queued.send_all [OF idle s(1) assms(2) s(2-4)] assms(3) s(5,6) by auto
  have "length p < 8"
    using all(2) by (simp add: tx_idle_def tx_base_def)
  moreover have "\<exists>t. tx_sends (Some send_queued) s [] ((flags_line k @ frames_line 2 (nat (ht_inter_frame_flags s - 1)) fs @ flags_line m0) @ flags_line m) t p" for m
    using tx_sends_trans [OF all(1) tx_idle_line [OF all(2-4)], of m] s(5,7) by auto
  ultimately show ?thesis
    using that by blast
qed

lemma modem_frames_read:
  assumes "list_all2 (\<lambda>ns f. length f < length ns \<and> list_all (\<lambda>n. 0 < n) ns) nss (f # fs)"
  shows "reads_enough nss (modem_frame_of i (map bit_reverse8 f) # map (modem_frame_of j \<circ> map bit_reverse8) fs)"
    "map (\<lambda>(k, xs, a, b). (xs, frame_good xs a b)) (modem_frame_of i (map bit_reverse8 f) # map (modem_frame_of j \<circ> map bit_reverse8) fs) =
      map (\<lambda>f. (bit_reverse f, True)) (f # fs)"
proof -
  have one: "(\<lambda>(k, xs, a, b). (xs, frame_good xs a b)) (modem_frame_of m xs) = (xs, True)" for m xs
    by (rule modem_frame_good [of m xs]) simp
  show "reads_enough nss (modem_frame_of i (map bit_reverse8 f) # map (modem_frame_of j \<circ> map bit_reverse8) fs)"
    using assms by (auto simp: reads_enough_def list_all2_map2 list_all2_Cons2 modem_frame_of_def fcs_octets_def)
  show "map (\<lambda>(k, xs, a, b). (xs, frame_good xs a b)) (modem_frame_of i (map bit_reverse8 f) # map (modem_frame_of j \<circ> map bit_reverse8) fs) =
      map (\<lambda>f. (bit_reverse f, True)) (f # fs)"
    by (simp add: one bit_reverse_map)
qed

text \<open>
  Claim C4. t38modem receives what spandsp sends. Any queue of frames of 1 to 400 octets that the HDLC transmitter of spandsp
  sends with a CRC of 16 bits after at least one flag: from some number of octets on, the converter of
  t38modem, given the octets of the line, returns every frame in order, each good and with the bits of
  every octet in the other order, in whatever portions it is read.
\<close>

theorem spandsp_to_modem:
  assumes "1 \<le> k" "fs \<noteq> []" "\<forall>f\<in>set fs. f \<noteq> [] \<and> length f \<le> HDLC_MAXFRAME_LEN"
    "list_all2 (\<lambda>ns f. length f < length ns \<and> list_all (\<lambda>n. 0 < n) ns) nss fs"
  shows "\<exists>n0. \<forall>n \<ge> n0. \<exists>os t d s.
    hdlc_tx_get (Some send_queued) (snd (hdlc_tx_flags (frame_sender_init False flags progressive fs) (int k))) n = Some (os, t) \<and>
    PutData (DataStream_new 0) os = Some (int n, d) \<and>
    read_frames nss (GetHdlcStart (PutRawData (HDLC_new raw chunk len) (Some d)) True) = Some (map (\<lambda>f. (bit_reverse f, True)) fs, s)"
proof -
  obtain i where k: "k = Suc i"
    using assms(1) by (cases k) auto
  obtain f fs' where fs: "fs = f # fs'"
    using assms(2) by (cases fs) auto
  let ?s = "snd (hdlc_tx_flags (frame_sender_init False flags progressive fs) (int k))"
  obtain j l p where line: "\<forall>m. \<exists>t. tx_sends (Some send_queued) ?s [] ((flags_line k @ frames_line 2 j fs @ l) @ flags_line m) t p" "length p < 8"
    using spandsp_line [OF assms(1,3), of flags progressive] .
  let ?gs = "modem_frame_of i (map bit_reverse8 f) # map (modem_frame_of j \<circ> map bit_reverse8) fs'"
  have enough: "reads_enough nss ?gs" and result: "map (\<lambda>(k, xs, a, b). (xs, frame_good xs a b)) ?gs = map (\<lambda>f. (bit_reverse f, True)) fs"
    using modem_frames_read [OF assms(4) [unfolded fs]] fs by simp_all
  show ?thesis
  proof (rule exI [of _ "length (flags_line k @ frames_line 2 j fs @ l)"], intro allI impI)
    fix n
    assume n: "length (flags_line k @ frames_line 2 j fs @ l) \<le> n"
    obtain os t r where os: "hdlc_tx_get (Some send_queued) ?s n = Some (os, t)" "length os = n" "stream_msb os = (flags_line k @ frames_line 2 j fs @ l) @ r"
      using sent_octets [OF line(1) [THEN spec] line(2), of n] n by auto
    have bits: "stream_msb os = [] @ hdlc_flag @ modem_frames_line ?gs (flags_line j @ l @ r)"
      using os(3) frames_line_modem [of i j f fs' "l @ r"] by (simp add: k fs)
    from received_frames [OF this first_flag_Nil _ enough] obtain d s where
      "PutData (DataStream_new 0) os = Some (int (length os), d)"
      "read_frames nss (GetHdlcStart (PutRawData (HDLC_new raw chunk len) (Some d)) True) = Some (map (\<lambda>f. (bit_reverse f, True)) fs, s)"
      unfolding result by blast
    then show "\<exists>os t d s. hdlc_tx_get (Some send_queued) ?s n = Some (os, t) \<and> PutData (DataStream_new 0) os = Some (int n, d) \<and>
      read_frames nss (GetHdlcStart (PutRawData (HDLC_new raw chunk len) (Some d)) True) = Some (map (\<lambda>f. (bit_reverse f, True)) fs, s)"
      using os(1,2) by blast
  qed
qed

theorem spandsp_to_modem_witness:
  "\<exists>n0. \<forall>n \<ge> n0. \<exists>os t d s.
    hdlc_tx_get (Some send_queued) (snd (hdlc_tx_flags (frame_sender_init False 2 False [[3, 65], [255]]) (int 5))) n = Some (os, t) \<and>
    PutData (DataStream_new 0) os = Some (int n, d) \<and>
    read_frames [[1, 1, 1], [4, 4]] (GetHdlcStart (PutRawData (HDLC_new 0 0 0) (Some d)) True) =
      Some (map (\<lambda>f. (bit_reverse f, True)) [[3, 65], [255]], s)"
  by (rule spandsp_to_modem) (simp_all add: HDLC_MAXFRAME_LEN_def)

end
