(* ===== verification/T4_Codes.thy ===== *)
theory T4_Codes
  imports Prelude
begin

text \<open>
  The code tables of T.4 and T.6: those of the encoder (\<^verbatim>\<open>t4_tx.c\<close>) as they are written, and those of the decoder
  (\<^verbatim>\<open>t4_t6_decode_states.h\<close>), which list for every possible window of bits the code word at its start. Code words
  are written least significant bit first, in the order of the line.
\<close>

section \<open>Encoder\<close>

text \<open>Length of the code in bits, code, and run length.\<close>

type_synonym t4_run_table_entry = "nat \<times> u32 \<times> int"

definition t4_white_codes :: "t4_run_table_entry list" where
  "t4_white_codes =
   [(8, 0xAC, 0), (6, 0x38, 1), (4, 0xE, 2), (4, 0x1, 3), (4, 0xD, 4), (4, 0x3, 5), (4, 0x7, 6), (4, 0xF, 7),
    (5, 0x19, 8), (5, 0x5, 9), (5, 0x1C, 10), (5, 0x2, 11), (6, 0x4, 12), (6, 0x30, 13), (6, 0xB, 14), (6, 0x2B, 15),
    (6, 0x15, 16), (6, 0x35, 17), (7, 0x72, 18), (7, 0x18, 19), (7, 0x8, 20), (7, 0x74, 21), (7, 0x60, 22), (7, 0x10, 23),
    (7, 0xA, 24), (7, 0x6A, 25), (7, 0x64, 26), (7, 0x12, 27), (7, 0xC, 28), (8, 0x40, 29), (8, 0xC0, 30), (8, 0x58, 31),
    (8, 0xD8, 32), (8, 0x48, 33), (8, 0xC8, 34), (8, 0x28, 35), (8, 0xA8, 36), (8, 0x68, 37), (8, 0xE8, 38), (8, 0x14, 39),
    (8, 0x94, 40), (8, 0x54, 41), (8, 0xD4, 42), (8, 0x34, 43), (8, 0xB4, 44), (8, 0x20, 45), (8, 0xA0, 46), (8, 0x50, 47),
    (8, 0xD0, 48), (8, 0x4A, 49), (8, 0xCA, 50), (8, 0x2A, 51), (8, 0xAA, 52), (8, 0x24, 53), (8, 0xA4, 54), (8, 0x1A, 55),
    (8, 0x9A, 56), (8, 0x5A, 57), (8, 0xDA, 58), (8, 0x52, 59), (8, 0xD2, 60), (8, 0x4C, 61), (8, 0xCC, 62), (8, 0x2C, 63),
    (5, 0x1B, 64), (5, 0x9, 128), (6, 0x3A, 192), (7, 0x76, 256), (8, 0x6C, 320), (8, 0xEC, 384), (8, 0x26, 448), (8, 0xA6, 512),
    (8, 0x16, 576), (8, 0xE6, 640), (9, 0x66, 704), (9, 0x166, 768), (9, 0x96, 832), (9, 0x196, 896), (9, 0x56, 960), (9, 0x156, 1024),
    (9, 0xD6, 1088), (9, 0x1D6, 1152), (9, 0x36, 1216), (9, 0x136, 1280), (9, 0xB6, 1344), (9, 0x1B6, 1408), (9, 0x32, 1472), (9, 0x132, 1536),
    (9, 0xB2, 1600), (6, 0x6, 1664), (9, 0x1B2, 1728), (11, 0x80, 1792), (11, 0x180, 1856), (11, 0x580, 1920), (12, 0x480, 1984), (12, 0xC80, 2048),
    (12, 0x280, 2112), (12, 0xA80, 2176), (12, 0x680, 2240), (12, 0xE80, 2304), (12, 0x380, 2368), (12, 0xB80, 2432), (12, 0x780, 2496), (12, 0xF80, 2560)]"

definition t4_black_codes :: "t4_run_table_entry list" where
  "t4_black_codes =
   [(10, 0x3B0, 0), (3, 0x2, 1), (2, 0x3, 2), (2, 0x1, 3), (3, 0x6, 4), (4, 0xC, 5), (4, 0x4, 6), (5, 0x18, 7),
    (6, 0x28, 8), (6, 0x8, 9), (7, 0x10, 10), (7, 0x50, 11), (7, 0x70, 12), (8, 0x20, 13), (8, 0xE0, 14), (9, 0x30, 15),
    (10, 0x3A0, 16), (10, 0x60, 17), (10, 0x40, 18), (11, 0x730, 19), (11, 0xB0, 20), (11, 0x1B0, 21), (11, 0x760, 22), (11, 0xA0, 23),
    (11, 0x740, 24), (11, 0xC0, 25), (12, 0x530, 26), (12, 0xD30, 27), (12, 0x330, 28), (12, 0xB30, 29), (12, 0x160, 30), (12, 0x960, 31),
    (12, 0x560, 32), (12, 0xD60, 33), (12, 0x4B0, 34), (12, 0xCB0, 35), (12, 0x2B0, 36), (12, 0xAB0, 37), (12, 0x6B0, 38), (12, 0xEB0, 39),
    (12, 0x360, 40), (12, 0xB60, 41), (12, 0x5B0, 42), (12, 0xDB0, 43), (12, 0x2A0, 44), (12, 0xAA0, 45), (12, 0x6A0, 46), (12, 0xEA0, 47),
    (12, 0x260, 48), (12, 0xA60, 49), (12, 0x4A0, 50), (12, 0xCA0, 51), (12, 0x240, 52), (12, 0xEC0, 53), (12, 0x1C0, 54), (12, 0xE40, 55),
    (12, 0x140, 56), (12, 0x1A0, 57), (12, 0x9A0, 58), (12, 0xD40, 59), (12, 0x340, 60), (12, 0x5A0, 61), (12, 0x660, 62), (12, 0xE60, 63),
    (10, 0x3C0, 64), (12, 0x130, 128), (12, 0x930, 192), (12, 0xDA0, 256), (12, 0xCC0, 320), (12, 0x2C0, 384), (12, 0xAC0, 448), (13, 0x6C0, 512),
    (13, 0x16C0, 576), (13, 0xA40, 640), (13, 0x1A40, 704), (13, 0x640, 768), (13, 0x1640, 832), (13, 0x9C0, 896), (13, 0x19C0, 960), (13, 0x5C0, 1024),
    (13, 0x15C0, 1088), (13, 0xDC0, 1152), (13, 0x1DC0, 1216), (13, 0x940, 1280), (13, 0x1940, 1344), (13, 0x540, 1408), (13, 0x1540, 1472), (13, 0xB40, 1536),
    (13, 0x1B40, 1600), (13, 0x4C0, 1664), (13, 0x14C0, 1728), (11, 0x80, 1792), (11, 0x180, 1856), (11, 0x580, 1920), (12, 0x480, 1984), (12, 0xC80, 2048),
    (12, 0x280, 2112), (12, 0xA80, 2176), (12, 0x680, 2240), (12, 0xE80, 2304), (12, 0x380, 2368), (12, 0xB80, 2432), (12, 0x780, 2496), (12, 0xF80, 2560)]"

text \<open>The codes of \<^verbatim>\<open>encode_2d_row\<close>: three positions right to three positions left, horizontal and pass.\<close>

definition t4_2d_codes :: "t4_run_table_entry list" where
  "t4_2d_codes =
   [(7, 0x60, 0), (6, 0x30, 0), (3, 0x6, 0), (1, 0x1, 0), (3, 0x2, 0), (6, 0x10, 0), (7, 0x20, 0), (3, 0x4, 0),
    (4, 0x8, 0)]"

section \<open>Decoder\<close>

datatype t4_code_state =
  S_Null | S_Pass | S_Horiz | S_Vert | S_Ext | S_TermW | S_TermB | S_MakeUpW | S_MakeUpB | S_MakeUp | S_EOL

text \<open>State, width of the code in bits, and parameter.\<close>

type_synonym t4_table_entry = "t4_code_state \<times> nat \<times> int"

text \<open>
  The tables hold, at every index whose low bits are a code word, the entry of this code word, and otherwise
  the entry \<open>(S_Null, 1, 0)\<close>. Here they are given by their code words: code, width, state, parameter.
\<close>

type_synonym t4_word = "u32 \<times> nat \<times> t4_code_state \<times> int"

definition t4_table_at :: "t4_word list \<Rightarrow> u32 \<Rightarrow> t4_table_entry" where
  "t4_table_at codes i =
     (case find (\<lambda>(code, width, state, param). take_bit width i = code) codes of
        Some (code, width, state, param) \<Rightarrow> (state, width, param)
      | None \<Rightarrow> (S_Null, 1, 0))"

definition t4_2d_words :: "t4_word list" where
  "t4_2d_words =
   [(1, 1, S_Vert, 0), (2, 3, S_Vert, -1), (4, 3, S_Horiz, 0), (6, 3, S_Vert, 1), (8, 4, S_Pass, 0),
    (16, 6, S_Vert, -2), (48, 6, S_Vert, 2), (32, 7, S_Vert, -3), (64, 7, S_Ext, 0), (96, 7, S_Vert, 3)]"

definition t4_2d_table :: "u32 \<Rightarrow> t4_table_entry" where
  "t4_2d_table = t4_table_at t4_2d_words"

definition t4_1d_white_words :: "t4_word list" where
  "t4_1d_white_words =
   [(1, 4, S_TermW, 3), (3, 4, S_TermW, 5), (7, 4, S_TermW, 6), (13, 4, S_TermW, 4), (14, 4, S_TermW, 2),
    (15, 4, S_TermW, 7), (2, 5, S_TermW, 11), (5, 5, S_TermW, 9), (9, 5, S_MakeUpW, 128), (25, 5, S_TermW, 8),
    (27, 5, S_MakeUpW, 64), (28, 5, S_TermW, 10), (4, 6, S_TermW, 12), (6, 6, S_MakeUpW, 1664), (11, 6, S_TermW, 14),
    (21, 6, S_TermW, 16), (43, 6, S_TermW, 15), (48, 6, S_TermW, 13), (53, 6, S_TermW, 17), (56, 6, S_TermW, 1),
    (58, 6, S_MakeUpW, 192), (8, 7, S_TermW, 20), (10, 7, S_TermW, 24), (12, 7, S_TermW, 28), (16, 7, S_TermW, 23),
    (18, 7, S_TermW, 27), (24, 7, S_TermW, 19), (96, 7, S_TermW, 22), (100, 7, S_TermW, 26), (106, 7, S_TermW, 25),
    (114, 7, S_TermW, 18), (116, 7, S_TermW, 21), (118, 7, S_MakeUpW, 256), (20, 8, S_TermW, 39), (22, 8, S_MakeUpW, 576),
    (26, 8, S_TermW, 55), (32, 8, S_TermW, 45), (36, 8, S_TermW, 53), (38, 8, S_MakeUpW, 448), (40, 8, S_TermW, 35),
    (42, 8, S_TermW, 51), (44, 8, S_TermW, 63), (52, 8, S_TermW, 43), (64, 8, S_TermW, 29), (72, 8, S_TermW, 33),
    (74, 8, S_TermW, 49), (76, 8, S_TermW, 61), (80, 8, S_TermW, 47), (82, 8, S_TermW, 59), (84, 8, S_TermW, 41),
    (88, 8, S_TermW, 31), (90, 8, S_TermW, 57), (104, 8, S_TermW, 37), (108, 8, S_MakeUpW, 320), (148, 8, S_TermW, 40),
    (154, 8, S_TermW, 56), (160, 8, S_TermW, 46), (164, 8, S_TermW, 54), (166, 8, S_MakeUpW, 512), (168, 8, S_TermW, 36),
    (170, 8, S_TermW, 52), (172, 8, S_TermW, 0), (180, 8, S_TermW, 44), (192, 8, S_TermW, 30), (200, 8, S_TermW, 34),
    (202, 8, S_TermW, 50), (204, 8, S_TermW, 62), (208, 8, S_TermW, 48), (210, 8, S_TermW, 60), (212, 8, S_TermW, 42),
    (216, 8, S_TermW, 32), (218, 8, S_TermW, 58), (230, 8, S_MakeUpW, 640), (232, 8, S_TermW, 38), (236, 8, S_MakeUpW, 384),
    (50, 9, S_MakeUpW, 1472), (54, 9, S_MakeUpW, 1216), (86, 9, S_MakeUpW, 960), (102, 9, S_MakeUpW, 704), (150, 9, S_MakeUpW, 832),
    (178, 9, S_MakeUpW, 1600), (182, 9, S_MakeUpW, 1344), (214, 9, S_MakeUpW, 1088), (306, 9, S_MakeUpW, 1536), (310, 9, S_MakeUpW, 1280),
    (342, 9, S_MakeUpW, 1024), (358, 9, S_MakeUpW, 768), (406, 9, S_MakeUpW, 896), (434, 9, S_MakeUpW, 1728), (438, 9, S_MakeUpW, 1408),
    (470, 9, S_MakeUpW, 1152), (128, 11, S_MakeUp, 1792), (384, 11, S_MakeUp, 1856), (1408, 11, S_MakeUp, 1920), (640, 12, S_MakeUp, 2112),
    (896, 12, S_MakeUp, 2368), (1152, 12, S_MakeUp, 1984), (1664, 12, S_MakeUp, 2240), (1920, 12, S_MakeUp, 2496), (2048, 12, S_EOL, 0),
    (2688, 12, S_MakeUp, 2176), (2944, 12, S_MakeUp, 2432), (3200, 12, S_MakeUp, 2048), (3712, 12, S_MakeUp, 2304), (3968, 12, S_MakeUp, 2560)]"

definition t4_1d_white_table :: "u32 \<Rightarrow> t4_table_entry" where
  "t4_1d_white_table = t4_table_at t4_1d_white_words"

definition t4_1d_black_words :: "t4_word list" where
  "t4_1d_black_words =
   [(1, 2, S_TermB, 3), (3, 2, S_TermB, 2), (2, 3, S_TermB, 1), (6, 3, S_TermB, 4), (4, 4, S_TermB, 6),
    (12, 4, S_TermB, 5), (24, 5, S_TermB, 7), (8, 6, S_TermB, 9), (40, 6, S_TermB, 8), (16, 7, S_TermB, 10),
    (80, 7, S_TermB, 11), (112, 7, S_TermB, 12), (32, 8, S_TermB, 13), (224, 8, S_TermB, 14), (48, 9, S_TermB, 15),
    (64, 10, S_TermB, 18), (96, 10, S_TermB, 17), (928, 10, S_TermB, 16), (944, 10, S_TermB, 0), (960, 10, S_MakeUpB, 64),
    (128, 11, S_MakeUp, 1792), (160, 11, S_TermB, 23), (176, 11, S_TermB, 20), (192, 11, S_TermB, 25), (384, 11, S_MakeUp, 1856),
    (432, 11, S_TermB, 21), (1408, 11, S_MakeUp, 1920), (1840, 11, S_TermB, 19), (1856, 11, S_TermB, 24), (1888, 11, S_TermB, 22),
    (304, 12, S_MakeUpB, 128), (320, 12, S_TermB, 56), (352, 12, S_TermB, 30), (416, 12, S_TermB, 57), (448, 12, S_TermB, 54),
    (576, 12, S_TermB, 52), (608, 12, S_TermB, 48), (640, 12, S_MakeUp, 2112), (672, 12, S_TermB, 44), (688, 12, S_TermB, 36),
    (704, 12, S_MakeUpB, 384), (816, 12, S_TermB, 28), (832, 12, S_TermB, 60), (864, 12, S_TermB, 40), (896, 12, S_MakeUp, 2368),
    (1152, 12, S_MakeUp, 1984), (1184, 12, S_TermB, 50), (1200, 12, S_TermB, 34), (1328, 12, S_TermB, 26), (1376, 12, S_TermB, 32),
    (1440, 12, S_TermB, 61), (1456, 12, S_TermB, 42), (1632, 12, S_TermB, 62), (1664, 12, S_MakeUp, 2240), (1696, 12, S_TermB, 46),
    (1712, 12, S_TermB, 38), (1920, 12, S_MakeUp, 2496), (2048, 12, S_EOL, 0), (2352, 12, S_MakeUpB, 192), (2400, 12, S_TermB, 31),
    (2464, 12, S_TermB, 58), (2656, 12, S_TermB, 49), (2688, 12, S_MakeUp, 2176), (2720, 12, S_TermB, 45), (2736, 12, S_TermB, 37),
    (2752, 12, S_MakeUpB, 448), (2864, 12, S_TermB, 29), (2912, 12, S_TermB, 41), (2944, 12, S_MakeUp, 2432), (3200, 12, S_MakeUp, 2048),
    (3232, 12, S_TermB, 51), (3248, 12, S_TermB, 35), (3264, 12, S_MakeUpB, 320), (3376, 12, S_TermB, 27), (3392, 12, S_TermB, 59),
    (3424, 12, S_TermB, 33), (3488, 12, S_MakeUpB, 256), (3504, 12, S_TermB, 43), (3648, 12, S_TermB, 55), (3680, 12, S_TermB, 63),
    (3712, 12, S_MakeUp, 2304), (3744, 12, S_TermB, 47), (3760, 12, S_TermB, 39), (3776, 12, S_TermB, 53), (3968, 12, S_MakeUp, 2560),
    (1216, 13, S_MakeUpB, 1664), (1344, 13, S_MakeUpB, 1408), (1472, 13, S_MakeUpB, 1024), (1600, 13, S_MakeUpB, 768), (1728, 13, S_MakeUpB, 512),
    (2368, 13, S_MakeUpB, 1280), (2496, 13, S_MakeUpB, 896), (2624, 13, S_MakeUpB, 640), (2880, 13, S_MakeUpB, 1536), (3520, 13, S_MakeUpB, 1152),
    (5312, 13, S_MakeUpB, 1728), (5440, 13, S_MakeUpB, 1472), (5568, 13, S_MakeUpB, 1088), (5696, 13, S_MakeUpB, 832), (5824, 13, S_MakeUpB, 576),
    (6464, 13, S_MakeUpB, 1344), (6592, 13, S_MakeUpB, 960), (6720, 13, S_MakeUpB, 704), (6976, 13, S_MakeUpB, 1600), (7616, 13, S_MakeUpB, 1216)]"

definition t4_1d_black_table :: "u32 \<Rightarrow> t4_table_entry" where
  "t4_1d_black_table = t4_table_at t4_1d_black_words"

end
