(* ===== verification/T4_Tx.thy ===== *)
theory T4_Tx
  imports T4_Codes Bit_Ops Sig_Status "HOL-Library.Monad_Syntax"
begin

text \<open>
  The page encoder of \<^verbatim>\<open>t4_tx.c\<close>, with the members of \<^verbatim>\<open>t4_state_t\<close> that it uses. The image buffer is modelled by
  the \<^verbatim>\<open>image_size\<close> octets written so far, and a write is only possible below the size of the buffer; the
  run length buffers and the row are lists of their allocated size. An access outside of a buffer or a
  table makes the operation \<open>None\<close>. Rows come from the row read handler; TIFF files and the text of page
  headers are not modelled.
\<close>

section \<open>State\<close>

definition T4_COMPRESSION_ITU_T4_1D :: int where "T4_COMPRESSION_ITU_T4_1D = 1"
definition T4_COMPRESSION_ITU_T4_2D :: int where "T4_COMPRESSION_ITU_T4_2D = 2"
definition T4_COMPRESSION_ITU_T6 :: int where "T4_COMPRESSION_ITU_T6 = 3"
definition EOLS_TO_END_T4_TX_PAGE :: nat where "EOLS_TO_END_T4_TX_PAGE = 6"
definition EOLS_TO_END_T6_TX_PAGE :: nat where "EOLS_TO_END_T6_TX_PAGE = 2"
definition INT_MAX :: int where "INT_MAX = 0x7FFFFFFF"

record t4_tx_state =
  tt_line_encoding :: int
  tt_line_image_size :: int
  tt_bytes_per_row :: int
  tt_image :: octets
  tt_image_buffer_size :: int
  tt_current_page :: int
  tt_image_width :: int
  tt_image_length :: int
  tt_row :: int
  tt_row_is_2d :: bool
  tt_cur_runs :: "u32 list"
  tt_ref_runs :: "u32 list"
  tt_row_buf :: octets
  tt_tx_bitstream :: u32
  tt_tx_bits :: nat
  tt_row_bits :: int
  tt_min_row_bits :: int
  tt_max_row_bits :: int
  tt_min_bits_per_row :: int
  tt_max_rows_to_next_1d_row :: int
  tt_rows_to_next_1d_row :: int
  tt_ref_steps :: int
  tt_bit_pos :: int
  tt_bit_ptr :: int

text \<open>Checked access to an array.\<close>

definition arr_get :: "'a list \<Rightarrow> int \<Rightarrow> 'a option" where
  "arr_get m i = (if 0 \<le> i \<and> i < int (length m) then Some (m ! nat i) else None)"

definition arr_set :: "'a list \<Rightarrow> int \<Rightarrow> 'a \<Rightarrow> 'a list option" where
  "arr_set m i v = (if 0 \<le> i \<and> i < int (length m) then Some (m[nat i := v]) else None)"

definition update_row_bit_info :: "t4_tx_state \<Rightarrow> t4_tx_state" where
  "update_row_bit_info s =
     s\<lparr>tt_max_row_bits := max (tt_row_bits s) (tt_max_row_bits s),
       tt_min_row_bits := min (tt_row_bits s) (tt_min_row_bits s), tt_row_bits := 0\<rparr>"

section \<open>Run lengths\<close>

text \<open>
  The positions at which the colour changes are written to the list; the local variables of
  \<^verbatim>\<open>row_to_run_lengths\<close> are a record.
\<close>

record run_scan =
  rs_list :: "u32 list"
  rs_entry :: int
  rs_flip :: u32
  rs_span :: int
  rs_pos :: int

definition put_change :: "run_scan \<Rightarrow> int \<Rightarrow> run_scan option" where
  "put_change r d = do {
     let pos = rs_pos r + d;
     l \<leftarrow> arr_set (rs_list r) (rs_entry r) (word_of_int pos);
     Some (r\<lparr>rs_pos := pos, rs_list := l, rs_entry := rs_entry r + 1\<rparr>) }"

text \<open>The further transitions of a word; the result has the number of bits left in it.\<close>

partial_function (option) more_changes :: "u32 \<Rightarrow> u32 \<Rightarrow> int \<Rightarrow> run_scan \<Rightarrow> (int \<times> run_scan) option" where
  "more_changes full x rem r = (
     let frag = 31 - top_bit (x XOR rs_flip r)
     in if frag < rem
        then do {
          r \<leftarrow> put_change r frag;
          more_changes full (push_bit (nat frag) x) (rem - frag) (r\<lparr>rs_flip := rs_flip r XOR full\<rparr>)
        }
        else Some (rem, r))"

text \<open>The transitions of a word of \<open>n\<close> bits at the top of \<open>x\<close>, at position \<open>at\<close> of the row, if it has any.\<close>

definition word_changes :: "u32 \<Rightarrow> int \<Rightarrow> int \<Rightarrow> u32 \<Rightarrow> run_scan \<Rightarrow> run_scan option" where
  "word_changes full n at x r = do {
     let frag = 31 - top_bit (x XOR rs_flip r);
     r \<leftarrow> put_change r (at - rs_span r + frag);
     (rem, r) \<leftarrow> more_changes full (push_bit (nat frag) x) (n - frag) (r\<lparr>rs_flip := rs_flip r XOR full\<rparr>);
     Some (r\<lparr>rs_span := at + n - rem\<rparr>) }"

function long_words :: "octets \<Rightarrow> int \<Rightarrow> int \<Rightarrow> run_scan \<Rightarrow> (int \<times> run_scan) option" where
  "long_words row limit i r =
     (if i < limit
      then do {
        b0 \<leftarrow> arr_get row i;
        b1 \<leftarrow> arr_get row (i + 1);
        b2 \<leftarrow> arr_get row (i + 2);
        b3 \<leftarrow> arr_get row (i + 3);
        r \<leftarrow> (if ucast b0 OR push_bit 8 (ucast b1) OR push_bit 16 (ucast b2) OR push_bit 24 (ucast b3) \<noteq> rs_flip r
             then word_changes 0xFFFFFFFF 32 (i * 8)
               (push_bit 24 (ucast b0) OR push_bit 16 (ucast b1) OR push_bit 8 (ucast b2) OR ucast b3) r
             else Some r);
        long_words row limit (i + 4) r
      }
      else Some (i, r))"
  by pat_completeness auto
termination
  by (relation "measure (\<lambda>(row, limit, i, r). nat (limit - i))") auto

function octet_words :: "octets \<Rightarrow> int \<Rightarrow> int \<Rightarrow> run_scan \<Rightarrow> (int \<times> run_scan) option" where
  "octet_words row limit i r =
     (if i < limit
      then do {
        b \<leftarrow> arr_get row i;
        r \<leftarrow> (if push_bit 24 (ucast b) \<noteq> rs_flip r then word_changes 0xFF000000 8 (i * 8) (push_bit 24 (ucast b)) r else Some r);
        octet_words row limit (i + 1) r
      }
      else Some (i, r))"
  by pat_completeness auto
termination
  by (relation "measure (\<lambda>(row, limit, i, r). nat (limit - i))") auto

partial_function (option) last_changes :: "u32 \<Rightarrow> int \<Rightarrow> int \<Rightarrow> run_scan \<Rightarrow> run_scan option" where
  "last_changes x rem span r = do {
     let frag = min (31 - top_bit (x XOR rs_flip r)) rem;
     r \<leftarrow> put_change r (span + frag);
     let r = r\<lparr>rs_flip := rs_flip r XOR 0xFF000000\<rparr>;
     if rem - frag > 0 then last_changes (push_bit (nat frag) x) (rem - frag) 0 r else Some r
   }"

definition row_to_run_lengths :: "u32 list \<Rightarrow> octets \<Rightarrow> int \<Rightarrow> (int \<times> u32 list) option" where
  "row_to_run_lengths list row width = do {
     let r = \<lparr>rs_list = list, rs_entry = 0, rs_flip = 0, rs_span = 0, rs_pos = 0\<rparr>;
     (i, r) \<leftarrow> long_words row ((width div 8) div 4 * 4) 0 r;
     (i, r) \<leftarrow> octet_words row (width div 8) i (r\<lparr>rs_flip := rs_flip r AND 0xFF000000\<rparr>);
     let span = i * 8 - rs_span r;
     r \<leftarrow> (if width mod 8 \<noteq> 0
          then do { b \<leftarrow> arr_get row i; last_changes (push_bit 24 (ucast b)) (width mod 8) span r }
          else if span \<noteq> 0 then put_change r span else Some r);
     Some (rs_entry r, rs_list r)
   }"

section \<open>Codes\<close>

function write_octets :: "t4_tx_state \<Rightarrow> t4_tx_state option" where
  "write_octets s =
     (if tt_tx_bits s \<ge> 8
      then if int (length (tt_image s)) < tt_image_buffer_size s
           then write_octets (s\<lparr>tt_image := tt_image s @ [ucast (tt_tx_bitstream s AND 0xFF)],
             tt_tx_bitstream := drop_bit 8 (tt_tx_bitstream s), tt_tx_bits := tt_tx_bits s - 8\<rparr>)
           else None
      else Some s)"
  by pat_completeness auto
termination
  by (relation "measure tt_tx_bits") auto

definition put_encoded_bits :: "t4_tx_state \<Rightarrow> u32 \<Rightarrow> int \<Rightarrow> t4_tx_state option" where
  "put_encoded_bits s bits len = do {
     let s = s\<lparr>tt_tx_bitstream := tt_tx_bitstream s OR push_bit (tt_tx_bits s) bits, tt_tx_bits := tt_tx_bits s + nat len,
               tt_row_bits := tt_row_bits s + len\<rparr>;
     let s = (if int (length (tt_image s)) + (int (tt_tx_bits s) + 7) div 8 \<ge> tt_image_buffer_size s
              then s\<lparr>tt_image_buffer_size := tt_image_buffer_size s + 100 * tt_bytes_per_row s\<rparr> else s);
     write_octets s
   }"

definition put_code :: "t4_tx_state \<Rightarrow> t4_run_table_entry list \<Rightarrow> int \<Rightarrow> t4_tx_state option" where
  "put_code s tab i = do { (len, code, run) \<leftarrow> arr_get tab i; put_encoded_bits s code (int len) }"

partial_function (option) long_spans :: "t4_tx_state \<Rightarrow> int \<Rightarrow> t4_run_table_entry list \<Rightarrow> (int \<times> t4_tx_state) option" where
  "long_spans s span tab =
     (if span \<ge> 2560 + 64
      then do {
        te \<leftarrow> arr_get tab (63 + 2560 div 64);
        s \<leftarrow> put_code s tab (63 + 2560 div 64);
        long_spans s (span - snd (snd te)) tab
      }
      else Some (span, s))"

definition put_1d_span :: "t4_tx_state \<Rightarrow> int \<Rightarrow> t4_run_table_entry list \<Rightarrow> t4_tx_state option" where
  "put_1d_span s span tab = do {
     (span, s) \<leftarrow> long_spans s span tab;
     (span, s) \<leftarrow> (if span \<ge> 64
       then do {
         te \<leftarrow> arr_get tab (63 + span div 64);
         s \<leftarrow> put_code s tab (63 + span div 64);
         Some (span - snd (snd te), s)
       }
       else Some (span, s));
     put_code s tab span
   }"

section \<open>Rows\<close>

definition encode_eol :: "t4_tx_state \<Rightarrow> t4_tx_state option" where
  "encode_eol s = (
     let (code, len) = (if tt_line_encoding s = T4_COMPRESSION_ITU_T4_2D
                        then (0x0800 OR push_bit 12 (if tt_row_is_2d s then 0 else 1), 13) else (0x800, 12))
     in if tt_row_bits s \<noteq> 0
        then do {
          s \<leftarrow> (if tt_line_encoding s \<noteq> T4_COMPRESSION_ITU_T6 \<and> tt_row_bits s + len < tt_min_bits_per_row s
               then put_encoded_bits s 0 (tt_min_bits_per_row s - (tt_row_bits s + len)) else Some s);
          s \<leftarrow> put_encoded_bits s code len;
          Some (update_row_bit_info s)
        }
        else do {
          s \<leftarrow> put_encoded_bits s code len;
          Some (s\<lparr>tt_row_bits := 0\<rparr>)
        })"

text \<open>The last entry is repeated three times.\<close>

definition stretch_runs :: "u32 list \<Rightarrow> int \<Rightarrow> u32 list option" where
  "stretch_runs runs steps = do {
     v \<leftarrow> arr_get runs (steps - 1);
     runs \<leftarrow> arr_set runs (steps + 2) v;
     runs \<leftarrow> arr_set runs (steps + 1) v;
     arr_set runs steps v
   }"

function spans_1d :: "int \<Rightarrow> t4_tx_state \<Rightarrow> int \<Rightarrow> t4_tx_state option" where
  "spans_1d steps s i =
     (if i < steps
      then do {
        a \<leftarrow> arr_get (tt_ref_runs s) i;
        b \<leftarrow> arr_get (tt_ref_runs s) (i - 1);
        s \<leftarrow> put_1d_span s (sint (a - b)) (if i mod 2 = 1 then t4_black_codes else t4_white_codes);
        spans_1d steps s (i + 1)
      }
      else Some s)"
  by pat_completeness auto
termination
  by (relation "measure (\<lambda>(steps, s, i). nat (steps - i))") auto

definition encode_1d_row :: "t4_tx_state \<Rightarrow> t4_tx_state option" where
  "encode_1d_row s = do {
     (steps, runs) \<leftarrow> row_to_run_lengths (tt_ref_runs s) (tt_row_buf s) (tt_image_width s);
     let s = s\<lparr>tt_ref_steps := steps, tt_ref_runs := runs\<rparr>;
     a \<leftarrow> arr_get runs 0;
     s \<leftarrow> put_1d_span s (sint a) t4_white_codes;
     s \<leftarrow> spans_1d steps s 1;
     runs \<leftarrow> stretch_runs (tt_ref_runs s) (tt_ref_steps s);
     Some (s\<lparr>tt_ref_runs := runs\<rparr>)
   }"

text \<open>Whether a pixel of a row is black.\<close>

definition pixel_is_black :: "octets \<Rightarrow> int \<Rightarrow> bool option" where
  "pixel_is_black row x = do { b \<leftarrow> arr_get row (x div 8); Some (push_bit (nat (x mod 8)) (ucast b :: u32) AND 0x80 \<noteq> 0) }"

text \<open>
  One round of the loop of \<^verbatim>\<open>encode_2d_row\<close> up to the search in the reference row: whether the row is finished,
  and the new \<open>a0\<close>, \<open>a1\<close> and cursor of the row.
\<close>

definition code_2d :: "int \<Rightarrow> int \<Rightarrow> int \<Rightarrow> int \<Rightarrow> int \<Rightarrow> int \<Rightarrow> t4_tx_state \<Rightarrow> (bool \<times> int \<times> int \<times> int \<times> t4_tx_state) option" where
  "code_2d cur_steps a0 a1 b1 a_cursor b_cursor s = do {
     b2 \<leftarrow> arr_get (tt_ref_runs s) (b_cursor + 1);
     if sint b2 \<ge> a1
     then do {
       (a0, a_cursor, s) \<leftarrow> (if \<bar>b1 - a1\<bar> \<le> 3
         then do { s \<leftarrow> put_code s t4_2d_codes (b1 - a1 + 3); Some (a1, a_cursor + 1, s) }
         else do {
           a2 \<leftarrow> arr_get (tt_cur_runs s) (a_cursor + 1);
           s \<leftarrow> put_code s t4_2d_codes 7;
           black \<leftarrow> (if a0 + a1 = 0 then Some False else pixel_is_black (tt_row_buf s) a0);
           s \<leftarrow> put_1d_span s (a1 - a0) (if black then t4_black_codes else t4_white_codes);
           s \<leftarrow> put_1d_span s (sint a2 - a1) (if black then t4_white_codes else t4_black_codes);
           Some (sint a2, a_cursor + 2, s)
         });
       if a0 \<ge> tt_image_width s then Some (True, a0, a1, a_cursor, s)
       else do {
         let a_cursor = (if a_cursor \<ge> cur_steps then cur_steps - 1 else a_cursor);
         a1 \<leftarrow> arr_get (tt_cur_runs s) a_cursor;
         Some (False, a0, sint a1, a_cursor, s)
       }
     }
     else do {
       s \<leftarrow> put_code s t4_2d_codes 8;
       Some (sint b2 \<ge> tt_image_width s, sint b2, a1, a_cursor, s)
     }
   }"

function hunt_down :: "u32 list \<Rightarrow> int \<Rightarrow> int \<Rightarrow> int option" where
  "hunt_down runs a0 b =
     (if b \<ge> 0 then do { r \<leftarrow> arr_get runs b; if a0 \<ge> sint r then Some b else hunt_down runs a0 (b - 2) } else Some b)"
  by pat_completeness auto
termination
  by (relation "measure (\<lambda>(runs, a0, b). nat (b + 2))") auto

function hunt_up :: "u32 list \<Rightarrow> int \<Rightarrow> int \<Rightarrow> int \<Rightarrow> int option" where
  "hunt_up runs steps a0 b =
     (if b < steps then do { r \<leftarrow> arr_get runs b; if a0 < sint r then Some b else hunt_up runs steps a0 (b + 2) } else Some b)"
  by pat_completeness auto
termination
  by (relation "measure (\<lambda>(runs, steps, a0, b). nat (steps - b))") auto

text \<open>The search for the position in the reference row.\<close>

definition find_b1 :: "t4_tx_state \<Rightarrow> int \<Rightarrow> int \<Rightarrow> int option" where
  "find_b1 s a0 b_cursor = do {
     black \<leftarrow> pixel_is_black (tt_row_buf s) a0;
     let b = (if black then b_cursor div 2 * 2 + 1 else b_cursor div 2 * 2);
     r \<leftarrow> arr_get (tt_ref_runs s) b;
     if a0 < sint r
     then do { b \<leftarrow> hunt_down (tt_ref_runs s) a0 b; Some (b + 2) }
     else do { b \<leftarrow> hunt_up (tt_ref_runs s) (tt_ref_steps s) a0 b; Some (if b \<ge> tt_ref_steps s then tt_ref_steps s - 1 else b) }
   }"

partial_function (option) codes_2d :: "int \<Rightarrow> int \<Rightarrow> int \<Rightarrow> int \<Rightarrow> int \<Rightarrow> int \<Rightarrow> t4_tx_state \<Rightarrow> t4_tx_state option" where
  "codes_2d cur_steps a0 a1 b1 a_cursor b_cursor s = do {
     c \<leftarrow> code_2d cur_steps a0 a1 b1 a_cursor b_cursor s;
     let s = snd (snd (snd (snd c)));
     if fst c then Some s
     else do {
       b \<leftarrow> find_b1 s (fst (snd c)) b_cursor;
       r \<leftarrow> arr_get (tt_ref_runs s) b;
       codes_2d cur_steps (fst (snd c)) (fst (snd (snd c))) (sint r) (fst (snd (snd (snd c)))) b s
     }
   }"

definition encode_2d_row :: "t4_tx_state \<Rightarrow> t4_tx_state option" where
  "encode_2d_row s = do {
     (steps, runs) \<leftarrow> row_to_run_lengths (tt_cur_runs s) (tt_row_buf s) (tt_image_width s);
     runs \<leftarrow> stretch_runs runs steps;
     let s = s\<lparr>tt_cur_runs := runs\<rparr>;
     a1 \<leftarrow> arr_get runs 0;
     b1 \<leftarrow> arr_get (tt_ref_runs s) 0;
     s \<leftarrow> codes_2d steps 0 (sint a1) (sint b1) 0 0 s;
     Some (s\<lparr>tt_ref_steps := steps, tt_cur_runs := tt_ref_runs s, tt_ref_runs := tt_cur_runs s\<rparr>)
   }"

definition encode_row :: "t4_tx_state \<Rightarrow> t4_tx_state option" where
  "encode_row s = do {
     s \<leftarrow> (if tt_line_encoding s = T4_COMPRESSION_ITU_T6
          then encode_2d_row (if tt_row_bits s \<noteq> 0 then update_row_bit_info s else s)
          else if tt_line_encoding s = T4_COMPRESSION_ITU_T4_2D
          then do {
            s \<leftarrow> encode_eol s;
            s \<leftarrow> (if tt_row_is_2d s
                 then do { s \<leftarrow> encode_2d_row s; Some (s\<lparr>tt_rows_to_next_1d_row := tt_rows_to_next_1d_row s - 1\<rparr>) }
                 else do { s \<leftarrow> encode_1d_row s; Some (s\<lparr>tt_row_is_2d := True\<rparr>) });
            Some (if tt_rows_to_next_1d_row s \<le> 0
                  then s\<lparr>tt_row_is_2d := False, tt_rows_to_next_1d_row := tt_max_rows_to_next_1d_row s - 1\<rparr> else s)
          }
          else do { s \<leftarrow> encode_eol s; encode_1d_row s });
     Some (s\<lparr>tt_row := tt_row s + 1\<rparr>)
   }"

section \<open>Pages\<close>

text \<open>
  \<open>rows\<close> are the octets that the successive calls of the row read handler put into the row buffer, up to the
  call that returns no more. The page starts inside the file, and there is no header text.
\<close>

fun encode_rows :: "octets list \<Rightarrow> t4_tx_state \<Rightarrow> t4_tx_state option" where
  "encode_rows [] s = Some s"
| "encode_rows (row # rows) s = do {
     buf \<leftarrow> mem_write (tt_row_buf s) 0 row;
     s \<leftarrow> encode_row (s\<lparr>tt_row_buf := buf\<rparr>);
     encode_rows rows s
   }"

fun encode_eols :: "nat \<Rightarrow> t4_tx_state \<Rightarrow> t4_tx_state option" where
  "encode_eols 0 s = Some s"
| "encode_eols (Suc n) s = do { s \<leftarrow> encode_eol s; encode_eols n s }"

definition t4_tx_start_page :: "octets list \<Rightarrow> t4_tx_state \<Rightarrow> t4_tx_state option" where
  "t4_tx_start_page rows s = do {
     let s = s\<lparr>tt_image := [], tt_tx_bitstream := 0, tt_tx_bits := 0, tt_row_is_2d := (tt_line_encoding s = T4_COMPRESSION_ITU_T6),
               tt_rows_to_next_1d_row := tt_max_rows_to_next_1d_row s - 1\<rparr>;
     let w = word_of_int (tt_image_width s);
     runs \<leftarrow> mem_write (tt_ref_runs s) 0 [w, w, w, w];
     let s = s\<lparr>tt_ref_runs := runs, tt_ref_steps := 1, tt_row_bits := 0, tt_min_row_bits := INT_MAX, tt_max_row_bits := 0\<rparr>;
     s \<leftarrow> encode_rows rows s;
     let s = s\<lparr>tt_image_length := int (length rows)\<rparr>;
     s \<leftarrow> (if tt_line_encoding s = T4_COMPRESSION_ITU_T6 then encode_eols EOLS_TO_END_T6_TX_PAGE s
          else encode_eols EOLS_TO_END_T4_TX_PAGE (s\<lparr>tt_row_is_2d := False\<rparr>));
     s \<leftarrow> put_encoded_bits s 0xFF 7;
     Some (s\<lparr>tt_bit_pos := 7, tt_bit_ptr := 0, tt_line_image_size := int (length (tt_image s)) * 8\<rparr>)
   }"

definition t4_tx_restart_page :: "t4_tx_state \<Rightarrow> t4_tx_state" where
  "t4_tx_restart_page s = s\<lparr>tt_bit_pos := 7, tt_bit_ptr := 0\<rparr>"

definition t4_tx_end_page :: "t4_tx_state \<Rightarrow> t4_tx_state" where
  "t4_tx_end_page s = s\<lparr>tt_current_page := tt_current_page s + 1\<rparr>"

definition t4_tx_get_bit :: "t4_tx_state \<Rightarrow> (int \<times> t4_tx_state) option" where
  "t4_tx_get_bit s =
     (if tt_bit_ptr s \<ge> int (length (tt_image s)) then Some (SIG_STATUS_END_OF_DATA, s)
      else do {
        b \<leftarrow> arr_get (tt_image s) (tt_bit_ptr s);
        let v = uint (drop_bit (nat (7 - tt_bit_pos s)) b AND 1);
        Some (v, if tt_bit_pos s - 1 < 0 then s\<lparr>tt_bit_pos := 7, tt_bit_ptr := tt_bit_ptr s + 1\<rparr>
                 else s\<lparr>tt_bit_pos := tt_bit_pos s - 1\<rparr>)
      })"

definition t4_tx_get_byte :: "t4_tx_state \<Rightarrow> (int \<times> t4_tx_state) option" where
  "t4_tx_get_byte s =
     (if tt_bit_ptr s \<ge> int (length (tt_image s)) then Some (0x100, s)
      else do { b \<leftarrow> arr_get (tt_image s) (tt_bit_ptr s); Some (uint b, s\<lparr>tt_bit_ptr := tt_bit_ptr s + 1\<rparr>) })"

definition t4_tx_get_chunk :: "t4_tx_state \<Rightarrow> int \<Rightarrow> (octets \<times> t4_tx_state) option" where
  "t4_tx_get_chunk s max_len =
     (if tt_bit_ptr s \<ge> int (length (tt_image s)) then Some ([], s)
      else do {
        let len = min max_len (int (length (tt_image s)) - tt_bit_ptr s);
        buf \<leftarrow> mem_read (tt_image s) (tt_bit_ptr s) len;
        Some (buf, s\<lparr>tt_bit_ptr := tt_bit_ptr s + len\<rparr>)
      })"

definition t4_tx_check_bit :: "t4_tx_state \<Rightarrow> int option" where
  "t4_tx_check_bit s =
     (if tt_bit_ptr s \<ge> int (length (tt_image s)) then Some SIG_STATUS_END_OF_DATA
      else do { b \<leftarrow> arr_get (tt_image s) (tt_bit_ptr s); Some (uint (drop_bit (nat (tt_bit_pos s)) b AND 1)) })"

definition t4_tx_set_tx_encoding :: "t4_tx_state \<Rightarrow> int \<Rightarrow> t4_tx_state" where
  "t4_tx_set_tx_encoding s encoding =
     s\<lparr>tt_line_encoding := encoding, tt_rows_to_next_1d_row := tt_max_rows_to_next_1d_row s - 1, tt_row_is_2d := False\<rparr>"

definition t4_tx_set_min_row_bits :: "t4_tx_state \<Rightarrow> int \<Rightarrow> t4_tx_state" where
  "t4_tx_set_min_row_bits s bits = s\<lparr>tt_min_bits_per_row := bits\<rparr>"

definition t4_tx_get_image_width :: "t4_tx_state \<Rightarrow> int" where
  "t4_tx_get_image_width s = tt_image_width s"

declare more_changes.simps [code] last_changes.simps [code] long_spans.simps [code] codes_2d.simps [code]
declare long_words.simps [simp del] octet_words.simps [simp del] write_octets.simps [simp del] spans_1d.simps [simp del]
  hunt_down.simps [simp del] hunt_up.simps [simp del]

end
