(* ===== verification/T4_Runs.thy ===== *)
theory T4_Runs
  imports T4_Tx
begin

text \<open>
  The word-wise search for colour changes in \<^verbatim>\<open>row_to_run_lengths\<close> of \<^verbatim>\<open>t4_tx.c\<close> finds exactly the positions where
  a pixel differs from the one before it.
\<close>


section \<open>Colour changes\<close>

text \<open>The positions, counted from \<open>p\<close>, at which the colour changes when it is \<open>c\<close> before the first pixel.\<close>

fun colour_changes :: "bool \<Rightarrow> int \<Rightarrow> bits \<Rightarrow> int list" where
  "colour_changes c p [] = []"
| "colour_changes c p (b # bs) = (if b = c then colour_changes c (p + 1) bs else p # colour_changes b (p + 1) bs)"

definition last_colour :: "bool \<Rightarrow> bits \<Rightarrow> bool" where
  "last_colour c bs = last (c # bs)"

lemma last_colour_simps [simp]: "last_colour c [] = c" "last_colour c (b # bs) = last_colour b bs"
  by (simp_all add: last_colour_def)

lemma last_colour_append: "last_colour c (xs @ ys) = last_colour (last_colour c xs) ys"
  by (induction xs arbitrary: c) simp_all

lemma colour_changes_append:
  "colour_changes c p (xs @ ys) = colour_changes c p xs @ colour_changes (last_colour c xs) (p + int (length xs)) ys"
  by (induction xs arbitrary: c p) (simp_all add: algebra_simps)

lemma colour_changes_same: "\<forall>b\<in>set xs. b = c \<Longrightarrow> colour_changes c p xs = []"
  by (induction xs arbitrary: p) simp_all

lemma last_colour_same: "\<forall>b\<in>set xs. b = c \<Longrightarrow> last_colour c xs = c"
  by (induction xs) simp_all

lemma colour_changes_run:
  assumes "\<forall>b\<in>set xs. b = c" "b \<noteq> c"
  shows "colour_changes c p (xs @ b # ys) = (p + int (length xs)) # colour_changes b (p + int (length xs) + 1) ys"
  using assms by (simp add: colour_changes_append colour_changes_same last_colour_same)

lemma length_colour_changes: "length (colour_changes c p bs) \<le> length bs"
  by (induction bs arbitrary: c p) (auto intro: le_SucI)

section \<open>Words\<close>

definition bits32 :: "u32 \<Rightarrow> bits" where
  "bits32 x = map (\<lambda>i. bit x (31 - i)) [0..<32]"

lemma length_bits32 [simp]: "length (bits32 x) = 32"
  by (simp add: bits32_def)

lemma bits32_nth: "i < 32 \<Longrightarrow> bits32 x ! i = bit x (31 - i)"
  by (simp add: bits32_def)

lemma bits32_push: "n \<le> 32 \<Longrightarrow> bits32 (push_bit n x) = drop n (bits32 x) @ replicate n False"
  by (rule nth_equalityI) (auto simp: bits32_nth nth_append bit_simps add.commute)

text \<open>The number of bits at the top of a word that are zero.\<close>

lemma top_zeros_exact:
  assumes "k < 32" "bit y (31 - k)" "\<And>j. j < k \<Longrightarrow> \<not> bit y (31 - j)"
  shows "31 - top_bit y = int k"
proof -
  have "j \<le> 31 - k" if "bit y j" for j
  proof (rule ccontr)
    assume "\<not> j \<le> 31 - k"
    moreover have "j < 32"
      using bit_imp_le_length [OF that] by simp
    ultimately have "31 - j < k" "31 - (31 - j) = j"
      by auto
    then show False
      using assms(3) [of "31 - j"] that by simp
  qed
  then have "top_bit y = int (31 - k)"
    using assms(2) by (intro top_bit_highest)
  then show ?thesis
    using assms(1) by simp
qed

lemma top_zeros_least:
  assumes "k \<le> 32" "\<And>j. j < k \<Longrightarrow> \<not> bit y (31 - j)"
  shows "int k \<le> 31 - top_bit y"
proof (cases "y = 0")
  case True
  then show ?thesis
    using assms(1) by (simp add: top_bit_def)
next
  case False
  then obtain i where "bit y i" "i < 32"
    using bit_word_eqI [of y 0] by auto
  define m where "m = (LEAST m. bit y (31 - m))"
  have m: "bit y (31 - m)"
    unfolding m_def by (rule LeastI [of _ "31 - i"]) (use \<open>bit y i\<close> \<open>i < 32\<close> in simp)
  have least: "\<not> bit y (31 - j)" if "j < m" for j
    using not_less_Least that unfolding m_def by blast
  have "m < 32"
    unfolding m_def by (rule le_less_trans [OF Least_le [of _ "31 - i"]]) (use \<open>bit y i\<close> \<open>i < 32\<close> in auto)
  then have "31 - top_bit y = int m"
    using m least by (rule top_zeros_exact)
  moreover have "k \<le> m"
    using assms(2) [of m] m by (cases "m < k") auto
  ultimately show ?thesis
    by simp
qed

text \<open>
  The word \<open>flip\<close> has the colour \<open>c\<close> in its first \<open>n\<close> bits; \<open>x\<close> has the pixels \<open>l\<close> in its first bits and then zeros.
\<close>

definition flip_word :: "nat \<Rightarrow> bool \<Rightarrow> u32 \<Rightarrow> bool" where
  "flip_word n c flip \<longleftrightarrow> bits32 flip = replicate n c @ replicate (32 - n) False"

definition pixel_word :: "u32 \<Rightarrow> bits \<Rightarrow> bool" where
  "pixel_word x l \<longleftrightarrow> (\<exists>r. bits32 x = l @ r)"

lemma pixel_word_length: "pixel_word x l \<Longrightarrow> length l \<le> 32"
  unfolding pixel_word_def by (metis length_append length_bits32 le_add1)

lemma pixel_word_nth:
  assumes "pixel_word x l" "j < length l"
  shows "bit x (31 - j) = l ! j"
proof -
  obtain r where "bits32 x = l @ r"
    using assms(1) by (auto simp: pixel_word_def)
  then show ?thesis
    using bits32_nth [of j x] pixel_word_length [OF assms(1)] assms(2) by (simp add: nth_append)
qed

lemma flip_word_nth: "flip_word n c flip \<Longrightarrow> j < n \<Longrightarrow> n \<le> 32 \<Longrightarrow> bit flip (31 - j) = c"
  unfolding flip_word_def using bits32_nth [of j flip] by (simp add: nth_append)

lemma frag_run:
  assumes "pixel_word x (xs @ b # ys)" "flip_word n c flip" "length xs < n" "n \<le> 32" "\<forall>b\<in>set xs. b = c" "b \<noteq> c"
  shows "31 - top_bit (x XOR flip) = int (length xs)"
proof (rule top_zeros_exact)
  show "length xs < 32"
    using assms(3,4) by simp
  show "bit (x XOR flip) (31 - length xs)"
    using pixel_word_nth [OF assms(1), of "length xs"] flip_word_nth [OF assms(2), of "length xs"] assms(3,4,6)
    by (simp add: bit_xor_iff)
  show "\<not> bit (x XOR flip) (31 - j)" if "j < length xs" for j
    using pixel_word_nth [OF assms(1), of j] flip_word_nth [OF assms(2), of j] that assms(3-5)
    by (simp add: bit_xor_iff nth_append)
qed

lemma frag_none:
  assumes "pixel_word x l" "flip_word n c flip" "length l \<le> n" "n \<le> 32" "\<forall>b\<in>set l. b = c"
  shows "int (length l) \<le> 31 - top_bit (x XOR flip)"
proof (rule top_zeros_least)
  show "length l \<le> 32"
    using assms(3,4) by simp
  show "\<not> bit (x XOR flip) (31 - j)" if "j < length l" for j
    using pixel_word_nth [OF assms(1), of j] flip_word_nth [OF assms(2), of j] that assms(3-5) by (simp add: bit_xor_iff)
qed

lemma pixel_word_push:
  assumes "pixel_word x (xs @ ys)"
  shows "pixel_word (push_bit (length xs) x) ys"
proof -
  obtain r where "bits32 x = xs @ ys @ r"
    using assms by (auto simp: pixel_word_def)
  moreover have "length xs \<le> 32"
    using pixel_word_length [OF assms] by simp
  ultimately show ?thesis
    by (simp add: pixel_word_def bits32_push)
qed

lemma flip_word_full:
  assumes "flip_word n c flip" "flip_word n True full" "n \<le> 32"
  shows "flip_word n (\<not> c) (flip XOR full)"
proof -
  have "bits32 (flip XOR full) = map2 (\<noteq>) (bits32 flip) (bits32 full)"
    by (rule nth_equalityI) (simp_all add: bits32_nth bit_xor_iff)
  also have "\<dots> = replicate n (\<not> c) @ replicate (32 - n) False"
    using assms by (simp add: flip_word_def zip_append)
  finally show ?thesis
    by (simp add: flip_word_def)
qed

section \<open>The search\<close>

text \<open>The entries \<open>out\<close> have been written, and \<open>pos\<close> is the position of the last.\<close>

definition scanned :: "run_scan \<Rightarrow> int list \<Rightarrow> int \<Rightarrow> nat \<Rightarrow> bool" where
  "scanned r out pos cap \<longleftrightarrow> rs_entry r = int (length out) \<and> rs_pos r = pos \<and> pos = last (0 # out) \<and> length (rs_list r) = cap \<and>
     take (length out) (rs_list r) = map word_of_int out"

lemma scanned_simps [simp]:
  "scanned (r\<lparr>rs_flip := f\<rparr>) out pos cap = scanned r out pos cap" "scanned (r\<lparr>rs_span := q\<rparr>) out pos cap = scanned r out pos cap"
  by (simp_all add: scanned_def)

lemma put_change_spec:
  assumes "scanned r out pos cap" "length out < cap"
  obtains r' where "put_change r d = Some r'" "scanned r' (out @ [pos + d]) (pos + d) cap" "rs_flip r' = rs_flip r" "rs_span r' = rs_span r"
proof -
  let ?l = "(rs_list r)[length out := word_of_int (pos + d)]"
  have "put_change r d = Some (r\<lparr>rs_pos := pos + d, rs_list := ?l, rs_entry := rs_entry r + 1\<rparr>)"
    using assms by (simp add: put_change_def arr_set_def scanned_def)
  moreover have "take (Suc (length out)) ?l = take (length out) (rs_list r) @ [word_of_int (pos + d)]"
    using assms by (simp add: scanned_def take_Suc_conv_app_nth)
  then have "scanned (r\<lparr>rs_pos := pos + d, rs_list := ?l, rs_entry := rs_entry r + 1\<rparr>) (out @ [pos + d]) (pos + d) cap"
    using assms by (simp add: scanned_def)
  ultimately show ?thesis
    using that by simp
qed

lemma split_run:
  obtains (none) "\<forall>b\<in>set l. b = c" | (run) xs b ys where "l = xs @ b # ys" "\<forall>b\<in>set xs. b = c" "b = (\<not> c)"
proof (cases "\<forall>b\<in>set l. b = c")
  case False
  then obtain xs b ys where "l = xs @ b # ys" "b \<noteq> c" "\<forall>y\<in>set xs. \<not> y \<noteq> c"
    using split_list_first_prop [of l "\<lambda>b. b \<noteq> c"] by blast
  then show ?thesis
    using run by blast
qed (rule none)

text \<open>In the loop, the word starts with a pixel of the present colour at the position of the last change.\<close>

lemma more_changes_spec:
  assumes "scanned r out p cap" "pixel_word x (c # l)" "flip_word n c (rs_flip r)" "flip_word n True full" "length (c # l) \<le> n" "n \<le> 32"
    "length out + length (colour_changes c (p + 1) l) \<le> cap"
  shows "\<exists>rem r'. more_changes full x (int (length (c # l))) r = Some (rem, r') \<and>
    scanned r' (out @ colour_changes c (p + 1) l) (p + int (length (c # l)) - rem) cap \<and>
    flip_word n (last_colour c l) (rs_flip r')"
  using assms
proof (induction l arbitrary: r out p x c rule: length_induct)
  case (1 l)
  show ?case
  proof (cases rule: split_run [of l c])
    case none
    then have "int (length (c # l)) \<le> 31 - top_bit (x XOR rs_flip r)"
      using frag_none [OF "1.prems"(2,3,5,6)] by simp
    then have "more_changes full x (int (length (c # l))) r = Some (int (length (c # l)), r)"
      by (subst more_changes.simps) (simp add: Let_def)
    then show ?thesis
      using none "1.prems"(1,3) by (simp add: colour_changes_same last_colour_same)
  next
    case (run xs b ys)
    let ?k = "Suc (length xs)"
    have "31 - top_bit (x XOR rs_flip r) = int (length (c # xs))"
      by (rule frag_run [where b = b and ys = ys and n = n and c = c]) (use "1.prems"(2,3,5,6) run in auto)
    then have frag: "31 - top_bit (x XOR rs_flip r) = int ?k"
      by simp
    have cc: "colour_changes c (p + 1) l = (p + int ?k) # colour_changes b (p + int ?k + 1) ys" "last_colour c l = last_colour b ys"
      using colour_changes_run [OF run(2), of b "p + 1" ys] run(1,3) by (simp_all add: last_colour_append)
    then have cap: "length out < cap"
      using "1.prems"(7) by simp
    obtain r1 where r1: "put_change r (int ?k) = Some r1" "scanned r1 (out @ [p + int ?k]) (p + int ?k) cap" "rs_flip r1 = rs_flip r"
      using put_change_spec [OF "1.prems"(1) cap] by blast
    let ?r = "r1\<lparr>rs_flip := rs_flip r1 XOR full\<rparr>"
    have "pixel_word (push_bit ?k x) (b # ys)"
      using pixel_word_push [of x "c # xs" "b # ys"] "1.prems"(2) run(1) by simp
    moreover have "flip_word n b (rs_flip ?r)"
      using flip_word_full [OF "1.prems"(3,4,6)] r1(3) run(3) by simp
    ultimately obtain rem r' where r': "more_changes full (push_bit ?k x) (int (length (b # ys))) ?r = Some (rem, r')"
      "scanned r' ((out @ [p + int ?k]) @ colour_changes b (p + int ?k + 1) ys) (p + int ?k + int (length (b # ys)) - rem) cap"
      "flip_word n (last_colour b ys) (rs_flip r')"
      using "1.IH" [rule_format, of ys ?r "out @ [p + int ?k]" "p + int ?k" "push_bit ?k x" b] r1(2) "1.prems"(4-7) run(1) cc by auto
    have len: "int (length (c # l)) - int ?k = int (length (b # ys))" "int ?k < int (length (c # l))"
      using run(1) by simp_all
    have "more_changes full x (int (length (c # l))) r = more_changes full (push_bit ?k x) (int (length (b # ys))) ?r"
      by (subst more_changes.simps) (simp only: frag Let_def len if_True r1(1) bind.simps nat_int)
    then show ?thesis
      using r' cc len(1) by (auto simp: algebra_simps)
  qed
qed

lemma word_changes_spec:
  assumes r: "scanned r out q cap" "rs_span r = q" and x: "pixel_word x l" "\<not> (\<forall>b\<in>set l. b = c)" and flip: "flip_word n c (rs_flip r)"
    and full: "flip_word n True full" and n: "length l = n" "n \<le> 32" and cap: "length out + length (colour_changes c p l) \<le> cap"
  shows "\<exists>r'. word_changes full (int n) p x r = Some r' \<and> scanned r' (out @ colour_changes c p l) (rs_span r') cap \<and>
    flip_word n (last_colour c l) (rs_flip r')"
proof -
  obtain xs ys where l: "l = xs @ (\<not> c) # ys" "\<forall>b\<in>set xs. b = c"
    using x(2) by (cases rule: split_run [of l c]) auto
  let ?k = "length xs"
  have frag: "31 - top_bit (x XOR rs_flip r) = int ?k"
    by (rule frag_run [where b = "\<not> c" and ys = ys and n = n and c = c]) (use x(1) flip n l in auto)
  have cc: "colour_changes c p l = (p + int ?k) # colour_changes (\<not> c) (p + int ?k + 1) ys" "last_colour c l = last_colour (\<not> c) ys"
    using colour_changes_run [OF l(2), of "\<not> c" p ys] l(1) by (simp_all add: last_colour_append)
  then have "length out < cap"
    using cap by simp
  from put_change_spec [OF r(1) this, of "p - q + int ?k"]
  obtain r1 where r1: "put_change r (p - q + int ?k) = Some r1" "scanned r1 (out @ [p + int ?k]) (p + int ?k) cap" "rs_flip r1 = rs_flip r"
    by auto
  let ?r = "r1\<lparr>rs_flip := rs_flip r1 XOR full\<rparr>"
  have pw: "pixel_word (push_bit ?k x) ((\<not> c) # ys)"
    using pixel_word_push [of x xs "(\<not> c) # ys"] x(1) l(1) by simp
  have fw: "flip_word n (\<not> c) (rs_flip ?r)"
    using flip_word_full [OF flip full n(2)] r1(3) by simp
  have "scanned ?r (out @ [p + int ?k]) (p + int ?k) cap" "length ((\<not> c) # ys) \<le> n"
    "length (out @ [p + int ?k]) + length (colour_changes (\<not> c) (p + int ?k + 1) ys) \<le> cap"
    using r1(2) l(1) n(1) cap cc by simp_all
  from more_changes_spec [OF this(1) pw fw full this(2) n(2) this(3)] obtain rem r' where
    r': "more_changes full (push_bit ?k x) (int (length ((\<not> c) # ys))) ?r = Some (rem, r')"
      "scanned r' ((out @ [p + int ?k]) @ colour_changes (\<not> c) (p + int ?k + 1) ys) (p + int ?k + int (length ((\<not> c) # ys)) - rem) cap"
      "flip_word n (last_colour (\<not> c) ys) (rs_flip r')"
    by blast
  have len: "int n - int ?k = int (length ((\<not> c) # ys))"
    using l(1) n(1) by auto
  have "word_changes full (int n) p x r = Some (r'\<lparr>rs_span := p + int n - rem\<rparr>)"
    using r1(1) r'(1) r(2) frag len by (simp add: word_changes_def)
  then show ?thesis
    using r'(2,3) cc len by (auto simp: algebra_simps)
qed

section \<open>Words of a row\<close>

lemma bits32_inject: "bits32 x = bits32 y \<longleftrightarrow> x = y"
proof
  assume eq: "bits32 x = bits32 y"
  show "x = y"
  proof (rule bit_word_eqI)
    fix i assume "i < LENGTH(32)"
    then have "31 - i < 32" "31 - (31 - i) = i"
      by simp_all
    then show "bit x i = bit y i"
      using arg_cong [OF eq, of "\<lambda>l. l ! (31 - i)"] by (simp add: bits32_nth)
  qed
qed simp

lemma bits32_octets:
  "bits32 (push_bit 24 (ucast a) OR push_bit 16 (ucast b) OR push_bit 8 (ucast c) OR ucast d) = stream_msb [a, b, c, d]"
proof (rule nth_equalityI)
  fix i assume "i < length (bits32 (push_bit 24 (ucast a) OR push_bit 16 (ucast b) OR push_bit 8 (ucast c) OR ucast d))"
  then consider "i < 8" | "8 \<le> i" "i < 16" | "16 \<le> i" "i < 24" | "24 \<le> i" "i < 32"
    by fastforce
  then show "bits32 (push_bit 24 (ucast a) OR push_bit 16 (ucast b) OR push_bit 8 (ucast c) OR ucast d) ! i = stream_msb [a, b, c, d] ! i"
    by cases (auto simp: bits32_nth nth_append bits_msb_nth bit_simps dest: bit_u8_bound)
qed simp

lemma bits32_octet: "bits32 (push_bit 24 (ucast a)) = bits_msb a @ replicate 24 False"
proof (rule nth_equalityI)
  fix i assume "i < length (bits32 (push_bit 24 (ucast a)))"
  then show "bits32 (push_bit 24 (ucast a)) ! i = (bits_msb a @ replicate 24 False) ! i"
    by (auto simp: bits32_nth nth_append bits_msb_nth bit_simps)
qed simp

lemma all_same_iff: "(\<forall>b\<in>set l. b = c) \<longleftrightarrow> l = replicate (length l) c"
  by (metis replicate_eqI in_set_replicate)

lemma native_word_same:
  assumes "flip_word 32 c flip"
  shows "ucast b0 OR push_bit 8 (ucast b1) OR push_bit 16 (ucast b2) OR push_bit 24 (ucast b3) = flip \<longleftrightarrow>
    (\<forall>b\<in>set (stream_msb [b0, b1, b2, b3]). b = c)"
proof -
  let ?x = "ucast b0 OR push_bit 8 (ucast b1) OR push_bit 16 (ucast b2) OR push_bit 24 (ucast b3) :: u32"
  have "?x = push_bit 24 (ucast b3) OR push_bit 16 (ucast b2) OR push_bit 8 (ucast b1) OR ucast b0"
    by (simp add: ac_simps)
  then have "bits32 ?x = stream_msb [b3, b2, b1, b0]"
    using bits32_octets [of b3 b2 b1 b0] by simp
  then have "?x = flip \<longleftrightarrow> stream_msb [b3, b2, b1, b0] = replicate 32 c"
    using assms by (simp add: bits32_inject [symmetric] flip_word_def)
  also have "\<dots> \<longleftrightarrow> (\<forall>b\<in>set (stream_msb [b3, b2, b1, b0]). b = c)"
    using all_same_iff [of "stream_msb [b3, b2, b1, b0]" c] by simp
  also have "set (stream_msb [b3, b2, b1, b0]) = set (stream_msb [b0, b1, b2, b3])"
    by auto
  finally show ?thesis .
qed

lemma octet_word_same:
  assumes "flip_word 8 c flip"
  shows "push_bit 24 (ucast b) = flip \<longleftrightarrow> (\<forall>b\<in>set (bits_msb b). b = c)"
  using assms all_same_iff [of "bits_msb b" c] by (simp add: bits32_inject [symmetric] flip_word_def bits32_octet)

lemma full_words: "flip_word 32 True 0xFFFFFFFF" "flip_word 8 True 0xFF000000"
  by code_simp+

lemma flip_word_narrow:
  assumes "flip_word 32 c flip"
  shows "flip_word 8 c (flip AND 0xFF000000)"
proof -
  have "bits32 (flip AND 0xFF000000) = map2 (\<and>) (bits32 flip) (bits32 0xFF000000)"
    by (rule nth_equalityI) (simp_all add: bits32_nth bit_and_iff)
  also have "\<dots> = map2 (\<and>) (replicate 8 c @ replicate 24 c) (replicate 8 True @ replicate 24 False)"
    using assms full_words(2) by (simp add: flip_word_def replicate_add [symmetric])
  also have "\<dots> = replicate 8 c @ replicate 24 False"
    by (simp add: zip_append)
  finally show ?thesis
    by (simp add: flip_word_def)
qed

text \<open>The first \<open>i\<close> octets of the row have been searched, with words of \<open>n\<close> bits.\<close>

definition searched :: "nat \<Rightarrow> octets \<Rightarrow> nat \<Rightarrow> nat \<Rightarrow> run_scan \<Rightarrow> bool" where
  "searched n row cap i r \<longleftrightarrow> scanned r (colour_changes False 0 (stream_msb (take i row))) (rs_span r) cap \<and>
     flip_word n (last_colour False (stream_msb (take i row))) (rs_flip r)"

lemma searched_word:
  assumes r: "searched n row cap i r" and w: "take (i + m) row = take i row @ bs" "length bs = m" "8 * m = n" "n \<le> 32" "i + m \<le> length row"
    and x: "pixel_word x (stream_msb bs)" and full: "flip_word n True full" and cap: "8 * (i + m) \<le> cap"
    and same: "same \<longleftrightarrow> (\<forall>b\<in>set (stream_msb bs). b = last_colour False (stream_msb (take i row)))"
  shows "\<exists>r'. (if \<not> same then word_changes full (int n) (int i * 8) x r else Some r) = Some r' \<and> searched n row cap (i + m) r'"
proof -
  let ?c = "last_colour False (stream_msb (take i row))"
  have len: "int (length (stream_msb (take i row))) = int i * 8"
    using w(5) by simp
  have next_cc: "colour_changes False 0 (stream_msb (take (i + m) row)) =
      colour_changes False 0 (stream_msb (take i row)) @ colour_changes ?c (int i * 8) (stream_msb bs)"
    "last_colour False (stream_msb (take (i + m) row)) = last_colour ?c (stream_msb bs)"
    unfolding w(1) stream_msb_append colour_changes_append last_colour_append len by simp_all
  show ?thesis
  proof (cases same)
    case True
    then show ?thesis
      using r same next_cc by (auto simp: searched_def colour_changes_same last_colour_same)
  next
    case False
    have "length (colour_changes False 0 (stream_msb (take (i + m) row))) \<le> cap"
      using le_trans [OF length_colour_changes, of "stream_msb (take (i + m) row)" cap] cap w(5) by (simp add: min_absorb2)
    then have room: "length (colour_changes False 0 (stream_msb (take i row))) + length (colour_changes ?c (int i * 8) (stream_msb bs)) \<le> cap"
      using next_cc(1) by simp
    have "length (stream_msb bs) = n" "\<not> (\<forall>b\<in>set (stream_msb bs). b = ?c)"
      using w(2,3) same False by simp_all
    from word_changes_spec [OF _ refl x this(2) _ full this(1) w(4) room] r False next_cc show ?thesis
      by (auto simp: searched_def)
  qed
qed

lemma long_words_spec:
  assumes "searched 32 row cap (4 * j) r" "4 * (j + k) \<le> length row" "8 * (4 * (j + k)) \<le> cap"
  shows "\<exists>r'. long_words row (int (4 * (j + k))) (int (4 * j)) r = Some (int (4 * (j + k)), r') \<and> searched 32 row cap (4 * (j + k)) r'"
  using assms
proof (induction k arbitrary: j r)
  case 0
  then show ?case
    by (subst long_words.simps) simp
next
  case (Suc k)
  let ?i = "4 * j"
  let ?b = "\<lambda>m. row ! (?i + m)"
  have i: "?i + 3 < length row"
    using Suc.prems(2) by simp
  have bs: "take (?i + 4) row = take ?i row @ [?b 0, ?b 1, ?b 2, ?b 3]"
    using i by (simp add: numeral_eq_Suc take_Suc_conv_app_nth)
  have flip: "flip_word 32 (last_colour False (stream_msb (take ?i row))) (rs_flip r)"
    using Suc.prems(1) by (simp add: searched_def)
  let ?x = "push_bit 24 (ucast (?b 0)) OR push_bit 16 (ucast (?b 1)) OR push_bit 8 (ucast (?b 2)) OR ucast (?b 3) :: u32"
  let ?y = "ucast (?b 0) OR push_bit 8 (ucast (?b 1)) OR push_bit 16 (ucast (?b 2)) OR push_bit 24 (ucast (?b 3)) :: u32"
  have "pixel_word ?x (stream_msb [?b 0, ?b 1, ?b 2, ?b 3])"
    unfolding pixel_word_def bits32_octets by blast
  from searched_word [OF Suc.prems(1) bs _ _ _ _ this full_words(1) _ native_word_same [OF flip], unfolded of_nat_numeral] i Suc.prems(3)
  obtain r1 where r1: "(if ?y \<noteq> rs_flip r then word_changes 0xFFFFFFFF 32 (int ?i * 8) ?x r else Some r) = Some r1" "searched 32 row cap (?i + 4) r1"
    by auto
  have get: "arr_get row (int ?i) = Some (?b 0)" "arr_get row (int ?i + 1) = Some (?b 1)"
    "arr_get row (int ?i + 2) = Some (?b 2)" "arr_get row (int ?i + 3) = Some (?b 3)"
    using i by (simp_all add: arr_get_def nat_add_distrib nat_mult_distrib)
  have "long_words row (int (4 * (j + Suc k))) (int ?i) r = long_words row (int (4 * (j + Suc k))) (int ?i + 4) r1"
    using r1(1) by (subst long_words.simps) (simp only: get bind.simps, simp)
  also have "\<dots> = long_words row (int (4 * (Suc j + k))) (int (4 * Suc j)) r1"
    by (simp add: algebra_simps)
  finally show ?case
    using Suc.IH [of "Suc j" r1] r1(2) Suc.prems(2,3) by (simp add: ac_simps)
qed

lemma octet_words_spec:
  assumes "searched 8 row cap i r" "i + k \<le> length row" "8 * (i + k) \<le> cap"
  shows "\<exists>r'. octet_words row (int (i + k)) (int i) r = Some (int (i + k), r') \<and> searched 8 row cap (i + k) r'"
  using assms
proof (induction k arbitrary: i r)
  case 0
  then show ?case
    by (subst octet_words.simps) simp
next
  case (Suc k)
  have i: "i < length row"
    using Suc.prems(2) by simp
  have flip: "flip_word 8 (last_colour False (stream_msb (take i row))) (rs_flip r)"
    using Suc.prems(1) by (simp add: searched_def)
  have bs: "take (i + 1) row = take i row @ [row ! i]"
    using i by (simp add: take_Suc_conv_app_nth)
  have pw: "pixel_word (push_bit 24 (ucast (row ! i))) (stream_msb [row ! i])"
    unfolding pixel_word_def bits32_octet by simp
  have same: "push_bit 24 (ucast (row ! i)) = rs_flip r \<longleftrightarrow> (\<forall>b\<in>set (stream_msb [row ! i]). b = last_colour False (stream_msb (take i row)))"
    using octet_word_same [OF flip] by simp
  from searched_word [OF Suc.prems(1) bs _ _ _ _ pw full_words(2) _ same, unfolded of_nat_numeral] i Suc.prems(3)
  obtain r1 where r1: "(if push_bit 24 (ucast (row ! i)) \<noteq> rs_flip r then word_changes 0xFF000000 8 (int i * 8) (push_bit 24 (ucast (row ! i))) r else Some r) = Some r1"
    "searched 8 row cap (i + 1) r1"
    by auto
  have "arr_get row (int i) = Some (row ! i)"
    using i by (simp add: arr_get_def)
  then have "octet_words row (int (i + Suc k)) (int i) r = octet_words row (int (i + Suc k)) (int i + 1) r1"
    using r1(1) by (subst octet_words.simps) simp
  also have "\<dots> = octet_words row (int (Suc i + k)) (int (Suc i)) r1"
    by (simp add: algebra_simps)
  finally show ?case
    using Suc.IH [of "Suc i" r1] r1(2) Suc.prems(2,3) by simp
qed

text \<open>
  The last pixels of a row that do not fill an octet: the changes in them and the end of the row. The measure
  takes into account that only the first round can find a change at once.
\<close>

lemma last_changes_spec:
  assumes "scanned r out (p - span) cap" "pixel_word x (l @ pad)" "flip_word 8 c (rs_flip r)" "l \<noteq> []" "length l \<le> 8"
    "length out + length (colour_changes c p l) < cap"
  shows "\<exists>r'. last_changes x (int (length l)) span r = Some r' \<and>
    scanned r' (out @ colour_changes c p l @ [p + int (length l)]) (p + int (length l)) cap"
  using assms
proof (induction "2 * length l + (if hd l = c then 0 else 1)" arbitrary: r out p span x c l rule: less_induct)
  case less
  have px: "pixel_word x l"
    using less.prems(2) by (auto simp: pixel_word_def)
  have out: "length out < cap"
    using less.prems(6) by simp
  show ?case
  proof (cases rule: split_run [of l c])
    case none
    then have "min (31 - top_bit (x XOR rs_flip r)) (int (length l)) = int (length l)"
      using frag_none [OF px less.prems(3,5)] by simp
    then have "last_changes x (int (length l)) span r = do { r \<leftarrow> put_change r (span + int (length l)); Some (r\<lparr>rs_flip := rs_flip r XOR 0xFF000000\<rparr>) }"
      by (subst last_changes.simps) (simp only: Let_def, simp)
    moreover obtain r' where "put_change r (span + int (length l)) = Some r'" "scanned r' (out @ [p + int (length l)]) (p + int (length l)) cap"
      using put_change_spec [OF less.prems(1) out, of "span + int (length l)"] by auto
    ultimately show ?thesis
      using none by (simp add: colour_changes_same)
  next
    case (run xs b ys)
    let ?k = "length xs"
    have "31 - top_bit (x XOR rs_flip r) = int ?k"
      by (rule frag_run [where b = b and ys = "ys @ pad" and n = 8 and c = c]) (use less.prems(2,3,5) run in auto)
    then have frag: "min (31 - top_bit (x XOR rs_flip r)) (int (length l)) = int ?k"
      using run(1) by simp
    have cc: "colour_changes c p l = (p + int ?k) # colour_changes b (p + int ?k + 1) ys"
      using colour_changes_run [OF run(2), of b p ys] run(1,3) by simp
    obtain r1 where r1: "put_change r (span + int ?k) = Some r1" "scanned r1 (out @ [p + int ?k]) (p + int ?k) cap" "rs_flip r1 = rs_flip r"
      using put_change_spec [OF less.prems(1) out, of "span + int ?k"] by auto
    let ?r = "r1\<lparr>rs_flip := rs_flip r1 XOR 0xFF000000\<rparr>"
    have len: "int (length l) - int ?k = int (length (b # ys))"
      using run(1) by simp
    have step: "last_changes x (int (length l)) span r = last_changes (push_bit ?k x) (int (length (b # ys))) 0 ?r"
      by (subst last_changes.simps) (simp only: Let_def frag r1(1) bind.simps len nat_int, simp)
    have "2 * length (b # ys) + (if hd (b # ys) = b then 0 else 1) < 2 * length l + (if hd l = c then 0 else 1)"
      using run by (cases xs) auto
    moreover have "scanned ?r (out @ [p + int ?k]) (p + int ?k - 0) cap"
      using r1(2) by simp
    moreover have "pixel_word (push_bit ?k x) ((b # ys) @ pad)"
      using pixel_word_push [of x xs "(b # ys) @ pad"] less.prems(2) run(1) by simp
    moreover have "flip_word 8 b (rs_flip ?r)"
      using flip_word_full [OF less.prems(3) full_words(2)] r1(3) run(3) by simp
    moreover have "length (b # ys) \<le> 8" "length (out @ [p + int ?k]) + length (colour_changes b (p + int ?k) (b # ys)) < cap"
      using less.prems(5,6) run(1) cc by simp_all
    ultimately obtain r' where "last_changes (push_bit ?k x) (int (length (b # ys))) 0 ?r = Some r'"
      "scanned r' ((out @ [p + int ?k]) @ colour_changes b (p + int ?k) (b # ys) @ [p + int ?k + int (length (b # ys))])
        (p + int ?k + int (length (b # ys))) cap"
      using less.hyps [of "b # ys" b ?r "out @ [p + int ?k]" "p + int ?k" 0 "push_bit ?k x"] by auto
    then show ?thesis
      unfolding step using cc len by (auto simp: algebra_simps)
  qed
qed

text \<open>The changes of a row of pixels, with the width of the row at the end.\<close>

definition row_pixels :: "octets \<Rightarrow> nat \<Rightarrow> bits" where
  "row_pixels row width = take width (stream_msb row)"

definition row_changes :: "octets \<Rightarrow> nat \<Rightarrow> int list" where
  "row_changes row width = colour_changes False 0 (row_pixels row width) @ [int width]"

lemma row_pixels_whole:
  assumes "width div 8 \<le> length row"
  shows "row_pixels row (8 * (width div 8)) = stream_msb (take (width div 8) row)"
proof -
  have "stream_msb row = stream_msb (take (width div 8) row) @ stream_msb (drop (width div 8) row)"
    by (metis append_take_drop_id stream_msb_append)
  then show ?thesis
    using assms by (simp add: row_pixels_def)
qed

lemma row_pixels_rest:
  assumes "width div 8 < length row"
  shows "row_pixels row width = stream_msb (take (width div 8) row) @ take (width mod 8) (bits_msb (row ! (width div 8)))"
proof -
  let ?i = "width div 8"
  have "row = take ?i row @ row ! ?i # drop (Suc ?i) row"
    using assms by (simp add: id_take_nth_drop)
  then have "stream_msb row = stream_msb (take ?i row) @ bits_msb (row ! ?i) @ stream_msb (drop (Suc ?i) row)"
    by (metis stream_msb_append stream_msb_Cons)
  moreover have "length (stream_msb (take ?i row)) = 8 * ?i"
    using assms by simp
  moreover have "width - 8 * ?i = width mod 8" "8 * ?i \<le> width" "width mod 8 < 8"
    by (simp_all add: minus_mult_div_eq_mod)
  ultimately show ?thesis
    unfolding row_pixels_def by simp
qed

lemma colour_changes_bounds: "x \<in> set (colour_changes c p l) \<Longrightarrow> p \<le> x \<and> x < p + int (length l)"
  by (induction l arbitrary: c p) (fastforce split: if_splits)+

lemma row_to_run_lengths_spec:
  assumes width: "0 < width" and row: "width \<le> 8 * length row" and cap: "width < length list"
  shows "\<exists>list'. row_to_run_lengths list row (int width) = Some (int (length (row_changes row width)), list') \<and>
    length list' = length list \<and> take (length (row_changes row width)) list' = map word_of_int (row_changes row width)"
proof -
  let ?n = "width div 8" and ?cap = "length list"
  let ?r = "\<lparr>rs_list = list, rs_entry = 0, rs_flip = 0, rs_span = 0, rs_pos = 0\<rparr>"
  have n: "?n \<le> length row" "8 * ?n \<le> width" "4 * (?n div 4) \<le> ?n"
    using row by auto
  have "flip_word 32 False 0"
    by code_simp
  then have "searched 32 row ?cap (4 * 0) ?r"
    by (simp add: searched_def scanned_def)
  from long_words_spec [OF this, of "?n div 4"] obtain r1 where
    r1: "long_words row (int (4 * (?n div 4))) 0 ?r = Some (int (4 * (?n div 4)), r1)" "searched 32 row ?cap (4 * (?n div 4)) r1"
    using n cap by auto
  let ?r1 = "r1\<lparr>rs_flip := rs_flip r1 AND 0xFF000000\<rparr>"
  have "searched 8 row ?cap (4 * (?n div 4)) ?r1"
    using r1(2) flip_word_narrow by (simp add: searched_def)
  from octet_words_spec [OF this, of "?n - 4 * (?n div 4)"] obtain r2 where
    r2: "octet_words row (int ?n) (int (4 * (?n div 4))) ?r1 = Some (int ?n, r2)" "searched 8 row ?cap ?n r2"
    using n cap by auto
  let ?c = "last_colour False (stream_msb (take ?n row))" and ?out = "colour_changes False 0 (stream_msb (take ?n row))"
  have sc: "scanned r2 ?out (rs_span r2) ?cap" "flip_word 8 ?c (rs_flip r2)"
    using r2(2) by (simp_all add: searched_def)
  have out: "length (row_changes row width) \<le> width + 1"
    using length_colour_changes [of False 0 "row_pixels row width"] by (simp add: row_changes_def row_pixels_def)
  have last: "\<exists>r'. (if int width mod 8 \<noteq> 0
      then do { b \<leftarrow> arr_get row (int ?n); last_changes (push_bit 24 (ucast b)) (int width mod 8) (int ?n * 8 - rs_span r2) r2 }
      else if int ?n * 8 - rs_span r2 \<noteq> 0 then put_change r2 (int ?n * 8 - rs_span r2) else Some r2) = Some r' \<and>
    scanned r' (row_changes row width) (int width) ?cap"
  proof (cases "width mod 8 = 0")
    case True
    then have w: "8 * ?n = width"
      by auto
    have "int (width mod 8) = int width mod 8"
      by (simp add: zmod_int)
    then have w': "int ?n * 8 = int width" "int width mod 8 = 0"
      using True w by linarith+
    have ch: "row_changes row width = ?out @ [int width]"
      using row_pixels_whole [OF n(1)] w by (simp add: row_changes_def)
    have "rs_span r2 < int width"
      using sc(1) width w n(1) last_in_set [of ?out] colour_changes_bounds [of "last ?out" False 0 "stream_msb (take ?n row)"]
      by (auto simp: scanned_def split: if_splits)
    moreover have "length ?out < ?cap"
      using out ch cap by simp
    ultimately show ?thesis
      using put_change_spec [OF sc(1), of "int ?n * 8 - rs_span r2"] w' ch by fastforce
  next
    case False
    have "8 * ?n + width mod 8 = width"
      by simp
    then have "int ?n * 8 + int (width mod 8) = int width"
      by linarith
    moreover have "int width mod 8 = int (width mod 8)"
      by (simp add: zmod_int)
    ultimately have m: "int width mod 8 = int (width mod 8)" "width mod 8 \<noteq> 0" "int ?n * 8 + int (width mod 8) = int width"
      using False by simp_all
    have i: "?n < length row"
      using row False by presburger
    let ?l = "take (width mod 8) (bits_msb (row ! ?n))" and ?x = "push_bit 24 (ucast (row ! ?n)) :: u32"
    have len: "length ?l = width mod 8"
      by simp
    have ch: "row_changes row width = ?out @ colour_changes ?c (int ?n * 8) ?l @ [int ?n * 8 + int (length ?l)]"
      using row_pixels_rest [OF i] i m(3) by (simp add: row_changes_def colour_changes_append mult.commute)
    have "bits32 ?x = (?l @ drop (width mod 8) (bits_msb (row ! ?n))) @ replicate 24 False"
      unfolding bits32_octet by simp
    then have px: "pixel_word ?x (?l @ drop (width mod 8) (bits_msb (row ! ?n)))"
      unfolding pixel_word_def by blast
    have ne: "?l \<noteq> []"
      using len m(2) by (metis list.size(3))
    then have "scanned r2 ?out (int ?n * 8 - (int ?n * 8 - rs_span r2)) ?cap" "?l \<noteq> []" "length ?l \<le> 8"
      "length ?out + length (colour_changes ?c (int ?n * 8) ?l) < ?cap"
      using sc(1) m(2) out ch cap by auto
    from last_changes_spec [OF this(1) px sc(2) this(2-4)] show ?thesis
      using m i unfolding ch len by (simp add: arr_get_def)
  qed
  then obtain r' where r': "(if int width mod 8 \<noteq> 0
      then do { b \<leftarrow> arr_get row (int ?n); last_changes (push_bit 24 (ucast b)) (int width mod 8) (int ?n * 8 - rs_span r2) r2 }
      else if int ?n * 8 - rs_span r2 \<noteq> 0 then put_change r2 (int ?n * 8 - rs_span r2) else Some r2) = Some r'"
    "scanned r' (row_changes row width) (int width) ?cap"
    by blast
  have div: "int width div 8 = int ?n" "int ?n div 4 * 4 = int (4 * (?n div 4))"
    by (simp_all add: zdiv_int)
  have "row_to_run_lengths list row (int width) = Some (rs_entry r', rs_list r')"
    unfolding row_to_run_lengths_def Let_def div r1(1) bind.simps prod.case r2(1) r'(1) by simp
  then show ?thesis
    using r'(2) by (simp add: scanned_def)
qed

end
