(* ===== verification/T4_Line.thy ===== *)
theory T4_Line
  imports T4_Runs
begin

text \<open>
  The one-dimensional rows and the EOLs of T.4 as a specification, and the encoder of \<^verbatim>\<open>t4_tx.c\<close> against it: bits
  are in the order of the line, least significant bit of an octet first.
\<close>

section \<open>Code words as bits\<close>

definition code_bits :: "t4_run_table_entry \<Rightarrow> bits" where
  "code_bits e = map (bit (fst (snd e))) [0..<fst e]"

definition t4_run_codes :: "bool \<Rightarrow> t4_run_table_entry list" where
  "t4_run_codes black = (if black then t4_black_codes else t4_white_codes)"

text \<open>The codes of a run: make-up codes and a terminating code.\<close>

function span_words :: "bool \<Rightarrow> nat \<Rightarrow> t4_run_table_entry list" where
  "span_words black n =
     (if n \<ge> 2624 then t4_run_codes black ! 103 # span_words black (n - 2560)
      else (if n \<ge> 64 then [t4_run_codes black ! (63 + n div 64)] else []) @ [t4_run_codes black ! (n mod 64)])"
  by pat_completeness auto
termination
  by (relation "measure snd") auto

declare span_words.simps [simp del]

definition words_bits :: "t4_run_table_entry list \<Rightarrow> bits" where
  "words_bits ws = concat (map code_bits ws)"

text \<open>The runs of a row, of alternating colour.\<close>

fun runs_words :: "bool \<Rightarrow> nat list \<Rightarrow> t4_run_table_entry list" where
  "runs_words black [] = []"
| "runs_words black (n # ns) = span_words black n @ runs_words (\<not> black) ns"

fun run_lengths :: "int \<Rightarrow> int list \<Rightarrow> nat list" where
  "run_lengths q [] = []"
| "run_lengths q (p # ps) = nat (p - q) # run_lengths p ps"

definition row_runs :: "octets \<Rightarrow> nat \<Rightarrow> nat list" where
  "row_runs row width = run_lengths 0 (row_changes row width)"

definition eol_bits :: bits where
  "eol_bits = replicate 11 False @ [True]"

lemma words_bits_simps [simp]:
  "words_bits [] = []" "words_bits (w # ws) = code_bits w @ words_bits ws" "words_bits (ws @ vs) = words_bits ws @ words_bits vs"
  by (simp_all add: words_bits_def)

text \<open>Facts of the tables of the encoder.\<close>

definition run_entry_ok :: "nat \<Rightarrow> t4_run_table_entry \<Rightarrow> bool" where
  "run_entry_ok i e \<longleftrightarrow> 2 \<le> fst e \<and> fst e \<le> 13 \<and> fst (snd e) = take_bit (fst e) (fst (snd e)) \<and>
     snd (snd e) = (if i < 64 then int i else 64 * (int i - 63))"

lemma run_tables:
  "length t4_white_codes = 104" "length t4_black_codes = 104"
  "list_all2 run_entry_ok [0..<104] t4_white_codes" "list_all2 run_entry_ok [0..<104] t4_black_codes"
  by code_simp+

lemma run_codes_nth:
  assumes "i < 104"
  shows "length (t4_run_codes black) = 104" "run_entry_ok i (t4_run_codes black ! i)"
  using assms list_all2_nthD [OF run_tables(3), of i] list_all2_nthD [OF run_tables(4), of i] run_tables(1,2)
  by (simp_all add: t4_run_codes_def)

section \<open>Encoded bits\<close>

definition pending_bits :: "t4_tx_state \<Rightarrow> bits" where
  "pending_bits s = map (bit (tt_tx_bitstream s)) [0..<tt_tx_bits s]"

definition tt_line :: "t4_tx_state \<Rightarrow> bits" where
  "tt_line s = stream_lsb (tt_image s) @ pending_bits s"

definition tt_ok :: "t4_tx_state \<Rightarrow> bool" where
  "tt_ok s \<longleftrightarrow> tt_tx_bits s < 8 \<and> int (length (tt_image s)) \<le> tt_image_buffer_size s \<and> 1 \<le> tt_bytes_per_row s \<and>
     (\<forall>j \<ge> tt_tx_bits s. \<not> bit (tt_tx_bitstream s) j)"

definition tt_same :: "t4_tx_state \<Rightarrow> t4_tx_state \<Rightarrow> bool" where
  "tt_same s s' \<longleftrightarrow> tt_line_encoding s' = tt_line_encoding s \<and> tt_bytes_per_row s' = tt_bytes_per_row s \<and>
     tt_image_width s' = tt_image_width s \<and> tt_row_is_2d s' = tt_row_is_2d s \<and> tt_cur_runs s' = tt_cur_runs s \<and>
     tt_ref_runs s' = tt_ref_runs s \<and> tt_ref_steps s' = tt_ref_steps s \<and> tt_row_buf s' = tt_row_buf s \<and>
     tt_min_bits_per_row s' = tt_min_bits_per_row s"

lemma tt_same_refl [simp]: "tt_same s s"
  by (simp add: tt_same_def)

lemma tt_same_trans: "tt_same s s' \<Longrightarrow> tt_same s' s'' \<Longrightarrow> tt_same s s''"
  by (simp add: tt_same_def)

lemma bits_lsb_low: "bits_lsb (ucast (w AND 0xFF)) = map (bit w) [0..<8]" for w :: u32
proof -
  have mask: "(0xFF :: u32) = mask 8"
    by (simp add: mask_eq_exp_minus_1)
  have "bit (0xFF :: u32) i" if "i < 8" for i
    using that unfolding mask bit_mask_iff by simp
  then show ?thesis
    unfolding bits_lsb_def by (intro map_cong refl) (simp add: bit_ucast_iff bit_and_iff)
qed

lemma write_octets_line:
  assumes "int (length (tt_image s)) + int (tt_tx_bits s) div 8 \<le> tt_image_buffer_size s"
  shows "\<exists>i w n. write_octets s = Some (s\<lparr>tt_image := i, tt_tx_bitstream := w, tt_tx_bits := n\<rparr>) \<and> n = tt_tx_bits s mod 8 \<and>
    length i = length (tt_image s) + tt_tx_bits s div 8 \<and>
    stream_lsb i @ map (bit w) [0..<n] = tt_line s \<and> (\<forall>j. bit w j = bit (tt_tx_bitstream s) (8 * (tt_tx_bits s div 8) + j))"
  using assms
proof (induction s rule: write_octets.induct)
  case (1 s)
  show ?case
  proof (cases "8 \<le> tt_tx_bits s")
    case True
    let ?s = "s\<lparr>tt_image := tt_image s @ [ucast (tt_tx_bitstream s AND 0xFF)], tt_tx_bitstream := drop_bit 8 (tt_tx_bitstream s),
      tt_tx_bits := tt_tx_bits s - 8\<rparr>"
    have d: "tt_tx_bits s div 8 = Suc ((tt_tx_bits s - 8) div 8)" "(tt_tx_bits s - 8) mod 8 = tt_tx_bits s mod 8"
      using True by (simp_all add: le_div_geq le_mod_geq)
    have room: "int (length (tt_image s)) < tt_image_buffer_size s" "int (length (tt_image ?s)) + int (tt_tx_bits ?s) div 8 \<le> tt_image_buffer_size ?s"
      using "1.prems" True d(1) by (simp_all add: zdiv_int [symmetric])
    obtain i w n where ih: "write_octets ?s = Some (?s\<lparr>tt_image := i, tt_tx_bitstream := w, tt_tx_bits := n\<rparr>)" "n = tt_tx_bits ?s mod 8"
      "length i = length (tt_image ?s) + tt_tx_bits ?s div 8" "stream_lsb i @ map (bit w) [0..<n] = tt_line ?s"
      "\<forall>j. bit w j = bit (tt_tx_bitstream ?s) (8 * (tt_tx_bits ?s div 8) + j)"
      using "1.IH" [OF True room] by blast
    have "map (bit (tt_tx_bitstream s)) [0..<tt_tx_bits s] = map (bit (tt_tx_bitstream s)) [0..<8] @ map (bit (drop_bit 8 (tt_tx_bitstream s))) [0..<tt_tx_bits s - 8]"
      by (rule nth_equalityI) (use True in \<open>auto simp: nth_append bit_simps\<close>)
    then have "tt_line ?s = tt_line s"
      by (simp add: tt_line_def pending_bits_def bits_lsb_low)
    moreover have "write_octets s = write_octets ?s"
      using True room(1) by (subst write_octets.simps) simp
    ultimately show ?thesis
      using ih d by (auto simp: bit_simps add.assoc)
  next
    case False
    then have "write_octets s = Some s"
      by (subst write_octets.simps) simp
    then show ?thesis
      using False by (intro exI [of _ "tt_image s"] exI [of _ "tt_tx_bitstream s"] exI [of _ "tt_tx_bits s"]) (simp add: tt_line_def pending_bits_def)
  qed
qed

lemma put_encoded_bits_line:
  assumes ok: "tt_ok s" and len: "int len + 7 \<le> 800 * tt_bytes_per_row s" and hi: "\<forall>j \<ge> 25. \<not> bit bits j"
  obtains s' where "put_encoded_bits s bits (int len) = Some s'" "tt_same s s'" "tt_line s' = tt_line s @ map (bit bits) [0..<len]"
    "tt_row_bits s' = tt_row_bits s + int len"
    "(\<forall>j \<ge> len. \<not> bit bits j) \<longrightarrow> tt_ok s'" "length (tt_line s') = 8 * length (tt_image s') + tt_tx_bits s'" "tt_tx_bits s' < 8"
proof -
  let ?n = "tt_tx_bits s + len" and ?w = "tt_tx_bitstream s OR push_bit (tt_tx_bits s) bits"
  let ?grow = "int (length (tt_image s)) + (int ?n + 7) div 8 \<ge> tt_image_buffer_size s"
  let ?z = "if ?grow then tt_image_buffer_size s + 100 * tt_bytes_per_row s else tt_image_buffer_size s"
  let ?s = "s\<lparr>tt_tx_bitstream := ?w, tt_tx_bits := ?n, tt_row_bits := tt_row_bits s + int len, tt_image_buffer_size := ?z\<rparr>"
  have s: "tt_tx_bits s < 8" "int (length (tt_image s)) \<le> tt_image_buffer_size s" "1 \<le> tt_bytes_per_row s"
    "\<And>j. tt_tx_bits s \<le> j \<Longrightarrow> \<not> bit (tt_tx_bitstream s) j"
    using ok by (simp_all add: tt_ok_def)
  have "put_encoded_bits s bits (int len) = write_octets ?s"
    by (simp add: put_encoded_bits_def Let_def)
  moreover have room: "int (length (tt_image ?s)) + int (tt_tx_bits ?s) div 8 \<le> tt_image_buffer_size ?s"
  proof (cases ?grow)
    case True
    have "int ?n div 8 \<le> 100 * tt_bytes_per_row s"
      using len s(1) by linarith
    then show ?thesis
      using True s(2) by simp
  next
    case False
    then have "int (length (tt_image s)) + (int ?n + 7) div 8 < tt_image_buffer_size s" "int ?n div 8 \<le> (int ?n + 7) div 8"
      by (simp_all add: zdiv_mono1)
    then show ?thesis
      using False by simp
  qed
  ultimately obtain i w n where r: "put_encoded_bits s bits (int len) = Some (?s\<lparr>tt_image := i, tt_tx_bitstream := w, tt_tx_bits := n\<rparr>)" "n = ?n mod 8"
    "length i = length (tt_image s) + ?n div 8" "stream_lsb i @ map (bit w) [0..<n] = tt_line ?s" "\<And>j. bit w j = bit ?w (8 * (?n div 8) + j)"
    using write_octets_line [of ?s] by auto
  let ?s' = "?s\<lparr>tt_image := i, tt_tx_bitstream := w, tt_tx_bits := n\<rparr>"
  have bits: "bit ?w j = (if j < tt_tx_bits s then bit (tt_tx_bitstream s) j else bit bits (j - tt_tx_bits s))" for j
  proof (cases "j < tt_tx_bits s")
    case False
    have "j < 32" if "bit bits (j - tt_tx_bits s)"
      using hi that s(1) by (cases "25 \<le> j - tt_tx_bits s") auto
    then show ?thesis
      using s(4) [of j] False by (auto simp: bit_or_iff bit_push_bit_iff)
  qed (auto simp: bit_or_iff bit_push_bit_iff)
  have "pending_bits ?s = pending_bits s @ map (bit bits) [0..<len]"
    by (rule nth_equalityI) (auto simp: pending_bits_def bits nth_append)
  then have line: "tt_line ?s' = tt_line s @ map (bit bits) [0..<len]"
    using r(4) by (simp add: tt_line_def pending_bits_def)
  have "n < 8" "?n = 8 * (?n div 8) + n"
    using r(2) by simp_all
  moreover have "tt_ok ?s'" if "\<forall>j \<ge> len. \<not> bit bits j"
  proof -
    have "\<not> bit w j" if "n \<le> j" for j
      using that \<open>?n = 8 * (?n div 8) + n\<close> \<open>\<forall>j \<ge> len. \<not> bit bits j\<close> s(1) unfolding r(5) bits by auto
    moreover have "int (length i) \<le> ?z"
      using r(3) room by (simp add: zdiv_int)
    ultimately show ?thesis
      using s(3) \<open>n < 8\<close> by (simp add: tt_ok_def)
  qed
  moreover have "length (tt_line ?s') = 8 * length i + n"
    by (simp add: tt_line_def pending_bits_def)
  ultimately show ?thesis
    using that [OF r(1)] line by (simp add: tt_same_def)
qed

section \<open>Runs\<close>

text \<open>The bits \<open>bs\<close> have been sent.\<close>

definition tt_sent :: "t4_tx_state \<Rightarrow> bits \<Rightarrow> t4_tx_state \<Rightarrow> bool" where
  "tt_sent s bs s' \<longleftrightarrow> tt_ok s' \<and> tt_same s s' \<and> tt_line s' = tt_line s @ bs \<and> tt_row_bits s' = tt_row_bits s + int (length bs)"

lemma tt_sent_refl: "tt_ok s \<Longrightarrow> tt_sent s [] s"
  by (simp add: tt_sent_def)

lemma tt_sent_trans: "tt_sent s bs s' \<Longrightarrow> tt_sent s' cs s'' \<Longrightarrow> tt_sent s (bs @ cs) s''"
  unfolding tt_sent_def using tt_same_trans [of s s' s''] by simp

lemma put_encoded_bits_sent:
  assumes "tt_ok s" "int len + 7 \<le> 800 * tt_bytes_per_row s" "\<forall>j \<ge> 25. \<not> bit bits j" "\<forall>j \<ge> len. \<not> bit bits j"
  obtains s' where "put_encoded_bits s bits (int len) = Some s'" "tt_sent s (map (bit bits) [0..<len]) s'"
proof -
  obtain s' where "put_encoded_bits s bits (int len) = Some s'" "tt_same s s'" "tt_line s' = tt_line s @ map (bit bits) [0..<len]"
    "tt_row_bits s' = tt_row_bits s + int len" "tt_ok s'"
    using put_encoded_bits_line [OF assms(1-3)] assms(4) by metis
  then show ?thesis
    using that by (simp add: tt_sent_def)
qed

lemma put_code_sent:
  assumes ok: "tt_ok s" and i: "i < 104"
  obtains s' where "put_code s (t4_run_codes black) (int i) = Some s'" "tt_sent s (code_bits (t4_run_codes black ! i)) s'"
proof -
  obtain len code run where e: "t4_run_codes black ! i = (len, code, run)"
    by (cases "t4_run_codes black ! i")
  then have en: "len \<le> 13" "code = take_bit len code"
    using run_codes_nth(2) [OF i, of black] by (simp_all add: run_entry_ok_def)
  have zero: "\<not> bit code j" if "len \<le> j" for j
    using that en(2) bit_take_bit_iff [of len code j] by simp
  have "1 \<le> tt_bytes_per_row s"
    using ok by (simp add: tt_ok_def)
  then have "int len + 7 \<le> 800 * tt_bytes_per_row s" "\<forall>j \<ge> 25. \<not> bit code j" "\<forall>j \<ge> len. \<not> bit code j"
    using en(1) zero by auto
  from put_encoded_bits_sent [OF ok this] obtain s' where "put_encoded_bits s code (int len) = Some s'" "tt_sent s (map (bit code) [0..<len]) s'" .
  then show ?thesis
    using that i run_codes_nth(1) [OF i, of black] by (simp add: put_code_def arr_get_def e code_bits_def)
qed

lemma put_1d_span_sent:
  assumes "tt_ok s"
  shows "\<exists>s'. put_1d_span s (int n) (t4_run_codes black) = Some s' \<and> tt_sent s (words_bits (span_words black n)) s'"
  using assms
proof (induction n arbitrary: s rule: less_induct)
  case (less n)
  let ?tab = "t4_run_codes black"
  have get: "arr_get ?tab (int i) = Some (?tab ! i)" if "i < 104" for i
    using that run_codes_nth(1) [OF that, of black] by (simp add: arr_get_def)
  show ?case
  proof (cases "2624 \<le> n")
    case True
    obtain s1 where s1: "put_code s ?tab (int 103) = Some s1" "tt_sent s (code_bits (?tab ! 103)) s1"
      using put_code_sent [OF less.prems, of 103 black] by auto
    have "snd (snd (?tab ! 103)) = 2560"
      using run_codes_nth(2) [of 103 black] by (simp add: run_entry_ok_def)
    then have "long_spans s (int n) ?tab = long_spans s1 (int (n - 2560)) ?tab"
      using True s1(1) get [of 103] by (subst long_spans.simps) simp
    then have "put_1d_span s (int n) ?tab = put_1d_span s1 (int (n - 2560)) ?tab"
      by (simp add: put_1d_span_def)
    moreover obtain s' where "put_1d_span s1 (int (n - 2560)) ?tab = Some s'" "tt_sent s1 (words_bits (span_words black (n - 2560))) s'"
      using less.IH [of "n - 2560" s1] s1(2) True by (auto simp: tt_sent_def)
    ultimately show ?thesis
      using True tt_sent_trans [OF s1(2)] span_words.simps [of black n] by simp
  next
    case False
    then have long: "long_spans s (int n) ?tab = Some (int n, s)"
      by (subst long_spans.simps) simp
    have m: "n mod 64 < 104"
      by (rule less_trans [of _ 64]) simp_all
    show ?thesis
    proof (cases "64 \<le> n")
      case True
      let ?i = "63 + n div 64"
      have i: "?i < 104"
        using False by simp
      obtain s1 where s1: "put_code s ?tab (int ?i) = Some s1" "tt_sent s (code_bits (?tab ! ?i)) s1"
        using put_code_sent [OF less.prems i] .
      then have "tt_ok s1"
        by (simp add: tt_sent_def)
      obtain s' where s': "put_code s1 ?tab (int (n mod 64)) = Some s'" "tt_sent s1 (code_bits (?tab ! (n mod 64))) s'"
        using put_code_sent [OF \<open>tt_ok s1\<close> m] .
      have "\<not> ?i < 64"
        using True by simp
      then have "snd (snd (?tab ! ?i)) = 64 * int (n div 64)"
        using run_codes_nth(2) [OF i, of black] by (simp add: run_entry_ok_def)
      then have "int n - snd (snd (?tab ! ?i)) = int (n mod 64)" "63 + int n div 64 = int ?i"
        by (simp_all add: minus_mult_div_eq_mod zmod_int zdiv_int)
      then have "put_1d_span s (int n) ?tab = Some s'"
        using True long s1(1) s'(1) get [OF i] by (simp add: put_1d_span_def)
      then show ?thesis
        using False True tt_sent_trans [OF s1(2) s'(2)] span_words.simps [of black n] by simp
    next
      case small: False
      obtain s' where "put_code s ?tab (int n) = Some s'" "tt_sent s (code_bits (?tab ! n)) s'"
        using put_code_sent [OF less.prems, of n black] small by auto
      then show ?thesis
        using small long span_words.simps [of black n] by (simp add: put_1d_span_def)
    qed
  qed
qed

section \<open>Rows\<close>

lemma sorted_colour_changes: "sorted_wrt (<) (colour_changes c p l)"
proof (induction l arbitrary: c p)
  case (Cons b l)
  then show ?case
    using colour_changes_bounds [of _ b "p + 1" l] by fastforce
qed simp

lemma sorted_row_changes: "sorted_wrt (<) (row_changes row width)"
  using sorted_colour_changes [of False 0 "row_pixels row width"] colour_changes_bounds [of _ False 0 "row_pixels row width"]
  by (fastforce simp: row_changes_def row_pixels_def sorted_wrt_append)

lemma row_changes_bounds: "x \<in> set (row_changes row width) \<Longrightarrow> 0 \<le> x \<and> x \<le> int width"
  using colour_changes_bounds [of x False 0 "row_pixels row width"] by (auto simp: row_changes_def row_pixels_def)

lemma sint_difference:
  assumes "0 \<le> p - q" "p - q < 2 ^ 31"
  shows "sint (word_of_int p - word_of_int q :: u32) = p - q"
proof -
  have "word_of_int p - word_of_int q = (word_of_int (p - q) :: u32)"
    by simp
  then show ?thesis
    using assms by (simp add: sint_sbintrunc' signed_take_bit_int_eq_self del: of_int_diff)
qed

text \<open>The positions \<open>ch\<close> are in the run length buffer.\<close>

definition holds_changes :: "int list \<Rightarrow> u32 list \<Rightarrow> bool" where
  "holds_changes ch runs \<longleftrightarrow> length ch \<le> length runs \<and> take (length ch) runs = map word_of_int ch \<and> sorted_wrt (<) ch \<and>
     (\<forall>x\<in>set ch. 0 \<le> x \<and> x < 2 ^ 31)"

lemma holds_nth:
  assumes "holds_changes ch runs" "i < length ch"
  shows "arr_get runs (int i) = Some (word_of_int (ch ! i))"
proof -
  have "runs ! i = take (length ch) runs ! i"
    using assms(2) by simp
  also have "\<dots> = word_of_int (ch ! i)"
    using assms by (simp only: holds_changes_def nth_map)
  finally show ?thesis
    using assms by (simp add: holds_changes_def arr_get_def)
qed

lemma spans_1d_sent:
  assumes "tt_ok s" "holds_changes ch (tt_ref_runs s)" "1 \<le> i" "i \<le> length ch"
  shows "\<exists>s'. spans_1d (int (length ch)) s (int i) = Some s' \<and>
    tt_sent s (words_bits (runs_words (odd i) (run_lengths (ch ! (i - 1)) (drop i ch)))) s'"
  using assms
proof (induction "length ch - i" arbitrary: s i)
  case 0
  then have "spans_1d (int (length ch)) s (int i) = Some s"
    by (subst spans_1d.simps) simp
  then show ?case
    using 0 by (simp add: tt_sent_def)
next
  case (Suc m)
  then have i: "i < length ch"
    by simp
  define d where "d = nat (ch ! i - ch ! (i - 1))"
  have lt: "ch ! (i - 1) < ch ! i" "0 \<le> ch ! (i - 1)" "ch ! i < 2 ^ 31"
    using Suc.prems(2,3) i sorted_wrt_nth_less [of "(<)" ch "i - 1" i] nth_mem [of i ch] nth_mem [of "i - 1" ch]
    by (auto simp: holds_changes_def)
  then have d_eq: "sint (word_of_int (ch ! i) - word_of_int (ch ! (i - 1)) :: u32) = int d"
    using sint_difference [of "ch ! i" "ch ! (i - 1)"] by (simp add: d_def)
  have get: "arr_get (tt_ref_runs s) (int i) = Some (word_of_int (ch ! i))" "arr_get (tt_ref_runs s) (int i - 1) = Some (word_of_int (ch ! (i - 1)))"
    using holds_nth [OF Suc.prems(2), of i] holds_nth [OF Suc.prems(2), of "i - 1"] i Suc.prems(3) by (simp_all add: of_nat_diff)
  have tab: "(if int i mod 2 = 1 then t4_black_codes else t4_white_codes) = t4_run_codes (odd i)"
    by (simp add: t4_run_codes_def odd_iff_mod_2_eq_one) presburger
  obtain s1 where s1: "put_1d_span s (int d) (t4_run_codes (odd i)) = Some s1" "tt_sent s (words_bits (span_words (odd i) d)) s1"
    using put_1d_span_sent [OF Suc.prems(1)] by blast
  have step: "spans_1d (int (length ch)) s (int i) = spans_1d (int (length ch)) s1 (int (Suc i))"
    using i s1(1) by (subst spans_1d.simps) (simp add: get d_eq [simplified] tab add.commute)
  have "m = length ch - Suc i" "tt_ok s1" "holds_changes ch (tt_ref_runs s1)" "1 \<le> Suc i" "Suc i \<le> length ch"
    using Suc.hyps(2) Suc.prems(2) s1(2) i by (simp_all add: tt_sent_def tt_same_def)
  from Suc.hyps(1) [OF this] obtain s' where s': "spans_1d (int (length ch)) s1 (int (Suc i)) = Some s'"
    "tt_sent s1 (words_bits (runs_words (odd (Suc i)) (run_lengths (ch ! i) (drop (Suc i) ch)))) s'"
    by auto
  have "runs_words (odd i) (run_lengths (ch ! (i - 1)) (drop i ch)) =
      span_words (odd i) d @ runs_words (odd (Suc i)) (run_lengths (ch ! i) (drop (Suc i) ch))"
    using i by (simp add: Cons_nth_drop_Suc [symmetric] d_def)
  then show ?case
    using step s'(1) tt_sent_trans [OF s1(2) s'(2)] by simp
qed

text \<open>The changes of a row with the last one repeated.\<close>

definition stretched :: "int list \<Rightarrow> u32 list \<Rightarrow> bool" where
  "stretched ch runs \<longleftrightarrow> length ch + 2 < length runs \<and> (\<forall>i < length ch + 3. runs ! i = word_of_int (if i < length ch then ch ! i else last ch))"

lemma stretch_runs_spec:
  assumes "take (length ch) runs = map word_of_int ch" "ch \<noteq> []" "length ch + 2 < length runs"
  obtains runs' where "stretch_runs runs (int (length ch)) = Some runs'" "length runs' = length runs" "stretched ch runs'"
proof -
  let ?n = "length ch"
  let ?v = "runs ! (?n - 1)"
  let ?r = "runs[?n + 2 := ?v, ?n + 1 := ?v, ?n := ?v]"
  have nth: "runs ! i = word_of_int (ch ! i)" if "i < ?n" for i
    using arg_cong [OF assms(1), of "\<lambda>l. l ! i"] that by simp
  have n: "0 < ?n" "nat (int ?n - 1) = ?n - 1"
    using assms(2) by auto
  then have v: "?v = word_of_int (last ch)"
    using nth [of "?n - 1"] assms(2) by (simp add: last_conv_nth)
  have "stretch_runs runs (int ?n) = Some ?r"
    using n assms(3) by (simp add: stretch_runs_def arr_get_def arr_set_def nat_add_distrib)
  moreover have "stretched ch ?r"
    unfolding stretched_def using assms(3) nth v by (auto simp: nth_list_update less_Suc_eq numeral_eq_Suc)
  ultimately show ?thesis
    using that by simp
qed

text \<open>The changes of a row are found and stretched, whatever the list held before.\<close>

lemma row_changes_stretched:
  assumes width: "0 < width" "int width < 2 ^ 31" and row: "width \<le> 8 * length row" and list: "width + 4 \<le> length list"
  obtains l l' where "row_to_run_lengths list row (int width) = Some (int (length (row_changes row width)), l)" "length l = length list"
    "holds_changes (row_changes row width) l" "stretch_runs l (int (length (row_changes row width))) = Some l'" "length l' = length list"
    "stretched (row_changes row width) l'"
proof -
  let ?ch = "row_changes row width"
  have cap: "width < length list"
    using list by simp
  from row_to_run_lengths_spec [OF width(1) row cap]
  obtain l where l: "row_to_run_lengths list row (int width) = Some (int (length ?ch), l)" "length l = length list" "take (length ?ch) l = map word_of_int ?ch"
    by blast
  have n: "length ?ch \<le> width + 1" "?ch \<noteq> []"
    using length_colour_changes [of False 0 "row_pixels row width"] by (simp_all add: row_changes_def row_pixels_def)
  then have room: "length ?ch + 2 < length l"
    using l(2) list by simp
  have holds: "holds_changes ?ch l"
    using l(2,3) n(1) list sorted_row_changes row_changes_bounds [of _ row width] width(2) by (force simp: holds_changes_def)
  obtain l' where "stretch_runs l (int (length ?ch)) = Some l'" "length l' = length l" "stretched ?ch l'"
    using stretch_runs_spec [OF l(3) n(2) room] .
  then show ?thesis
    using that [OF l(1,2) holds] l(2) by simp
qed

text \<open>What a row leaves unchanged.\<close>

definition tt_kept :: "t4_tx_state \<Rightarrow> t4_tx_state \<Rightarrow> bool" where
  "tt_kept s s' \<longleftrightarrow> tt_line_encoding s' = tt_line_encoding s \<and> tt_bytes_per_row s' = tt_bytes_per_row s \<and>
     tt_image_width s' = tt_image_width s \<and> tt_row_is_2d s' = tt_row_is_2d s \<and>
     min (length (tt_cur_runs s')) (length (tt_ref_runs s')) = min (length (tt_cur_runs s)) (length (tt_ref_runs s)) \<and>
     tt_row_buf s' = tt_row_buf s \<and> tt_min_bits_per_row s' = tt_min_bits_per_row s"

lemma tt_same_kept: "tt_same s s' \<Longrightarrow> tt_kept s s'"
  by (simp add: tt_same_def tt_kept_def)

text \<open>A row has been sent with the bits \<open>bs\<close>, and it is the reference row for the next one.\<close>

definition row_sent :: "nat \<Rightarrow> t4_tx_state \<Rightarrow> bits \<Rightarrow> t4_tx_state \<Rightarrow> bool" where
  "row_sent width s bs s' \<longleftrightarrow> tt_ok s' \<and> tt_kept s s' \<and> tt_line s' = tt_line s @ bs \<and> tt_row_bits s' = tt_row_bits s + int (length bs) \<and>
     tt_ref_steps s' = int (length (row_changes (tt_row_buf s) width)) \<and> stretched (row_changes (tt_row_buf s) width) (tt_ref_runs s')"

lemma encode_1d_row_sent:
  assumes ok: "tt_ok s" and w: "tt_image_width s = int width" "0 < width" "int width < 2 ^ 31" and row: "width \<le> 8 * length (tt_row_buf s)"
    and runs: "width + 4 \<le> length (tt_ref_runs s)"
  obtains s' where "encode_1d_row s = Some s'" "row_sent width s (words_bits (runs_words False (row_runs (tt_row_buf s) width))) s'"
proof -
  let ?row = "tt_row_buf s"
  let ?ch = "row_changes ?row width"
  obtain l l' where l: "row_to_run_lengths (tt_ref_runs s) ?row (int width) = Some (int (length ?ch), l)" "length l = length (tt_ref_runs s)"
    "holds_changes ?ch l" "stretch_runs l (int (length ?ch)) = Some l'" "length l' = length (tt_ref_runs s)" "stretched ?ch l'"
    using row_changes_stretched [OF w(2,3) row runs] .
  have n: "1 \<le> length ?ch" "?ch \<noteq> []"
    by (simp_all add: row_changes_def)
  let ?s = "s\<lparr>tt_ref_steps := int (length ?ch), tt_ref_runs := l\<rparr>"
  have ok1: "tt_ok ?s"
    using ok by (simp add: tt_ok_def)
  have first: "arr_get l 0 = Some (word_of_int (?ch ! 0))"
    using holds_nth [OF l(3), of 0] n(1) by fastforce
  have "?ch ! 0 \<in> set ?ch"
    using n(2) by (intro nth_mem) simp
  then have b0: "0 \<le> ?ch ! 0" "?ch ! 0 < 2 ^ 31"
    using l(3) by (auto simp: holds_changes_def)
  then have s0: "sint (word_of_int (?ch ! 0) :: u32) = int (nat (?ch ! 0))"
    using sint_difference [of "?ch ! 0" 0] by simp
  obtain s1 where s1: "put_1d_span ?s (int (nat (?ch ! 0))) t4_white_codes = Some s1" "tt_sent ?s (words_bits (span_words False (nat (?ch ! 0)))) s1"
    using put_1d_span_sent [OF ok1, of "nat (?ch ! 0)" False] by (auto simp: t4_run_codes_def)
  then have "tt_ok s1" "holds_changes ?ch (tt_ref_runs s1)"
    using l(3) by (simp_all add: tt_sent_def tt_same_def)
  from spans_1d_sent [OF this, of 1] n(1) obtain s2 where s2: "spans_1d (int (length ?ch)) s1 1 = Some s2"
    "tt_sent s1 (words_bits (runs_words True (run_lengths (?ch ! 0) (drop 1 ?ch)))) s2"
    by auto
  have sent: "tt_sent ?s (words_bits (span_words False (nat (?ch ! 0))) @ words_bits (runs_words True (run_lengths (?ch ! 0) (drop 1 ?ch)))) s2"
    using tt_sent_trans [OF s1(2) s2(2)] .
  then have ref2: "tt_ref_runs s2 = l" "tt_ref_steps s2 = int (length ?ch)"
    by (simp_all add: tt_sent_def tt_same_def)
  have "encode_1d_row s = Some (s2\<lparr>tt_ref_runs := l'\<rparr>)"
    using l(1,4) first s0 s1(1) s2(1) ref2 w(1) by (simp add: encode_1d_row_def)
  moreover have "runs_words False (row_runs ?row width) = span_words False (nat (?ch ! 0)) @ runs_words True (run_lengths (?ch ! 0) (drop 1 ?ch))"
    using n(1) by (cases ?ch) (simp_all add: row_runs_def)
  ultimately show ?thesis
    using that [of "s2\<lparr>tt_ref_runs := l'\<rparr>"] l(2,5,6) ref2(2) sent
    by (simp add: row_sent_def tt_sent_def tt_ok_def tt_same_def tt_kept_def tt_line_def pending_bits_def)
qed

section \<open>EOLs\<close>

lemma bits_eol: "map (bit (0x800 :: u32)) [0..<12] = eol_bits"
  by code_simp

lemma eol_above: "12 \<le> j \<Longrightarrow> \<not> bit (0x800 :: u32) j"
proof -
  have "(0x800 :: u32) = 2 ^ 11"
    by simp
  then show "12 \<le> j \<Longrightarrow> \<not> bit (0x800 :: u32) j"
    by (simp only: bit_exp_iff) auto
qed

text \<open>An EOL, with the tag bit if the page is two-dimensional, and the coding of the row that follows.\<close>

definition eol_tag :: "int \<Rightarrow> bool \<Rightarrow> bits" where
  "eol_tag c one = eol_bits @ (if c = T4_COMPRESSION_ITU_T4_2D then [one] else [])"

definition page_coding :: "int \<Rightarrow> bool" where
  "page_coding c \<longleftrightarrow> c = T4_COMPRESSION_ITU_T4_1D \<or> c = T4_COMPRESSION_ITU_T4_2D"

lemma codings [simp]:
  "T4_COMPRESSION_ITU_T4_1D \<noteq> T4_COMPRESSION_ITU_T4_2D" "T4_COMPRESSION_ITU_T4_2D \<noteq> T4_COMPRESSION_ITU_T4_1D"
  "T4_COMPRESSION_ITU_T4_1D \<noteq> T4_COMPRESSION_ITU_T6" "T4_COMPRESSION_ITU_T6 \<noteq> T4_COMPRESSION_ITU_T4_1D"
  "T4_COMPRESSION_ITU_T4_2D \<noteq> T4_COMPRESSION_ITU_T6" "T4_COMPRESSION_ITU_T6 \<noteq> T4_COMPRESSION_ITU_T4_2D"
  by (simp_all add: T4_COMPRESSION_ITU_T4_1D_def T4_COMPRESSION_ITU_T4_2D_def T4_COMPRESSION_ITU_T6_def)

lemma page_coding_not_t6 [simp]: "page_coding c \<Longrightarrow> c \<noteq> T4_COMPRESSION_ITU_T6"
  by (auto simp: page_coding_def)

lemma bits_eol_tag: "map (bit (0x800 OR push_bit 12 (if d then 0 else 1) :: u32)) [0..<13] = eol_bits @ [\<not> d]"
  by (cases d; simp only: if_True if_False simp_thms; code_simp)

lemma eol_tag_above: "13 \<le> j \<Longrightarrow> \<not> bit (0x800 OR push_bit 12 (if d then 0 else 1) :: u32) j"
  using eol_above [of j] by (auto simp: bit_or_iff bit_push_bit_iff bit_1_iff)

text \<open>The code word of an EOL.\<close>

lemma eol_sent:
  assumes ok: "tt_ok s" and c: "page_coding c"
  obtains s' where "put_encoded_bits s (if c = T4_COMPRESSION_ITU_T4_2D then 0x0800 OR push_bit 12 (if d then 0 else 1) else 0x800)
      (if c = T4_COMPRESSION_ITU_T4_2D then 13 else 12) = Some s'" "tt_sent s (eol_tag c (\<not> d)) s'"
proof (cases "c = T4_COMPRESSION_ITU_T4_2D")
  case True
  have "int 13 + 7 \<le> 800 * tt_bytes_per_row s" "\<forall>j\<ge>25. \<not> bit (0x800 OR push_bit 12 (if d then 0 else 1) :: u32) j"
    "\<forall>j\<ge>13. \<not> bit (0x800 OR push_bit 12 (if d then 0 else 1) :: u32) j"
    using ok eol_tag_above [of _ d] by (auto simp: tt_ok_def)
  from put_encoded_bits_sent [OF ok this] obtain s' where
    "put_encoded_bits s (0x800 OR push_bit 12 (if d then 0 else 1)) (int 13) = Some s'" "tt_sent s (eol_bits @ [\<not> d]) s'"
    unfolding bits_eol_tag .
  then show ?thesis
    by (intro that [of s']) (simp_all only: True eol_tag_def of_nat_numeral simp_thms if_True)
next
  case False
  have "int 12 + 7 \<le> 800 * tt_bytes_per_row s" "\<forall>j\<ge>25. \<not> bit (0x800 :: u32) j" "\<forall>j\<ge>12. \<not> bit (0x800 :: u32) j"
    using ok eol_above by (auto simp: tt_ok_def)
  from put_encoded_bits_sent [OF ok this] obtain s' where "put_encoded_bits s 0x800 (int 12) = Some s'" "tt_sent s eol_bits s'"
    unfolding bits_eol .
  then show ?thesis
    by (intro that [of s']) (simp_all only: False if_False eol_tag_def of_nat_numeral append_Nil2)
qed

lemma encode_eol_sent:
  assumes ok: "tt_ok s" and c: "page_coding (tt_line_encoding s)" and min_bits: "tt_min_bits_per_row s + 7 \<le> 800 * tt_bytes_per_row s"
    and row_bits: "0 \<le> tt_row_bits s"
  obtains s' k where "encode_eol s = Some s'" "tt_ok s'" "tt_same s s'" "tt_line s' = tt_line s @ replicate k False @ eol_tag (tt_line_encoding s) (\<not> tt_row_is_2d s)"
    "tt_row_bits s' = 0" "tt_row_bits s = 0 \<longrightarrow> k = 0"
proof -
  let ?c = "tt_line_encoding s" and ?d = "tt_row_is_2d s"
  define w :: u32 where "w = (if ?c = T4_COMPRESSION_ITU_T4_2D then 0x0800 OR push_bit 12 (if ?d then 0 else 1) else 0x800)"
  define n :: int where "n = (if ?c = T4_COMPRESSION_ITU_T4_2D then 13 else 12)"
  have t6: "?c \<noteq> T4_COMPRESSION_ITU_T6" and n: "0 \<le> n"
    using c by (simp_all add: n_def)
  have pair: "(if ?c = T4_COMPRESSION_ITU_T4_2D then (0x0800 OR push_bit 12 (if ?d then 0 else 1), 13) else (0x800, 12)) = (w, n)"
    by (simp add: w_def n_def)
  note eol = eol_sent [OF _ c, where d = ?d, folded w_def n_def]
  show ?thesis
  proof (cases "tt_row_bits s = 0")
    case True
    obtain s1 where s1: "put_encoded_bits s w n = Some s1" "tt_sent s (eol_tag ?c (\<not> ?d)) s1"
      using eol [OF ok] .
    then have "encode_eol s = Some (s1\<lparr>tt_row_bits := 0\<rparr>)"
      using True unfolding encode_eol_def pair by simp
    then show ?thesis
      using that [of "s1\<lparr>tt_row_bits := 0\<rparr>" 0] s1(2) True
      by (simp add: tt_sent_def tt_ok_def tt_same_def tt_line_def pending_bits_def)
  next
    case False
    let ?k = "nat (tt_min_bits_per_row s - (tt_row_bits s + n))"
    have "\<exists>t. (if ?c \<noteq> T4_COMPRESSION_ITU_T6 \<and> tt_row_bits s + n < tt_min_bits_per_row s
        then put_encoded_bits s 0 (tt_min_bits_per_row s - (tt_row_bits s + n)) else Some s) = Some t \<and> tt_sent s (replicate ?k False) t"
    proof (cases "tt_row_bits s + n < tt_min_bits_per_row s")
      case True
      have "map (bit (0 :: u32)) [0..<?k] = replicate ?k False"
        by (rule nth_equalityI) simp_all
      moreover have "int ?k + 7 \<le> 800 * tt_bytes_per_row s"
        using True row_bits min_bits n by simp
      ultimately obtain t where "put_encoded_bits s 0 (int ?k) = Some t" "tt_sent s (replicate ?k False) t"
        using put_encoded_bits_sent [OF ok, of ?k 0] by auto
      then show ?thesis
        using True t6 by simp
    next
      case False
      then have "?k = 0"
        by simp
      then show ?thesis
        using False tt_sent_refl [OF ok] by simp
    qed
    then obtain t where t: "(if ?c \<noteq> T4_COMPRESSION_ITU_T6 \<and> tt_row_bits s + n < tt_min_bits_per_row s
        then put_encoded_bits s 0 (tt_min_bits_per_row s - (tt_row_bits s + n)) else Some s) = Some t" "tt_sent s (replicate ?k False) t"
      by blast
    then have "tt_ok t"
      by (simp add: tt_sent_def)
    then obtain s1 where s1: "put_encoded_bits t w n = Some s1" "tt_sent t (eol_tag ?c (\<not> ?d)) s1"
      using eol by blast
    have "encode_eol s = Some (update_row_bit_info s1)"
      using False t(1) s1(1) unfolding encode_eol_def pair by simp
    then show ?thesis
      using that [of "update_row_bit_info s1" ?k] tt_sent_trans [OF t(2) s1(2)] False
      by (simp add: tt_sent_def tt_ok_def tt_same_def tt_line_def pending_bits_def update_row_bit_info_def)
  qed
qed

end
