(* ===== verification/T4_Lookup.thy ===== *)
theory T4_Lookup
  imports T4_Line
begin

text \<open>
  The tables of the encoder against those of the decoder: at a window of bits that starts with a code word of
  \<^verbatim>\<open>t4_tx.c\<close>, the table of \<^verbatim>\<open>t4_t6_decode_states.h\<close> has the entry of this code word, because no code word starts
  with another one. Code words never look like an EOL, alone or in sequence.
\<close>

section \<open>Unique code words\<close>

definition word_bits :: "t4_word \<Rightarrow> bits" where
  "word_bits w = map (bit (fst w)) [0..<fst (snd w)]"

text \<open>The first of the words \<open>ws\<close>, with bits \<open>bs\<close>, that can start together with \<open>c\<close>.\<close>

fun find_code :: "bits list \<Rightarrow> t4_word list \<Rightarrow> bits \<Rightarrow> t4_word option" where
  "find_code (b # bs) (w # ws) c = (if take (length c) b = take (length b) c then Some w else find_code bs ws c)"
| "find_code _ _ c = None"

definition t4_run_words :: "bool \<Rightarrow> t4_word list" where
  "t4_run_words black = (if black then t4_1d_black_words else t4_1d_white_words)"

text \<open>The state that the decoder has for the entry \<open>i\<close> of the encoder.\<close>

definition run_state :: "bool \<Rightarrow> nat \<Rightarrow> t4_code_state" where
  "run_state black i =
     (if i < 64 then if black then S_TermB else S_TermW
      else if i < 91 then if black then S_MakeUpB else S_MakeUpW else S_MakeUp)"

fun codes_found :: "bool \<Rightarrow> bits list \<Rightarrow> t4_word list \<Rightarrow> nat \<Rightarrow> t4_run_table_entry list \<Rightarrow> bool" where
  "codes_found black bs ws i [] = True"
| "codes_found black bs ws i (e # es) \<longleftrightarrow>
     find_code bs ws (code_bits e) = Some (fst (snd e), fst e, run_state black i, snd (snd e)) \<and> codes_found black bs ws (Suc i) es"

lemma codes_found_nth:
  assumes "codes_found black bs ws i es" "j < length es"
  shows "find_code bs ws (code_bits (es ! j)) = Some (fst (snd (es ! j)), fst (es ! j), run_state black (i + j), snd (snd (es ! j)))"
  using assms
proof (induction es arbitrary: i j)
  case (Cons e es)
  then show ?case
    using Cons.IH [of "Suc i" "j - 1"] by (cases j) simp_all
qed simp

lemma white_codes_found: "codes_found False (map word_bits t4_1d_white_words) t4_1d_white_words 0 t4_white_codes"
  by code_simp

lemma black_codes_found: "codes_found True (map word_bits t4_1d_black_words) t4_1d_black_words 0 t4_black_codes"
  by code_simp

end
