(* ===== verification/T4_Rx.thy ===== *)
theory T4_Rx
  imports T4_Tx
begin

text \<open>
  The page decoder of \<^verbatim>\<open>t4_rx.c\<close>, with the members of \<^verbatim>\<open>t4_state_t\<close> that it uses. As in the encoder, the image
  buffer is modelled by the octets written so far, the run length buffers by lists of their allocated
  size, and an access outside of them is \<open>None\<close>. The rows are given to the row write handler; TIFF
  files are not modelled.
\<close>

section \<open>State\<close>

definition EOLS_TO_END_ANY_RX_PAGE :: int where "EOLS_TO_END_ANY_RX_PAGE = 6"
definition EOLS_TO_END_T4_RX_PAGE :: int where "EOLS_TO_END_T4_RX_PAGE = 5"
definition EOLS_TO_END_T6_RX_PAGE :: int where "EOLS_TO_END_T6_RX_PAGE = 2"

record t4_rx_state =
  tr_line_encoding :: int
  tr_line_image_size :: int
  tr_bytes_per_row :: int
  tr_image :: octets
  tr_image_buffer_size :: int
  tr_image_width :: int
  tr_image_length :: int
  tr_row_is_2d :: bool
  tr_row_len :: int
  tr_cur_runs :: "u32 list"
  tr_ref_runs :: "u32 list"
  tr_tx_bitstream :: u32
  tr_tx_bits :: nat
  tr_row_bits :: int
  tr_min_row_bits :: int
  tr_max_row_bits :: int
  tr_rx_bitstream :: u32
  tr_rx_bits :: int
  tr_rx_skip_bits :: int
  tr_consecutive_eols :: int
  tr_a0 :: int
  tr_b1 :: int
  tr_run_length :: int
  tr_black_white :: int
  tr_its_black :: bool
  tr_a_cursor :: int
  tr_b_cursor :: int
  tr_last_row_starts_at :: int
  tr_curr_bad_row_run :: int
  tr_longest_bad_row_run :: int
  tr_bad_rows :: int

definition rx_update_row_bit_info :: "t4_rx_state \<Rightarrow> t4_rx_state" where
  "rx_update_row_bit_info s =
     s\<lparr>tr_max_row_bits := max (tr_row_bits s) (tr_max_row_bits s),
       tr_min_row_bits := min (tr_row_bits s) (tr_min_row_bits s), tr_row_bits := 0\<rparr>"

section \<open>Rows\<close>

definition add_run_to_row :: "t4_rx_state \<Rightarrow> t4_rx_state option" where
  "add_run_to_row s = do {
     s \<leftarrow> (if tr_run_length s \<ge> 0
          then let s = s\<lparr>tr_row_len := tr_row_len s + tr_run_length s\<rparr>
               in if tr_row_len s \<le> tr_image_width s
                  then do {
                    runs \<leftarrow> arr_set (tr_cur_runs s) (tr_a_cursor s) (word_of_int (tr_run_length s));
                    Some (s\<lparr>tr_cur_runs := runs, tr_a_cursor := tr_a_cursor s + 1\<rparr>)
                  }
                  else Some s
          else Some s);
     Some (s\<lparr>tr_run_length := 0\<rparr>)
   }"

definition msbmask :: "nat \<Rightarrow> u32" where
  "msbmask n = [0x00, 0x01, 0x03, 0x07, 0x0F, 0x1F, 0x3F, 0x7F, 0xFF] ! n"

text \<open>The whole octets of a run: the rest of it is the result.\<close>

function run_octets :: "nat \<Rightarrow> u32 \<Rightarrow> t4_rx_state \<Rightarrow> (nat \<times> t4_rx_state) option" where
  "run_octets i fudge s =
     (if i \<ge> 8
      then if int (length (tr_image s)) < tr_image_buffer_size s
           then run_octets (i - 8) fudge (s\<lparr>tr_tx_bits := 8, tr_image := tr_image s @ [ucast (tr_tx_bitstream s)],
             tr_tx_bitstream := fudge\<rparr>)
           else None
      else Some (i, s))"
  by pat_completeness auto
termination
  by (relation "measure (\<lambda>(i, fudge, s). i)") auto

definition write_run :: "u32 \<Rightarrow> u32 \<Rightarrow> t4_rx_state \<Rightarrow> t4_rx_state option" where
  "write_run run fudge s = do {
     (i, s) \<leftarrow> (if sint run \<ge> int (tr_tx_bits s)
       then run_octets (unat run + (8 - tr_tx_bits s)) fudge
         (s\<lparr>tr_tx_bitstream := push_bit (tr_tx_bits s) (tr_tx_bitstream s) OR (msbmask (tr_tx_bits s) AND fudge)\<rparr>)
       else Some (unat run, s));
     if i \<le> 8
     then Some (s\<lparr>tr_tx_bitstream := push_bit i (tr_tx_bitstream s) OR (msbmask i AND fudge), tr_tx_bits := tr_tx_bits s - i\<rparr>)
     else None
   }"

function put_runs :: "int \<Rightarrow> int \<Rightarrow> u32 \<Rightarrow> t4_rx_state \<Rightarrow> t4_rx_state option" where
  "put_runs n x fudge s =
     (if x < n
      then do {
        run \<leftarrow> arr_get (tr_cur_runs s) x;
        s \<leftarrow> write_run run fudge s;
        put_runs n (x + 1) (fudge XOR 0xFF) s
      }
      else Some s)"
  by pat_completeness auto
termination
  by (relation "measure (\<lambda>(n, x, fudge, s). nat (n - x))") auto

definition end_bad_rows :: "t4_rx_state \<Rightarrow> t4_rx_state" where
  "end_bad_rows s =
     (if tr_curr_bad_row_run s \<noteq> 0
      then s\<lparr>tr_longest_bad_row_run := max (tr_curr_bad_row_run s) (tr_longest_bad_row_run s), tr_curr_bad_row_run := 0\<rparr>
      else s)"

definition good_row :: "t4_rx_state \<Rightarrow> t4_rx_state option" where
  "good_row s = do {
     s \<leftarrow> put_runs (tr_a_cursor s) 0 0 (end_bad_rows s);
     Some (s\<lparr>tr_image_length := tr_image_length s + 1\<rparr>)
   }"

text \<open>The pixels covered by the runs, as far as needed to fill the row.\<close>

function runs_total :: "t4_rx_state \<Rightarrow> int \<Rightarrow> int \<Rightarrow> int option" where
  "runs_total s j fudge =
     (if j < tr_a_cursor s \<and> fudge < tr_image_width s
      then do { run \<leftarrow> arr_get (tr_cur_runs s) j; runs_total s (j + 1) (fudge + uint run) }
      else Some fudge)"
  by pat_completeness auto
termination
  by (relation "measure (\<lambda>(s, j, fudge). nat (tr_a_cursor s - j))") auto

definition append_run :: "t4_rx_state \<Rightarrow> int \<Rightarrow> t4_rx_state option" where
  "append_run s run = do {
     runs \<leftarrow> arr_set (tr_cur_runs s) (tr_a_cursor s) (word_of_int run);
     Some (s\<lparr>tr_cur_runs := runs, tr_a_cursor := tr_a_cursor s + 1\<rparr>) }"

definition bad_row :: "t4_rx_state \<Rightarrow> t4_rx_state option" where
  "bad_row s = do {
     fudge \<leftarrow> runs_total s 0 0;
     s \<leftarrow> (if fudge < tr_image_width s
          then if tr_a_cursor s mod 2 = 1
               then do {
                 s \<leftarrow> append_run s 1;
                 if fudge + 1 < tr_image_width s then append_run s (tr_image_width s - (fudge + 1)) else Some s
               }
               else append_run s (tr_image_width s - fudge)
          else do {
            v \<leftarrow> arr_get (tr_cur_runs s) (tr_a_cursor s);
            runs \<leftarrow> arr_set (tr_cur_runs s) (tr_a_cursor s) (v + word_of_int (tr_image_width s - fudge));
            Some (s\<lparr>tr_cur_runs := runs\<rparr>)
          });
     s \<leftarrow> (if int (length (tr_image s)) \<noteq> tr_last_row_starts_at s
          then do {
            row \<leftarrow> mem_read (tr_image s) (tr_last_row_starts_at s) (tr_bytes_per_row s);
            if int (length (tr_image s)) + tr_bytes_per_row s \<le> tr_image_buffer_size s
            then Some (s\<lparr>tr_image := tr_image s @ row, tr_image_length := tr_image_length s + 1\<rparr>) else None
          }
          else Some s);
     Some (s\<lparr>tr_bad_rows := tr_bad_rows s + 1, tr_curr_bad_row_run := tr_curr_bad_row_run s + 1\<rparr>)
   }"

text \<open>Room for another row. A failure of \<^verbatim>\<open>realloc\<close> is left out.\<close>

definition rx_grow :: "t4_rx_state \<Rightarrow> t4_rx_state" where
  "rx_grow s =
     (if int (length (tr_image s)) + tr_bytes_per_row s \<ge> tr_image_buffer_size s
      then s\<lparr>tr_image_buffer_size := tr_image_buffer_size s + 100 * tr_bytes_per_row s\<rparr> else s)"

definition put_decoded_row :: "t4_rx_state \<Rightarrow> t4_rx_state option" where
  "put_decoded_row s = do {
     s \<leftarrow> (if tr_run_length s \<noteq> 0 then add_run_to_row s else Some s);
     let row_starts_at = int (length (tr_image s));
     let s = rx_grow s;
     s \<leftarrow> (if tr_row_len s = tr_image_width s then good_row s else bad_row s);
     runs \<leftarrow> arr_set (tr_cur_runs s) (tr_a_cursor s) 0;
     runs \<leftarrow> arr_set runs (tr_a_cursor s + 1) 0;
     b1 \<leftarrow> arr_get runs 0;
     Some (s\<lparr>tr_last_row_starts_at := row_starts_at, tr_cur_runs := tr_ref_runs s, tr_ref_runs := runs,
             tr_b_cursor := 1, tr_a_cursor := 0, tr_b1 := sint b1, tr_a0 := 0, tr_run_length := 0\<rparr>)
   }"

section \<open>Code words\<close>

definition drop_rx_bits :: "nat \<Rightarrow> t4_rx_state \<Rightarrow> t4_rx_state" where
  "drop_rx_bits n s =
     s\<lparr>tr_row_bits := tr_row_bits s + int n, tr_rx_skip_bits := tr_rx_skip_bits s + (int n - 1), tr_rx_bits := tr_rx_bits s - 1,
       tr_rx_bitstream := drop_bit 1 (tr_rx_bitstream s)\<rparr>"

definition force_drop_rx_bits :: "nat \<Rightarrow> t4_rx_state \<Rightarrow> t4_rx_state" where
  "force_drop_rx_bits n s =
     s\<lparr>tr_row_bits := tr_row_bits s + int n, tr_rx_skip_bits := 0, tr_rx_bits := tr_rx_bits s - int n,
       tr_rx_bitstream := drop_bit n (tr_rx_bitstream s)\<rparr>"

text \<open>An EOL at the start of the bits: the result is true when it ends the page.\<close>

definition rx_eol :: "t4_rx_state \<Rightarrow> (bool \<times> t4_rx_state) option" where
  "rx_eol s = do {
     (stop, s) \<leftarrow> (if tr_row_len s = 0
       then let s = s\<lparr>tr_consecutive_eols := tr_consecutive_eols s + 1\<rparr>
            in Some (if tr_consecutive_eols s \<ge> (if tr_line_encoding s = T4_COMPRESSION_ITU_T6 then EOLS_TO_END_T6_RX_PAGE
                                                 else EOLS_TO_END_T4_RX_PAGE)
                     then (True, s\<lparr>tr_consecutive_eols := EOLS_TO_END_ANY_RX_PAGE\<rparr>) else (False, s))
       else do {
         s \<leftarrow> (if tr_run_length s > 0 then add_run_to_row s else Some s);
         s \<leftarrow> put_decoded_row (s\<lparr>tr_consecutive_eols := 0\<rparr>);
         Some (False, rx_update_row_bit_info s)
       });
     Some (stop, if stop then s else
       let s = (if tr_line_encoding s = T4_COMPRESSION_ITU_T4_2D
                then force_drop_rx_bits 13 (s\<lparr>tr_row_is_2d := (tr_rx_bitstream s AND 0x1000 = 0)\<rparr>)
                else force_drop_rx_bits 12 s)
       in s\<lparr>tr_its_black := False, tr_black_white := 0, tr_run_length := 0, tr_row_len := 0\<rparr>)
   }"

text \<open>Sums of an \<^verbatim>\<open>int\<close> and a \<^verbatim>\<open>uint32_t\<close> that are stored as \<^verbatim>\<open>int\<close>.\<close>

definition int_add :: "int \<Rightarrow> u32 \<Rightarrow> int" where
  "int_add a w = sint (word_of_int a + w :: u32)"

function pass_a0 :: "t4_rx_state \<Rightarrow> t4_rx_state option" where
  "pass_a0 s =
     (if tr_b1 s \<le> tr_a0 s
      then do {
        x \<leftarrow> arr_get (tr_ref_runs s) (tr_b_cursor s);
        y \<leftarrow> arr_get (tr_ref_runs s) (tr_b_cursor s + 1);
        pass_a0 (s\<lparr>tr_b1 := int_add (tr_b1 s) (x + y), tr_b_cursor := tr_b_cursor s + 2\<rparr>)
      }
      else Some s)"
  by pat_completeness auto
termination
  by (relation "measure (\<lambda>s. nat (int (length (tr_ref_runs s)) - tr_b_cursor s))") (auto simp: arr_get_def split: if_splits)

text \<open>The step along the reference row: its run is added to \<open>b1\<close>.\<close>

definition step_b1 :: "t4_rx_state \<Rightarrow> t4_rx_state option" where
  "step_b1 s = do {
     x \<leftarrow> arr_get (tr_ref_runs s) (tr_b_cursor s);
     Some (s\<lparr>tr_b1 := int_add (tr_b1 s) x, tr_b_cursor := tr_b_cursor s + 1\<rparr>) }"

definition rx_vertical :: "int \<Rightarrow> t4_rx_state \<Rightarrow> t4_rx_state option" where
  "rx_vertical param s = do {
     s \<leftarrow> add_run_to_row (s\<lparr>tr_run_length := tr_run_length s + (tr_b1 s - tr_a0 s + param), tr_a0 := tr_b1 s + param\<rparr>);
     if param \<ge> 0 then step_b1 s
     else if tr_b_cursor s \<noteq> 0
     then do {
       x \<leftarrow> arr_get (tr_ref_runs s) (tr_b_cursor s - 1);
       Some (s\<lparr>tr_b1 := int_add (tr_b1 s) (- x), tr_b_cursor := tr_b_cursor s - 1\<rparr>)
     }
     else Some s
   }"

definition rx_pass :: "t4_rx_state \<Rightarrow> t4_rx_state option" where
  "rx_pass s = do {
     s \<leftarrow> step_b1 s;
     step_b1 (s\<lparr>tr_run_length := tr_run_length s + (tr_b1 s - tr_a0 s), tr_a0 := tr_b1 s\<rparr>) }"

text \<open>A code word of a two-dimensional row, which is not finished.\<close>

definition rx_2d_code :: "t4_rx_state \<Rightarrow> t4_rx_state option" where
  "rx_2d_code s = do {
     s \<leftarrow> (if tr_a_cursor s \<noteq> 0 then pass_a0 s else Some s);
     let (state, width, param) = t4_2d_table (tr_rx_bitstream s AND 0x7F);
     s \<leftarrow> (case state of
            S_Horiz \<Rightarrow> Some (s\<lparr>tr_its_black := (tr_a_cursor s mod 2 = 1), tr_black_white := 2\<rparr>)
          | S_Vert \<Rightarrow> rx_vertical param s
          | S_Pass \<Rightarrow> rx_pass s
          | _ \<Rightarrow> Some s);
     Some (drop_rx_bits width s)
   }"

definition rx_1d_run :: "t4_code_state \<Rightarrow> int \<Rightarrow> t4_rx_state \<Rightarrow> t4_rx_state option" where
  "rx_1d_run state param s = (
     let add = s\<lparr>tr_run_length := tr_run_length s + param, tr_a0 := tr_a0 s + param\<rparr>
     in if state = S_MakeUp \<or> state = (if tr_its_black s then S_MakeUpB else S_MakeUpW) then Some add
        else if state = (if tr_its_black s then S_TermB else S_TermW)
        then do {
          s \<leftarrow> (if tr_row_len s < tr_image_width s then add_run_to_row (add\<lparr>tr_its_black := \<not> tr_its_black s\<rparr>)
               else Some (s\<lparr>tr_its_black := \<not> tr_its_black s\<rparr>));
          Some (if tr_black_white s \<noteq> 0 then s\<lparr>tr_black_white := tr_black_white s - 1\<rparr> else s)
        }
        else Some (s\<lparr>tr_black_white := 0\<rparr>))"

definition rx_1d_code :: "t4_rx_state \<Rightarrow> t4_rx_state option" where
  "rx_1d_code s = (
     let (state, width, param) =
           (if tr_its_black s then t4_1d_black_table (tr_rx_bitstream s AND 0x1FFF)
            else t4_1d_white_table (tr_rx_bitstream s AND 0xFFF))
     in do { s \<leftarrow> rx_1d_run state param s; Some (drop_rx_bits width s) })"

text \<open>After a code word: the position is kept inside of the row, and T.6 rows end by their length.\<close>

definition rx_code_end :: "t4_rx_state \<Rightarrow> t4_rx_state option" where
  "rx_code_end s = (
     let s = (if tr_a0 s \<ge> tr_image_width s then s\<lparr>tr_a0 := tr_image_width s - 1\<rparr> else s)
     in if tr_line_encoding s = T4_COMPRESSION_ITU_T6 \<and> tr_black_white s = 0 \<and> tr_row_len s \<ge> tr_image_width s
        then do {
          s \<leftarrow> (if tr_run_length s > 0 then add_run_to_row s else Some s);
          s \<leftarrow> put_decoded_row (rx_update_row_bit_info s);
          Some (s\<lparr>tr_its_black := False, tr_black_white := 0, tr_run_length := 0, tr_row_len := 0\<rparr>)
        }
        else Some s)"

definition rx_step :: "t4_rx_state \<Rightarrow> (bool \<times> t4_rx_state) option" where
  "rx_step s =
     (if tr_rx_bitstream s AND 0xFFF = 0x800 then rx_eol s
      else if tr_rx_skip_bits s \<noteq> 0
      then Some (False, s\<lparr>tr_rx_skip_bits := tr_rx_skip_bits s - 1, tr_rx_bits := tr_rx_bits s - 1,
        tr_rx_bitstream := drop_bit 1 (tr_rx_bitstream s)\<rparr>)
      else if tr_row_is_2d s \<and> tr_black_white s = 0
      then if tr_row_len s \<ge> tr_image_width s
           then Some (False, drop_rx_bits (fst (snd (t4_2d_table (tr_rx_bitstream s AND 0x7F)))) s)
           else do { s \<leftarrow> rx_2d_code s; s \<leftarrow> rx_code_end s; Some (False, s) }
      else do { s \<leftarrow> rx_1d_code s; s \<leftarrow> rx_code_end s; Some (False, s) })"

partial_function (option) rx_loop :: "t4_rx_state \<Rightarrow> (bool \<times> t4_rx_state) option" where
  "rx_loop s =
     (if tr_rx_bits s \<ge> 13
      then do { r \<leftarrow> rx_step s; if fst r then Some (True, snd r) else rx_loop (snd r) }
      else Some (False, s))"

text \<open>The search for the first EOL: false if there are too few bits.\<close>

function rx_first_eol :: "t4_rx_state \<Rightarrow> bool \<times> t4_rx_state" where
  "rx_first_eol s =
     (if tr_rx_bitstream s AND 0xFFF \<noteq> 0x800
      then let s' = s\<lparr>tr_rx_bitstream := drop_bit 1 (tr_rx_bitstream s), tr_rx_bits := tr_rx_bits s - 1\<rparr>
           in if tr_rx_bits s' < 13 then (False, s') else rx_first_eol s'
      else (True, s))"
  by pat_completeness auto
termination
  by (relation "measure (\<lambda>s. nat (tr_rx_bits s))") (auto simp: Let_def)

text \<open>The shift of new bits is undefined unless the number of bits in the register is from 0 to 31.\<close>

definition rx_put_bits :: "t4_rx_state \<Rightarrow> u32 \<Rightarrow> nat \<Rightarrow> (bool \<times> t4_rx_state) option" where
  "rx_put_bits s bit_string quantity = (
     if tr_rx_bits s < 0 \<or> tr_rx_bits s \<ge> 32 then None
     else
     let s = s\<lparr>tr_line_image_size := tr_line_image_size s + int quantity,
               tr_rx_bitstream := tr_rx_bitstream s OR push_bit (nat (tr_rx_bits s)) bit_string, tr_rx_bits := tr_rx_bits s + int quantity\<rparr>
     in if tr_rx_bits s < 13 then Some (False, s)
        else if tr_consecutive_eols s \<ge> EOLS_TO_END_ANY_RX_PAGE then Some (True, s)
        else if tr_consecutive_eols s < 0
        then let (found, s) = rx_first_eol s
             in if found
                then let s = s\<lparr>tr_consecutive_eols := 0\<rparr>
                     in rx_loop (if tr_line_encoding s = T4_COMPRESSION_ITU_T4_1D then force_drop_rx_bits 12 (s\<lparr>tr_row_is_2d := False\<rparr>)
                                 else force_drop_rx_bits 13 (s\<lparr>tr_row_is_2d := (tr_rx_bitstream s AND 0x1000 = 0)\<rparr>))
                else Some (False, s)
        else rx_loop s)"

definition t4_rx_put_bit :: "t4_rx_state \<Rightarrow> int \<Rightarrow> (bool \<times> t4_rx_state) option" where
  "t4_rx_put_bit s b = rx_put_bits s (word_of_int b AND 1) 1"

definition t4_rx_put_byte :: "t4_rx_state \<Rightarrow> u8 \<Rightarrow> (bool \<times> t4_rx_state) option" where
  "t4_rx_put_byte s byte = rx_put_bits s (ucast byte) 8"

fun t4_rx_put_chunk :: "t4_rx_state \<Rightarrow> octets \<Rightarrow> (bool \<times> t4_rx_state) option" where
  "t4_rx_put_chunk s [] = Some (False, s)"
| "t4_rx_put_chunk s (byte # buf) = do {
     (stop, s) \<leftarrow> rx_put_bits s (ucast byte) 8;
     if stop then Some (True, s) else t4_rx_put_chunk s buf
   }"

section \<open>Pages\<close>

text \<open>The run length buffers are allocated anew only if the number of octets of a row changes.\<close>

definition t4_rx_start_page :: "t4_rx_state \<Rightarrow> t4_rx_state option" where
  "t4_rx_start_page s = do {
     let bytes_per_row = (tr_image_width s + 7) div 8;
     let zeros = replicate (nat (tr_image_width s + 4)) (0 :: u32);
     let s = (if bytes_per_row \<noteq> tr_bytes_per_row s
              then s\<lparr>tr_bytes_per_row := bytes_per_row, tr_cur_runs := zeros, tr_ref_runs := zeros\<rparr> else s);
     cur \<leftarrow> mem_write (tr_cur_runs s) 0 zeros;
     ref \<leftarrow> mem_write (tr_ref_runs s) 0 zeros;
     let w = word_of_int (tr_image_width s);
     ref \<leftarrow> mem_write ref 0 [w, w, w, w];
     Some (s\<lparr>tr_cur_runs := cur, tr_ref_runs := ref, tr_rx_bits := 0, tr_rx_skip_bits := 0, tr_rx_bitstream := 0, tr_row_bits := 0,
             tr_min_row_bits := INT_MAX, tr_max_row_bits := 0, tr_row_is_2d := (tr_line_encoding s = T4_COMPRESSION_ITU_T6),
             tr_consecutive_eols := (if tr_line_encoding s = T4_COMPRESSION_ITU_T6 then 0 else -1), tr_bad_rows := 0,
             tr_longest_bad_row_run := 0, tr_curr_bad_row_run := 0, tr_image_length := 0, tr_tx_bitstream := 0, tr_tx_bits := 8,
             tr_image := [], tr_line_image_size := 0, tr_last_row_starts_at := 0, tr_row_len := 0, tr_its_black := False,
             tr_black_white := 0, tr_b_cursor := 1, tr_a_cursor := 0, tr_b1 := sint w, tr_a0 := 0, tr_run_length := 0\<rparr>)
   }"

fun put_zero_bits :: "nat \<Rightarrow> t4_rx_state \<Rightarrow> t4_rx_state option" where
  "put_zero_bits 0 s = Some s"
| "put_zero_bits (Suc n) s = do { (stop, s) \<leftarrow> t4_rx_put_bit s 0; put_zero_bits n s }"

text \<open>The calls of the row write handler, which stop after the first row that it refuses.\<close>

fun written_rows :: "(octets \<Rightarrow> bool) \<Rightarrow> octets list \<Rightarrow> octets list" where
  "written_rows accepts [] = []"
| "written_rows accepts (row # rows) = row # (if accepts row then written_rows accepts rows else [])"

fun image_rows :: "nat \<Rightarrow> int \<Rightarrow> octets \<Rightarrow> octets list option" where
  "image_rows 0 bytes_per_row img = Some []"
| "image_rows (Suc n) bytes_per_row img = do {
     row \<leftarrow> mem_read img 0 bytes_per_row;
     rows \<leftarrow> image_rows n bytes_per_row (drop (nat bytes_per_row) img);
     Some (row # rows)
   }"

text \<open>The result has the return value and the rows given to the handler, with an empty row at the end.\<close>

definition t4_rx_end_page :: "(octets \<Rightarrow> bool) \<Rightarrow> t4_rx_state \<Rightarrow> (int \<times> octets list \<times> t4_rx_state) option" where
  "t4_rx_end_page accepts s = do {
     s \<leftarrow> (if tr_line_encoding s = T4_COMPRESSION_ITU_T6 then put_zero_bits 13 s else Some s);
     let s = end_bad_rows s;
     if tr_image s = [] then Some (-1, [], s)
     else do {
       rows \<leftarrow> image_rows (nat (tr_image_length s)) (tr_bytes_per_row s) (tr_image s);
       Some (0, written_rows accepts rows @ [[]],
         s\<lparr>tr_rx_bits := 0, tr_rx_skip_bits := 0, tr_rx_bitstream := 0, tr_consecutive_eols := EOLS_TO_END_ANY_RX_PAGE, tr_image := []\<rparr>)
     }
   }"

definition t4_rx_set_rx_encoding :: "t4_rx_state \<Rightarrow> int \<Rightarrow> t4_rx_state" where
  "t4_rx_set_rx_encoding s encoding = s\<lparr>tr_line_encoding := encoding\<rparr>"

definition t4_rx_set_image_width :: "t4_rx_state \<Rightarrow> int \<Rightarrow> t4_rx_state" where
  "t4_rx_set_image_width s width = s\<lparr>tr_image_width := width\<rparr>"

record t4_stats =
  ts_width :: int
  ts_length :: int
  ts_bad_rows :: int
  ts_longest_bad_row_run :: int
  ts_encoding :: int
  ts_line_image_size :: int

definition t4_get_transfer_statistics :: "t4_rx_state \<Rightarrow> t4_stats" where
  "t4_get_transfer_statistics s =
     \<lparr>ts_width = tr_image_width s, ts_length = tr_image_length s, ts_bad_rows = tr_bad_rows s,
      ts_longest_bad_row_run = tr_longest_bad_row_run s, ts_encoding = tr_line_encoding s,
      ts_line_image_size = tr_line_image_size s div 8\<rparr>"

declare rx_loop.simps [code]
declare run_octets.simps [simp del] put_runs.simps [simp del] runs_total.simps [simp del] pass_a0.simps [simp del]
  rx_first_eol.simps [simp del]

end
