(* ===== verification/T4_Pixels.thy ===== *)
theory T4_Pixels
  imports T4_Rx T4_Runs
begin

text \<open>
  The image writer of \<^verbatim>\<open>put_decoded_row\<close>: the runs of a row become its pixels, most significant bit first, whatever
  the runs are and wherever they start inside of an octet.
\<close>

section \<open>Bits in the output register\<close>

definition low_bits :: "u32 \<Rightarrow> nat \<Rightarrow> bits" where
  "low_bits w m = map (\<lambda>j. bit w (m - 1 - j)) [0..<m]"

definition run_word :: "bool \<Rightarrow> u32" where
  "run_word c = (if c then 0xFF else 0)"

lemma length_low_bits [simp]: "length (low_bits w m) = m"
  by (simp add: low_bits_def)

lemma low_bits_nth: "j < m \<Longrightarrow> low_bits w m ! j = bit w (m - 1 - j)"
  by (simp add: low_bits_def)

lemma bit_run_word: "bit (run_word c) k \<longleftrightarrow> c \<and> k < 8"
proof -
  have "(0xFF :: u32) = mask 8"
    by (simp add: mask_eq_exp_minus_1)
  then show ?thesis
    unfolding run_word_def \<open>0xFF = mask 8\<close> by (auto simp: bit_mask_iff)
qed

lemma run_word_xor: "run_word c XOR 0xFF = run_word (\<not> c)"
  by (simp add: run_word_def)

lemma msbmask_mask:
  assumes "n \<le> 8"
  shows "msbmask n = mask n"
proof -
  have "n \<in> {0, 1, 2, 3, 4, 5, 6, 7, 8}"
    using assms by auto
  then show ?thesis
    by (auto simp: msbmask_def mask_eq_exp_minus_1)
qed

lemma low_bits_shift:
  assumes "n \<le> 8" "m + n \<le> 32"
  shows "low_bits (push_bit n w OR (msbmask n AND run_word c)) (m + n) = low_bits w m @ replicate n c"
  by (rule nth_equalityI)
    (use assms in \<open>auto simp: low_bits_nth nth_append msbmask_mask bit_or_iff bit_and_iff bit_push_bit_iff bit_mask_iff bit_run_word\<close>)

lemma bits_msb_ucast: "bits_msb (ucast w) = low_bits w 8"
  by (rule nth_equalityI) (auto simp: bits_msb_nth low_bits_nth bit_ucast_iff)

lemma bits_msb_run: "bits_msb (ucast (run_word c)) = replicate 8 c"
  by (rule nth_equalityI) (auto simp: bits_msb_nth bit_ucast_iff bit_run_word)

lemma stream_msb_run: "stream_msb (replicate n (ucast (run_word c))) = replicate (8 * n) c"
  by (induction n) (simp_all add: bits_msb_run replicate_add)

text \<open>The pixels written so far, with those that wait in the register.\<close>

definition tr_pixels :: "t4_rx_state \<Rightarrow> bits" where
  "tr_pixels s = stream_msb (tr_image s) @ low_bits (tr_tx_bitstream s) (8 - tr_tx_bits s)"

section \<open>Runs\<close>

lemma run_octets_same:
  assumes "tr_tx_bitstream s = fudge" "tr_tx_bits s = 8" "int (length (tr_image s)) + int (i div 8) \<le> tr_image_buffer_size s"
  shows "run_octets i fudge s = Some (i mod 8, s\<lparr>tr_image := tr_image s @ replicate (i div 8) (ucast fudge)\<rparr>)"
  using assms
proof (induction i fudge s rule: run_octets.induct)
  case (1 i fudge s)
  show ?case
  proof (cases "8 \<le> i")
    case True
    let ?s = "s\<lparr>tr_tx_bits := 8, tr_image := tr_image s @ [ucast (tr_tx_bitstream s)], tr_tx_bitstream := fudge\<rparr>"
    have d: "i div 8 = Suc ((i - 8) div 8)" "(i - 8) mod 8 = i mod 8"
      using True by (simp_all add: le_div_geq le_mod_geq)
    then have room: "int (length (tr_image s)) < tr_image_buffer_size s"
      using "1.prems"(3) by simp
    have "run_octets i fudge s = run_octets (i - 8) fudge ?s"
      using True room by (subst run_octets.simps) simp
    also have "\<dots> = Some ((i - 8) mod 8, ?s\<lparr>tr_image := tr_image ?s @ replicate ((i - 8) div 8) (ucast fudge)\<rparr>)"
      using "1.prems"(3) d(1) by (intro "1.IH" [OF True room]) simp_all
    finally show ?thesis
      using d "1.prems"(1,2) by simp
  next
    case False
    then show ?thesis
      by (subst run_octets.simps) simp
  qed
qed

lemma run_octets_first:
  assumes "8 \<le> i" "int (length (tr_image s)) + int (i div 8) \<le> tr_image_buffer_size s"
  shows "run_octets i fudge s = Some (i mod 8, s\<lparr>tr_tx_bits := 8, tr_tx_bitstream := fudge,
    tr_image := tr_image s @ ucast (tr_tx_bitstream s) # replicate (i div 8 - 1) (ucast fudge)\<rparr>)"
proof -
  let ?s = "s\<lparr>tr_tx_bits := 8, tr_image := tr_image s @ [ucast (tr_tx_bitstream s)], tr_tx_bitstream := fudge\<rparr>"
  have d: "i div 8 = Suc ((i - 8) div 8)" "(i - 8) mod 8 = i mod 8"
    using assms(1) by (simp_all add: le_div_geq le_mod_geq)
  have "run_octets i fudge s = run_octets (i - 8) fudge ?s"
    using assms d(1) by (subst run_octets.simps) simp
  also have "\<dots> = Some ((i - 8) mod 8, ?s\<lparr>tr_image := tr_image ?s @ replicate ((i - 8) div 8) (ucast fudge)\<rparr>)"
    using assms(2) d(1) by (intro run_octets_same) simp_all
  finally show ?thesis
    using d by simp
qed

lemma u32_of_nat:
  assumes "int n < 2 ^ 31"
  shows "unat (of_nat n :: u32) = n" "sint (of_nat n :: u32) = int n"
proof -
  have "n < 2 ^ 32"
    using assms by simp
  then show "unat (of_nat n :: u32) = n"
    by (simp add: unat_of_nat)
  have "(of_nat n :: u32) = word_of_int (int n)"
    by simp
  then show "sint (of_nat n :: u32) = int n"
    using assms by (simp add: sint_sbintrunc' signed_take_bit_int_eq_self del: of_int_of_nat_eq)
qed

lemma put_run_pixels:
  assumes t: "1 \<le> tr_tx_bits s" "tr_tx_bits s \<le> 8" and n: "int n < 2 ^ 31"
    and room: "int (length (tr_pixels s) + n) \<le> 8 * tr_image_buffer_size s"
  shows "\<exists>i w t'. write_run (of_nat n) (run_word c) s = Some (s\<lparr>tr_image := i, tr_tx_bitstream := w, tr_tx_bits := t'\<rparr>) \<and>
    1 \<le> t' \<and> t' \<le> 8 \<and> tr_pixels (s\<lparr>tr_image := i, tr_tx_bitstream := w, tr_tx_bits := t'\<rparr>) = tr_pixels s @ replicate n c"
proof -
  let ?t = "tr_tx_bits s" and ?b = "tr_tx_bitstream s" and ?f = "run_word c"
  note u = u32_of_nat [OF n]
  show ?thesis
  proof (cases "?t \<le> n")
    case True
    let ?i = "n + (8 - ?t)"
    let ?b1 = "push_bit ?t ?b OR (msbmask ?t AND ?f)"
    let ?r = "?i mod 8"
    let ?img = "tr_image s @ ucast ?b1 # replicate (?i div 8 - 1) (ucast ?f)"
    have i: "8 \<le> ?i"
      using True t by simp
    have "int (length (tr_image s)) + int (?i div 8) \<le> tr_image_buffer_size s"
      using room t by (simp add: tr_pixels_def)
    then have "write_run (of_nat n) ?f s = Some (s\<lparr>tr_image := ?img, tr_tx_bitstream := push_bit ?r ?f OR (msbmask ?r AND ?f), tr_tx_bits := 8 - ?r\<rparr>)"
      using True u run_octets_first [OF i, of "s\<lparr>tr_tx_bitstream := ?b1\<rparr>" ?f] by (simp add: write_run_def)
    moreover have "1 \<le> 8 - ?r" "8 - ?r \<le> 8"
      by simp_all
    moreover have "tr_pixels (s\<lparr>tr_image := ?img, tr_tx_bitstream := push_bit ?r ?f OR (msbmask ?r AND ?f), tr_tx_bits := 8 - ?r\<rparr>) =
        tr_pixels s @ replicate n c"
    proof -
      have "low_bits ?b1 8 = low_bits ?b (8 - ?t) @ replicate ?t c"
        using low_bits_shift [of ?t "8 - ?t" ?b c] t by simp
      moreover have "low_bits (push_bit ?r ?f OR (msbmask ?r AND ?f)) ?r = replicate ?r c"
        using low_bits_shift [of ?r 0 ?f c] by (simp add: low_bits_def)
      moreover have "n = ?t + (8 * (?i div 8 - 1) + ?r)"
      proof -
        have "?i = 8 * (?i div 8) + ?r" "1 \<le> ?i div 8"
          using i by simp_all
        then show ?thesis
          using t by linarith
      qed
      then have "replicate n c = replicate ?t c @ replicate (8 * (?i div 8 - 1)) c @ replicate ?r c"
        by (metis replicate_add)
      ultimately show ?thesis
        by (simp add: tr_pixels_def bits_msb_ucast stream_msb_run)
    qed
    ultimately show ?thesis
      by blast
  next
    case False
    let ?b1 = "push_bit n ?b OR (msbmask n AND ?f)"
    have "write_run (of_nat n) ?f s = Some (s\<lparr>tr_image := tr_image s, tr_tx_bitstream := ?b1, tr_tx_bits := ?t - n\<rparr>)"
      using False u t by (simp add: write_run_def)
    moreover have "low_bits ?b1 (8 - (?t - n)) = low_bits ?b (8 - ?t) @ replicate n c"
      using low_bits_shift [of n "8 - ?t" ?b c] t False by simp
    moreover have "1 \<le> ?t - n" "?t - n \<le> 8"
      using False t by linarith+
    ultimately show ?thesis
      by (intro exI [of _ "tr_image s"] exI [of _ ?b1] exI [of _ "?t - n"]) (simp add: tr_pixels_def)
  qed
qed

text \<open>The pixels of runs of alternating colour.\<close>

fun runs_pixels :: "bool \<Rightarrow> nat list \<Rightarrow> bits" where
  "runs_pixels c [] = []"
| "runs_pixels c (n # ns) = replicate n c @ runs_pixels (\<not> c) ns"

lemma length_runs_pixels [simp]: "length (runs_pixels c ns) = sum_list ns"
  by (induction ns arbitrary: c) simp_all

definition holds_runs :: "nat list \<Rightarrow> u32 list \<Rightarrow> bool" where
  "holds_runs ns runs \<longleftrightarrow> length ns \<le> length runs \<and> take (length ns) runs = map of_nat ns"

lemma holds_runs_nth:
  assumes "holds_runs ns runs" "i < length ns"
  shows "arr_get runs (int i) = Some (of_nat (ns ! i))"
proof -
  have "runs ! i = take (length ns) runs ! i"
    using assms(2) by simp
  also have "\<dots> = of_nat (ns ! i)"
    using assms by (simp only: holds_runs_def nth_map)
  finally show ?thesis
    using assms by (simp add: holds_runs_def arr_get_def)
qed

lemma put_runs_pixels:
  assumes "holds_runs ns (tr_cur_runs s)" "1 \<le> tr_tx_bits s" "tr_tx_bits s \<le> 8" "int (sum_list ns) < 2 ^ 31"
    "int (length (tr_pixels s) + sum_list (drop x ns)) \<le> 8 * tr_image_buffer_size s" "x \<le> length ns"
  shows "\<exists>i w t. put_runs (int (length ns)) (int x) (run_word c) s = Some (s\<lparr>tr_image := i, tr_tx_bitstream := w, tr_tx_bits := t\<rparr>) \<and>
    1 \<le> t \<and> t \<le> 8 \<and> tr_pixels (s\<lparr>tr_image := i, tr_tx_bitstream := w, tr_tx_bits := t\<rparr>) = tr_pixels s @ runs_pixels c (drop x ns)"
  using assms
proof (induction "length ns - x" arbitrary: x c s)
  case 0
  then have "put_runs (int (length ns)) (int x) (run_word c) s = Some s"
    by (subst put_runs.simps) simp
  then show ?case
    using 0 by (intro exI [of _ "tr_image s"] exI [of _ "tr_tx_bitstream s"] exI [of _ "tr_tx_bits s"]) simp
next
  case (Suc k)
  then have x: "x < length ns"
    by simp
  let ?n = "ns ! x"
  have d: "drop x ns = ?n # drop (Suc x) ns"
    using x by (simp add: Cons_nth_drop_Suc)
  have "?n \<le> sum_list ns"
    using x by (simp add: elem_le_sum_list)
  then have "int ?n < 2 ^ 31" "int (length (tr_pixels s) + ?n) \<le> 8 * tr_image_buffer_size s"
    using Suc.prems(4,5) d by simp_all
  from put_run_pixels [OF Suc.prems(2,3) this, of c] obtain i w t where
    r: "write_run (of_nat ?n) (run_word c) s = Some (s\<lparr>tr_image := i, tr_tx_bitstream := w, tr_tx_bits := t\<rparr>)" "1 \<le> t" "t \<le> 8"
      "tr_pixels (s\<lparr>tr_image := i, tr_tx_bitstream := w, tr_tx_bits := t\<rparr>) = tr_pixels s @ replicate ?n c"
    by blast
  let ?s = "s\<lparr>tr_image := i, tr_tx_bitstream := w, tr_tx_bits := t\<rparr>"
  have "k = length ns - Suc x" "holds_runs ns (tr_cur_runs ?s)" "1 \<le> tr_tx_bits ?s" "tr_tx_bits ?s \<le> 8" "int (sum_list ns) < 2 ^ 31"
    "int (length (tr_pixels ?s) + sum_list (drop (Suc x) ns)) \<le> 8 * tr_image_buffer_size ?s" "Suc x \<le> length ns"
    using Suc.hyps(2) Suc.prems r d x by simp_all
  from Suc.hyps(1) [OF this, of "\<not> c"] obtain i' w' t' where
    r': "put_runs (int (length ns)) (int (Suc x)) (run_word (\<not> c)) ?s = Some (?s\<lparr>tr_image := i', tr_tx_bitstream := w', tr_tx_bits := t'\<rparr>)"
      "1 \<le> t'" "t' \<le> 8"
      "tr_pixels (?s\<lparr>tr_image := i', tr_tx_bitstream := w', tr_tx_bits := t'\<rparr>) = tr_pixels ?s @ runs_pixels (\<not> c) (drop (Suc x) ns)"
    by blast
  have "put_runs (int (length ns)) (int x) (run_word c) s = put_runs (int (length ns)) (int (Suc x)) (run_word (\<not> c)) ?s"
    using x r(1) holds_runs_nth [OF Suc.prems(1) x] by (subst put_runs.simps) (simp add: run_word_xor add.commute)
  then show ?case
    using r' r(4) d by (intro exI [of _ i'] exI [of _ w'] exI [of _ t']) simp
qed

end
