(* ===== verification/T4_Decode.thy ===== *)
theory T4_Decode
  imports T4_Lookup T4_Pixels
begin

text \<open>
  The decoder of \<^verbatim>\<open>t4_rx.c\<close> on the bits of the line: how the octets pass through its bit buffer, the entry of its
  tables at a code word of the encoder, and that code words in sequence never look like an EOL.
\<close>

section \<open>Table entries\<close>

lemma find_code_found:
  assumes "find_code (map word_bits ws) ws c = Some v" "\<forall>w\<in>set ws. Q w \<longrightarrow> take (length c) (word_bits w) = take (length (word_bits w)) c"
    "Q v"
  shows "find Q ws = Some v"
  using assms by (induction ws) (auto split: if_splits)

definition words_ok :: "nat \<Rightarrow> t4_word list \<Rightarrow> bool" where
  "words_ok n ws \<longleftrightarrow> list_all (\<lambda>w. fst (snd w) \<le> n \<and> fst w = take_bit (fst (snd w)) (fst w)) ws"

lemma run_words_ok: "words_ok 12 t4_1d_white_words" "words_ok 13 t4_1d_black_words"
  by code_simp+

lemma bit_take_bits: "take_bit n (w :: u32) = take_bit n v \<longleftrightarrow> map (bit w) [0..<n] = map (bit v) [0..<n]"
proof
  assume eq: "take_bit n w = take_bit n v"
  have "bit w j = bit v j" if "j < n" for j
    using arg_cong [OF eq, of "\<lambda>x. bit x j"] that by (simp add: bit_take_bit_iff)
  then show "map (bit w) [0..<n] = map (bit v) [0..<n]"
    by simp
qed (auto intro!: bit_word_eqI simp: bit_take_bit_iff)

lemma find_code_mem: "find_code (map word_bits ws) ws c = Some v \<Longrightarrow> v \<in> set ws"
  by (induction ws) (auto split: if_splits)

lemma same_bits_prefix:
  assumes "a = map f [0..<length a]" "c = map f [0..<length c]"
  shows "take (length c) a = take (length a) c"
proof (rule nth_equalityI)
  fix j assume "j < length (take (length c) a)"
  then have "j < length a" "j < length c"
    by simp_all
  then show "take (length c) a ! j = take (length a) c ! j"
    using arg_cong [OF assms(1), of "\<lambda>l. l ! j"] arg_cong [OF assms(2), of "\<lambda>l. l ! j"] by simp
qed simp

text \<open>A word matches a window of \<open>n\<close> bits if these start with its bits.\<close>

lemma word_matches:
  assumes ws: "words_ok n ws" and w: "w \<in> set ws"
  shows "(case w of (code, width, state, param) \<Rightarrow> take_bit width (x AND mask n) = code) \<longleftrightarrow> map (bit (x :: u32)) [0..<length (word_bits w)] = word_bits w"
proof -
  obtain code k st p where split: "w = (code, k, st, p)"
    by (cases w)
  have k: "k \<le> n" "code = take_bit k code"
    using ws w unfolding words_ok_def list_all_iff split by auto
  have "take_bit k (x AND mask n) = take_bit k x"
    using k(1) by (auto intro!: bit_word_eqI simp: bit_take_bit_iff bit_and_iff bit_mask_iff)
  then have "take_bit k (x AND mask n) = code \<longleftrightarrow> take_bit k x = take_bit k code"
    using k(2) by metis
  then show ?thesis
    unfolding bit_take_bits by (simp add: word_bits_def split)
qed

text \<open>The look-up at a word whose low bits start with \<open>c\<close>, if the first word that can start together with it is \<open>v\<close>.\<close>

lemma table_at_code:
  assumes found: "find_code (map word_bits ws) ws c = Some v" and ws: "words_ok n ws" and v: "word_bits v = c"
    and win: "map (bit x) [0..<length c] = c"
  shows "t4_table_at ws (x AND mask n) = (fst (snd (snd v)), fst (snd v), snd (snd (snd v)))"
proof -
  let ?Q = "\<lambda>(code, width, state, param). take_bit width (x AND mask n) = code"
  have "?Q v"
    by (rule word_matches [OF ws find_code_mem [OF found], THEN iffD2]) (simp add: v win)
  moreover have "take (length c) (word_bits w) = take (length (word_bits w)) c" if "w \<in> set ws" "?Q w" for w
    using same_bits_prefix [of "word_bits w" "bit x" c] word_matches [OF ws that(1), THEN iffD1, OF that(2)] win by simp
  ultimately have "find ?Q ws = Some v"
    using find_code_found [OF found, of ?Q] by blast
  then show ?thesis
    by (cases v) (simp add: t4_table_at_def)
qed

definition run_entry :: "bool \<Rightarrow> u32 \<Rightarrow> t4_table_entry" where
  "run_entry black x = (if black then t4_1d_black_table (x AND 0x1FFF) else t4_1d_white_table (x AND 0xFFF))"

lemma run_entry_code:
  assumes i: "i < 104" and win: "take 13 (code_bits (t4_run_codes black ! i) @ l) = map (bit x) [0..<13]"
  shows "run_entry black x = (run_state black i, length (code_bits (t4_run_codes black ! i)), if i < 64 then int i else 64 * (int i - 63))"
proof -
  let ?e = "t4_run_codes black ! i" and ?n = "if black then 13 else 12 :: nat"
  have e: "run_entry_ok i ?e" "length (t4_run_codes black) = 104"
    using run_codes_nth [OF i] by simp_all
  have found: "find_code (map word_bits (t4_run_words black)) (t4_run_words black) (code_bits ?e) =
      Some (fst (snd ?e), fst ?e, run_state black i, snd (snd ?e))"
    using codes_found_nth [OF white_codes_found, of i] codes_found_nth [OF black_codes_found, of i] i run_tables(1,2)
    by (cases black) (simp_all add: t4_run_words_def t4_run_codes_def)
  have ok: "words_ok ?n (t4_run_words black)"
    using run_words_ok by (simp add: t4_run_words_def)
  have v: "word_bits (fst (snd ?e), fst ?e, run_state black i, snd (snd ?e)) = code_bits ?e"
    by (simp add: word_bits_def code_bits_def)
  have len: "length (code_bits ?e) \<le> ?n"
    using ok find_code_mem [OF found] unfolding words_ok_def list_all_iff by (fastforce simp: code_bits_def)
  have "map (bit x) [0..<length (code_bits ?e)] = take (length (code_bits ?e)) (map (bit x) [0..<13])"
    using len by (simp add: take_map min_def split: if_splits)
  also have "\<dots> = code_bits ?e"
    using len by (simp flip: win split: if_splits)
  finally have "t4_table_at (t4_run_words black) (x AND mask ?n) = (run_state black i, fst ?e, snd (snd ?e))"
    using table_at_code [OF found ok v] by simp
  moreover have "run_entry black x = t4_table_at (t4_run_words black) (x AND mask ?n)"
    by (simp add: run_entry_def t4_run_words_def t4_1d_white_table_def t4_1d_black_table_def mask_eq_exp_minus_1)
  ultimately show ?thesis
    using e(1) by (simp add: run_entry_ok_def code_bits_def)
qed

lemma run_words_ones: "list_all (\<lambda>w. True \<in> set (take 12 (word_bits w))) (t4_run_words black)"
  by (cases black; simp only: t4_run_words_def if_True if_False; code_simp)

lemma run_entry_fill:
  assumes "map (bit x) [0..<12] = replicate 12 False"
  shows "run_entry black x = (S_Null, 1, 0)"
proof -
  let ?n = "if black then 13 else 12 :: nat"
  have ok: "words_ok ?n (t4_run_words black)"
    using run_words_ok by (simp add: t4_run_words_def)
  have zero: "\<not> bit x j" if "j < 12" for j
    using arg_cong [OF assms, of "\<lambda>l. l ! j"] that by simp
  have "map (bit x) [0..<length (word_bits w)] \<noteq> word_bits w" if "w \<in> set (t4_run_words black)" for w
  proof
    assume "map (bit x) [0..<length (word_bits w)] = word_bits w"
    moreover have "True \<in> set (take 12 (map (bit x) [0..<length (word_bits w)])) \<Longrightarrow> False"
      using zero by (auto simp: in_set_conv_nth)
    ultimately show False
      using run_words_ones [of black] that unfolding list_all_iff by auto
  qed
  then have "find (\<lambda>(code, width, state, param). take_bit width (x AND mask ?n) = code) (t4_run_words black) = None"
    unfolding find_None_iff using word_matches [OF ok, of _ x] by blast
  then have "t4_table_at (t4_run_words black) (x AND mask ?n) = (S_Null, 1, 0)"
    by (simp add: t4_table_at_def)
  then show ?thesis
    by (simp add: run_entry_def t4_run_words_def t4_1d_white_table_def t4_1d_black_table_def mask_eq_exp_minus_1 split: if_splits)
qed

section \<open>No EOL inside of a row\<close>

text \<open>No one follows more than ten zeros, with \<open>z\<close> zeros before; and the number of zeros at the end.\<close>

fun few_zeros :: "nat \<Rightarrow> bits \<Rightarrow> bool" where
  "few_zeros z [] = True"
| "few_zeros z (b # bs) = (if b then z \<le> 10 \<and> few_zeros 0 bs else few_zeros (Suc z) bs)"

fun last_zeros :: "nat \<Rightarrow> bits \<Rightarrow> nat" where
  "last_zeros z [] = z"
| "last_zeros z (b # bs) = last_zeros (if b then 0 else Suc z) bs"

lemma few_zeros_mono: "few_zeros z bs \<Longrightarrow> y \<le> z \<Longrightarrow> few_zeros y bs"
proof (induction bs arbitrary: y z)
  case (Cons b bs)
  then show ?case
    using Cons.IH [of "Suc z" "Suc y"] by (auto split: if_splits)
qed simp

lemma few_zeros_append: "few_zeros z (xs @ ys) \<longleftrightarrow> few_zeros z xs \<and> few_zeros (last_zeros z xs) ys"
  by (induction xs arbitrary: z) auto

lemma last_zeros_append: "last_zeros z (xs @ ys) = last_zeros (last_zeros z xs) ys"
  by (induction xs arbitrary: z) auto

lemma last_zeros_mono: "y \<le> z \<Longrightarrow> last_zeros y bs \<le> last_zeros z bs"
proof (induction bs arbitrary: y z)
  case (Cons b bs)
  then show ?case
    using Cons.IH [of "Suc y" "Suc z"] by simp
qed simp

lemma run_codes_zeros: "list_all (\<lambda>e. few_zeros 3 (code_bits e) \<and> last_zeros 3 (code_bits e) \<le> 3) (t4_run_codes black)"
  by (cases black; simp only: t4_run_codes_def if_True if_False; code_simp)

lemma words_few_zeros: "set ws \<subseteq> set t4_white_codes \<union> set t4_black_codes \<Longrightarrow> few_zeros 3 (words_bits ws) \<and> last_zeros 3 (words_bits ws) \<le> 3"
proof (induction ws rule: rev_induct)
  case (snoc w ws)
  have "few_zeros 3 (code_bits w) \<and> last_zeros 3 (code_bits w) \<le> 3"
    using snoc.prems run_codes_zeros [of True] run_codes_zeros [of False] by (auto simp: list_all_iff t4_run_codes_def)
  moreover have "few_zeros 3 (words_bits ws)" "last_zeros 3 (words_bits ws) \<le> 3"
    using snoc by simp_all
  ultimately show ?case
    using few_zeros_mono [of 3 "code_bits w" "last_zeros 3 (words_bits ws)"] last_zeros_mono [of "last_zeros 3 (words_bits ws)" 3 "code_bits w"]
    by (simp add: few_zeros_append last_zeros_append)
qed simp

lemma span_words_codes: "set (span_words black n) \<subseteq> set (t4_run_codes black)"
proof (induction black n rule: span_words.induct)
  case (1 black n)
  have nth: "t4_run_codes black ! i \<in> set (t4_run_codes black)" if "i < 104" for i
    using that run_codes_nth(1) [OF that, of black] by simp
  have "n mod 64 < 104"
    by (rule less_trans [of _ 64]) simp_all
  then show ?case
    using 1 nth [of 103] nth [of "n mod 64"] nth [of "63 + n div 64"] by (subst span_words.simps) auto
qed

lemma runs_words_codes: "set (runs_words black ns) \<subseteq> set t4_white_codes \<union> set t4_black_codes"
proof (induction ns arbitrary: black)
  case (Cons n ns)
  then show ?case
    using span_words_codes [of black n] Cons.IH [of "\<not> black"] by (auto simp: t4_run_codes_def split: if_splits)
qed simp

text \<open>No EOL starts in \<open>xs\<close>, with \<open>l\<close> after it.\<close>

fun no_eol :: "bits \<Rightarrow> bits \<Rightarrow> bool" where
  "no_eol [] l = True"
| "no_eol (b # bs) l \<longleftrightarrow> take 12 (b # bs @ l) \<noteq> eol_bits \<and> no_eol bs l"

lemma no_eol_append: "no_eol (xs @ ys) l \<longleftrightarrow> no_eol xs (ys @ l) \<and> no_eol ys l"
  by (induction xs) auto

lemma eol_window:
  assumes "take 12 l = eol_bits" "j < 12"
  shows "l ! j = (j = 11)" "12 \<le> length l"
proof -
  have "length (take 12 l) = 12"
    using assms(1) by (simp add: eol_bits_def)
  then show "12 \<le> length l"
    by simp
  have "l ! j = take 12 l ! j"
    using assms(2) by simp
  then show "l ! j = (j = 11)"
    using assms by (auto simp: eol_bits_def nth_append)
qed

lemma no_eol_before_zeros:
  assumes "few_zeros z xs" "take 11 l = replicate 11 False"
  shows "no_eol xs l"
  using assms
proof (induction xs arbitrary: z)
  case (Cons b bs)
  have "few_zeros 0 bs"
    using Cons.prems(1) few_zeros_mono [of "Suc z" bs 0] by (auto split: if_splits)
  moreover have "take 12 (b # bs @ l) \<noteq> eol_bits"
  proof
    assume win: "take 12 (b # bs @ l) = eol_bits"
    let ?xs = "b # bs"
    have w: "(?xs @ l) ! j = (j = 11)" if "j < 12" for j
      using eol_window(1) [OF win that] by simp
    show False
    proof (cases "length ?xs \<le> 11")
      case True
      have "l ! (11 - length ?xs) = take 11 l ! (11 - length ?xs)"
        using True by simp
      then show False
        using w [of 11] True Cons.prems(2) by (simp add: nth_append)
    next
      case False
      have "take 12 ?xs = eol_bits"
        using win False by (simp add: take_append)
      then have "?xs = replicate 11 False @ True # drop 12 ?xs"
        using append_take_drop_id [of 12 ?xs] by (simp add: eol_bits_def)
      moreover have "last_zeros z (replicate 11 False) = z + 11"
        by (simp add: numeral_eq_Suc)
      ultimately show False
        using arg_cong [of _ _ "few_zeros z"] Cons.prems(1) few_zeros_append [of z "replicate 11 False" "True # drop 12 ?xs"] by fastforce
    qed
  qed
  ultimately show ?case
    using Cons.IH [of 0] Cons.prems(2) by simp
qed simp

lemma no_eol_row: "no_eol (words_bits (runs_words black ns)) (replicate k False @ eol_bits @ l)"
proof (rule no_eol_before_zeros)
  show "few_zeros 3 (words_bits (runs_words black ns))"
    using words_few_zeros [OF runs_words_codes] by simp
  have "replicate k False @ eol_bits @ l = replicate 11 False @ replicate k False @ True # l"
    by (simp add: eol_bits_def replicate_app_Cons_same flip: replicate_add append_assoc)
  then show "take 11 (replicate k False @ eol_bits @ l) = replicate 11 False"
    by (simp only:) simp
qed

end
