(* ===== verification/T4_Modes.thy ===== *)
theory T4_Modes
  imports T4_Decode
begin

text \<open>
  Two-dimensional coding as a specification: a row is coded by modes relative to the row above it. Both rows are
  given by their runs of alternating colour, white first.
\<close>

section \<open>The runs of a row\<close>

lemma runs_pixels_changes:
  "q \<le> p \<Longrightarrow> runs_pixels c (run_lengths q (colour_changes c p l @ [p + int (length l)])) = replicate (nat (p - q)) c @ l"
proof (induction l arbitrary: c p q)
  case (Cons b l)
  have "nat (p + 1 - q) = Suc (nat (p - q))"
    using Cons.prems by simp
  then have "replicate (nat (p + 1 - q)) c @ l = replicate (nat (p - q)) c @ c # l"
    by (simp add: replicate_app_Cons_same)
  then show ?case
    using Cons.IH [of q "p + 1" c] Cons.IH [of p "p + 1" b] Cons.prems by (auto simp: algebra_simps)
qed simp

lemma row_runs_pixels: "width \<le> 8 * length row \<Longrightarrow> runs_pixels False (row_runs row width) = row_pixels row width"
  using runs_pixels_changes [of 0 0 False "row_pixels row width"] by (simp add: row_runs_def row_changes_def row_pixels_def)

lemma sum_row_runs: "width \<le> 8 * length row \<Longrightarrow> sum_list (row_runs row width) = width"
  using arg_cong [OF row_runs_pixels, of width row length] by (simp add: row_pixels_def)

lemma run_lengths_positive: "sorted_wrt (<) (q # ps) \<Longrightarrow> \<forall>n\<in>set (run_lengths q ps). 0 < n"
  by (induction ps arbitrary: q) auto

lemma row_runs_positive: "\<forall>n\<in>set (tl (row_runs row width)). 0 < n"
proof -
  obtain p ps where ch: "row_changes row width = p # ps"
    by (cases "row_changes row width") (simp_all add: row_changes_def)
  then show ?thesis
    using sorted_row_changes [of row width] run_lengths_positive [of p ps] by (simp add: row_runs_def)
qed

lemma length_run_lengths [simp]: "length (run_lengths q ps) = length ps"
  by (induction ps arbitrary: q) simp_all

lemma length_row_runs: "length (row_runs row width) \<le> width + 1"
  using length_colour_changes [of False 0 "row_pixels row width"] by (simp add: row_runs_def row_changes_def row_pixels_def)

lemma row_pixels_all: "row_pixels row (8 * length row) = stream_msb row"
  by (simp add: row_pixels_def)

section \<open>Positions in a row\<close>

text \<open>The position behind the first \<open>c\<close> runs, which is that of the change number \<open>c\<close> counted from one.\<close>

definition pos :: "nat list \<Rightarrow> nat \<Rightarrow> nat" where
  "pos ns c = sum_list (take c ns)"

text \<open>The runs of a row: only the first may be empty.\<close>

definition row_ok :: "nat \<Rightarrow> nat list \<Rightarrow> bool" where
  "row_ok width ns \<longleftrightarrow> sum_list ns = width \<and> (\<forall>n\<in>set (tl ns). 0 < n) \<and> ns \<noteq> []"

lemma pos_0 [simp]: "pos ns 0 = 0"
  by (simp add: pos_def)

lemma pos_all: "length ns \<le> c \<Longrightarrow> pos ns c = sum_list ns"
  by (simp add: pos_def)

lemma pos_Suc: "c < length ns \<Longrightarrow> pos ns (Suc c) = pos ns c + ns ! c"
  by (simp add: pos_def take_Suc_conv_app_nth)

lemma pos_step: "pos ns (Suc c) = pos ns c + (if c < length ns then ns ! c else 0)"
  by (simp add: pos_Suc pos_all)

lemma pos_mono: "b \<le> c \<Longrightarrow> pos ns b \<le> pos ns c"
  by (rule lift_Suc_mono_le) (simp_all add: pos_step)

lemma pos_bound: "pos ns c \<le> sum_list ns"
  by (metis pos_all pos_mono le_cases order_refl)

lemma row_ok_run: "row_ok width ns \<Longrightarrow> 1 \<le> c \<Longrightarrow> c < length ns \<Longrightarrow> 0 < ns ! c"
  by (cases ns; cases c) (auto simp: row_ok_def)

lemma pos_strict: "row_ok width ns \<Longrightarrow> 1 \<le> c \<Longrightarrow> c < length ns \<Longrightarrow> pos ns c < pos ns (Suc c)"
  using row_ok_run [of width ns c] by (simp add: pos_Suc)

lemma pos_full: "row_ok width ns \<Longrightarrow> 1 \<le> c \<Longrightarrow> pos ns c = width \<longleftrightarrow> length ns \<le> c"
proof
  assume ok: "row_ok width ns" "1 \<le> c" and full: "pos ns c = width"
  show "length ns \<le> c"
  proof (rule ccontr)
    assume "\<not> length ns \<le> c"
    then have "pos ns c < pos ns (Suc c)"
      using pos_strict [OF ok(1,2)] by simp
    then show False
      using full pos_bound [of ns "Suc c"] ok(1) by (simp add: row_ok_def)
  qed
qed (simp add: pos_all row_ok_def)

section \<open>Modes\<close>

datatype t4_mode =
  Vertical int
| Horizontal bool nat nat
| Pass

text \<open>
  \<open>q\<close> is one more than the position \<open>a0\<close> from which the row is coded next, and zero at the imaginary position in front of
  the row; \<open>k\<close> changes of the row are behind it. The change \<open>c\<close> of the reference row is the first one to the right
  of \<open>a0\<close> that has the colour of the next change of the row.
\<close>

definition opposite :: "nat list \<Rightarrow> nat \<Rightarrow> nat \<Rightarrow> nat \<Rightarrow> bool" where
  "opposite ns q k c \<longleftrightarrow> odd (c + k) \<and> q \<le> pos ns c \<and> (\<forall>j<c. odd (j + k) \<longrightarrow> pos ns j < q)"

inductive coded :: "nat list \<Rightarrow> nat list \<Rightarrow> nat \<Rightarrow> nat \<Rightarrow> t4_mode list \<Rightarrow> bool" for ns cs where
  coded_end: "sum_list cs < q \<Longrightarrow> coded ns cs q k []"
| coded_vertical:
    "q \<le> sum_list cs \<Longrightarrow> opposite ns q k c \<Longrightarrow> pos cs (Suc k) \<le> pos ns (Suc c) \<Longrightarrow> \<bar>int (pos ns c) - int (pos cs (Suc k))\<bar> \<le> 3 \<Longrightarrow>
     coded ns cs (Suc (pos cs (Suc k))) (Suc k) ms \<Longrightarrow> coded ns cs q k (Vertical (int (pos cs (Suc k)) - int (pos ns c)) # ms)"
| coded_horizontal:
    "q \<le> sum_list cs \<Longrightarrow> opposite ns q k c \<Longrightarrow> pos cs (Suc k) \<le> pos ns (Suc c) \<Longrightarrow> 3 < \<bar>int (pos ns c) - int (pos cs (Suc k))\<bar> \<Longrightarrow>
     coded ns cs (Suc (pos cs (k + 2))) (k + 2) ms \<Longrightarrow>
     coded ns cs q k (Horizontal (odd k) (pos cs (Suc k) - (q - 1)) (pos cs (k + 2) - pos cs (Suc k)) # ms)"
| coded_pass:
    "q \<le> sum_list cs \<Longrightarrow> opposite ns q k c \<Longrightarrow> pos ns (Suc c) < pos cs (Suc k) \<Longrightarrow> coded ns cs (Suc (pos ns (Suc c))) k ms \<Longrightarrow>
     coded ns cs q k (Pass # ms)"

text \<open>The code words of a mode.\<close>

fun mode_words :: "t4_mode \<Rightarrow> t4_run_table_entry list" where
  "mode_words (Vertical d) = [t4_2d_codes ! nat (3 - d)]"
| "mode_words (Horizontal black m n) = t4_2d_codes ! 7 # span_words black m @ span_words (\<not> black) n"
| "mode_words Pass = [t4_2d_codes ! 8]"

definition modes_bits :: "t4_mode list \<Rightarrow> bits" where
  "modes_bits ms = words_bits (concat (map mode_words ms))"

lemma modes_bits_simps [simp]: "modes_bits [] = []" "modes_bits (m # ms) = words_bits (mode_words m) @ modes_bits ms"
  by (simp_all add: modes_bits_def)

lemma opposite_unique:
  assumes "opposite ns q k c" "opposite ns q k d"
  shows "c = d"
  using assms by (metis opposite_def not_less linorder_neqE_nat)

lemma opposite_bound:
  assumes "opposite ns q k c" "q \<le> sum_list ns"
  shows "c \<le> length ns + 1"
proof (rule ccontr)
  assume "\<not> c \<le> length ns + 1"
  then have c: "c - 2 < c" "length ns \<le> c - 2" "odd (c - 2 + k)"
    using assms(1) by (auto simp: opposite_def)
  then have "pos ns (c - 2) < q"
    using assms(1) unfolding opposite_def by blast
  then show False
    using assms(2) pos_all [OF c(2)] by simp
qed

lemma opposite_start: "ns \<noteq> [] \<Longrightarrow> opposite ns 0 0 1"
  by (auto simp: opposite_def)

text \<open>The first change on the right is not passed by a search that starts on the left of it.\<close>

lemma opposite_least:
  assumes "opposite ns q k c" "odd (d + k)" "\<And>j. Suc j < d \<Longrightarrow> odd (j + k) \<Longrightarrow> pos ns j < q"
  shows "d \<le> c"
proof (rule ccontr)
  assume "\<not> d \<le> c"
  then have "Suc c < d"
    using assms(1,2) unfolding opposite_def by (metis Suc_lessI even_add even_Suc not_le)
  then show False
    using assms unfolding opposite_def by (metis not_le)
qed

lemma opposite_after_vertical:
  assumes "opposite ns q k c" "opposite ns (Suc a) (Suc k) d" "q \<le> Suc a" "1 \<le> c"
  shows "c - 1 \<le> d" "pos ns c \<le> a \<Longrightarrow> Suc c \<le> d"
proof -
  have c: "odd (c + k)" "\<And>j. j < c \<Longrightarrow> odd (j + k) \<Longrightarrow> pos ns j < q"
    using assms(1) by (auto simp: opposite_def)
  show "c - 1 \<le> d"
  proof (rule opposite_least [OF assms(2)])
    show "odd (c - 1 + Suc k)"
      using c(1) assms(4) by simp
    show "pos ns j < Suc a" if "Suc j < c - 1" "odd (j + Suc k)" for j
    proof -
      have "pos ns (Suc j) < q"
        using c(2) [of "Suc j"] that by simp
      then show ?thesis
        using assms(3) pos_mono [of j "Suc j" ns] by simp
    qed
  qed
  show "Suc c \<le> d" if a: "pos ns c \<le> a"
  proof (rule opposite_least [OF assms(2)])
    show "odd (Suc c + Suc k)"
      using c(1) by simp
    show "pos ns j < Suc a" if "Suc j < Suc c" for j
      using that a pos_mono [of j c ns] by simp
  qed
qed

lemma opposite_after_horizontal:
  assumes "opposite ns q k c" "opposite ns r (k + 2) d" "q \<le> r"
  shows "c \<le> d"
proof (rule opposite_least [OF assms(2)])
  show "odd (c + (k + 2))"
    using assms(1) by (simp add: opposite_def)
  show "pos ns j < r" if "Suc j < c" "odd (j + (k + 2))" for j
    using that assms(1,3) unfolding opposite_def by (metis Suc_lessD even_add even_numeral less_le_trans add.assoc)
qed

lemma opposite_after_pass:
  assumes "opposite ns q k c" "row_ok width ns" "pos ns (Suc c) < width"
  shows "opposite ns (Suc (pos ns (Suc c))) k (c + 2)"
proof -
  have "\<not> length ns \<le> Suc c"
    using pos_all [of ns "Suc c"] assms(2,3) by (auto simp: row_ok_def)
  then have "pos ns (Suc c) < pos ns (Suc (Suc c))"
    using pos_strict [OF assms(2), of "Suc c"] by simp
  moreover have "pos ns j < Suc (pos ns (Suc c))" if "j < c + 2" for j
    using that pos_mono [of j "Suc c" ns] by simp
  ultimately show ?thesis
    using assms(1) by (simp add: opposite_def)
qed

section \<open>Progress\<close>

text \<open>Where \<open>q\<close> and \<open>k\<close> can be.\<close>

definition coding_at :: "nat list \<Rightarrow> nat \<Rightarrow> nat \<Rightarrow> bool" where
  "coding_at cs q k \<longleftrightarrow> q = 0 \<and> k = 0 \<or> pos cs k < q \<and> (q \<le> pos cs (Suc k) \<or> pos cs k = sum_list cs \<and> q = Suc (sum_list cs))"

lemma coding_at_start: "coding_at cs 0 0"
  by (simp add: coding_at_def)

lemma coding_at_run:
  assumes "row_ok width cs" "1 \<le> k"
  shows "coding_at cs (Suc (pos cs k)) k"
proof (cases "length cs \<le> k")
  case True
  then show ?thesis
    by (simp add: coding_at_def pos_all)
next
  case False
  then show ?thesis
    using pos_strict [OF assms] by (simp add: coding_at_def)
qed

lemma coding_at_pass: "coding_at cs q k \<Longrightarrow> q \<le> p \<Longrightarrow> p < pos cs (Suc k) \<Longrightarrow> coding_at cs (Suc p) k"
  by (auto simp: coding_at_def)

lemma coding_at_bounds:
  assumes "coding_at cs q k" "q \<le> sum_list cs" "row_ok width cs"
  shows "k < length cs" "q \<le> pos cs (Suc k)" "pos cs k \<le> q" "q = 0 \<longrightarrow> k = 0" "q \<noteq> 0 \<longrightarrow> pos cs k \<le> q - 1"
proof -
  show "k < length cs"
  proof (rule ccontr)
    assume "\<not> k < length cs"
    then have "length cs \<le> k" "pos cs k = sum_list cs"
      using pos_all [of cs k] by simp_all
    moreover have "0 < length cs"
      using assms(3) by (simp add: row_ok_def)
    ultimately have "pos cs k = sum_list cs" "0 < k"
      by linarith+
    then show False
      using assms(1,2) by (auto simp: coding_at_def)
  qed
qed (use assms(1,2) in \<open>auto simp: coding_at_def\<close>)

lemma opposite_position:
  assumes "opposite ns q k c" "coding_at cs q k"
  shows "1 \<le> c"
proof (rule ccontr)
  assume "\<not> 1 \<le> c"
  then have "c = 0"
    by simp
  then show False
    using assms by (auto simp: opposite_def coding_at_def)
qed

lemma coding_at_end: "coding_at cs q k \<Longrightarrow> sum_list cs < q \<Longrightarrow> pos cs k = sum_list cs \<and> q = Suc (sum_list cs)"
  using pos_bound [of cs "Suc k"] by (auto simp: coding_at_def)

section \<open>Tables and zeros\<close>

definition mode_entry :: "nat \<Rightarrow> t4_code_state \<times> int" where
  "mode_entry i = (if i < 7 then (S_Vert, 3 - int i) else if i = 7 then (S_Horiz, 0) else (S_Pass, 0))"

fun modes_found :: "nat \<Rightarrow> t4_run_table_entry list \<Rightarrow> bool" where
  "modes_found i [] = True"
| "modes_found i (e # es) \<longleftrightarrow>
     find_code (map word_bits t4_2d_words) t4_2d_words (code_bits e) = Some (fst (snd e), fst e, fst (mode_entry i), snd (mode_entry i)) \<and>
     fst e \<le> 7 \<and> 0 < fst e \<and> modes_found (Suc i) es"

lemma mode_codes_found: "modes_found 0 t4_2d_codes" "length t4_2d_codes = 9" "words_ok 7 t4_2d_words"
  by code_simp+

lemma modes_found_nth:
  assumes "modes_found i es" "j < length es"
  shows "find_code (map word_bits t4_2d_words) t4_2d_words (code_bits (es ! j)) =
      Some (fst (snd (es ! j)), fst (es ! j), fst (mode_entry (i + j)), snd (mode_entry (i + j)))" "fst (es ! j) \<le> 7" "0 < fst (es ! j)"
  using assms
proof (induction es arbitrary: i j)
  case (Cons e es)
  {
    case 1
    then show ?case using Cons.IH(1) [of "Suc i" "j - 1"] by (cases j) simp_all
  next
    case 2
    then show ?case using Cons.IH(2) [of "Suc i" "j - 1"] by (cases j) simp_all
  next
    case 3
    then show ?case using Cons.IH(3) [of "Suc i" "j - 1"] by (cases j) simp_all
  }
qed simp_all

lemma mode_entry_code:
  assumes i: "i < 9" and win: "take 13 (code_bits (t4_2d_codes ! i) @ l) = map (bit x) [0..<13]"
  shows "t4_2d_table (x AND 0x7F) = (fst (mode_entry i), length (code_bits (t4_2d_codes ! i)), snd (mode_entry i))"
proof -
  let ?e = "t4_2d_codes ! i"
  have i': "i < length t4_2d_codes"
    using i mode_codes_found(2) by simp
  note e = modes_found_nth [OF mode_codes_found(1) i', unfolded add_0]
  have len: "length (code_bits ?e) \<le> 7" "length (code_bits ?e) = fst ?e"
    using e(2) by (simp_all add: code_bits_def)
  have v: "word_bits (fst (snd ?e), fst ?e, fst (mode_entry i), snd (mode_entry i)) = code_bits ?e"
    by (simp add: word_bits_def code_bits_def)
  have "map (bit x) [0..<length (code_bits ?e)] = take (length (code_bits ?e)) (map (bit x) [0..<13])"
    using len(1) by (simp add: take_map min_def)
  also have "\<dots> = code_bits ?e"
    using len(1) by (simp flip: win)
  finally show "t4_2d_table (x AND 0x7F) = (fst (mode_entry i), length (code_bits ?e), snd (mode_entry i))"
    using table_at_code [OF e(1) mode_codes_found(3) v] len(2) by (simp add: t4_2d_table_def mask_eq_exp_minus_1)
qed

lemma mode_word_not_empty: "i < 9 \<Longrightarrow> code_bits (t4_2d_codes ! i) \<noteq> []"
  using modes_found_nth(3) [OF mode_codes_found(1), of i] mode_codes_found(2) by (auto simp: code_bits_def)

lemma mode_codes_zeros: "list_all (\<lambda>e. few_zeros 3 (code_bits e) \<and> last_zeros 3 (code_bits e) \<le> 3) t4_2d_codes"
  by code_simp

lemma modes_few_zeros:
  "set ws \<subseteq> set t4_2d_codes \<union> set t4_white_codes \<union> set t4_black_codes \<Longrightarrow> few_zeros 3 (words_bits ws) \<and> last_zeros 3 (words_bits ws) \<le> 3"
proof (induction ws rule: rev_induct)
  case (snoc w ws)
  have "few_zeros 3 (code_bits w) \<and> last_zeros 3 (code_bits w) \<le> 3"
    using snoc.prems run_codes_zeros [of True] run_codes_zeros [of False] mode_codes_zeros by (auto simp: list_all_iff t4_run_codes_def)
  moreover have "few_zeros 3 (words_bits ws)" "last_zeros 3 (words_bits ws) \<le> 3"
    using snoc by simp_all
  ultimately show ?case
    using few_zeros_mono [of 3 "code_bits w" "last_zeros 3 (words_bits ws)"] last_zeros_mono [of "last_zeros 3 (words_bits ws)" 3 "code_bits w"]
    by (simp add: few_zeros_append last_zeros_append)
qed simp

text \<open>The vertical modes are those with a code.\<close>

fun mode_ok :: "t4_mode \<Rightarrow> bool" where
  "mode_ok (Vertical d) \<longleftrightarrow> \<bar>d\<bar> \<le> 3"
| "mode_ok _ \<longleftrightarrow> True"

lemma coded_mode_ok: "coded ns cs q k ms \<Longrightarrow> \<forall>m\<in>set ms. mode_ok m"
  by (induction rule: coded.induct) auto

lemma mode_words_codes: "mode_ok m \<Longrightarrow> set (mode_words m) \<subseteq> set t4_2d_codes \<union> set t4_white_codes \<union> set t4_black_codes"
proof (cases m)
  case (Vertical d)
  moreover assume "mode_ok m"
  ultimately have "nat (3 - d) < length t4_2d_codes"
    using mode_codes_found(2) by simp
  then show ?thesis
    using Vertical by simp
next
  case (Horizontal black a b)
  then show ?thesis
    using span_words_codes [of black a] span_words_codes [of "\<not> black" b] mode_codes_found(2) by (auto simp: t4_run_codes_def split: if_splits)
next
  case Pass
  then show ?thesis
    using mode_codes_found(2) by simp
qed

lemma zeros_before_eol: "take 11 (replicate k False @ eol_bits @ l) = replicate 11 False"
proof -
  have "replicate k False @ eol_bits @ l = replicate 11 False @ replicate k False @ True # l"
    by (simp add: eol_bits_def replicate_app_Cons_same flip: replicate_add append_assoc)
  then show ?thesis
    by (simp only:) simp
qed

lemma no_eol_modes:
  assumes "\<forall>m\<in>set ms. mode_ok m"
  shows "no_eol (modes_bits ms) (replicate k False @ eol_bits @ l)"
proof (rule no_eol_before_zeros)
  have "set (concat (map mode_words ms)) \<subseteq> set t4_2d_codes \<union> set t4_white_codes \<union> set t4_black_codes"
    using assms mode_words_codes by fastforce
  then show "few_zeros 3 (modes_bits ms)"
    using modes_few_zeros unfolding modes_bits_def by blast
  show "take 11 (replicate k False @ eol_bits @ l) = replicate 11 False"
    by (rule zeros_before_eol)
qed

end
