(* ===== verification/T4_Tx_Modes.thy ===== *)
theory T4_Tx_Modes
  imports T4_Modes
begin

text \<open>
  The encoder of \<^verbatim>\<open>t4_tx.c\<close> on a two-dimensional row: its search in the reference row, which jumps by two changes from
  the last position, finds the change that the coding needs, and it sends the modes of the row.
\<close>

section \<open>The runs of a row and its changes\<close>

lemma run_lengths_pos: "sorted_wrt (<) (q # ps) \<Longrightarrow> i < length ps \<Longrightarrow> int (pos (run_lengths q ps) (Suc i)) = ps ! i - q"
proof (induction ps arbitrary: q i)
  case (Cons p ps)
  show ?case
  proof (cases i)
    case 0
    then show ?thesis
      using Cons.prems by (simp add: pos_def)
  next
    case (Suc j)
    then have "int (pos (run_lengths p ps) (Suc j)) = ps ! j - p"
      using Cons by simp
    then show ?thesis
      using Cons.prems Suc by (simp add: pos_def)
  qed
qed simp

lemma length_row_changes: "length (row_runs row width) = length (row_changes row width)"
  by (simp add: row_runs_def)

lemma row_changes_pos:
  assumes "i < length (row_changes row width)"
  shows "row_changes row width ! i = int (pos (row_runs row width) (Suc i))"
proof -
  obtain p ps where ch: "row_changes row width = p # ps"
    by (cases "row_changes row width") (simp_all add: row_changes_def)
  have p: "0 \<le> p" and sorted: "sorted_wrt (<) (p # ps)"
    using row_changes_bounds [of p row width] sorted_row_changes [of row width] unfolding ch by simp_all
  show ?thesis
  proof (cases i)
    case 0
    then show ?thesis
      using p by (simp add: ch row_runs_def pos_def)
  next
    case (Suc j)
    then show ?thesis
      using run_lengths_pos [OF sorted, of j] assms p by (simp add: ch row_runs_def pos_def)
  qed
qed

text \<open>The positions behind the runs are in the buffer, with the last one repeated.\<close>

definition holds_row :: "nat list \<Rightarrow> u32 list \<Rightarrow> bool" where
  "holds_row ns runs \<longleftrightarrow> length ns + 2 < length runs \<and> (\<forall>i < length ns + 3. runs ! i = of_nat (pos ns (Suc i)))"

lemma stretched_holds_row:
  assumes "stretched (row_changes row width) runs"
  shows "holds_row (row_runs row width) runs"
  unfolding holds_row_def length_row_changes
proof (intro conjI allI impI)
  let ?ch = "row_changes row width" and ?ns = "row_runs row width"
  have ne: "?ch \<noteq> []"
    by (simp add: row_changes_def)
  show "length ?ch + 2 < length runs"
    using assms by (simp add: stretched_def)
  fix i
  assume "i < length ?ch + 3"
  then have r: "runs ! i = word_of_int (if i < length ?ch then ?ch ! i else last ?ch)"
    using assms by (simp add: stretched_def)
  show "runs ! i = of_nat (pos ?ns (Suc i))"
  proof (cases "i < length ?ch")
    case True
    then show ?thesis
      using r row_changes_pos [OF True] by simp
  next
    case False
    then have "pos ?ns (Suc i) = pos ?ns (Suc (length ?ch - 1))"
      using pos_all [of ?ns "Suc i"] pos_all [of ?ns "Suc (length ?ch - 1)"] ne by (simp add: length_row_changes)
    moreover have "last ?ch = int (pos ?ns (Suc (length ?ch - 1)))"
      using row_changes_pos [of "length ?ch - 1" row width] ne by (simp add: last_conv_nth)
    ultimately show ?thesis
      using r False by simp
  qed
qed

lemma holds_row_get:
  assumes "holds_row ns runs" "i < length ns + 3"
  shows "arr_get runs (int i) = Some (of_nat (pos ns (Suc i)))"
  using assms by (simp add: holds_row_def arr_get_def)

text \<open>The colour of a pixel follows from the run it is in.\<close>

lemma runs_pixels_nth:
  assumes "pos ns k \<le> x" "x < pos ns (Suc k)"
  shows "x < length (runs_pixels c ns) \<and> runs_pixels c ns ! x = (c \<noteq> odd k)"
  using assms
proof (induction ns arbitrary: k x c)
  case (Cons n ns)
  show ?case
  proof (cases k)
    case 0
    then show ?thesis
      using Cons.prems by (simp add: pos_def nth_append)
  next
    case (Suc j)
    have p: "pos (n # ns) (Suc i) = n + pos ns i" for i
      by (simp add: pos_def)
    have x: "pos ns j \<le> x - n" "x - n < pos ns (Suc j)" "n \<le> x"
      using Cons.prems unfolding Suc p by simp_all
    show ?thesis
      using Cons.IH [OF x(1,2), of "\<not> c"] x(3) Suc by (auto simp: nth_append)
  qed
qed (simp add: pos_def)

section \<open>Pixels\<close>

lemma stream_msb_nth: "i < 8 * length bs \<Longrightarrow> stream_msb bs ! i = bit (bs ! (i div 8)) (7 - i mod 8)"
proof (induction bs arbitrary: i)
  case (Cons b bs)
  show ?case
  proof (cases "i < 8")
    case True
    then show ?thesis
      by (simp add: nth_append bits_msb_nth)
  next
    case False
    then have i: "i div 8 = Suc ((i - 8) div 8)" "(i - 8) mod 8 = i mod 8"
      by (simp_all add: le_div_geq le_mod_geq)
    have "i - 8 < 8 * length bs"
      using Cons.prems False by simp
    then show ?thesis
      using Cons.IH [of "i - 8"] False by (simp add: nth_append i)
  qed
qed simp

lemma bit_7: "w AND 0x80 \<noteq> 0 \<longleftrightarrow> bit w 7" for w :: u32
proof -
  have "(0x80 :: u32) = 2 ^ 7"
    by simp
  then show ?thesis
    by (metis and_exp_eq_0_iff_not_bit)
qed

lemma pixel_is_black_pixel:
  assumes "x < width" "width \<le> 8 * length row"
  shows "pixel_is_black row (int x) = Some (row_pixels row width ! x)"
proof -
  have i: "x div 8 < length row" "x < 8 * length row"
    using assms by auto
  have d: "int x div 8 = int (x div 8)" "int x mod 8 = int (x mod 8)"
    by (simp_all add: zdiv_int zmod_int)
  have "push_bit (x mod 8) (ucast (row ! (x div 8)) :: u32) AND 0x80 \<noteq> 0 \<longleftrightarrow> bit (row ! (x div 8)) (7 - x mod 8)"
    unfolding bit_7 by (auto simp: bit_push_bit_iff bit_ucast_iff)
  then show ?thesis
    unfolding pixel_is_black_def d arr_get_def using i assms(1) stream_msb_nth [OF i(2)] by (simp add: row_pixels_def)
qed

lemma row_colour:
  assumes "pos (row_runs row width) k \<le> x" "x < pos (row_runs row width) (Suc k)" "width \<le> 8 * length row"
  shows "pixel_is_black row (int x) = Some (odd k)"
proof -
  have "x < width"
    using assms(2) pos_bound [of "row_runs row width" "Suc k"] sum_row_runs [OF assms(3)] by simp
  moreover have "row_pixels row width ! x = odd k"
    using runs_pixels_nth [OF assms(1,2), of False] row_runs_pixels [OF assms(3)] by simp
  ultimately show ?thesis
    using pixel_is_black_pixel [OF _ assms(3)] by simp
qed

section \<open>The search in the reference row\<close>

lemma sint_pos:
  assumes "int (sum_list ns) < 2 ^ 31"
  shows "sint (of_nat (pos ns c) :: u32) = int (pos ns c)"
proof -
  have "int (pos ns c) < 2 ^ 31"
    using pos_bound [of ns c] assms by simp
  then show ?thesis
    by (rule u32_of_nat(2))
qed

text \<open>
  The searches in terms of change numbers, which are one more than indices: downwards to the last change that is not
  to the right of \<open>a0\<close>, and upwards to the first that is.
\<close>

lemma hunt_down_spec:
  assumes h: "holds_row ns runs" "int (sum_list ns) < 2 ^ 31" and c: "c \<le> length ns + 3"
  shows "\<exists>b. hunt_down runs (int a) (int c - 1) = Some b \<and> b \<le> int c - 1 \<and> - 2 \<le> b \<and> even (int c - 1 - b) \<and> pos ns (nat (b + 1)) \<le> a \<and>
    (b + 2 \<le> int c - 1 \<longrightarrow> a < pos ns (nat (b + 3)))"
  using c
proof (induction c rule: less_induct)
  case (less c)
  show ?case
  proof (cases "c = 0")
    case True
    then show ?thesis
      by (subst hunt_down.simps) simp
  next
    case False
    then obtain i where i: "c = Suc i"
      by (cases c) auto
    have get: "arr_get runs (int i) = Some (of_nat (pos ns (Suc i)))"
      using holds_row_get [OF h(1)] less.prems i by simp
    note sp = sint_pos [OF h(2), of "Suc i"]
    show ?thesis
    proof (cases "pos ns (Suc i) \<le> a")
      case True
      then have "hunt_down runs (int a) (int c - 1) = Some (int i)"
        using get sp i by (subst hunt_down.simps) simp
      moreover have "nat (int i + 1) = Suc i"
        by simp
      ultimately show ?thesis
        using True i by (intro exI [of _ "int i"]) simp
    next
      case gt: False
      have step: "hunt_down runs (int a) (int c - 1) = hunt_down runs (int a) (int i - 2)"
        using gt get sp i by (subst hunt_down.simps) simp
      show ?thesis
      proof (cases i)
        case 0
        then have "hunt_down runs (int a) (int c - 1) = Some (- 2)"
          unfolding step by (subst hunt_down.simps) simp
        then show ?thesis
          using gt i 0 by (intro exI [of _ "- 2"]) simp
      next
        case (Suc j)
        have "int i - 2 = int j - 1" "j < c" "j \<le> length ns + 3"
          using Suc i less.prems by simp_all
        with less.IH [OF this(2,3)] obtain b where b: "hunt_down runs (int a) (int i - 2) = Some b" "b \<le> int j - 1" "- 2 \<le> b" "even (int j - 1 - b)"
          "pos ns (nat (b + 1)) \<le> a" "b + 2 \<le> int j - 1 \<longrightarrow> a < pos ns (nat (b + 3))"
          by auto
        have "a < pos ns (nat (b + 3))"
        proof (cases "b + 2 \<le> int j - 1")
          case False
          then have "b = int j - 1"
            using b(2,4) by (cases "int j - 1 - b = 1") auto
          then have "nat (b + 3) = Suc i"
            using Suc by simp
          then show ?thesis
            using gt by simp
        qed (use b(6) in simp)
        moreover have "even (int c - 1 - b)"
          using b(4) Suc i by simp
        ultimately show ?thesis
          unfolding step using b Suc i by (intro exI [of _ b]) simp
      qed
    qed
  qed
qed

lemma hunt_up_spec:
  assumes h: "holds_row ns runs" "int (sum_list ns) < 2 ^ 31" and c: "pos ns c \<le> a" "a < sum_list ns" "1 \<le> c"
  shows "\<exists>d. hunt_up runs (int (length ns)) (int a) (int c - 1) = Some (int d - 1) \<and> c + 2 \<le> d \<and> d \<le> length ns + 2 \<and> even (d - c) \<and>
    pos ns (d - 2) \<le> a \<and> a < pos ns d"
  using c
proof (induction "length ns - c" arbitrary: c rule: less_induct)
  case less
  have len: "c < length ns"
    using less.prems(1,2) pos_all [of ns c] by (cases "length ns \<le> c") auto
  have "arr_get runs (int (c - 1)) = Some (of_nat (pos ns (Suc (c - 1))))"
    using holds_row_get [OF h(1), of "c - 1"] len by simp
  then have get: "arr_get runs (int c - 1) = Some (of_nat (pos ns c))"
    using less.prems(3) by (simp add: of_nat_diff)
  have step: "hunt_up runs (int (length ns)) (int a) (int c - 1) = hunt_up runs (int (length ns)) (int a) (int (c + 2) - 1)"
    using less.prems(1) len get sint_pos [OF h(2), of c] by (subst hunt_up.simps) (simp add: algebra_simps)
  show ?case
  proof (cases "pos ns (c + 2) \<le> a")
    case True
    have "length ns - (c + 2) < length ns - c"
      using len by simp
    from less.hyps [OF this True less.prems(2)] obtain d where "hunt_up runs (int (length ns)) (int a) (int (c + 2) - 1) = Some (int d - 1)"
      "c + 2 + 2 \<le> d" "d \<le> length ns + 2" "even (d - (c + 2))" "pos ns (d - 2) \<le> a" "a < pos ns d"
      by auto
    then show ?thesis
      unfolding step by (intro exI [of _ d]) auto
  next
    case False
    have "hunt_up runs (int (length ns)) (int a) (int (c + 2) - 1) = Some (int (c + 2) - 1)"
    proof (cases "c + 2 \<le> length ns")
      case True
      have "int (c + 2) - 1 = int (Suc c)"
        by simp
      moreover have "arr_get runs (int (Suc c)) = Some (of_nat (pos ns (c + 2)))"
        using holds_row_get [OF h(1), of "Suc c"] True by simp
      ultimately show ?thesis
        using False True sint_pos [OF h(2), of "c + 2"] by (subst hunt_up.simps) simp
    next
      case False
      then show ?thesis
        by (subst hunt_up.simps) simp
    qed
    then show ?thesis
      unfolding step using False len less.prems(1) by (intro exI [of _ "c + 2"]) simp
  qed
qed

text \<open>A change with the right colour that follows one on the left of \<open>a\<close> is the one that is needed.\<close>

lemma opposite_found:
  assumes "odd (c + k)" "a < pos ns c" "2 \<le> c \<longrightarrow> pos ns (c - 2) \<le> a"
  shows "opposite ns (Suc a) k c"
  unfolding opposite_def
proof (intro conjI allI impI)
  fix j
  assume j: "j < c" "odd (j + k)"
  then have "j \<noteq> c - 1"
    using assms(1) by auto
  then have "j \<le> c - 2" "2 \<le> c"
    using j(1) by simp_all
  then show "pos ns j < Suc a"
    using assms(3) pos_mono [of j "c - 2" ns] by simp
qed (use assms(1,2) in simp_all)

lemma hunt_down_found:
  assumes h: "holds_row ns runs" "int (sum_list ns) < 2 ^ 31" and i: "i \<le> length ns + 2" "odd (Suc i + k)" "a < pos ns (Suc i)" and a: "a < sum_list ns"
  shows "\<exists>b'. hunt_down runs (int a) (int i) \<bind> (\<lambda>b. Some (b + 2)) = Some (int b') \<and> b' \<le> length ns + 1 \<and> opposite ns (Suc a) k (Suc b')"
proof -
  have "int (Suc i) - 1 = int i" "Suc i \<le> length ns + 3"
    using i(1) by simp_all
  with hunt_down_spec [OF h this(2), of a] obtain r where r: "hunt_down runs (int a) (int i) = Some r" "r \<le> int i" "- 2 \<le> r" "even (int i - r)"
    "pos ns (nat (r + 1)) \<le> a" "r + 2 \<le> int i \<longrightarrow> a < pos ns (nat (r + 3))"
    by auto
  have "r \<noteq> int i"
    using r(5) i(3) by (auto simp: nat_add_distrib)
  then have le: "r + 2 \<le> int i"
    using r(2,4) by (cases "int i - r = 1") auto
  define b' where "b' = nat (r + 2)"
  have b': "int b' = r + 2" "Suc b' = nat (r + 3)"
    using r(3) by (simp_all add: b'_def)
  then have "Suc b' - 2 = nat (r + 1)"
    by simp
  moreover have "odd (Suc b' + k)"
    using r(4) i(2) b'(1) by presburger
  moreover have "a < pos ns (Suc b')"
    using r(6) le unfolding b'(2) by blast
  ultimately have opp: "opposite ns (Suc a) k (Suc b')"
    using r(5) by (intro opposite_found) simp_all
  moreover have "b' \<le> length ns + 1"
    using opposite_bound [OF opp] a by simp
  ultimately show ?thesis
    using r(1) b'(1) by (intro exI [of _ b']) simp
qed

lemma hunt_up_found:
  assumes h: "holds_row ns runs" "int (sum_list ns) < 2 ^ 31" and i: "odd (Suc i + k)" "pos ns (Suc i) \<le> a" and a: "a < sum_list ns"
  shows "\<exists>b' c. hunt_up runs (int (length ns)) (int a) (int i) \<bind> (\<lambda>b. Some (if b \<ge> int (length ns) then int (length ns) - 1 else b)) = Some (int b') \<and>
    b' \<le> length ns + 1 \<and> opposite ns (Suc a) k c \<and> pos ns (Suc b') = pos ns c \<and> pos ns (Suc (Suc b')) = pos ns (Suc c)"
proof -
  have "int (Suc i) - 1 = int i" "1 \<le> Suc i"
    by simp_all
  with hunt_up_spec [OF h i(2) a this(2)] obtain d where d: "hunt_up runs (int (length ns)) (int a) (int i) = Some (int d - 1)"
    "Suc i + 2 \<le> d" "d \<le> length ns + 2" "even (d - Suc i)" "pos ns (d - 2) \<le> a" "a < pos ns d"
    by auto
  have opp: "opposite ns (Suc a) k d"
    using d(2,4-6) i(1) by (intro opposite_found) auto
  show ?thesis
  proof (cases "int d - 1 \<ge> int (length ns)")
    case True
    have "1 \<le> length ns"
      using a by (cases ns) auto
    then have len: "int (length ns) - 1 = int (length ns - 1)" "length ns \<le> Suc (length ns - 1)" "length ns \<le> d"
      using True by linarith+
    have "pos ns (Suc (length ns - 1)) = pos ns d" "pos ns (Suc (Suc (length ns - 1))) = pos ns (Suc d)"
      using len by (simp_all add: pos_all)
    moreover have "hunt_up runs (int (length ns)) (int a) (int i) \<bind> (\<lambda>b. Some (if b \<ge> int (length ns) then int (length ns) - 1 else b)) = Some (int (length ns - 1))"
      unfolding d(1) bind.simps if_P [OF True] len(1) ..
    ultimately show ?thesis
      using opp by (intro exI [of _ "length ns - 1"] exI [of _ d]) simp
  next
    case False
    have "int (d - 1) = int d - 1" "Suc (d - 1) = d"
      using d(2) by simp_all
    then show ?thesis
      using False d(1,3) opp by (intro exI [of _ "d - 1"] exI [of _ d]) simp
  qed
qed

lemma find_b1_spec:
  assumes h: "holds_row ns (tt_ref_runs s)" "int (sum_list ns) < 2 ^ 31" and steps: "tt_ref_steps s = int (length ns)"
    and pixel: "pixel_is_black (tt_row_buf s) (int a) = Some (odd k)" and a: "a < sum_list ns" and b: "b \<le> length ns + 1"
  shows "\<exists>b' c. find_b1 s (int a) (int b) = Some (int b') \<and> b' \<le> length ns + 1 \<and> opposite ns (Suc a) k c \<and>
    pos ns (Suc b') = pos ns c \<and> pos ns (Suc (Suc b')) = pos ns (Suc c)"
proof -
  define i where "i = (if odd k then b div 2 * 2 + 1 else b div 2 * 2)"
  have i: "i \<le> length ns + 2" "odd (Suc i + k)" "(if odd k then int b div 2 * 2 + 1 else int b div 2 * 2) = int i"
    using b by (auto simp: i_def zdiv_int)
  have get: "arr_get (tt_ref_runs s) (int i) = Some (of_nat (pos ns (Suc i)))"
    using holds_row_get [OF h(1)] i(1) by simp
  have find: "find_b1 s (int a) (int b) =
      (if a < pos ns (Suc i) then hunt_down (tt_ref_runs s) (int a) (int i) \<bind> (\<lambda>b. Some (b + 2))
       else hunt_up (tt_ref_runs s) (int (length ns)) (int a) (int i) \<bind> (\<lambda>b. Some (if b \<ge> int (length ns) then int (length ns) - 1 else b)))"
    unfolding find_b1_def pixel bind.simps Let_def i(3) get steps by (simp add: sint_pos [OF h(2)])
  show ?thesis
  proof (cases "a < pos ns (Suc i)")
    case True
    then show ?thesis
      unfolding find if_P [OF True] using hunt_down_found [OF h i(1,2) True a] by blast
  next
    case False
    then have "pos ns (Suc i) \<le> a"
      by simp
    then show ?thesis
      unfolding find if_not_P [OF False] using hunt_up_found [OF h i(2) _ a] by blast
  qed
qed

section \<open>Two-dimensional rows\<close>

lemma mode_codes_clear: "list_all (\<lambda>e. fst (snd e) = take_bit (fst e) (fst (snd e))) t4_2d_codes"
  by code_simp

lemma put_mode_code:
  assumes ok: "tt_ok s" and i: "i < 9"
  obtains s' where "put_code s t4_2d_codes (int i) = Some s'" "tt_sent s (code_bits (t4_2d_codes ! i)) s'"
proof -
  have i': "i < length t4_2d_codes"
    using i mode_codes_found(2) by simp
  obtain len code run where e: "t4_2d_codes ! i = (len, code, run)"
    by (cases "t4_2d_codes ! i")
  have "len \<le> 7" "code = take_bit len code"
    using modes_found_nth(2) [OF mode_codes_found(1) i'] mode_codes_clear i' unfolding list_all_length by (auto simp: e)
  then have zero: "\<not> bit code j" if "len \<le> j" for j
    using that bit_take_bit_iff [of len code j] by simp
  have "1 \<le> tt_bytes_per_row s"
    using ok by (simp add: tt_ok_def)
  then have "int len + 7 \<le> 800 * tt_bytes_per_row s" "\<forall>j \<ge> 25. \<not> bit code j" "\<forall>j \<ge> len. \<not> bit code j"
    using \<open>len \<le> 7\<close> zero by auto
  from put_encoded_bits_sent [OF ok this] obtain s' where "put_encoded_bits s code (int len) = Some s'" "tt_sent s (map (bit code) [0..<len]) s'" .
  then show ?thesis
    using that i' by (simp add: put_code_def arr_get_def e code_bits_def)
qed

text \<open>The encoder in the two-dimensional row with the runs \<open>cs\<close> below a row with the runs \<open>ns\<close>.\<close>

definition tx_modes :: "nat \<Rightarrow> nat list \<Rightarrow> nat list \<Rightarrow> t4_tx_state \<Rightarrow> bool" where
  "tx_modes width ns cs s \<longleftrightarrow> tt_ok s \<and> holds_row ns (tt_ref_runs s) \<and> holds_row cs (tt_cur_runs s) \<and> tt_ref_steps s = int (length ns) \<and>
     tt_image_width s = int width \<and> row_runs (tt_row_buf s) width = cs \<and> width \<le> 8 * length (tt_row_buf s) \<and>
     row_ok width ns \<and> row_ok width cs \<and> int width < 2 ^ 31"

lemma tx_modes_sent: "tx_modes width ns cs s \<Longrightarrow> tt_sent s bs s' \<Longrightarrow> tx_modes width ns cs s'"
  by (simp add: tx_modes_def tt_sent_def tt_same_def)

text \<open>The change \<open>c\<close> of the reference row is at the index \<open>b\<close> of the run length buffer.\<close>

definition tx_at :: "nat \<Rightarrow> nat list \<Rightarrow> nat list \<Rightarrow> nat \<Rightarrow> nat \<Rightarrow> nat \<Rightarrow> nat \<Rightarrow> bool" where
  "tx_at width ns cs q k b c \<longleftrightarrow> coding_at cs q k \<and> q \<le> width \<and> opposite ns q k c \<and> b \<le> length ns + 1 \<and>
     pos ns (Suc b) = pos ns c \<and> pos ns (Suc (Suc b)) = pos ns (Suc c)"

text \<open>The result of a round: a mode has been sent, and the coding goes on at \<open>q'\<close>.\<close>

definition mode_sent :: "nat \<Rightarrow> nat list \<Rightarrow> nat list \<Rightarrow> nat \<Rightarrow> nat \<Rightarrow> t4_tx_state \<Rightarrow> (bool \<times> int \<times> int \<times> int \<times> t4_tx_state) option \<Rightarrow> bool" where
  "mode_sent width ns cs q k s r \<longleftrightarrow> (\<exists>m q' k' a1 s'. r = Some (width < q', int (q' - 1), a1, int k', s') \<and> tt_sent s (words_bits (mode_words m)) s' \<and>
     q < q' \<and> coding_at cs q' k' \<and> (q' \<le> width \<longrightarrow> a1 = int (pos cs (Suc k'))) \<and> (\<forall>ms. coded ns cs q' k' ms \<longrightarrow> coded ns cs q k (m # ms)))"

lemma code_2d_b2:
  assumes s: "tx_modes width ns cs s" and at: "tx_at width ns cs q k b c"
  shows "arr_get (tt_ref_runs s) (int b + 1) = Some (of_nat (pos ns (Suc c)))" "sint (of_nat (pos ns (Suc c)) :: u32) = int (pos ns (Suc c))"
proof -
  have "arr_get (tt_ref_runs s) (int (Suc b)) = Some (of_nat (pos ns (Suc (Suc b))))"
    using s at holds_row_get [of ns "tt_ref_runs s" "Suc b"] by (simp add: tx_modes_def tx_at_def)
  then show "arr_get (tt_ref_runs s) (int b + 1) = Some (of_nat (pos ns (Suc c)))"
    using at by (simp add: tx_at_def add.commute)
  show "sint (of_nat (pos ns (Suc c)) :: u32) = int (pos ns (Suc c))"
    using s by (intro sint_pos) (simp add: tx_modes_def row_ok_def)
qed

lemma cur_get:
  assumes "tx_modes width ns cs s" "k < length cs + 3"
  shows "arr_get (tt_cur_runs s) (int k) = Some (of_nat (pos cs (Suc k)))" "sint (of_nat (pos cs (Suc k)) :: u32) = int (pos cs (Suc k))"
  using assms holds_row_get [of cs "tt_cur_runs s" k] sint_pos [of cs "Suc k"] by (simp_all add: tx_modes_def row_ok_def)

text \<open>The change of the row that comes next is looked up if the row is not finished.\<close>

lemma next_change:
  assumes s: "tx_modes width ns cs s" and k: "1 \<le> k"
  shows "(if int (pos cs k) \<ge> tt_image_width s then Some (True, int (pos cs k), a1, int k, s)
      else do {
        let a_cursor = (if int k \<ge> int (length cs) then int (length cs) - 1 else int k);
        a1 \<leftarrow> arr_get (tt_cur_runs s) a_cursor;
        Some (False, int (pos cs k), sint a1, a_cursor, s)
      }) = Some (width < Suc (pos cs k), int (Suc (pos cs k) - 1), if width < Suc (pos cs k) then a1 else int (pos cs (Suc k)), int k, s)"
proof (cases "width \<le> pos cs k")
  case True
  then show ?thesis
    using s by (simp add: tx_modes_def)
next
  case False
  have "k < length cs"
    using False pos_all [of cs k] s by (cases "length cs \<le> k") (auto simp: tx_modes_def row_ok_def)
  then show ?thesis
    using False s cur_get [OF s, of k] by (simp add: tx_modes_def)
qed

lemma vertical_sent:
  assumes s: "tx_modes width ns cs s" and at: "tx_at width ns cs q k b c" and m: "pos cs (Suc k) \<le> pos ns (Suc c)" "\<bar>int (pos ns c) - int (pos cs (Suc k))\<bar> \<le> 3"
  shows "mode_sent width ns cs q k s (code_2d (int (length cs)) a0 (int (pos cs (Suc k))) (int (pos ns c)) (int k) (int b) s)"
proof -
  let ?d = "int (pos cs (Suc k)) - int (pos ns c)"
  have a: "coding_at cs q k" "q \<le> sum_list cs" "row_ok width cs" "opposite ns q k c" "q \<le> width"
    using s at by (simp_all add: tx_at_def tx_modes_def row_ok_def)
  have i: "nat (3 - ?d) < 9" "int (nat (3 - ?d)) = int (pos ns c) - int (pos cs (Suc k)) + 3"
    using m(2) by auto
  obtain s1 where s1: "put_code s t4_2d_codes (int (nat (3 - ?d))) = Some s1" "tt_sent s (code_bits (t4_2d_codes ! nat (3 - ?d))) s1"
    using put_mode_code [OF _ i(1)] s unfolding tx_modes_def by metis
  have kk: "int k + 1 = int (Suc k)" "1 \<le> Suc k" and le: "int (pos cs (Suc k)) \<le> sint (of_nat (pos ns (Suc c)) :: u32)"
    using m(1) unfolding code_2d_b2(2) [OF s at] by simp_all
  note next1 = next_change [OF tx_modes_sent [OF s s1(2)] kk(2)]
  have "code_2d (int (length cs)) a0 (int (pos cs (Suc k))) (int (pos ns c)) (int k) (int b) s =
      Some (width < Suc (pos cs (Suc k)), int (Suc (pos cs (Suc k)) - 1),
        if width < Suc (pos cs (Suc k)) then int (pos cs (Suc k)) else int (pos cs (Suc (Suc k))), int (Suc k), s1)"
    unfolding code_2d_def code_2d_b2(1) [OF s at]
    by (simp only: bind.simps le m(2) if_True s1(1) [unfolded i(2)] prod.case kk next1)
  moreover have "tt_sent s (words_bits (mode_words (Vertical ?d))) s1"
    using s1(2) by simp
  moreover have "q < Suc (pos cs (Suc k))" "coding_at cs (Suc (pos cs (Suc k))) (Suc k)"
    using coding_at_bounds(2) [OF a(1-3)] coding_at_run [OF a(3)] by simp_all
  moreover have "coded ns cs q k (Vertical ?d # ms)" if "coded ns cs (Suc (pos cs (Suc k))) (Suc k) ms" for ms
    using coded_vertical [OF a(2,4) m that] .
  ultimately show ?thesis
    unfolding mode_sent_def
    by (intro exI [of _ "Vertical ?d"] exI [of _ "Suc (pos cs (Suc k))"] exI [of _ "Suc k"]
        exI [of _ "if width < Suc (pos cs (Suc k)) then int (pos cs (Suc k)) else int (pos cs (Suc (Suc k)))"] exI [of _ s1]) auto
qed

lemma pass_sent:
  assumes s: "tx_modes width ns cs s" and at: "tx_at width ns cs q k b c" and m: "pos ns (Suc c) < pos cs (Suc k)"
  shows "mode_sent width ns cs q k s (code_2d (int (length cs)) a0 (int (pos cs (Suc k))) (int (pos ns c)) (int k) (int b) s)"
proof -
  have a: "coding_at cs q k" "q \<le> sum_list cs" "row_ok width cs" "opposite ns q k c" "q \<le> width"
    using s at by (simp_all add: tx_at_def tx_modes_def row_ok_def)
  obtain s1 where s1: "put_code s t4_2d_codes (int 8) = Some s1" "tt_sent s (code_bits (t4_2d_codes ! 8)) s1"
    using put_mode_code [of s 8] s unfolding tx_modes_def by auto
  have less: "pos ns (Suc c) < width"
    using m pos_bound [of cs "Suc k"] a(3) by (simp add: row_ok_def)
  have q: "q \<le> pos ns (Suc c)"
    using a(4) pos_mono [of c "Suc c" ns] by (simp add: opposite_def)
  have "code_2d (int (length cs)) a0 (int (pos cs (Suc k))) (int (pos ns c)) (int k) (int b) s =
      Some (width < Suc (pos ns (Suc c)), int (Suc (pos ns (Suc c)) - 1), int (pos cs (Suc k)), int k, s1)"
    unfolding code_2d_def code_2d_b2 [OF s at] bind.simps using m s1 less s by (simp add: tx_modes_def tt_sent_def tt_same_def)
  moreover have "tt_sent s (words_bits (mode_words Pass)) s1"
    using s1(2) by simp
  moreover have "q < Suc (pos ns (Suc c))" "coding_at cs (Suc (pos ns (Suc c))) k"
    using q coding_at_pass [OF a(1) q m] by simp_all
  moreover have "coded ns cs q k (Pass # ms)" if "coded ns cs (Suc (pos ns (Suc c))) k ms" for ms
    using coded_pass [OF a(2,4) m that] .
  ultimately show ?thesis
    unfolding mode_sent_def
    by (intro exI [of _ Pass] exI [of _ "Suc (pos ns (Suc c))"] exI [of _ k] exI [of _ "int (pos cs (Suc k))"] exI [of _ s1]) auto
qed

text \<open>The colour at the position of the coding is that of its run.\<close>

lemma colour_at:
  assumes s: "tx_modes width ns cs s" and at: "coding_at cs q k" "1 \<le> q" "q \<le> width"
  shows "pixel_is_black (tt_row_buf s) (int (q - 1)) = Some (odd k)"
proof -
  have f: "row_runs (tt_row_buf s) width = cs" "width \<le> 8 * length (tt_row_buf s)" "row_ok width cs" "q \<le> sum_list cs"
    using s at(3) by (simp_all add: tx_modes_def row_ok_def)
  have "pos cs k \<le> q - 1" "q - 1 < pos cs (Suc k)"
    using coding_at_bounds [OF at(1) f(4,3)] at(2) by auto
  then show ?thesis
    using row_colour [of "tt_row_buf s" width k "q - 1"] f(1,2) by simp
qed

lemma span_colour:
  assumes s: "tx_modes width ns cs s" and at: "coding_at cs q k" "q \<le> width"
  shows "(if int (q - 1) + int (pos cs (Suc k)) = 0 then Some False else pixel_is_black (tt_row_buf s) (int (q - 1))) = Some (odd k)"
proof -
  have cs: "row_ok width cs" "q \<le> sum_list cs"
    using s at(2) by (simp_all add: tx_modes_def row_ok_def)
  note f = coding_at_bounds [OF at(1) cs(2,1)]
  consider (empty) "pos cs (Suc k) = 0" | (start) "pos cs (Suc k) \<noteq> 0" "q = 0" | (inside) "pos cs (Suc k) \<noteq> 0" "1 \<le> q"
    by (cases "q = 0") auto
  then show ?thesis
  proof cases
    case empty
    then have "k = 0"
      using pos_strict [OF cs(1), of k] f(1) by (cases k) auto
    then show ?thesis
      using empty f(2) by simp
  next
    case start
    have "pixel_is_black (tt_row_buf s) (int 0) = Some (odd (0 :: nat))"
      using row_colour [of "tt_row_buf s" width 0 0] start f(4) s by (simp add: tx_modes_def)
    then show ?thesis
      using start f(4) by simp
  next
    case inside
    then show ?thesis
      using colour_at [OF s at(1) _ at(2)] by simp
  qed
qed

lemma horizontal_sent:
  assumes s: "tx_modes width ns cs s" and at: "tx_at width ns cs q k b c" and m: "pos cs (Suc k) \<le> pos ns (Suc c)" "3 < \<bar>int (pos ns c) - int (pos cs (Suc k))\<bar>"
  shows "mode_sent width ns cs q k s (code_2d (int (length cs)) (int (q - 1)) (int (pos cs (Suc k))) (int (pos ns c)) (int k) (int b) s)"
proof -
  let ?a1 = "pos cs (Suc k)" and ?a2 = "pos cs (k + 2)"
  let ?h = "Horizontal (odd k) (?a1 - (q - 1)) (?a2 - ?a1)"
  have a: "coding_at cs q k" "q \<le> sum_list cs" "row_ok width cs" "opposite ns q k c" "q \<le> width"
    using s at by (simp_all add: tx_at_def tx_modes_def row_ok_def)
  note f = coding_at_bounds [OF a(1-3)]
  have get: "arr_get (tt_cur_runs s) (int k + 1) = Some (of_nat ?a2)" "sint (of_nat ?a2 :: u32) = int ?a2"
    using cur_get [OF s, of "Suc k"] f(1) by (simp_all add: add.commute)
  have d: "int ?a1 - int (q - 1) = int (?a1 - (q - 1))" "int ?a2 - int ?a1 = int (?a2 - ?a1)"
    using f(2) pos_mono [of "Suc k" "k + 2" cs] by (simp_all add: of_nat_diff)
  obtain s1 where s1: "put_code s t4_2d_codes (int 7) = Some s1" "tt_sent s (code_bits (t4_2d_codes ! 7)) s1"
    using put_mode_code [of s 7] s unfolding tx_modes_def by auto
  have s1': "tx_modes width ns cs s1"
    using tx_modes_sent [OF s s1(2)] .
  obtain s2 where s2: "put_1d_span s1 (int (?a1 - (q - 1))) (t4_run_codes (odd k)) = Some s2" "tt_sent s1 (words_bits (span_words (odd k) (?a1 - (q - 1)))) s2"
    using put_1d_span_sent [of s1] s1' unfolding tx_modes_def by blast
  have s2': "tx_modes width ns cs s2"
    using tx_modes_sent [OF s1' s2(2)] .
  obtain s3 where s3: "put_1d_span s2 (int (?a2 - ?a1)) (t4_run_codes (\<not> odd k)) = Some s3" "tt_sent s2 (words_bits (span_words (\<not> odd k) (?a2 - ?a1))) s3"
    using put_1d_span_sent [of s2] s2' unfolding tx_modes_def by blast
  have s3': "tx_modes width ns cs s3"
    using tx_modes_sent [OF s2' s3(2)] .
  note black = span_colour [OF s1' a(1,5)]
  have tabs: "(if odd k then t4_black_codes else t4_white_codes) = t4_run_codes (odd k)" "(if odd k then t4_white_codes else t4_black_codes) = t4_run_codes (\<not> odd k)"
    by (simp_all add: t4_run_codes_def)
  have kk: "int k + 2 = int (k + 2)" "1 \<le> k + 2" and le: "int ?a1 \<le> sint (of_nat (pos ns (Suc c)) :: u32)"
    using m(1) unfolding code_2d_b2(2) [OF s at] by simp_all
  have not_v: "(\<bar>int (pos ns c) - int ?a1\<bar> \<le> 3) = False"
    using m(2) by simp
  note next1 = next_change [OF s3' kk(2)]
  have "code_2d (int (length cs)) (int (q - 1)) (int ?a1) (int (pos ns c)) (int k) (int b) s =
      Some (width < Suc ?a2, int (Suc ?a2 - 1), if width < Suc ?a2 then int ?a1 else int (pos cs (Suc (k + 2))), int (k + 2), s3)"
    unfolding code_2d_def code_2d_b2(1) [OF s at]
    by (simp only: bind.simps le not_v if_True if_False get s1(1) [unfolded of_nat_numeral] black d tabs s2(1) s3(1) prod.case kk next1)
  moreover have "tt_sent s (words_bits (mode_words ?h)) s3"
    using tt_sent_trans [OF s1(2) tt_sent_trans [OF s2(2) s3(2)]] by simp
  moreover have "q < Suc ?a2" "coding_at cs (Suc ?a2) (k + 2)"
    using f(2) pos_mono [of "Suc k" "k + 2" cs] coding_at_run [OF a(3), of "k + 2"] by simp_all
  moreover have "coded ns cs q k (?h # ms)" if "coded ns cs (Suc ?a2) (k + 2) ms" for ms
    using coded_horizontal [OF a(2,4) m that] .
  ultimately show ?thesis
    unfolding mode_sent_def
    by (intro exI [of _ ?h] exI [of _ "Suc ?a2"] exI [of _ "k + 2"]
        exI [of _ "if width < Suc ?a2 then int ?a1 else int (pos cs (Suc (k + 2)))"] exI [of _ s3]) auto
qed

lemma codes_2d_sent:
  assumes "tx_modes width ns cs s" "tx_at width ns cs q k b c"
  shows "\<exists>ms s'. codes_2d (int (length cs)) (int (q - 1)) (int (pos cs (Suc k))) (int (pos ns c)) (int k) (int b) s = Some s' \<and>
    coded ns cs q k ms \<and> tt_sent s (modes_bits ms) s'"
  using assms
proof (induction "Suc width - q" arbitrary: s q k b c rule: less_induct)
  case less
  have "mode_sent width ns cs q k s (code_2d (int (length cs)) (int (q - 1)) (int (pos cs (Suc k))) (int (pos ns c)) (int k) (int b) s)"
    using vertical_sent [OF less.prems] horizontal_sent [OF less.prems] pass_sent [OF less.prems] by (meson not_le)
  then obtain m q' k' a1 s1 where r: "code_2d (int (length cs)) (int (q - 1)) (int (pos cs (Suc k))) (int (pos ns c)) (int k) (int b) s =
      Some (width < q', int (q' - 1), a1, int k', s1)" "tt_sent s (words_bits (mode_words m)) s1" "q < q'" "coding_at cs q' k'"
    "q' \<le> width \<longrightarrow> a1 = int (pos cs (Suc k'))" "\<And>ms. coded ns cs q' k' ms \<Longrightarrow> coded ns cs q k (m # ms)"
    unfolding mode_sent_def by blast
  have s1: "tx_modes width ns cs s1"
    using tx_modes_sent [OF less.prems(1) r(2)] .
  have sums: "sum_list cs = width" "sum_list ns = width" "int width < 2 ^ 31"
    using s1 by (simp_all add: tx_modes_def row_ok_def)
  show ?case
  proof (cases "width < q'")
    case True
    then have "codes_2d (int (length cs)) (int (q - 1)) (int (pos cs (Suc k))) (int (pos ns c)) (int k) (int b) s = Some s1"
      using r(1) by (subst codes_2d.simps) simp
    moreover have "coded ns cs q k [m]"
      using r(6) [OF coded_end] True sums(1) by simp
    moreover have "tt_sent s (modes_bits [m]) s1"
      using r(2) by simp
    ultimately show ?thesis
      by blast
  next
    case False
    then have q': "q' \<le> width" "1 \<le> q'" "q' - 1 < sum_list ns" "Suc (q' - 1) = q'"
      using r(3) sums(2) by simp_all
    have ref: "holds_row ns (tt_ref_runs s1)" "int (sum_list ns) < 2 ^ 31" "tt_ref_steps s1 = int (length ns)" and b: "b \<le> length ns + 1"
      using s1 less.prems(2) sums by (simp_all add: tx_modes_def tx_at_def)
    from find_b1_spec [OF ref colour_at [OF s1 r(4) q'(2,1)] q'(3) b] obtain b' c' where
      f: "find_b1 s1 (int (q' - 1)) (int b) = Some (int b')" "b' \<le> length ns + 1" "opposite ns q' k' c'" "pos ns (Suc b') = pos ns c'"
        "pos ns (Suc (Suc b')) = pos ns (Suc c')"
      unfolding q'(4) by blast
    have at': "tx_at width ns cs q' k' b' c'"
      using f(2-5) r(4) q'(1) by (simp add: tx_at_def)
    have "arr_get (tt_ref_runs s1) (int b') = Some (of_nat (pos ns c'))" "sint (of_nat (pos ns c') :: u32) = int (pos ns c')"
      using holds_row_get [OF ref(1), of b'] f(2,4) sint_pos [OF ref(2)] by simp_all
    then have step: "codes_2d (int (length cs)) (int (q - 1)) (int (pos cs (Suc k))) (int (pos ns c)) (int k) (int b) s =
        codes_2d (int (length cs)) (int (q' - 1)) (int (pos cs (Suc k'))) (int (pos ns c')) (int k') (int b') s1"
      using False r(1,5) f(1) q'(1) by (subst codes_2d.simps) simp
    have "Suc width - q' < Suc width - q"
      using r(3) q'(1) by simp
    from less.hyps [OF this s1 at'] obtain ms s' where "codes_2d (int (length cs)) (int (q' - 1)) (int (pos cs (Suc k'))) (int (pos ns c')) (int k') (int b') s1 = Some s'"
      "coded ns cs q' k' ms" "tt_sent s1 (modes_bits ms) s'"
      by blast
    then show ?thesis
      unfolding step using r(6) [of ms] tt_sent_trans [OF r(2), of "modes_bits ms" s'] by (intro exI [of _ "m # ms"] exI [of _ s']) simp
  qed
qed

lemma row_ok_runs: "0 < width \<Longrightarrow> width \<le> 8 * length row \<Longrightarrow> row_ok width (row_runs row width)"
  using sum_row_runs [of width row] row_runs_positive [of row width] by (auto simp: row_ok_def)

lemma encode_2d_row_sent:
  assumes ok: "tt_ok s" and w: "tt_image_width s = int width" "0 < width" "int width < 2 ^ 31" and row: "width \<le> 8 * length (tt_row_buf s)"
    and runs: "width + 4 \<le> length (tt_cur_runs s)" and prev: "width \<le> 8 * length prev" "stretched (row_changes prev width) (tt_ref_runs s)"
      "tt_ref_steps s = int (length (row_changes prev width))"
  obtains ms s' where "encode_2d_row s = Some s'" "coded (row_runs prev width) (row_runs (tt_row_buf s) width) 0 0 ms" "row_sent width s (modes_bits ms) s'"
proof -
  let ?ch = "row_changes (tt_row_buf s) width" and ?ns = "row_runs prev width" and ?cs = "row_runs (tt_row_buf s) width"
  obtain l l' where l: "row_to_run_lengths (tt_cur_runs s) (tt_row_buf s) (int width) = Some (int (length ?ch), l)"
    "stretch_runs l (int (length ?ch)) = Some l'" "length l' = length (tt_cur_runs s)" "stretched ?ch l'"
    using row_changes_stretched [OF w(2,3) row runs] by metis
  let ?s = "s\<lparr>tt_cur_runs := l'\<rparr>"
  have ns: "row_ok width ?ns" "row_ok width ?cs" "holds_row ?ns (tt_ref_runs s)" "holds_row ?cs l'"
    using row_ok_runs w(2) prev(1) row stretched_holds_row [OF prev(2)] stretched_holds_row [OF l(4)] by simp_all
  have modes: "tx_modes width ?ns ?cs ?s"
    using ok ns w row prev(3) by (simp add: tx_modes_def length_row_changes tt_ok_def)
  have at: "tx_at width ?ns ?cs 0 0 0 1"
    using opposite_start [of ?ns] ns(1) by (simp add: tx_at_def coding_at_start row_ok_def)
  have sums: "int (sum_list ?ns) < 2 ^ 31" "int (sum_list ?cs) < 2 ^ 31"
    using ns(1,2) w(3) by (simp_all add: row_ok_def)
  have first: "arr_get l' 0 = Some (of_nat (pos ?cs 1))" "arr_get (tt_ref_runs s) 0 = Some (of_nat (pos ?ns 1))"
    using holds_row_get [OF ns(4), of 0] holds_row_get [OF ns(3), of 0] by simp_all
  obtain ms s1 where s1: "codes_2d (int (length ?ch)) 0 (int (pos ?cs 1)) (int (pos ?ns 1)) 0 0 ?s = Some s1" "coded ?ns ?cs 0 0 ms" "tt_sent ?s (modes_bits ms) s1"
    using codes_2d_sent [OF modes at] by (auto simp: length_row_changes)
  let ?s' = "s1\<lparr>tt_ref_steps := int (length ?ch), tt_cur_runs := tt_ref_runs s1, tt_ref_runs := tt_cur_runs s1\<rparr>"
  have "encode_2d_row s = Some ?s'"
    using l(1,2) first s1(1) sint_pos [OF sums(1), of 1] sint_pos [OF sums(2), of 1] w(1) by (simp add: encode_2d_row_def)
  moreover have "row_sent width s (modes_bits ms) ?s'"
    using s1(3) l(3,4)
    by (simp add: row_sent_def tt_sent_def tt_ok_def tt_same_def tt_kept_def tt_line_def pending_bits_def min.commute)
  ultimately show ?thesis
    using that s1(2) by blast
qed

end
