(* ===== verification/T4_Tx_Page.thy ===== *)
theory T4_Tx_Page
  imports T4_Tx_Modes
begin

text \<open>
  The line format of a page in T.4 coding as a specification, one- and two-dimensional, and the encoder of
  \<^verbatim>\<open>t4_tx.c\<close> against it.
\<close>

section \<open>The line\<close>

text \<open>The bits of a row that follows the row \<open>prev\<close>, in two-dimensional coding if \<open>d\<close> holds.\<close>

definition row_bits_1d :: "octets \<Rightarrow> nat \<Rightarrow> bits" where
  "row_bits_1d row width = words_bits (runs_words False (row_runs row width))"

definition row_line :: "nat \<Rightarrow> octets \<Rightarrow> bool \<Rightarrow> octets \<Rightarrow> bits \<Rightarrow> bool" where
  "row_line width prev d row bs \<longleftrightarrow>
     (if d then \<exists>ms. coded (row_runs prev width) (row_runs row width) 0 0 ms \<and> bs = modes_bits ms else bs = row_bits_1d row width)"

text \<open>
  Rows, each followed by some fill and an EOL, whose tag bit tells how the next row is coded; that of the last EOL is
  one. In one-dimensional coding there are no two-dimensional rows.
\<close>

inductive rows_line :: "int \<Rightarrow> nat \<Rightarrow> octets \<Rightarrow> bool \<Rightarrow> octets list \<Rightarrow> bits \<Rightarrow> bool" for c width where
  rows_line_end: "rows_line c width prev False [] []"
| rows_line_row: "(d \<longrightarrow> c = T4_COMPRESSION_ITU_T4_2D) \<Longrightarrow> row_line width prev d row bs \<Longrightarrow> rows_line c width row d' rows l \<Longrightarrow>
    rows_line c width prev d (row # rows) (bs @ replicate k False @ eol_tag c (\<not> d') @ l)"

definition eols_line :: "int \<Rightarrow> nat \<Rightarrow> bits" where
  "eols_line c n = concat (replicate n (eol_tag c True))"

lemma eols_line_simps [simp]: "eols_line c 0 = []" "eols_line c (Suc n) = eol_tag c True @ eols_line c n"
  by (simp_all add: eols_line_def)

section \<open>Rows\<close>

text \<open>A state in which rows of \<open>width\<close> pixels can be sent, after the row \<open>prev\<close>.\<close>

definition tt_page :: "int \<Rightarrow> nat \<Rightarrow> octets \<Rightarrow> t4_tx_state \<Rightarrow> bool" where
  "tt_page c width prev s \<longleftrightarrow> tt_ok s \<and> tt_line_encoding s = c \<and> page_coding c \<and> tt_min_bits_per_row s + 7 \<le> 800 * tt_bytes_per_row s \<and>
     tt_image_width s = int width \<and> 0 < width \<and> int width < 2 ^ 31 \<and> tt_bytes_per_row s = int (length (tt_row_buf s)) \<and>
     width \<le> 8 * length (tt_row_buf s) \<and> width + 4 \<le> min (length (tt_cur_runs s)) (length (tt_ref_runs s)) \<and> 0 \<le> tt_row_bits s \<and>
     (c = T4_COMPRESSION_ITU_T4_1D \<longrightarrow> \<not> tt_row_is_2d s) \<and>
     (tt_row_is_2d s \<longrightarrow> width \<le> 8 * length prev \<and> stretched (row_changes prev width) (tt_ref_runs s) \<and>
        tt_ref_steps s = int (length (row_changes prev width)))"

lemma mem_write_row: "length row = length buf \<Longrightarrow> mem_write buf 0 row = Some row"
  by (simp add: mem_write_def)

lemma page_eol:
  assumes "tt_page c width prev s"
  obtains s' k where "encode_eol s = Some s'" "tt_page c width prev s'" "tt_same s s'" "tt_line s' = tt_line s @ replicate k False @ eol_tag c (\<not> tt_row_is_2d s)"
    "tt_row_bits s' = 0" "tt_row_bits s = 0 \<longrightarrow> k = 0"
proof -
  have "tt_ok s" "page_coding (tt_line_encoding s)" "tt_min_bits_per_row s + 7 \<le> 800 * tt_bytes_per_row s" "0 \<le> tt_row_bits s"
    using assms by (simp_all add: tt_page_def)
  from encode_eol_sent [OF this] obtain s' k where s': "encode_eol s = Some s'" "tt_ok s'" "tt_same s s'"
    "tt_line s' = tt_line s @ replicate k False @ eol_tag (tt_line_encoding s) (\<not> tt_row_is_2d s)" "tt_row_bits s' = 0" "tt_row_bits s = 0 \<longrightarrow> k = 0" .
  moreover have "tt_page c width prev s'"
    using assms s'(2,3,5) by (simp add: tt_page_def tt_same_def)
  ultimately show ?thesis
    using that assms by (simp add: tt_page_def)
qed

text \<open>A row, in the coding that the state has for it.\<close>

lemma page_row:
  assumes "tt_page c width prev s"
  obtains bs s' where "(if tt_row_is_2d s then encode_2d_row s else encode_1d_row s) = Some s'" "row_line width prev (tt_row_is_2d s) (tt_row_buf s) bs"
    "row_sent width s bs s'"
proof (cases "tt_row_is_2d s")
  case True
  have "tt_ok s" "tt_image_width s = int width" "0 < width" "int width < 2 ^ 31" "width \<le> 8 * length (tt_row_buf s)" "width + 4 \<le> length (tt_cur_runs s)"
    "width \<le> 8 * length prev" "stretched (row_changes prev width) (tt_ref_runs s)" "tt_ref_steps s = int (length (row_changes prev width))"
    using assms True by (simp_all add: tt_page_def)
  from encode_2d_row_sent [OF this] obtain ms s' where "encode_2d_row s = Some s'" "coded (row_runs prev width) (row_runs (tt_row_buf s) width) 0 0 ms"
    "row_sent width s (modes_bits ms) s'" .
  then show ?thesis
    using that True by (auto simp: row_line_def)
next
  case False
  have "tt_ok s" "tt_image_width s = int width" "0 < width" "int width < 2 ^ 31" "width \<le> 8 * length (tt_row_buf s)" "width + 4 \<le> length (tt_ref_runs s)"
    using assms by (simp_all add: tt_page_def)
  from encode_1d_row_sent [OF this] show ?thesis
    using that False by (auto simp: row_line_def row_bits_1d_def)
qed

lemma row_sent_page:
  assumes s: "tt_page c width prev s" "row_sent width s bs s'" and s'': "tt_ok s''" "tt_row_bits s'' = tt_row_bits s'" "tt_line_encoding s'' = tt_line_encoding s'"
    "tt_bytes_per_row s'' = tt_bytes_per_row s'" "tt_image_width s'' = tt_image_width s'" "tt_cur_runs s'' = tt_cur_runs s'" "tt_ref_runs s'' = tt_ref_runs s'"
    "tt_ref_steps s'' = tt_ref_steps s'" "tt_row_buf s'' = tt_row_buf s'" "tt_min_bits_per_row s'' = tt_min_bits_per_row s'"
    and d: "c = T4_COMPRESSION_ITU_T4_1D \<longrightarrow> \<not> tt_row_is_2d s''"
  shows "tt_page c width (tt_row_buf s) s''"
  using assms by (simp add: tt_page_def row_sent_def tt_kept_def)

text \<open>After the row, the coding of the next row is decided.\<close>

lemma encode_row_next:
  assumes "tt_line_encoding s = c" "page_coding c" "encode_eol s = Some s1" "c = T4_COMPRESSION_ITU_T4_1D \<longrightarrow> \<not> tt_row_is_2d s1"
    "(if tt_row_is_2d s1 then encode_2d_row s1 else encode_1d_row s1) = Some s2" "tt_row_is_2d s2 = tt_row_is_2d s1"
  shows "\<exists>x y z. encode_row s = Some (s2\<lparr>tt_row_is_2d := x, tt_rows_to_next_1d_row := y, tt_row := z\<rparr>) \<and> (c = T4_COMPRESSION_ITU_T4_1D \<longrightarrow> \<not> x)"
proof (cases "c = T4_COMPRESSION_ITU_T4_2D")
  case True
  let ?n = "tt_rows_to_next_1d_row s2 - (if tt_row_is_2d s1 then 1 else 0)"
  have "encode_row s = Some (if ?n \<le> 0
      then s2\<lparr>tt_row_is_2d := False, tt_rows_to_next_1d_row := tt_max_rows_to_next_1d_row s2 - 1, tt_row := tt_row s2 + 1\<rparr>
      else s2\<lparr>tt_row_is_2d := True, tt_rows_to_next_1d_row := ?n, tt_row := tt_row s2 + 1\<rparr>)"
    using assms True by (cases "tt_row_is_2d s1") (simp_all add: encode_row_def)
  then show ?thesis
    using True
    by (intro exI [of _ "\<not> ?n \<le> 0"] exI [of _ "if ?n \<le> 0 then tt_max_rows_to_next_1d_row s2 - 1 else ?n"] exI [of _ "tt_row s2 + 1"]) simp
next
  case False
  then have "\<not> tt_row_is_2d s1" "c = T4_COMPRESSION_ITU_T4_1D"
    using assms(2,4) by (auto simp: page_coding_def)
  then show ?thesis
    using assms
    by (intro exI [of _ "tt_row_is_2d s2"] exI [of _ "tt_rows_to_next_1d_row s2"] exI [of _ "tt_row s2 + 1"]) (simp add: encode_row_def)
qed

text \<open>The EOL before a row, and the row.\<close>

lemma encode_row_line:
  assumes s: "tt_page c width prev s"
  shows "\<exists>s' k bs. encode_row s = Some s' \<and> tt_page c width (tt_row_buf s) s' \<and> tt_row_buf s' = tt_row_buf s \<and> row_line width prev (tt_row_is_2d s) (tt_row_buf s) bs \<and>
    tt_line s' = tt_line s @ replicate k False @ eol_tag c (\<not> tt_row_is_2d s) @ bs \<and> (tt_row_bits s = 0 \<longrightarrow> k = 0)"
proof -
  obtain s1 k where s1: "encode_eol s = Some s1" "tt_page c width prev s1" "tt_same s s1" "tt_line s1 = tt_line s @ replicate k False @ eol_tag c (\<not> tt_row_is_2d s)"
    "tt_row_bits s = 0 \<longrightarrow> k = 0"
    using page_eol [OF s] by metis
  obtain bs s2 where s2: "(if tt_row_is_2d s1 then encode_2d_row s1 else encode_1d_row s1) = Some s2" "row_line width prev (tt_row_is_2d s1) (tt_row_buf s1) bs"
    "row_sent width s1 bs s2"
    using page_row [OF s1(2)] .
  have same: "tt_row_is_2d s1 = tt_row_is_2d s" "tt_row_buf s1 = tt_row_buf s" "tt_row_buf s2 = tt_row_buf s" "tt_line s2 = tt_line s1 @ bs"
    using s1(3) s2(3) by (simp_all add: tt_same_def row_sent_def tt_kept_def)
  have ok2: "tt_ok s2" "tt_row_is_2d s2 = tt_row_is_2d s1"
    using s2(3) by (simp_all add: row_sent_def tt_kept_def)
  have "tt_line_encoding s = c" "page_coding c" "c = T4_COMPRESSION_ITU_T4_1D \<longrightarrow> \<not> tt_row_is_2d s1"
    using s s1(2) by (simp_all add: tt_page_def)
  from encode_row_next [OF this(1,2) s1(1) this(3) s2(1) ok2(2)]
  obtain x y z where r: "encode_row s = Some (s2\<lparr>tt_row_is_2d := x, tt_rows_to_next_1d_row := y, tt_row := z\<rparr>)" "c = T4_COMPRESSION_ITU_T4_1D \<longrightarrow> \<not> x"
    by blast
  let ?s' = "s2\<lparr>tt_row_is_2d := x, tt_rows_to_next_1d_row := y, tt_row := z\<rparr>"
  have "tt_page c width (tt_row_buf s1) ?s'"
    using ok2(1) r(2) by (intro row_sent_page [OF s1(2) s2(3)]) (simp_all add: tt_ok_def)
  moreover have "tt_line ?s' = tt_line s2"
    by (simp add: tt_line_def pending_bits_def)
  ultimately show ?thesis
    using r(1) s2(2) s1(4,5) same by (intro exI [of _ ?s'] exI [of _ k] exI [of _ bs]) simp
qed

section \<open>Pages\<close>

lemma encode_eols_line:
  assumes "tt_page c width prev s" "\<not> tt_row_is_2d s"
  shows "\<exists>s' k. encode_eols (Suc n) s = Some s' \<and> tt_ok s' \<and> (tt_row_bits s = 0 \<longrightarrow> k = 0) \<and>
    tt_line s' = tt_line s @ replicate k False @ eol_tag c True @ eols_line c n"
  using assms
proof (induction n arbitrary: s)
  case 0
  then show ?case
    using page_eol [OF 0(1)] by (fastforce simp: tt_page_def)
next
  case (Suc n)
  obtain s1 k where s1: "encode_eol s = Some s1" "tt_page c width prev s1" "tt_same s s1" "tt_line s1 = tt_line s @ replicate k False @ eol_tag c True"
    "tt_row_bits s1 = 0" "tt_row_bits s = 0 \<longrightarrow> k = 0"
    using page_eol [OF Suc.prems(1)] Suc.prems(2) by metis
  have "\<not> tt_row_is_2d s1"
    using Suc.prems(2) s1(3) by (simp add: tt_same_def)
  from Suc.IH [OF s1(2) this] s1(5) obtain s' where "encode_eols (Suc n) s1 = Some s'" "tt_ok s'" "tt_line s' = tt_line s1 @ eol_tag c True @ eols_line c n"
    by auto
  then show ?case
    using s1(1,4,6) by (intro exI [of _ s'] exI [of _ k]) simp
qed

lemma encode_rows_line:
  assumes "tt_page c width prev s" "\<forall>row\<in>set rows. length row = length (tt_row_buf s)"
  shows "\<exists>s1 s2 k l. encode_rows rows s = Some s1 \<and> encode_eols (Suc n) (s1\<lparr>tt_image_length := i, tt_row_is_2d := False\<rparr>) = Some s2 \<and>
    tt_line_encoding s1 = c \<and> tt_ok s2 \<and> (tt_row_bits s = 0 \<longrightarrow> k = 0) \<and> rows_line c width prev (rows \<noteq> [] \<and> tt_row_is_2d s) rows l \<and>
    tt_line s2 = tt_line s @ replicate k False @ eol_tag c (\<not> (rows \<noteq> [] \<and> tt_row_is_2d s)) @ l @ eols_line c n"
  using assms
proof (induction rows arbitrary: s prev)
  case Nil
  let ?s = "s\<lparr>tt_image_length := i, tt_row_is_2d := False\<rparr>"
  have "tt_page c width prev ?s"
    using Nil.prems(1) by (simp add: tt_page_def tt_ok_def)
  from encode_eols_line [OF this, of n] obtain s' k where "encode_eols (Suc n) ?s = Some s'" "tt_ok s'" "tt_row_bits s = 0 \<longrightarrow> k = 0"
    "tt_line s' = tt_line s @ replicate k False @ eol_tag c True @ eols_line c n"
    by (auto simp: tt_line_def pending_bits_def)
  then show ?case
    using Nil.prems(1) by (intro exI [of _ s] exI [of _ s'] exI [of _ k] exI [of _ "[]"]) (simp add: rows_line_end tt_page_def)
next
  case (Cons row rows)
  let ?s = "s\<lparr>tt_row_buf := row\<rparr>"
  have buf: "mem_write (tt_row_buf s) 0 row = Some row"
    using Cons.prems(2) by (intro mem_write_row) simp
  have "tt_page c width prev ?s"
    using Cons.prems by (simp add: tt_page_def tt_ok_def)
  from encode_row_line [OF this] obtain s1 k bs where s1: "encode_row ?s = Some s1" "tt_page c width row s1" "tt_row_buf s1 = row"
    "row_line width prev (tt_row_is_2d s) row bs" "tt_line s1 = tt_line s @ replicate k False @ eol_tag c (\<not> tt_row_is_2d s) @ bs" "tt_row_bits s = 0 \<longrightarrow> k = 0"
    by (auto simp: tt_line_def pending_bits_def)
  let ?d = "rows \<noteq> [] \<and> tt_row_is_2d s1"
  have "\<forall>r\<in>set rows. length r = length (tt_row_buf s1)"
    using Cons.prems(2) s1(3) by simp
  from Cons.IH [OF s1(2) this] obtain s2 s3 j l where s3: "encode_rows rows s1 = Some s2"
    "encode_eols (Suc n) (s2\<lparr>tt_image_length := i, tt_row_is_2d := False\<rparr>) = Some s3" "tt_line_encoding s2 = c" "tt_ok s3"
    "rows_line c width row ?d rows l" "tt_line s3 = tt_line s1 @ replicate j False @ eol_tag c (\<not> ?d) @ l @ eols_line c n"
    by blast
  have "tt_row_is_2d s \<longrightarrow> c = T4_COMPRESSION_ITU_T4_2D"
    using Cons.prems(1) by (auto simp: tt_page_def page_coding_def)
  from rows_line_row [OF this s1(4) s3(5)] have "rows_line c width prev (tt_row_is_2d s) (row # rows) (bs @ replicate j False @ eol_tag c (\<not> ?d) @ l)" .
  then show ?case
    using buf s1(1,5,6) s3(1-4,6)
    by (intro exI [of _ s2] exI [of _ s3] exI [of _ k] exI [of _ "bs @ replicate j False @ eol_tag c (\<not> ?d) @ l"]) simp
qed

text \<open>A state in which a page of rows of \<open>width\<close> pixels can be started.\<close>

definition tt_ready :: "int \<Rightarrow> nat \<Rightarrow> t4_tx_state \<Rightarrow> bool" where
  "tt_ready c width s \<longleftrightarrow> tt_line_encoding s = c \<and> page_coding c \<and> tt_min_bits_per_row s + 7 \<le> 800 * tt_bytes_per_row s \<and>
     tt_image_width s = int width \<and> 0 < width \<and> int width < 2 ^ 31 \<and> tt_bytes_per_row s = int (length (tt_row_buf s)) \<and>
     width \<le> 8 * length (tt_row_buf s) \<and> width + 4 \<le> length (tt_cur_runs s) \<and> width + 4 \<le> length (tt_ref_runs s) \<and> 0 \<le> tt_image_buffer_size s"

text \<open>The ones that fill the last octet; the rest of them stays behind.\<close>

lemma page_filled:
  assumes "tt_ok s"
  obtains s' m where "put_encoded_bits s 0xFF 7 = Some s'" "stream_lsb (tt_image s') = tt_line s @ replicate m True" "m \<le> 7"
proof -
  have ff: "\<forall>j \<ge> 25. \<not> bit (0xFF :: u32) j" "map (bit (0xFF :: u32)) [0..<7] = replicate 7 True"
  proof -
    have "(0xFF :: u32) = mask 8"
      by (simp add: mask_eq_exp_minus_1)
    then show "\<forall>j \<ge> 25. \<not> bit (0xFF :: u32) j"
      unfolding \<open>0xFF = mask 8\<close> bit_mask_iff by simp
  qed code_simp
  have "int 7 + 7 \<le> 800 * tt_bytes_per_row s"
    using assms by (simp add: tt_ok_def)
  from put_encoded_bits_line [OF assms this ff(1)] obtain s' where s': "put_encoded_bits s 0xFF (int 7) = Some s'"
    "tt_line s' = tt_line s @ map (bit (0xFF :: u32)) [0..<7]" "length (tt_line s') = 8 * length (tt_image s') + tt_tx_bits s'" "tt_tx_bits s' < 8"
    by metis
  let ?m = "7 - tt_tx_bits s'"
  have line: "stream_lsb (tt_image s') @ pending_bits s' = tt_line s @ replicate ?m True @ replicate (tt_tx_bits s') True"
    using s'(2,4) ff(2) by (simp add: tt_line_def replicate_add [symmetric])
  have "length (pending_bits s') = tt_tx_bits s'"
    by (simp add: pending_bits_def)
  then have "stream_lsb (tt_image s') = tt_line s @ replicate ?m True"
    using line by (simp add: append_eq_append_conv flip: append_assoc)
  then show ?thesis
    using that [of s' ?m] s'(1) by simp
qed

lemma t4_tx_start_page_line:
  assumes ready: "tt_ready c width s" and rows: "\<forall>row\<in>set rows. length row = length (tt_row_buf s)"
  obtains s' l m where "t4_tx_start_page rows s = Some s'" "rows_line c width [] False rows l" "m \<le> 7" "tt_bit_ptr s' = 0"
    "stream_lsb (tt_image s') = eol_tag c True @ l @ eols_line c 5 @ replicate m True"
proof -
  let ?w = "word_of_int (tt_image_width s) :: u32"
  have "4 \<le> length (tt_ref_runs s)"
    using ready by (simp add: tt_ready_def)
  then obtain runs where runs: "mem_write (tt_ref_runs s) 0 [?w, ?w, ?w, ?w] = Some runs"
    by (simp add: mem_write_def)
  have t6: "c \<noteq> T4_COMPRESSION_ITU_T6" "tt_line_encoding s = c"
    using ready by (simp_all add: tt_ready_def)
  let ?s = "s\<lparr>tt_image := [], tt_tx_bitstream := 0, tt_tx_bits := 0, tt_row_is_2d := (tt_line_encoding s = T4_COMPRESSION_ITU_T6),
    tt_rows_to_next_1d_row := tt_max_rows_to_next_1d_row s - 1, tt_ref_runs := runs, tt_ref_steps := 1, tt_row_bits := 0,
    tt_min_row_bits := INT_MAX, tt_max_row_bits := 0\<rparr>"
  have pg: "tt_page c width [] ?s" "\<forall>row\<in>set rows. length row = length (tt_row_buf ?s)"
    using ready mem_write_length [OF runs] t6 rows by (simp_all add: tt_page_def tt_ready_def tt_ok_def)
  have new: "tt_line ?s = []"
    by (simp add: tt_line_def pending_bits_def)
  from encode_rows_line [OF pg, of 5 "int (length rows)"] t6 obtain s1 s2 l where
    s2: "encode_rows rows ?s = Some s1" "encode_eols (Suc 5) (s1\<lparr>tt_image_length := int (length rows), tt_row_is_2d := False\<rparr>) = Some s2"
    "tt_line_encoding s1 = c" "tt_ok s2" "rows_line c width [] False rows l" "tt_line s2 = eol_tag c True @ l @ eols_line c 5"
    unfolding new by auto
  have eols: "EOLS_TO_END_T4_TX_PAGE = Suc 5"
    by (simp add: EOLS_TO_END_T4_TX_PAGE_def)
  obtain s3 m where s3: "put_encoded_bits s2 0xFF 7 = Some s3" "stream_lsb (tt_image s3) = tt_line s2 @ replicate m True" "m \<le> 7"
    using page_filled [OF s2(4)] .
  have "t4_tx_start_page rows s = Some (s3\<lparr>tt_bit_pos := 7, tt_bit_ptr := 0, tt_line_image_size := int (length (tt_image s3)) * 8\<rparr>)"
    using runs s2(1-3) s3(1) t6 eols by (simp add: t4_tx_start_page_def)
  then show ?thesis
    using that [OF _ s2(5), of _ m] s2(6) s3(2,3) by simp
qed

end
