(* ===== verification/T4_Rx_Line.thy ===== *)
theory T4_Rx_Line
  imports T4_Decode
begin

text \<open>
  The bit buffer of the decoder of \<^verbatim>\<open>t4_rx.c\<close>: whatever the octet boundaries are, a step of its loop sees the next
  bits of the line.
\<close>

section \<open>The bit buffer\<close>

definition t4_ok :: "t4_rx_state \<Rightarrow> bool" where
  "t4_ok s \<longleftrightarrow> 0 \<le> tr_rx_bits s \<and> tr_rx_bits s \<le> 20 \<and> (\<forall>j \<ge> nat (tr_rx_bits s). \<not> bit (tr_rx_bitstream s) j)"

definition t4_rx_line :: "t4_rx_state \<Rightarrow> octets \<Rightarrow> bits" where
  "t4_rx_line s bs = map (bit (tr_rx_bitstream s)) [0..<nat (tr_rx_bits s)] @ stream_lsb bs"

text \<open>The loop, and then the octets that are still to come.\<close>

definition t4_run :: "t4_rx_state \<Rightarrow> octets \<Rightarrow> (bool \<times> t4_rx_state) option" where
  "t4_run s bs = do { r \<leftarrow> rx_loop s; if fst r then Some (True, snd r) else t4_rx_put_chunk (snd r) bs }"

text \<open>The members that the bit buffer changes.\<close>

definition rx_buffered :: "t4_rx_state \<Rightarrow> t4_rx_state \<Rightarrow> bool" where
  "rx_buffered s s' \<longleftrightarrow> (\<exists>n b k. s' = s\<lparr>tr_line_image_size := n, tr_rx_bitstream := b, tr_rx_bits := k\<rparr>)"

lemma rx_buffered_refl [simp]: "rx_buffered s s"
  unfolding rx_buffered_def by (intro exI [of _ "tr_line_image_size s"] exI [of _ "tr_rx_bitstream s"] exI [of _ "tr_rx_bits s"]) simp

lemma rx_buffered_trans: "rx_buffered s s' \<Longrightarrow> rx_buffered s' s'' \<Longrightarrow> rx_buffered s s''"
  unfolding rx_buffered_def by (elim exE, simp) blast

text \<open>The decoder is in a page whose first EOL has been found.\<close>

definition rx_in_page :: "t4_rx_state \<Rightarrow> bool" where
  "rx_in_page s \<longleftrightarrow> 0 \<le> tr_consecutive_eols s \<and> tr_consecutive_eols s < EOLS_TO_END_ANY_RX_PAGE"

lemma feed_line:
  assumes "t4_ok s" "tr_rx_bits s < 13"
    and s': "s' = s\<lparr>tr_line_image_size := n, tr_rx_bitstream := tr_rx_bitstream s OR push_bit (nat (tr_rx_bits s)) (ucast b), tr_rx_bits := tr_rx_bits s + 8\<rparr>"
  shows "t4_ok s'" "t4_rx_line s' bs = t4_rx_line s (b # bs)"
proof -
  let ?w = "tr_rx_bitstream s" and ?k = "nat (tr_rx_bits s)"
  have hi: "\<not> bit ?w j" if "?k \<le> j" for j
    using assms(1) that by (simp add: t4_ok_def)
  have bits: "bit (?w OR push_bit ?k (ucast b)) j = (if j < ?k then bit ?w j else bit b (j - ?k))" for j
    using hi [of j] assms(2) by (auto simp: bit_or_iff bit_push_bit_iff bit_ucast_iff dest: bit_u8_bound)
  show "t4_ok s'"
    using assms by (auto simp: t4_ok_def bits nat_add_distrib dest: bit_u8_bound)
  have "map (bit (?w OR push_bit ?k (ucast b))) [0..<?k + 8] = map (bit ?w) [0..<?k] @ bits_lsb b"
    by (rule nth_equalityI) (auto simp: bits nth_append bits_lsb_nth)
  then show "t4_rx_line s' bs = t4_rx_line s (b # bs)"
    using assms(1) by (simp add: t4_rx_line_def s' t4_ok_def nat_add_distrib)
qed

lemma rx_loop_short: "tr_rx_bits s < 13 \<Longrightarrow> rx_loop s = Some (False, s)"
  by (subst rx_loop.simps) simp

lemma t4_run_feed:
  assumes ok: "t4_ok s" "tr_rx_bits s < 13" and page: "rx_in_page s"
  obtains s' where "t4_run s (b # bs) = t4_run s' bs" "t4_ok s'" "t4_rx_line s' bs = t4_rx_line s (b # bs)" "rx_buffered s s'"
proof -
  let ?s = "s\<lparr>tr_line_image_size := tr_line_image_size s + 8, tr_rx_bitstream := tr_rx_bitstream s OR push_bit (nat (tr_rx_bits s)) (ucast b),
    tr_rx_bits := tr_rx_bits s + 8\<rparr>"
  have "rx_put_bits s (ucast b) 8 = rx_loop ?s"
    using ok page rx_loop_short [of ?s] by (simp add: rx_put_bits_def rx_in_page_def t4_ok_def Let_def)
  then have "t4_run s (b # bs) = t4_run ?s bs"
    using rx_loop_short [OF ok(2)] by (simp add: t4_run_def case_prod_unfold)
  then show ?thesis
    using that [of ?s] feed_line [OF ok refl] by (auto simp: rx_buffered_def)
qed

lemma buffered_page: "rx_buffered s s' \<Longrightarrow> rx_in_page s' = rx_in_page s"
  by (auto simp: rx_buffered_def rx_in_page_def)

lemma t4_run_ready:
  assumes "t4_ok s" "rx_in_page s" "13 \<le> length (t4_rx_line s bs)"
  shows "\<exists>s' bs'. t4_run s bs = t4_run s' bs' \<and> t4_ok s' \<and> t4_rx_line s' bs' = t4_rx_line s bs \<and> rx_buffered s s' \<and> 13 \<le> tr_rx_bits s'"
  using assms
proof (induction bs arbitrary: s)
  case Nil
  then show ?case
    by (intro exI [of _ s] exI [of _ "[]"]) (simp add: t4_rx_line_def)
next
  case (Cons b bs)
  show ?case
  proof (cases "13 \<le> tr_rx_bits s")
    case True
    then show ?thesis
      using Cons.prems by (intro exI [of _ s] exI [of _ "b # bs"]) simp
  next
    case False
    then obtain s1 where s1: "t4_run s (b # bs) = t4_run s1 bs" "t4_ok s1" "t4_rx_line s1 bs = t4_rx_line s (b # bs)" "rx_buffered s s1"
      using t4_run_feed [OF Cons.prems(1) _ Cons.prems(2)] by (metis not_le)
    have "rx_in_page s1" "13 \<le> length (t4_rx_line s1 bs)"
      using Cons.prems(2,3) s1(3,4) buffered_page by auto
    from Cons.IH [OF s1(2) this] obtain s' bs' where
      "t4_run s1 bs = t4_run s' bs'" "t4_ok s'" "t4_rx_line s' bs' = t4_rx_line s1 bs" "rx_buffered s1 s'" "13 \<le> tr_rx_bits s'"
      by blast
    then show ?thesis
      using s1 rx_buffered_trans by metis
  qed
qed

lemma t4_run_short:
  assumes "t4_ok s" "rx_in_page s" "length (t4_rx_line s bs) < 13"
  shows "\<exists>s'. t4_run s bs = Some (False, s') \<and> rx_buffered s s'"
  using assms
proof (induction bs arbitrary: s)
  case Nil
  then show ?case
    using rx_loop_short [of s] by (simp add: t4_run_def t4_rx_line_def)
next
  case (Cons b bs)
  then have "tr_rx_bits s < 13"
    by (simp add: t4_rx_line_def)
  then obtain s1 where s1: "t4_run s (b # bs) = t4_run s1 bs" "t4_ok s1" "t4_rx_line s1 bs = t4_rx_line s (b # bs)" "rx_buffered s s1"
    using t4_run_feed [OF Cons.prems(1) _ Cons.prems(2)] by metis
  then show ?case
    using Cons.IH [of s1] Cons.prems(2,3) buffered_page [of s s1] rx_buffered_trans by metis
qed

lemma t4_run_step:
  assumes "13 \<le> tr_rx_bits s"
  shows "t4_run s bs = do { r \<leftarrow> rx_step s; if fst r then Some (True, snd r) else t4_run (snd r) bs }"
proof (cases "rx_step s")
  case (Some r)
  then show ?thesis
    using assms by (auto simp: t4_run_def rx_loop.simps [of s])
qed (use assms in \<open>simp add: t4_run_def rx_loop.simps [of s]\<close>)

section \<open>The start of the bits\<close>

lemma t4_rx_line_window:
  assumes "int n \<le> tr_rx_bits s"
  shows "take n (t4_rx_line s bs) = map (bit (tr_rx_bitstream s)) [0..<n]"
  using assms by (simp add: t4_rx_line_def take_map min_def nat_le_eq_zle le_nat_iff)

lemma t4_rx_window: "13 \<le> tr_rx_bits s \<Longrightarrow> take 13 (t4_rx_line s bs) = map (bit (tr_rx_bitstream s)) [0..<13]"
  using t4_rx_line_window [of 13] by simp

lemma rx_eol_window:
  assumes "13 \<le> tr_rx_bits s"
  shows "tr_rx_bitstream s AND 0xFFF = 0x800 \<longleftrightarrow> take 12 (t4_rx_line s bs) = eol_bits"
proof -
  have "tr_rx_bitstream s AND 0xFFF = take_bit 12 (tr_rx_bitstream s)"
    by (simp add: take_bit_eq_mask mask_eq_exp_minus_1)
  moreover have "(0x800 :: u32) = take_bit 12 0x800"
    by simp
  ultimately have "tr_rx_bitstream s AND 0xFFF = 0x800 \<longleftrightarrow> take_bit 12 (tr_rx_bitstream s) = take_bit 12 0x800"
    by simp
  then show ?thesis
    using assms bit_take_bits [of 12 "tr_rx_bitstream s" "0x800"] t4_rx_line_window [of 12 s bs] bits_eol by simp
qed

lemma t4_rx_line_drop:
  assumes "t4_ok s" "int n \<le> tr_rx_bits s"
    and s': "tr_rx_bitstream s' = drop_bit n (tr_rx_bitstream s)" "tr_rx_bits s' = tr_rx_bits s - int n"
  shows "t4_ok s'" "t4_rx_line s' bs = drop n (t4_rx_line s bs)"
proof -
  show "t4_ok s'"
    using assms by (auto simp: t4_ok_def bit_drop_bit_eq)
  have "map (bit (drop_bit n (tr_rx_bitstream s))) [0..<nat (tr_rx_bits s) - n] = drop n (map (bit (tr_rx_bitstream s)) [0..<nat (tr_rx_bits s)])"
    by (rule nth_equalityI) (simp_all add: bit_drop_bit_eq)
  then show "t4_rx_line s' bs = drop n (t4_rx_line s bs)"
    using assms(1,2) by (simp add: t4_rx_line_def s' t4_ok_def nat_diff_distrib)
qed

section \<open>Progress on the line\<close>

text \<open>From states with \<open>P\<close> and \<open>l\<close> ahead, the decoder comes to one with \<open>Q\<close> and \<open>l'\<close> ahead.\<close>

definition rx_leads :: "(t4_rx_state \<Rightarrow> bool) \<Rightarrow> bits \<Rightarrow> (t4_rx_state \<Rightarrow> bool) \<Rightarrow> bits \<Rightarrow> bool" where
  "rx_leads P l Q l' \<longleftrightarrow> (\<forall>s bs. t4_ok s \<and> P s \<and> t4_rx_line s bs = l \<longrightarrow>
     (\<exists>s' bs'. t4_run s bs = t4_run s' bs' \<and> t4_ok s' \<and> Q s' \<and> t4_rx_line s' bs' = l'))"

lemma rx_leads_refl [simp]: "rx_leads P l P l"
  by (auto simp: rx_leads_def)

lemma rx_leads_trans:
  assumes "rx_leads P l Q m" "rx_leads Q m R r"
  shows "rx_leads P l R r"
  unfolding rx_leads_def
proof (intro allI impI)
  fix s bs
  assume "t4_ok s \<and> P s \<and> t4_rx_line s bs = l"
  then obtain s1 bs1 where 1: "t4_run s bs = t4_run s1 bs1" "t4_ok s1" "Q s1" "t4_rx_line s1 bs1 = m"
    using assms(1) unfolding rx_leads_def by blast
  then obtain s2 bs2 where "t4_run s1 bs1 = t4_run s2 bs2" "t4_ok s2" "R s2" "t4_rx_line s2 bs2 = r"
    using assms(2) unfolding rx_leads_def by blast
  then show "\<exists>s' bs'. t4_run s bs = t4_run s' bs' \<and> t4_ok s' \<and> R s' \<and> t4_rx_line s' bs' = r"
    using 1(1) by metis
qed

text \<open>One step, from a predicate that does not depend on the bit buffer.\<close>

lemma rx_leads_step:
  assumes P: "\<And>s. P s \<Longrightarrow> rx_in_page s" "\<And>s s'. P s \<Longrightarrow> rx_buffered s s' \<Longrightarrow> P s'" and l: "13 \<le> length l" "n \<le> 13"
    and step: "\<And>s bs. P s \<Longrightarrow> 13 \<le> tr_rx_bits s \<Longrightarrow> t4_rx_line s bs = l \<Longrightarrow>
      \<exists>s'. rx_step s = Some (False, s') \<and> Q s' \<and> tr_rx_bitstream s' = drop_bit n (tr_rx_bitstream s) \<and> tr_rx_bits s' = tr_rx_bits s - int n"
  shows "rx_leads P l Q (drop n l)"
  unfolding rx_leads_def
proof (intro allI impI)
  fix s bs
  assume s: "t4_ok s \<and> P s \<and> t4_rx_line s bs = l"
  then obtain s1 bs1 where s1: "t4_run s bs = t4_run s1 bs1" "t4_ok s1" "t4_rx_line s1 bs1 = l" "P s1" "13 \<le> tr_rx_bits s1"
    using t4_run_ready [of s bs] P l(1) by metis
  then obtain s2 where s2: "rx_step s1 = Some (False, s2)" "Q s2" "tr_rx_bitstream s2 = drop_bit n (tr_rx_bitstream s1)"
    "tr_rx_bits s2 = tr_rx_bits s1 - int n"
    using step by blast
  have "t4_run s1 bs1 = t4_run s2 bs1"
    using t4_run_step [OF s1(5)] s2(1) by simp
  moreover have "t4_ok s2" "t4_rx_line s2 bs1 = drop n l"
    using t4_rx_line_drop [OF s1(2) _ s2(3,4)] s1(3,5) l(2) by simp_all
  ultimately show "\<exists>s' bs'. t4_run s bs = t4_run s' bs' \<and> t4_ok s' \<and> Q s' \<and> t4_rx_line s' bs' = drop n l"
    using s1(1) s2(2) by metis
qed

end
