(* ===== verification/T4_Rx_Row.thy ===== *)
theory T4_Rx_Row
  imports T4_Rx_Line
begin

text \<open>
  The decoder of \<^verbatim>\<open>t4_rx.c\<close> inside of a row: how it takes in the codes of runs, in one-dimensional rows and in the
  horizontal mode of two-dimensional rows.
\<close>

section \<open>A row in progress\<close>

text \<open>
  The mode of the decoder: coding of the page, whether the row is two-dimensional, the runs still to come in
  horizontal mode, what is known of the reference row and the position in it, and whether the run length buffer
  is known to be no larger than it needs to be.
\<close>

record rx_mode =
  rm_coding :: int
  rm_2d :: bool
  rm_bw :: nat
  rm_ref :: "u32 list \<Rightarrow> int \<Rightarrow> int \<Rightarrow> bool"
  rm_exact :: bool

text \<open>The next code is that of a run.\<close>

definition rm_runs :: "rx_mode \<Rightarrow> bool" where
  "rm_runs M \<longleftrightarrow> rm_coding M \<noteq> T4_COMPRESSION_ITU_T6 \<and> (rm_2d M \<longrightarrow> rm_bw M \<noteq> 0)"

definition rm_next :: "rx_mode \<Rightarrow> rx_mode" where
  "rm_next M = M\<lparr>rm_bw := rm_bw M - 1\<rparr>"

lemma rm_next_simps [simp]:
  "rm_coding (rm_next M) = rm_coding M" "rm_2d (rm_next M) = rm_2d M" "rm_bw (rm_next M) = rm_bw M - 1" "rm_ref (rm_next M) = rm_ref M"
  "rm_exact (rm_next M) = rm_exact M"
  by (simp_all add: rm_next_def)

lemma rm_next_same [simp]: "rm_bw M = 0 \<Longrightarrow> rm_next M = M"
  by (simp add: rm_next_def)

text \<open>
  \<open>rows\<close> have been written to the image, and of the current row the runs \<open>ns\<close> and \<open>m\<close> pixels of the next run are
  known; \<open>k\<close> bits are to be skipped, and \<open>e\<close> EOLs were seen since the last row.
\<close>

definition rx_row :: "rx_mode \<Rightarrow> nat \<Rightarrow> octets list \<Rightarrow> nat list \<Rightarrow> nat \<Rightarrow> nat \<Rightarrow> nat \<Rightarrow> t4_rx_state \<Rightarrow> bool" where
  "rx_row M width rows ns m k e s \<longleftrightarrow>
     tr_line_encoding s = rm_coding M \<and> tr_row_is_2d s = rm_2d M \<and> tr_image_width s = int width \<and>
     tr_bytes_per_row s = int width div 8 \<and> tr_image s = concat rows \<and> tr_image_length s = int (length rows) \<and> tr_tx_bits s = 8 \<and>
     int (length (concat rows)) \<le> tr_image_buffer_size s \<and> tr_bad_rows s = 0 \<and> tr_curr_bad_row_run s = 0 \<and> tr_longest_bad_row_run s = 0 \<and>
     width + 4 \<le> length (tr_cur_runs s) \<and> width + 4 \<le> length (tr_ref_runs s) \<and>
     (rm_exact M \<longrightarrow> length (tr_cur_runs s) = width + 4) \<and> holds_runs ns (tr_cur_runs s) \<and>
     tr_a_cursor s = int (length ns) \<and> tr_row_len s = int (sum_list ns) \<and> tr_run_length s = int m \<and>
     (rm_runs M \<longrightarrow> tr_its_black s = odd (length ns)) \<and> tr_black_white s = int (rm_bw M) \<and> tr_rx_skip_bits s = int k \<and>
     tr_consecutive_eols s = int e \<and> (sum_list ns + m < width \<longrightarrow> tr_a0 s = int (sum_list ns + m)) \<and>
     rm_ref M (tr_ref_runs s) (tr_b_cursor s) (tr_b1 s)"

lemma rx_row_page: "rx_row M width rows ns m k e s \<Longrightarrow> e < 6 \<Longrightarrow> rx_in_page s"
  by (simp add: rx_row_def rx_in_page_def EOLS_TO_END_ANY_RX_PAGE_def)

lemma rx_row_buffered: "rx_row M width rows ns m k e s \<Longrightarrow> rx_buffered s s' \<Longrightarrow> rx_row M width rows ns m k e s'"
  unfolding rx_row_def rx_buffered_def by (elim exE) simp

section \<open>Code words\<close>

lemma skip_bit:
  assumes "12 \<le> length l" "take 12 (b # l) \<noteq> eol_bits" "e < 6"
  shows "rx_leads (rx_row M width rows ns m (Suc k) e) (b # l) (rx_row M width rows ns m k e) l"
proof -
  have "rx_leads (rx_row M width rows ns m (Suc k) e) (b # l) (rx_row M width rows ns m k e) (drop 1 (b # l))"
  proof (rule rx_leads_step [OF rx_row_page [OF _ assms(3)] rx_row_buffered])
    fix s bs
    assume s: "rx_row M width rows ns m (Suc k) e s" "13 \<le> tr_rx_bits s" "t4_rx_line s bs = b # l"
    then have "\<not> tr_rx_bitstream s AND 0xFFF = 0x800" "tr_rx_skip_bits s = int (Suc k)"
      using rx_eol_window [OF s(2), of bs] assms(2) by (simp_all add: rx_row_def)
    then show "\<exists>s'. rx_step s = Some (False, s') \<and> rx_row M width rows ns m k e s' \<and>
        tr_rx_bitstream s' = drop_bit 1 (tr_rx_bitstream s) \<and> tr_rx_bits s' = tr_rx_bits s - int 1"
      using s(1) by (simp add: rx_step_def rx_row_def)
  qed (use assms in auto)
  then show ?thesis
    by simp
qed

lemma skip_bits:
  assumes "12 \<le> length l" "no_eol xs l" "e < 6" "k = length xs"
  shows "rx_leads (rx_row M width rows ns m k e) (xs @ l) (rx_row M width rows ns m 0 e) l"
  using assms
proof (induction xs arbitrary: k)
  case (Cons b xs)
  have "rx_leads (rx_row M width rows ns m (Suc (length xs)) e) (b # xs @ l) (rx_row M width rows ns m (length xs) e) (xs @ l)"
    using Cons.prems by (intro skip_bit) auto
  moreover have "rx_leads (rx_row M width rows ns m (length xs) e) (xs @ l) (rx_row M width rows ns m 0 e) l"
    using Cons by simp
  ultimately show ?case
    using Cons.prems(4) rx_leads_trans by simp
qed simp

text \<open>The position is kept inside of the row.\<close>

lemma rx_code_end_row:
  assumes "rx_row M width rows ns m k e s" "rm_coding M \<noteq> T4_COMPRESSION_ITU_T6"
  shows "\<exists>s'. rx_code_end s = Some s' \<and> rx_row M width rows ns m k e s' \<and> tr_rx_bitstream s' = tr_rx_bitstream s \<and> tr_rx_bits s' = tr_rx_bits s"
proof -
  let ?s = "if tr_a0 s \<ge> tr_image_width s then s\<lparr>tr_a0 := tr_image_width s - 1\<rparr> else s"
  have "tr_line_encoding s \<noteq> T4_COMPRESSION_ITU_T6"
    using assms by (simp add: rx_row_def)
  then have "rx_code_end s = Some ?s"
    by (simp add: rx_code_end_def)
  moreover have "rx_row M width rows ns m k e ?s"
    using assms(1) by (auto simp: rx_row_def)
  ultimately show ?thesis
    by simp
qed

lemma drop_rx_bits_row: "rx_row M width rows ns m 0 e s \<Longrightarrow> 1 \<le> n \<Longrightarrow> rx_row M width rows ns m (n - 1) e (drop_rx_bits n s)"
  by (simp add: rx_row_def drop_rx_bits_def of_nat_diff)

text \<open>The first bit of a code word with the table entry \<open>(state, n, param)\<close>.\<close>

lemma code_first_bit:
  assumes l: "13 \<le> length l" "take 12 l \<noteq> eol_bits" and n: "1 \<le> n" and e: "e < 6" and M: "rm_runs M" "rm_coding M' \<noteq> T4_COMPRESSION_ITU_T6"
    and entry: "\<And>x. map (bit x) [0..<13] = take 13 l \<Longrightarrow> run_entry (odd (length ns)) x = (state, n, param)"
    and run: "\<And>s. rx_row M width rows ns m 0 e s \<Longrightarrow> \<exists>s'. rx_1d_run state param s = Some s' \<and> rx_row M' width rows ns' m' 0 e s' \<and>
      tr_rx_bitstream s' = tr_rx_bitstream s \<and> tr_rx_bits s' = tr_rx_bits s"
  shows "rx_leads (rx_row M width rows ns m 0 e) l (rx_row M' width rows ns' m' (n - 1) e) (drop 1 l)"
proof (rule rx_leads_step [OF rx_row_page [OF _ e] rx_row_buffered l(1)])
  fix s bs
  assume s: "rx_row M width rows ns m 0 e s" "13 \<le> tr_rx_bits s" "t4_rx_line s bs = l"
  then have eol: "\<not> tr_rx_bitstream s AND 0xFFF = 0x800"
    using rx_eol_window [OF s(2), of bs] l(2) by simp
  have "map (bit (tr_rx_bitstream s)) [0..<13] = take 13 l"
    using t4_rx_window [OF s(2), of bs] s(3) by simp
  then have "run_entry (tr_its_black s) (tr_rx_bitstream s) = (state, n, param)"
    using entry s(1) M(1) by (simp add: rx_row_def)
  moreover obtain s1 where s1: "rx_1d_run state param s = Some s1" "rx_row M' width rows ns' m' 0 e s1"
    "tr_rx_bitstream s1 = tr_rx_bitstream s" "tr_rx_bits s1 = tr_rx_bits s"
    using run [OF s(1)] by blast
  ultimately have code: "rx_1d_code s = Some (drop_rx_bits n s1)"
    by (simp add: rx_1d_code_def run_entry_def)
  obtain s' where s': "rx_code_end (drop_rx_bits n s1) = Some s'" "rx_row M' width rows ns' m' (n - 1) e s'"
    "tr_rx_bitstream s' = drop_bit 1 (tr_rx_bitstream s)" "tr_rx_bits s' = tr_rx_bits s - int 1"
    using rx_code_end_row [OF drop_rx_bits_row [OF s1(2) n] M(2)] s1(3,4) by (auto simp: drop_rx_bits_def)
  have "\<not> (tr_row_is_2d s \<and> tr_black_white s = 0)" "tr_rx_skip_bits s = 0"
    using s(1) M(1) by (simp_all add: rx_row_def rm_runs_def)
  then have "rx_step s = Some (False, s')"
    using eol code s'(1) by (auto simp: rx_step_def)
  then show "\<exists>s'. rx_step s = Some (False, s') \<and> rx_row M' width rows ns' m' (n - 1) e s' \<and>
      tr_rx_bitstream s' = drop_bit 1 (tr_rx_bitstream s) \<and> tr_rx_bits s' = tr_rx_bits s - int 1"
    using s' by blast
qed simp_all

lemma code_word:
  assumes i: "i < 104" and l: "12 \<le> length l" "no_eol (code_bits (t4_run_codes black ! i)) l" and e: "e < 6" and black: "black = odd (length ns)"
    and M: "rm_runs M" "rm_coding M' = rm_coding M"
    and run: "\<And>s. rx_row M width rows ns m 0 e s \<Longrightarrow>
      \<exists>s'. rx_1d_run (run_state black i) (if i < 64 then int i else 64 * (int i - 63)) s = Some s' \<and> rx_row M' width rows ns' m' 0 e s' \<and>
      tr_rx_bitstream s' = tr_rx_bitstream s \<and> tr_rx_bits s' = tr_rx_bits s"
  shows "rx_leads (rx_row M width rows ns m 0 e) (code_bits (t4_run_codes black ! i) @ l) (rx_row M' width rows ns' m' 0 e) l"
proof -
  let ?c = "code_bits (t4_run_codes black ! i)"
  have "?c \<noteq> []"
    using run_codes_nth(2) [OF i, of black] by (auto simp: run_entry_ok_def code_bits_def)
  then obtain b xs where c: "?c = b # xs"
    by (cases ?c) auto
  have coding: "rm_coding M' \<noteq> T4_COMPRESSION_ITU_T6"
    using M by (simp add: rm_runs_def)
  have "rx_leads (rx_row M width rows ns m 0 e) (?c @ l) (rx_row M' width rows ns' m' (length ?c - 1) e) (drop 1 (?c @ l))"
  proof (rule code_first_bit [OF _ _ _ e M(1) coding _ run])
    show "run_entry (odd (length ns)) x = (run_state black i, length ?c, if i < 64 then int i else 64 * (int i - 63))"
      if "map (bit x) [0..<13] = take 13 (?c @ l)" for x
      using run_entry_code [OF i that [symmetric]] black by simp
  qed (use l c in auto)
  moreover have "rx_leads (rx_row M' width rows ns' m' (length xs) e) (xs @ l) (rx_row M' width rows ns' m' 0 e) l"
    using l c by (intro skip_bits e) auto
  ultimately show ?thesis
    using c rx_leads_trans by simp
qed

lemma makeup_run:
  assumes "64 \<le> i" "i < 104" "rx_row M width rows ns m 0 e s" "black = odd (length ns)" "rm_runs M"
  shows "\<exists>s'. rx_1d_run (run_state black i) (64 * (int i - 63)) s = Some s' \<and> rx_row M width rows ns (m + 64 * (i - 63)) 0 e s' \<and>
    tr_rx_bitstream s' = tr_rx_bitstream s \<and> tr_rx_bits s' = tr_rx_bits s"
  using assms by (auto simp: rx_1d_run_def run_state_def rx_row_def Let_def of_nat_diff)

lemma holds_runs_snoc:
  assumes "holds_runs ns runs" "length ns < length runs"
  shows "holds_runs (ns @ [n]) (runs[length ns := of_nat n])"
  using assms by (simp add: holds_runs_def take_Suc_conv_app_nth)

text \<open>A run is added to the row.\<close>

lemma add_run:
  assumes s: "tr_run_length s = int n" "tr_row_len s = int (sum_list ns)" "tr_image_width s = int width" "tr_a_cursor s = int (length ns)"
    and room: "sum_list ns + n \<le> width" "length ns < length (tr_cur_runs s)"
  shows "add_run_to_row s = Some (s\<lparr>tr_row_len := int (sum_list (ns @ [n])), tr_cur_runs := (tr_cur_runs s)[length ns := of_nat n],
    tr_a_cursor := int (length (ns @ [n])), tr_run_length := 0\<rparr>)"
  using assms by (simp add: add_run_to_row_def arr_set_def add.commute)

lemma term_run:
  assumes i: "i < 64" and s: "rx_row M width rows ns m 0 e s" and black: "black = odd (length ns)" and M: "rm_runs M"
    and room: "sum_list ns < width" "sum_list ns + m + i \<le> width" "length ns < width + 4"
  shows "\<exists>s'. rx_1d_run (run_state black i) (int i) s = Some s' \<and> rx_row (rm_next M) width rows (ns @ [m + i]) 0 0 e s' \<and>
    tr_rx_bitstream s' = tr_rx_bitstream s \<and> tr_rx_bits s' = tr_rx_bits s"
proof -
  let ?s = "s\<lparr>tr_run_length := tr_run_length s + int i, tr_a0 := tr_a0 s + int i, tr_its_black := \<not> tr_its_black s\<rparr>"
  let ?s1 = "?s\<lparr>tr_row_len := int (sum_list (ns @ [m + i])), tr_cur_runs := (tr_cur_runs s)[length ns := of_nat (m + i)],
    tr_a_cursor := int (length (ns @ [m + i])), tr_run_length := 0\<rparr>"
  let ?s' = "?s1\<lparr>tr_black_white := int (rm_bw M - 1)\<rparr>"
  have "length ns < length (tr_cur_runs s)"
    using s room(3) by (simp add: rx_row_def)
  then have "add_run_to_row ?s = Some ?s1"
    using add_run [of ?s "m + i" ns width] s room(2) by (simp add: rx_row_def)
  then have "rx_1d_run (run_state black i) (int i) s = Some ?s'"
    using i s black room(1) M by (cases "rm_bw M") (simp_all add: rx_1d_run_def run_state_def rx_row_def Let_def)
  moreover have "rx_row (rm_next M) width rows (ns @ [m + i]) 0 0 e ?s'"
    using s room(3) M holds_runs_snoc [of ns "tr_cur_runs s" "m + i"] by (auto simp: rx_row_def)
  ultimately show ?thesis
    by (intro exI [of _ ?s']) simp
qed

text \<open>In horizontal mode the second run may be empty behind the end of the row; it is not added.\<close>

lemma empty_run:
  assumes s: "rx_row M width rows ns 0 0 e s" and M: "rm_2d M" "rm_bw M = 1" "rm_coding M \<noteq> T4_COMPRESSION_ITU_T6" and full: "sum_list ns = width"
    and black: "black = odd (length ns)"
  shows "\<exists>s'. rx_1d_run (run_state black 0) 0 s = Some s' \<and> rx_row (rm_next M) width rows ns 0 0 e s' \<and>
    tr_rx_bitstream s' = tr_rx_bitstream s \<and> tr_rx_bits s' = tr_rx_bits s"
  using assms by (simp add: rx_1d_run_def run_state_def rx_row_def rm_runs_def Let_def)

section \<open>Runs\<close>

lemma span_decoded:
  assumes "12 \<le> length l" "no_eol (words_bits (span_words black n)) l" "e < 6" "black = odd (length ns)" "rm_runs M" "sum_list ns < width"
    "sum_list ns + m + n \<le> width" "length ns < width + 4"
  shows "rx_leads (rx_row M width rows ns m 0 e) (words_bits (span_words black n) @ l) (rx_row (rm_next M) width rows (ns @ [m + n]) 0 0 e) l"
  using assms
proof (induction n arbitrary: m rule: less_induct)
  case (less n)
  have makeup: "rx_leads (rx_row M width rows ns m 0 e) (code_bits (t4_run_codes black ! i) @ r) (rx_row M width rows ns (m + 64 * (i - 63)) 0 e) r"
    if "64 \<le> i" "i < 104" "12 \<le> length r" "no_eol (code_bits (t4_run_codes black ! i)) r" for i r
    by (rule code_word [OF that(2-4) less.prems(3-5)]) (use makeup_run [OF that(1,2)] that(1) less.prems(4,5) in auto)
  have final: "rx_leads (rx_row M width rows ns m' 0 e) (code_bits (t4_run_codes black ! i) @ l) (rx_row (rm_next M) width rows (ns @ [m' + i]) 0 0 e) l"
    if "i < 64" "no_eol (code_bits (t4_run_codes black ! i)) l" "m' + i = m + n" for i m'
    by (rule code_word [OF _ less.prems(1) that(2) less.prems(3-5)])
      (use term_run [OF that(1) _ less.prems(4-6) _ less.prems(8), where m = m'] that less.prems(7) in \<open>simp_all add: add.assoc\<close>)
  show ?case
  proof (cases "2624 \<le> n")
    case True
    have w: "span_words black n = t4_run_codes black ! 103 # span_words black (n - 2560)"
      using True span_words.simps [of black n] by simp
    let ?r = "words_bits (span_words black (n - 2560)) @ l"
    have ne: "no_eol (code_bits (t4_run_codes black ! 103)) ?r" "no_eol (words_bits (span_words black (n - 2560))) l"
      using less.prems(2) unfolding w by (simp_all add: no_eol_append)
    have "rx_leads (rx_row M width rows ns m 0 e) (code_bits (t4_run_codes black ! 103) @ ?r) (rx_row M width rows ns (m + 2560) 0 e) ?r"
      using makeup [of 103 ?r] ne(1) less.prems(1) by simp
    moreover have "rx_leads (rx_row M width rows ns (m + 2560) 0 e) ?r (rx_row (rm_next M) width rows (ns @ [m + 2560 + (n - 2560)]) 0 0 e) l"
      using True less.prems ne(2) by (intro less.IH) simp_all
    ultimately show ?thesis
      using True unfolding w by (simp add: rx_leads_trans)
  next
    case False
    let ?i = "63 + n div 64" and ?t = "code_bits (t4_run_codes black ! (n mod 64))"
    have w: "span_words black n = (if n \<ge> 64 then [t4_run_codes black ! ?i] else []) @ [t4_run_codes black ! (n mod 64)]"
      using False span_words.simps [of black n] by simp
    show ?thesis
    proof (cases "64 \<le> n")
      case True
      have ne: "no_eol (code_bits (t4_run_codes black ! ?i)) (?t @ l)" "no_eol ?t l"
        using less.prems(2) True unfolding w by (simp_all add: no_eol_append)
      have "1 \<le> n div 64"
        using True by simp
      then have "rx_leads (rx_row M width rows ns m 0 e) (code_bits (t4_run_codes black ! ?i) @ ?t @ l) (rx_row M width rows ns (m + 64 * (n div 64)) 0 e) (?t @ l)"
        using makeup [of ?i "?t @ l"] False ne(1) less.prems(1) by simp
      moreover have "rx_leads (rx_row M width rows ns (m + 64 * (n div 64)) 0 e) (?t @ l) (rx_row (rm_next M) width rows (ns @ [m + 64 * (n div 64) + n mod 64]) 0 0 e) l"
        using ne(2) by (intro final) simp_all
      moreover have "m + 64 * (n div 64) + n mod 64 = m + n"
        by simp
      ultimately have "rx_leads (rx_row M width rows ns m 0 e) (code_bits (t4_run_codes black ! ?i) @ ?t @ l) (rx_row (rm_next M) width rows (ns @ [m + n]) 0 0 e) l"
        using rx_leads_trans [of _ "code_bits (t4_run_codes black ! ?i) @ ?t @ l"] by simp
      then show ?thesis
        using True unfolding w by simp
    next
      case small: False
      then show ?thesis
        using final [of n m] less.prems(2) unfolding w by simp
    qed
  qed
qed

text \<open>The runs of a one-dimensional row.\<close>

lemma runs_decoded:
  assumes "12 \<le> length l" "no_eol (words_bits (runs_words (odd (length ns)) ks)) l" "e < 6" "sum_list ns + sum_list ks = width"
    "0 < width" "ns \<noteq> [] \<longrightarrow> (\<forall>n\<in>set ks. 0 < n)" "\<forall>n\<in>set (tl ks). 0 < n" "length ns + length ks \<le> width + 1" "rm_runs M" "rm_bw M = 0"
  shows "rx_leads (rx_row M width rows ns 0 0 e) (words_bits (runs_words (odd (length ns)) ks) @ l) (rx_row M width rows (ns @ ks) 0 0 e) l"
  using assms
proof (induction ks arbitrary: ns)
  case (Cons n ks)
  let ?black = "odd (length ns)"
  let ?r = "words_bits (runs_words (\<not> ?black) ks) @ l"
  have ne: "no_eol (words_bits (span_words ?black n)) ?r" "no_eol (words_bits (runs_words (\<not> ?black) ks)) l"
    using Cons.prems(2) by (simp_all add: no_eol_append)
  have less: "sum_list ns < width"
    using Cons.prems(4-6) by (cases "ns = []") auto
  have "rx_leads (rx_row M width rows ns 0 0 e) (words_bits (span_words ?black n) @ ?r) (rx_row (rm_next M) width rows (ns @ [0 + n]) 0 0 e) ?r"
    using Cons.prems less ne(1) by (intro span_decoded) simp_all
  moreover have "rx_leads (rx_row M width rows (ns @ [n]) 0 0 e) (words_bits (runs_words (odd (length (ns @ [n]))) ks) @ l)
      (rx_row M width rows ((ns @ [n]) @ ks) 0 0 e) l"
  proof (rule Cons.IH)
    show "\<forall>n\<in>set (tl ks). 0 < n"
      using Cons.prems(7) by (cases ks) auto
  qed (use Cons.prems ne(2) in auto)
  ultimately show ?case
    using rx_leads_trans Cons.prems(10) by simp
qed simp

end
