(* ===== verification/T4_Rx_Eol.thy ===== *)
theory T4_Rx_Eol
  imports T4_Rx_Row T4_Modes
begin

text \<open>
  The end of a row in the decoder of \<^verbatim>\<open>t4_rx.c\<close>: the runs go to the image, the row becomes the reference row, and
  fill and EOLs, with the tag bit of two-dimensional pages, lead to the next row or the end of the page.
\<close>

section \<open>End of a row\<close>

lemma rx_grow_room:
  assumes "int (length (tr_image s)) \<le> tr_image_buffer_size s" "1 \<le> tr_bytes_per_row s"
  shows "\<exists>z. rx_grow s = s\<lparr>tr_image_buffer_size := z\<rparr> \<and> int (length (tr_image s)) + tr_bytes_per_row s \<le> z"
proof (cases "int (length (tr_image s)) + tr_bytes_per_row s \<ge> tr_image_buffer_size s")
  case True
  then show ?thesis
    using assms by (intro exI [of _ "tr_image_buffer_size s + 100 * tr_bytes_per_row s"]) (simp add: rx_grow_def)
next
  case False
  then show ?thesis
    by (intro exI [of _ "tr_image_buffer_size s"]) (simp add: rx_grow_def)
qed

text \<open>The row of the runs \<open>ns\<close> is the reference row, and the position is at its start.\<close>

definition ref_start :: "nat list \<Rightarrow> u32 list \<Rightarrow> int \<Rightarrow> int \<Rightarrow> bool" where
  "ref_start ns refs b_cursor b1 \<longleftrightarrow> holds_runs (ns @ [0, 0]) refs \<and> b_cursor = 1 \<and> b1 = int (hd ns)"

definition rm_row :: "int \<Rightarrow> bool \<Rightarrow> (u32 list \<Rightarrow> int \<Rightarrow> int \<Rightarrow> bool) \<Rightarrow> rx_mode" where
  "rm_row coding two ref = \<lparr>rm_coding = coding, rm_2d = two, rm_bw = 0, rm_ref = ref, rm_exact = False\<rparr>"

lemma rm_row_simps [simp]:
  "rm_coding (rm_row c d r) = c" "rm_2d (rm_row c d r) = d" "rm_bw (rm_row c d r) = 0" "rm_ref (rm_row c d r) = r" "\<not> rm_exact (rm_row c d r)"
  by (simp_all add: rm_row_def)

lemma row_image:
  assumes s: "rx_row M width rows ns 0 0 e s" and row: "runs_pixels False ns = stream_msb row"
    and width: "width = 8 * length row" "int width < 2 ^ 31" and room: "int (length (concat rows @ row)) \<le> tr_image_buffer_size s"
  shows "\<exists>w. good_row s = Some (s\<lparr>tr_image := concat rows @ row, tr_tx_bitstream := w, tr_tx_bits := 8, tr_image_length := tr_image_length s + 1\<rparr>)"
proof -
  have sum: "sum_list ns = width"
    using arg_cong [OF row, of length] width(1) by simp
  have px: "tr_pixels s = stream_msb (concat rows)"
    using s by (simp add: rx_row_def tr_pixels_def low_bits_def)
  have "holds_runs ns (tr_cur_runs s)" "1 \<le> tr_tx_bits s" "tr_tx_bits s \<le> 8" "int (sum_list ns) < 2 ^ 31"
    "int (length (tr_pixels s) + sum_list (drop 0 ns)) \<le> 8 * tr_image_buffer_size s" "0 \<le> length ns"
    using s width room by (simp_all add: rx_row_def sum px)
  from put_runs_pixels [OF this, of False] obtain i w t where
    r: "put_runs (int (length ns)) 0 0 s = Some (s\<lparr>tr_image := i, tr_tx_bitstream := w, tr_tx_bits := t\<rparr>)" "1 \<le> t" "t \<le> 8"
      "tr_pixels (s\<lparr>tr_image := i, tr_tx_bitstream := w, tr_tx_bits := t\<rparr>) = stream_msb (concat rows @ row)"
    by (auto simp: run_word_def px row)
  have "8 * length i + (8 - t) = 8 * length (concat rows @ row)"
    using arg_cong [OF r(4), of length] by (simp add: tr_pixels_def)
  then have t: "t = 8"
    using r(2,3) by presburger
  then have "i = concat rows @ row"
    using r(4) stream_msb_inject [of i "concat rows @ row"] by (simp add: tr_pixels_def low_bits_def)
  moreover have "end_bad_rows s = s" "tr_a_cursor s = int (length ns)"
    using s by (simp_all add: rx_row_def end_bad_rows_def)
  ultimately show ?thesis
    using r(1) t by (intro exI [of _ w]) (simp add: good_row_def)
qed

text \<open>The row after an EOL is two-dimensional.\<close>

definition eol_2d :: "int \<Rightarrow> bool \<Rightarrow> bool" where
  "eol_2d c one \<longleftrightarrow> c = T4_COMPRESSION_ITU_T4_2D \<and> \<not> one"

lemma take_eol: "take 12 (eol_bits @ l) = eol_bits" "length eol_bits = 12"
  by (simp_all add: eol_bits_def)

lemma take_eol_tag: "take 12 (eol_tag c one @ l) = eol_bits" "take 12 (eol_tag c one) = eol_bits" "length (eol_tag c one) = (if c = T4_COMPRESSION_ITU_T4_2D then 13 else 12)"
  "drop (length (eol_tag c one)) (eol_tag c one @ l) = l"
  by (simp_all add: eol_tag_def take_eol)

text \<open>What is done with an EOL that does not end the page.\<close>

definition drop_eol :: "t4_rx_state \<Rightarrow> t4_rx_state" where
  "drop_eol s =
     (let s = (if tr_line_encoding s = T4_COMPRESSION_ITU_T4_2D
               then force_drop_rx_bits 13 (s\<lparr>tr_row_is_2d := (tr_rx_bitstream s AND 0x1000 = 0)\<rparr>)
               else force_drop_rx_bits 12 s)
      in s\<lparr>tr_its_black := False, tr_black_white := 0, tr_run_length := 0, tr_row_len := 0\<rparr>)"

lemma bit_12: "w AND 0x1000 = 0 \<longleftrightarrow> \<not> bit w 12" for w :: u32
proof -
  have "(0x1000 :: u32) = 2 ^ 12"
    by simp
  then show ?thesis
    by (metis and_exp_eq_0_iff_not_bit)
qed

lemma drop_eol_row:
  assumes line: "t4_rx_line s bs = eol_tag c one @ l" "13 \<le> tr_rx_bits s" and c: "tr_line_encoding s = c" "c \<noteq> T4_COMPRESSION_ITU_T4_2D \<longrightarrow> \<not> tr_row_is_2d s"
  shows "tr_row_is_2d (drop_eol s) = eol_2d c one" "tr_rx_bitstream (drop_eol s) = drop_bit (length (eol_tag c one)) (tr_rx_bitstream s)"
    "tr_rx_bits (drop_eol s) = tr_rx_bits s - int (length (eol_tag c one))"
proof -
  have "bit (tr_rx_bitstream s) 12 = one" if "c = T4_COMPRESSION_ITU_T4_2D"
  proof -
    have "map (bit (tr_rx_bitstream s)) [0..<13] = take 13 (eol_bits @ one # l)"
      using t4_rx_window [OF line(2), of bs] line(1) that by (simp add: eol_tag_def)
    then have "map (bit (tr_rx_bitstream s)) [0..<13] ! 12 = one"
      by (simp add: nth_append take_eol)
    then show ?thesis
      by simp
  qed
  then show "tr_row_is_2d (drop_eol s) = eol_2d c one" "tr_rx_bitstream (drop_eol s) = drop_bit (length (eol_tag c one)) (tr_rx_bitstream s)"
    "tr_rx_bits (drop_eol s) = tr_rx_bits s - int (length (eol_tag c one))"
    using c by (auto simp: drop_eol_def Let_def force_drop_rx_bits_def eol_2d_def bit_12 take_eol_tag)
qed

lemma drop_eol_same:
  "tr_image_width (drop_eol s) = tr_image_width s" "tr_bytes_per_row (drop_eol s) = tr_bytes_per_row s" "tr_image (drop_eol s) = tr_image s"
  "tr_image_length (drop_eol s) = tr_image_length s" "tr_tx_bits (drop_eol s) = tr_tx_bits s" "tr_image_buffer_size (drop_eol s) = tr_image_buffer_size s"
  "tr_bad_rows (drop_eol s) = tr_bad_rows s" "tr_curr_bad_row_run (drop_eol s) = tr_curr_bad_row_run s"
  "tr_longest_bad_row_run (drop_eol s) = tr_longest_bad_row_run s" "tr_cur_runs (drop_eol s) = tr_cur_runs s" "tr_ref_runs (drop_eol s) = tr_ref_runs s"
  "tr_a_cursor (drop_eol s) = tr_a_cursor s" "tr_row_len (drop_eol s) = 0" "tr_run_length (drop_eol s) = 0" "\<not> tr_its_black (drop_eol s)"
  "tr_black_white (drop_eol s) = 0" "tr_rx_skip_bits (drop_eol s) = 0" "tr_consecutive_eols (drop_eol s) = tr_consecutive_eols s"
  "tr_a0 (drop_eol s) = tr_a0 s" "tr_b_cursor (drop_eol s) = tr_b_cursor s" "tr_b1 (drop_eol s) = tr_b1 s" "tr_line_encoding (drop_eol s) = tr_line_encoding s"
  by (simp_all add: drop_eol_def Let_def force_drop_rx_bits_def)

lemma hd_run:
  assumes "ns \<noteq> []" "int (sum_list ns) < 2 ^ 31" "holds_runs ns runs"
  shows "sint (runs ! 0) = int (hd ns)" "0 < length runs"
proof -
  have "arr_get runs (int 0) = Some (of_nat (ns ! 0))"
    using holds_runs_nth [OF assms(3), of 0] assms(1) by simp
  then have r: "0 < length runs" "runs ! 0 = of_nat (hd ns)"
    using assms(1) by (simp_all add: arr_get_def hd_conv_nth split: if_splits)
  have "hd ns \<le> sum_list ns"
    using assms(1) by (simp add: elem_le_sum_list hd_conv_nth)
  then have "int (hd ns) < 2 ^ 31"
    using assms(2) by simp
  then show "sint (runs ! 0) = int (hd ns)" "0 < length runs"
    using r u32_of_nat(2) by simp_all
qed

lemma holds_runs_zeros:
  assumes "holds_runs ns runs" "length ns + 1 < length runs"
  shows "holds_runs (ns @ [0, 0]) (runs[length ns := 0, Suc (length ns) := 0])"
proof -
  have "holds_runs (ns @ [0]) (runs[length ns := of_nat 0])"
    using holds_runs_snoc [OF assms(1), of 0] assms(2) by simp
  from holds_runs_snoc [OF this, of 0] show ?thesis
    using assms(2) by simp
qed

lemma row_eol_step:
  assumes s: "rx_row M width rows ns 0 0 e s" and c: "page_coding (rm_coding M)" "rm_coding M = T4_COMPRESSION_ITU_T4_1D \<longrightarrow> \<not> rm_2d M"
    and row: "runs_pixels False ns = stream_msb row" and width: "width = 8 * length row" "int width < 2 ^ 31" "0 < width"
    and ns: "length ns \<le> width + 1" and line: "t4_rx_line s bs = eol_tag (rm_coding M) one @ l" "13 \<le> tr_rx_bits s"
  shows "\<exists>s'. rx_eol s = Some (False, s') \<and> rx_row (rm_row (rm_coding M) (eol_2d (rm_coding M) one) (ref_start ns)) width (rows @ [row]) [] 0 0 0 s' \<and>
    tr_rx_bitstream s' = drop_bit (length (eol_tag (rm_coding M) one)) (tr_rx_bitstream s) \<and>
    tr_rx_bits s' = tr_rx_bits s - int (length (eol_tag (rm_coding M) one))"
proof -
  have sum: "sum_list ns = width"
    using arg_cong [OF row, of length] width(1) by simp
  then have ne: "ns \<noteq> []"
    using width(3) by auto
  have bpr: "tr_bytes_per_row s = int (length row)" "1 \<le> tr_bytes_per_row s"
    using s width by (simp_all add: rx_row_def Suc_le_eq)
  let ?s = "s\<lparr>tr_consecutive_eols := 0\<rparr>"
  have s1: "rx_row M width rows ns 0 0 0 ?s"
    using s by (simp add: rx_row_def)
  obtain z where z: "rx_grow ?s = ?s\<lparr>tr_image_buffer_size := z\<rparr>" "int (length (concat rows @ row)) \<le> z"
    using rx_grow_room [of ?s] s1 bpr by (auto simp: rx_row_def)
  have s2: "rx_row M width rows ns 0 0 0 (?s\<lparr>tr_image_buffer_size := z\<rparr>)"
    using s1 z(2) by (simp add: rx_row_def)
  from row_image [OF s2 row width(1,2)] z(2) obtain w where good: "good_row (?s\<lparr>tr_image_buffer_size := z\<rparr>) =
      Some (?s\<lparr>tr_image_buffer_size := z, tr_image := concat rows @ row, tr_tx_bitstream := w, tr_tx_bits := 8, tr_image_length := tr_image_length s + 1\<rparr>)"
    by auto
  let ?runs = "(tr_cur_runs s)[length ns := 0, Suc (length ns) := 0]"
  have len: "int (length ns) + 1 < int (length (tr_cur_runs s))"
    using s ns by (simp add: rx_row_def)
  have runs: "holds_runs (ns @ [0, 0]) ?runs"
    using holds_runs_zeros [of ns "tr_cur_runs s"] s len by (simp add: rx_row_def)
  have b1: "sint (?runs ! 0) = int (hd ns)" "0 < length ?runs"
    using hd_run [OF _ _ runs] ne sum width(2) by simp_all
  define p where "p = ?s\<lparr>tr_image_buffer_size := z, tr_image := concat rows @ row, tr_tx_bitstream := w, tr_tx_bits := 8,
      tr_image_length := tr_image_length s + 1, tr_last_row_starts_at := int (length (tr_image s)), tr_cur_runs := tr_ref_runs s, tr_ref_runs := ?runs,
      tr_b_cursor := 1, tr_a_cursor := 0, tr_b1 := sint (?runs ! 0), tr_a0 := 0, tr_run_length := 0\<rparr>"
  define q where "q = rx_update_row_bit_info p"
  have "put_decoded_row ?s = Some p"
    using s len z(1) good sum b1(2) by (simp add: put_decoded_row_def rx_row_def arr_set_def arr_get_def nat_add_distrib p_def)
  moreover have "tr_row_len s \<noteq> 0" "tr_run_length s = 0"
    using s sum width(3) by (simp_all add: rx_row_def)
  ultimately have eol: "rx_eol s = Some (False, drop_eol q)"
    by (simp add: rx_eol_def drop_eol_def q_def Let_def)
  have q: "tr_rx_bitstream q = tr_rx_bitstream s" "tr_rx_bits q = tr_rx_bits s" "tr_line_encoding q = rm_coding M" "tr_row_is_2d q = rm_2d M"
    using s by (simp_all add: q_def p_def rx_update_row_bit_info_def rx_row_def)
  have "t4_rx_line q bs = eol_tag (rm_coding M) one @ l" "13 \<le> tr_rx_bits q" "rm_coding M \<noteq> T4_COMPRESSION_ITU_T4_2D \<longrightarrow> \<not> tr_row_is_2d q"
    using line c q by (auto simp: t4_rx_line_def page_coding_def)
  from drop_eol_row [OF this(1,2) q(3) this(3)]
  have d: "tr_row_is_2d (drop_eol q) = eol_2d (rm_coding M) one"
    "tr_rx_bitstream (drop_eol q) = drop_bit (length (eol_tag (rm_coding M) one)) (tr_rx_bitstream s)"
    "tr_rx_bits (drop_eol q) = tr_rx_bits s - int (length (eol_tag (rm_coding M) one))"
    using q by simp_all
  have "rx_row (rm_row (rm_coding M) (eol_2d (rm_coding M) one) (ref_start ns)) width (rows @ [row]) [] 0 0 0 (drop_eol q)"
    unfolding rx_row_def drop_eol_same d(1) using s z(2) runs b1(1) c(1)
    by (simp add: rx_row_def drop_eol_same q_def p_def rx_update_row_bit_info_def ref_start_def holds_runs_def)
  then show ?thesis
    using eol d(2,3) by blast
qed

lemma row_eol:
  assumes c: "page_coding (rm_coding M)" "rm_coding M = T4_COMPRESSION_ITU_T4_1D \<longrightarrow> \<not> rm_2d M"
    and row: "runs_pixels False ns = stream_msb row" and width: "width = 8 * length row" "int width < 2 ^ 31" "0 < width"
    and ns: "length ns \<le> width + 1" and e: "e < 6" and l: "l \<noteq> []"
  shows "rx_leads (rx_row M width rows ns 0 0 e) (eol_tag (rm_coding M) one @ l)
    (rx_row (rm_row (rm_coding M) (eol_2d (rm_coding M) one) (ref_start ns)) width (rows @ [row]) [] 0 0 0) l"
proof -
  let ?M = "rm_row (rm_coding M) (eol_2d (rm_coding M) one) (ref_start ns)" and ?t = "eol_tag (rm_coding M) one"
  have "rx_leads (rx_row M width rows ns 0 0 e) (?t @ l) (rx_row ?M width (rows @ [row]) [] 0 0 0) (drop (length ?t) (?t @ l))"
  proof (rule rx_leads_step [OF rx_row_page [OF _ e] rx_row_buffered])
    fix s bs
    assume s: "rx_row M width rows ns 0 0 e s" "13 \<le> tr_rx_bits s" "t4_rx_line s bs = ?t @ l"
    then show "\<exists>s'. rx_step s = Some (False, s') \<and> rx_row ?M width (rows @ [row]) [] 0 0 0 s' \<and>
        tr_rx_bitstream s' = drop_bit (length ?t) (tr_rx_bitstream s) \<and> tr_rx_bits s' = tr_rx_bits s - int (length ?t)"
      using row_eol_step [OF s(1) c row width ns s(3,2)] rx_eol_window [OF s(2), of bs] by (simp add: rx_step_def take_eol_tag)
  qed (use l in \<open>auto simp: take_eol_tag Suc_le_eq split: if_splits\<close>)
  then show ?thesis
    by (simp add: take_eol_tag)
qed

text \<open>EOLs without a row between them, up to the fourth.\<close>

lemma blank_eol:
  assumes c: "page_coding c" "c = T4_COMPRESSION_ITU_T4_1D \<longrightarrow> \<not> d" and e: "e < 4" and l: "l \<noteq> []"
  shows "rx_leads (rx_row (rm_row c d r) width rows [] 0 0 e) (eol_tag c one @ l) (rx_row (rm_row c (eol_2d c one) r) width rows [] 0 0 (Suc e)) l"
proof -
  let ?t = "eol_tag c one"
  have "e < 6"
    using e by simp
  have "rx_leads (rx_row (rm_row c d r) width rows [] 0 0 e) (?t @ l) (rx_row (rm_row c (eol_2d c one) r) width rows [] 0 0 (Suc e)) (drop (length ?t) (?t @ l))"
  proof (rule rx_leads_step [OF rx_row_page [OF _ \<open>e < 6\<close>] rx_row_buffered])
    fix s bs
    assume s: "rx_row (rm_row c d r) width rows [] 0 0 e s" "13 \<le> tr_rx_bits s" "t4_rx_line s bs = ?t @ l"
    let ?q = "s\<lparr>tr_consecutive_eols := tr_consecutive_eols s + 1\<rparr>"
    have step: "rx_step s = Some (False, drop_eol ?q)"
      using s rx_eol_window [OF s(2), of bs] e c(1)
      by (simp add: rx_step_def take_eol_tag rx_eol_def rx_row_def drop_eol_def Let_def EOLS_TO_END_T4_RX_PAGE_def)
    have q: "t4_rx_line ?q bs = ?t @ l" "13 \<le> tr_rx_bits ?q" "tr_line_encoding ?q = c" "c \<noteq> T4_COMPRESSION_ITU_T4_2D \<longrightarrow> \<not> tr_row_is_2d ?q"
      using s c by (auto simp: t4_rx_line_def rx_row_def page_coding_def)
    have "rx_row (rm_row c (eol_2d c one) r) width rows [] 0 0 (Suc e) (drop_eol ?q)"
      using s(1) drop_eol_row(1) [OF q] by (simp add: rx_row_def drop_eol_same)
    then show "\<exists>s'. rx_step s = Some (False, s') \<and> rx_row (rm_row c (eol_2d c one) r) width rows [] 0 0 (Suc e) s' \<and>
        tr_rx_bitstream s' = drop_bit (length ?t) (tr_rx_bitstream s) \<and> tr_rx_bits s' = tr_rx_bits s - int (length ?t)"
      using step drop_eol_row(2,3) [OF q] by simp
  qed (use l in \<open>auto simp: take_eol_tag Suc_le_eq split: if_splits\<close>)
  then show ?thesis
    by (simp add: take_eol_tag)
qed

section \<open>Fill\<close>

lemma mode_entry_fill:
  assumes "map (bit x) [0..<12] = replicate 12 False"
  shows "t4_2d_table (x AND 0x7F) = (S_Null, 1, 0)"
proof -
  have "x AND 0x7F = take_bit 7 x"
    by (simp add: take_bit_eq_mask mask_eq_exp_minus_1)
  also have "\<dots> = 0"
  proof (rule bit_word_eqI)
    fix j
    show "bit (take_bit 7 x) j = bit 0 j"
      using arg_cong [OF assms, of "\<lambda>l. l ! j"] by (auto simp: bit_take_bit_iff)
  qed
  finally show ?thesis
    by (simp only:) code_simp
qed

lemma fill_bits:
  assumes c: "page_coding (rm_coding M)" "rm_bw M = 0" and e: "e < 6" and full: "rm_2d M \<longrightarrow> sum_list ns = width"
  shows "rx_leads (rx_row M width rows ns 0 0 e) (replicate k False @ eol_bits @ l) (rx_row M width rows ns 0 0 e) (eol_bits @ l)"
proof (induction k)
  case (Suc k)
  let ?l = "replicate (Suc k) False @ eol_bits @ l"
  have "Suc k + 11 = 12 + k"
    by simp
  then have "replicate (Suc k) False @ replicate 11 False = replicate 12 False @ replicate k False"
    by (simp only: replicate_add [symmetric])
  moreover have "?l = (replicate (Suc k) False @ replicate 11 False) @ True # l"
    by (simp add: eol_bits_def)
  ultimately have zeros: "?l = replicate 12 False @ replicate k False @ True # l"
    by (simp only: append_assoc)
  have twelve: "take 12 ?l = replicate 12 False"
    unfolding zeros by simp
  then have no_eol: "take 12 ?l \<noteq> eol_bits"
    by (simp add: eol_bits_def numeral_eq_Suc)
  have window: "map (bit x) [0..<12] = replicate 12 False" if "map (bit x) [0..<13] = take 13 ?l" for x :: u32
  proof -
    have "map (bit x) [0..<12] = take 12 (map (bit x) [0..<13])"
      by (simp add: take_map)
    also have "\<dots> = take 12 ?l"
      unfolding that by (simp only: take_take) simp
    finally show ?thesis
      using twelve by (simp only:)
  qed
  have "rx_leads (rx_row M width rows ns 0 0 e) ?l (rx_row M width rows ns 0 (1 - 1) e) (drop 1 ?l)"
  proof (cases "rm_2d M")
    case False
    then have M: "rm_runs M" "rm_coding M \<noteq> T4_COMPRESSION_ITU_T6"
      using c by (simp_all add: rm_runs_def)
    show ?thesis
    proof (rule code_first_bit [OF _ no_eol _ e M])
      show "run_entry (odd (length ns)) x = (S_Null, 1, 0)" if "map (bit x) [0..<13] = take 13 ?l" for x
        by (rule run_entry_fill) (rule window [OF that])
      show "\<exists>s'. rx_1d_run S_Null 0 s = Some s' \<and> rx_row M width rows ns 0 0 e s' \<and> tr_rx_bitstream s' = tr_rx_bitstream s \<and> tr_rx_bits s' = tr_rx_bits s"
        if "rx_row M width rows ns 0 0 e s" for s
        using that c(2) by (auto simp: rx_1d_run_def rx_row_def)
    qed (simp_all add: take_eol)
  next
    case True
    show ?thesis
    proof (rule rx_leads_step [OF rx_row_page [OF _ e] rx_row_buffered])
      fix s bs
      assume s: "rx_row M width rows ns 0 0 e s" "13 \<le> tr_rx_bits s" "t4_rx_line s bs = ?l"
      have "map (bit (tr_rx_bitstream s)) [0..<13] = take 13 ?l"
        using t4_rx_window [OF s(2), of bs] s(3) by simp
      then have entry: "t4_2d_table (tr_rx_bitstream s AND 0x7F) = (S_Null, 1, 0)"
        by (rule mode_entry_fill [OF window])
      have "\<not> tr_rx_bitstream s AND 0xFFF = 0x800"
        using rx_eol_window [OF s(2), of bs] no_eol unfolding s(3) by blast
      then have "rx_step s = Some (False, drop_rx_bits 1 s)"
        using s(1) True c(2) full entry by (simp add: rx_step_def rx_row_def)
      then show "\<exists>s'. rx_step s = Some (False, s') \<and> rx_row M width rows ns 0 (1 - 1) e s' \<and>
          tr_rx_bitstream s' = drop_bit 1 (tr_rx_bitstream s) \<and> tr_rx_bits s' = tr_rx_bits s - int 1"
        using drop_rx_bits_row [OF s(1), of 1] by (simp add: drop_rx_bits_def)
    qed (simp_all add: take_eol)
  qed
  then show ?case
    using Suc rx_leads_trans by simp
qed simp

end
