(* ===== verification/T4_Rx_Modes.thy ===== *)
theory T4_Rx_Modes
  imports T4_Rx_Eol
begin

text \<open>
  The decoder of \<^verbatim>\<open>t4_rx.c\<close> on the modes of a two-dimensional row: with the row above as its reference, it finds the
  same position in it as the coding does, and takes over the runs of the row.
\<close>

section \<open>The reference row\<close>

definition ref_pos :: "nat list \<Rightarrow> nat \<Rightarrow> u32 list \<Rightarrow> int \<Rightarrow> int \<Rightarrow> bool" where
  "ref_pos ns c refs b_cursor b1 \<longleftrightarrow> holds_runs (ns @ [0, 0]) refs \<and> b_cursor = int c \<and> b1 = int (pos ns c)"

definition rm_modes :: "nat list \<Rightarrow> nat \<Rightarrow> rx_mode" where
  "rm_modes ns c = rm_row T4_COMPRESSION_ITU_T4_2D True (ref_pos ns c)"

lemma rm_modes_simps [simp]:
  "rm_coding (rm_modes ns c) = T4_COMPRESSION_ITU_T4_2D" "rm_2d (rm_modes ns c)" "rm_bw (rm_modes ns c) = 0"
  "rm_ref (rm_modes ns c) = ref_pos ns c" "\<not> rm_runs (rm_modes ns c)" "\<not> rm_exact (rm_modes ns c)"
  by (simp_all add: rm_modes_def rm_runs_def)

lemma ref_start_pos: "ns \<noteq> [] \<Longrightarrow> ref_start ns = ref_pos ns 1"
  by (cases ns) (simp_all add: fun_eq_iff ref_start_def ref_pos_def pos_def)

lemma int_add_nat:
  assumes "int (p + a) < 2 ^ 31"
  shows "int_add (int p) (of_nat a) = int (p + a)"
proof -
  have "(word_of_int (int p) + of_nat a :: u32) = of_nat (p + a)"
    by simp
  then show ?thesis
    using u32_of_nat(2) [OF assms] by (simp only: int_add_def)
qed

lemma int_sub_nat:
  assumes "int p < 2 ^ 31" "a \<le> p"
  shows "int_add (int p) (- of_nat a) = int (p - a)"
proof -
  have "(word_of_int (int p) + - of_nat a :: u32) = of_nat (p - a)"
    using assms(2) by (simp add: of_nat_diff)
  moreover have "int (p - a) < 2 ^ 31"
    using assms(1) by simp
  ultimately show ?thesis
    using u32_of_nat(2) by (simp only: int_add_def)
qed

text \<open>The runs are read from the reference row, with two empty runs behind its end.\<close>

lemma ref_get:
  assumes "holds_runs (ns @ [0, 0]) refs" "c < length ns + 2"
  shows "arr_get refs (int c) = Some (of_nat (pos ns (Suc c) - pos ns c))"
proof -
  have "(ns @ [0, 0]) ! c = pos ns (Suc c) - pos ns c"
    using assms(2) by (auto simp: pos_step nth_append less_Suc_eq)
  then show ?thesis
    using holds_runs_nth [OF assms(1), of c] assms(2) by simp
qed

lemma pos_next: "pos ns c + (pos ns (Suc c) - pos ns c) = pos ns (Suc c)"
  using pos_mono [of c "Suc c" ns] by simp

lemma step_b1_ref:
  assumes "ref_pos ns c (tr_ref_runs s) (tr_b_cursor s) (tr_b1 s)" "c < length ns + 2" "int (sum_list ns) < 2 ^ 31"
  shows "step_b1 s = Some (s\<lparr>tr_b1 := int (pos ns (Suc c)), tr_b_cursor := int (Suc c)\<rparr>)"
proof -
  have s: "arr_get (tr_ref_runs s) (int c) = Some (of_nat (pos ns (Suc c) - pos ns c))" "tr_b_cursor s = int c" "tr_b1 s = int (pos ns c)"
    using ref_get [of ns "tr_ref_runs s" c] assms(1,2) by (simp_all add: ref_pos_def)
  have "int (pos ns c + (pos ns (Suc c) - pos ns c)) < 2 ^ 31"
    using assms(3) pos_bound [of ns "Suc c"] unfolding pos_next by simp
  from int_add_nat [OF this] show ?thesis
    unfolding step_b1_def s bind.simps pos_next by (simp add: add.commute)
qed

text \<open>The search passes over the changes on the left of \<open>a0\<close>.\<close>

lemma pass_a0_ref:
  assumes "ref_pos ns b (tr_ref_runs s) (tr_b_cursor s) (tr_b1 s)" "b \<le> c" "even (c - b)" "tr_a0 s = int a" "a < pos ns c"
    "\<And>j. b \<le> j \<Longrightarrow> j < c \<Longrightarrow> even (c - j) \<Longrightarrow> pos ns j \<le> a" "int (sum_list ns) < 2 ^ 31"
  shows "pass_a0 s = Some (s\<lparr>tr_b1 := int (pos ns c), tr_b_cursor := int c\<rparr>)"
  using assms(1-6)
proof (induction "c - b" arbitrary: s b rule: less_induct)
  case less
  have b: "tr_b_cursor s = int b" "tr_b1 s = int (pos ns b)" "holds_runs (ns @ [0, 0]) (tr_ref_runs s)"
    using less.prems(1) by (simp_all add: ref_pos_def)
  show ?case
  proof (cases "b = c")
    case True
    then show ?thesis
      using less.prems(4,5) b by (subst pass_a0.simps) simp
  next
    case False
    then have bc: "b + 2 \<le> c"
      using less.prems(2,3) by (cases "c - b = 1") auto
    have before: "pos ns b \<le> a"
      using less.prems(2,3,6) False by simp
    then have "b < length ns"
      using pos_all [of ns b] pos_bound [of ns c] less.prems(5) by (cases "length ns \<le> b") auto
    then have get: "arr_get (tr_ref_runs s) (int b) = Some (of_nat (pos ns (Suc b) - pos ns b))"
      "arr_get (tr_ref_runs s) (int b + 1) = Some (of_nat (pos ns (Suc (Suc b)) - pos ns (Suc b)))"
      using ref_get [OF b(3), of b] ref_get [OF b(3), of "Suc b"] by (simp_all add: add.commute)
    let ?s = "s\<lparr>tr_b1 := int (pos ns (b + 2)), tr_b_cursor := int (b + 2)\<rparr>"
    have sum: "pos ns b + ((pos ns (Suc b) - pos ns b) + (pos ns (Suc (Suc b)) - pos ns (Suc b))) = pos ns (b + 2)"
      using pos_mono [of b "Suc b" ns] pos_mono [of "Suc b" "Suc (Suc b)" ns] by simp
    have "int (pos ns b + ((pos ns (Suc b) - pos ns b) + (pos ns (Suc (Suc b)) - pos ns (Suc b)))) < 2 ^ 31"
      using pos_bound [of ns "b + 2"] assms(7) unfolding sum by simp
    from int_add_nat [OF this] have "int_add (int (pos ns b)) (of_nat (pos ns (Suc b) - pos ns b) + of_nat (pos ns (Suc (Suc b)) - pos ns (Suc b))) = int (pos ns (b + 2))"
      unfolding sum by (simp only: of_nat_add)
    then have "pass_a0 s = pass_a0 ?s"
      using before less.prems(4) get b(1,2) by (subst pass_a0.simps) (simp add: add.commute)
    also have "\<dots> = Some (?s\<lparr>tr_b1 := int (pos ns c), tr_b_cursor := int c\<rparr>)"
    proof (rule less.hyps [of "b + 2"])
      show "ref_pos ns (b + 2) (tr_ref_runs ?s) (tr_b_cursor ?s) (tr_b1 ?s)"
        using b(3) by (simp add: ref_pos_def)
      show "even (c - (b + 2))"
        using less.prems(3) bc by simp
      show "pos ns j \<le> a" if "b + 2 \<le> j" "j < c" "even (c - j)" for j
        using less.prems(6) [of j] that by simp
    qed (use less.prems(4,5) bc in simp_all)
    finally show ?thesis
      by simp
  qed
qed

section \<open>Code words of modes\<close>

text \<open>What the decoder does for the state and the parameter of a table entry.\<close>

definition mode_effect :: "t4_code_state \<Rightarrow> int \<Rightarrow> t4_rx_state \<Rightarrow> t4_rx_state option" where
  "mode_effect state param s =
     (case state of
        S_Horiz \<Rightarrow> Some (s\<lparr>tr_its_black := (tr_a_cursor s mod 2 = 1), tr_black_white := 2\<rparr>)
      | S_Vert \<Rightarrow> rx_vertical param s
      | S_Pass \<Rightarrow> rx_pass s
      | _ \<Rightarrow> Some s)"

text \<open>The search in front of a code, when \<open>c\<close> is the change it has to find.\<close>

lemma hunt_row:
  assumes s: "rx_row (rm_modes ns b) width rows ks m 0 e s" and c: "opposite ns q (length ks) c" and b: "b \<le> c" "odd (b + length ks)" "ks = [] \<longrightarrow> b = c"
    and q: "q \<le> width" "sum_list ks + m = q - 1" "q = 0 \<longrightarrow> ks = []" and ns: "sum_list ns = width" "int width < 2 ^ 31" and width: "0 < width"
  shows "\<exists>s'. (if tr_a_cursor s \<noteq> 0 then pass_a0 s else Some s) = Some s' \<and> rx_row (rm_modes ns c) width rows ks m 0 e s' \<and>
    tr_rx_bitstream s' = tr_rx_bitstream s \<and> tr_rx_bits s' = tr_rx_bits s"
proof (cases "ks = []")
  case True
  then show ?thesis
    using s b(3) by (simp add: rx_row_def)
next
  case False
  let ?s = "s\<lparr>tr_b1 := int (pos ns c), tr_b_cursor := int c\<rparr>"
  have q0: "0 < q"
    using False q(3) by (cases q) auto
  have ref: "ref_pos ns b (tr_ref_runs s) (tr_b_cursor s) (tr_b1 s)" "tr_a_cursor s \<noteq> 0" "tr_a0 s = int (q - 1)"
    using s False q(1,2) q0 by (simp_all add: rx_row_def)
  have "pass_a0 s = Some ?s"
  proof (rule pass_a0_ref [OF ref(1) b(1) _ ref(3)])
    show "even (c - b)" "q - 1 < pos ns c"
      using c b(1,2) q0 by (auto simp: opposite_def)
    show "pos ns j \<le> q - 1" if "j < c" "even (c - j)" for j
    proof -
      have "odd (j + length ks)"
        using c that by (auto simp: opposite_def)
      then have "pos ns j < q"
        using c that(1) by (simp add: opposite_def)
      then show ?thesis
        by simp
    qed
  qed (use ns in simp)
  moreover have "rx_row (rm_modes ns c) width rows ks m 0 e ?s"
    using s by (simp add: rx_row_def ref_pos_def)
  ultimately show ?thesis
    using ref(2) by (intro exI [of _ ?s]) simp
qed

text \<open>The first bit of the code word of a mode, and the word.\<close>

lemma mode_first_bit:
  assumes l: "13 \<le> length l" "take 12 l \<noteq> eol_bits" and n: "1 \<le> n" and e: "e < 6" and M: "rm_2d M" "rm_bw M = 0" "rm_coding M' \<noteq> T4_COMPRESSION_ITU_T6"
    and room: "sum_list ns < width"
    and hunt: "\<And>s. rx_row M width rows ns m 0 e s \<Longrightarrow> \<exists>s'. (if tr_a_cursor s \<noteq> 0 then pass_a0 s else Some s) = Some s' \<and>
      rx_row M1 width rows ns m 0 e s' \<and> tr_rx_bitstream s' = tr_rx_bitstream s \<and> tr_rx_bits s' = tr_rx_bits s"
    and entry: "\<And>x. map (bit x) [0..<13] = take 13 l \<Longrightarrow> t4_2d_table (x AND 0x7F) = (state, n, param)"
    and effect: "\<And>s. rx_row M1 width rows ns m 0 e s \<Longrightarrow> \<exists>s'. mode_effect state param s = Some s' \<and> rx_row M' width rows ns' m' 0 e s' \<and>
      tr_rx_bitstream s' = tr_rx_bitstream s \<and> tr_rx_bits s' = tr_rx_bits s"
  shows "rx_leads (rx_row M width rows ns m 0 e) l (rx_row M' width rows ns' m' (n - 1) e) (drop 1 l)"
proof (rule rx_leads_step [OF rx_row_page [OF _ e] rx_row_buffered l(1)])
  fix s bs
  assume s: "rx_row M width rows ns m 0 e s" "13 \<le> tr_rx_bits s" "t4_rx_line s bs = l"
  then have eol: "\<not> tr_rx_bitstream s AND 0xFFF = 0x800"
    using rx_eol_window [OF s(2), of bs] l(2) by simp
  have "map (bit (tr_rx_bitstream s)) [0..<13] = take 13 l"
    using t4_rx_window [OF s(2), of bs] s(3) by simp
  then have tab: "t4_2d_table (tr_rx_bitstream s AND 0x7F) = (state, n, param)"
    by (rule entry)
  obtain s1 where s1: "(if tr_a_cursor s \<noteq> 0 then pass_a0 s else Some s) = Some s1" "rx_row M1 width rows ns m 0 e s1"
    "tr_rx_bitstream s1 = tr_rx_bitstream s" "tr_rx_bits s1 = tr_rx_bits s"
    using hunt [OF s(1)] by blast
  obtain s2 where s2: "mode_effect state param s1 = Some s2" "rx_row M' width rows ns' m' 0 e s2"
    "tr_rx_bitstream s2 = tr_rx_bitstream s1" "tr_rx_bits s2 = tr_rx_bits s1"
    using effect [OF s1(2)] by blast
  have code: "rx_2d_code s = Some (drop_rx_bits n s2)"
    unfolding rx_2d_code_def s1(1) bind.simps s1(3) tab Let_def prod.case using s2(1) unfolding mode_effect_def by simp
  obtain s' where s': "rx_code_end (drop_rx_bits n s2) = Some s'" "rx_row M' width rows ns' m' (n - 1) e s'"
    "tr_rx_bitstream s' = drop_bit 1 (tr_rx_bitstream s)" "tr_rx_bits s' = tr_rx_bits s - int 1"
    using rx_code_end_row [OF drop_rx_bits_row [OF s2(2) n] M(3)] s1(3,4) s2(3,4) by (auto simp: drop_rx_bits_def)
  have "tr_row_is_2d s" "tr_black_white s = 0" "tr_rx_skip_bits s = 0" "\<not> tr_row_len s \<ge> tr_image_width s"
    using s(1) M(1,2) room by (simp_all add: rx_row_def)
  then have "rx_step s = Some (False, s')"
    using eol code s'(1) by (simp add: rx_step_def)
  then show "\<exists>s'. rx_step s = Some (False, s') \<and> rx_row M' width rows ns' m' (n - 1) e s' \<and>
      tr_rx_bitstream s' = drop_bit 1 (tr_rx_bitstream s) \<and> tr_rx_bits s' = tr_rx_bits s - int 1"
    using s'(2-4) by blast
qed simp_all

lemma mode_word:
  assumes i: "i < 9" and l: "12 \<le> length l" "no_eol (code_bits (t4_2d_codes ! i)) l" and e: "e < 6"
    and c: "opposite ns q (length ks) c" and b: "b \<le> c" "odd (b + length ks)" "ks = [] \<longrightarrow> b = c"
    and q: "q \<le> width" "sum_list ks + m = q - 1" "q = 0 \<longrightarrow> ks = []" and ns: "sum_list ns = width" "int width < 2 ^ 31" and room: "sum_list ks < width"
    and M': "rm_coding M' \<noteq> T4_COMPRESSION_ITU_T6"
    and effect: "\<And>s. rx_row (rm_modes ns c) width rows ks m 0 e s \<Longrightarrow> \<exists>s'. mode_effect (fst (mode_entry i)) (snd (mode_entry i)) s = Some s' \<and>
      rx_row M' width rows ks' m' 0 e s' \<and> tr_rx_bitstream s' = tr_rx_bitstream s \<and> tr_rx_bits s' = tr_rx_bits s"
  shows "rx_leads (rx_row (rm_modes ns b) width rows ks m 0 e) (code_bits (t4_2d_codes ! i) @ l) (rx_row M' width rows ks' m' 0 e) l"
proof -
  let ?w = "code_bits (t4_2d_codes ! i)"
  obtain y ys where w: "?w = y # ys"
    using mode_word_not_empty [OF i] by (cases ?w) auto
  have "rx_leads (rx_row (rm_modes ns b) width rows ks m 0 e) (?w @ l) (rx_row M' width rows ks' m' (length ?w - 1) e) (drop 1 (?w @ l))"
  proof (rule mode_first_bit [OF _ _ _ e _ _ M' room hunt_row [OF _ c b q ns] _ effect])
    show "t4_2d_table (x AND 0x7F) = (fst (mode_entry i), length ?w, snd (mode_entry i))" if "map (bit x) [0..<13] = take 13 (?w @ l)" for x
      by (rule mode_entry_code [OF i that [symmetric]])
  qed (use l w room in auto)
  moreover have "rx_leads (rx_row M' width rows ks' m' (length ys) e) (ys @ l) (rx_row M' width rows ks' m' 0 e) l"
    using l w by (intro skip_bits e) auto
  ultimately show ?thesis
    using w rx_leads_trans by simp
qed

section \<open>The effect of modes\<close>

lemma step_back:
  assumes "ref_pos ns c (tr_ref_runs s) (tr_b_cursor s) (tr_b1 s)" "1 \<le> c" "c < length ns + 2" "int (sum_list ns) < 2 ^ 31"
  shows "arr_get (tr_ref_runs s) (tr_b_cursor s - 1) = Some (of_nat (pos ns c - pos ns (c - 1)))"
    "int_add (tr_b1 s) (- of_nat (pos ns c - pos ns (c - 1))) = int (pos ns (c - 1))"
proof -
  have c: "Suc (c - 1) = c" "tr_b_cursor s - 1 = int (c - 1)" "tr_b1 s = int (pos ns c)"
    using assms(1,2) by (simp_all add: ref_pos_def of_nat_diff)
  show "arr_get (tr_ref_runs s) (tr_b_cursor s - 1) = Some (of_nat (pos ns c - pos ns (c - 1)))"
    using ref_get [of ns "tr_ref_runs s" "c - 1"] assms(1,3) unfolding c by (simp add: ref_pos_def)
  have "pos ns c - (pos ns c - pos ns (c - 1)) = pos ns (c - 1)" "int (pos ns c) < 2 ^ 31"
    using pos_mono [of "c - 1" c ns] pos_bound [of ns c] assms(4) by simp_all
  then show "int_add (tr_b1 s) (- of_nat (pos ns c - pos ns (c - 1))) = int (pos ns (c - 1))"
    using int_sub_nat [of "pos ns c" "pos ns c - pos ns (c - 1)"] unfolding c by simp
qed

lemma vertical_effect:
  assumes s: "rx_row (rm_modes ns c) width rows ks m 0 e s" and ns: "sum_list ns = width" "int width < 2 ^ 31" and c: "1 \<le> c" "c < length ns + 2"
    and a: "sum_list ks + m < width" "sum_list ks + m \<le> a" "a \<le> width" and ks: "length ks < width + 4" and d: "d = int a - int (pos ns c)"
  shows "\<exists>s'. mode_effect S_Vert d s = Some s' \<and> rx_row (rm_modes ns (if 0 \<le> d then Suc c else c - 1)) width rows (ks @ [a - sum_list ks]) 0 0 e s' \<and>
    tr_rx_bitstream s' = tr_rx_bitstream s \<and> tr_rx_bits s' = tr_rx_bits s"
proof -
  let ?n = "a - sum_list ks" and ?r = "int (a - sum_list ks)"
  define s1 where "s1 = s\<lparr>tr_run_length := 0, tr_a0 := int a, tr_row_len := int (sum_list (ks @ [?n])),
    tr_cur_runs := (tr_cur_runs s)[length ks := of_nat ?n], tr_a_cursor := int (length (ks @ [?n]))\<rparr>"
  have le: "sum_list ks \<le> a"
    using a(2) by simp
  have run: "tr_run_length s + (tr_b1 s - tr_a0 s + d) = ?r" "tr_b1 s + d = int a"
    using s a(1) le d by (simp_all add: rx_row_def ref_pos_def of_nat_diff)
  have cap: "length ks < length (tr_cur_runs s)"
    using s ks by (simp add: rx_row_def)
  then have add: "add_run_to_row (s\<lparr>tr_run_length := tr_run_length s + (tr_b1 s - tr_a0 s + d), tr_a0 := tr_b1 s + d\<rparr>) = Some s1"
    unfolding run using add_run [of "s\<lparr>tr_run_length := ?r, tr_a0 := int a\<rparr>" ?n ks width] s le a(3) by (simp add: rx_row_def s1_def)
  have row: "rx_row (rm_modes ns c) width rows (ks @ [?n]) 0 0 e s1"
    using s cap le a(3) holds_runs_snoc [of ks "tr_cur_runs s" ?n] by (simp add: rx_row_def s1_def)
  then have ref: "ref_pos ns c (tr_ref_runs s1) (tr_b_cursor s1) (tr_b1 s1)"
    by (simp add: rx_row_def)
  have same: "tr_rx_bitstream s1 = tr_rx_bitstream s" "tr_rx_bits s1 = tr_rx_bits s"
    by (simp_all add: s1_def)
  show ?thesis
  proof (cases "0 \<le> d")
    case True
    have "mode_effect S_Vert d s = Some (s1\<lparr>tr_b1 := int (pos ns (Suc c)), tr_b_cursor := int (Suc c)\<rparr>)"
      using True add step_b1_ref [OF ref c(2)] ns by (simp add: mode_effect_def rx_vertical_def)
    moreover have "rx_row (rm_modes ns (Suc c)) width rows (ks @ [?n]) 0 0 e (s1\<lparr>tr_b1 := int (pos ns (Suc c)), tr_b_cursor := int (Suc c)\<rparr>)"
      using row by (simp add: rx_row_def ref_pos_def)
    ultimately show ?thesis
      using True same by simp
  next
    case False
    have "tr_b_cursor s1 \<noteq> 0" "tr_b_cursor s1 - 1 = int (c - 1)"
      using ref c(1) by (simp_all add: ref_pos_def of_nat_diff)
    then have "mode_effect S_Vert d s = Some (s1\<lparr>tr_b1 := int (pos ns (c - 1)), tr_b_cursor := int (c - 1)\<rparr>)"
      using False add step_back [OF ref c] ns by (simp add: mode_effect_def rx_vertical_def)
    moreover have "rx_row (rm_modes ns (c - 1)) width rows (ks @ [?n]) 0 0 e (s1\<lparr>tr_b1 := int (pos ns (c - 1)), tr_b_cursor := int (c - 1)\<rparr>)"
      using row by (simp add: rx_row_def ref_pos_def)
    ultimately show ?thesis
      using False same by simp
  qed
qed

lemma pass_effect:
  assumes s: "rx_row (rm_modes ns c) width rows ks m 0 e s" and ns: "sum_list ns = width" "int width < 2 ^ 31"
    and a: "sum_list ks + m \<le> pos ns (Suc c)" "pos ns (Suc c) < width"
  shows "\<exists>s'. mode_effect S_Pass 0 s = Some s' \<and> rx_row (rm_modes ns (c + 2)) width rows ks (pos ns (Suc c) - sum_list ks) 0 e s' \<and>
    tr_rx_bitstream s' = tr_rx_bitstream s \<and> tr_rx_bits s' = tr_rx_bits s"
proof -
  let ?p = "pos ns (Suc c)"
  have "\<not> length ns \<le> Suc c"
    using pos_all [of ns "Suc c"] a(2) ns(1) by auto
  then have c: "c < length ns + 2" "Suc c < length ns + 2"
    by simp_all
  have ref: "ref_pos ns c (tr_ref_runs s) (tr_b_cursor s) (tr_b1 s)" and run: "tr_run_length s + (int ?p - tr_a0 s) = int (?p - sum_list ks)"
    using s a by (simp_all add: rx_row_def of_nat_diff)
  let ?s1 = "s\<lparr>tr_b1 := int ?p, tr_b_cursor := int (Suc c)\<rparr>"
  let ?s2 = "?s1\<lparr>tr_run_length := int (?p - sum_list ks), tr_a0 := int ?p\<rparr>"
  let ?s3 = "?s2\<lparr>tr_b1 := int (pos ns (Suc (Suc c))), tr_b_cursor := int (Suc (Suc c))\<rparr>"
  have "step_b1 s = Some ?s1"
    using step_b1_ref [OF ref c(1)] ns by simp
  moreover have "ref_pos ns (Suc c) (tr_ref_runs ?s2) (tr_b_cursor ?s2) (tr_b1 ?s2)"
    using ref by (simp add: ref_pos_def)
  then have "step_b1 ?s2 = Some ?s3"
    using step_b1_ref [of ns "Suc c" ?s2] c(2) ns by simp
  ultimately have "mode_effect S_Pass 0 s = Some ?s3"
    using run by (simp add: mode_effect_def rx_pass_def)
  moreover have "rx_row (rm_modes ns (c + 2)) width rows ks (?p - sum_list ks) 0 e ?s3"
    using s a by (simp add: rx_row_def ref_pos_def)
  ultimately show ?thesis
    by (intro exI [of _ ?s3]) simp
qed

lemma horizontal_effect:
  assumes "rx_row (rm_modes ns c) width rows ks m 0 e s"
  shows "\<exists>s'. mode_effect S_Horiz 0 s = Some s' \<and> rx_row (rm_modes ns c\<lparr>rm_bw := 2\<rparr>) width rows ks m 0 e s' \<and>
    tr_rx_bitstream s' = tr_rx_bitstream s \<and> tr_rx_bits s' = tr_rx_bits s"
proof -
  have "(int (length ks) mod 2 = 1) = odd (length ks)"
    by presburger
  then show ?thesis
    using assms by (simp add: mode_effect_def rx_row_def)
qed

section \<open>Two-dimensional rows\<close>

text \<open>The second run of horizontal mode, which is empty if the first one ends the row.\<close>

lemma second_run:
  assumes M: "rm_2d M" "rm_bw M = 1" "rm_coding M \<noteq> T4_COMPRESSION_ITU_T6" and k: "k < length cs" and cs: "row_ok width cs" "length cs \<le> width + 1"
    and l: "12 \<le> length l" "no_eol (words_bits (span_words (odd (Suc k)) (pos cs (k + 2) - pos cs (Suc k)))) l" and e: "e < 6"
  shows "rx_leads (rx_row M width rows (take (Suc k) cs) 0 0 e) (words_bits (span_words (odd (Suc k)) (pos cs (k + 2) - pos cs (Suc k))) @ l)
    (rx_row (rm_next M) width rows (take (k + 2) cs) 0 0 e) l"
proof (cases "Suc k < length cs")
  case True
  have runs: "rm_runs M"
    using M by (simp add: rm_runs_def)
  have n: "take (k + 2) cs = take (Suc k) cs @ [0 + (pos cs (k + 2) - pos cs (Suc k))]"
    using True by (simp add: pos_Suc take_Suc_conv_app_nth)
  have "sum_list (take (Suc k) cs) + (pos cs (k + 2) - pos cs (Suc k)) \<le> width"
    using pos_mono [of "Suc k" "k + 2" cs] pos_bound [of cs "k + 2"] cs(1) by (simp add: pos_def row_ok_def)
  moreover have "sum_list (take (Suc k) cs) < width"
    using pos_strict [OF cs(1), of "Suc k"] pos_bound [of cs "Suc (Suc k)"] True cs(1) by (simp add: pos_def row_ok_def)
  ultimately show ?thesis
    unfolding n using True cs(2) by (intro span_decoded l e runs) simp_all
next
  case False
  have n: "pos cs (k + 2) - pos cs (Suc k) = 0" "take (k + 2) cs = take (Suc k) cs" "sum_list (take (Suc k) cs) = width" "length (take (Suc k) cs) = Suc k"
    using False k cs(1) by (simp_all add: pos_def row_ok_def)
  have w: "span_words black 0 = [t4_run_codes black ! 0]" for black
    by (subst span_words.simps) simp
  have ne: "no_eol (code_bits (t4_run_codes (odd (Suc k)) ! 0)) l"
    using l(2) unfolding n(1) w by simp
  have "rx_leads (rx_row M width rows (take (Suc k) cs) 0 0 e) (code_bits (t4_run_codes (odd (Suc k)) ! 0) @ l)
      (rx_row (rm_next M) width rows (take (Suc k) cs) 0 0 e) l"
  proof (rule code_word [OF _ l(1) ne e])
    show "\<exists>s'. rx_1d_run (run_state (odd (Suc k)) 0) (if 0 < (64 :: nat) then int 0 else 64 * (int 0 - 63)) s = Some s' \<and>
        rx_row (rm_next M) width rows (take (Suc k) cs) 0 0 e s' \<and> tr_rx_bitstream s' = tr_rx_bitstream s \<and> tr_rx_bits s' = tr_rx_bits s"
      if "rx_row M width rows (take (Suc k) cs) 0 0 e s" for s
      using empty_run [OF that M n(3), of "odd (Suc k)"] n(4) by simp
  qed (use n(4) M in \<open>simp_all add: rm_runs_def\<close>)
  then show ?thesis
    unfolding n(1,2) w by simp
qed

lemma horizontal_decoded:
  assumes c: "opposite ns q k c" and b: "b \<le> c" "odd (b + k)" "k = 0 \<longrightarrow> b = c" and at: "coding_at cs q k" "q \<le> width"
    and ok: "row_ok width ns" "row_ok width cs" "int width < 2 ^ 31" "length cs \<le> width + 1" "0 < width" and e: "e < 6"
    and l: "12 \<le> length l" "no_eol (words_bits (mode_words (Horizontal (odd k) (pos cs (Suc k) - (q - 1)) (pos cs (k + 2) - pos cs (Suc k))))) l"
  shows "rx_leads (rx_row (rm_modes ns b) width rows (take k cs) (q - 1 - pos cs k) 0 e)
    (words_bits (mode_words (Horizontal (odd k) (pos cs (Suc k) - (q - 1)) (pos cs (k + 2) - pos cs (Suc k)))) @ l)
    (rx_row (rm_modes ns c) width rows (take (k + 2) cs) 0 0 e) l"
proof -
  let ?n1 = "pos cs (Suc k) - (q - 1)" and ?n2 = "pos cs (k + 2) - pos cs (Suc k)" and ?m = "q - 1 - pos cs k"
  let ?w1 = "words_bits (span_words (odd k) ?n1)" and ?w2 = "words_bits (span_words (odd (Suc k)) ?n2)"
  let ?M = "rm_modes ns c\<lparr>rm_bw := 2\<rparr>"
  have cs: "sum_list cs = width" and ns: "sum_list ns = width"
    using ok by (simp_all add: row_ok_def)
  note at' = coding_at_bounds [OF at(1) at(2) [folded cs] ok(2)]
  have sum: "sum_list (take k cs) = pos cs k" "length (take k cs) = k"
    using at'(1) by (simp_all add: pos_def)
  have less: "pos cs k + ?m < width"
    using at'(1,3-5) at(2) pos_mono [of k "Suc k" cs] pos_full [OF ok(2), of k] ok(2,5) pos_bound [of cs k]
    by (cases "q = 0") (auto simp: row_ok_def)
  have take: "take (Suc k) cs = take k cs @ [?m + ?n1]"
    using at' by (cases "q = 0") (simp_all add: take_Suc_conv_app_nth pos_Suc)
  have room: "sum_list (take k cs) + ?m + ?n1 \<le> width"
    unfolding sum using at' pos_bound [of cs "Suc k"] cs by (cases "q = 0") simp_all
  have M: "rm_runs ?M" "rm_runs (rm_next ?M)" "rm_next (rm_next ?M) = rm_modes ns c"
    by (simp_all add: rm_runs_def rm_next_def rm_modes_def rm_row_def)
  have ne: "no_eol (code_bits (t4_2d_codes ! 7)) (?w1 @ ?w2 @ l)" "no_eol ?w1 (?w2 @ l)" "no_eol ?w2 l"
    using l(2) by (simp_all add: no_eol_append)
  have first: "rx_leads (rx_row (rm_modes ns b) width rows (take k cs) ?m 0 e) (code_bits (t4_2d_codes ! 7) @ ?w1 @ ?w2 @ l)
      (rx_row ?M width rows (take k cs) ?m 0 e) (?w1 @ ?w2 @ l)"
  proof (rule mode_word [where q = q and c = c])
    show "\<exists>s'. mode_effect (fst (mode_entry 7)) (snd (mode_entry 7)) s = Some s' \<and> rx_row ?M width rows (take k cs) ?m 0 e s' \<and>
        tr_rx_bitstream s' = tr_rx_bitstream s \<and> tr_rx_bits s' = tr_rx_bits s" if "rx_row (rm_modes ns c) width rows (take k cs) ?m 0 e s" for s
      using horizontal_effect [OF that] by (simp add: mode_entry_def)
  qed (use l ne e c b at(2) at' sum ns ok(3) less in auto)
  have second: "rx_leads (rx_row ?M width rows (take k cs) ?m 0 e) (?w1 @ ?w2 @ l) (rx_row (rm_next ?M) width rows (take (Suc k) cs) 0 0 e) (?w2 @ l)"
  proof -
    have l2: "12 \<le> length (?w2 @ l)"
      using l(1) by simp
    have "odd k = odd (length (take k cs))" "sum_list (take k cs) < width" "length (take k cs) < width + 4"
      unfolding sum using less at'(1) ok(4) by linarith+
    from span_decoded [OF l2 ne(2) e this(1) M(1) this(2) room this(3)] show ?thesis
      unfolding take .
  qed
  have third: "rx_leads (rx_row (rm_next ?M) width rows (take (Suc k) cs) 0 0 e) (?w2 @ l) (rx_row (rm_next (rm_next ?M)) width rows (take (k + 2) cs) 0 0 e) l"
    by (rule second_run [OF _ _ _ at'(1) ok(2,4) l(1) ne(3) e]) simp_all
  have "words_bits (mode_words (Horizontal (odd k) ?n1 ?n2)) @ l = code_bits (t4_2d_codes ! 7) @ ?w1 @ ?w2 @ l"
    by simp
  then show ?thesis
    using rx_leads_trans [OF first rx_leads_trans [OF second third]] by (simp only: M(3))
qed

text \<open>The place where a mode is decoded: \<open>c\<close> is its change of the reference row, and the search for it starts at \<open>b\<close>.\<close>

definition mode_at :: "nat \<Rightarrow> nat list \<Rightarrow> nat list \<Rightarrow> nat \<Rightarrow> nat \<Rightarrow> nat \<Rightarrow> nat \<Rightarrow> bool" where
  "mode_at width ns cs q k b c \<longleftrightarrow> opposite ns q k c \<and> b \<le> c \<and> odd (b + k) \<and> (k = 0 \<longrightarrow> b = c) \<and> coding_at cs q k \<and> q \<le> width \<and>
     row_ok width ns \<and> row_ok width cs \<and> int width < 2 ^ 31 \<and> length cs \<le> width + 1 \<and> 0 < width"

lemma mode_at_facts:
  assumes "mode_at width ns cs q k b c"
  shows "k < length cs" "q \<le> pos cs (Suc k)" "sum_list (take k cs) = pos cs k" "length (take k cs) = k" "pos cs k + (q - 1 - pos cs k) = q - 1"
    "pos cs k + (q - 1 - pos cs k) < width" "1 \<le> c" "c < length ns + 2" "q = 0 \<longrightarrow> k = 0"
proof -
  have cs: "sum_list cs = width" and ns: "sum_list ns = width"
    using assms by (simp_all add: mode_at_def row_ok_def)
  have at: "coding_at cs q k" "q \<le> sum_list cs" "row_ok width cs" and c: "opposite ns q k c" "q \<le> sum_list ns" and width: "0 < width" "q \<le> width"
    using assms cs ns by (simp_all add: mode_at_def)
  note b = coding_at_bounds [OF at]
  show "k < length cs" "q \<le> pos cs (Suc k)" "q = 0 \<longrightarrow> k = 0"
    using b by simp_all
  show "sum_list (take k cs) = pos cs k" "length (take k cs) = k"
    using b(1) by (simp_all add: pos_def)
  show "pos cs k + (q - 1 - pos cs k) = q - 1"
    using b by (cases "q = 0") simp_all
  then show "pos cs k + (q - 1 - pos cs k) < width"
    using width by (cases "q = 0") simp_all
  show "1 \<le> c"
    using opposite_position [OF c(1) at(1)] .
  show "c < length ns + 2"
    using opposite_bound [OF c] by simp
qed

lemma vertical_decoded:
  assumes at: "mode_at width ns cs q k b c" and e: "e < 6" and d: "d = int (pos cs (Suc k)) - int (pos ns c)" "\<bar>d\<bar> \<le> 3"
    and l: "12 \<le> length l" "no_eol (words_bits (mode_words (Vertical d))) l"
  shows "rx_leads (rx_row (rm_modes ns b) width rows (take k cs) (q - 1 - pos cs k) 0 e) (words_bits (mode_words (Vertical d)) @ l)
    (rx_row (rm_modes ns (if 0 \<le> d then Suc c else c - 1)) width rows (take (Suc k) cs) 0 0 e) l"
proof -
  let ?i = "nat (3 - d)" and ?m = "q - 1 - pos cs k"
  note f = mode_at_facts [OF at]
  have a: "opposite ns q k c" "b \<le> c" "odd (b + k)" "k = 0 \<longrightarrow> b = c" "q \<le> width" "sum_list ns = width" "int width < 2 ^ 31" "sum_list cs = width" "k \<le> width + 1"
    using at f(1) by (simp_all add: mode_at_def row_ok_def)
  have en: "?i < 9" "mode_entry ?i = (S_Vert, d)"
    using d(2) by (auto simp: mode_entry_def)
  have take: "take k cs @ [pos cs (Suc k) - sum_list (take k cs)] = take (Suc k) cs"
    using f(1,3) by (simp add: take_Suc_conv_app_nth pos_Suc)
  have run: "sum_list (take k cs) + ?m < width" "sum_list (take k cs) + ?m \<le> pos cs (Suc k)" "pos cs (Suc k) \<le> width" "length (take k cs) < width + 4"
    using f a(8,9) pos_bound [of cs "Suc k"] by (simp_all only: f(3-5))
  have "rx_leads (rx_row (rm_modes ns b) width rows (take k cs) ?m 0 e) (code_bits (t4_2d_codes ! ?i) @ l)
      (rx_row (rm_modes ns (if 0 \<le> d then Suc c else c - 1)) width rows (take (Suc k) cs) 0 0 e) l"
  proof (rule mode_word [where q = q and c = c])
    show "\<exists>s'. mode_effect (fst (mode_entry ?i)) (snd (mode_entry ?i)) s = Some s' \<and>
        rx_row (rm_modes ns (if 0 \<le> d then Suc c else c - 1)) width rows (take (Suc k) cs) 0 0 e s' \<and>
        tr_rx_bitstream s' = tr_rx_bitstream s \<and> tr_rx_bits s' = tr_rx_bits s" if "rx_row (rm_modes ns c) width rows (take k cs) ?m 0 e s" for s
      using vertical_effect [OF that a(6,7) f(7,8) run d(1)] unfolding en(2) fst_conv snd_conv take .
  qed (use l e en(1) a f in auto)
  then show ?thesis
    by simp
qed

lemma pass_decoded:
  assumes at: "mode_at width ns cs q k b c" and e: "e < 6" and p: "pos ns (Suc c) < pos cs (Suc k)"
    and l: "12 \<le> length l" "no_eol (words_bits (mode_words Pass)) l"
  shows "rx_leads (rx_row (rm_modes ns b) width rows (take k cs) (q - 1 - pos cs k) 0 e) (words_bits (mode_words Pass) @ l)
    (rx_row (rm_modes ns (c + 2)) width rows (take k cs) (pos ns (Suc c) - pos cs k) 0 e) l"
proof -
  let ?m = "q - 1 - pos cs k"
  note f = mode_at_facts [OF at]
  have a: "opposite ns q k c" "b \<le> c" "odd (b + k)" "k = 0 \<longrightarrow> b = c" "q \<le> width" "sum_list ns = width" "int width < 2 ^ 31" "sum_list cs = width"
    using at by (simp_all add: mode_at_def row_ok_def)
  have "q \<le> pos ns c" "pos ns c \<le> pos ns (Suc c)"
    using a(1) pos_mono [of c "Suc c" ns] by (simp_all add: opposite_def)
  then have "q - 1 \<le> pos ns (Suc c)"
    by linarith
  then have run: "sum_list (take k cs) + ?m \<le> pos ns (Suc c)" "pos ns (Suc c) < width"
    using p pos_bound [of cs "Suc k"] a(8) f by simp_all
  have "rx_leads (rx_row (rm_modes ns b) width rows (take k cs) ?m 0 e) (code_bits (t4_2d_codes ! 8) @ l)
      (rx_row (rm_modes ns (c + 2)) width rows (take k cs) (pos ns (Suc c) - pos cs k) 0 e) l"
  proof (rule mode_word [where q = q and c = c])
    show "\<exists>s'. mode_effect (fst (mode_entry 8)) (snd (mode_entry 8)) s = Some s' \<and>
        rx_row (rm_modes ns (c + 2)) width rows (take k cs) (pos ns (Suc c) - pos cs k) 0 e s' \<and>
        tr_rx_bitstream s' = tr_rx_bitstream s \<and> tr_rx_bits s' = tr_rx_bits s" if "rx_row (rm_modes ns c) width rows (take k cs) ?m 0 e s" for s
      using pass_effect [OF that a(6,7) run] f(3) by (simp add: mode_entry_def)
  qed (use l e a f in auto)
  then show ?thesis
    by simp
qed

text \<open>After the row, nothing is known of the reference row.\<close>

definition rm_done :: rx_mode where
  "rm_done = rm_row T4_COMPRESSION_ITU_T4_2D True (\<lambda>_ _ _. True)"

lemma rx_row_done: "rx_row (rm_modes ns c) width rows ks m k e s \<Longrightarrow> rx_row rm_done width rows ks m k e s"
  by (simp add: rx_row_def rm_done_def rm_runs_def)

lemma rx_leads_weaken: "rx_leads P l Q l' \<Longrightarrow> (\<And>s. Q s \<Longrightarrow> R s) \<Longrightarrow> rx_leads P l R l'"
  unfolding rx_leads_def by metis

text \<open>The search for the next change can start at \<open>b\<close>.\<close>

definition hunt_from :: "nat \<Rightarrow> nat list \<Rightarrow> nat \<Rightarrow> nat \<Rightarrow> nat \<Rightarrow> bool" where
  "hunt_from width ns q k b \<longleftrightarrow> odd (b + k) \<and> (\<forall>c. opposite ns q k c \<and> q \<le> width \<longrightarrow> b \<le> c \<and> (k = 0 \<longrightarrow> b = c))"

lemma mode_atI:
  assumes "opposite ns q k c" "coding_at cs q k" "hunt_from width ns q k b" "q \<le> sum_list cs" "row_ok width ns" "row_ok width cs" "int width < 2 ^ 31"
    "length cs \<le> width + 1" "0 < width"
  shows "mode_at width ns cs q k b c"
proof -
  have "q \<le> width"
    using assms(4,6) by (simp add: row_ok_def)
  then show ?thesis
    using assms unfolding mode_at_def hunt_from_def by blast
qed

lemma hunt_from_start: "ns \<noteq> [] \<Longrightarrow> hunt_from width ns 0 0 1"
  using opposite_unique [OF opposite_start [of ns]] by (auto simp: hunt_from_def)

lemma hunt_from_vertical:
  assumes "mode_at width ns cs q k b c"
  shows "hunt_from width ns (Suc (pos cs (Suc k))) (Suc k) (if pos ns c \<le> pos cs (Suc k) then Suc c else c - 1)"
proof -
  have a: "opposite ns q k c" "odd (c + k)"
    using assms by (simp_all add: mode_at_def opposite_def)
  have q: "q \<le> Suc (pos cs (Suc k))" and c: "1 \<le> c"
    using mode_at_facts(2,7) [OF assms] by simp_all
  then show ?thesis
    using opposite_after_vertical [OF a(1) _ q c] a(2) by (auto simp: hunt_from_def)
qed

lemma hunt_from_horizontal:
  assumes "mode_at width ns cs q k b c"
  shows "hunt_from width ns (Suc (pos cs (k + 2))) (k + 2) c"
proof -
  have a: "opposite ns q k c" "odd (c + k)"
    using assms by (simp_all add: mode_at_def opposite_def)
  have "q \<le> Suc (pos cs (k + 2))"
    using mode_at_facts(2) [OF assms] pos_mono [of "Suc k" "k + 2" cs] by simp
  then show ?thesis
    using opposite_after_horizontal [OF a(1)] a(2) unfolding hunt_from_def by auto
qed

lemma hunt_from_pass:
  assumes "mode_at width ns cs q k b c" "pos ns (Suc c) < width"
  shows "hunt_from width ns (Suc (pos ns (Suc c))) k (c + 2)"
proof -
  have a: "opposite ns q k c" "odd (c + k)" "row_ok width ns"
    using assms by (simp_all add: mode_at_def opposite_def)
  show ?thesis
    using opposite_unique [OF opposite_after_pass [OF a(1,3) assms(2)]] a(2) unfolding hunt_from_def by auto
qed

lemma modes_decoded:
  assumes "coded ns cs q k ms" "coding_at cs q k" "hunt_from width ns q k b" "no_eol (modes_bits ms) l" and l: "12 \<le> length l" and e: "e < 6"
    and ok: "row_ok width ns" "row_ok width cs" "int width < 2 ^ 31" "length cs \<le> width + 1" "0 < width"
  shows "rx_leads (rx_row (rm_modes ns b) width rows (take k cs) (q - 1 - pos cs k) 0 e) (modes_bits ms @ l) (rx_row rm_done width rows cs 0 0 e) l"
  using assms(1-4)
proof (induction arbitrary: b rule: coded.induct)
  case (coded_end q k)
  then have "pos cs k = sum_list cs" "q = Suc (sum_list cs)" "take k cs = cs"
    using coding_at_end [of cs q k] pos_full [OF ok(2), of k] ok(2,5) by (cases k; auto simp: row_ok_def)+
  then show ?case
    using rx_leads_weaken [OF rx_leads_refl rx_row_done] by simp
next
  case (coded_vertical q k c ms)
  let ?d = "int (pos cs (Suc k)) - int (pos ns c)"
  have at: "mode_at width ns cs q k b c"
    by (rule mode_atI [OF coded_vertical.hyps(2) coded_vertical.prems(1,2) coded_vertical.hyps(1) ok])
  have ne: "no_eol (words_bits (mode_words (Vertical ?d))) (modes_bits ms @ l)" "no_eol (modes_bits ms) l"
    using coded_vertical.prems(3) by (simp_all add: no_eol_append)
  have "12 \<le> length (modes_bits ms @ l)" "\<bar>?d\<bar> \<le> 3"
    using l coded_vertical.hyps(4) by (simp_all add: abs_minus_commute)
  from vertical_decoded [OF at e refl this(2,1) ne(1)]
  have "rx_leads (rx_row (rm_modes ns b) width rows (take k cs) (q - 1 - pos cs k) 0 e) (words_bits (mode_words (Vertical ?d)) @ modes_bits ms @ l)
    (rx_row (rm_modes ns (if 0 \<le> ?d then Suc c else c - 1)) width rows (take (Suc k) cs) 0 0 e) (modes_bits ms @ l)" .
  moreover have "(0 \<le> ?d) = (pos ns c \<le> pos cs (Suc k))"
    by simp
  moreover have "rx_leads (rx_row (rm_modes ns (if pos ns c \<le> pos cs (Suc k) then Suc c else c - 1)) width rows (take (Suc k) cs) (Suc (pos cs (Suc k)) - 1 - pos cs (Suc k)) 0 e)
      (modes_bits ms @ l) (rx_row rm_done width rows cs 0 0 e) l"
    by (rule coded_vertical.IH [OF coding_at_run [OF ok(2)] hunt_from_vertical [OF at] ne(2)]) simp
  ultimately show ?case
    using rx_leads_trans by simp
next
  case (coded_horizontal q k c ms)
  let ?h = "Horizontal (odd k) (pos cs (Suc k) - (q - 1)) (pos cs (k + 2) - pos cs (Suc k))"
  have at: "mode_at width ns cs q k b c"
    by (rule mode_atI [OF coded_horizontal.hyps(2) coded_horizontal.prems(1,2) coded_horizontal.hyps(1) ok])
  then have a: "opposite ns q k c" "b \<le> c" "odd (b + k)" "k = 0 \<longrightarrow> b = c" "coding_at cs q k" "q \<le> width"
    by (simp_all add: mode_at_def)
  have ne: "no_eol (words_bits (mode_words ?h)) (modes_bits ms @ l)" "no_eol (modes_bits ms) l"
    using coded_horizontal.prems(3) unfolding modes_bits_simps no_eol_append by blast+
  have l': "12 \<le> length (modes_bits ms @ l)"
    using l by simp
  have first: "rx_leads (rx_row (rm_modes ns b) width rows (take k cs) (q - 1 - pos cs k) 0 e) (words_bits (mode_words ?h) @ modes_bits ms @ l)
      (rx_row (rm_modes ns c) width rows (take (k + 2) cs) 0 0 e) (modes_bits ms @ l)"
    by (rule horizontal_decoded [OF a ok e l' ne(1)])
  have "rx_leads (rx_row (rm_modes ns c) width rows (take (k + 2) cs) (Suc (pos cs (k + 2)) - 1 - pos cs (k + 2)) 0 e)
      (modes_bits ms @ l) (rx_row rm_done width rows cs 0 0 e) l"
    by (rule coded_horizontal.IH [OF coding_at_run [OF ok(2)] hunt_from_horizontal [OF at] ne(2)]) simp
  then have second: "rx_leads (rx_row (rm_modes ns c) width rows (take (k + 2) cs) 0 0 e) (modes_bits ms @ l) (rx_row rm_done width rows cs 0 0 e) l"
    by simp
  show ?case
    using rx_leads_trans [OF first second] by (simp only: modes_bits_simps append_assoc)
next
  case (coded_pass q k c ms)
  have at: "mode_at width ns cs q k b c"
    by (rule mode_atI [OF coded_pass.hyps(2) coded_pass.prems(1,2) coded_pass.hyps(1) ok])
  have ne: "no_eol (words_bits (mode_words Pass)) (modes_bits ms @ l)" "no_eol (modes_bits ms) l"
    using coded_pass.prems(3) unfolding modes_bits_simps no_eol_append by blast+
  have l': "12 \<le> length (modes_bits ms @ l)"
    using l by simp
  have p: "pos ns (Suc c) < width" "q \<le> pos ns (Suc c)"
    using coded_pass.hyps(2,3) pos_bound [of cs "Suc k"] pos_mono [of c "Suc c" ns] ok(2) by (auto simp: row_ok_def opposite_def)
  have first: "rx_leads (rx_row (rm_modes ns b) width rows (take k cs) (q - 1 - pos cs k) 0 e) (words_bits (mode_words Pass) @ modes_bits ms @ l)
      (rx_row (rm_modes ns (c + 2)) width rows (take k cs) (pos ns (Suc c) - pos cs k) 0 e) (modes_bits ms @ l)"
    by (rule pass_decoded [OF at e coded_pass.hyps(3) l' ne(1)])
  have "rx_leads (rx_row (rm_modes ns (c + 2)) width rows (take k cs) (Suc (pos ns (Suc c)) - 1 - pos cs k) 0 e)
      (modes_bits ms @ l) (rx_row rm_done width rows cs 0 0 e) l"
    by (rule coded_pass.IH [OF coding_at_pass [OF coded_pass.prems(1) p(2) coded_pass.hyps(3)] hunt_from_pass [OF at p(1)] ne(2)])
  then have second: "rx_leads (rx_row (rm_modes ns (c + 2)) width rows (take k cs) (pos ns (Suc c) - pos cs k) 0 e)
      (modes_bits ms @ l) (rx_row rm_done width rows cs 0 0 e) l"
    by simp
  show ?case
    using rx_leads_trans [OF first second] by (simp only: modes_bits_simps append_assoc)
qed

end
