(* ===== verification/T4_Page.thy ===== *)
theory T4_Page
  imports T4_Tx_Page T4_Rx_Modes
begin

text \<open>
  A page from \<^verbatim>\<open>t4_tx.c\<close> to \<^verbatim>\<open>t4_rx.c\<close> in one- and two-dimensional T.4 coding: the rows that were encoded come out
  again.
\<close>

section \<open>Rows\<close>

lemma eol_tag_split: "eol_tag c one @ l = eol_bits @ (if c = T4_COMPRESSION_ITU_T4_2D then one # l else l)"
  by (simp add: eol_tag_def)

lemma runs_of_row:
  assumes "width = 8 * length row" "0 < width"
  shows "runs_pixels False (row_runs row width) = stream_msb row" "row_ok width (row_runs row width)" "length (row_runs row width) \<le> width + 1"
  using assms row_runs_pixels [of width row] row_pixels_all [of row] row_ok_runs [of width row] length_row_runs [of row width] by simp_all

lemma row_end_decoded:
  assumes c: "page_coding (rm_coding M)" "rm_coding M = T4_COMPRESSION_ITU_T4_1D \<longrightarrow> \<not> rm_2d M" "rm_bw M = 0"
    and width: "width = 8 * length row" "int width < 2 ^ 31" "0 < width" and e: "e < 6" and l: "l \<noteq> []"
  shows "rx_leads (rx_row M width rows (row_runs row width) 0 0 e) (replicate k False @ eol_tag (rm_coding M) one @ l)
    (rx_row (rm_row (rm_coding M) (eol_2d (rm_coding M) one) (ref_start (row_runs row width))) width (rows @ [row]) [] 0 0 0) l"
proof -
  have "rm_2d M \<longrightarrow> sum_list (row_runs row width) = width"
    using runs_of_row(2) [OF width(1,3)] by (simp add: row_ok_def)
  from fill_bits [OF c(1,3) e this]
  have "rx_leads (rx_row M width rows (row_runs row width) 0 0 e) (replicate k False @ eol_tag (rm_coding M) one @ l)
      (rx_row M width rows (row_runs row width) 0 0 e) (eol_tag (rm_coding M) one @ l)"
    unfolding eol_tag_split .
  from rx_leads_trans [OF this row_eol [OF c(1,2) runs_of_row(1) [OF width(1,3)] width runs_of_row(3) [OF width(1,3)] e l]] show ?thesis .
qed

lemma row_decoded:
  assumes row: "row_line width prev d row bs" and c: "page_coding c" "d \<longrightarrow> c = T4_COMPRESSION_ITU_T4_2D"
    and width: "width = 8 * length row" "int width < 2 ^ 31" "0 < width" and e: "e < 6" and l: "l \<noteq> []"
    and prev: "d \<longrightarrow> r = ref_start (row_runs prev width) \<and> width = 8 * length prev"
  shows "rx_leads (rx_row (rm_row c d r) width rows [] 0 0 e) (bs @ replicate k False @ eol_tag c one @ l)
    (rx_row (rm_row c (eol_2d c one) (ref_start (row_runs row width))) width (rows @ [row]) [] 0 0 0) l"
proof (cases d)
  case False
  let ?M = "rm_row c d r" and ?ns = "row_runs row width" and ?l = "replicate k False @ eol_tag c one @ l"
  have M: "rm_runs ?M" "rm_bw ?M = 0" "page_coding (rm_coding ?M)" "rm_coding ?M = T4_COMPRESSION_ITU_T4_1D \<longrightarrow> \<not> rm_2d ?M"
    using False c(1) by (simp_all add: rm_runs_def)
  have bs: "bs = words_bits (runs_words False ?ns)"
    using row False by (simp add: row_line_def row_bits_1d_def)
  have "no_eol (words_bits (runs_words False ?ns)) ?l"
    unfolding eol_tag_split by (rule no_eol_row)
  then have "rx_leads (rx_row ?M width rows [] 0 0 e) (words_bits (runs_words (odd (length ([] :: nat list))) ?ns) @ ?l) (rx_row ?M width rows ([] @ ?ns) 0 0 e) ?l"
    using runs_of_row [OF width(1,3)] row_runs_positive [of row width] width(3) by (intro runs_decoded e M(1,2)) (simp_all add: take_eol_tag row_ok_def)
  then have "rx_leads (rx_row ?M width rows [] 0 0 e) (bs @ ?l) (rx_row ?M width rows ?ns 0 0 e) ?l"
    by (simp add: bs)
  from rx_leads_trans [OF this] show ?thesis
    using row_end_decoded [OF M(3,4,2) width e l] by simp
next
  case True
  let ?ps = "row_runs prev width" and ?ns = "row_runs row width" and ?l = "replicate k False @ eol_tag c one @ l"
  have c2: "c = T4_COMPRESSION_ITU_T4_2D" and p: "r = ref_start ?ps" "width = 8 * length prev"
    using True c(2) prev by simp_all
  obtain ms where ms: "coded ?ps ?ns 0 0 ms" "bs = modes_bits ms"
    using row True by (auto simp: row_line_def)
  have ok: "row_ok width ?ps" "row_ok width ?ns" "length ?ns \<le> width + 1"
    using runs_of_row [OF p(2) width(3)] runs_of_row [OF width(1,3)] by simp_all
  have M: "rm_row c d r = rm_modes ?ps 1" "rm_coding rm_done = c" "rm_bw rm_done = 0"
    using True c2 p(1) ok(1) ref_start_pos [of ?ps] by (simp_all add: rm_modes_def rm_done_def row_ok_def)
  have ne: "no_eol (modes_bits ms) ?l"
    unfolding eol_tag_split by (rule no_eol_modes [OF coded_mode_ok [OF ms(1)]])
  have l12: "12 \<le> length ?l"
    by (simp add: take_eol_tag)
  have "hunt_from width ?ps 0 0 1"
    using hunt_from_start ok(1) by (simp add: row_ok_def)
  from modes_decoded [OF ms(1) coding_at_start this ne l12 e ok(1,2) width(2) ok(3) width(3)]
  have "rx_leads (rx_row (rm_row c d r) width rows [] 0 0 e) (bs @ ?l) (rx_row rm_done width rows ?ns 0 0 e) ?l"
    unfolding M(1) ms(2) by simp
  moreover have "rx_leads (rx_row rm_done width rows ?ns 0 0 e) ?l (rx_row (rm_row c (eol_2d c one) (ref_start ?ns)) width (rows @ [row]) [] 0 0 0) l"
    using row_end_decoded [of rm_done, OF _ _ M(3) width e l] c(1) c2 unfolding M(2) by simp
  ultimately show ?thesis
    using rx_leads_trans by blast
qed

lemma rows_line_2d: "rows_line c width prev d rows l \<Longrightarrow> d \<Longrightarrow> c = T4_COMPRESSION_ITU_T4_2D"
  by (induction rule: rows_line.induct) auto

lemma rows_decoded:
  assumes "rows_line c width prev d new bs" "\<forall>row\<in>set new. width = 8 * length row" "d \<longrightarrow> r = ref_start (row_runs prev width) \<and> width = 8 * length prev"
    and c: "page_coding c" and width: "int width < 2 ^ 31" "0 < width" and l: "l \<noteq> []"
  shows "\<exists>r'. rx_leads (rx_row (rm_row c d r) width rows [] 0 0 0) (bs @ l) (rx_row (rm_row c False r') width (rows @ new) [] 0 0 0) l"
  using assms(1-3)
proof (induction arbitrary: rows r rule: rows_line.induct)
  case (rows_line_end prev)
  then show ?case
    by (intro exI [of _ r]) simp
next
  case (rows_line_row d prev row bs d' new bs' k)
  have w: "width = 8 * length row" "\<forall>row\<in>set new. width = 8 * length row"
    using rows_line_row.prems(1) by (metis list.set_intros)+
  have "eol_2d c (\<not> d') = d'"
    using rows_line_2d [OF rows_line_row.hyps(3)] by (auto simp: eol_2d_def)
  with row_decoded [OF rows_line_row.hyps(2) c rows_line_row.hyps(1) w(1) width _ _ rows_line_row.prems(2), of 0 "bs' @ l" rows k "\<not> d'"] l
  have "rx_leads (rx_row (rm_row c d r) width rows [] 0 0 0) (bs @ replicate k False @ eol_tag c (\<not> d') @ bs' @ l)
      (rx_row (rm_row c d' (ref_start (row_runs row width))) width (rows @ [row]) [] 0 0 0) (bs' @ l)"
    by simp
  moreover obtain r' where "rx_leads (rx_row (rm_row c d' (ref_start (row_runs row width))) width (rows @ [row]) [] 0 0 0) (bs' @ l)
      (rx_row (rm_row c False r') width ((rows @ [row]) @ new) [] 0 0 0) l"
    using rows_line_row.IH [of "ref_start (row_runs row width)" "rows @ [row]"] w by blast
  ultimately have "rx_leads (rx_row (rm_row c d r) width rows [] 0 0 0) (bs @ replicate k False @ eol_tag c (\<not> d') @ bs' @ l)
      (rx_row (rm_row c False r') width ((rows @ [row]) @ new) [] 0 0 0) l"
    by (rule rx_leads_trans)
  then show ?case
    by (intro exI [of _ r']) simp
qed

section \<open>The end of the page\<close>

lemma eols_decoded:
  assumes "e + n \<le> 4" "l \<noteq> []" "page_coding c"
  shows "rx_leads (rx_row (rm_row c False r) width rows [] 0 0 e) (eols_line c n @ l) (rx_row (rm_row c False r) width rows [] 0 0 (e + n)) l"
  using assms(1)
proof (induction n arbitrary: e)
  case (Suc n)
  have "eol_2d c True = False"
    by (simp add: eol_2d_def)
  with blank_eol [OF assms(3), where d = False and e = e and one = True and l = "eols_line c n @ l"] Suc.prems assms(2)
  have "rx_leads (rx_row (rm_row c False r) width rows [] 0 0 e) (eol_tag c True @ eols_line c n @ l)
      (rx_row (rm_row c False r) width rows [] 0 0 (Suc e)) (eols_line c n @ l)"
    by simp
  moreover have "rx_leads (rx_row (rm_row c False r) width rows [] 0 0 (Suc e)) (eols_line c n @ l) (rx_row (rm_row c False r) width rows [] 0 0 (Suc e + n)) l"
    using Suc.IH [of "Suc e"] Suc.prems by simp
  ultimately show ?case
    using rx_leads_trans by simp
qed simp

text \<open>What the end of the page leaves.\<close>

definition rx_page :: "int \<Rightarrow> nat \<Rightarrow> octets list \<Rightarrow> t4_rx_state \<Rightarrow> bool" where
  "rx_page c width rows s \<longleftrightarrow> tr_line_encoding s = c \<and> tr_bytes_per_row s = int width div 8 \<and> tr_image s = concat rows \<and>
     tr_image_length s = int (length rows) \<and> tr_bad_rows s = 0 \<and> tr_curr_bad_row_run s = 0 \<and> tr_longest_bad_row_run s = 0"

lemma rx_row_rx_page: "rx_row M width rows ns m k e s \<Longrightarrow> rx_page (rm_coding M) width rows s"
  by (simp add: rx_row_def rx_page_def)

text \<open>The fifth EOL after the last row ends the page, if a bit follows it.\<close>

lemma last_eol:
  assumes s: "t4_ok s" "rx_row M width rows [] 0 0 4 s" and l: "t4_rx_line s bs = eol_bits @ l" and c: "page_coding (rm_coding M)"
  shows "\<exists>s'. t4_run s bs = Some (l \<noteq> [], s') \<and> rx_page (rm_coding M) width rows s'"
proof (cases "l = []")
  case True
  then have "length (t4_rx_line s bs) < 13"
    using l by (simp add: take_eol)
  from t4_run_short [OF s(1) rx_row_page [OF s(2)] this] obtain s' where "t4_run s bs = Some (False, s')" "rx_buffered s s'"
    by auto
  then show ?thesis
    using True rx_row_rx_page [OF rx_row_buffered [OF s(2)]] by (intro exI [of _ s']) simp
next
  case False
  then have "13 \<le> length (t4_rx_line s bs)"
    using l by (simp add: take_eol Suc_le_eq)
  from t4_run_ready [OF s(1) rx_row_page [OF s(2)] this] obtain s1 bs1 where
    s1: "t4_run s bs = t4_run s1 bs1" "t4_rx_line s1 bs1 = t4_rx_line s bs" "rx_buffered s s1" "13 \<le> tr_rx_bits s1"
    by auto
  have row: "rx_row M width rows [] 0 0 4 s1"
    using rx_row_buffered [OF s(2) s1(3)] .
  have "tr_line_encoding s1 \<noteq> T4_COMPRESSION_ITU_T6"
    using row c by (simp add: rx_row_def)
  then have "rx_step s1 = Some (True, s1\<lparr>tr_consecutive_eols := EOLS_TO_END_ANY_RX_PAGE\<rparr>)"
    using rx_eol_window [OF s1(4), of bs1] s1(2) l row
    by (simp add: rx_step_def take_eol rx_eol_def rx_row_def EOLS_TO_END_T4_RX_PAGE_def)
  then have "t4_run s bs = Some (True, s1\<lparr>tr_consecutive_eols := EOLS_TO_END_ANY_RX_PAGE\<rparr>)"
    using s1(1) t4_run_step [OF s1(4), of bs1] by simp
  moreover have "rx_page (rm_coding M) width rows (s1\<lparr>tr_consecutive_eols := EOLS_TO_END_ANY_RX_PAGE\<rparr>)"
    using rx_row_rx_page [OF row] by (simp add: rx_page_def)
  ultimately show ?thesis
    using False by simp
qed

text \<open>The rows of the page after its first EOL; the result tells whether the end of the page is signalled.\<close>

lemma page_decoded:
  assumes s: "t4_ok s" "rx_row (rm_row c False r) width [] [] 0 0 0 s" and l: "t4_rx_line s bs = ls @ eols_line c 5 @ replicate m True"
    and rows: "rows_line c width prev False rows ls" "\<forall>row\<in>set rows. width = 8 * length row" and c: "page_coding c"
    and w: "int width < 2 ^ 31" "0 < width"
  shows "\<exists>s'. t4_run s bs = Some (0 < m \<or> c = T4_COMPRESSION_ITU_T4_2D, s') \<and> rx_page c width rows s'"
proof -
  let ?t = "eol_tag c True @ replicate m True"
  have t: "?t \<noteq> []" "eols_line c 4 @ ?t \<noteq> []" "eols_line c 5 @ replicate m True = eols_line c 4 @ ?t"
    by (simp_all add: eol_tag_def eol_bits_def eols_line_def numeral_eq_Suc)
  obtain r' where "rx_leads (rx_row (rm_row c False r) width [] [] 0 0 0) (ls @ eols_line c 4 @ ?t) (rx_row (rm_row c False r') width ([] @ rows) [] 0 0 0) (eols_line c 4 @ ?t)"
    using rows_decoded [OF rows, where r = r and rows = "[]"] c w t(2) by blast
  moreover have "rx_leads (rx_row (rm_row c False r') width ([] @ rows) [] 0 0 0) (eols_line c 4 @ ?t) (rx_row (rm_row c False r') width ([] @ rows) [] 0 0 (0 + 4)) ?t"
    by (rule eols_decoded [OF _ t(1) c]) simp
  moreover have "t4_rx_line s bs = ls @ eols_line c 4 @ ?t"
    unfolding l t(3) ..
  ultimately obtain s1 bs1 where s1: "t4_run s bs = t4_run s1 bs1" "t4_ok s1" "rx_row (rm_row c False r') width rows [] 0 0 4 s1" "t4_rx_line s1 bs1 = ?t"
    using s rx_leads_trans unfolding rx_leads_def by (metis add_0 append_Nil)
  have "\<exists>s'. t4_run s1 bs1 = Some ((if c = T4_COMPRESSION_ITU_T4_2D then True # replicate m True else replicate m True) \<noteq> [], s') \<and> rx_page c width rows s'"
    using last_eol [OF s1(2,3) s1(4) [unfolded eol_tag_split]] c by simp
  moreover have "(if c = T4_COMPRESSION_ITU_T4_2D then True # replicate m True else replicate m True) \<noteq> [] \<longleftrightarrow> 0 < m \<or> c = T4_COMPRESSION_ITU_T4_2D"
    by simp
  ultimately show ?thesis
    using s1(1) by (simp only:)
qed

section \<open>Start and end of a page\<close>

text \<open>The run length buffers have been allocated for the width, or will be.\<close>

definition tr_ready :: "int \<Rightarrow> nat \<Rightarrow> t4_rx_state \<Rightarrow> bool" where
  "tr_ready c width s \<longleftrightarrow> tr_line_encoding s = c \<and> tr_image_width s = int width \<and> 0 \<le> tr_image_buffer_size s \<and>
     (tr_bytes_per_row s = int width div 8 \<longrightarrow> width + 4 \<le> length (tr_cur_runs s) \<and> width + 4 \<le> length (tr_ref_runs s))"

text \<open>The first row, with newly allocated buffers or not.\<close>

definition rm_first :: "int \<Rightarrow> bool \<Rightarrow> rx_mode" where
  "rm_first c new = (rm_row c False (\<lambda>_ _ _. True))\<lparr>rm_exact := new\<rparr>"

lemma rm_first_row: "rx_row (rm_first c new) width rows ns m k e s \<Longrightarrow> rx_row (rm_row c False (\<lambda>_ _ _. True)) width rows ns m k e s"
  by (simp add: rx_row_def rm_first_def rm_runs_def)

lemma t4_rx_started:
  assumes "tr_ready c width s" "8 dvd width" "page_coding c"
  shows "\<exists>s'. t4_rx_start_page s = Some s' \<and> tr_consecutive_eols s' = -1 \<and> tr_rx_bits s' = 0 \<and> tr_rx_bitstream s' = 0 \<and>
    rx_row (rm_first c (tr_bytes_per_row s \<noteq> int width div 8)) width [] [] 0 0 0 (s'\<lparr>tr_consecutive_eols := 0\<rparr>)"
proof -
  have bpr: "(int width + 7) div 8 = int width div 8"
    using assms(2) by presburger
  have t6: "c \<noteq> T4_COMPRESSION_ITU_T6"
    using assms(3) by simp
  let ?n = "width + 4"
  let ?zeros = "replicate ?n (0 :: u32)" and ?w = "word_of_int (int width) :: u32"
  let ?new = "tr_bytes_per_row s \<noteq> int width div 8"
  let ?cur = "if ?new then ?zeros else tr_cur_runs s" and ?ref = "if ?new then ?zeros else tr_ref_runs s"
  have len: "?n \<le> length ?cur" "?n \<le> length ?ref"
    using assms(1) by (simp_all add: tr_ready_def)
  have n: "nat (int width + 4) = ?n"
    by simp
  obtain cur ref1 where m1: "mem_write ?cur 0 ?zeros = Some cur" "mem_write ?ref 0 ?zeros = Some ref1"
    using len by (simp add: mem_write_def)
  have len1: "length cur = length ?cur" "length ref1 = length ?ref"
    using mem_write_length [OF m1(1)] mem_write_length [OF m1(2)] by simp_all
  then obtain ref2 where m2: "mem_write ref1 0 [?w, ?w, ?w, ?w] = Some ref2"
    using len(2) by (simp add: mem_write_def)
  have "length ref2 = length ?ref"
    using mem_write_length [OF m2] len1 by simp
  then show ?thesis
    using assms(1) m1 m2 len len1 t6 unfolding t4_rx_start_page_def Let_def tr_ready_def
    by (auto simp: rx_row_def rm_first_def bpr n holds_runs_def)
qed

lemma first_eol:
  assumes s: "tr_consecutive_eols s = -1" "tr_rx_bits s = 0" "tr_rx_bitstream s = 0" "rx_row (rm_first c new) width [] [] 0 0 0 (s\<lparr>tr_consecutive_eols := 0\<rparr>)"
    and bs: "stream_lsb bs = eol_tag c True @ l" "2 \<le> length bs" and c: "page_coding c"
  shows "\<exists>s' bs'. t4_rx_put_chunk s bs = t4_run s' bs' \<and> t4_ok s' \<and> rx_row (rm_first c new) width [] [] 0 0 0 s' \<and> t4_rx_line s' bs' = l"
proof -
  obtain b0 b1 cs where b: "bs = b0 # b1 # cs"
    using bs(2) by (metis Suc_le_length_iff numeral_2_eq_2)
  let ?feed = "\<lambda>s b. s\<lparr>tr_line_image_size := tr_line_image_size s + 8, tr_rx_bitstream := tr_rx_bitstream s OR push_bit (nat (tr_rx_bits s)) (ucast b),
    tr_rx_bits := tr_rx_bits s + 8\<rparr>"
  define s1 where "s1 = ?feed s b0"
  define s2 where "s2 = ?feed s1 b1"
  have ok0: "t4_ok s" "t4_rx_line s bs = stream_lsb bs"
    using s(2,3) by (simp_all add: t4_ok_def t4_rx_line_def)
  have n1: "tr_rx_bits s1 = 8" "tr_consecutive_eols s1 = -1" and n2: "tr_rx_bits s2 = 16" "tr_consecutive_eols s2 = -1"
    using s(1,2) by (simp_all add: s2_def s1_def)
  have ok1: "t4_ok s1" "t4_rx_line s1 (b1 # cs) = t4_rx_line s bs"
    using feed_line [OF ok0(1) _ s1_def] s(2) b by simp_all
  have ok2: "t4_ok s2" "t4_rx_line s2 cs = eol_tag c True @ l"
    using feed_line [OF ok1(1) _ s2_def] n1(1) ok1(2) ok0(2) bs(1) by simp_all
  then have "tr_rx_bitstream s2 AND 0xFFF = 0x800"
    using rx_eol_window [of s2 cs] n2(1) by (simp add: take_eol_tag)
  then have eol: "rx_first_eol s2 = (True, s2)"
    by (subst rx_first_eol.simps) simp
  let ?t = "s2\<lparr>tr_consecutive_eols := 0\<rparr>"
  let ?s3 = "if c = T4_COMPRESSION_ITU_T4_1D then force_drop_rx_bits 12 (?t\<lparr>tr_row_is_2d := False\<rparr>)
    else force_drop_rx_bits 13 (?t\<lparr>tr_row_is_2d := (tr_rx_bitstream ?t AND 0x1000 = 0)\<rparr>)"
  have put0: "rx_put_bits s (ucast b0) 8 = Some (False, s1)"
    using s(2) by (simp add: rx_put_bits_def s1_def)
  have enc: "tr_line_encoding s2 = c"
    using s(4) by (simp add: s2_def s1_def rx_row_def rm_first_def)
  then have put1: "rx_put_bits s1 (ucast b1) 8 = rx_loop ?s3"
    unfolding rx_put_bits_def Let_def of_nat_numeral s2_def [symmetric]
    using n1(1) n2 eol by (simp add: EOLS_TO_END_ANY_RX_PAGE_def)
  have "t4_rx_put_chunk s bs = t4_run ?s3 cs"
    using put0 put1 by (simp add: b t4_run_def case_prod_unfold)
  moreover have "tr_rx_bitstream s2 AND 0x1000 \<noteq> 0" if "c = T4_COMPRESSION_ITU_T4_2D"
    using drop_eol_row(1) [of s2 cs c True l] ok2(2) n2(1) enc that by (simp add: drop_eol_def eol_2d_def Let_def force_drop_rx_bits_def)
  then have "rx_row (rm_first c new) width [] [] 0 0 0 ?s3"
    using s(4) c by (auto simp: s2_def s1_def rx_row_def force_drop_rx_bits_def rm_first_def page_coding_def)
  moreover have "tr_rx_bitstream ?s3 = drop_bit (length (eol_tag c True)) (tr_rx_bitstream s2)" "tr_rx_bits ?s3 = tr_rx_bits s2 - int (length (eol_tag c True))"
    "int (length (eol_tag c True)) \<le> tr_rx_bits s2"
    using c n2(1) by (auto simp: force_drop_rx_bits_def take_eol_tag page_coding_def)
  then have "t4_ok ?s3" "t4_rx_line ?s3 cs = l"
    using t4_rx_line_drop [OF ok2(1), where n = "length (eol_tag c True)" and s' = ?s3] ok2(2) take_eol_tag(4) by metis+
  ultimately show ?thesis
    by blast
qed

lemma image_rows_concat: "\<forall>row\<in>set rows. int (length row) = n \<Longrightarrow> image_rows (length rows) n (concat rows) = Some rows"
  by (induction rows) auto

lemma t4_rx_ended:
  assumes s: "rx_page c width rows s" and rows: "rows \<noteq> []" "\<forall>row\<in>set rows. width = 8 * length row" and width: "0 < width" and c: "page_coding c"
  shows "\<exists>s'. t4_rx_end_page accepts s = Some (0, written_rows accepts rows @ [[]], s') \<and> tr_bad_rows s' = 0 \<and> tr_image_length s' = int (length rows)"
proof -
  have "concat rows \<noteq> []"
    using rows width by (cases rows) auto
  moreover have "image_rows (length rows) (int width div 8) (concat rows) = Some rows"
    using rows(2) by (intro image_rows_concat) auto
  ultimately show ?thesis
    using s c by (simp add: t4_rx_end_page_def rx_page_def end_bad_rows_def)
qed

lemma page_round_trip:
  assumes tt: "tt_ready c width t" and tr: "tr_ready c width r" and width: "width = 8 * length (tt_row_buf t)"
    and rows: "rows \<noteq> []" "\<forall>row\<in>set rows. length row = length (tt_row_buf t)"
  shows "\<exists>t' r1 stop r2 r3. t4_tx_start_page rows t = Some t' \<and> t4_rx_start_page r = Some r1 \<and>
    t4_rx_put_chunk r1 (tt_image t') = Some (stop, r2) \<and> (c = T4_COMPRESSION_ITU_T4_2D \<longrightarrow> stop) \<and>
    t4_rx_end_page accepts r2 = Some (0, written_rows accepts rows @ [[]], r3) \<and>
    tr_bad_rows r3 = 0 \<and> tr_image_length r3 = int (length rows)"
proof -
  have c: "page_coding c" and w: "int width < 2 ^ 31" "0 < width"
    using tt by (simp_all add: tt_ready_def)
  obtain t' l m where t': "t4_tx_start_page rows t = Some t'" "rows_line c width [] False rows l"
    "stream_lsb (tt_image t') = eol_tag c True @ l @ eols_line c 5 @ replicate m True"
    using t4_tx_start_page_line [OF tt rows(2)] by metis
  obtain r1 where r1: "t4_rx_start_page r = Some r1" "tr_consecutive_eols r1 = -1" "tr_rx_bits r1 = 0" "tr_rx_bitstream r1 = 0"
    "rx_row (rm_first c (tr_bytes_per_row r \<noteq> int width div 8)) width [] [] 0 0 0 (r1\<lparr>tr_consecutive_eols := 0\<rparr>)"
    using t4_rx_started [OF tr _ c] width by auto
  have "length (stream_lsb (tt_image t')) \<ge> 12 + length (eols_line c 5)"
    unfolding t'(3) by (simp add: take_eol_tag)
  then have "2 \<le> length (tt_image t')"
    by (simp add: eols_line_def take_eol_tag numeral_eq_Suc split: if_splits)
  from first_eol [OF r1(2-5) t'(3) this c] obtain s bs where s: "t4_rx_put_chunk r1 (tt_image t') = t4_run s bs" "t4_ok s"
    "rx_row (rm_row c False (\<lambda>_ _ _. True)) width [] [] 0 0 0 s" "t4_rx_line s bs = l @ eols_line c 5 @ replicate m True"
    using rm_first_row by blast
  have rows': "\<forall>row\<in>set rows. width = 8 * length row"
    using rows(2) width by simp
  obtain r2 where r2: "t4_run s bs = Some (0 < m \<or> c = T4_COMPRESSION_ITU_T4_2D, r2)" "rx_page c width rows r2"
    using page_decoded [OF s(2-4) t'(2) rows' c w] by blast
  obtain r3 where "t4_rx_end_page accepts r2 = Some (0, written_rows accepts rows @ [[]], r3)" "tr_bad_rows r3 = 0" "tr_image_length r3 = int (length rows)"
    using t4_rx_ended [OF r2(2) rows(1) rows' w(2) c] by blast
  then show ?thesis
    using t'(1) r1(1) s(1) r2(1) by auto
qed

end
