(* ===== verification/T4_Rx_Buffer.thy ===== *)
theory T4_Rx_Buffer
  imports T4_Rx_Line
begin

text \<open>
  The bit buffer of the decoder of \<^verbatim>\<open>t4_rx.c\<close> on any input, well formed or not: the work on a row does not touch it,
  a step of the loop only takes bits from its start, and between octets it has less than thirteen bits.
\<close>

section \<open>Work on a row\<close>

definition rx_bits_same :: "t4_rx_state \<Rightarrow> t4_rx_state \<Rightarrow> bool" where
  "rx_bits_same s s' \<longleftrightarrow> tr_rx_bitstream s' = tr_rx_bitstream s \<and> tr_rx_bits s' = tr_rx_bits s"

text \<open>An operation that leaves the bit buffer alone.\<close>

definition keeps_bits :: "(t4_rx_state \<Rightarrow> t4_rx_state option) \<Rightarrow> bool" where
  "keeps_bits f \<longleftrightarrow> (\<forall>s s'. f s = Some s' \<longrightarrow> rx_bits_same s s')"

lemma rx_bits_same_refl [simp]: "rx_bits_same s s"
  by (simp add: rx_bits_same_def)

lemma rx_bits_same_trans: "rx_bits_same s s' \<Longrightarrow> rx_bits_same s' s'' \<Longrightarrow> rx_bits_same s s''"
  by (simp add: rx_bits_same_def)

lemma keeps_bitsD: "keeps_bits f \<Longrightarrow> f s = Some s' \<Longrightarrow> rx_bits_same s s'"
  by (simp add: keeps_bits_def)

lemma some_bind: "m \<bind> f = Some y \<longleftrightarrow> (\<exists>x. m = Some x \<and> f x = Some y)" for m :: "'a option"
  by (cases m) auto

lemma add_run_keeps: "keeps_bits add_run_to_row"
  by (auto simp: keeps_bits_def rx_bits_same_def add_run_to_row_def some_bind Let_def split: if_splits)

lemma run_octets_keeps: "run_octets i fudge s = Some (j, s') \<Longrightarrow> rx_bits_same s s'"
proof (induction i fudge s rule: run_octets.induct)
  case (1 i fudge s)
  then show ?case
    by (subst (asm) (2) run_octets.simps) (auto simp: rx_bits_same_def split: if_splits)
qed

lemma write_run_keeps: "keeps_bits (write_run run fudge)"
  unfolding keeps_bits_def write_run_def
  by (auto simp: rx_bits_same_def some_bind split: if_splits dest!: run_octets_keeps)

lemma put_runs_keeps: "put_runs n x fudge s = Some s' \<Longrightarrow> rx_bits_same s s'"
proof (induction n x fudge s rule: put_runs.induct)
  case (1 n x fudge s)
  show ?case
  proof (cases "x < n")
    case True
    then obtain run s1 where r: "arr_get (tr_cur_runs s) x = Some run" "write_run run fudge s = Some s1" "put_runs n (x + 1) (fudge XOR 0xFF) s1 = Some s'"
      using "1.prems" by (subst (asm) put_runs.simps) (auto simp: some_bind)
    show ?thesis
      using rx_bits_same_trans [OF keeps_bitsD [OF write_run_keeps r(2)] "1.IH" [OF True r(1,2,3)]] .
  next
    case False
    then show ?thesis
      using "1.prems" by (subst (asm) put_runs.simps) simp
  qed
qed

lemma good_row_keeps: "keeps_bits good_row"
  by (auto simp: keeps_bits_def good_row_def some_bind end_bad_rows_def rx_bits_same_def split: if_splits dest!: put_runs_keeps)

text \<open>A computation that starts from \<open>s\<close> and keeps its bits.\<close>

definition bits_kept :: "t4_rx_state \<Rightarrow> t4_rx_state option \<Rightarrow> bool" where
  "bits_kept s m \<longleftrightarrow> (\<forall>s'. m = Some s' \<longrightarrow> rx_bits_same s s')"

lemma bits_kept_some: "rx_bits_same s t \<Longrightarrow> bits_kept s (Some t)"
  by (simp add: bits_kept_def)

lemma bits_kept_none: "bits_kept s None"
  by (simp add: bits_kept_def)

lemma bits_kept_if: "bits_kept s a \<Longrightarrow> bits_kept s b \<Longrightarrow> bits_kept s (if c then a else b)"
  by simp

lemma bits_kept_bind: "bits_kept s m \<Longrightarrow> (\<And>t. rx_bits_same s t \<Longrightarrow> bits_kept s (f t)) \<Longrightarrow> bits_kept s (m \<bind> f)"
  by (auto simp: bits_kept_def some_bind)

lemma bits_kept_read: "(\<And>x. bits_kept s (f x)) \<Longrightarrow> bits_kept s (m \<bind> f)"
  by (auto simp: bits_kept_def some_bind)

lemma bits_kept_op: "keeps_bits f \<Longrightarrow> rx_bits_same s t \<Longrightarrow> bits_kept s (f t)"
  unfolding keeps_bits_def bits_kept_def using rx_bits_same_trans by blast

lemma keeps_bits_kept: "keeps_bits f \<longleftrightarrow> (\<forall>s. bits_kept s (f s))"
  by (simp add: keeps_bits_def bits_kept_def)

lemma append_run_keeps: "keeps_bits (\<lambda>s. append_run s run)"
  by (auto simp: keeps_bits_def append_run_def some_bind rx_bits_same_def)

lemma bad_row_keeps: "keeps_bits bad_row"
  unfolding keeps_bits_kept bad_row_def
  by (intro allI bits_kept_read [where m = "runs_total _ _ _"] bits_kept_bind bits_kept_if bits_kept_none bits_kept_read [where m = "arr_get _ _"]
      bits_kept_read [where m = "arr_set _ _ _"] bits_kept_read [where m = "mem_read _ _ _"] bits_kept_some bits_kept_op [OF append_run_keeps])
    (simp_all add: rx_bits_same_def)

lemma put_decoded_row_keeps: "keeps_bits put_decoded_row"
  unfolding keeps_bits_def
proof (intro allI impI)
  fix s s'
  assume "put_decoded_row s = Some s'"
  then obtain s1 s2 where r: "(if tr_run_length s \<noteq> 0 then add_run_to_row s else Some s) = Some s1"
    "(if tr_row_len (rx_grow s1) = tr_image_width (rx_grow s1) then good_row (rx_grow s1) else bad_row (rx_grow s1)) = Some s2" "rx_bits_same s2 s'"
    unfolding put_decoded_row_def some_bind Let_def by (auto simp: rx_bits_same_def)
  have "rx_bits_same s s1" "rx_bits_same s1 (rx_grow s1)" "rx_bits_same (rx_grow s1) s2"
    using r(1,2) keeps_bitsD [OF add_run_keeps] keeps_bitsD [OF good_row_keeps] keeps_bitsD [OF bad_row_keeps]
    by (auto simp: rx_grow_def rx_bits_same_def split: if_splits)
  then show "rx_bits_same s s'"
    using r(3) rx_bits_same_trans by blast
qed

lemma pass_a0_keeps: "pass_a0 s = Some s' \<Longrightarrow> rx_bits_same s s'"
proof (induction s rule: pass_a0.induct)
  case (1 s)
  show ?case
  proof (cases "tr_b1 s \<le> tr_a0 s")
    case True
    then obtain x y where r: "arr_get (tr_ref_runs s) (tr_b_cursor s) = Some x" "arr_get (tr_ref_runs s) (tr_b_cursor s + 1) = Some y"
      "pass_a0 (s\<lparr>tr_b1 := int_add (tr_b1 s) (x + y), tr_b_cursor := tr_b_cursor s + 2\<rparr>) = Some s'"
      using "1.prems" by (subst (asm) pass_a0.simps) (auto simp: some_bind)
    show ?thesis
      using "1.IH" [OF True r] by (simp add: rx_bits_same_def)
  next
    case False
    then show ?thesis
      using "1.prems" by (subst (asm) pass_a0.simps) simp
  qed
qed

lemma step_b1_keeps: "keeps_bits step_b1"
  by (auto simp: keeps_bits_def step_b1_def some_bind rx_bits_same_def)

lemma rx_vertical_keeps: "keeps_bits (rx_vertical param)"
  unfolding keeps_bits_kept rx_vertical_def
  by (intro allI bits_kept_bind bits_kept_if bits_kept_read [where m = "arr_get _ _"] bits_kept_some bits_kept_op [OF add_run_keeps] bits_kept_op [OF step_b1_keeps])
    (simp_all add: rx_bits_same_def)

lemma rx_pass_keeps: "keeps_bits rx_pass"
  unfolding keeps_bits_def rx_pass_def some_bind by (auto simp: rx_bits_same_def dest!: keeps_bitsD [OF step_b1_keeps])

lemma rx_1d_run_keeps: "keeps_bits (rx_1d_run state param)"
  unfolding keeps_bits_kept rx_1d_run_def Let_def
  by (intro allI bits_kept_bind bits_kept_if bits_kept_some bits_kept_op [OF add_run_keeps]) (simp_all add: rx_bits_same_def)

lemma rx_code_end_keeps: "keeps_bits rx_code_end"
  unfolding keeps_bits_def
proof (intro allI impI)
  fix s s'
  assume r: "rx_code_end s = Some s'"
  let ?s = "if tr_a0 s \<ge> tr_image_width s then s\<lparr>tr_a0 := tr_image_width s - 1\<rparr> else s"
  have same: "rx_bits_same s ?s"
    by (simp add: rx_bits_same_def)
  show "rx_bits_same s s'"
  proof (cases "tr_line_encoding ?s = T4_COMPRESSION_ITU_T6 \<and> tr_black_white ?s = 0 \<and> tr_row_len ?s \<ge> tr_image_width ?s")
    case True
    then obtain s1 s2 where "(if tr_run_length ?s > 0 then add_run_to_row ?s else Some ?s) = Some s1" "put_decoded_row (rx_update_row_bit_info s1) = Some s2"
      "rx_bits_same s2 s'"
      using r unfolding rx_code_end_def Let_def by (auto simp: some_bind rx_bits_same_def)
    then have "rx_bits_same ?s s1" "rx_bits_same s1 (rx_update_row_bit_info s1)" "rx_bits_same (rx_update_row_bit_info s1) s2" "rx_bits_same s2 s'"
      using keeps_bitsD [OF add_run_keeps] keeps_bitsD [OF put_decoded_row_keeps]
      by (auto simp: rx_update_row_bit_info_def rx_bits_same_def split: if_splits)
    then show ?thesis
      using same rx_bits_same_trans by blast
  next
    case False
    then show ?thesis
      using r same unfolding rx_code_end_def Let_def by (simp split: if_splits)
  qed
qed

section \<open>Steps\<close>

text \<open>Some bits have been taken from the start of the buffer.\<close>

definition bits_taken :: "t4_rx_state \<Rightarrow> t4_rx_state \<Rightarrow> bool" where
  "bits_taken s s' \<longleftrightarrow> (\<exists>n. int n \<le> tr_rx_bits s \<and> tr_rx_bitstream s' = drop_bit n (tr_rx_bitstream s) \<and> tr_rx_bits s' = tr_rx_bits s - int n)"

lemma bits_takenI:
  "int n \<le> tr_rx_bits s \<Longrightarrow> tr_rx_bitstream s' = drop_bit n (tr_rx_bitstream s) \<Longrightarrow> tr_rx_bits s' = tr_rx_bits s - int n \<Longrightarrow> bits_taken s s'"
  unfolding bits_taken_def by blast

lemma bits_taken_same: "rx_bits_same s t \<Longrightarrow> bits_taken t s' \<Longrightarrow> bits_taken s s'"
  by (simp add: bits_taken_def rx_bits_same_def)

lemma bits_taken_then_same: "bits_taken s t \<Longrightarrow> rx_bits_same t s' \<Longrightarrow> bits_taken s s'"
  by (simp add: bits_taken_def rx_bits_same_def)

lemma bits_taken_ok:
  assumes "t4_ok s" "bits_taken s s'"
  shows "t4_ok s'" "tr_rx_bits s' \<le> tr_rx_bits s"
proof -
  obtain n where n: "int n \<le> tr_rx_bits s" "tr_rx_bitstream s' = drop_bit n (tr_rx_bitstream s)" "tr_rx_bits s' = tr_rx_bits s - int n"
    using assms(2) by (auto simp: bits_taken_def)
  show "t4_ok s'" "tr_rx_bits s' \<le> tr_rx_bits s"
    using t4_rx_line_drop(1) [OF assms(1) n] n(3) by simp_all
qed

lemma drop_rx_bits_taken: "1 \<le> tr_rx_bits s \<Longrightarrow> bits_taken s (drop_rx_bits n s)"
  by (rule bits_takenI [of 1]) (simp_all add: drop_rx_bits_def)

lemma force_drop_taken: "int n \<le> tr_rx_bits s \<Longrightarrow> bits_taken s (force_drop_rx_bits n s)"
  by (rule bits_takenI [of n]) (simp_all add: force_drop_rx_bits_def)

text \<open>What an EOL that does not end the page takes.\<close>

definition drop_eol_bits :: "t4_rx_state \<Rightarrow> t4_rx_state" where
  "drop_eol_bits s =
     (let s = (if tr_line_encoding s = T4_COMPRESSION_ITU_T4_2D
               then force_drop_rx_bits 13 (s\<lparr>tr_row_is_2d := (tr_rx_bitstream s AND 0x1000 = 0)\<rparr>)
               else force_drop_rx_bits 12 s)
      in s\<lparr>tr_its_black := False, tr_black_white := 0, tr_run_length := 0, tr_row_len := 0\<rparr>)"

lemma rx_eol_taken:
  assumes r: "rx_eol s = Some (stop, s')" and n: "13 \<le> tr_rx_bits s"
  shows "bits_taken s s'"
proof -
  let ?row = "if tr_row_len s = 0
       then let s = s\<lparr>tr_consecutive_eols := tr_consecutive_eols s + 1\<rparr>
            in Some (if tr_consecutive_eols s \<ge> (if tr_line_encoding s = T4_COMPRESSION_ITU_T6 then EOLS_TO_END_T6_RX_PAGE
                                                 else EOLS_TO_END_T4_RX_PAGE)
                     then (True, s\<lparr>tr_consecutive_eols := EOLS_TO_END_ANY_RX_PAGE\<rparr>) else (False, s))
       else do {
         s \<leftarrow> (if tr_run_length s > 0 then add_run_to_row s else Some s);
         s \<leftarrow> put_decoded_row (s\<lparr>tr_consecutive_eols := 0\<rparr>);
         Some (False, rx_update_row_bit_info s)
       }"
  obtain t where t: "?row = Some (stop, t)" "s' = (if stop then t else drop_eol_bits t)"
    using r unfolding rx_eol_def some_bind drop_eol_bits_def by (auto split: prod.splits)
  have same: "rx_bits_same s t"
  proof (cases "tr_row_len s = 0")
    case True
    then show ?thesis
      using t(1) by (auto simp: Let_def rx_bits_same_def split: if_splits)
  next
    case False
    then obtain s1 s2 where "(if tr_run_length s > 0 then add_run_to_row s else Some s) = Some s1" "put_decoded_row (s1\<lparr>tr_consecutive_eols := 0\<rparr>) = Some s2"
      "t = rx_update_row_bit_info s2"
      using t(1) by (auto simp: some_bind)
    then have "rx_bits_same s s1" "rx_bits_same s1 (s1\<lparr>tr_consecutive_eols := 0\<rparr>)" "rx_bits_same (s1\<lparr>tr_consecutive_eols := 0\<rparr>) s2" "rx_bits_same s2 t"
      using keeps_bitsD [OF add_run_keeps] keeps_bitsD [OF put_decoded_row_keeps]
      by (auto simp: rx_update_row_bit_info_def rx_bits_same_def split: if_splits)
    then show ?thesis
      using rx_bits_same_trans by blast
  qed
  moreover have "bits_taken t (drop_eol_bits t)"
    using n same by (intro bits_takenI [of "if tr_line_encoding t = T4_COMPRESSION_ITU_T4_2D then 13 else 12"])
      (simp_all add: drop_eol_bits_def Let_def force_drop_rx_bits_def rx_bits_same_def)
  moreover have "bits_taken s s"
    using n by (intro bits_takenI [of 0]) simp_all
  ultimately show ?thesis
    using t(2) bits_taken_same bits_taken_then_same by (cases stop) auto
qed

lemma rx_step_taken:
  assumes r: "rx_step s = Some (stop, s')" and n: "13 \<le> tr_rx_bits s"
  shows "bits_taken s s'"
proof -
  have code: "bits_taken s s'" if "rx_bits_same s t" "rx_code_end (drop_rx_bits k t) = Some s'" for t k
  proof -
    have "bits_taken t (drop_rx_bits k t)"
      using n that(1) by (intro drop_rx_bits_taken) (simp add: rx_bits_same_def)
    then show ?thesis
      using bits_taken_same [OF that(1)] bits_taken_then_same keeps_bitsD [OF rx_code_end_keeps that(2)] by blast
  qed
  consider (eol) "rx_eol s = Some (stop, s')" | (skip) "tr_rx_bitstream s' = drop_bit 1 (tr_rx_bitstream s)" "tr_rx_bits s' = tr_rx_bits s - 1"
    | (full) k where "s' = drop_rx_bits k s" | (mode) t where "rx_2d_code s = Some t" "rx_code_end t = Some s'"
    | (run) t where "rx_1d_code s = Some t" "rx_code_end t = Some s'"
    using r unfolding rx_step_def by (auto simp: some_bind split: if_splits)
  then show ?thesis
  proof cases
    case eol
    then show ?thesis
      by (rule rx_eol_taken [OF _ n])
  next
    case skip
    then show ?thesis
      using n by (intro bits_takenI [of 1]) simp_all
  next
    case full
    then show ?thesis
      using n by (simp add: drop_rx_bits_taken)
  next
    case mode
    then obtain s1 where s1: "(if tr_a_cursor s \<noteq> 0 then pass_a0 s else Some s) = Some s1"
      "(let (state, width, param) = t4_2d_table (tr_rx_bitstream s1 AND 0x7F) in do {
         s \<leftarrow> (case state of S_Horiz \<Rightarrow> Some (s1\<lparr>tr_its_black := (tr_a_cursor s1 mod 2 = 1), tr_black_white := 2\<rparr>)
           | S_Vert \<Rightarrow> rx_vertical param s1 | S_Pass \<Rightarrow> rx_pass s1 | _ \<Rightarrow> Some s1);
         Some (drop_rx_bits width s) }) = Some t"
      unfolding rx_2d_code_def some_bind by blast
    obtain state k param where tab: "t4_2d_table (tr_rx_bitstream s1 AND 0x7F) = (state, k, param)"
      by (cases "t4_2d_table (tr_rx_bitstream s1 AND 0x7F)")
    obtain s2 where s2: "(case state of S_Horiz \<Rightarrow> Some (s1\<lparr>tr_its_black := (tr_a_cursor s1 mod 2 = 1), tr_black_white := 2\<rparr>)
           | S_Vert \<Rightarrow> rx_vertical param s1 | S_Pass \<Rightarrow> rx_pass s1 | _ \<Rightarrow> Some s1) = Some s2" "t = drop_rx_bits k s2"
      using s1(2) unfolding tab Let_def prod.case some_bind by blast
    have "rx_bits_same s1 s2"
      using s2(1) keeps_bitsD [OF rx_vertical_keeps] keeps_bitsD [OF rx_pass_keeps] by (cases state) (auto simp: rx_bits_same_def)
    moreover have "rx_bits_same s s1"
      using s1(1) pass_a0_keeps by (auto split: if_splits)
    ultimately have "rx_bits_same s s2"
      using rx_bits_same_trans by blast
    then show ?thesis
      using code [of s2 k] mode(2) s2(2) by simp
  next
    case run
    then obtain s1 k where "rx_bits_same s s1" "t = drop_rx_bits k s1"
      unfolding rx_1d_code_def by (auto simp: some_bind split: prod.splits dest: keeps_bitsD [OF rx_1d_run_keeps])
    then show ?thesis
      using code run(2) by blast
  qed
qed

section \<open>Any input\<close>

lemma rx_loop_ok:
  assumes "rx_loop s = Some (stop, s')" "t4_ok s"
  shows "t4_ok s' \<and> (\<not> stop \<longrightarrow> tr_rx_bits s' < 13)"
proof -
  have "t4_ok s \<longrightarrow> t4_ok (snd r) \<and> (\<not> fst r \<longrightarrow> tr_rx_bits (snd r) < 13)" if "rx_loop s = Some r" for r
  proof (rule rx_loop.raw_induct [OF _ that])
    fix loop s r
    assume IH: "\<And>s r. loop s = Some r \<Longrightarrow> t4_ok s \<longrightarrow> t4_ok (snd r) \<and> (\<not> fst r \<longrightarrow> tr_rx_bits (snd r) < 13)"
      and body: "(if 13 \<le> tr_rx_bits s then do { r \<leftarrow> rx_step s; if fst r then Some (True, snd r) else loop (snd r) } else Some (False, s)) = Some r"
    show "t4_ok s \<longrightarrow> t4_ok (snd r) \<and> (\<not> fst r \<longrightarrow> tr_rx_bits (snd r) < 13)"
    proof (cases "13 \<le> tr_rx_bits s")
      case True
      then obtain q where q: "rx_step s = Some q" "(if fst q then Some (True, snd q) else loop (snd q)) = Some r"
        using body by (simp only: if_True some_bind) blast
      have "bits_taken s (snd q)"
        using rx_step_taken [of s "fst q" "snd q"] q(1) True by simp
      then have "t4_ok s \<longrightarrow> t4_ok (snd q)"
        using bits_taken_ok by blast
      then show ?thesis
        using q(2) IH by (cases "fst q") auto
    next
      case False
      then show ?thesis
        using body by auto
    qed
  qed
  then show ?thesis
    using assms by fastforce
qed

lemma rx_first_eol_taken:
  assumes "13 \<le> tr_rx_bits s"
  shows "bits_taken s (snd (rx_first_eol s)) \<and> (if fst (rx_first_eol s) then 13 \<le> tr_rx_bits (snd (rx_first_eol s)) else tr_rx_bits (snd (rx_first_eol s)) < 13)"
  using assms
proof (induction s rule: rx_first_eol.induct)
  case (1 s)
  let ?s = "s\<lparr>tr_rx_bitstream := drop_bit 1 (tr_rx_bitstream s), tr_rx_bits := tr_rx_bits s - 1\<rparr>"
  have none: "bits_taken s s"
    using "1.prems" by (intro bits_takenI [of 0]) simp_all
  have one: "bits_taken s t" if t: "bits_taken ?s t" for t
  proof -
    obtain n where "int n \<le> tr_rx_bits s - 1" "tr_rx_bitstream t = drop_bit n (drop_bit 1 (tr_rx_bitstream s))" "tr_rx_bits t = tr_rx_bits s - 1 - int n"
      using t by (auto simp: bits_taken_def)
    then show ?thesis
      using "1.prems" by (intro bits_takenI [of "n + 1"]) (simp_all add: drop_bit_drop_bit)
  qed
  have first: "bits_taken s ?s"
    using "1.prems" by (intro bits_takenI [of 1]) simp_all
  show ?case
  proof (cases "tr_rx_bitstream s AND 0xFFF = 0x800")
    case True
    then show ?thesis
      using none "1.prems" by (subst (1 2 3 4) rx_first_eol.simps) simp
  next
    case False
    show ?thesis
    proof (cases "tr_rx_bits ?s < 13")
      case True
      then have "rx_first_eol s = (False, ?s)"
        using False by (subst rx_first_eol.simps) (simp add: Let_def)
      then show ?thesis
        using True first by simp
    next
      case more: False
      then have step: "rx_first_eol s = rx_first_eol ?s"
        using False by (subst rx_first_eol.simps) (simp add: Let_def)
      have "13 \<le> tr_rx_bits ?s"
        using more by linarith
      then show ?thesis
        unfolding step using "1.IH" [OF False HOL.refl more] one by blast
    qed
  qed
qed

text \<open>An octet: the buffer stays within twenty bits, with nothing above them.\<close>

lemma rx_put_octet_ok:
  assumes s: "t4_ok s" "tr_rx_bits s < 13" and r: "rx_put_bits s (ucast (b :: u8)) 8 = Some (stop, s')"
  shows "t4_ok s' \<and> (\<not> stop \<longrightarrow> tr_rx_bits s' < 13)"
proof -
  define t where "t = s\<lparr>tr_line_image_size := tr_line_image_size s + int 8, tr_rx_bitstream := tr_rx_bitstream s OR push_bit (nat (tr_rx_bits s)) (ucast b),
    tr_rx_bits := tr_rx_bits s + int 8\<rparr>"
  have ok: "t4_ok t"
    using feed_line(1) [OF s t_def [unfolded of_nat_numeral]] .
  have "\<not> (tr_rx_bits s < 0 \<or> tr_rx_bits s \<ge> 32)"
    using s by (simp add: t4_ok_def)
  note r' = r [unfolded rx_put_bits_def Let_def if_not_P [OF this], folded t_def]
  show ?thesis
  proof (cases "13 \<le> tr_rx_bits t \<and> tr_consecutive_eols t < 0")
    case True
    obtain found u where u: "rx_first_eol t = (found, u)"
      by (cases "rx_first_eol t")
    have taken: "bits_taken t u" "if found then 13 \<le> tr_rx_bits u else tr_rx_bits u < 13"
      using rx_first_eol_taken [of t, unfolded u fst_conv snd_conv] True by blast+
    have ok_u: "t4_ok u"
      using bits_taken_ok(1) [OF ok taken(1)] .
    show ?thesis
    proof (cases found)
      case found: True
      let ?v = "u\<lparr>tr_consecutive_eols := 0\<rparr>"
      let ?w = "if tr_line_encoding ?v = T4_COMPRESSION_ITU_T4_1D then force_drop_rx_bits 12 (?v\<lparr>tr_row_is_2d := False\<rparr>)
        else force_drop_rx_bits 13 (?v\<lparr>tr_row_is_2d := (tr_rx_bitstream ?v AND 0x1000 = 0)\<rparr>)"
      have "bits_taken u ?w"
        using taken(2) found by (intro bits_takenI [of "if tr_line_encoding u = T4_COMPRESSION_ITU_T4_1D then 12 else 13"])
          (simp_all add: force_drop_rx_bits_def)
      then have "t4_ok ?w"
        using bits_taken_ok(1) [OF ok_u] by blast
      moreover have "rx_loop ?w = Some (stop, s')"
        using r' True u found by (simp add: EOLS_TO_END_ANY_RX_PAGE_def split: if_splits)
      ultimately show ?thesis
        using rx_loop_ok by blast
    next
      case False
      then show ?thesis
        using r' True u ok_u taken(2) by (simp add: EOLS_TO_END_ANY_RX_PAGE_def)
    qed
  next
    case False
    then show ?thesis
      using r' ok rx_loop_ok [of t stop s'] by (auto split: if_splits)
  qed
qed

lemma rx_put_octets_ok:
  assumes "t4_ok s" "tr_rx_bits s < 13" "t4_rx_put_chunk s bs = Some (stop, s')"
  shows "t4_ok s' \<and> (\<not> stop \<longrightarrow> tr_rx_bits s' < 13)"
  using assms
proof (induction bs arbitrary: s)
  case (Cons b bs)
  obtain q t where q: "rx_put_bits s (ucast b) 8 = Some (q, t)" "(if q then Some (True, t) else t4_rx_put_chunk t bs) = Some (stop, s')"
    using Cons.prems(3) by (auto simp: some_bind)
  have "t4_ok t \<and> (\<not> q \<longrightarrow> tr_rx_bits t < 13)"
    using rx_put_octet_ok [OF Cons.prems(1,2) q(1)] .
  then show ?case
    using q(2) Cons.IH [of t] by (cases q) auto
qed simp

end
