(* ===== verification/T4_Results.thy ===== *)
theory T4_Results
  imports T4_Page T4_Rx_Buffer
begin

text \<open>
  What the page coder of \<^verbatim>\<open>t4_tx.c\<close> and \<^verbatim>\<open>t4_rx.c\<close> guarantees in T.4 coding.
\<close>

section \<open>States without a page\<close>

text \<open>All members zero, apart from the coding, the width and the buffers for it.\<close>

definition tt_blank :: "int \<Rightarrow> nat \<Rightarrow> t4_tx_state" where
  "tt_blank coding n =
     \<lparr>tt_line_encoding = coding, tt_line_image_size = 0, tt_bytes_per_row = int n, tt_image = [], tt_image_buffer_size = 0,
      tt_current_page = 0, tt_image_width = 8 * int n, tt_image_length = 0, tt_row = 0, tt_row_is_2d = False,
      tt_cur_runs = replicate (8 * n + 4) 0, tt_ref_runs = replicate (8 * n + 4) 0, tt_row_buf = replicate n 0, tt_tx_bitstream = 0,
      tt_tx_bits = 0, tt_row_bits = 0, tt_min_row_bits = 0, tt_max_row_bits = 0, tt_min_bits_per_row = 0,
      tt_max_rows_to_next_1d_row = 2, tt_rows_to_next_1d_row = 0, tt_ref_steps = 0, tt_bit_pos = 0, tt_bit_ptr = 0\<rparr>"

definition tr_blank :: "int \<Rightarrow> nat \<Rightarrow> t4_rx_state" where
  "tr_blank coding n =
     \<lparr>tr_line_encoding = coding, tr_line_image_size = 0, tr_bytes_per_row = 0, tr_image = [], tr_image_buffer_size = 0,
      tr_image_width = 8 * int n, tr_image_length = 0, tr_row_is_2d = False, tr_row_len = 0, tr_cur_runs = [], tr_ref_runs = [],
      tr_tx_bitstream = 0, tr_tx_bits = 0, tr_row_bits = 0, tr_min_row_bits = 0, tr_max_row_bits = 0, tr_rx_bitstream = 0,
      tr_rx_bits = 0, tr_rx_skip_bits = 0, tr_consecutive_eols = 0, tr_a0 = 0, tr_b1 = 0, tr_run_length = 0, tr_black_white = 0,
      tr_its_black = False, tr_a_cursor = 0, tr_b_cursor = 0, tr_last_row_starts_at = 0, tr_curr_bad_row_run = 0,
      tr_longest_bad_row_run = 0, tr_bad_rows = 0\<rparr>"

lemma tt_blank_ready: "page_coding c \<Longrightarrow> 0 < n \<Longrightarrow> 8 * int n < 2 ^ 31 \<Longrightarrow> tt_ready c (8 * n) (tt_blank c n)"
  by (simp add: tt_ready_def tt_blank_def)

lemma tr_blank_ready: "0 < n \<Longrightarrow> tr_ready c (8 * n) (tr_blank c n)"
  by (simp add: tr_ready_def tr_blank_def)

lemma tt_blank_buf: "tt_row_buf (tt_blank c n) = replicate n 0"
  by (simp add: tt_blank_def)

section \<open>Guarantees\<close>

text \<open>
  Claim C2. A page survives T.4 coding, one-dimensional or two-dimensional. Whatever rows are given to the encoder, with
  whatever minimum number of bits for a row and whatever distance between the one-dimensional rows of a
  two-dimensional page, the octets it produces lead the decoder to exactly these rows, in order, which
  it gives to the row write handler up to the first that this refuses, with an empty row at the end; no row is bad.
  In two-dimensional coding the end of the page is always signalled.
\<close>

theorem t4_page_round_trip:
  assumes "tt_ready c width t" "tr_ready c width r" "width = 8 * length (tt_row_buf t)" "rows \<noteq> []"
    "\<forall>row\<in>set rows. length row = length (tt_row_buf t)"
  shows "\<exists>t' r1 stop r2 r3. t4_tx_start_page rows t = Some t' \<and> t4_rx_start_page r = Some r1 \<and>
    t4_rx_put_chunk r1 (tt_image t') = Some (stop, r2) \<and> (c = T4_COMPRESSION_ITU_T4_2D \<longrightarrow> stop) \<and>
    t4_rx_end_page accepts r2 = Some (0, written_rows accepts rows @ [[]], r3) \<and>
    tr_bad_rows r3 = 0 \<and> tr_image_length r3 = int (length rows)"
  using assms by (rule page_round_trip)

theorem t4_page_round_trip_witness:
  "\<exists>t' r1 stop r2 r3. t4_tx_start_page [[0x0F, 0xFF], [0x1F, 0x81], [0, 0x81]] (tt_blank T4_COMPRESSION_ITU_T4_2D 2) = Some t' \<and>
    t4_rx_start_page (tr_blank T4_COMPRESSION_ITU_T4_2D 2) = Some r1 \<and> t4_rx_put_chunk r1 (tt_image t') = Some (stop, r2) \<and> stop \<and>
    t4_rx_end_page (\<lambda>row. True) r2 = Some (0, [[0x0F, 0xFF], [0x1F, 0x81], [0, 0x81], []], r3) \<and> tr_bad_rows r3 = 0 \<and> tr_image_length r3 = 3"
  using t4_page_round_trip [OF tt_blank_ready [of T4_COMPRESSION_ITU_T4_2D 2] tr_blank_ready [of 2],
      of "[[0x0F, 0xFF], [0x1F, 0x81], [0, 0x81]]" "\<lambda>row. True"]
  by (simp add: tt_blank_buf page_coding_def)

text \<open>
  Claim C10. The format of the line. The bits of a page, least significant bit of an octet first, are an EOL, for every
  row its codes, some fill and an EOL, five more EOLs, and at most seven ones. The codes of a row are those of
  its runs, or the modes that describe it relative to the row above; in two-dimensional coding a bit behind each EOL
  tells which of them follow, and the first row is coded by its runs.
\<close>

theorem t4_page_line:
  assumes "tt_ready c width t" "\<forall>row\<in>set rows. length row = length (tt_row_buf t)"
  shows "\<exists>t' l m. t4_tx_start_page rows t = Some t' \<and> rows_line c width [] False rows l \<and> m \<le> 7 \<and>
    stream_lsb (tt_image t') = eol_tag c True @ l @ eols_line c 5 @ replicate m True"
  using t4_tx_start_page_line [OF assms] by metis

theorem t4_page_line_witness:
  "\<exists>t' l m. t4_tx_start_page [[0x0F, 0xFF], [0x1F, 0x81]] (tt_blank T4_COMPRESSION_ITU_T4_2D 2) = Some t' \<and>
    rows_line T4_COMPRESSION_ITU_T4_2D 16 [] False [[0x0F, 0xFF], [0x1F, 0x81]] l \<and> m \<le> 7 \<and>
    stream_lsb (tt_image t') = eol_tag T4_COMPRESSION_ITU_T4_2D True @ l @ eols_line T4_COMPRESSION_ITU_T4_2D 5 @ replicate m True"
  using t4_page_line [OF tt_blank_ready [of T4_COMPRESSION_ITU_T4_2D 2], of "[[0x0F, 0xFF], [0x1F, 0x81]]"]
  by (simp add: tt_blank_buf page_coding_def)

text \<open>
  Claim C11. The encoder of two-dimensional rows. Its search in the reference row goes down or up in steps of two changes
  from where it was, with entries behind the end of the row; what it sends are the code words of exactly the
  modes that T.4 defines by the first change on the right of the present position that has the opposite
  colour: a vertical mode within three pixels, pass mode if the next change still is on the left, or
  horizontal mode with two runs. The row becomes the reference row of the next.
\<close>

theorem t4_2d_row_modes:
  assumes "tt_ok s" "tt_image_width s = int width" "0 < width" "int width < 2 ^ 31" "width \<le> 8 * length (tt_row_buf s)"
    "width + 4 \<le> length (tt_cur_runs s)" "width \<le> 8 * length prev" "stretched (row_changes prev width) (tt_ref_runs s)"
    "tt_ref_steps s = int (length (row_changes prev width))"
  shows "\<exists>ms s'. encode_2d_row s = Some s' \<and> coded (row_runs prev width) (row_runs (tt_row_buf s) width) 0 0 ms \<and>
    tt_line s' = tt_line s @ modes_bits ms \<and> tt_ref_steps s' = int (length (row_changes (tt_row_buf s) width)) \<and>
    stretched (row_changes (tt_row_buf s) width) (tt_ref_runs s')"
  using encode_2d_row_sent [OF assms] unfolding row_sent_def by metis

theorem t4_2d_row_modes_witness:
  "\<exists>ms s'. encode_2d_row ((tt_blank T4_COMPRESSION_ITU_T4_2D 1)\<lparr>tt_row_buf := [0x1F], tt_ref_runs := [4, 8, 8, 8, 8] @ replicate 7 0, tt_ref_steps := 2\<rparr>) = Some s' \<and>
    coded (row_runs [0x0F] 8) (row_runs [0x1F] 8) 0 0 ms \<and> tt_line s' = modes_bits ms"
proof -
  let ?s = "(tt_blank T4_COMPRESSION_ITU_T4_2D 1)\<lparr>tt_row_buf := [0x1F], tt_ref_runs := [4, 8, 8, 8, 8] @ replicate 7 0, tt_ref_steps := 2\<rparr>"
  have ch: "row_changes [0x0F] 8 = [4, 8]"
    by code_simp
  have "stretched (row_changes [0x0F] 8) (tt_ref_runs ?s)"
    unfolding ch by (auto simp: stretched_def less_Suc_eq numeral_eq_Suc)
  moreover have "tt_ok ?s" "tt_line ?s = []"
    by (simp_all add: tt_ok_def tt_blank_def tt_line_def pending_bits_def)
  ultimately show ?thesis
    using t4_2d_row_modes [of ?s 8 "[0x0F]"] ch by (auto simp: tt_blank_def)
qed

text \<open>
  Claim C27. The search for colour changes. The routine that compares whole words of a row with the current colour and
  finds the changes inside of them by the top bit writes exactly the positions at which a pixel differs
  from the one before it, and the width, whatever the row and its width are.
\<close>

theorem t4_row_changes:
  assumes "0 < width" "width \<le> 8 * length row" "width < length list"
  shows "\<exists>list'. row_to_run_lengths list row (int width) = Some (int (length (row_changes row width)), list') \<and>
    length list' = length list \<and> take (length (row_changes row width)) list' = map word_of_int (row_changes row width)"
  using assms by (rule row_to_run_lengths_spec)

theorem t4_row_changes_witness:
  "\<exists>list'. row_to_run_lengths (replicate 60 0) [0x0F, 0xFF, 0, 0, 0, 0x81] 45 = Some (int (length (row_changes [0x0F, 0xFF, 0, 0, 0, 0x81] 45)), list') \<and>
    length list' = 60 \<and> take (length (row_changes [0x0F, 0xFF, 0, 0, 0, 0x81] 45)) list' = map word_of_int (row_changes [0x0F, 0xFF, 0, 0, 0, 0x81] 45)"
  using t4_row_changes [of 45 "[0x0F, 0xFF, 0, 0, 0, 0x81]" "replicate 60 0"] by simp

text \<open>
  The tables of the encoder and the decoder agree. For each of the 104 code words of a colour, and for any
  bits behind it, the entry of the decoder for the bits that start with the word has its width and its run, as
  a terminating code below 64 and as a make-up code from 64 on.
\<close>

theorem t4_code_recognised:
  assumes "i < 104" "take 13 (code_bits (t4_run_codes black ! i) @ l) = map (bit x) [0..<13]"
  shows "(if black then t4_1d_black_table (x AND 0x1FFF) else t4_1d_white_table (x AND 0xFFF)) =
    (run_state black i, length (code_bits (t4_run_codes black ! i)), snd (snd (t4_run_codes black ! i)))"
  using run_entry_code [OF assms] run_codes_nth(2) [OF assms(1), of black] by (simp add: run_entry_def run_entry_ok_def)

theorem t4_code_recognised_witness:
  "t4_1d_black_table (0x1A8 AND 0x1FFF) = (run_state True 8, length (code_bits (t4_run_codes True ! 8)), snd (snd (t4_run_codes True ! 8)))"
proof -
  have "take 13 (code_bits (t4_run_codes True ! 8) @ [False, True, True, False, False, False, False]) = map (bit (0x1A8 :: u32)) [0..<13]"
    by code_simp
  from t4_code_recognised [OF _ this] show ?thesis
    by (simp only: if_True)
qed

text \<open>
  Claim C15. The bit buffer of the decoder on any input. From a state with fewer than thirteen bits in the register and
  nothing above them, as at the start of a page, whatever the octets are: when a call returns, the 32 bit register has at
  least none and at most twenty bits, with nothing above them, and if the end of the page was not signalled, again fewer
  than thirteen, so that the next octet fits. The number of bits is an \<^verbatim>\<open>int\<close> that the code does not
  test before it subtracts. Calls after the end of the page are not covered.
\<close>

theorem t4_rx_bit_buffer:
  assumes "t4_ok s" "tr_rx_bits s < 13" "t4_rx_put_chunk s bs = Some (stop, s')"
  shows "t4_ok s' \<and> 0 \<le> tr_rx_bits s' \<and> tr_rx_bits s' \<le> 20 \<and> (\<not> stop \<longrightarrow> tr_rx_bits s' < 13)"
  using rx_put_octets_ok [OF assms] by (simp add: t4_ok_def)

theorem t4_rx_bit_buffer_witness:
  "\<exists>s'. t4_rx_put_chunk (tr_blank T4_COMPRESSION_ITU_T4_2D 1) [0x5A] = Some (False, s') \<and> t4_ok s' \<and> 0 \<le> tr_rx_bits s' \<and> tr_rx_bits s' < 13"
proof -
  let ?s = "tr_blank T4_COMPRESSION_ITU_T4_2D 1"
  obtain s' where r: "t4_rx_put_chunk ?s [0x5A] = Some (False, s')"
    by (simp add: rx_put_bits_def tr_blank_def)
  have "t4_ok ?s" "tr_rx_bits ?s < 13"
    by (simp_all add: t4_ok_def tr_blank_def)
  from t4_rx_bit_buffer [OF this r] r show ?thesis
    by simp
qed

end
