(* ===== verification/T4_T6_First_Row.thy ===== *)
theory T4_T6_First_Row
  imports T4_Results
begin

text \<open>
  A page of one row in T.6 coding, from \<^verbatim>\<open>t4_tx.c\<close> to \<^verbatim>\<open>t4_rx.c\<close>: the decoder loses a row whose only black pixels are
  the last one, two or three.
\<close>

section \<open>Encoder and decoder\<close>

text \<open>
  A page through encoder and decoder: return value of the last octet, rows without the empty one, and bad rows.
\<close>

definition t4_transfer :: "int \<Rightarrow> nat \<Rightarrow> octets list \<Rightarrow> (bool \<times> octets list \<times> int) option" where
  "t4_transfer coding n rows = do {
     t \<leftarrow> t4_tx_start_page rows (tt_blank coding n);
     r \<leftarrow> t4_rx_start_page (tr_blank coding n);
     (stop, r) \<leftarrow> t4_rx_put_chunk r (tt_image t);
     (v, rows, r) \<leftarrow> t4_rx_end_page (\<lambda>row. True) r;
     Some (stop, butlast rows, tr_bad_rows r)
   }"

section \<open>The decoder\<close>

text \<open>The states of the decoder in the page, with \<open>k\<close> bits to skip: in its first row, and after a bad row.\<close>

definition t6_page :: "nat \<Rightarrow> nat \<Rightarrow> t4_rx_state \<Rightarrow> bool" where
  "t6_page width k s \<longleftrightarrow> tr_line_encoding s = T4_COMPRESSION_ITU_T6 \<and> tr_row_is_2d s \<and> tr_image_width s = int width \<and>
     tr_image s = [] \<and> tr_black_white s = 0 \<and> tr_run_length s = 0 \<and> tr_rx_skip_bits s = int k \<and> 0 \<le> tr_consecutive_eols s \<and>
     tr_consecutive_eols s < 2"

definition t6_row :: "nat \<Rightarrow> nat \<Rightarrow> t4_rx_state \<Rightarrow> bool" where
  "t6_row width k s \<longleftrightarrow> t6_page width k s \<and> tr_bad_rows s = 0 \<and> tr_last_row_starts_at s = 0 \<and> width + 4 \<le> length (tr_cur_runs s) \<and>
     width + 4 \<le> length (tr_ref_runs s) \<and> holds_runs [width, width, width, width] (tr_ref_runs s) \<and> tr_consecutive_eols s = 0"

definition t6_row_start :: "nat \<Rightarrow> nat \<Rightarrow> t4_rx_state \<Rightarrow> bool" where
  "t6_row_start width k s \<longleftrightarrow> t6_row width k s \<and> tr_row_len s = 0 \<and> tr_a_cursor s = 0 \<and> tr_a0 s = 0 \<and> tr_b_cursor s = 1 \<and> tr_b1 s = int width"

definition t6_white :: "nat \<Rightarrow> nat \<Rightarrow> nat \<Rightarrow> t4_rx_state \<Rightarrow> bool" where
  "t6_white width m k s \<longleftrightarrow> t6_row width k s \<and> tr_row_len s = int m \<and> tr_a_cursor s = 1 \<and> tr_a0 s = int m \<and> tr_b_cursor s = 0 \<and>
     tr_b1 s = 0 \<and> tr_cur_runs s ! 0 = of_nat m"

definition t6_bad :: "nat \<Rightarrow> nat \<Rightarrow> nat \<Rightarrow> t4_rx_state \<Rightarrow> bool" where
  "t6_bad width e k s \<longleftrightarrow> t6_page width k s \<and> tr_bad_rows s = 1 \<and> tr_row_len s = 0 \<and> tr_consecutive_eols s = int e"

lemma t6_page_buffered: "t6_page width k s \<Longrightarrow> rx_buffered s s' \<Longrightarrow> t6_page width k s'"
  unfolding t6_page_def rx_buffered_def by (elim exE) simp

lemma t6_buffered:
  "t6_row_start width k s \<Longrightarrow> rx_buffered s s' \<Longrightarrow> t6_row_start width k s'"
  "t6_white width m k s \<Longrightarrow> rx_buffered s s' \<Longrightarrow> t6_white width m k s'"
  "t6_bad width e k s \<Longrightarrow> rx_buffered s s' \<Longrightarrow> t6_bad width e k s'"
  unfolding t6_row_start_def t6_white_def t6_bad_def t6_row_def t6_page_def rx_buffered_def by (elim exE, simp)+

lemma t6_in_page: "t6_page width k s \<Longrightarrow> rx_in_page s"
  by (simp add: t6_page_def rx_in_page_def EOLS_TO_END_ANY_RX_PAGE_def)

lemma t6_pages: "t6_row_start width k s \<Longrightarrow> t6_page width k s" "t6_white width m k s \<Longrightarrow> t6_page width k s" "t6_bad width e k s \<Longrightarrow> t6_page width k s"
  by (simp_all add: t6_row_start_def t6_white_def t6_bad_def t6_row_def)

text \<open>Bits to skip.\<close>

lemma t6_skip:
  assumes "12 \<le> length l" "no_eol xs l"
  shows "rx_leads (t6_white width m (length xs)) (xs @ l) (t6_white width m 0) l"
  using assms
proof (induction xs)
  case (Cons b xs)
  have "rx_leads (t6_white width m (length (b # xs))) ((b # xs) @ l) (t6_white width m (length xs)) (drop 1 ((b # xs) @ l))"
  proof (rule rx_leads_step [OF t6_in_page [OF t6_pages(2)] t6_buffered(2)])
    fix s bs
    assume s: "t6_white width m (length (b # xs)) s" "13 \<le> tr_rx_bits s" "t4_rx_line s bs = (b # xs) @ l"
    let ?s = "s\<lparr>tr_rx_skip_bits := tr_rx_skip_bits s - 1, tr_rx_bits := tr_rx_bits s - 1, tr_rx_bitstream := drop_bit 1 (tr_rx_bitstream s)\<rparr>"
    have "\<not> tr_rx_bitstream s AND 0xFFF = 0x800"
      using rx_eol_window [OF s(2), of bs] s(3) Cons.prems(2) by simp
    then have "rx_step s = Some (False, ?s)"
      using s(1) by (simp add: rx_step_def t6_white_def t6_row_def t6_page_def)
    then show "\<exists>s'. rx_step s = Some (False, s') \<and> t6_white width m (length xs) s' \<and> tr_rx_bitstream s' = drop_bit 1 (tr_rx_bitstream s) \<and>
        tr_rx_bits s' = tr_rx_bits s - int 1"
      using s(1) by (simp add: t6_white_def t6_row_def t6_page_def)
  qed (use Cons.prems in simp_all)
  then show ?case
    using Cons rx_leads_trans by simp
qed simp

text \<open>The first code word, and the one that the decoder does not understand.\<close>

lemma t6_ref:
  assumes "holds_runs [width, width, width, width] refs"
  shows "arr_get refs 0 = Some (of_nat width)" "arr_get refs 1 = Some (of_nat width)" "arr_get refs 2 = Some (of_nat width)"
  using holds_runs_nth [OF assms, of 0] holds_runs_nth [OF assms, of 1] holds_runs_nth [OF assms, of 2] by simp_all

lemma t6_first_vertical:
  assumes s: "t6_row_start width 0 s" and m: "width = m + d" "1 \<le> d" "int width < 2 ^ 31"
  shows "rx_vertical (- int d) s = Some (s\<lparr>tr_run_length := 0, tr_a0 := int m, tr_row_len := int m, tr_cur_runs := (tr_cur_runs s)[0 := of_nat m],
    tr_a_cursor := 1, tr_b1 := 0, tr_b_cursor := 0\<rparr>)"
proof -
  have st: "tr_run_length s = 0" "tr_b1 s = int width" "tr_a0 s = 0" "tr_row_len s = 0" "tr_image_width s = int width" "tr_a_cursor s = 0" "tr_b_cursor s = 1"
    "arr_get (tr_ref_runs s) 0 = Some (of_nat width)" "width + 4 \<le> length (tr_cur_runs s)"
    using s t6_ref by (simp_all add: t6_row_start_def t6_row_def t6_page_def)
  have cur: "tr_cur_runs s \<noteq> []"
    using st(9) by auto
  have b1: "int_add (int width) (- of_nat width) = 0"
    using int_sub_nat [of width width] m(3) by simp
  let ?r = "s\<lparr>tr_run_length := int m, tr_a0 := int m\<rparr>"
  have run: "s\<lparr>tr_run_length := tr_run_length s + (tr_b1 s - tr_a0 s + - int d), tr_a0 := tr_b1 s + - int d\<rparr> = ?r"
    using st(1-3) m(1) by simp
  have "add_run_to_row ?r = Some (?r\<lparr>tr_row_len := int m, tr_cur_runs := (tr_cur_runs s)[0 := of_nat m], tr_a_cursor := 1, tr_run_length := 0\<rparr>)"
    using st(4-6) cur m(1) by (simp add: add_run_to_row_def arr_set_def)
  then show ?thesis
    unfolding rx_vertical_def run using st(2,7,8) m(2) b1 by simp
qed

lemma t6_first_code:
  assumes m: "width = m + d" "1 \<le> d" "d \<le> 3" "0 < m" "int width < 2 ^ 31" and l: "13 \<le> length (w @ l)" "take 12 (w @ l) \<noteq> eol_bits"
    and w: "w = code_bits (t4_2d_codes ! (3 + d))"
  shows "rx_leads (t6_row_start width 0) (w @ l) (t6_white width m (length w - 1)) (drop 1 (w @ l))"
proof (rule rx_leads_step [OF t6_in_page [OF t6_pages(1)] t6_buffered(1) l(1)])
  fix s bs
  assume s: "t6_row_start width 0 s" "13 \<le> tr_rx_bits s" "t4_rx_line s bs = w @ l"
  have eol: "\<not> tr_rx_bitstream s AND 0xFFF = 0x800"
    using rx_eol_window [OF s(2), of bs] s(3) l(2) by simp
  have win: "take 13 (code_bits (t4_2d_codes ! (3 + d)) @ l) = map (bit (tr_rx_bitstream s)) [0..<13]"
    using t4_rx_window [OF s(2), of bs] unfolding s(3) w [symmetric] by simp
  have "3 + d < 9" "mode_entry (3 + d) = (S_Vert, - int d)"
    using m(3) by (simp_all add: mode_entry_def)
  then have tab: "t4_2d_table (tr_rx_bitstream s AND 0x7F) = (S_Vert, length w, - int d)"
    using mode_entry_code [OF _ win] unfolding w [symmetric] by simp
  let ?s = "s\<lparr>tr_run_length := 0, tr_a0 := int m, tr_row_len := int m, tr_cur_runs := (tr_cur_runs s)[0 := of_nat m], tr_a_cursor := 1,
    tr_b1 := 0, tr_b_cursor := 0\<rparr>"
  have st: "tr_a_cursor s = 0" "tr_image_width s = int width" "tr_row_len s = 0" "tr_rx_skip_bits s = 0" "tr_row_is_2d s" "tr_black_white s = 0" "tr_cur_runs s \<noteq> []"
    using s(1) by (auto simp: t6_row_start_def t6_row_def t6_page_def)
  have "rx_2d_code s = Some (drop_rx_bits (length w) ?s)"
    using t6_first_vertical [OF s(1) m(1,2,5)] st(1) tab by (simp add: rx_2d_code_def)
  moreover have "rx_code_end (drop_rx_bits (length w) ?s) = Some (drop_rx_bits (length w) ?s)"
    using st(2) m(1,2) by (simp add: rx_code_end_def drop_rx_bits_def)
  ultimately have "rx_step s = Some (False, drop_rx_bits (length w) ?s)"
    using st eol m(1,4) by (simp add: rx_step_def)
  moreover have "1 \<le> length w"
    using mode_word_not_empty [OF \<open>3 + d < 9\<close>] w by (simp add: Suc_le_eq)
  then have "t6_white width m (length w - 1) (drop_rx_bits (length w) ?s)"
    using s(1) st(7) by (simp add: t6_white_def t6_row_start_def t6_row_def t6_page_def drop_rx_bits_def of_nat_diff)
  ultimately show "\<exists>s'. rx_step s = Some (False, s') \<and> t6_white width m (length w - 1) s' \<and>
      tr_rx_bitstream s' = drop_bit 1 (tr_rx_bitstream s) \<and> tr_rx_bits s' = tr_rx_bits s - int 1"
    by (simp add: drop_rx_bits_def)
qed simp_all

text \<open>The row is too long.\<close>

lemma t6_bad_row:
  assumes "t6_row width k s" "tr_row_len s = int (2 * width - j)" "tr_cur_runs s ! 0 = of_nat m" "tr_a_cursor s = 1"
    and m: "m < width" "j < width" "int width < 2 ^ 31"
  shows "\<exists>s'. put_decoded_row s = Some s' \<and> t6_page width k s' \<and> tr_bad_rows s' = 1 \<and> tr_consecutive_eols s' = 0"
proof -
  let ?g = "rx_grow s"
  have s: "tr_run_length s = 0" "tr_image ?g = []" "tr_image_width ?g = int width" "tr_row_len ?g = int (2 * width - j)" "tr_cur_runs ?g = tr_cur_runs s"
    "tr_a_cursor ?g = 1" "tr_last_row_starts_at ?g = 0" "tr_bad_rows ?g = 0" "t6_page width k ?g" "tr_consecutive_eols ?g = 0"
    using assms(1-4) by (simp_all add: t6_row_def t6_page_def rx_grow_def)
  have len: "width + 4 \<le> length (tr_cur_runs s)"
    using assms(1) by (simp add: t6_row_def)
  then have ne: "tr_cur_runs s \<noteq> []"
    by auto
  have "uint (of_nat m :: u32) = int m"
    using m by (simp add: unsigned_of_nat take_bit_nat_eq_self_iff flip: of_nat_take_bit)
  then have total: "runs_total ?g 0 0 = Some (int m)"
    using s(3,5,6) m(1) ne assms(3) by (simp add: runs_total.simps [of ?g 0] runs_total.simps [of ?g 1] arr_get_def)
  obtain x y z where bad: "bad_row ?g = Some (?g\<lparr>tr_cur_runs := x, tr_a_cursor := y, tr_bad_rows := 1, tr_curr_bad_row_run := z\<rparr>)"
    "length x = length (tr_cur_runs s)" "y = 2 \<or> y = 3"
    using s len m(1)
    by (cases "int m + 1 < int width") (simp_all add: bad_row_def total append_run_def arr_set_def)
  obtain runs where runs: "arr_set x y 0 = Some runs" "length runs = length x"
    using bad(2,3) len m(1) by (auto simp: arr_set_def)
  obtain runs' where runs': "arr_set runs (y + 1) 0 = Some runs'" "length runs' = length x"
    using runs(2) bad(2,3) len m(1) by (auto simp: arr_set_def)
  obtain b1 where "arr_get runs' 0 = Some b1"
    using runs'(2) bad(2) ne by (auto simp: arr_get_def)
  moreover have "tr_row_len ?g \<noteq> tr_image_width ?g"
    using s(3,4) m(2) by simp
  ultimately show ?thesis
    using s runs runs' bad(1) by (simp add: put_decoded_row_def t6_page_def Let_def)
qed

lemma t6_second_code:
  assumes m: "m < width" "0 < m" "int width < 2 ^ 30" and l: "13 \<le> length (True # l)"
  shows "rx_leads (t6_white width m 0) (True # l) (t6_bad width 0 0) l"
proof -
  have "rx_leads (t6_white width m 0) (True # l) (t6_bad width 0 0) (drop 1 (True # l))"
  proof (rule rx_leads_step [OF t6_in_page [OF t6_pages(2)] t6_buffered(2) l])
    fix s bs
    assume s: "t6_white width m 0 s" "13 \<le> tr_rx_bits s" "t4_rx_line s bs = True # l"
    have eol: "\<not> tr_rx_bitstream s AND 0xFFF = 0x800"
      using rx_eol_window [OF s(2), of bs] s(3) by (simp add: eol_bits_def numeral_eq_Suc)
    have one: "code_bits (t4_2d_codes ! 3) = [True]"
      by code_simp
    have "take 13 (code_bits (t4_2d_codes ! 3) @ l) = map (bit (tr_rx_bitstream s)) [0..<13]"
      using t4_rx_window [OF s(2), of bs] s(3) one by simp
    then have tab: "t4_2d_table (tr_rx_bitstream s AND 0x7F) = (S_Vert, 1, 0)"
      using mode_entry_code [of 3] one by (simp add: mode_entry_def)
    have ref: "arr_get (tr_ref_runs s) 0 = Some (of_nat width)" "arr_get (tr_ref_runs s) 1 = Some (of_nat width)" "arr_get (tr_ref_runs s) 2 = Some (of_nat width)"
      using s(1) t6_ref [of width "tr_ref_runs s"] by (simp_all add: t6_white_def t6_row_def)
    have b1: "int_add 0 (of_nat width + of_nat width) = 2 * int width"
      using int_add_nat [of 0 "width + width"] m(3) by simp
    let ?p = "s\<lparr>tr_b1 := 2 * int width, tr_b_cursor := 2\<rparr>"
    have pass: "pass_a0 s = Some ?p"
      using s(1) ref(1,2) b1 m(1)
      by (subst pass_a0.simps) (simp add: pass_a0.simps [of ?p] t6_white_def t6_row_def t6_page_def)
    let ?v = "s\<lparr>tr_run_length := 0, tr_a0 := 2 * int width, tr_row_len := 2 * int width, tr_b1 := int_add (2 * int width) (of_nat width), tr_b_cursor := 3\<rparr>"
    have "rx_vertical 0 ?p = Some ?v"
      using s(1) m(1) ref(3) by (simp add: rx_vertical_def add_run_to_row_def step_b1_def t6_white_def t6_row_def t6_page_def)
    then have code: "rx_2d_code s = Some (drop_rx_bits 1 ?v)"
      using s(1) pass tab by (simp add: rx_2d_code_def t6_white_def)
    let ?u = "rx_update_row_bit_info ((drop_rx_bits 1 ?v)\<lparr>tr_a0 := int width - 1\<rparr>)"
    have u: "t6_row width 0 ?u" "tr_row_len ?u = int (2 * width - 0)" "tr_cur_runs ?u ! 0 = of_nat m" "tr_a_cursor ?u = 1"
      using s(1) by (simp_all add: t6_white_def t6_row_def t6_page_def rx_update_row_bit_info_def drop_rx_bits_def)
    have w: "0 < width" "int width < 2 ^ 31"
      using m by simp_all
    obtain s' where s': "put_decoded_row ?u = Some s'" "t6_page width 0 s'" "tr_bad_rows s' = 1" "tr_consecutive_eols s' = 0"
      using t6_bad_row [OF u m(1) w] by blast
    let ?s' = "s'\<lparr>tr_its_black := False, tr_black_white := 0, tr_run_length := 0, tr_row_len := 0\<rparr>"
    have "rx_code_end (drop_rx_bits 1 ?v) = Some ?s'"
      using s(1) m(1) s'(1) by (simp add: rx_code_end_def drop_rx_bits_def t6_white_def t6_row_def t6_page_def)
    then have "rx_step s = Some (False, ?s')"
      using s(1) m(1) eol code by (simp add: rx_step_def t6_white_def t6_row_def t6_page_def)
    moreover have "rx_bits_same ?u s'"
      using keeps_bitsD [OF put_decoded_row_keeps s'(1)] .
    ultimately show "\<exists>s'. rx_step s = Some (False, s') \<and> t6_bad width 0 0 s' \<and> tr_rx_bitstream s' = drop_bit 1 (tr_rx_bitstream s) \<and>
        tr_rx_bits s' = tr_rx_bits s - int 1"
      using s'(2-4) by (simp add: t6_bad_def t6_page_def rx_bits_same_def rx_update_row_bit_info_def drop_rx_bits_def)
  qed simp_all
  then show ?thesis
    by simp
qed

text \<open>The two EOLs at the end of the page: the second ends it.\<close>

lemma t6_first_eol:
  assumes "l \<noteq> []"
  shows "rx_leads (t6_bad width 0 0) (eol_bits @ l) (t6_bad width 1 0) l"
proof -
  have "rx_leads (t6_bad width 0 0) (eol_bits @ l) (t6_bad width 1 0) (drop 12 (eol_bits @ l))"
  proof (rule rx_leads_step [OF t6_in_page [OF t6_pages(3)] t6_buffered(3)])
    fix s bs
    assume s: "t6_bad width 0 0 s" "13 \<le> tr_rx_bits s" "t4_rx_line s bs = eol_bits @ l"
    then have "tr_rx_bitstream s AND 0xFFF = 0x800"
      using rx_eol_window [OF s(2), of bs] by (simp add: take_eol)
    then show "\<exists>s'. rx_step s = Some (False, s') \<and> t6_bad width 1 0 s' \<and> tr_rx_bitstream s' = drop_bit 12 (tr_rx_bitstream s) \<and>
        tr_rx_bits s' = tr_rx_bits s - int 12"
      using s(1)
      by (simp add: rx_step_def rx_eol_def Let_def EOLS_TO_END_T6_RX_PAGE_def t6_bad_def t6_page_def force_drop_rx_bits_def
          T4_COMPRESSION_ITU_T6_def T4_COMPRESSION_ITU_T4_2D_def)
  qed (use assms in \<open>auto simp: take_eol Suc_le_eq\<close>)
  then show ?thesis
    by (simp add: take_eol)
qed

lemma t6_last_eol:
  assumes "t6_bad width 1 0 s" "tr_rx_bitstream s AND 0xFFF = 0x800"
  shows "rx_step s = Some (True, s\<lparr>tr_consecutive_eols := EOLS_TO_END_ANY_RX_PAGE\<rparr>)"
  using assms by (simp add: rx_step_def rx_eol_def Let_def EOLS_TO_END_T6_RX_PAGE_def t6_bad_def t6_page_def)

text \<open>With too few bits for a step, all octets are taken.\<close>

lemma t4_run_rest:
  assumes "t4_ok s" "rx_in_page s" "length (t4_rx_line s bs) < 13"
  shows "\<exists>s'. t4_run s bs = Some (False, s') \<and> rx_buffered s s' \<and> t4_ok s' \<and> t4_rx_line s' [] = t4_rx_line s bs"
  using assms
proof (induction bs arbitrary: s)
  case Nil
  then show ?case
    using rx_loop_short [of s] by (simp add: t4_run_def t4_rx_line_def)
next
  case (Cons b bs)
  then have "tr_rx_bits s < 13"
    by (simp add: t4_rx_line_def)
  then obtain s1 where s1: "t4_run s (b # bs) = t4_run s1 bs" "t4_ok s1" "t4_rx_line s1 bs = t4_rx_line s (b # bs)" "rx_buffered s s1"
    using t4_run_feed [OF Cons.prems(1) _ Cons.prems(2)] by metis
  then show ?case
    using Cons.IH [of s1] Cons.prems(2,3) buffered_page [of s s1] rx_buffered_trans by metis
qed

text \<open>The zero bits behind the page.\<close>

lemma put_zero_bits_after:
  assumes "EOLS_TO_END_ANY_RX_PAGE \<le> tr_consecutive_eols s" "13 \<le> tr_rx_bits s" "tr_rx_bits s + int n \<le> 32"
  shows "\<exists>s'. put_zero_bits n s = Some s' \<and> rx_buffered s s'"
  using assms
proof (induction n arbitrary: s)
  case (Suc n)
  let ?s = "s\<lparr>tr_line_image_size := tr_line_image_size s + 1, tr_rx_bits := tr_rx_bits s + 1\<rparr>"
  have "t4_rx_put_bit s 0 = Some (True, ?s)"
    using Suc.prems by (simp add: t4_rx_put_bit_def rx_put_bits_def)
  moreover obtain s' where "put_zero_bits n ?s = Some s'" "rx_buffered ?s s'"
    using Suc.IH [of ?s] Suc.prems by auto
  moreover have "rx_buffered s ?s"
    unfolding rx_buffered_def by (intro exI [of _ "tr_line_image_size s + 1"] exI [of _ "tr_rx_bitstream s"] exI [of _ "tr_rx_bits s + 1"]) simp
  ultimately show ?case
    using rx_buffered_trans by auto
qed simp

lemma t6_end_page:
  assumes "t6_bad width 1 0 s" "rx_buffered (s\<lparr>tr_consecutive_eols := EOLS_TO_END_ANY_RX_PAGE\<rparr>) r" "13 \<le> tr_rx_bits r" "tr_rx_bits r + int n \<le> 32"
  shows "\<exists>r'. put_zero_bits n r = Some r' \<and> tr_image r' = [] \<and> tr_bad_rows r' = 1"
proof -
  have r: "EOLS_TO_END_ANY_RX_PAGE \<le> tr_consecutive_eols r" "tr_image r = []" "tr_bad_rows r = 1"
    using assms(1,2) by (auto simp: rx_buffered_def t6_bad_def t6_page_def)
  obtain r' where "put_zero_bits n r = Some r'" "rx_buffered r r'"
    using put_zero_bits_after [OF r(1) assms(3,4)] by blast
  then show ?thesis
    using r(2,3) by (auto simp: rx_buffered_def)
qed

text \<open>The end of the page, signalled by the second EOL or by the zero bits.\<close>

lemma t6_ended:
  assumes s: "t4_ok s" "t6_bad width 1 0 s" and l: "t4_rx_line s bs = eol_bits @ replicate k True" "k \<le> 7"
  shows "\<exists>r r'. t4_run s bs = Some (0 < k, r) \<and> tr_line_encoding r = T4_COMPRESSION_ITU_T6 \<and> put_zero_bits 13 r = Some r' \<and>
    tr_image r' = [] \<and> tr_bad_rows r' = 1"
proof (cases k)
  case 0
  then have "length (t4_rx_line s bs) < 13"
    using l by (simp add: take_eol)
  from t4_run_rest [OF s(1) t6_in_page [OF t6_pages(3) [OF s(2)]] this] obtain r where
    r: "t4_run s bs = Some (False, r)" "rx_buffered s r" "t4_ok r" "t4_rx_line r [] = eol_bits"
    using l(1) 0 by auto
  have bad: "t6_bad width 1 0 r"
    using t6_buffered(3) [OF s(2) r(2)] .
  have bits: "tr_rx_bits r = 12"
    using arg_cong [OF r(4), of length] r(3) by (simp add: t4_rx_line_def eol_bits_def t4_ok_def)
  let ?u = "r\<lparr>tr_line_image_size := tr_line_image_size r + 1, tr_rx_bits := 13\<rparr>"
  have u: "t6_bad width 1 0 ?u" "13 \<le> tr_rx_bits ?u"
    using bad by (simp_all add: t6_bad_def t6_page_def)
  have "take 12 (t4_rx_line ?u []) = eol_bits"
    using r(4) bits by (simp add: t4_rx_line_def take_map)
  then have step: "rx_step ?u = Some (True, ?u\<lparr>tr_consecutive_eols := EOLS_TO_END_ANY_RX_PAGE\<rparr>)"
    using t6_last_eol [OF u(1)] rx_eol_window [OF u(2), of "[]"] by blast
  have put: "t4_rx_put_bit r 0 = Some (True, ?u\<lparr>tr_consecutive_eols := EOLS_TO_END_ANY_RX_PAGE\<rparr>)"
    using bits bad step
    by (simp add: t4_rx_put_bit_def rx_put_bits_def Let_def rx_loop.simps [of ?u] EOLS_TO_END_ANY_RX_PAGE_def t6_bad_def)
  obtain r' where "put_zero_bits 12 (?u\<lparr>tr_consecutive_eols := EOLS_TO_END_ANY_RX_PAGE\<rparr>) = Some r'" "tr_image r' = []" "tr_bad_rows r' = 1"
    using t6_end_page [OF u(1) rx_buffered_refl, of 12] by auto
  moreover have "put_zero_bits 13 r = put_zero_bits 12 (?u\<lparr>tr_consecutive_eols := EOLS_TO_END_ANY_RX_PAGE\<rparr>)"
    using put by (simp add: numeral_eq_Suc)
  moreover have "tr_line_encoding r = T4_COMPRESSION_ITU_T6"
    using bad by (simp add: t6_bad_def t6_page_def)
  ultimately show ?thesis
    using r(1) 0 by simp
next
  case (Suc j)
  then have "13 \<le> length (t4_rx_line s bs)"
    using l by (simp add: take_eol)
  from t4_run_ready [OF s(1) t6_in_page [OF t6_pages(3) [OF s(2)]] this] obtain s1 bs1 where
    s1: "t4_run s bs = t4_run s1 bs1" "t4_ok s1" "t4_rx_line s1 bs1 = t4_rx_line s bs" "rx_buffered s s1" "13 \<le> tr_rx_bits s1"
    by auto
  have bad: "t6_bad width 1 0 s1"
    using t6_buffered(3) [OF s(2) s1(4)] .
  let ?r = "s1\<lparr>tr_consecutive_eols := EOLS_TO_END_ANY_RX_PAGE\<rparr>"
  have "rx_step s1 = Some (True, ?r)"
    using t6_last_eol [OF bad] rx_eol_window [OF s1(5), of bs1] s1(3) l(1) by (simp add: take_eol)
  then have "t4_run s bs = Some (True, ?r)"
    using s1(1) t4_run_step [OF s1(5), of bs1] by simp
  moreover have "nat (tr_rx_bits s1) \<le> length (t4_rx_line s1 bs1)"
    by (simp add: t4_rx_line_def)
  then have "tr_rx_bits ?r + int 13 \<le> 32"
    using l s1(3) by (simp add: take_eol)
  then obtain r' where "put_zero_bits 13 ?r = Some r'" "tr_image r' = []" "tr_bad_rows r' = 1"
    using t6_end_page [OF bad rx_buffered_refl, of 13] s1(5) by auto
  moreover have "tr_line_encoding ?r = T4_COMPRESSION_ITU_T6"
    using bad by (simp add: t6_bad_def t6_page_def)
  ultimately show ?thesis
    using Suc by simp
qed

text \<open>A whole page.\<close>

lemma t6_vertical_words:
  assumes "1 \<le> d" "d \<le> 3"
  shows "no_eol (code_bits (t4_2d_codes ! (3 + d))) (True # l)" "code_bits (t4_2d_codes ! (3 + d)) \<noteq> []"
proof -
  have "code_bits (t4_2d_codes ! 4) = [False, True, False]" "code_bits (t4_2d_codes ! 5) = [False, False, False, False, True, False]"
    "code_bits (t4_2d_codes ! 6) = [False, False, False, False, False, True, False]"
    by code_simp+
  moreover have "d = 1 \<or> d = 2 \<or> d = 3"
    using assms by auto
  ultimately show "no_eol (code_bits (t4_2d_codes ! (3 + d))) (True # l)" "code_bits (t4_2d_codes ! (3 + d)) \<noteq> []"
    by (auto simp: eol_bits_def numeral_eq_Suc)
qed

lemma t6_page_decoded:
  assumes r: "t4_ok r" "tr_rx_bits r = 0" "tr_rx_bitstream r = 0" "t6_row_start width 0 r"
    and m: "width = m + d" "1 \<le> d" "d \<le> 3" "0 < m" "int width < 2 ^ 30"
    and line: "stream_lsb bs = code_bits (t4_2d_codes ! (3 + d)) @ [True] @ eol_bits @ eol_bits @ replicate k True" "k \<le> 7"
  shows "\<exists>s s'. t4_rx_put_chunk r bs = Some (0 < k, s) \<and> tr_line_encoding s = T4_COMPRESSION_ITU_T6 \<and> put_zero_bits 13 s = Some s' \<and>
    tr_image s' = [] \<and> tr_bad_rows s' = 1"
proof -
  let ?e = "eol_bits @ replicate k True"
  define w where "w = code_bits (t4_2d_codes ! (3 + d))"
  obtain x xs where w: "w = x # xs" "no_eol (x # xs) (True # eol_bits @ ?e)"
    using t6_vertical_words [OF m(2,3)] unfolding w_def [symmetric] by (cases w) auto
  have len: "12 \<le> length (True # eol_bits @ ?e)" "13 \<le> length (True # eol_bits @ ?e)"
    by (simp_all add: take_eol)
  have "int width < 2 ^ 31"
    using m(5) by simp
  from t6_first_code [OF m(1-4) this _ _ w_def, of "True # eol_bits @ ?e"] w len
  have "rx_leads (t6_row_start width 0) (x # xs @ True # eol_bits @ ?e) (t6_white width m (length xs)) (xs @ True # eol_bits @ ?e)"
    by simp
  moreover have "rx_leads (t6_white width m (length xs)) (xs @ True # eol_bits @ ?e) (t6_white width m 0) (True # eol_bits @ ?e)"
    using w(2) len(1) by (intro t6_skip) simp_all
  moreover have "rx_leads (t6_white width m 0) (True # eol_bits @ ?e) (t6_bad width 0 0) (eol_bits @ ?e)"
    using m len(2) by (intro t6_second_code) simp_all
  moreover have "rx_leads (t6_bad width 0 0) (eol_bits @ ?e) (t6_bad width 1 0) ?e"
    by (rule t6_first_eol) (simp add: eol_bits_def)
  ultimately have "rx_leads (t6_row_start width 0) (x # xs @ True # eol_bits @ ?e) (t6_bad width 1 0) ?e"
    using rx_leads_trans by metis
  moreover have "t4_rx_line r bs = x # xs @ True # eol_bits @ ?e"
    using line(1) w(1) r(2) unfolding w_def [symmetric] by (simp add: t4_rx_line_def)
  ultimately obtain s bs' where s: "t4_run r bs = t4_run s bs'" "t4_ok s" "t6_bad width 1 0 s" "t4_rx_line s bs' = ?e"
    using r(1,4) unfolding rx_leads_def by metis
  have "t4_rx_put_chunk r bs = t4_run r bs"
    using r(2) rx_loop_short [of r] by (simp add: t4_run_def)
  then show ?thesis
    using t6_ended [OF s(2-4) line(2)] s(1) by simp
qed

lemma t6_started:
  assumes "0 < n" "8 * int n < 2 ^ 31"
  shows "\<exists>r. t4_rx_start_page (tr_blank T4_COMPRESSION_ITU_T6 n) = Some r \<and> t4_ok r \<and> tr_rx_bits r = 0 \<and> tr_rx_bitstream r = 0 \<and>
    t6_row_start (8 * n) 0 r"
proof -
  let ?w = "word_of_int (8 * int n) :: u32" and ?z = "replicate (8 * n + 4) (0 :: u32)"
  have n: "nat (8 * int n + 4) = 8 * n + 4"
    by simp
  have z: "mem_write ?z 0 ?z = Some ?z"
    by (simp add: mem_write_def)
  obtain ref where ref: "mem_write ?z 0 [?w, ?w, ?w, ?w] = Some ref"
    by (simp add: mem_write_def)
  have len: "length ref = 8 * n + 4"
    using mem_write_length [OF ref] by simp
  have hold: "holds_runs [8 * n, 8 * n, 8 * n, 8 * n] ref"
    using ref by (auto simp: mem_write_def holds_runs_def)
  have b1: "sint (word_of_int (8 * int n) :: u32) = 8 * int n"
    using u32_of_nat(2) [of "8 * n"] assms(2) by simp
  show ?thesis
    using assms(1) z ref len hold b1 unfolding t4_rx_start_page_def Let_def
    by (auto simp: tr_blank_def n t6_row_start_def t6_row_def t6_page_def t4_ok_def)
qed

section \<open>The encoder\<close>

text \<open>The row is white but for its last pixels.\<close>

lemma t6_row_coded:
  assumes "coded [m + d] [m, d] 0 0 ms" "1 \<le> d" "d \<le> 3"
  shows "modes_bits ms = code_bits (t4_2d_codes ! (3 + d)) @ [True]"
proof -
  have pos: "pos [m + d] c = (if c = 0 then 0 else m + d)" "pos [m, d] c = (if c = 0 then 0 else if c = 1 then m else m + d)" for c
    by (cases c; simp add: pos_def; cases "c - 1"; simp)+
  have opp: "opposite [m + d] 0 0 1" "opposite [m + d] (Suc m) 1 2"
    using assms(2) by (auto simp: opposite_def pos less_2_cases_iff)
  have c1: "c = 1" if "opposite [m + d] 0 0 c" for c
    using opposite_unique [OF that opp(1)] .
  have c2: "c = 2" if "opposite [m + d] (Suc m) (Suc 0) c" for c
    using opposite_unique [OF that] opp(2) by simp
  obtain ms1 where 1: "ms = Vertical (- int d) # ms1" "coded [m + d] [m, d] (Suc m) 1 ms1"
    using assms by (cases rule: coded.cases) (auto simp: pos dest!: c1)
  obtain ms2 where 2: "ms1 = Vertical 0 # ms2" "coded [m + d] [m, d] (Suc (m + d)) 2 ms2"
    using 1(2) assms(2) by (cases rule: coded.cases) (auto simp: pos numeral_2_eq_2 dest!: c2)
  have "ms2 = []"
    using 2(2) by (cases rule: coded.cases) auto
  moreover have "nat (3 + int d) = 3 + d" "code_bits (t4_2d_codes ! 3) = [True]"
    by simp code_simp
  ultimately show ?thesis
    using 1(1) 2(1) by simp
qed

lemma t6_eol_sent:
  assumes "tt_ok s" "tt_line_encoding s = T4_COMPRESSION_ITU_T6"
  shows "\<exists>s'. encode_eol s = Some s' \<and> tt_ok s' \<and> tt_line_encoding s' = T4_COMPRESSION_ITU_T6 \<and> tt_line s' = tt_line s @ eol_bits"
proof -
  have "int 12 + 7 \<le> 800 * tt_bytes_per_row s"
    using assms(1) by (simp add: tt_ok_def)
  moreover have "\<forall>j \<ge> 25. \<not> bit (0x800 :: u32) j" "\<forall>j \<ge> 12. \<not> bit (0x800 :: u32) j"
    using eol_above by simp_all
  ultimately obtain s' where "put_encoded_bits s 0x800 (int 12) = Some s'" "tt_sent s (map (bit (0x800 :: u32)) [0..<12]) s'"
    by (rule put_encoded_bits_sent [OF assms(1)])
  then show ?thesis
    using assms(2)
    by (simp add: encode_eol_def bits_eol tt_sent_def tt_same_def tt_ok_def tt_line_def pending_bits_def update_row_bit_info_def
        T4_COMPRESSION_ITU_T6_def T4_COMPRESSION_ITU_T4_2D_def)
qed

lemma white_pixels: "stream_msb (replicate n 0) = replicate (8 * n) False"
proof (induction n)
  case (Suc n)
  have "bits_msb 0 = replicate 8 False"
    by code_simp
  then show ?case
    using Suc by (simp flip: replicate_add)
qed simp

lemma t6_tx_page:
  assumes n: "0 < n" "8 * int n < 2 ^ 31" and row: "row_runs row (8 * n) = [m, d]" "length row = n" "8 * n = m + d" "1 \<le> d" "d \<le> 3"
  shows "\<exists>t k. t4_tx_start_page [row] (tt_blank T4_COMPRESSION_ITU_T6 n) = Some t \<and> k \<le> 7 \<and>
    stream_lsb (tt_image t) = code_bits (t4_2d_codes ! (3 + d)) @ [True] @ eol_bits @ eol_bits @ replicate k True"
proof -
  let ?s = "tt_blank T4_COMPRESSION_ITU_T6 n" and ?w = "word_of_int (8 * int n) :: u32" and ?white = "replicate n 0 :: octets"
  obtain runs where runs: "mem_write (tt_ref_runs ?s) 0 [?w, ?w, ?w, ?w] = Some runs"
    by (simp add: tt_blank_def mem_write_def)
  have len: "length runs = 8 * n + 4"
    using mem_write_length [OF runs] by (simp add: tt_blank_def)
  have all_w: "runs ! i = ?w" if "i < 4" for i
  proof -
    have "runs = [?w, ?w, ?w, ?w] @ drop 4 (tt_ref_runs ?s)"
      using runs by (auto simp: mem_write_def numeral_eq_Suc split: if_splits)
    moreover have "i = 0 \<or> i = 1 \<or> i = 2 \<or> i = 3"
      using that by auto
    ultimately show ?thesis
      by auto
  qed
  have white: "row_changes ?white (8 * n) = [8 * int n]"
    using n row_pixels_all [of ?white]
    by (simp add: row_changes_def colour_changes_same white_pixels)
  let ?t = "?s\<lparr>tt_image := [], tt_tx_bitstream := 0, tt_tx_bits := 0, tt_row_is_2d := True,
    tt_rows_to_next_1d_row := 1, tt_ref_runs := runs, tt_ref_steps := 1, tt_row_bits := 0, tt_min_row_bits := INT_MAX, tt_max_row_bits := 0, tt_row_buf := row\<rparr>"
  have t: "tt_ok ?t" "tt_image_width ?t = int (8 * n)" "8 * n \<le> 8 * length (tt_row_buf ?t)" "8 * n + 4 \<le> length (tt_cur_runs ?t)"
    "8 * n \<le> 8 * length ?white" "stretched (row_changes ?white (8 * n)) (tt_ref_runs ?t)" "tt_ref_steps ?t = int (length (row_changes ?white (8 * n)))"
    using n row(2) len all_w unfolding white by (simp_all add: tt_ok_def tt_blank_def stretched_def)
  have "0 < 8 * n" "int (8 * n) < 2 ^ 31"
    using n by simp_all
  note sent = encode_2d_row_sent [OF t(1,2) this t(3-7)]
  have runs': "row_runs ?white (8 * n) = [m + d]" "tt_row_buf ?t = row"
    using row(3) white by (simp_all add: row_runs_def)
  obtain ms s1 where
    s1: "encode_2d_row ?t = Some s1" "coded [m + d] [m, d] 0 0 ms" "row_sent (8 * n) ?t (modes_bits ms) s1"
    using sent unfolding runs' row(1) .
  show ?thesis
  proof -
    let ?u = "s1\<lparr>tt_row := tt_row s1 + 1, tt_image_length := 1\<rparr>"
    have u: "tt_ok ?u" "tt_line_encoding ?u = T4_COMPRESSION_ITU_T6" "tt_line ?u = modes_bits ms"
      using s1(3) by (simp_all add: row_sent_def tt_kept_def tt_ok_def tt_line_def pending_bits_def tt_blank_def)
    obtain s2 where s2: "encode_eol ?u = Some s2" "tt_ok s2" "tt_line_encoding s2 = T4_COMPRESSION_ITU_T6" "tt_line s2 = tt_line ?u @ eol_bits"
      using t6_eol_sent [OF u(1,2)] by blast
    obtain s3 where s3: "encode_eol s2 = Some s3" "tt_ok s3" "tt_line s3 = tt_line s2 @ eol_bits"
      using t6_eol_sent [OF s2(2,3)] by blast
    obtain s4 k where s4: "put_encoded_bits s3 0xFF 7 = Some s4" "stream_lsb (tt_image s4) = tt_line s3 @ replicate k True" "k \<le> 7"
      using page_filled [OF s3(2)] .
    have "mem_write (replicate n 0) 0 row = Some row"
      using row(2) by (simp add: mem_write_def)
    then have "t4_tx_start_page [row] ?s = Some (s4\<lparr>tt_bit_pos := 7, tt_bit_ptr := 0, tt_line_image_size := int (length (tt_image s4)) * 8\<rparr>)"
      using runs s1(1) s2(1) s3(1) s4(1) u(2)
      by (simp add: t4_tx_start_page_def encode_row_def tt_blank_def EOLS_TO_END_T6_TX_PAGE_def numeral_2_eq_2)
    then show ?thesis
      using s4(2,3) s3(3) s2(4) u(3) t6_row_coded [OF s1(2) row(4,5)] by simp
  qed
qed

section \<open>The page\<close>

lemma t6_fill:
  assumes "stream_lsb bs = code_bits (t4_2d_codes ! (3 + d)) @ [True] @ eol_bits @ eol_bits @ replicate k True" "k \<le> 7" "1 \<le> d" "d \<le> 3"
  shows "0 < k \<longleftrightarrow> d < 3"
proof -
  have "length (code_bits (t4_2d_codes ! 4)) = 3" "length (code_bits (t4_2d_codes ! 5)) = 6" "length (code_bits (t4_2d_codes ! 6)) = 7"
    by code_simp+
  moreover have d: "d = 1 \<or> d = 2 \<or> d = 3"
    using assms(3,4) by auto
  ultimately have w: "length (code_bits (t4_2d_codes ! (3 + d))) = (if d = 1 then 3 else d + 4)"
    by auto
  have "8 * length bs = length (code_bits (t4_2d_codes ! (3 + d))) + 25 + k"
    using arg_cong [OF assms(1), of length] by (simp add: eol_bits_def)
  then show ?thesis
    using d assms(2) unfolding w by (elim disjE) (simp_all, presburger+)
qed

text \<open>
  Claim C38. The first row of a T.6 page. Take a page, of any width that is a multiple of eight, that is one row
  of white pixels but for the last one, two or three, which are black. Encoder and decoder do not agree on it: no row comes out,
  and one is bad. The encoder sends a vertical mode to the left, as T.6 wants it; the decoder goes back
  one change in the reference row, behind its start, and finds the next change at twice the width. The end of the page is
  signalled with its last octet unless this ends with the last EOL, with three pixels.
\<close>

theorem t4_t6_first_row_bad:
  assumes "stream_msb row = replicate (8 * n - d) False @ replicate d True" "length row = n" "0 < n" "8 * int n < 2 ^ 30" "1 \<le> d" "d \<le> 3"
  shows "t4_transfer T4_COMPRESSION_ITU_T6 n [row] = Some (d < 3, [], 1)"
proof -
  let ?m = "8 * n - d"
  have m: "8 * n = ?m + d" "0 < ?m"
    using assms(3,6) by simp_all
  have "row_pixels row (8 * n) = replicate ?m False @ True # replicate (d - 1) True"
    using assms(1,2,5) row_pixels_all [of row] by (cases d) simp_all
  then have runs: "row_runs row (8 * n) = [?m, d]"
    using colour_changes_run [of "replicate ?m False" False True 0 "replicate (d - 1) True"] m
    by (simp add: row_runs_def row_changes_def colour_changes_same)
  have n: "8 * int n < 2 ^ 31" "int (8 * n) < 2 ^ 30"
    using assms(4) by simp_all
  obtain t k where t: "t4_tx_start_page [row] (tt_blank T4_COMPRESSION_ITU_T6 n) = Some t" "k \<le> 7"
    "stream_lsb (tt_image t) = code_bits (t4_2d_codes ! (3 + d)) @ [True] @ eol_bits @ eol_bits @ replicate k True"
    using t6_tx_page [OF assms(3) n(1) runs assms(2) m(1) assms(5,6)] by blast
  obtain r where r: "t4_rx_start_page (tr_blank T4_COMPRESSION_ITU_T6 n) = Some r" "t4_ok r" "tr_rx_bits r = 0" "tr_rx_bitstream r = 0"
    "t6_row_start (8 * n) 0 r"
    using t6_started [OF assms(3) n(1)] by blast
  obtain s s' where s: "t4_rx_put_chunk r (tt_image t) = Some (0 < k, s)" "tr_line_encoding s = T4_COMPRESSION_ITU_T6" "put_zero_bits 13 s = Some s'"
    "tr_image s' = []" "tr_bad_rows s' = 1"
    using t6_page_decoded [OF r(2-5) m(1) assms(5,6) m(2) n(2) t(3,2)] by blast
  have "0 < k \<longleftrightarrow> d < 3"
    using t6_fill [OF t(3,2) assms(5,6)] .
  moreover have "t4_rx_end_page (\<lambda>row. True) s = Some (- 1, [], end_bad_rows s')" "tr_bad_rows (end_bad_rows s') = 1"
    using s(2-5) by (simp_all add: t4_rx_end_page_def end_bad_rows_def)
  ultimately show ?thesis
    using t(1) r(1) s(1) by (simp add: t4_transfer_def)
qed

theorem t4_t6_first_row_bad_witness:
  "t4_transfer T4_COMPRESSION_ITU_T6 2 [[0x00, 0x03]] = Some (True, [], 1)"
proof -
  have "stream_msb [0x00, 0x03] = replicate (8 * 2 - 2) False @ replicate 2 True"
    by code_simp
  from t4_t6_first_row_bad [OF this] show ?thesis
    by simp
qed

end
