(* ===== verification/T4_Flaws.thy ===== *)
theory T4_Flaws
  imports T4_T6_First_Row
begin

text \<open>
  Two more flaws of the page decoder of \<^verbatim>\<open>t4_rx.c\<close>: runs without pixels, which it does not count, and the end of a
  page that ends with an octet.
\<close>

section \<open>Runs without pixels\<close>

lemma run_code_ends: "\<exists>xs. code_bits (t4_run_codes black ! 0) = xs @ [True] \<and> length xs < 11 \<and> 5 \<le> length xs"
proof -
  have "list_all (\<lambda>black. let c = code_bits (t4_run_codes black ! 0) in last c \<and> length c \<le> 11 \<and> 6 \<le> length c) [False, True]"
    by code_simp
  then have "last (code_bits (t4_run_codes black ! 0)) \<and> length (code_bits (t4_run_codes black ! 0)) \<le> 11 \<and> 6 \<le> length (code_bits (t4_run_codes black ! 0))"
    by (cases black) (simp_all only: Let_def list.pred_inject)
  then have c: "last (code_bits (t4_run_codes black ! 0))" "length (code_bits (t4_run_codes black ! 0)) \<le> 11" "6 \<le> length (code_bits (t4_run_codes black ! 0))"
    by blast+
  then have "code_bits (t4_run_codes black ! 0) = butlast (code_bits (t4_run_codes black ! 0)) @ [True]"
    by (metis append_butlast_last_id list.size(3) not_numeral_le_zero)
  moreover have "length (butlast (code_bits (t4_run_codes black ! 0))) < 11" "5 \<le> length (butlast (code_bits (t4_run_codes black ! 0)))"
    unfolding length_butlast using c(2,3) by linarith+
  ultimately show ?thesis
    by blast
qed

lemma no_eol_short:
  assumes "length xs < 11"
  shows "no_eol (xs @ [True]) l"
  using assms
proof (induction xs)
  case Nil
  show ?case
    by (simp add: eol_bits_def numeral_eq_Suc)
next
  case (Cons x xs)
  have "take 12 ((x # xs @ [True]) @ l) \<noteq> eol_bits"
  proof
    assume "take 12 ((x # xs @ [True]) @ l) = eol_bits"
    from eol_window(1) [OF this, of "length (x # xs)"] Cons.prems show False
      by (simp add: nth_append)
  qed
  then show ?case
    using Cons by simp
qed

lemma no_eol_run: "no_eol (code_bits (t4_run_codes black ! 0)) l"
  using run_code_ends [of black] no_eol_short by metis

text \<open>Alternating codes for runs of length zero, white first.\<close>

definition zero_runs_line :: "nat \<Rightarrow> bits" where
  "zero_runs_line n = words_bits (runs_words False (replicate n 0))"

lemma runs_words_append: "runs_words black (xs @ ys) = runs_words black xs @ runs_words (if even (length xs) then black else \<not> black) ys"
  by (induction xs arbitrary: black) auto

lemma zero_runs_snoc: "zero_runs_line (Suc n) = zero_runs_line n @ code_bits (t4_run_codes (odd n) ! 0)"
  unfolding zero_runs_line_def replicate_Suc replicate_append_same [symmetric] runs_words_append
  by (simp add: span_words.simps [of _ 0])

lemma zero_runs_decoded:
  assumes "n \<le> width + 4" "rm_runs M" "rm_bw M = 0" "0 < width" "12 \<le> length l"
  shows "rx_leads (rx_row M width rows [] 0 0 0) (zero_runs_line n @ l) (rx_row M width rows (replicate n 0) 0 0 0) l"
  using assms
proof (induction n arbitrary: l)
  case 0
  then show ?case
    by (simp add: zero_runs_line_def)
next
  case (Suc n)
  let ?c = "code_bits (t4_run_codes (odd n) ! 0)"
  have w: "words_bits (span_words (odd n) 0) = ?c"
    by (simp add: span_words.simps [of _ 0])
  have "rx_leads (rx_row M width rows (replicate n 0) 0 0 0) (words_bits (span_words (odd n) 0) @ l)
      (rx_row (rm_next M) width rows (replicate n 0 @ [0 + 0]) 0 0 0) l"
    using Suc.prems no_eol_run unfolding w by (intro span_decoded [of l "odd n" 0, unfolded w]) (simp_all add: sum_list_replicate)
  moreover have "rx_leads (rx_row M width rows [] 0 0 0) (zero_runs_line n @ ?c @ l) (rx_row M width rows (replicate n 0) 0 0 0) (?c @ l)"
    using Suc by (intro Suc.IH) simp_all
  ultimately show ?case
    using rx_leads_trans Suc.prems(3) unfolding w zero_runs_snoc by (simp add: replicate_append_same)
qed

text \<open>The state in which the run length buffer is full, and the next run.\<close>

lemma full_buffer:
  assumes s: "rx_row M width rows (replicate (width + 4) 0) 0 0 0 s" "13 \<le> tr_rx_bits s" "t4_rx_line s bs = code_bits (t4_run_codes False ! 0) @ l"
    and M: "rm_runs M" "rm_exact M" and width: "even width" "0 < width"
  shows "tr_a_cursor s = int (length (tr_cur_runs s))" "tr_row_len s = 0" "add_run_to_row s = None" "rx_step s = None"
proof -
  show full: "tr_a_cursor s = int (length (tr_cur_runs s))" and len: "tr_row_len s = 0"
    using s(1) M(2) by (simp_all add: rx_row_def sum_list_replicate)
  have run: "tr_run_length s = 0" "tr_image_width s = int width" "\<not> tr_its_black s"
    using s(1) M(1) width(1) by (simp_all add: rx_row_def)
  show none: "add_run_to_row s = None"
    using full len run by (simp add: add_run_to_row_def arr_set_def)
  have none': "add_run_to_row (s\<lparr>tr_run_length := 0, tr_a0 := tr_a0 s, tr_its_black := True\<rparr>) = None"
    using full len run by (simp add: add_run_to_row_def arr_set_def)
  have "take 12 (t4_rx_line s bs) \<noteq> eol_bits"
    unfolding s(3) using no_eol_run [of False l] run_code_ends [of False] by (cases "code_bits (t4_run_codes False ! 0)") auto
  then have eol: "\<not> tr_rx_bitstream s AND 0xFFF = 0x800"
    using rx_eol_window [OF s(2)] by simp
  have "run_entry False (tr_rx_bitstream s) = (run_state False 0, length (code_bits (t4_run_codes False ! 0)), 0)"
    using run_entry_code [of 0 False l "tr_rx_bitstream s"] t4_rx_window [OF s(2), of bs] s(3) by simp
  then have "rx_1d_code s = None"
    using run len none' width(2) by (simp add: rx_1d_code_def run_entry_def rx_1d_run_def run_state_def)
  then show "rx_step s = None"
    using eol s(1) M(1) by (auto simp: rx_step_def rx_row_def rm_runs_def)
qed

lemma zero_runs_more:
  assumes "width + 4 < n" "even width"
  obtains l where "zero_runs_line n = zero_runs_line (width + 4) @ code_bits (t4_run_codes False ! 0) @ l"
proof -
  have "replicate n (0 :: nat) = replicate (width + 4) 0 @ 0 # replicate (n - (width + 5)) 0"
    using assms(1) by (simp add: replicate_add [symmetric] flip: replicate_Suc)
  then show ?thesis
    using that assms(2) by (simp add: zero_runs_line_def runs_words_append span_words.simps [of _ 0])
qed

text \<open>
  Claim C39. Runs without pixels. The decoder bounds the pixels of a row but not its number of runs. Take a page of any
  width whose first row is coded as \<open>n\<close> runs of length zero, white and black in turn, with any fill up to the next
  EOL. As long as \<open>n\<close> is at most the width and four, each run takes an entry of the run length buffer, while the row
  still has no pixel; the buffer, newly allocated, has just these entries. With any more runs the decoder writes
  behind its end.
\<close>

theorem t4_rx_zero_runs_overrun:
  assumes "tr_ready T4_COMPRESSION_ITU_T4_1D width s" "tr_bytes_per_row s \<noteq> int width div 8" "8 dvd width" "0 < width"
    and "stream_lsb bs = eol_bits @ zero_runs_line n @ replicate k False @ eol_bits"
  shows "\<exists>r. t4_rx_start_page s = Some r \<and>
    (if n \<le> width + 4
     then \<exists>s'. t4_rx_put_chunk r bs = Some (False, s') \<and> tr_a_cursor s' = int n \<and> tr_row_len s' = 0 \<and> length (tr_cur_runs s') = width + 4 \<and>
       (add_run_to_row s' = None \<longleftrightarrow> n = width + 4)
     else t4_rx_put_chunk r bs = None)"
proof -
  let ?M = "rm_first T4_COMPRESSION_ITU_T4_1D True" and ?c = "code_bits (t4_run_codes False ! 0)" and ?l = "replicate k False @ eol_bits"
  have c: "page_coding T4_COMPRESSION_ITU_T4_1D" "page_coding (rm_coding ?M)" "\<not> rm_2d ?M"
    by (simp_all add: page_coding_def rm_first_def)
  have M: "rm_runs ?M" "rm_bw ?M = 0" "rm_exact ?M"
    by (simp_all add: rm_first_def rm_runs_def T4_COMPRESSION_ITU_T4_1D_def T4_COMPRESSION_ITU_T6_def)
  obtain r where r: "t4_rx_start_page s = Some r" "tr_consecutive_eols r = -1" "tr_rx_bits r = 0" "tr_rx_bitstream r = 0"
    "rx_row ?M width [] [] 0 0 0 (r\<lparr>tr_consecutive_eols := 0\<rparr>)"
    using t4_rx_started [OF assms(1,3) c(1)] assms(2) by auto
  have even: "even width"
    using assms(3) by (metis dvd_trans even_numeral)
  have "eol_bits = eol_tag T4_COMPRESSION_ITU_T4_1D True"
    by (simp add: eol_tag_def T4_COMPRESSION_ITU_T4_1D_def T4_COMPRESSION_ITU_T4_2D_def)
  moreover have "2 \<le> length bs"
    using arg_cong [OF assms(5), of length] by (simp add: eol_bits_def)
  ultimately obtain s1 bs1 where s1: "t4_rx_put_chunk r bs = t4_run s1 bs1" "t4_ok s1" "rx_row ?M width [] [] 0 0 0 s1"
    "t4_rx_line s1 bs1 = zero_runs_line n @ ?l"
    using first_eol [OF r(2-5) _ _ c(1)] assms(5) by metis
  have runs: "\<exists>s' bs'. t4_run s1 bs1 = t4_run s' bs' \<and> t4_ok s' \<and> rx_row ?M width [] (replicate m 0) 0 0 0 s' \<and> t4_rx_line s' bs' = l"
    if "m \<le> width + 4" "zero_runs_line n @ ?l = zero_runs_line m @ l" "12 \<le> length l" for m l
    using zero_runs_decoded [OF that(1) M(1,2) assms(4) that(3), of "[]"] s1(2-4) that(2) unfolding rx_leads_def by metis
  show ?thesis
  proof (cases "n \<le> width + 4")
    case True
    then obtain s2 bs2 where s2: "t4_run s1 bs1 = t4_run s2 bs2" "t4_ok s2" "rx_row ?M width [] (replicate n 0) 0 0 0 s2" "t4_rx_line s2 bs2 = ?l"
      using runs [of n ?l] by (auto simp: eol_bits_def)
    have "rx_leads (rx_row ?M width [] (replicate n 0) 0 0 0) (replicate k False @ eol_bits @ []) (rx_row ?M width [] (replicate n 0) 0 0 0) (eol_bits @ [])"
      using c(2,3) M(2) by (intro fill_bits) simp_all
    then obtain s3 bs3 where s3: "t4_run s2 bs2 = t4_run s3 bs3" "t4_ok s3" "rx_row ?M width [] (replicate n 0) 0 0 0 s3" "t4_rx_line s3 bs3 = eol_bits"
      using s2(2-4) unfolding rx_leads_def append_Nil2 by blast
    obtain s4 where s4: "t4_run s3 bs3 = Some (False, s4)" "rx_buffered s3 s4"
      using t4_run_short [OF s3(2) rx_row_page [OF s3(3)], of bs3] s3(4) by (auto simp: eol_bits_def)
    have "rx_row ?M width [] (replicate n 0) 0 0 0 s4"
      using rx_row_buffered [OF s3(3) s4(2)] .
    then have s4': "tr_a_cursor s4 = int n" "tr_row_len s4 = 0" "length (tr_cur_runs s4) = width + 4" "tr_run_length s4 = 0" "tr_image_width s4 = int width"
      using M(3) by (simp_all add: rx_row_def sum_list_replicate)
    then have "add_run_to_row s4 = None \<longleftrightarrow> n = width + 4"
      using True by (simp add: add_run_to_row_def arr_set_def)
    then show ?thesis
      using True r(1) s1(1) s2(1) s3(1) s4(1) s4'(1-3) by simp
  next
    case False
    then obtain l where l: "zero_runs_line n = zero_runs_line (width + 4) @ ?c @ l"
      using zero_runs_more [of width n] even by (metis not_le)
    have long: "13 \<le> length (?c @ l @ ?l)"
      using run_code_ends [of False] by (auto simp: eol_bits_def)
    obtain s2 bs2 where s2: "t4_run s1 bs1 = t4_run s2 bs2" "t4_ok s2" "rx_row ?M width [] (replicate (width + 4) 0) 0 0 0 s2"
      "t4_rx_line s2 bs2 = ?c @ l @ ?l"
      using runs [of "width + 4" "?c @ l @ ?l"] l long by auto
    obtain s3 bs3 where s3: "t4_run s2 bs2 = t4_run s3 bs3" "t4_rx_line s3 bs3 = ?c @ l @ ?l" "rx_buffered s2 s3" "13 \<le> tr_rx_bits s3"
      using t4_run_ready [OF s2(2) rx_row_page [OF s2(3)], of bs2] s2(4) long by auto
    have row: "rx_row ?M width [] (replicate (width + 4) 0) 0 0 0 s3"
      using rx_row_buffered [OF s2(3) s3(3)] .
    have "t4_run s3 bs3 = None"
      using t4_run_step [OF s3(4)] full_buffer [OF row s3(4,2) M(1,3) even assms(4)] by simp
    then show ?thesis
      using False r(1) s1(1) s2(1) s3(1) by simp
  qed
qed

theorem t4_rx_zero_runs_overrun_witness:
  "\<exists>r. t4_rx_start_page (tr_blank T4_COMPRESSION_ITU_T4_1D 1) = Some r \<and>
    t4_rx_put_chunk r [0x00, 0xC8, 0x0A, 0x3B, 0x2B, 0xEC, 0xAC, 0xB0, 0xB3, 0xC2, 0xCE, 0x0A, 0x3B, 0x2B, 0xEC, 0xAC, 0x00, 0x80] = None"
proof -
  have line: "stream_lsb [0x00, 0xC8, 0x0A, 0x3B, 0x2B, 0xEC, 0xAC, 0xB0, 0xB3, 0xC2, 0xCE, 0x0A, 0x3B, 0x2B, 0xEC, 0xAC, 0x00, 0x80] =
      eol_bits @ zero_runs_line 13 @ replicate 4 False @ eol_bits"
    by code_simp
  have "tr_bytes_per_row (tr_blank T4_COMPRESSION_ITU_T4_1D 1) = 0"
    by (simp add: tr_blank_def)
  then show ?thesis
    using t4_rx_zero_runs_overrun [OF tr_blank_ready [of 1 T4_COMPRESSION_ITU_T4_1D] _ _ _, where n = 13, OF _ _ _ _ line]
    by (simp del: t4_rx_put_chunk.simps)
qed

section \<open>The end of the page\<close>

text \<open>
  The end of a page whose last EOL ends with an octet is not signalled: the decoder only looks for an EOL when it
  has thirteen bits. The rows are complete all the same.
\<close>

lemma t4_page_end_not_signalled:
  "t4_transfer T4_COMPRESSION_ITU_T4_1D 1 (replicate 8 [0x01]) = Some (False, replicate 8 [0x01], 0)"
  by code_simp

end
