(* ===== verification/Spec2Isabelle.thy ===== *)
theory Spec2Isabelle
  imports Crc Queue_Messages Bit_Ops Hdlc_Link Hdlc_Rx_Lengths T38_Protocol T38_Non_Ecm_Image Async_Link Bitstream Schedule G711_Error Dle Modem_Hdlc_Link T4_Flaws
begin

text \<open>
  \<^bold>\<open>The program.\<close> The repository builds t38modem, a fax modem that a fax application drives over a
  pseudo terminal and that sends the fax as T.38 packets over IP or as audio. It consists of the C++
  application (\<^verbatim>\<open>t38modem\<close>), two vendored C++ libraries for call control and portability
  (\<^verbatim>\<open>opal\<close>, \<^verbatim>\<open>ptlib\<close>), and the C library spandsp (\<^verbatim>\<open>spandsp-0.0.6/src\<close>) with the fax protocols.
  This development verifies the protocol core of spandsp and the data path of t38modem: everything between the bits of a modem
  or the octets of a packet and the frames and fields that the fax engine works with.

  A fax engine sends its control messages as HDLC frames (\<^verbatim>\<open>hdlc.c\<close>), protected by a CRC (\<^verbatim>\<open>crc.c\<close>),
  either to a modem bit by bit or, over IP, as fields of T.38 packets (\<^verbatim>\<open>t38_core.c\<close>). Page data
  without error correction wait between packets and modem in a flow controlled buffer
  (\<^verbatim>\<open>t38_non_ecm_buffer.c\<close>). Octet queues (\<^verbatim>\<open>queue.c\<close>) connect the parts and feed the asynchronous
  serial converters (\<^verbatim>\<open>async.c\<close>); \<^verbatim>\<open>schedule.c\<close> runs timed callbacks, \<^verbatim>\<open>bitstream.c\<close> packs bit fields,
  \<^verbatim>\<open>bit_operations.c\<close> has the bit tricks that HDLC and G.711 use, and \<^verbatim>\<open>g711.c\<close> (one in spandsp, one in
  t38modem) converts audio samples. Pages are coded with T.4 or T.6 on their way to the line and decoded
  from it (\<^verbatim>\<open>t4_tx.c\<close>, \<^verbatim>\<open>t4_rx.c\<close>). The application passes octets between its threads in streams
  (\<^verbatim>\<open>pmutils.cxx\<close>), with DLE escapes towards the pseudo terminal (\<^verbatim>\<open>dle.cxx\<close>), and has an HDLC converter
  of its own (\<^verbatim>\<open>hdlc.cxx\<close>, \<^verbatim>\<open>fcs.cxx\<close>) for fax lines carried as raw data.

  \<^bold>\<open>Modelling.\<close> A C structure is a record with one field per member, prefixed by the component; an
  operation is a function of the same name from the old to the new record. Unsigned integers whose width
  matters are words; \<^verbatim>\<open>int\<close> variables that stay far below \<open>2 ^ 31\<close> are integers. An access outside a buffer,
  a call of an unset handler or a shift that C leaves undefined makes the operation \<open>None\<close>, so that a
  result \<open>Some\<close> is memory safety. Error returns are values. Calls of user handlers that cannot
  influence the component are recorded in order in a log field of the state; handlers whose
  effect matters (the HDLC underflow handler, the source of characters, the callbacks of the
  scheduler) are parameters. Every loop is a total function by structural
  recursion or a measure, except that of the scheduler, which callbacks can keep running forever, and
  those of the octet streams and the HDLC converter of t38modem: they are partial functions, \<open>None\<close> if they
  do not end, and that they end is proved, for the scheduler under a condition on the callbacks.

  \<^bold>\<open>Theories and their sources.\<close>

  \<^item> \<^verbatim>\<open>Prelude\<close>: the machine integer types, octets as bit sequences in both orders, checked reads
    and writes of memory, and the collections of simplification rules that all components use.
  \<^item> \<^verbatim>\<open>Crc\<close> (\<^verbatim>\<open>crc.c\<close>): the tables, calculation, appending and checking of CRC-16 and CRC-32. The locale
    \<open>crc_table\<close>, interpreted on both tables, relates them to the bit serial register; checking
    accepts exactly what appending produces, and every burst error up to the width is found.
  \<^item> \<^verbatim>\<open>Bit_Ops\<close> (\<^verbatim>\<open>bit_operations.c\<close>, \<^verbatim>\<open>spandsp/bit_operations.h\<close>): bit reversal, highest and lowest
    bit, counting and masks against their direct definitions.
  \<^item> \<^verbatim>\<open>Queue\<close>, \<^verbatim>\<open>Queue_Messages\<close> (\<^verbatim>\<open>queue.c\<close>): the ring buffer refines a bounded list. The locale
    \<open>octet_fifo\<close> is this contract; from it follow the order of octets under any sequence of
    reads and writes, and the message layer is a queue of messages.
  \<^item> \<^verbatim>\<open>Sig_Status\<close> (\<^verbatim>\<open>spandsp/async.h\<close>): the status values that stand in place of data.
  \<^item> \<^verbatim>\<open>Hdlc_Line\<close>: the line format as a specification. \<^verbatim>\<open>Hdlc_Rx\<close>, \<^verbatim>\<open>Hdlc_Tx\<close>
    (\<^verbatim>\<open>hdlc.c\<close>): all operations of receiver and transmitter with memory safety. \<^verbatim>\<open>Hdlc_Deframe\<close>: the receiver reports
    the frames of a specified line. \<^verbatim>\<open>Hdlc_Rx_Octets\<close>: its octet and bit interfaces agree.
    \<^verbatim>\<open>Hdlc_Rx_Lengths\<close>: overlong frames. \<^verbatim>\<open>Hdlc_Framing\<close>: the transmitter produces the specified line.
    \<^verbatim>\<open>Hdlc_Link\<close>: both together, for every handler that meets the locale \<open>frame_source\<close>; a queue of
    frames in the user data meets it.
  \<^item> \<^verbatim>\<open>T38_Names\<close>, \<^verbatim>\<open>T38_Core\<close> (\<^verbatim>\<open>t38_core.c\<close>): all operations of the packet layer.
    \<^verbatim>\<open>T38_Packets\<close>: the packet format as a specification and both directions against it.
    \<^verbatim>\<open>T38_Receive\<close>: the decoder on arbitrary octets, sequence numbers and repeated packets.
    \<^verbatim>\<open>T38_Protocol\<close>: the invariant of all reachable states as an inductive step relation, totality of the
    receiver, round trips, and the limits of the packet buffer.
  \<^item> \<^verbatim>\<open>T38_Non_Ecm\<close> (\<^verbatim>\<open>t38_non_ecm_buffer.c\<close>): input, row filling and output. The ring refines a list
    of octets, and filling ends for every row length (its measure is the number of missing bits). \<^verbatim>\<open>T38_Non_Ecm_Image\<close>: what
    is sent of image data as a specification on the bits of the line, EOLs and fill included, and the buffer against it.
  \<^item> \<^verbatim>\<open>Async\<close> (\<^verbatim>\<open>async.c\<close>): receiver and transmitter; characters, parity and framing errors, V.14 lines with deleted
    stop bits. \<^verbatim>\<open>Async_Link\<close>: both ends together for every source that meets the locale
    \<open>octet_source\<close>, interpreted on the octet queue of \<^verbatim>\<open>queue.c\<close>.
  \<^item> \<^verbatim>\<open>Schedule\<close> (\<^verbatim>\<open>schedule.c\<close>): an update makes exactly the due calls, once, in the order of the slots, and returns
    when each callback schedules at most one event; slots are reused lowest first.
  \<^item> \<^verbatim>\<open>Bitstream\<close> (\<^verbatim>\<open>bitstream.c\<close>): fields written and flushed are read back in both bit orders.
  \<^item> \<^verbatim>\<open>G711\<close> (\<^verbatim>\<open>g711.c\<close>, \<^verbatim>\<open>spandsp/g711.h\<close>, \<^verbatim>\<open>t38modem/g711.c\<close>): both implementations with their tables. \<^verbatim>\<open>G711_Error\<close>:
    round trips, error bounds, agreement of the implementations, and transcoding.
  \<^item> \<^verbatim>\<open>Data_Stream\<close> (\<^verbatim>\<open>t38modem/pmutils.cxx\<close>): the chunked octet stream on a store of chunks. The locale \<open>octet_stream\<close>
    says that a stream answers like a list of octets with an end mark; it is interpreted on the operations of
    the store, where no deleted chunk is ever used.
  \<^item> \<^verbatim>\<open>Dle\<close> (\<^verbatim>\<open>t38modem/dle.cxx\<close>): transparent data of the serial interface on top of it; data read with escapes
    in portions of four octets and more arrive unchanged, except long runs with bit reversal.
  \<^item> \<^verbatim>\<open>Fcs\<close> (\<^verbatim>\<open>t38modem/fcs.cxx\<close>): the check sequence of t38modem against the CRC-16 of spandsp.
  \<^item> \<^verbatim>\<open>Modem_Hdlc\<close> (\<^verbatim>\<open>t38modem/hdlc.cxx\<close>): the HDLC converter. \<^verbatim>\<open>Modem_Hdlc_Tx\<close>: what it puts on the line.
    \<^verbatim>\<open>Modem_Hdlc_Rx\<close>: the effect of one octet of the line in each state. \<^verbatim>\<open>Modem_Hdlc_Reads\<close>: reading whole
    frames in portions. \<^verbatim>\<open>Modem_Hdlc_Link\<close>: the converter with itself and, in both directions, with spandsp.
  \<^item> \<^verbatim>\<open>T4_Codes\<close> (\<^verbatim>\<open>t4_tx.c\<close>, \<^verbatim>\<open>t4_t6_decode_states.h\<close>): the code tables of both directions. \<^verbatim>\<open>T4_Tx\<close> (\<^verbatim>\<open>t4_tx.c\<close>): the page
    encoder. \<^verbatim>\<open>T4_Rx\<close> (\<^verbatim>\<open>t4_rx.c\<close>): the page decoder. \<^verbatim>\<open>T4_Runs\<close>: the word-wise search finds the colour changes of a row.
    \<^verbatim>\<open>T4_Line\<close>: one-dimensional rows and EOLs as a specification, and the encoder against it.
    \<^verbatim>\<open>T4_Lookup\<close>, \<^verbatim>\<open>T4_Decode\<close>: every code word is recognised whatever follows, and no sequence of code words has the
    eleven zeros of an EOL. \<^verbatim>\<open>T4_Modes\<close>: two-dimensional coding as an inductive relation between the runs of a row, those of
    the row above and the modes. \<^verbatim>\<open>T4_Tx_Modes\<close>: the encoder finds the changes that this coding needs, and sends its modes.
    \<^verbatim>\<open>T4_Tx_Page\<close>: the line format of a page, and the encoder against it. \<^verbatim>\<open>T4_Pixels\<close>: runs become
    pixels. \<^verbatim>\<open>T4_Rx_Line\<close>: the decoder sees the bits
    of the line whatever the octet boundaries are; progress on the line composes like a sequence of statements.
    \<^verbatim>\<open>T4_Rx_Buffer\<close>: its bit register on any input. \<^verbatim>\<open>T4_Rx_Row\<close>, \<^verbatim>\<open>T4_Rx_Eol\<close>, \<^verbatim>\<open>T4_Rx_Modes\<close>: codes of runs, the end of a row,
    and modes are decoded. \<^verbatim>\<open>T4_Page\<close>: whole pages through both ends. \<^verbatim>\<open>T4_Results\<close>: the guarantees in T.4 coding.
    \<^verbatim>\<open>T4_T6_First_Row\<close>: a page in T.6 coding whose row is lost. \<^verbatim>\<open>T4_Flaws\<close>: runs without pixels, which fill the run length
    buffer and overrun it, and a page whose end is not signalled.

  \<^bold>\<open>Bounds.\<close> The HDLC buffers have 404 octets, for frames of at most 400 octets and the CRC, as in
  \<^verbatim>\<open>private/hdlc.h\<close>. The T.38 round trips are for packets that fit the buffer of 1000 octets which
  the senders pass; larger fields overrun it, which is stated as a property of its own.
  Pages are rows of any width that is a multiple of eight pixels below \<open>2 ^ 31\<close>, as all fax widths are; the image
  buffer of the encoder grows by a hundred rows at a time, which bounds the fill of a single row. The decoder of a page is a
  partial function, and the round trip shows that it returns.
  The fields of a bit stream are at most 25 bits, the most that fit the 32 bit register after up to
  seven pending bits. The G.711 properties hold for all 16 bit samples and all codes.

  \<^bold>\<open>Properties that show flaws.\<close> Message lengths of 65536 octets wrap in \<^verbatim>\<open>queue.c\<close>; overlong HDLC frames are
  not counted as length errors; empty fields of T.38 version 0 and counts of 128 fields and more are
  not read back; the counter of missing packets is wrong across the wrap of the sequence
  numbers; the u-law encoder of t38modem rounds small negative samples away from zero; with bit
  reversal, runs of more than 1024 octets without DLE are stored wrongly by \<^verbatim>\<open>dle.cxx\<close>; the T.6 decoder starts with a
  wrong reference row, on which it loses rows that are white but for their last one, two or three pixels, and codes for empty
  runs overrun the run length buffer of the page decoder.

  \<^bold>\<open>Not modelled.\<close> The T.30 engine, the AT command interpreter and T.31 modem, and the
  T.38 terminal and gateway are clients of the components above and remain for
  extension in this order: the non-ECM and HDLC paths of the terminal and gateway, then the T.31 buffers,
  then T.30 phases. Of the page coders, TIFF files (through libtiff) and the text of page headers are left out, and the
  round trip is proved for T.4 coding in one and two dimensions; for T.6 it does not hold, because of the first row. Modems,
  tones, echo cancellation and speech codecs are signal processing whose correctness
  is statistical. The engines, drivers and the modem process of t38modem are threads over the
  timers, locks and strings of \<^verbatim>\<open>ptlib\<close>. Logging, allocation failures
  and the release functions are left out everywhere. The queues and streams are modelled with one operation at a time; the use of \<^verbatim>\<open>queue.c\<close> by two
  threads without a lock is not.
\<close>

end
